(* ===== verification/Prelude.thy ===== *)
theory Prelude
  imports Main "HOL-Library.Word"
begin

unbundle bit_operations_syntax

text \<open>
  Shared vocabulary of the development: the machine integer types of \<open>kernel/stdint.h\<close>,
  the result type of operations that may panic, the combinator for bounded loops over
  such operations, and the generic facts on words and lists that the component theories
  share.
\<close>

section \<open>Machine integers\<close>

type_synonym u8 = "8 word"
type_synonym u16 = "16 word"
type_synonym u32 = "32 word"
type_synonym u64 = "64 word"

section \<open>Operations that may not return\<close>

text \<open>
  \<open>Debug::panic\<close> prints its message and then loops for ever, and \<open>SYS::exit\<close> stops the
  calling thread. Neither returns to its caller. Both are error values here.
\<close>

datatype kerror =
    Panic string        \<comment> \<open>\<open>Debug::panic\<close>\<close>
  | Assertion string    \<comment> \<open>a failed \<open>ASSERT\<close>, which panics\<close>
  | ThreadExit int      \<comment> \<open>\<open>SYS::exit(status)\<close>: the calling thread stops\<close>

type_synonym 'a res = "kerror + 'a"

definition bindE :: "'a res \<Rightarrow> ('a \<Rightarrow> 'b res) \<Rightarrow> 'b res" where
  "bindE r f = (case r of Inl e \<Rightarrow> Inl e | Inr x \<Rightarrow> f x)"

text \<open>\<open>ASSERT\<close> of \<open>kernel/debug.h\<close>.\<close>

definition ASSERT :: "bool \<Rightarrow> string \<Rightarrow> unit res" where
  "ASSERT invariant txt = (if invariant then Inr () else Inl (Assertion txt))"

text \<open>A \<open>for\<close> loop over the given indices whose body may panic.\<close>

fun forE :: "('i \<Rightarrow> 's \<Rightarrow> 's res) \<Rightarrow> 'i list \<Rightarrow> 's \<Rightarrow> 's res" where
  "forE f [] s = Inr s"
| "forE f (i # is) s = bindE (f i s) (forE f is)"

named_theorems res_simps \<open>evaluation of results\<close>

lemma bindE_Inr [simp, res_simps]: "bindE (Inr x) f = f x"
  by (simp add: bindE_def)

lemma bindE_Inl [simp, res_simps]: "bindE (Inl e) f = Inl e"
  by (simp add: bindE_def)

lemma bindE_eq_Inr: "bindE r f = Inr y \<longleftrightarrow> (\<exists>x. r = Inr x \<and> f x = Inr y)"
  by (cases r) auto

lemma bindE_InrE [elim!]:
  assumes "bindE r f = Inr y"
  obtains x where "r = Inr x" and "f x = Inr y"
  using assms by (auto simp: bindE_eq_Inr)

lemma bindE_assoc: "bindE (bindE r f) g = bindE r (\<lambda>x. bindE (f x) g)"
  by (cases r) auto

lemma ASSERT_True [simp, res_simps]: "ASSERT True t = Inr ()"
  by (simp add: ASSERT_def)

lemma ASSERT_eq_Inr [simp]: "ASSERT b t = Inr u \<longleftrightarrow> b"
  by (simp add: ASSERT_def)

lemma forE_append: "forE f (xs @ ys) s = bindE (forE f xs s) (forE f ys)"
proof (induction xs arbitrary: s)
  case (Cons x xs)
  show ?case by (cases "f x s") (simp_all add: Cons)
qed simp

text \<open>The rule for loops: an invariant indexed by the part of the loop already run.\<close>

lemma forE_invariant:
  assumes "forE f is s = Inr t"
    and "I [] s"
    and "\<And>pre i post u v. is = pre @ i # post \<Longrightarrow> I pre u \<Longrightarrow> f i u = Inr v \<Longrightarrow> I (pre @ [i]) v"
  shows "I is t"
proof -
  have "forE f js u = Inr t \<Longrightarrow> is = pre @ js \<Longrightarrow> I pre u \<Longrightarrow> I is t" for js pre u
  proof (induction js arbitrary: pre u)
    case Nil
    then show ?case by simp
  next
    case (Cons j js)
    from Cons.prems(1) obtain v where v: "f j u = Inr v" "forE f js v = Inr t" by auto
    have "I (pre @ [j]) v" using assms(3) [OF Cons.prems(2,3) v(1)] .
    then show ?case using Cons.IH [OF v(2)] Cons.prems(2) by simp
  qed
  from this [OF assms(1), of "[]"] assms(2) show ?thesis by simp
qed

text \<open>The same for total correctness: the body returns wherever the invariant holds.\<close>

lemma forE_total:
  assumes "I [] s"
    and "\<And>pre i post u. is = pre @ i # post \<Longrightarrow> I pre u \<Longrightarrow> \<exists>v. f i u = Inr v \<and> I (pre @ [i]) v"
  shows "\<exists>t. forE f is s = Inr t \<and> I is t"
proof -
  have "is = pre @ js \<Longrightarrow> I pre u \<Longrightarrow> \<exists>t. forE f js u = Inr t \<and> I is t" for js pre u
  proof (induction js arbitrary: pre u)
    case Nil
    then show ?case by simp
  next
    case (Cons j js)
    obtain v where v: "f j u = Inr v" "I (pre @ [j]) v"
      using assms(2) [OF Cons.prems] by auto
    show ?case using Cons.IH [OF _ v(2)] Cons.prems(1) v(1) by simp
  qed
  from this [of "[]" "is" s] assms(1) show ?thesis by simp
qed


section \<open>Outcomes\<close>

text \<open>The result satisfies \<open>P\<close>, or it is one of the errors \<open>E\<close>.\<close>

definition outcome :: "kerror set \<Rightarrow> ('a \<Rightarrow> bool) \<Rightarrow> 'a res \<Rightarrow> bool" where
  "outcome E P r \<longleftrightarrow> (case r of Inl e \<Rightarrow> e \<in> E | Inr x \<Rightarrow> P x)"

lemma outcome_simps [simp]:
  "outcome E P (Inr x) \<longleftrightarrow> P x"
  "outcome E P (Inl e) \<longleftrightarrow> e \<in> E"
  by (simp_all add: outcome_def)

lemma outcome_bind:
  assumes "outcome E Q r" and "\<And>x. r = Inr x \<Longrightarrow> Q x \<Longrightarrow> outcome E P (f x)"
  shows "outcome E P (bindE r f)"
  using assms by (cases r) auto

lemma outcome_mono: "outcome E Q r \<Longrightarrow> (\<And>x. r = Inr x \<Longrightarrow> Q x \<Longrightarrow> P x) \<Longrightarrow> outcome E P r"
  by (cases r) auto

lemma outcomeD: "outcome E P r \<Longrightarrow> r = Inr x \<Longrightarrow> P x"
  by simp

lemma outcome_cases: "outcome E P r \<Longrightarrow> (\<exists>e\<in>E. r = Inl e) \<or> (\<exists>x. r = Inr x \<and> P x)"
  by (cases r) auto

text \<open>A loop over \<open>0..<n\<close>.\<close>

lemma outcome_upt:
  assumes "I 0 s" and "\<And>i s. i < n \<Longrightarrow> I i s \<Longrightarrow> outcome E (I (Suc i)) (f i s)"
  shows "outcome E (I n) (forE f [0..<n] s)"
  using assms
proof (induction n)
  case 0
  then show ?case by simp
next
  case (Suc n)
  then have "outcome E (I n) (forE f [0..<n] s)" by simp
  then have "outcome E (I (Suc n)) (bindE (forE f [0..<n] s) (forE f [n]))"
  proof (rule outcome_bind)
    fix x assume "I n x"
    with Suc.prems(2) [of n x] have "outcome E (I (Suc n)) (f n x)" by simp
    then show "outcome E (I (Suc n)) (forE f [n] x)" by (cases "f n x") auto
  qed
  then show ?case by (simp add: forE_append)
qed

lemma fold_upt:
  assumes "I 0 s" and "\<And>i s. i < n \<Longrightarrow> I i s \<Longrightarrow> I (Suc i) (f i s)"
  shows "I n (fold f [0..<n] s)"
  using assms by (induction n) auto

end
