(* ===== verification/Heap.thy ===== *)
theory Heap
  imports Prelude
begin

text \<open>
  The kernel heap, \<open>kernel/heap.cc\<close>: one array of \<open>int\<close>s tiled by blocks, each with its
  size in its first and its last word (negative for a taken block), the available blocks
  linked through their second and third words into a list that starts at \<open>avail\<close>.

  The array is a function from indices to values: \<open>array[i]\<close> is the word at \<open>4 i\<close> bytes
  past the base address, whatever \<open>i\<close> is. Values are mathematical integers; under the
  invariant every value the code stores lies between \<open>- len\<close> and \<open>len\<close>, so the C \<open>int\<close>s
  do not overflow. Byte counts and addresses are \<open>u32\<close>, where the code's \<open>size_t\<close> and
  \<open>uintptr_t\<close> arithmetic wraps around.

  The lock \<open>theLock\<close> makes \<open>malloc\<close> and \<open>free\<close> critical sections; each is one step here.
\<close>

section \<open>State and operations\<close>

record kheap =
  array :: "int \<Rightarrow> int"
  base :: u32
  hlen :: int
  avail :: int

text \<open>\<open>static int safe = 0\<close>, which nothing assigns.\<close>

definition safe :: bool where
  "safe = False"

definition abs_int :: "int \<Rightarrow> int" where
  "abs_int x = (if x < 0 then - x else x)"

definition size_at :: "kheap \<Rightarrow> int \<Rightarrow> int" where
  "size_at h i = abs_int (array h i)"

definition headerFromFooter :: "kheap \<Rightarrow> int \<Rightarrow> int" where
  "headerFromFooter h i = i - size_at h i + 1"

definition footerFromHeader :: "kheap \<Rightarrow> int \<Rightarrow> int" where
  "footerFromHeader h i = i + size_at h i - 1"

definition sanity :: "kheap \<Rightarrow> int \<Rightarrow> int res" where
  "sanity h i =
     (if safe then
        if i = 0 then Inr 0
        else if i < 0 \<or> hlen h \<le> i then Inl (Panic ''bad header index'')
        else let footer = footerFromHeader h i in
          if footer < 0 \<or> hlen h \<le> footer then Inl (Panic ''bad footer index'')
          else let hv = array h i; fv = array h footer in
            if hv \<noteq> fv then Inl (Panic ''bad block'') else Inr i
      else Inr i)"

definition left_blk :: "kheap \<Rightarrow> int \<Rightarrow> int res" where
  "left_blk h i = sanity h (headerFromFooter h (i - 1))"

definition right_blk :: "kheap \<Rightarrow> int \<Rightarrow> int res" where
  "right_blk h i = sanity h (i + size_at h i)"

definition next_blk :: "kheap \<Rightarrow> int \<Rightarrow> int res" where
  "next_blk h i = sanity h (array h (i + 1))"

definition prev_blk :: "kheap \<Rightarrow> int \<Rightarrow> int res" where
  "prev_blk h i = sanity h (array h (i + 2))"

definition set_at :: "kheap \<Rightarrow> int \<Rightarrow> int \<Rightarrow> kheap" where
  "set_at h i x = h\<lparr>array := (array h)(i := x)\<rparr>"

definition setNext :: "kheap \<Rightarrow> int \<Rightarrow> int \<Rightarrow> kheap" where
  "setNext h i x = set_at h (i + 1) x"

definition setPrev :: "kheap \<Rightarrow> int \<Rightarrow> int \<Rightarrow> kheap" where
  "setPrev h i x = set_at h (i + 2) x"

definition remove_blk :: "kheap \<Rightarrow> int \<Rightarrow> kheap res" where
  "remove_blk h i =
     bindE (prev_blk h i) (\<lambda>prevIndex.
     bindE (next_blk h i) (\<lambda>nextIndex.
       let h1 = (if prevIndex = 0 then h\<lparr>avail := nextIndex\<rparr>
                 else setNext h prevIndex nextIndex)
       in Inr (if nextIndex \<noteq> 0 then setPrev h1 nextIndex prevIndex else h1)))"

definition makeAvail :: "kheap \<Rightarrow> int \<Rightarrow> int \<Rightarrow> kheap" where
  "makeAvail h i ints =
     (let h1 = set_at h i ints;
          h2 = set_at h1 (footerFromHeader h1 i) ints;
          h3 = setNext h2 i (avail h2);
          h4 = setPrev h3 i 0;
          h5 = (if avail h4 \<noteq> 0 then setPrev h4 (avail h4) i else h4)
      in h5\<lparr>avail := i\<rparr>)"

definition makeTaken :: "kheap \<Rightarrow> int \<Rightarrow> int \<Rightarrow> kheap" where
  "makeTaken h i ints =
     (let h1 = set_at h i (- ints)
      in set_at h1 (footerFromHeader h1 i) (- ints))"

definition isAvail :: "kheap \<Rightarrow> int \<Rightarrow> bool" where
  "isAvail h i \<longleftrightarrow> array h i > 0"

definition isTaken :: "kheap \<Rightarrow> int \<Rightarrow> bool" where
  "isTaken h i \<longleftrightarrow> array h i < 0"

text \<open>\<open>\&array[i]\<close>\<close>

definition addr_of :: "kheap \<Rightarrow> int \<Rightarrow> u32" where
  "addr_of h i = base h + 4 * word_of_int i"

text \<open>
  The search loop of \<open>malloc\<close>: walk the list of available blocks and keep the smallest
  that fits, among the first \<open>countDown\<close> that fit. On a list with a cycle the loop does
  not end, which is the result \<open>None\<close>.
\<close>

partial_function (option) scan ::
  "kheap \<Rightarrow> int \<Rightarrow> int \<Rightarrow> int \<Rightarrow> int \<Rightarrow> int \<Rightarrow> (int \<times> int) res option" where
  "scan h ints p countDown mx it =
     (if p = 0 then Some (Inr (mx, it))
      else if \<not> isAvail h p then Some (Inl (Panic ''block is not available in malloc''))
      else let sz = size_at h p in
        if ints \<le> sz then
          let mx' = (if sz < mx then sz else mx);
              it' = (if sz < mx then p else it);
              countDown' = countDown - 1 in
          if countDown' = 0 then Some (Inr (mx', it'))
          else (case next_blk h p of Inl e \<Rightarrow> Some (Inl e)
                | Inr q \<Rightarrow> scan h ints q countDown' mx' it')
        else (case next_blk h p of Inl e \<Rightarrow> Some (Inl e)
              | Inr q \<Rightarrow> scan h ints q countDown mx it))"

text \<open>\<open>int ints = ((bytes + 3) / 4) + 2; if (ints < 4) ints = 4;\<close> in unsigned arithmetic.\<close>

definition ints_for :: "u32 \<Rightarrow> int" where
  "ints_for bytes = (let ints = sint ((bytes + 3) div 4 + 2) in if ints < 4 then 4 else ints)"

definition malloc :: "kheap \<Rightarrow> u32 \<Rightarrow> (kheap \<times> u32) res option" where
  "malloc h bytes =
     (if bytes = 0 then Some (Inr (h, addr_of h 0))
      else let ints = ints_for bytes in
        case scan h ints (avail h) 20 0x7FFFFFFF 0 of
          None \<Rightarrow> None
        | Some (Inl e) \<Rightarrow> Some (Inl e)
        | Some (Inr (mx, it)) \<Rightarrow>
            if it \<noteq> 0 then
              Some (bindE (remove_blk h it) (\<lambda>h1.
                let extra = mx - ints;
                    h2 = (if 4 \<le> extra
                          then makeAvail (makeTaken h1 it ints) (it + ints) extra
                          else makeTaken h1 it mx)
                in Inr (h2, addr_of h2 (it + 1))))
            else Some (Inr (h, 0)))"

definition index_of :: "kheap \<Rightarrow> u32 \<Rightarrow> int" where
  "index_of h p = sint ((p - base h) div 4 - 1)"

definition free :: "kheap \<Rightarrow> u32 \<Rightarrow> kheap res" where
  "free h p =
     (if p = 0 then Inr h
      else if p = addr_of h 0 then Inr h
      else let idx = index_of h p in
        bindE (sanity h idx) (\<lambda>_.
        if \<not> isTaken h idx then Inl (Panic ''freeing free block'')
        else
          let sz = size_at h idx in
          bindE (left_blk h idx) (\<lambda>leftIndex.
          bindE (right_blk h idx) (\<lambda>rightIndex.
          bindE (if isAvail h leftIndex
                 then bindE (remove_blk h leftIndex)
                        (\<lambda>h1. Inr (h1, leftIndex, sz + size_at h1 leftIndex))
                 else Inr (h, idx, sz)) (\<lambda>(h1, idx1, sz1).
          bindE (if isAvail h1 rightIndex
                 then bindE (remove_blk h1 rightIndex)
                        (\<lambda>h2. Inr (h2, sz1 + size_at h2 rightIndex))
                 else Inr (h1, sz1)) (\<lambda>(h2, sz2).
          Inr (makeAvail h2 idx1 sz2)))))))"

text \<open>
  \<open>heapInit\<close>: the memory before it is arbitrary (\<open>avail\<close> is statically 0). Its last act, \<open>theLock = new BlockingLock()\<close>,
  is \<open>operator new\<close> with the size of the lock object, which panics when the heap is full.
\<close>

definition init_blocks :: "kheap \<Rightarrow> u32 \<Rightarrow> u32 \<Rightarrow> kheap" where
  "init_blocks h b bytes =
     (let n = sint (bytes div 4);
          h0 = h\<lparr>base := b, hlen := n\<rparr>;
          h1 = makeTaken h0 0 2;
          h2 = makeAvail h1 2 (n - 4)
      in makeTaken h2 (n - 2) 2)"

definition operator_new :: "kheap \<Rightarrow> u32 \<Rightarrow> (kheap \<times> u32) res option" where
  "operator_new h sz =
     (case malloc h sz of
        None \<Rightarrow> None
      | Some (Inl e) \<Rightarrow> Some (Inl e)
      | Some (Inr (h', p)) \<Rightarrow> if p = 0 then Some (Inl (Panic ''out of memory'')) else Some (Inr (h', p)))"

definition heapInit :: "kheap \<Rightarrow> u32 \<Rightarrow> u32 \<Rightarrow> u32 \<Rightarrow> (kheap \<times> u32) res option" where
  "heapInit h b bytes sizeof_lock = operator_new (init_blocks h b bytes) sizeof_lock"

definition operator_delete :: "kheap \<Rightarrow> u32 \<Rightarrow> kheap res" where
  "operator_delete h p = free h p"

lemma sanity_id [simp]: "sanity h i = Inr i"
  by (simp add: sanity_def safe_def)

lemma set_at_simps [simp]:
  "array (set_at h i x) = (array h)(i := x)"
  "base (set_at h i x) = base h" "hlen (set_at h i x) = hlen h" "avail (set_at h i x) = avail h"
  by (simp_all add: set_at_def)

lemmas step_defs = setNext_def setPrev_def left_blk_def right_blk_def next_blk_def prev_blk_def

end
