(* ===== verification/Heap_Inv.thy ===== *)
theory Heap_Inv
  imports Heap
begin

text \<open>
  The invariant of the kernel heap and the lemmas that its operations keep it. The abstract
  state is a pair: the list of blocks (size, taken) that tiles the array from index 0, and
  the list \<open>fl\<close> of the indices of the available blocks in the order of the linked list.
\<close>

section \<open>Tilings\<close>

type_synonym blk = "int \<times> bool"

definition span :: "blk list \<Rightarrow> int" where
  "span bs = sum_list (map fst bs)"

lemma span_simps [simp]:
  "span [] = 0" "span (b # bs) = fst b + span bs" "span (xs @ ys) = span xs + span ys"
  by (simp_all add: span_def)

fun tiled :: "(int \<Rightarrow> int) \<Rightarrow> int \<Rightarrow> blk list \<Rightarrow> bool" where
  "tiled a i [] \<longleftrightarrow> True"
| "tiled a i ((s, t) # bs) \<longleftrightarrow>
     2 \<le> s \<and> a i = (if t then - s else s) \<and> a (i + s - 1) = (if t then - s else s) \<and> tiled a (i + s) bs"

text \<open>The blocks with their indices.\<close>

fun blocks :: "int \<Rightarrow> blk list \<Rightarrow> (int \<times> int \<times> bool) list" where
  "blocks i [] = []"
| "blocks i ((s, t) # bs) = (i, s, t) # blocks (i + s) bs"

definition free_starts :: "int \<Rightarrow> blk list \<Rightarrow> int list" where
  "free_starts i bs = map fst (filter (\<lambda>(x, s, t). \<not> t) (blocks i bs))"

lemma tiled_append: "tiled a i (xs @ ys) \<longleftrightarrow> tiled a i xs \<and> tiled a (i + span xs) ys"
  by (induction xs arbitrary: i) (auto simp: add.assoc)

lemma blocks_append: "blocks i (xs @ ys) = blocks i xs @ blocks (i + span xs) ys"
  by (induction xs arbitrary: i) (auto simp: add.assoc)

lemma free_starts_simps [simp]:
  "free_starts i [] = []"
  "free_starts i ((s, True) # bs) = free_starts (i + s) bs"
  "free_starts i ((s, False) # bs) = i # free_starts (i + s) bs"
  by (simp_all add: free_starts_def)

lemma free_starts_append:
  "free_starts i (xs @ ys) = free_starts i xs @ free_starts (i + span xs) ys"
  by (simp add: free_starts_def blocks_append)

lemma tiled_span_nonneg: "tiled a i bs \<Longrightarrow> 0 \<le> span bs"
  by (induction a i bs rule: tiled.induct) auto

lemma tiled_cong:
  assumes "\<And>k. i \<le> k \<Longrightarrow> k < i + span bs \<Longrightarrow> a k = a' k"
  shows "tiled a i bs \<longleftrightarrow> tiled a' i bs"
  using assms
proof (induction bs arbitrary: i)
  case Nil
  then show ?case by simp
next
  case (Cons b bs)
  obtain s t where b: "b = (s, t)" by (cases b)
  show ?case
  proof (cases "2 \<le> s")
    case False
    then show ?thesis by (simp add: b)
  next
    case True
    note two = this
    show ?thesis
    proof (cases "0 \<le> span bs")
      case False
      then have "\<not> tiled a (i + s) bs" and "\<not> tiled a' (i + s) bs"
        using tiled_span_nonneg by blast+
      then show ?thesis by (simp add: b)
    next
      case nn: True
      have "tiled a (i + s) bs \<longleftrightarrow> tiled a' (i + s) bs"
        using two Cons.prems by (intro Cons.IH) (auto simp: b)
      moreover have "a i = a' i" "a (i + s - 1) = a' (i + s - 1)"
        using two nn Cons.prems by (auto simp: b)
      ultimately show ?thesis by (simp add: b)
    qed
  qed
qed

lemma in_blocks_split:
  "(x, s, t) \<in> set (blocks i bs) \<Longrightarrow> \<exists>xs ys. bs = xs @ (s, t) # ys \<and> x = i + span xs"
proof (induction bs arbitrary: i)
  case Nil
  then show ?case by simp
next
  case (Cons b bs)
  obtain s' t' where b: "b = (s', t')" by (cases b)
  from Cons.prems consider "(x, s, t) = (i, s', t')" | "(x, s, t) \<in> set (blocks (i + s') bs)"
    by (auto simp: b)
  then show ?case
  proof cases
    case 1
    then show ?thesis using b by fastforce
  next
    case 2
    from Cons.IH [OF this] obtain xs ys where "bs = xs @ (s, t) # ys" "x = i + s' + span xs" by auto
    then have "b # bs = (b # xs) @ (s, t) # ys \<and> x = i + span (b # xs)" by (simp add: b)
    then show ?thesis by blast
  qed
qed

lemma in_free_starts: "x \<in> set (free_starts i bs) \<longleftrightarrow> (\<exists>s. (x, s, False) \<in> set (blocks i bs))"
  by (force simp: free_starts_def)

lemma blocks_bounds:
  assumes "tiled a i bs" and "(x, s, t) \<in> set (blocks i bs)"
  shows "i \<le> x \<and> x + s \<le> i + span bs \<and> 2 \<le> s \<and> a x = (if t then - s else s)
    \<and> a (x + s - 1) = (if t then - s else s)"
proof -
  obtain xs ys where *: "bs = xs @ (s, t) # ys" "x = i + span xs"
    using in_blocks_split [OF assms(2)] by blast
  with assms(1) have "tiled a i xs" "tiled a x ((s, t) # ys)"
    by (auto simp: tiled_append)
  then show ?thesis using * tiled_span_nonneg by (fastforce split: if_splits)
qed

lemma blocks_disjoint:
  assumes "tiled a i bs" "(x, s, t) \<in> set (blocks i bs)" "(y, s', t') \<in> set (blocks i bs)" "x \<noteq> y"
  shows "x + s \<le> y \<or> y + s' \<le> x"
  using assms
proof (induction a i bs rule: tiled.induct)
  case (1 a i)
  then show ?case by simp
next
  case (2 a i s0 t0 bs)
  have t: "tiled a (i + s0) bs" using 2 by simp
  consider "(x, s, t) = (i, s0, t0)" "(y, s', t') \<in> set (blocks (i + s0) bs)"
    | "(y, s', t') = (i, s0, t0)" "(x, s, t) \<in> set (blocks (i + s0) bs)"
    | "(x, s, t) \<in> set (blocks (i + s0) bs)" "(y, s', t') \<in> set (blocks (i + s0) bs)"
    using 2 by auto
  then show ?case
  proof cases
    case 1
    with blocks_bounds [OF t 1(2)] show ?thesis by auto
  next
    case 22: 2
    with blocks_bounds [OF t 22(2)] show ?thesis by auto
  next
    case 3
    with 2 t show ?thesis by auto
  qed
qed

lemma blocks_unique:
  assumes "tiled a i bs" "(x, s, t) \<in> set (blocks i bs)" "(x, s', t') \<in> set (blocks i bs)"
  shows "s = s' \<and> t = t'"
  using blocks_bounds [OF assms(1,2)] blocks_bounds [OF assms(1,3)] by (auto split: if_splits)

text \<open>Replacing a segment of the tiling, whatever is written inside it.\<close>

lemma tiled_replace:
  assumes "tiled a i (xs @ ms @ ys)" and "span ms = span ms'"
    and "tiled a' (i + span xs) ms'"
    and "\<And>k. k < i + span xs \<or> i + span xs + span ms \<le> k \<Longrightarrow> a' k = a k"
  shows "tiled a' i (xs @ ms' @ ys)"
proof -
  have "tiled a i xs" "tiled a (i + span xs + span ms) ys"
    using assms(1) by (auto simp: tiled_append)
  moreover have "tiled a i xs \<longleftrightarrow> tiled a' i xs"
    by (rule tiled_cong) (simp add: assms(4))
  moreover have "tiled a (i + span xs + span ms) ys \<longleftrightarrow> tiled a' (i + span xs + span ms) ys"
    by (rule tiled_cong) (simp add: assms(4))
  ultimately show ?thesis using assms(2,3) by (simp add: tiled_append add.assoc)
qed

text \<open>Writing a link word of a block leaves the tiling as it is.\<close>

lemma tiled_link_write:
  assumes "tiled a i bs" "(x, s, t) \<in> set (blocks i bs)" "x < k" "k < x + s - 1"
  shows "tiled (a(k := v)) i bs"
proof -
  obtain xs ys where *: "bs = xs @ (s, t) # ys" "x = i + span xs"
    using in_blocks_split [OF assms(2)] by blast
  have "tiled (a(k := v)) i (xs @ [(s, t)] @ ys)"
  proof (rule tiled_replace)
    show "tiled a i (xs @ [(s, t)] @ ys)" using assms(1) * by simp
    show "tiled (a(k := v)) (i + span xs) [(s, t)]"
      using assms * by (auto simp: tiled_append)
  qed (use assms * in auto)
  then show ?thesis using * by simp
qed

section \<open>The list of available blocks\<close>

text \<open>
  \<open>cseg a pr p xs pr' q\<close>: from a predecessor \<open>pr\<close> and an index \<open>p\<close>, the links lead through
  \<open>xs\<close> and on to \<open>q\<close>, whose predecessor is \<open>pr'\<close>.
\<close>

fun cseg :: "(int \<Rightarrow> int) \<Rightarrow> int \<Rightarrow> int \<Rightarrow> int list \<Rightarrow> int \<Rightarrow> int \<Rightarrow> bool" where
  "cseg a pr p [] pr' q \<longleftrightarrow> p = q \<and> pr = pr'"
| "cseg a pr p (x # xs) pr' q \<longleftrightarrow> p = x \<and> x \<noteq> 0 \<and> a (x + 2) = pr \<and> cseg a x (a (x + 1)) xs pr' q"

definition chain :: "(int \<Rightarrow> int) \<Rightarrow> int \<Rightarrow> int list \<Rightarrow> bool" where
  "chain a p fl \<longleftrightarrow> (\<exists>pr'. cseg a 0 p fl pr' 0)"

lemma cseg_append: "cseg a pr p (us @ vs) pr' q \<longleftrightarrow> (\<exists>pm m. cseg a pr p us pm m \<and> cseg a pm m vs pr' q)"
  by (induction us arbitrary: pr p) auto

lemma cseg_cong:
  assumes "\<And>x. x \<in> set xs \<Longrightarrow> a (x + 1) = a' (x + 1) \<and> a (x + 2) = a' (x + 2)"
  shows "cseg a pr p xs pr' q \<longleftrightarrow> cseg a' pr p xs pr' q"
  using assms by (induction xs arbitrary: pr p) auto

lemma chain_Nil [simp]: "chain a p [] \<longleftrightarrow> p = 0"
  by (auto simp: chain_def)

lemma chain_head: "chain a p fl \<Longrightarrow> p = (case fl of [] \<Rightarrow> 0 | x # _ \<Rightarrow> x)"
  by (auto simp: chain_def split: list.split)

lemma chain_nonzero: "chain a p fl \<Longrightarrow> x \<in> set fl \<Longrightarrow> x \<noteq> 0"
proof -
  have "cseg a pr p xs pr' q \<Longrightarrow> x \<in> set xs \<Longrightarrow> x \<noteq> 0" for pr p xs pr' q
    by (induction xs arbitrary: pr p) auto
  then show "chain a p fl \<Longrightarrow> x \<in> set fl \<Longrightarrow> x \<noteq> 0" by (auto simp: chain_def)
qed

definition apart :: "int list \<Rightarrow> bool" where
  "apart fl \<longleftrightarrow> distinct fl \<and> (\<forall>x\<in>set fl. \<forall>y\<in>set fl. x < y \<longrightarrow> x + 4 \<le> y)"

lemma apart_neq:
  assumes "apart fl" "x \<in> set fl" "y \<in> set fl" "x \<noteq> y"
  shows "x + 1 \<noteq> y + 2" "x + 1 \<noteq> y + 1" "x + 2 \<noteq> y + 1" "x + 2 \<noteq> y + 2"
proof -
  from assms have "x + 4 \<le> y \<or> y + 4 \<le> x"
    unfolding apart_def by (metis linorder_neqE)
  then show "x + 1 \<noteq> y + 2" "x + 1 \<noteq> y + 1" "x + 2 \<noteq> y + 1" "x + 2 \<noteq> y + 2" by auto
qed

lemma apart_sub: "apart (us @ x # vs) \<Longrightarrow> apart (us @ vs)"
  by (auto simp: apart_def)


lemma cseg_snoc:
  "cseg a pr p (us @ [u]) pm m \<longleftrightarrow>
     (\<exists>pm'. cseg a pr p us pm' u \<and> u \<noteq> 0 \<and> a (u + 2) = pm') \<and> pm = u \<and> m = a (u + 1)"
  by (auto simp: cseg_append)

lemma cseg_set_next:
  assumes "cseg a pr p (us @ [u]) pm m" "apart (us @ [u])"
  shows "cseg (a(u + 1 := n)) pr p (us @ [u]) u n"
proof -
  from assms obtain pm' where c: "cseg a pr p us pm' u" "u \<noteq> 0" "a (u + 2) = pm'"
    by (auto simp: cseg_snoc)
  have "cseg (a(u + 1 := n)) pr p us pm' u"
  proof (rule cseg_cong [THEN iffD1, OF _ c(1)])
    fix x assume "x \<in> set us"
    with assms(2) have "x \<noteq> u" "x + 1 \<noteq> u + 1" "x + 2 \<noteq> u + 1"
      using apart_neq [OF assms(2), of x u] by (auto simp: apart_def)
    then show "a (x + 1) = (a(u + 1 := n)) (x + 1) \<and> a (x + 2) = (a(u + 1 := n)) (x + 2)"
      by simp
  qed
  with c show ?thesis by (auto simp: cseg_snoc)
qed

lemma cseg_set_prev:
  assumes "cseg a pr v (v # vs) pr' q" "apart (v # vs)"
  shows "cseg (a(v + 2 := pm)) pm v (v # vs) pr' q"
proof -
  have "cseg (a(v + 2 := pm)) v (a (v + 1)) vs pr' q"
  proof (rule cseg_cong [THEN iffD1])
    show "cseg a v (a (v + 1)) vs pr' q" using assms(1) by simp
  next
    fix x assume "x \<in> set vs"
    then show "a (x + 1) = (a(v + 2 := pm)) (x + 1) \<and> a (x + 2) = (a(v + 2 := pm)) (x + 2)"
      using apart_neq [OF assms(2), of x v] assms(2) by (auto simp: apart_def)
  qed
  with assms(1) show ?thesis by simp
qed

lemma cseg_fresh:
  assumes "cseg a pr p us pm m" "\<And>x. x \<in> set us \<Longrightarrow> k \<noteq> x + 1 \<and> k \<noteq> x + 2"
  shows "cseg (a(k := v)) pr p us pm m"
  by (rule cseg_cong [THEN iffD1, OF _ assms(1)]) (use assms(2) in auto)

lemma apart_append: "apart (us @ vs) \<Longrightarrow> apart us \<and> apart vs"
  by (auto simp: apart_def)

text \<open>The effect of unlinking \<open>x\<close>, as \<open>remove\<close> does it.\<close>

definition unlink_next :: "(int \<Rightarrow> int) \<Rightarrow> int \<Rightarrow> int \<Rightarrow> int" where
  "unlink_next a x = (if a (x + 2) = 0 then a else a(a (x + 2) + 1 := a (x + 1)))"

definition unlink :: "(int \<Rightarrow> int) \<Rightarrow> int \<Rightarrow> int \<Rightarrow> int" where
  "unlink a x = (if a (x + 1) = 0 then unlink_next a x
                 else (unlink_next a x)(a (x + 1) + 2 := a (x + 2)))"

lemma remove_blk_eq:
  "remove_blk h i = Inr (h\<lparr>array := unlink (array h) i,
     avail := (if array h (i + 2) = 0 then array h (i + 1) else avail h)\<rparr>)"
  by (cases h)
    (auto simp: remove_blk_def step_defs unlink_def unlink_next_def Let_def set_at_def)

lemma unlink_chain:
  assumes "chain a p (us @ x # vs)" "apart (us @ x # vs)"
  shows "chain (unlink a x) (if a (x + 2) = 0 then a (x + 1) else p) (us @ vs)"
proof -
  from assms(1) obtain pm pr' where
    u: "cseg a 0 p us pm x" and x: "x \<noteq> 0" "a (x + 2) = pm" and v: "cseg a x (a (x + 1)) vs pr' 0"
    by (auto simp: chain_def cseg_append)
  note ap = apart_append [OF apart_sub [OF assms(2)]]
  have neq: "y + 1 \<noteq> z + 2 \<and> y + 2 \<noteq> z + 1 \<and> y \<noteq> z" if "y \<in> set us" "z \<in> set vs" for y z
    using that assms(2) apart_neq [OF assms(2), of y z] by (auto simp: apart_def)
  let ?p = "if a (x + 2) = 0 then a (x + 1) else p"
  have next_part: "\<exists>pm'. pm' = pm \<and> cseg (unlink_next a x) 0 ?p us pm (a (x + 1)) \<and>
      cseg (unlink_next a x) x (a (x + 1)) vs pr' 0"
  proof (cases us rule: rev_cases)
    case Nil
    with u v x show ?thesis by (auto simp: unlink_next_def)
  next
    case (snoc us' w)
    with u have w: "pm = w" "w \<noteq> 0" by (auto simp: cseg_snoc)
    have "cseg (a(w + 1 := a (x + 1))) 0 p us w (a (x + 1))"
      using cseg_set_next [of a 0 p us' w pm x] u ap snoc by simp
    moreover have "cseg (a(w + 1 := a (x + 1))) x (a (x + 1)) vs pr' 0"
      by (rule cseg_fresh [OF v]) (use neq snoc in fastforce)
    ultimately show ?thesis using w x by (simp add: unlink_next_def)
  qed
  show ?thesis
  proof (cases vs)
    case Nil
    with v have "a (x + 1) = 0" by auto
    with next_part Nil show ?thesis by (auto simp: chain_def unlink_def)
  next
    case (Cons z zs)
    with v have z: "a (x + 1) = z" "z \<noteq> 0" by auto
    let ?a = "(unlink_next a x)(z + 2 := pm)"
    have "cseg ?a pm z (z # zs) pr' 0"
      by (rule cseg_set_prev [where pr = x]) (use next_part z Cons ap in auto)
    moreover have "cseg ?a 0 ?p us pm z"
      by (rule cseg_fresh) (use next_part z neq Cons in fastforce)+
    ultimately show ?thesis using z x Cons by (auto simp: chain_def cseg_append unlink_def)
  qed
qed

lemma unlink_frame:
  assumes "chain a p (us @ x # vs)"
    and "\<And>y. y \<in> set (us @ vs) \<Longrightarrow> k \<noteq> y + 1 \<and> k \<noteq> y + 2"
  shows "unlink a x k = a k"
proof -
  from assms(1) obtain pm pr' where
    u: "cseg a 0 p us pm x" and x: "a (x + 2) = pm" and v: "cseg a x (a (x + 1)) vs pr' 0"
    by (auto simp: chain_def cseg_append)
  have "pm = 0 \<or> pm \<in> set us" using u by (cases us rule: rev_cases) (auto simp: cseg_snoc)
  moreover have "a (x + 1) = 0 \<or> a (x + 1) \<in> set vs" using v by (cases vs) auto
  ultimately show ?thesis using assms(2) x by (auto simp: unlink_def unlink_next_def)
qed


section \<open>Tilings with a hole\<close>

text \<open>
  Between the steps of an operation a stretch of the array carries no block yet. \<open>holed\<close>
  says that the array is tiled by \<open>xs\<close>, then a hole of \<open>s\<close> words, then by \<open>ys\<close>, and that
  the list of available blocks is \<open>fl\<close>, all of them outside the hole.
\<close>

definition holed :: "(int \<Rightarrow> int) \<Rightarrow> int \<Rightarrow> blk list \<Rightarrow> int \<Rightarrow> blk list \<Rightarrow> int list \<Rightarrow> bool" where
  "holed a av xs s ys fl \<longleftrightarrow>
     0 \<le> s \<and> tiled a 0 xs \<and> tiled a (span xs + s) ys \<and> chain a av fl \<and> distinct fl \<and>
     (\<forall>x\<in>set fl. \<exists>z. 4 \<le> z \<and> (x, z, False) \<in> set (blocks 0 xs) \<union> set (blocks (span xs + s) ys))"

lemma holed_member_bounds:
  assumes "holed a av xs s ys fl" "x \<in> set fl"
  shows "x + 4 \<le> span xs \<or> span xs + s \<le> x" "0 \<le> x"
proof -
  from assms obtain z where z: "4 \<le> z"
      "(x, z, False) \<in> set (blocks 0 xs) \<or> (x, z, False) \<in> set (blocks (span xs + s) ys)"
    by (auto simp: holed_def)
  with assms(1) show "x + 4 \<le> span xs \<or> span xs + s \<le> x"
    using blocks_bounds [of a 0 xs x z False] blocks_bounds [of a "span xs + s" ys x z False]
    by (auto simp: holed_def)
  from z assms(1) show "0 \<le> x"
    using blocks_bounds [of a 0 xs x z False] blocks_bounds [of a "span xs + s" ys x z False]
      tiled_span_nonneg [of a 0 xs]
    by (auto simp: holed_def)
qed

lemma holed_apart:
  assumes "holed a av xs s ys fl"
  shows "apart fl"
  unfolding apart_def
proof (intro conjI ballI impI)
  show "distinct fl" using assms by (simp add: holed_def)
next
  fix x y assume xy: "x \<in> set fl" "y \<in> set fl" "x < y"
  have t: "tiled a 0 xs" "tiled a (span xs + s) ys" using assms by (auto simp: holed_def)
  obtain z where z: "4 \<le> z"
      "(x, z, False) \<in> set (blocks 0 xs) \<or> (x, z, False) \<in> set (blocks (span xs + s) ys)"
    using assms xy(1) by (auto simp: holed_def)
  obtain w where w: "4 \<le> w"
      "(y, w, False) \<in> set (blocks 0 xs) \<or> (y, w, False) \<in> set (blocks (span xs + s) ys)"
    using assms xy(2) by (auto simp: holed_def)
  have "0 \<le> s" using assms by (simp add: holed_def)
  with z w xy(3) t show "x + 4 \<le> y"
    using blocks_disjoint [OF t(1), of x z False y w False]
      blocks_disjoint [OF t(2), of x z False y w False]
      blocks_bounds [OF t(1), of x z False] blocks_bounds [OF t(2), of y w False]
      blocks_bounds [OF t(2), of x z False] blocks_bounds [OF t(1), of y w False]
    by auto
qed

text \<open>A link word lies inside its block, and outside the hole.\<close>

definition link_of :: "int list \<Rightarrow> int \<Rightarrow> bool" where
  "link_of fl k \<longleftrightarrow> (\<exists>x\<in>set fl. k = x + 1 \<or> k = x + 2)"

lemma tiled_links:
  assumes "tiled a i bs"
    and "\<And>k. i \<le> k \<Longrightarrow> k < i + span bs \<Longrightarrow> a' k \<noteq> a k \<Longrightarrow>
      \<exists>x s t. (x, s, t) \<in> set (blocks i bs) \<and> x < k \<and> k < x + s - 1"
  shows "tiled a' i bs"
  using assms
proof (induction a i bs rule: tiled.induct)
  case (1 a i)
  then show ?case by simp
next
  case (2 a i s t bs)
  have tl: "tiled a (i + s) bs" and s: "2 \<le> s" using 2 by auto
  note nn = tiled_span_nonneg [OF tl]
  have same: "a' k = a k" if "k = i \<or> k = i + s - 1" for k
  proof (rule ccontr)
    assume ne: "a' k \<noteq> a k"
    have "i \<le> k" "k < i + span ((s, t) # bs)" using that s nn by auto
    from "2.prems"(2) [OF this ne] obtain x z u
      where b: "(x, z, u) \<in> set (blocks i ((s, t) # bs))" "x < k" "k < x + z - 1"
      by blast
    then have "(x, z, u) \<in> set (blocks (i + s) bs)" using that by auto
    with blocks_bounds [OF tl this] b that show False using s by auto
  qed
  have "tiled a' (i + s) bs"
  proof (rule "2.IH" [OF tl])
    fix k assume k: "i + s \<le> k" "k < i + s + span bs" "a' k \<noteq> a k"
    then have "i \<le> k" "k < i + span ((s, t) # bs)" using s by auto
    from "2.prems"(2) [OF this k(3)] obtain x z u
      where b: "(x, z, u) \<in> set (blocks i ((s, t) # bs))" "x < k" "k < x + z - 1"
      by blast
    with k have "(x, z, u) \<in> set (blocks (i + s) bs)" by auto
    with b show "\<exists>x z u. (x, z, u) \<in> set (blocks (i + s) bs) \<and> x < k \<and> k < x + z - 1" by blast
  qed
  then show ?case using same [of i] same [of "i + s - 1"] "2.prems"(1) by simp
qed

lemma holed_link_block:
  assumes "holed a av xs s ys fl" "link_of fl k"
  shows "(\<exists>x z. (x, z, False) \<in> set (blocks 0 xs) \<and> x < k \<and> k < x + z - 1 \<and> k < span xs) \<or>
         (\<exists>x z. (x, z, False) \<in> set (blocks (span xs + s) ys) \<and> x < k \<and> k < x + z - 1 \<and> span xs + s < k)"
proof -
  obtain x where x: "x \<in> set fl" "k = x + 1 \<or> k = x + 2" using assms(2) by (auto simp: link_of_def)
  then obtain z where z: "4 \<le> z"
      "(x, z, False) \<in> set (blocks 0 xs) \<or> (x, z, False) \<in> set (blocks (span xs + s) ys)"
    using assms(1) by (auto simp: holed_def)
  have t: "tiled a 0 xs" "tiled a (span xs + s) ys" using assms(1) by (auto simp: holed_def)
  from z(2) show ?thesis
  proof
    assume "(x, z, False) \<in> set (blocks 0 xs)"
    with x z(1) blocks_bounds [OF t(1) this] show ?thesis
      by (intro disjI1 exI [of _ x] exI [of _ z]) auto
  next
    assume "(x, z, False) \<in> set (blocks (span xs + s) ys)"
    with x z(1) blocks_bounds [OF t(2) this] show ?thesis
      by (intro disjI2 exI [of _ x] exI [of _ z]) auto
  qed
qed

lemma tiled_span_cut: "tiled a i bs \<Longrightarrow> (x, z, u) \<in> set (blocks i bs) \<Longrightarrow> x < i + span bs"
  using blocks_bounds by fastforce

text \<open>Writes to links of the list and to the hole keep both tilings.\<close>

lemma holed_tilings:
  assumes h: "holed a av xs s ys fl"
    and w: "\<And>k. a' k \<noteq> a k \<Longrightarrow> link_of fl k \<or> (span xs \<le> k \<and> k < span xs + s)"
  shows "tiled a' 0 xs" "tiled a' (span xs + s) ys"
proof -
  have t: "tiled a 0 xs" "tiled a (span xs + s) ys" "0 \<le> s" using h by (auto simp: holed_def)
  show "tiled a' 0 xs"
  proof (rule tiled_links [OF t(1)])
    fix k assume "0 \<le> k" "k < 0 + span xs" "a' k \<noteq> a k"
    with w [of k] t(3) holed_link_block [OF h, of k]
    show "\<exists>x s t. (x, s, t) \<in> set (blocks 0 xs) \<and> x < k \<and> k < x + s - 1" by fastforce
  qed
  show "tiled a' (span xs + s) ys"
  proof (rule tiled_links [OF t(2)])
    fix k assume "span xs + s \<le> k" "k < span xs + s + span ys" "a' k \<noteq> a k"
    with w [of k] t(3) holed_link_block [OF h, of k]
    show "\<exists>x z t. (x, z, t) \<in> set (blocks (span xs + s) ys) \<and> x < k \<and> k < x + z - 1" by fastforce
  qed
qed


section \<open>The operations on a holed tiling\<close>

lemma holed_unlink:
  assumes h: "holed a av xs s ys fl" and x: "x \<in> set fl"
  shows "holed (unlink a x) (if a (x + 2) = 0 then a (x + 1) else av) xs s ys (remove1 x fl)"
    and "unlink a x k \<noteq> a k \<Longrightarrow> link_of (remove1 x fl) k"
proof -
  obtain us vs where fl: "fl = us @ x # vs" using x by (meson split_list)
  have d: "distinct fl" and c: "chain a av (us @ x # vs)" using h fl by (auto simp: holed_def)
  then have r: "remove1 x fl = us @ vs" using fl by (auto simp: remove1_append)
  have frame: "link_of (us @ vs) k" if "unlink a x k \<noteq> a k" for k
    using unlink_frame [OF c, of k] that by (auto simp: link_of_def)
  then show "unlink a x k \<noteq> a k \<Longrightarrow> link_of (remove1 x fl) k" using r by simp
  have w: "link_of fl k \<or> (span xs \<le> k \<and> k < span xs + s)" if "unlink a x k \<noteq> a k" for k
    using frame [OF that] fl by (auto simp: link_of_def)
  have "tiled (unlink a x) 0 xs" by (rule holed_tilings(1) [OF h w])
  moreover have "tiled (unlink a x) (span xs + s) ys" by (rule holed_tilings(2) [OF h w])
  moreover have "chain (unlink a x) (if a (x + 2) = 0 then a (x + 1) else av) (us @ vs)"
    using unlink_chain [OF c] holed_apart [OF h] fl by simp
  moreover have "distinct (us @ vs)" "set (us @ vs) \<subseteq> set fl" using d fl by auto
  ultimately show "holed (unlink a x) (if a (x + 2) = 0 then a (x + 1) else av) xs s ys (remove1 x fl)"
    using h unfolding r holed_def by blast
qed

lemma chain_cong:
  assumes "chain a p fl" "\<And>k. link_of fl k \<Longrightarrow> a' k = a k"
  shows "chain a' p fl"
proof -
  have "cseg a 0 p fl pr' 0 \<longleftrightarrow> cseg a' 0 p fl pr' 0" for pr'
  proof (rule cseg_cong)
    fix x assume "x \<in> set fl"
    then have "link_of fl (x + 1)" "link_of fl (x + 2)" by (auto simp: link_of_def)
    then show "a (x + 1) = a' (x + 1) \<and> a (x + 2) = a' (x + 2)" using assms(2) by simp
  qed
  with assms(1) show ?thesis by (simp add: chain_def)
qed

lemma holed_link_outside:
  "holed a av xs s ys fl \<Longrightarrow> link_of fl k \<Longrightarrow> k < span xs \<or> span xs + s \<le> k"
  using holed_link_block by force

lemma makeTaken_eq:
  "0 < s \<Longrightarrow> makeTaken h i s = h\<lparr>array := (array h)(i := - s, i + s - 1 := - s)\<rparr>"
  by (simp add: makeTaken_def Let_def footerFromHeader_def size_at_def abs_int_def set_at_def)

lemma holed_taken:
  assumes h: "holed a av xs (s + r) ys fl" and s: "2 \<le> s" "0 \<le> r"
  shows "holed (a(span xs := - s, span xs + s - 1 := - s)) av (xs @ [(s, True)]) r ys fl"
proof -
  let ?a = "a(span xs := - s, span xs + s - 1 := - s)"
  have w: "span xs \<le> k \<and> k < span xs + (s + r)" if "?a k \<noteq> a k" for k
    using that s by (auto split: if_splits)
  have t: "tiled ?a 0 xs" "tiled ?a (span xs + (s + r)) ys"
    using holed_tilings [OF h, of ?a] w by blast+
  have c: "chain ?a av fl"
  proof (rule chain_cong)
    show "chain a av fl" using h by (simp add: holed_def)
    fix k assume "link_of fl k"
    with holed_link_outside [OF h this] w [of k] show "?a k = a k" by force
  qed
  have "tiled ?a 0 (xs @ [(s, True)])" using t s by (auto simp: tiled_append)
  then show ?thesis
    using t(2) c h s unfolding holed_def
    by (auto simp: blocks_append add.assoc)
qed

definition avail_array :: "(int \<Rightarrow> int) \<Rightarrow> int \<Rightarrow> int \<Rightarrow> int \<Rightarrow> int \<Rightarrow> int" where
  "avail_array a av i s =
     (let a' = a(i := s, i + s - 1 := s, i + 1 := av, i + 2 := 0)
      in if av = 0 then a' else a'(av + 2 := i))"

lemma makeAvail_eq:
  "4 \<le> s \<Longrightarrow> makeAvail h i s = h\<lparr>array := avail_array (array h) (avail h) i s, avail := i\<rparr>"
  by (simp add: makeAvail_def Let_def footerFromHeader_def size_at_def abs_int_def set_at_def
      avail_array_def setNext_def setPrev_def)

lemma holed_avail:
  assumes h: "holed a av xs s ys fl" and s: "4 \<le> s" and i: "span xs \<noteq> 0"
  shows "holed (avail_array a av (span xs) s) (span xs) (xs @ [(s, False)]) 0 ys (span xs # fl)"
    and "avail_array a av (span xs) s k \<noteq> a k \<Longrightarrow>
      link_of fl k \<or> (span xs \<le> k \<and> k < span xs + s)"
proof -
  let ?i = "span xs"
  let ?b = "a(?i := s, ?i + s - 1 := s, ?i + 1 := av, ?i + 2 := 0)"
  let ?a = "avail_array a av ?i s"
  have c: "chain a av fl" using h by (simp add: holed_def)
  have w: "link_of fl k \<or> (?i \<le> k \<and> k < ?i + s)" if "?a k \<noteq> a k" for k
    using that s chain_head [OF c]
    by (auto simp: avail_array_def Let_def link_of_def split: if_splits list.splits)
  then show "?a k \<noteq> a k \<Longrightarrow> link_of fl k \<or> (?i \<le> k \<and> k < ?i + s)" .
  have t: "tiled ?a 0 xs" "tiled ?a (?i + s) ys"
    using holed_tilings [OF h, of ?a] w by blast+
  have out: "k < ?i \<or> ?i + s \<le> k" if "link_of fl k" for k
    using holed_link_outside [OF h that] .
  have av2: "av \<noteq> 0 \<Longrightarrow> link_of fl (av + 2)"
    using chain_head [OF c] by (auto simp: link_of_def split: list.splits)
  have vals: "?a ?i = s" "?a (?i + s - 1) = s" "?a (?i + 1) = av" "?a (?i + 2) = 0"
    using s out [OF av2] by (cases "av = 0"; auto simp: avail_array_def Let_def)+
  have cb: "chain ?b av fl"
    by (rule chain_cong [OF c]) (use out s in force)
  have "chain ?a ?i (?i # fl)"
  proof (cases fl)
    case Nil
    with c vals i show ?thesis by (auto simp: chain_def)
  next
    case (Cons z zs)
    with c have z: "av = z" "z \<noteq> 0" by (auto simp: chain_def)
    from cb Cons obtain pr' where "cseg ?b 0 z (z # zs) pr' 0" by (auto simp: chain_def)
    then have "cseg (?b(z + 2 := ?i)) ?i z (z # zs) pr' 0"
      by (rule cseg_set_prev) (use holed_apart [OF h] Cons in simp)
    moreover have "?a = ?b(z + 2 := ?i)" using z by (simp add: avail_array_def)
    ultimately have "cseg ?a ?i z (z # zs) pr' 0" by simp
    with vals i z Cons have "cseg ?a 0 ?i (?i # fl) pr' 0" by simp
    then show ?thesis by (auto simp: chain_def)
  qed
  moreover have "?i \<notin> set fl" using holed_member_bounds(1) [OF h, of ?i] s by auto
  moreover have "tiled ?a 0 (xs @ [(s, False)])" using t(1) vals s by (simp add: tiled_append)
  ultimately show "holed ?a ?i (xs @ [(s, False)]) 0 ys (?i # fl)"
    using t(2) h s unfolding holed_def
    by (auto simp: blocks_append add.assoc)
qed

lemma holed_close: "holed a av xs 0 ys fl \<longleftrightarrow> holed a av (xs @ ys) 0 [] fl"
  by (auto simp: holed_def tiled_append blocks_append)

lemma holed_open:
  assumes "holed a av (xs @ ms @ ys) 0 [] fl"
    and "\<And>x. x \<in> set fl \<Longrightarrow> x \<notin> set (free_starts (span xs) ms)"
  shows "holed a av xs (span ms) ys fl"
proof -
  have t: "tiled a 0 xs" "tiled a (span xs) ms" "tiled a (span xs + span ms) ys"
    using assms(1) by (auto simp: holed_def tiled_append)
  note tiled_span_nonneg [OF t(2)]
  then show ?thesis
    using assms t unfolding holed_def by (fastforce simp: blocks_append in_free_starts add.assoc)
qed

end
