(* ===== verification/Allocator.thy ===== *)
theory Allocator
  imports Prelude
begin

text \<open>
  The contract that a heap gives its clients, as an interface: blocks in use are disjoint
  ranges of words, \<open>alloc\<close> adds one of at least the requested size or returns 0, \<open>release\<close>
  takes one away, neither writes into another block in use, and a client may write what it
  likes between the first and the last word of its own block. The kernel heap and the heap of
  the user library both provide it.
\<close>

text \<open>The words of one block, header and footer included, are the same in both states.\<close>

definition same_block :: "('h \<Rightarrow> int \<Rightarrow> int) \<Rightarrow> 'h \<Rightarrow> 'h \<Rightarrow> int \<times> int \<Rightarrow> bool" where
  "same_block word h h' b \<longleftrightarrow> (\<forall>k. fst b \<le> k \<and> k < fst b + snd b \<longrightarrow> word h' k = word h k)"

text \<open>What a client does with the heap: allocate, release a block it holds, write into one.\<close>

datatype heap_op = Alloc u32 | Release int | Store int int int

inductive heap_step ::
  "('h \<Rightarrow> u32 \<Rightarrow> ('h \<times> u32) res option) \<Rightarrow> ('h \<Rightarrow> u32 \<Rightarrow> 'h res) \<Rightarrow> ('h \<Rightarrow> int \<Rightarrow> u32) \<Rightarrow>
   ('h \<Rightarrow> (int \<times> int) set) \<Rightarrow> ('h \<Rightarrow> int \<Rightarrow> int \<Rightarrow> 'h) \<Rightarrow> 'h \<Rightarrow> heap_op \<Rightarrow> 'h option \<Rightarrow> bool"
  for alloc release ptr live poke
where
  alloc_ok: "n \<noteq> 0 \<Longrightarrow> alloc h n = Some (Inr (h', p)) \<Longrightarrow>
     heap_step alloc release ptr live poke h (Alloc n) (Some h')"
| alloc_bad: "n \<noteq> 0 \<Longrightarrow> (\<nexists>r. alloc h n = Some (Inr r)) \<Longrightarrow>
     heap_step alloc release ptr live poke h (Alloc n) None"
| release_ok: "(i, s) \<in> live h \<Longrightarrow> release h (ptr h i) = Inr h' \<Longrightarrow>
     heap_step alloc release ptr live poke h (Release i) (Some h')"
| release_bad: "(i, s) \<in> live h \<Longrightarrow> release h (ptr h i) = Inl e \<Longrightarrow>
     heap_step alloc release ptr live poke h (Release i) None"
| store: "(i, s) \<in> live h \<Longrightarrow> i < k \<Longrightarrow> k < i + s - 1 \<Longrightarrow>
     heap_step alloc release ptr live poke h (Store i k v) (Some (poke h k v))"

inductive_cases heap_step_AllocE: "heap_step alloc release ptr live poke h (Alloc n) r"
inductive_cases heap_step_ReleaseE: "heap_step alloc release ptr live poke h (Release i) r"
inductive_cases heap_step_StoreE: "heap_step alloc release ptr live poke h (Store i k v) r"

text \<open>A run; \<open>None\<close> when an operation panics or does not return.\<close>

inductive heap_run ::
  "('h \<Rightarrow> u32 \<Rightarrow> ('h \<times> u32) res option) \<Rightarrow> ('h \<Rightarrow> u32 \<Rightarrow> 'h res) \<Rightarrow> ('h \<Rightarrow> int \<Rightarrow> u32) \<Rightarrow>
   ('h \<Rightarrow> (int \<times> int) set) \<Rightarrow> ('h \<Rightarrow> int \<Rightarrow> int \<Rightarrow> 'h) \<Rightarrow> 'h \<Rightarrow> heap_op list \<Rightarrow> 'h option \<Rightarrow> bool"
  for alloc release ptr live poke
where
  done_run: "heap_run alloc release ptr live poke h [] (Some h)"
| bad_run: "heap_step alloc release ptr live poke h op None \<Longrightarrow>
     heap_run alloc release ptr live poke h (op # ops) None"
| step_run: "heap_step alloc release ptr live poke h op (Some h') \<Longrightarrow>
     heap_run alloc release ptr live poke h' ops r \<Longrightarrow>
     heap_run alloc release ptr live poke h (op # ops) r"

text \<open>The operation leaves the block at index \<open>i\<close> alone.\<close>

fun spares :: "int \<Rightarrow> heap_op \<Rightarrow> bool" where
  "spares i (Alloc n) \<longleftrightarrow> True"
| "spares i (Release j) \<longleftrightarrow> j \<noteq> i"
| "spares i (Store j k v) \<longleftrightarrow> j \<noteq> i"

locale allocator =
  fixes wf :: "'h \<Rightarrow> bool"
    and live :: "'h \<Rightarrow> (int \<times> int) set"
    and word :: "'h \<Rightarrow> int \<Rightarrow> int"
    and ptr :: "'h \<Rightarrow> int \<Rightarrow> u32"
    and poke :: "'h \<Rightarrow> int \<Rightarrow> int \<Rightarrow> 'h"
    and alloc :: "'h \<Rightarrow> u32 \<Rightarrow> ('h \<times> u32) res option"
    and release :: "'h \<Rightarrow> u32 \<Rightarrow> 'h res"
  assumes disjoint: "wf h \<Longrightarrow> (i, s) \<in> live h \<Longrightarrow> (j, t) \<in> live h \<Longrightarrow> i \<noteq> j \<Longrightarrow> i + s \<le> j \<or> j + t \<le> i"
    and alloc_returns: "wf h \<Longrightarrow> n \<noteq> 0 \<Longrightarrow> \<exists>h' p. alloc h n = Some (Inr (h', p)) \<and> wf h' \<and>
      (p = 0 \<and> h' = h \<or> (\<exists>i s. p = ptr h i \<and> (i, s) \<notin> live h \<and> live h' = insert (i, s) (live h))) \<and>
      (\<forall>b\<in>live h. same_block word h h' b)"
    and release_returns: "wf h \<Longrightarrow> (i, s) \<in> live h \<Longrightarrow> \<exists>h'. release h (ptr h i) = Inr h' \<and> wf h' \<and>
      live h' = live h - {(i, s)} \<and> (\<forall>b\<in>live h'. same_block word h h' b)"
    and poke_inside: "wf h \<Longrightarrow> (i, s) \<in> live h \<Longrightarrow> i < k \<Longrightarrow> k < i + s - 1 \<Longrightarrow>
      wf (poke h k v) \<and> live (poke h k v) = live h \<and> word (poke h k v) = (word h)(k := v)"
begin

lemma step_safe:
  assumes "wf h" and "heap_step alloc release ptr live poke h op r"
  shows "\<exists>h'. r = Some h' \<and> wf h' \<and>
    (\<forall>i s. (i, s) \<in> live h \<longrightarrow> spares i op \<longrightarrow> (i, s) \<in> live h' \<and> same_block word h h' (i, s))"
  using assms(2)
proof cases
  case (alloc_ok n h' p)
  with alloc_returns [OF assms(1)] show ?thesis by fastforce
next
  case (alloc_bad n)
  with alloc_returns [OF assms(1)] show ?thesis by fastforce
next
  case (release_ok i s h')
  with release_returns [OF assms(1)] show ?thesis by fastforce
next
  case (release_bad i s e)
  with release_returns [OF assms(1)] show ?thesis by fastforce
next
  case (store i s k v)
  note pk = poke_inside [OF assms(1) store(3,4,5), of v]
  have "same_block word h (poke h k v) (j, t)" if "(j, t) \<in> live h" "j \<noteq> i" for j t
    using disjoint [OF assms(1) that(1) store(3) that(2)] store(4,5) pk
    by (auto simp: same_block_def)
  then show ?thesis using pk store by auto
qed

lemma same_block_trans:
  "same_block word h h1 b \<Longrightarrow> same_block word h1 h2 b \<Longrightarrow> same_block word h h2 b"
  by (simp add: same_block_def)

lemma run_safe:
  assumes "heap_run alloc release ptr live poke h ops r" and "wf h"
  shows "\<exists>h'. r = Some h' \<and> wf h' \<and>
    (\<forall>i s. (i, s) \<in> live h \<longrightarrow> (\<forall>op\<in>set ops. spares i op) \<longrightarrow>
       (i, s) \<in> live h' \<and> same_block word h h' (i, s))"
  using assms
proof (induction rule: heap_run.induct)
  case (done_run h)
  then show ?case by (auto simp: same_block_def)
next
  case (bad_run h op ops)
  then show ?case using step_safe by blast
next
  case (step_run h op h1 ops r)
  from step_safe [OF step_run.prems step_run.hyps(1)] have 1: "wf h1"
    "\<And>i s. (i, s) \<in> live h \<Longrightarrow> spares i op \<Longrightarrow> (i, s) \<in> live h1 \<and> same_block word h h1 (i, s)"
    by auto
  from step_run.IH [OF 1(1)] obtain h' where 2: "r = Some h'" "wf h'"
    "\<And>i s. (i, s) \<in> live h1 \<Longrightarrow> (\<forall>op\<in>set ops. spares i op) \<Longrightarrow>
       (i, s) \<in> live h' \<and> same_block word h1 h' (i, s)"
    by auto
  have "(i, s) \<in> live h' \<and> same_block word h h' (i, s)"
    if "(i, s) \<in> live h" "\<forall>op\<in>set (op # ops). spares i op" for i s
    using 1(2) [OF that(1)] 2(3) [of i s] that(2) same_block_trans by auto
  with 2 show ?case by blast
qed

end

end
