(* ===== verification/Heap_Thms.thy ===== *)
theory Heap_Thms
  imports Heap_Inv Allocator
begin

text \<open>
  Correctness of the kernel heap: \<open>heapInit\<close> establishes the invariant, \<open>malloc\<close> and
  \<open>free\<close> keep it, and what each does to the blocks, to the words of taken blocks and to its
  result, on every branch.
\<close>

section \<open>The invariant\<close>

fun coalesced :: "blk list \<Rightarrow> bool" where
  "coalesced (b # c # bs) \<longleftrightarrow> (snd b \<or> snd c) \<and> coalesced (c # bs)"
| "coalesced _ \<longleftrightarrow> True"

definition framed :: "blk list \<Rightarrow> bool" where
  "framed bs \<longleftrightarrow> (\<exists>mid. bs = (2, True) # mid @ [(2, True)] \<and> (\<forall>b\<in>set mid. 4 \<le> fst b))"

definition heap_wf :: "kheap \<Rightarrow> blk list \<Rightarrow> int list \<Rightarrow> bool" where
  "heap_wf h bs fl \<longleftrightarrow>
     holed (array h) (avail h) bs 0 [] fl \<and> set fl = set (free_starts 0 bs) \<and>
     hlen h = span bs \<and> framed bs \<and> coalesced bs \<and> uint (base h) + 4 * hlen h < 2 ^ 32"

lemma coalesced_append:
  "coalesced (xs @ ys) \<longleftrightarrow> coalesced xs \<and> coalesced ys \<and>
     (xs \<noteq> [] \<longrightarrow> ys \<noteq> [] \<longrightarrow> snd (last xs) \<or> snd (hd ys))"
  by (induction xs rule: coalesced.induct) (auto, (cases ys; auto)+)

lemma coalesced_Cons: "coalesced (b # bs) \<longleftrightarrow> coalesced bs \<and> (bs \<noteq> [] \<longrightarrow> snd b \<or> snd (hd bs))"
  by (cases bs) auto

text \<open>Between the sentinels, a segment may be replaced by blocks of at least four words.\<close>

lemma framed_replace:
  assumes "framed (xs @ ms @ ys)" "xs \<noteq> []" "ys \<noteq> []" "\<forall>b\<in>set ms'. 4 \<le> fst b"
  shows "framed (xs @ ms' @ ys)"
proof -
  obtain mid where m: "xs @ ms @ ys = (2, True) # mid @ [(2, True)]" "\<forall>b\<in>set mid. 4 \<le> fst b"
    using assms(1) by (auto simp: framed_def)
  obtain xs' where xs: "xs = (2, True) # xs'" using assms(2) m(1) by (cases xs) auto
  obtain ys' where ys: "ys = ys' @ [(2, True)]"
    using assms(3) m(1) by (cases ys rule: rev_cases) auto
  have "mid = xs' @ ms @ ys'" using m(1) xs ys by auto
  then show ?thesis using m(2) assms(4) xs ys by (auto simp: framed_def)
qed

lemma framed_inner:
  assumes "framed (xs @ (s, t) # ys)" "\<not> t \<or> 4 \<le> s"
  shows "xs \<noteq> []" "ys \<noteq> []" "4 \<le> s" "2 \<le> span xs"
proof -
  obtain mid where m: "xs @ (s, t) # ys = (2, True) # mid @ [(2, True)]" "\<forall>b\<in>set mid. 4 \<le> fst b"
    using assms(1) by (auto simp: framed_def)
  show xs: "xs \<noteq> []" using m(1) assms(2) by (cases xs) auto
  show ys: "ys \<noteq> []" using m(1) assms(2) by (cases ys rule: rev_cases) auto
  obtain xs' where xs': "xs = (2, True) # xs'" using xs m(1) by (cases xs) auto
  obtain ys' where ys': "ys = ys' @ [(2, True)]" using ys m(1) by (cases ys rule: rev_cases) auto
  have mid: "mid = xs' @ (s, t) # ys'" using m(1) xs' ys' by auto
  then show "4 \<le> s" using m(2) by auto
  have "0 \<le> span xs'" using m(2) mid by (induction xs' arbitrary: mid) (auto simp: span_def intro: sum_list_nonneg)
  then show "2 \<le> span xs" using xs' by simp
qed

lemma heap_wf_tiled: "heap_wf h bs fl \<Longrightarrow> tiled (array h) 0 bs"
  by (simp add: heap_wf_def holed_def)

lemma tiled_unique:
  "tiled a i bs \<Longrightarrow> tiled a i bs' \<Longrightarrow> span bs = span bs' \<Longrightarrow> bs = bs'"
proof (induction a i bs arbitrary: bs' rule: tiled.induct)
  case (1 a i)
  then show ?case
    using tiled_span_nonneg by (cases bs') fastforce+
next
  case (2 a i s t bs)
  then obtain s' t' cs where bs': "bs' = (s', t') # cs"
    using tiled_span_nonneg by (cases bs') fastforce+
  with 2 have "s = s'" "t = t'" by (auto split: if_splits)
  with 2 bs' show ?case by auto
qed

lemma heap_wf_unique: "heap_wf h bs fl \<Longrightarrow> heap_wf h bs' fl' \<Longrightarrow> bs = bs'"
  by (metis heap_wf_def heap_wf_tiled tiled_unique)

section \<open>Addresses\<close>

lemma sint_small: "0 \<le> i \<Longrightarrow> i < 2 ^ 31 \<Longrightarrow> sint (word_of_int i :: u32) = i"
  by (simp add: signed_of_int signed_take_bit_int_eq_self)

lemma uint_small: "0 \<le> i \<Longrightarrow> i < 2 ^ 32 \<Longrightarrow> uint (word_of_int i :: u32) = i"
  by (simp add: uint_word_of_int)

lemma index_of_addr:
  assumes "0 \<le> i" "4 * (i + 1) < 2 ^ 32"
  shows "index_of h (addr_of h (i + 1)) = i"
proof -
  let ?w = "word_of_int :: int \<Rightarrow> u32"
  have "addr_of h (i + 1) - base h = ?w (4 * (i + 1))" by (simp add: addr_of_def)
  moreover have "?w (4 * (i + 1)) div 4 = ?w (i + 1)"
    using assms by (simp add: word_uint_eq_iff uint_div uint_small del: of_int_add)
  ultimately have "index_of h (addr_of h (i + 1)) = sint (?w i)"
    by (simp add: index_of_def)
  then show ?thesis using assms by (simp add: sint_small)
qed

lemma index_small: "uint (b :: u32) + 4 * m < 2 ^ 32 \<Longrightarrow> i < m \<Longrightarrow> 4 * i < 2 ^ 32"
  using uint_ge_0 [of b] by linarith

lemma addr_of_distinct:
  assumes "uint (base h) + 4 * n < 2 ^ 32" "0 \<le> i" "i < n"
  shows "uint (addr_of h i) = uint (base h) + 4 * i"
proof -
  have i: "0 \<le> 4 * i" "uint (base h) + 4 * i < 2 ^ 32" "4 * i < 2 ^ 32"
    using assms uint_ge_0 [of "base h"] by linarith+
  then have "uint (4 * word_of_int i :: u32) = 4 * i"
    by (simp add: uint_word_ariths uint_small)
  then show ?thesis using i by (simp add: addr_of_def uint_word_ariths)
qed


section \<open>The search\<close>

text \<open>
  Reference: among the first 20 blocks of the list that fit, in list order, the first of
  least size.
\<close>

definition candidates :: "(int \<Rightarrow> int) \<Rightarrow> int \<Rightarrow> int list \<Rightarrow> int list" where
  "candidates a ints fl = take 20 (filter (\<lambda>x. ints \<le> a x) fl)"

definition keep_best :: "(int \<Rightarrow> int) \<Rightarrow> int \<Rightarrow> int \<times> int \<Rightarrow> int \<times> int" where
  "keep_best a x best = (if a x < fst best then (a x, x) else best)"

lemma scan_eq:
  assumes "cseg (array h) pr p ps pr' 0" "\<forall>x\<in>set ps. 0 < array h x" "0 < cd"
  shows "scan h ints p cd mx it =
    Some (Inr (fold (keep_best (array h)) (take (nat cd) (filter (\<lambda>x. ints \<le> array h x) ps)) (mx, it)))"
  using assms
proof (induction ps arbitrary: pr p cd mx it)
  case Nil
  then show ?case by (simp add: scan.simps)
next
  case (Cons x xs)
  then have x: "p = x" "x \<noteq> 0" "0 < array h x" "cseg (array h) x (array h (x + 1)) xs pr' 0" by auto
  have sz: "size_at h x = array h x" "isAvail h x"
    using x(3) by (simp_all add: size_at_def abs_int_def isAvail_def)
  show ?case
  proof (cases "ints \<le> array h x")
    case False
    have "scan h ints p cd mx it = scan h ints (array h (x + 1)) cd mx it"
      by (subst scan.simps) (use x sz False in \<open>simp add: next_blk_def\<close>)
    then show ?thesis using Cons.IH [OF x(4)] Cons.prems False by simp
  next
    case True
    let ?mx = "if array h x < mx then array h x else mx"
    let ?it = "if array h x < mx then x else it"
    have kb: "keep_best (array h) x (mx, it) = (?mx, ?it)" by (simp add: keep_best_def)
    have tk: "take (nat cd) (x # ys) = x # take (nat (cd - 1)) ys" for ys
    proof -
      have "nat cd = Suc (nat (cd - 1))" using Cons.prems(3) by simp
      then show ?thesis by simp
    qed
    show ?thesis
    proof (cases "cd - 1 = 0")
      case one: True
      have "scan h ints p cd mx it = Some (Inr (?mx, ?it))"
        by (subst scan.simps) (use x sz True one in \<open>simp add: Let_def\<close>)
      then show ?thesis using True one by (simp add: tk kb)
    next
      case more: False
      have "scan h ints p cd mx it = scan h ints (array h (x + 1)) (cd - 1) ?mx ?it"
        by (subst scan.simps) (use x sz True more in \<open>simp add: Let_def next_blk_def\<close>)
      also have "\<dots> = Some (Inr (fold (keep_best (array h))
          (take (nat (cd - 1)) (filter (\<lambda>x. ints \<le> array h x) xs)) (?mx, ?it)))"
        by (rule Cons.IH [OF x(4)]) (use Cons.prems more in auto)
      finally show ?thesis using True by (simp add: tk kb)
    qed
  qed
qed

lemma fold_keep_best:
  assumes "fold (keep_best a) xs (mx, it) = (mx', it')"
  shows "(mx', it') = (mx, it) \<and> (\<forall>x\<in>set xs. mx \<le> a x) \<or>
         it' \<in> set xs \<and> mx' = a it' \<and> mx' < mx \<and> (\<forall>x\<in>set xs. mx' \<le> a x)"
  using assms
proof (induction xs arbitrary: mx it)
  case Nil
  then show ?case by simp
next
  case (Cons x xs)
  show ?case
  proof (cases "a x < mx")
    case True
    then have "keep_best a x (mx, it) = (a x, x)" by (simp add: keep_best_def)
    with Cons.prems have "fold (keep_best a) xs (a x, x) = (mx', it')" by simp
    from Cons.IH [OF this] True show ?thesis by auto
  next
    case False
    then have "keep_best a x (mx, it) = (mx, it)" by (simp add: keep_best_def)
    with Cons.prems have "fold (keep_best a) xs (mx, it) = (mx', it')" by simp
    from Cons.IH [OF this] False show ?thesis by auto
  qed
qed

lemma heap_wf_free_block:
  assumes "heap_wf h bs fl"
  shows "x \<in> set fl \<longleftrightarrow> (\<exists>s. (x, s, False) \<in> set (blocks 0 bs))"
    and "(x, s, False) \<in> set (blocks 0 bs) \<Longrightarrow> array h x = s \<and> 4 \<le> s \<and> x \<noteq> 0 \<and> s < 2 ^ 30"
proof -
  show mem: "x \<in> set fl \<longleftrightarrow> (\<exists>s. (x, s, False) \<in> set (blocks 0 bs))" for x
    using assms by (simp add: heap_wf_def in_free_starts)
  assume b: "(x, s, False) \<in> set (blocks 0 bs)"
  then have x: "x \<in> set fl" using mem by blast
  have "chain (array h) (avail h) fl" using assms by (simp add: heap_wf_def holed_def)
  then have "x \<noteq> 0" using chain_nonzero x by blast
  moreover have v: "array h x = s" "x + s \<le> hlen h" "0 \<le> x"
    using blocks_bounds [OF heap_wf_tiled [OF assms] b] assms by (auto simp: heap_wf_def)
  moreover obtain xs ys where "bs = xs @ (s, False) # ys" using in_blocks_split [OF b] by blast
  then have "4 \<le> s" using framed_inner(3) [of xs s False ys] assms by (simp add: heap_wf_def)
  moreover have "4 * hlen h < 2 ^ 32"
    using assms uint_ge_0 [of "base h"] unfolding heap_wf_def by linarith
  ultimately show "array h x = s \<and> 4 \<le> s \<and> x \<noteq> 0 \<and> s < 2 ^ 30" by auto
qed

lemma scan_wf:
  assumes "heap_wf h bs fl"
  obtains mx it where "scan h ints (avail h) 20 0x7FFFFFFF 0 = Some (Inr (mx, it))"
    and "it = 0 \<Longrightarrow> (\<forall>x\<in>set fl. array h x < ints)"
    and "it \<noteq> 0 \<Longrightarrow> it \<in> set (candidates (array h) ints fl) \<and> mx = array h it \<and>
           (\<forall>x\<in>set (candidates (array h) ints fl). mx \<le> array h x)"
proof -
  obtain pr' where c: "cseg (array h) 0 (avail h) fl pr' 0"
    using assms by (auto simp: heap_wf_def holed_def chain_def)
  have vals: "0 < array h x \<and> array h x < 0x7FFFFFFF \<and> x \<noteq> 0" if "x \<in> set fl" for x
    using that heap_wf_free_block [OF assms] by fastforce
  obtain mx it where f: "fold (keep_best (array h)) (candidates (array h) ints fl) (0x7FFFFFFF, 0) = (mx, it)"
    by fastforce
  have sub: "set (candidates (array h) ints fl) \<subseteq> set fl"
    by (auto simp: candidates_def dest: in_set_takeD)
  have "scan h ints (avail h) 20 0x7FFFFFFF 0 = Some (Inr (mx, it))"
    using scan_eq [OF c, of 20] vals f by (simp add: candidates_def)
  moreover have "\<forall>x\<in>set fl. array h x < ints" if "it = 0"
  proof -
    have "candidates (array h) ints fl = []"
      using fold_keep_best [OF f] that vals sub by (cases "candidates (array h) ints fl") fastforce+
    then have "filter (\<lambda>x. ints \<le> array h x) fl = []" by (simp add: candidates_def)
    then show ?thesis by (auto simp: filter_empty_conv)
  qed
  moreover have "it \<noteq> 0 \<Longrightarrow> it \<in> set (candidates (array h) ints fl) \<and> mx = array h it \<and>
      (\<forall>x\<in>set (candidates (array h) ints fl). mx \<le> array h x)"
    using fold_keep_best [OF f] by auto
  ultimately show ?thesis using that by blast
qed


section \<open>Carving a block out of an available one\<close>

definition carve :: "int \<Rightarrow> int \<Rightarrow> blk list" where
  "carve mx ints = (if 4 \<le> mx - ints then [(ints, True), (mx - ints, False)] else [(mx, True)])"

definition unlinked :: "kheap \<Rightarrow> int \<Rightarrow> kheap" where
  "unlinked h i = h\<lparr>array := unlink (array h) i,
     avail := (if array h (i + 2) = 0 then array h (i + 1) else avail h)\<rparr>"

lemma unlinked_simps [simp]:
  "base (unlinked h i) = base h" "hlen (unlinked h i) = hlen h"
  "array (unlinked h i) = unlink (array h) i"
  by (simp_all add: unlinked_def)

lemma remove_blk_unlinked: "remove_blk h i = Inr (unlinked h i)"
  by (simp add: remove_blk_eq unlinked_def)

lemma unlinked_holed:
  assumes "holed (array h) (avail h) xs s ys fl" "x \<in> set fl"
  shows "holed (array (unlinked h x)) (avail (unlinked h x)) xs s ys (remove1 x fl)"
  using holed_unlink(1) [OF assms] by (simp add: unlinked_def)

definition carved :: "kheap \<Rightarrow> int \<Rightarrow> int \<Rightarrow> int \<Rightarrow> kheap" where
  "carved h it mx ints =
     (if 4 \<le> mx - ints then makeAvail (makeTaken (unlinked h it) it ints) (it + ints) (mx - ints)
      else makeTaken (unlinked h it) it mx)"

lemma free_starts_mid_free:
  assumes "tiled a 0 (xs @ (s, False) # ys)"
  shows "set (free_starts 0 (xs @ (s, False) # ys)) - {span xs} =
    set (free_starts 0 xs) \<union> set (free_starts (span xs + s) ys)"
proof -
  have t: "tiled a 0 xs" "tiled a (span xs + s) ys" "2 \<le> s"
    using assms by (auto simp: tiled_append)
  have "span xs \<notin> set (free_starts 0 xs)"
    using blocks_bounds [OF t(1)] by (fastforce simp: in_free_starts)
  moreover have "span xs \<notin> set (free_starts (span xs + s) ys)"
    using blocks_bounds [OF t(2)] t(3) by (fastforce simp: in_free_starts)
  ultimately show ?thesis by (auto simp: free_starts_append)
qed

lemma carved_wf:
  assumes wf: "heap_wf h bs fl" and bs: "bs = xs @ (mx, False) # ys"
    and i: "4 \<le> ints" "ints \<le> mx"
  defines "it \<equiv> span xs"
  shows "\<exists>fl'. heap_wf (carved h it mx ints) (xs @ carve mx ints @ ys) fl'"
    and "array (carved h it mx ints) k \<noteq> array h k \<Longrightarrow>
      link_of (remove1 it fl) k \<or> it \<le> k \<and> k < it + mx"
    and "base (carved h it mx ints) = base h"
proof -
  let ?fl = "remove1 it fl" and ?h1 = "unlinked h it"
  have hol: "holed (array h) (avail h) bs 0 [] fl" and fr: "framed bs" and co: "coalesced bs"
    using wf by (auto simp: heap_wf_def)
  have fr': "xs \<noteq> []" "ys \<noteq> []" "4 \<le> mx" "2 \<le> it"
    using framed_inner [of xs mx False ys] fr bs by (auto simp: it_def)
  have d: "distinct fl" using hol by (simp add: holed_def)
  have it_fl: "it \<in> set fl"
    using wf bs by (simp add: heap_wf_def free_starts_append it_def)
  have fls: "set ?fl = set (free_starts 0 xs) \<union> set (free_starts (it + mx) ys)"
    using free_starts_mid_free [of "array h" xs mx ys] wf bs heap_wf_tiled [OF wf] d
    by (simp add: heap_wf_def it_def)
  have "holed (array ?h1) (avail ?h1) bs 0 [] ?fl"
    by (rule unlinked_holed [OF hol it_fl])
  then have o: "holed (array ?h1) (avail ?h1) xs mx ys ?fl"
    using holed_open [of _ _ xs "[(mx, False)]" ys ?fl] bs d by (simp add: it_def)
  have fr2: "framed (xs @ carve mx ints @ ys)"
    using framed_replace [of xs "[(mx, False)]" ys "carve mx ints"] fr bs fr' i
    by (auto simp: carve_def)
  have co2: "coalesced (xs @ carve mx ints @ ys)"
    using co fr'(1,2) unfolding bs carve_def by (auto simp: coalesced_append coalesced_Cons)
  have frame1: "link_of ?fl k" if "array ?h1 k \<noteq> array h k" for k
    using holed_unlink(2) [OF hol it_fl] that by simp
  have sp: "span (carve mx ints) = mx" by (simp add: carve_def)
  show "base (carved h it mx ints) = base h"
    using i by (simp add: carved_def makeTaken_eq makeAvail_eq)
  have len: "hlen (carved h it mx ints) = hlen h"
    using i by (simp add: carved_def makeTaken_eq makeAvail_eq)
  show "\<exists>fl'. heap_wf (carved h it mx ints) (xs @ carve mx ints @ ys) fl'"
  proof (cases "4 \<le> mx - ints")
    case False
    have "holed (array (makeTaken ?h1 it mx)) (avail (makeTaken ?h1 it mx)) (xs @ [(mx, True)]) 0 ys ?fl"
      using holed_taken [of _ _ xs mx 0 ys ?fl] o fr'(3) by (simp add: makeTaken_eq it_def)
    then have "holed (array (carved h it mx ints)) (avail (carved h it mx ints)) (xs @ carve mx ints @ ys) 0 [] ?fl"
      using False by (simp add: carved_def carve_def holed_close [of _ _ "xs @ [(mx, True)]"])
    moreover have "set ?fl = set (free_starts 0 (xs @ carve mx ints @ ys))"
      using False fls by (simp add: carve_def free_starts_append it_def)
    ultimately have "heap_wf (carved h it mx ints) (xs @ carve mx ints @ ys) ?fl"
      using wf fr2 co2 sp bs len i by (simp add: heap_wf_def carved_def makeTaken_eq makeAvail_eq)
    then show ?thesis ..
  next
    case True
    let ?h2 = "makeTaken ?h1 it ints"
    have "holed (array ?h2) (avail ?h2) (xs @ [(ints, True)]) (mx - ints) ys ?fl"
      using holed_taken [of _ _ xs ints "mx - ints" ys ?fl] o i by (simp add: makeTaken_eq it_def)
    from holed_avail(1) [OF this] fr'(4) i True
    have "holed (array (carved h it mx ints)) (avail (carved h it mx ints))
        ((xs @ [(ints, True)]) @ [(mx - ints, False)]) 0 ys ((it + ints) # ?fl)"
      by (simp add: carved_def makeAvail_eq it_def)
    then have "holed (array (carved h it mx ints)) (avail (carved h it mx ints))
        (xs @ carve mx ints @ ys) 0 [] ((it + ints) # ?fl)"
      using True holed_close [of _ _ "(xs @ [(ints, True)]) @ [(mx - ints, False)]"]
      by (simp add: carve_def)
    moreover have "set ((it + ints) # ?fl) = set (free_starts 0 (xs @ carve mx ints @ ys))"
      using True fls by (auto simp: carve_def free_starts_append it_def)
    ultimately have "heap_wf (carved h it mx ints) (xs @ carve mx ints @ ys) ((it + ints) # ?fl)"
      using wf fr2 co2 sp bs len i by (simp add: heap_wf_def carved_def makeTaken_eq makeAvail_eq)
    then show ?thesis ..
  qed
  assume ne: "array (carved h it mx ints) k \<noteq> array h k"
  show "link_of ?fl k \<or> it \<le> k \<and> k < it + mx"
  proof (cases "4 \<le> mx - ints")
    case False
    then show ?thesis using ne frame1 [of k] fr'(3)
      by (auto simp: carved_def makeTaken_eq split: if_splits)
  next
    case True
    let ?h2 = "makeTaken ?h1 it ints"
    have h2: "holed (array ?h2) (avail ?h2) (xs @ [(ints, True)]) (mx - ints) ys ?fl"
      using holed_taken [of _ _ xs ints "mx - ints" ys ?fl] o i by (simp add: makeTaken_eq it_def)
    have eq: "array (carved h it mx ints) =
        avail_array (array ?h2) (avail ?h2) (span (xs @ [(ints, True)])) (mx - ints)"
      using True by (simp add: carved_def makeAvail_eq it_def)
    show ?thesis
    proof (cases "array (carved h it mx ints) k = array ?h2 k")
      case same: True
      then show ?thesis using ne frame1 [of k] i by (auto simp: makeTaken_eq split: if_splits)
    next
      case diff: False
      then have "link_of ?fl k \<or> (it + ints \<le> k \<and> k < it + mx)"
        using holed_avail(2) [OF h2 True, of k] fr'(4) i unfolding eq by (simp add: it_def)
      then show ?thesis using i by auto
    qed
  qed
qed


section \<open>Giving a block back\<close>

lemma tiled_at:
  assumes "tiled a 0 (xs @ (s, t) # ys)"
  shows "a (span xs) = (if t then - s else s)" "a (span xs + s - 1) = (if t then - s else s)" "2 \<le> s"
  using assms by (auto simp: tiled_append)

lemma size_at_tiled:
  assumes "tiled (array h) 0 (xs @ (s, t) # ys)"
  shows "size_at h (span xs) = s" "size_at h (span xs + s - 1) = s"
    "isAvail h (span xs) \<longleftrightarrow> \<not> t" "isTaken h (span xs) \<longleftrightarrow> t"
  using tiled_at [OF assms] by (auto simp: size_at_def abs_int_def isAvail_def isTaken_def)

text \<open>The neighbour on one side of the block, when it is available.\<close>

definition free_side :: "blk list \<Rightarrow> bool" where
  "free_side L \<longleftrightarrow> L = [] \<or> (\<exists>s. L = [(s, False)])"

definition freed_left :: "kheap \<Rightarrow> blk list \<Rightarrow> blk list \<Rightarrow> kheap" where
  "freed_left h xs L = (if L = [] then h else unlinked h (span xs))"

lemma link_of_remove1: "link_of (remove1 x fl) k \<Longrightarrow> link_of fl k"
  unfolding link_of_def by (meson notin_set_remove1)

lemma freed_left_holed:
  assumes "holed (array h) (avail h) bs 0 [] fl" "free_side L"
    and "L \<noteq> [] \<Longrightarrow> span xs \<in> set fl"
  shows "holed (array (freed_left h xs L)) (avail (freed_left h xs L)) bs 0 []
      (if L = [] then fl else remove1 (span xs) fl)"
    and "array (freed_left h xs L) k \<noteq> array h k \<Longrightarrow> link_of fl k"
proof -
  show "holed (array (freed_left h xs L)) (avail (freed_left h xs L)) bs 0 []
      (if L = [] then fl else remove1 (span xs) fl)"
    using assms(1,3) unlinked_holed [OF assms(1), of "span xs"] by (simp add: freed_left_def)
  assume ne: "array (freed_left h xs L) k \<noteq> array h k"
  then have "L \<noteq> []" by (auto simp: freed_left_def)
  with ne holed_unlink(2) [OF assms(1) assms(3), of k] have "link_of (remove1 (span xs) fl) k"
    by (simp add: freed_left_def)
  then show "link_of fl k" by (rule link_of_remove1)
qed

lemma free_unfold:
  assumes t: "tiled (array h) 0 (xs @ L @ (s, True) # R @ ys)"
    and L: "free_side L" "L = [] \<Longrightarrow> xs \<noteq> [] \<and> snd (last xs)"
    and R: "free_side R" "R = [] \<Longrightarrow> ys \<noteq> [] \<and> snd (hd ys)"
    and tL: "tiled (array (freed_left h xs L)) 0 (xs @ L @ (s, True) # R @ ys)"
    and tR: "R \<noteq> [] \<Longrightarrow> tiled (array (freed_left (freed_left h xs L) (xs @ L @ [(s, True)]) R)) 0
        (xs @ L @ (s, True) # R @ ys)"
    and p: "p = addr_of h (span (xs @ L) + 1)" "p \<noteq> 0" "p \<noteq> addr_of h 0"
    and ix: "0 \<le> span (xs @ L)" "4 * (span (xs @ L) + 1) < 2 ^ 32"
  shows "free h p = Inr (makeAvail (freed_left (freed_left h xs L) (xs @ L @ [(s, True)]) R)
            (span xs) (span L + s + span R))"
proof -
  let ?idx = "span (xs @ L)" and ?hL = "freed_left h xs L"
  have idx: "index_of h p = ?idx" using index_of_addr [OF ix] p(1) by simp
  note sz = size_at_tiled [of h "xs @ L" s True "R @ ys"]
  have tk: "isTaken h ?idx" "size_at h ?idx = s" using sz t by auto
  have left: "left_blk h ?idx = Inr (if L = [] then ?idx - fst (last xs) else span xs)"
    and lav: "isAvail h (if L = [] then ?idx - fst (last xs) else span xs) \<longleftrightarrow> L \<noteq> []"
  proof (atomize (full), cases "L = []")
    case True
    then obtain xs' sl where x: "xs = xs' @ [(sl, True)]"
      using L(2) by (cases xs rule: rev_cases) auto
    then show "left_blk h ?idx = Inr (if L = [] then ?idx - fst (last xs) else span xs) \<and>
        (isAvail h (if L = [] then ?idx - fst (last xs) else span xs) \<longleftrightarrow> L \<noteq> [])"
      using size_at_tiled [of h xs' sl True "(s, True) # R @ ys"] t True
      by (simp add: left_blk_def headerFromFooter_def)
  next
    case False
    then obtain sl where l: "L = [(sl, False)]" using L(1) by (auto simp: free_side_def)
    then show "left_blk h ?idx = Inr (if L = [] then ?idx - fst (last xs) else span xs) \<and>
        (isAvail h (if L = [] then ?idx - fst (last xs) else span xs) \<longleftrightarrow> L \<noteq> [])"
      using size_at_tiled [of h xs sl False "(s, True) # R @ ys"] t
      by (simp add: left_blk_def headerFromFooter_def)
  qed
  have right: "right_blk h ?idx = Inr (?idx + s)" using tk by (simp add: right_blk_def)
  have rav: "isAvail ?hL (?idx + s) \<longleftrightarrow> R \<noteq> []"
  proof (cases "R = []")
    case True
    then obtain sr ys' where "ys = (sr, True) # ys'" using R(2) by (cases ys) auto
    then show ?thesis
      using size_at_tiled(3) [of ?hL "xs @ L @ [(s, True)]" sr True ys'] tL True by (simp add: add.assoc)
  next
    case False
    then obtain sr where "R = [(sr, False)]" using R(1) by (auto simp: free_side_def)
    then show ?thesis
      using size_at_tiled(3) [of ?hL "xs @ L @ [(s, True)]" sr False ys] tL by (simp add: add.assoc)
  qed
  have leftsz: "L \<noteq> [] \<Longrightarrow> size_at ?hL (span xs) = span L"
    using size_at_tiled(1) [of ?hL xs "span L" False "(s, True) # R @ ys"] tL L(1)
    by (auto simp: free_side_def)
  have rightsz: "R \<noteq> [] \<Longrightarrow> size_at (freed_left ?hL (xs @ L @ [(s, True)]) R) (?idx + s) = span R"
    using size_at_tiled(1) [of "freed_left ?hL (xs @ L @ [(s, True)]) R" "xs @ L @ [(s, True)]" "span R" False ys] tR R(1)
    by (auto simp: free_side_def add.assoc)
  show ?thesis
    using p(2,3) idx tk left lav right rav leftsz rightsz
    by (cases "L = []"; cases "R = []")
      (simp_all add: free_def Let_def freed_left_def remove_blk_unlinked add.assoc add.commute add.left_commute)
qed


text \<open>
  \<open>free\<close> of a taken block: it is merged with the available neighbours \<open>L\<close> and \<open>R\<close> into one
  available block, and no other word but the links of available blocks changes.
\<close>

lemma free_step:
  assumes wf: "heap_wf h bs fl" and bs: "bs = xs @ L @ (s, True) # R @ ys" and s4: "4 \<le> s"
    and L: "free_side L" "L = [] \<Longrightarrow> xs \<noteq> [] \<and> snd (last xs)"
    and R: "free_side R" "R = [] \<Longrightarrow> ys \<noteq> [] \<and> snd (hd ys)"
  shows "\<exists>h' fl'. free h (addr_of h (span (xs @ L) + 1)) = Inr h' \<and>
      heap_wf h' (xs @ (span L + s + span R, False) # ys) fl' \<and> base h' = base h \<and>
      (\<forall>k. array h' k \<noteq> array h k \<longrightarrow>
         link_of fl k \<or> (span xs \<le> k \<and> k < span xs + (span L + s + span R)))"
proof -
  let ?hL = "freed_left h xs L"
  let ?hR = "freed_left ?hL (xs @ L @ [(s, True)]) R"
  let ?flL = "if L = [] then fl else remove1 (span xs) fl"
  let ?flR = "if R = [] then ?flL else remove1 (span (xs @ L @ [(s, True)])) ?flL"
  let ?ms = "L @ (s, True) # R" and ?n = "span L + s + span R"
  have hol: "holed (array h) (avail h) bs 0 [] fl" and fr: "framed bs" and co: "coalesced bs"
    using wf by (auto simp: heap_wf_def)
  have t: "tiled (array h) 0 bs" and d: "distinct fl" using hol by (auto simp: holed_def)
  have tms: "tiled (array h) (span xs) ?ms" "tiled (array h) 0 xs" "tiled (array h) (span xs + ?n) ys"
    using t bs by (auto simp: tiled_append add.assoc)
  have mem: "x \<in> set fl \<longleftrightarrow> x \<in> set (free_starts 0 bs)" for x using wf by (simp add: heap_wf_def)
  have fms: "free_starts (span xs) ?ms =
      (if L = [] then [] else [span xs]) @ (if R = [] then [] else [span (xs @ L @ [(s, True)])])"
    using L(1) R(1) by (auto simp: free_side_def free_starts_append add.assoc)
  have fbs: "set (free_starts 0 bs) = set (free_starts 0 xs) \<union> set (free_starts (span xs) ?ms) \<union>
      set (free_starts (span xs + ?n) ys)"
    using bs by (auto simp: free_starts_append add.assoc)
  have Lm: "L \<noteq> [] \<Longrightarrow> span xs \<in> set fl" and Rm0: "R \<noteq> [] \<Longrightarrow> span (xs @ L @ [(s, True)]) \<in> set fl"
    using mem fbs fms by auto
  have spL: "0 \<le> span L" "0 \<le> span R" "L \<noteq> [] \<Longrightarrow> 2 \<le> span L"
    using tms L(1) R(1) by (auto simp: free_side_def tiled_append)
  have Rm: "R \<noteq> [] \<Longrightarrow> span (xs @ L @ [(s, True)]) \<in> set ?flL"
    using Rm0 s4 spL by auto
  note HL = freed_left_holed [OF hol L(1) Lm]
  note HR = freed_left_holed [OF HL(1) R(1) Rm]
  have tL: "tiled (array ?hL) 0 bs" and tR: "tiled (array ?hR) 0 bs"
    using HL(1) HR(1) by (simp_all add: holed_def)
  have flR: "set ?flR = set fl - set (free_starts (span xs) ?ms)"
    using d fms Rm spL s4 by auto
  have setflR: "set ?flR = set (free_starts 0 xs) \<union> set (free_starts (span xs + ?n) ys)"
  proof -
    have "x \<notin> set (free_starts (span xs) ?ms)" if "x \<in> set (free_starts 0 xs)" for x
      using that blocks_bounds [OF tms(2)] blocks_bounds [OF tms(1)] by (fastforce simp: in_free_starts)
    moreover have "x \<notin> set (free_starts (span xs) ?ms)" if "x \<in> set (free_starts (span xs + ?n) ys)" for x
      using that blocks_bounds [OF tms(3)] blocks_bounds [OF tms(1)]
      by (fastforce simp: in_free_starts add.assoc)
    ultimately show ?thesis using flR mem fbs by auto
  qed
  have inner: "xs @ L \<noteq> []" "R @ ys \<noteq> []" "2 \<le> span (xs @ L)"
    using framed_inner [of "xs @ L" s True "R @ ys"] fr bs s4 by auto
  have xs2: "xs \<noteq> []" "2 \<le> span xs"
  proof -
    show "xs \<noteq> []"
    proof (cases "L = []")
      case False
      then show ?thesis using L(1) framed_inner(1) [of xs "span L" False "(s, True) # R @ ys"] fr bs
        by (auto simp: free_side_def)
    qed (use L(2) in blast)
    then show "2 \<le> span xs"
      using L framed_inner(4) [of xs "span L" False "(s, True) # R @ ys"] fr bs inner(3)
      by (auto simp: free_side_def)
  qed
  have ys0: "ys \<noteq> []"
  proof (cases "R = []")
    case False
    then show ?thesis
      using R(1) framed_inner(2) [of "xs @ L @ [(s, True)]" "span R" False ys] fr bs
      by (auto simp: free_side_def)
  qed (use R(2) in blast)
  have n4: "4 \<le> ?n" using s4 spL by simp
  have o: "holed (array ?hR) (avail ?hR) xs ?n ys ?flR"
    using holed_open [of "array ?hR" "avail ?hR" xs ?ms ys ?flR] HR(1) bs flR
    by (simp add: add.assoc)
  let ?h' = "makeAvail ?hR (span xs) ?n"
  have h': "array ?h' = avail_array (array ?hR) (avail ?hR) (span xs) ?n" "avail ?h' = span xs"
    "base ?h' = base h" "hlen ?h' = hlen h"
    using n4 by (simp_all add: makeAvail_eq freed_left_def)
  note HA = holed_avail [OF o n4]
  have hb: "uint (base h) + 4 * hlen h < 2 ^ 32" "hlen h = span bs" using wf by (auto simp: heap_wf_def)
  have pos: "0 \<le> span (xs @ L) + 1" "span (xs @ L) + 1 < hlen h"
    using hb bs inner(3) s4 spL tiled_span_nonneg [OF tms(3)] by auto
  have ua: "uint (addr_of h (span (xs @ L) + 1)) = uint (base h) + 4 * (span (xs @ L) + 1)"
    by (rule addr_of_distinct [OF hb(1) pos])
  have ub: "uint (addr_of h 0) = uint (base h)"
    using addr_of_distinct [OF hb(1), of 0] pos by simp
  have p0: "addr_of h (span (xs @ L) + 1) \<noteq> addr_of h 0" "addr_of h (span (xs @ L) + 1) \<noteq> 0"
  proof -
    have "uint (addr_of h 0) < uint (addr_of h (span (xs @ L) + 1))"
      unfolding ua ub using inner(3) by simp
    moreover have "0 < uint (addr_of h (span (xs @ L) + 1))"
      unfolding ua by (rule add_nonneg_pos) (use inner(3) in auto)
    ultimately show "addr_of h (span (xs @ L) + 1) \<noteq> addr_of h 0"
      "addr_of h (span (xs @ L) + 1) \<noteq> 0" by auto
  qed
  have small: "4 * (span (xs @ L) + 1) < 2 ^ 32"
    using hb(1) pos(2) by (rule index_small)
  have "free h (addr_of h (span (xs @ L) + 1)) = Inr ?h'"
    by (rule free_unfold) (use t bs L R tL tR p0 small inner(3) in \<open>simp_all add: add.assoc\<close>)
  moreover have "heap_wf ?h' (xs @ (?n, False) # ys) (span xs # ?flR)"
  proof -
    have "holed (array ?h') (avail ?h') (xs @ (?n, False) # ys) 0 [] (span xs # ?flR)"
      using HA(1) xs2(2) h' holed_close [of _ _ "xs @ [(?n, False)]" ys] by simp
    moreover have "set (span xs # ?flR) = set (free_starts 0 (xs @ (?n, False) # ys))"
      using setflR by (auto simp: free_starts_append)
    moreover have "framed (xs @ (?n, False) # ys)"
      using framed_replace [of xs ?ms ys "[(?n, False)]"] fr bs xs2(1) ys0 n4 by simp
    moreover have "coalesced (xs @ (?n, False) # ys)"
      using co bs L R xs2(1) ys0 by (auto simp: coalesced_append coalesced_Cons free_side_def)
    ultimately show ?thesis using h' hb bs by (simp add: heap_wf_def)
  qed
  moreover have "link_of fl k \<or> (span xs \<le> k \<and> k < span xs + ?n)" if "array ?h' k \<noteq> array h k" for k
  proof -
    have sub: "link_of fl k" if "link_of ?flR k \<or> link_of ?flL k"
      using that by (auto dest!: link_of_remove1 split: if_splits)
    show ?thesis
      using that HA(2) [of k] xs2(2) HL(2) [of k] HR(2) [of k] sub h'(1) by fastforce
  qed
  ultimately show ?thesis using h'(3) by blast
qed


section \<open>Reading the blocks off the array\<close>

function parse :: "(int \<Rightarrow> int) \<Rightarrow> int \<Rightarrow> int \<Rightarrow> blk list" where
  "parse a i n =
     (if n \<le> 0 \<or> abs_int (a i) < 2 then []
      else (abs_int (a i), a i < 0) # parse a (i + abs_int (a i)) (n - abs_int (a i)))"
  by pat_completeness auto
termination
  by (relation "measure (\<lambda>(a, i, n). nat n)") auto

declare parse.simps [simp del]

lemma parse_tiled: "tiled a i bs \<Longrightarrow> parse a i (span bs) = bs"
proof (induction a i bs rule: tiled.induct)
  case (1 a i)
  then show ?case by (simp add: parse.simps)
next
  case (2 a i s t bs)
  then have "abs_int (a i) = s" "0 \<le> span bs" "(a i < 0) = t" "2 \<le> s"
    using tiled_span_nonneg by (auto simp: abs_int_def)
  with 2 show ?case by (simp add: parse.simps [of a i])
qed

text \<open>The blocks in use, sentinels aside, as pairs of index and size in words.\<close>

definition heap_blocks :: "kheap \<Rightarrow> blk list" where
  "heap_blocks h = parse (array h) 0 (hlen h)"

definition live :: "kheap \<Rightarrow> (int \<times> int) set" where
  "live h = set (map (\<lambda>(i, s, t). (i, s)) (filter (\<lambda>(i, s, t). t \<and> 4 \<le> s) (blocks 0 (heap_blocks h))))"

definition hwf :: "kheap \<Rightarrow> bool" where
  "hwf h \<longleftrightarrow> (\<exists>bs fl. heap_wf h bs fl)"

lemma heap_blocks_wf: "heap_wf h bs fl \<Longrightarrow> heap_blocks h = bs"
  using parse_tiled [OF heap_wf_tiled, of h bs fl] by (simp add: heap_blocks_def heap_wf_def)

lemma live_wf: "heap_wf h bs fl \<Longrightarrow> (i, s) \<in> live h \<longleftrightarrow> (i, s, True) \<in> set (blocks 0 bs) \<and> 4 \<le> s"
  by (force simp: live_def heap_blocks_wf)

text \<open>The address the caller of \<open>malloc\<close> holds for the block at index \<open>i\<close>.\<close>

definition payload :: "kheap \<Rightarrow> int \<Rightarrow> u32" where
  "payload h i = addr_of h (i + 1)"

section \<open>Request sizes\<close>

lemma ints_for_bounds:
  "4 \<le> ints_for bytes"
  "uint bytes \<le> 2 ^ 32 - 4 \<Longrightarrow> uint bytes \<le> 4 * (ints_for bytes - 2)"
proof -
  show "4 \<le> ints_for bytes" by (simp add: ints_for_def Let_def)
  assume b: "uint bytes \<le> 2 ^ 32 - 4"
  have "uint (bytes + 3) = uint bytes + 3" using b by (simp add: uint_word_ariths)
  then have d: "uint ((bytes + 3) div 4) = (uint bytes + 3) div 4" by (simp add: uint_div)
  have lt: "0 \<le> (uint bytes + 3) div 4 + 2" "(uint bytes + 3) div 4 + 2 < 2 ^ 31"
    using b by (auto intro!: add_nonneg_nonneg simp: pos_imp_zdiv_nonneg_iff)
  then have "uint ((bytes + 3) div 4 + 2) = (uint bytes + 3) div 4 + 2"
    using d by (simp add: uint_word_ariths)
  then have "sint ((bytes + 3) div 4 + 2) = (uint bytes + 3) div 4 + 2"
    using lt by (simp add: sint_uint signed_take_bit_int_eq_self)
  then show "uint bytes \<le> 4 * (ints_for bytes - 2)"
    by (auto simp: ints_for_def Let_def)
qed

section \<open>What malloc and free do\<close>

lemma live_disjoint:
  assumes "hwf h" "(i, s) \<in> live h" "(j, t) \<in> live h" "i \<noteq> j"
  shows "i + s \<le> j \<or> j + t \<le> i"
proof -
  obtain bs fl where wf: "heap_wf h bs fl" using assms(1) by (auto simp: hwf_def)
  then show ?thesis
    using blocks_disjoint [OF heap_wf_tiled [OF wf]] assms live_wf [OF wf] by blast
qed

lemma taken_not_link:
  assumes "heap_wf h bs fl" "(i, s, True) \<in> set (blocks 0 bs)" "i \<le> k" "k < i + s"
  shows "\<not> link_of fl k"
proof
  assume "link_of fl k"
  then obtain x where x: "x \<in> set fl" "k = x + 1 \<or> k = x + 2" by (auto simp: link_of_def)
  then obtain z where z: "(x, z, False) \<in> set (blocks 0 bs)"
    using heap_wf_free_block(1) [OF assms(1)] by blast
  have "4 \<le> z" using heap_wf_free_block(2) [OF assms(1) z] by simp
  moreover have "x \<noteq> i" using blocks_unique [OF heap_wf_tiled [OF assms(1)] z, of s True] assms(2) by auto
  ultimately show False
    using blocks_disjoint [OF heap_wf_tiled [OF assms(1)] z assms(2)] x assms(3,4) by auto
qed

lemma malloc_cases:
  assumes wf: "heap_wf h bs fl" and b: "bytes \<noteq> 0"
  obtains (full) "malloc h bytes = Some (Inr (h, 0))" "\<forall>x\<in>set fl. array h x < ints_for bytes"
  | (found) xs mx ys where "malloc h bytes =
        Some (Inr (carved h (span xs) mx (ints_for bytes), payload h (span xs)))"
      "bs = xs @ (mx, False) # ys" "4 \<le> ints_for bytes" "ints_for bytes \<le> mx"
      "span xs \<in> set (candidates (array h) (ints_for bytes) fl)"
      "\<forall>x\<in>set (candidates (array h) (ints_for bytes) fl). mx \<le> array h x"
proof -
  let ?n = "ints_for bytes"
  obtain mx it where sc: "scan h ?n (avail h) 20 0x7FFFFFFF 0 = Some (Inr (mx, it))"
    and z: "it = 0 \<Longrightarrow> \<forall>x\<in>set fl. array h x < ?n"
    and nz: "it \<noteq> 0 \<Longrightarrow> it \<in> set (candidates (array h) ?n fl) \<and> mx = array h it \<and>
           (\<forall>x\<in>set (candidates (array h) ?n fl). mx \<le> array h x)"
    by (rule scan_wf [OF wf, of ?n]) blast
  show thesis
  proof (cases "it = 0")
    case True
    have "malloc h bytes = Some (Inr (h, 0))" using b sc True by (simp add: malloc_def Let_def)
    with z True show thesis by (intro full) auto
  next
    case False
    note cand = nz [OF False]
    then have it: "it \<in> set fl" "?n \<le> mx" by (auto simp: candidates_def dest: in_set_takeD)
    then obtain s where s: "(it, s, False) \<in> set (blocks 0 bs)"
      using heap_wf_free_block(1) [OF wf] by blast
    then have "mx = s" using heap_wf_free_block(2) [OF wf s] cand by simp
    moreover obtain xs ys where "bs = xs @ (s, False) # ys" "it = span xs"
      using in_blocks_split [OF s] by auto
    moreover have "malloc h bytes = Some (Inr (carved h it mx ?n, payload h it))"
      using b sc False ints_for_bounds(1) [of bytes] it(2)
      by (auto simp: malloc_def Let_def remove_blk_unlinked carved_def payload_def addr_of_def
          makeAvail_eq makeTaken_eq)
    ultimately show thesis using cand it ints_for_bounds(1) by (intro found) auto
  qed
qed


text \<open>The part of the invariant on words that only writes of the client touch.\<close>

lemma poke_wf:
  assumes wf: "heap_wf h bs fl" and b: "(i, s, True) \<in> set (blocks 0 bs)" and k: "i < k" "k < i + s - 1"
  shows "heap_wf (set_at h k v) bs fl"
proof -
  have "tiled ((array h)(k := v)) 0 bs"
    by (rule tiled_link_write [OF heap_wf_tiled [OF wf] b k])
  moreover have "chain ((array h)(k := v)) (avail h) fl"
  proof (rule chain_cong)
    show "chain (array h) (avail h) fl" using wf by (simp add: heap_wf_def holed_def)
    fix j assume "link_of fl j"
    then have "j \<noteq> k" using taken_not_link [OF wf b] k by auto
    then show "((array h)(k := v)) j = array h j" by simp
  qed
  ultimately show ?thesis using wf by (auto simp: heap_wf_def holed_def)
qed

lemma taken_carve:
  "(j, t, True) \<in> set (blocks 0 (xs @ carve mx n @ ys)) \<longleftrightarrow>
     (j, t, True) \<in> set (blocks 0 (xs @ (mx, False) # ys)) \<or>
     (j, t) = (span xs, if 4 \<le> mx - n then n else mx)"
  by (auto simp: blocks_append carve_def)

lemma taken_same_block:
  assumes "heap_wf h bs fl" "(j, t, True) \<in> set (blocks 0 bs)"
    and "\<And>k. array h' k \<noteq> array h k \<Longrightarrow> link_of fl k \<or> lo \<le> k \<and> k < hi"
    and "j + t \<le> lo \<or> hi \<le> j"
  shows "same_block array h h' (j, t)"
  unfolding same_block_def
proof (intro allI impI)
  fix k assume "fst (j, t) \<le> k \<and> k < fst (j, t) + snd (j, t)"
  then show "array h' k = array h k"
    using assms(3) [of k] assms(4) taken_not_link [OF assms(1,2), of k]
    by (cases "array h' k = array h k") auto
qed

lemma malloc_found:
  assumes wf: "heap_wf h bs fl" and bs: "bs = xs @ (mx, False) # ys"
    and n: "4 \<le> n" "n \<le> mx"
  defines "h' \<equiv> carved h (span xs) mx n" and "s \<equiv> (if 4 \<le> mx - n then n else mx)"
  shows "hwf h'" and "\<forall>t. (span xs, t) \<notin> live h" and "live h' = insert (span xs, s) (live h)"
    and "n \<le> s" and "\<forall>b\<in>live h. same_block array h h' b"
proof -
  obtain fl' where wf': "heap_wf h' (xs @ carve mx n @ ys) fl'"
    using carved_wf(1) [OF wf bs n] by (auto simp: h'_def)
  then show "hwf h'" by (auto simp: hwf_def)
  have here: "(span xs, mx, False) \<in> set (blocks 0 bs)" by (simp add: bs blocks_append)
  have notin: "(span xs, t, True) \<notin> set (blocks 0 bs)" for t
    using blocks_unique [OF heap_wf_tiled [OF wf] here] by blast
  show "\<forall>t. (span xs, t) \<notin> live h" using notin by (simp add: live_wf [OF wf])
  show ns: "n \<le> s" using n by (simp add: s_def)
  show "live h' = insert (span xs, s) (live h)"
    using taken_carve [of _ _ xs mx n ys] n ns bs
    by (auto simp: live_wf [OF wf] live_wf [OF wf'] s_def)
  show "\<forall>b\<in>live h. same_block array h h' b"
  proof
    fix b assume b: "b \<in> live h"
    obtain j t where jt: "b = (j, t)" by (cases b)
    with b have t: "(j, t, True) \<in> set (blocks 0 bs)" by (simp add: live_wf [OF wf])
    with notin have "j \<noteq> span xs" by auto
    then have "j + t \<le> span xs \<or> span xs + mx \<le> j"
      using blocks_disjoint [OF heap_wf_tiled [OF wf] t here] by blast
    moreover have "link_of fl k \<or> span xs \<le> k \<and> k < span xs + mx" if "array h' k \<noteq> array h k" for k
      using carved_wf(2) [OF wf bs n, of k] that link_of_remove1 by (auto simp: h'_def)
    ultimately show "same_block array h h' b"
      using taken_same_block [OF wf t] jt by blast
  qed
qed

lemma free_live:
  assumes wf: "heap_wf h bs fl" and b: "(i, s) \<in> live h"
  shows "\<exists>h'. free h (payload h i) = Inr h' \<and> hwf h' \<and> live h' = live h - {(i, s)} \<and>
    (\<forall>b\<in>live h'. same_block array h h' b)"
proof -
  have b': "(i, s, True) \<in> set (blocks 0 bs)" and s4: "4 \<le> s" using b by (auto simp: live_wf [OF wf])
  obtain xs0 ys0 where bs: "bs = xs0 @ (s, True) # ys0" "i = span xs0"
    using in_blocks_split [OF b'] by auto
  have ne: "xs0 \<noteq> []" "ys0 \<noteq> []"
    using framed_inner [of xs0 s True ys0] wf bs s4 by (auto simp: heap_wf_def)
  obtain xs L where L: "xs0 = xs @ L" "free_side L" "L = [] \<Longrightarrow> xs \<noteq> [] \<and> snd (last xs)"
  proof (cases "snd (last xs0)")
    case True
    then show ?thesis using that [of xs0 "[]"] ne by (simp add: free_side_def)
  next
    case False
    then show ?thesis using that [of "butlast xs0" "[last xs0]"] append_butlast_last_id [OF ne(1)]
      by (cases "last xs0") (auto simp: free_side_def)
  qed
  obtain R ys where R: "ys0 = R @ ys" "free_side R" "R = [] \<Longrightarrow> ys \<noteq> [] \<and> snd (hd ys)"
  proof (cases "snd (hd ys0)")
    case True
    then show ?thesis using that [of "[]" ys0] ne by (simp add: free_side_def)
  next
    case False
    with ne(2) obtain sr r where "ys0 = [(sr, False)] @ r"
      by (cases ys0; cases "hd ys0") auto
    then show ?thesis using that [of "[(sr, False)]" r] by (simp add: free_side_def)
  qed
  let ?n = "span L + s + span R"
  have bs': "bs = xs @ L @ (s, True) # R @ ys" using bs L R by simp
  obtain h' fl' where h': "free h (addr_of h (span (xs @ L) + 1)) = Inr h'"
    "heap_wf h' (xs @ (?n, False) # ys) fl'"
    "\<And>k. array h' k \<noteq> array h k \<Longrightarrow> link_of fl k \<or> (span xs \<le> k \<and> k < span xs + ?n)"
    using free_step [OF wf bs' s4 L(2,3) R(2,3)] by blast
  have "(j, t, True) \<in> set (blocks 0 (xs @ (?n, False) # ys)) \<longleftrightarrow>
      (j, t, True) \<in> set (blocks 0 bs) \<and> (j, t) \<noteq> (i, s)" for j t
  proof -
    have tl: "tiled (array h') 0 (xs @ [(?n, False)] @ ys)" using heap_wf_tiled [OF h'(2)] by simp
    then have "(i, s, True) \<notin> set (blocks 0 xs) \<union> set (blocks (span xs + ?n) ys)"
      using blocks_bounds [of "array h'" 0 xs i s True]
        blocks_bounds [of "array h'" "span xs + ?n" ys i s True]
        heap_wf_tiled [OF wf] tiled_span_nonneg [of _ "span xs" L] bs(2) s4 bs' L(1)
      by (auto simp: tiled_append free_side_def dest: tiled_span_nonneg)
    then show ?thesis
      using L(2) R(2) bs(2) L(1) by (auto simp: bs' blocks_append free_side_def add.assoc)
  qed
  then have lv: "live h' = live h - {(i, s)}" by (auto simp: live_wf [OF wf] live_wf [OF h'(2)])
  have "same_block array h h' b" if "b \<in> live h'" for b
  proof -
    obtain j t where jt: "b = (j, t)" by (cases b)
    with that have t': "(j, t, True) \<in> set (blocks 0 (xs @ (?n, False) # ys))"
      by (simp add: live_wf [OF h'(2)])
    have t: "(j, t, True) \<in> set (blocks 0 bs)" using that lv jt by (simp add: live_wf [OF wf])
    have big: "(span xs, ?n, False) \<in> set (blocks 0 (xs @ (?n, False) # ys))"
      by (simp add: blocks_append)
    have "j \<noteq> span xs" using blocks_unique [OF heap_wf_tiled [OF h'(2)] big] t' by blast
    then have "j + t \<le> span xs \<or> span xs + ?n \<le> j"
      using blocks_disjoint [OF heap_wf_tiled [OF h'(2)] t' big] by blast
    then show ?thesis using taken_same_block [OF wf t h'(3)] jt by blast
  qed
  then show ?thesis using h'(1,2) lv bs(2) L(1) by (auto simp: payload_def hwf_def)
qed

section \<open>The kernel heap provides the contract\<close>

lemma malloc_returns_wf:
  assumes "hwf h" "n \<noteq> 0"
  shows "\<exists>h' p. malloc h n = Some (Inr (h', p)) \<and> hwf h' \<and>
      (p = 0 \<and> h' = h \<or> (\<exists>i s. p = payload h i \<and> (i, s) \<notin> live h \<and> live h' = insert (i, s) (live h))) \<and>
      (\<forall>b\<in>live h. same_block array h h' b)"
proof -
  obtain bs fl where wf: "heap_wf h bs fl" using assms(1) by (auto simp: hwf_def)
  show ?thesis
    using wf assms(2)
  proof (cases rule: malloc_cases)
    case full
    then show ?thesis using assms(1) by (auto simp: same_block_def)
  next
    case (found xs mx ys)
    then show ?thesis using malloc_found [OF wf found(2-4)] by blast
  qed
qed

interpretation kh: allocator hwf live array payload set_at malloc free
proof unfold_locales
  show "hwf h \<Longrightarrow> (i, s) \<in> live h \<Longrightarrow> (j, t) \<in> live h \<Longrightarrow> i \<noteq> j \<Longrightarrow> i + s \<le> j \<or> j + t \<le> i" for h i s j t
    by (rule live_disjoint)
next
  show "\<exists>h'. free h (payload h i) = Inr h' \<and> hwf h' \<and> live h' = live h - {(i, s)} \<and>
    (\<forall>b\<in>live h'. same_block array h h' b)" if "hwf h" "(i, s) \<in> live h" for h i s
    using that free_live by (auto simp: hwf_def)
next
  fix h i s k v assume "hwf h" and b: "(i, s) \<in> live h" and k: "i < k" "k < i + s - 1"
  then obtain bs fl where wf: "heap_wf h bs fl" by (auto simp: hwf_def)
  note wf' = poke_wf [OF wf _ k, of v]
  have "(i, s, True) \<in> set (blocks 0 bs)" using b by (simp add: live_wf [OF wf])
  from wf' [OF this] show "hwf (set_at h k v) \<and> live (set_at h k v) = live h \<and>
      array (set_at h k v) = (array h)(k := v)"
    by (auto simp: hwf_def live_wf [OF wf] live_wf)
qed (rule malloc_returns_wf)

end
