(* ===== verification/Heap_Props.thy ===== *)
theory Heap_Props
  imports Heap_Thms
begin

text \<open>
  The properties of the kernel heap as its callers see them, with instances on the heap that
  \<open>kernelInit\<close> sets up: 5 MB from address 1 MB (\<open>HEAP_START\<close> and \<open>HEAP_SIZE\<close> of
  \<open>kernel/init.cc\<close>).
\<close>

section \<open>Initialisation\<close>

lemma init_blocks_wf:
  assumes "avail h = 0" "32 \<le> uint bytes" "uint b + uint bytes < 2 ^ 32"
  shows "heap_wf (init_blocks h b bytes) [(2, True), (uint bytes div 4 - 4, False), (2, True)] [2]"
proof -
  let ?n = "uint bytes div 4"
  have n: "8 \<le> ?n" "4 * ?n \<le> uint bytes" "?n < 2 ^ 30"
    using assms(2) uint_lt2p [of bytes] by auto
  have sn: "sint (bytes div 4) = ?n"
    using n by (simp add: sint_uint uint_div signed_take_bit_int_eq_self)
  let ?h0 = "h\<lparr>base := b, hlen := ?n\<rparr>"
  let ?h1 = "makeTaken ?h0 0 2"
  let ?h2 = "makeAvail ?h1 2 (?n - 4)"
  let ?h3 = "makeTaken ?h2 (?n - 2) 2"
  have "holed (array ?h0) (avail ?h0) [] (2 + (?n - 4)) [] []"
    using n assms(1) by (simp add: holed_def)
  from holed_taken [OF this] n
  have "holed (array ?h1) (avail ?h1) [(2, True)] (?n - 4) [] []"
    by (simp add: makeTaken_eq)
  from holed_avail(1) [OF this] n
  have "holed (array ?h2) (avail ?h2) [(2, True), (?n - 4, False)] 0 [] [2]"
    by (simp add: makeAvail_eq)
  then have "holed (array ?h2) (avail ?h2) [(2, True), (?n - 4, False)] (2 + 0) [] [2]"
    by (simp add: holed_def)
  from holed_taken [OF this] n
  have "holed (array ?h3) (avail ?h3) [(2, True), (?n - 4, False), (2, True)] 0 [] [2]"
    by (simp add: makeTaken_eq)
  moreover have "framed [(2, True), (?n - 4, False), (2, True)]"
    unfolding framed_def using n by (intro exI [of _ "[(?n - 4, False)]"]) simp
  moreover have "init_blocks h b bytes = ?h3"
    by (simp add: init_blocks_def Let_def sn)
  ultimately show ?thesis
    using n assms(3) by (simp add: heap_wf_def makeTaken_eq makeAvail_eq)
qed

definition boot_heap :: kheap where
  "boot_heap = init_blocks \<lparr>array = (\<lambda>_. 0), base = 0, hlen = 0, avail = 0\<rparr> 0x100000 0x500000"

lemma boot_heap_wf: "heap_wf boot_heap [(2, True), (1310716, False), (2, True)] [2]"
  using init_blocks_wf [of "\<lparr>array = (\<lambda>_. 0), base = 0, hlen = 0, avail = 0\<rparr>" "0x500000" "0x100000"]
  by (simp add: boot_heap_def)

lemma boot_heap_hwf: "hwf boot_heap"
  using boot_heap_wf by (auto simp: hwf_def)

text \<open>
  \<open>heapInit\<close>, called on at least 32 bytes that do not run past the end of the address
  space, establishes the invariant: the array is tiled by the two sentinels and one
  available block, and no block is in use.
\<close>

theorem heapInit_establishes:
  assumes "avail h = 0" and "32 \<le> uint bytes" and "uint b + uint bytes < 2 ^ 32"
  shows "hwf (init_blocks h b bytes) \<and>
    heap_blocks (init_blocks h b bytes) = [(2, True), (uint bytes div 4 - 4, False), (2, True)] \<and>
    live (init_blocks h b bytes) = {}"
proof -
  note wf = init_blocks_wf [OF assms]
  then show ?thesis using heap_blocks_wf [OF wf] by (auto simp: hwf_def live_def)
qed

theorem heapInit_establishes_witness:
  "hwf (init_blocks \<lparr>array = (\<lambda>_. 7), base = 0, hlen = 0, avail = 0\<rparr> 0x100000 64) \<and>
   heap_blocks (init_blocks \<lparr>array = (\<lambda>_. 7), base = 0, hlen = 0, avail = 0\<rparr> 0x100000 64)
     = [(2, True), (12, False), (2, True)]"
  using heapInit_establishes [of "\<lparr>array = (\<lambda>_. 7), base = 0, hlen = 0, avail = 0\<rparr>" 64 "0x100000"]
  by simp

section \<open>malloc\<close>

text \<open>
  C31. \<open>malloc\<close> of a positive number of bytes on a well-formed heap returns, without a panic.
  Either the result is 0, no available block is large enough and the heap is as before; or
  the result is the address of the payload of a new block, disjoint from every block in use
  and with room for the bytes asked for (below the top of the \<open>size_t\<close> range), and that
  block is the only change to the set of blocks in use. The invariant is kept.
\<close>

theorem malloc_contract:
  assumes "hwf h" and "bytes \<noteq> 0"
  shows "\<exists>h' p. malloc h bytes = Some (Inr (h', p)) \<and> hwf h' \<and>
    (p = 0 \<and> h' = h \<and> (\<forall>i s. (i, s, False) \<in> set (blocks 0 (heap_blocks h)) \<longrightarrow> s < ints_for bytes) \<or>
     (\<exists>i s. p = payload h i \<and> live h' = insert (i, s) (live h) \<and>
        (\<forall>(j, t)\<in>live h. j + t \<le> i \<or> i + s \<le> j) \<and> ints_for bytes \<le> s \<and>
        (uint bytes \<le> 2 ^ 32 - 4 \<longrightarrow> uint bytes \<le> 4 * (s - 2))))"
proof -
  obtain bs fl where wf: "heap_wf h bs fl" using assms(1) by (auto simp: hwf_def)
  show ?thesis
    using wf assms(2)
  proof (cases rule: malloc_cases)
    case full
    have "s < ints_for bytes" if "(i, s, False) \<in> set (blocks 0 bs)" for i s
      using full(2) heap_wf_free_block [OF wf] that by fastforce
    then show ?thesis using full assms(1) heap_blocks_wf [OF wf] by auto
  next
    case (found xs mx ys)
    let ?s = "if 4 \<le> mx - ints_for bytes then ints_for bytes else mx"
    note m = malloc_found [OF wf found(2-4)]
    have "j + t \<le> span xs \<or> span xs + ?s \<le> j" if "(j, t) \<in> live h" for j t
    proof -
      have "j \<noteq> span xs" using m(2) that by auto
      then show ?thesis using live_disjoint [OF m(1), of j t "span xs" ?s] m(3) that by auto
    qed
    moreover have "uint bytes \<le> 2 ^ 32 - 4 \<longrightarrow> uint bytes \<le> 4 * (?s - 2)"
      using ints_for_bounds(2) [of bytes] m(4) by auto
    ultimately show ?thesis using found(1) m(1,3,4) by blast
  qed
qed

theorem malloc_contract_witness:
  "\<exists>h' p. malloc boot_heap 100 = Some (Inr (h', p)) \<and> hwf h'"
  using malloc_contract [OF boot_heap_hwf, of 100] by auto

text \<open>
  Best fit among the first twenty: when \<open>malloc\<close> finds a block, it takes one of the
  first twenty blocks of the free list that are large enough, and none of these is smaller;
  a remainder of at least four words becomes an available block of its own.
\<close>

theorem malloc_best_of_twenty:
  assumes "heap_wf h bs fl" and "bytes \<noteq> 0" and "\<exists>x\<in>set fl. ints_for bytes \<le> array h x"
  shows "\<exists>xs mx ys h'. bs = xs @ (mx, False) # ys \<and>
    malloc h bytes = Some (Inr (h', payload h (span xs))) \<and>
    heap_blocks h' = xs @ (if 4 \<le> mx - ints_for bytes
       then [(ints_for bytes, True), (mx - ints_for bytes, False)] else [(mx, True)]) @ ys \<and>
    span xs \<in> set (take 20 (filter (\<lambda>x. ints_for bytes \<le> array h x) fl)) \<and>
    (\<forall>x\<in>set (take 20 (filter (\<lambda>x. ints_for bytes \<le> array h x) fl)). mx \<le> array h x)"
  using assms(1,2)
proof (cases rule: malloc_cases)
  case full
  with assms(3) show ?thesis by force
next
  case (found xs mx ys)
  obtain fl' where wf': "heap_wf (carved h (span xs) mx (ints_for bytes)) (xs @ carve mx (ints_for bytes) @ ys) fl'"
    using carved_wf(1) [OF assms(1) found(2-4)] by blast
  then show ?thesis using found heap_blocks_wf [OF wf'] unfolding candidates_def carve_def by blast
qed

lemma boot_heap_array_2: "array boot_heap 2 = 1310716"
  using heap_wf_free_block(2) [OF boot_heap_wf, of 2 1310716] by simp

theorem malloc_best_of_twenty_witness:
  "\<exists>h'. malloc boot_heap 100 = Some (Inr (h', payload boot_heap 2)) \<and>
     heap_blocks h' = [(2, True), (27, True), (1310689, False), (2, True)]"
proof -
  have n: "ints_for 100 = 27" by (simp add: ints_for_def Let_def)
  obtain xs mx ys h' where r: "[(2, True), (1310716, False), (2, True)] = xs @ (mx, False) # ys"
    "malloc boot_heap 100 = Some (Inr (h', payload boot_heap (span xs)))"
    "heap_blocks h' = xs @ (if 4 \<le> mx - 27 then [(27, True), (mx - 27, False)] else [(mx, True)]) @ ys"
    using malloc_best_of_twenty [OF boot_heap_wf, of 100] n boot_heap_array_2 by auto
  from r(1) have "xs = [(2, True)]" "mx = 1310716" "ys = [(2, True)]"
    by (auto simp: append_eq_Cons_conv Cons_eq_append_conv)
  with r(2,3) show ?thesis by simp
qed

text \<open>
  The size computation wraps around: for the three largest requests the number of words
  is that of a one byte request, so \<open>malloc\<close> of 4294967295 bytes hands out a block of
  four words where it should fail.
\<close>

theorem malloc_size_wraps:
  assumes "0xFFFFFFFD \<le> bytes"
  shows "malloc h bytes = malloc h 1 \<and> ints_for bytes = 4"
proof -
  have "uint bytes < 2 ^ 32" using uint_lt2p [of bytes] by simp
  moreover have "0xFFFFFFFD \<le> uint bytes" using assms by (simp add: word_le_def)
  ultimately have u: "uint (bytes + 3) = uint bytes + 3 - 2 ^ 32"
  proof -
    have "(uint bytes + 3 - 2 ^ 32 + 2 ^ 32) mod 2 ^ 32 = uint bytes + 3 - 2 ^ 32"
      unfolding mod_add_self2
      by (rule mod_pos_pos_trivial) (use \<open>uint bytes < 2 ^ 32\<close> \<open>0xFFFFFFFD \<le> uint bytes\<close> in auto)
    then have "(uint bytes + 3) mod 2 ^ 32 = uint bytes + 3 - 2 ^ 32"
      by (simp only: diff_add_cancel)
    then show ?thesis by (simp add: uint_word_ariths)
  qed
  then have "uint ((bytes + 3) div 4) = 0"
    using \<open>uint bytes < 2 ^ 32\<close> \<open>0xFFFFFFFD \<le> uint bytes\<close> by (simp add: uint_div)
  then have "(bytes + 3) div 4 = 0" by (simp add: word_uint_eq_iff)
  then have 4: "ints_for bytes = 4" by (simp add: ints_for_def Let_def)
  have 1: "ints_for 1 = 4" by (simp add: ints_for_def Let_def)
  have "bytes \<noteq> 0" using assms by (auto simp: word_le_def)
  then show ?thesis using 1 4 by (simp add: malloc_def Let_def)
qed

theorem malloc_size_wraps_witness:
  "malloc boot_heap 0xFFFFFFFF = malloc boot_heap 1 \<and> ints_for 0xFFFFFFFF = 4"
  by (rule malloc_size_wraps) simp

section \<open>free\<close>

text \<open>
  C32. \<open>free\<close> of a block in use returns without a panic and takes just that block out of use;
  the words of all other blocks in use are as before, and in the result no two neighbouring
  blocks are both available, so the freed block has been merged with its neighbours.
\<close>

theorem free_contract:
  assumes "hwf h" and "(i, s) \<in> live h"
  shows "\<exists>h'. free h (payload h i) = Inr h' \<and> hwf h' \<and> live h' = live h - {(i, s)} \<and>
    (\<forall>b\<in>live h'. same_block array h h' b) \<and> coalesced (heap_blocks h')"
proof -
  obtain bs fl where wf: "heap_wf h bs fl" using assms(1) by (auto simp: hwf_def)
  have "coalesced (heap_blocks h')" if "hwf h'" for h'
    using that heap_blocks_wf by (auto simp: hwf_def heap_wf_def)
  then show ?thesis using free_live [OF wf assms(2)] by blast
qed

theorem free_contract_witness:
  "\<exists>h h' s. (2, s) \<in> live h \<and> free h (payload h 2) = Inr h' \<and> hwf h' \<and> (2, s) \<notin> live h'"
proof -
  let ?h = "carved boot_heap (span [(2, True)]) 1310716 27"
  note m = malloc_found [OF boot_heap_wf, of "[(2, True)]" 1310716 "[(2, True)]" 27]
  have h: "hwf ?h" "(2, 27) \<in> live ?h" using m by simp_all
  from free_contract [OF h] h(2) show ?thesis by blast
qed

text \<open>
  \<open>free\<close> of an available block panics: a second \<open>free\<close> of the same block whose memory
  has not been handed out again does not corrupt the heap. \<open>free(0)\<close> and the \<open>free\<close> of what
  \<open>malloc(0)\<close> returned do nothing.
\<close>

theorem free_available_panics:
  assumes "hwf h" and "(i, s, False) \<in> set (blocks 0 (heap_blocks h))"
  shows "free h (payload h i) = Inl (Panic ''freeing free block'') \<and> free h 0 = Inr h \<and>
    free h (addr_of h 0) = Inr h \<and> malloc h 0 = Some (Inr (h, addr_of h 0))"
proof -
  obtain bs fl where wf: "heap_wf h bs fl" using assms(1) by (auto simp: hwf_def)
  have b: "(i, s, False) \<in> set (blocks 0 bs)" using assms(2) heap_blocks_wf [OF wf] by simp
  have hl: "uint (base h) + 4 * hlen h < 2 ^ 32" "hlen h = span bs" using wf by (auto simp: heap_wf_def)
  have i: "0 \<le> i" "i + s \<le> hlen h" "array h i = s" "4 \<le> s"
    using blocks_bounds [OF heap_wf_tiled [OF wf] b] heap_wf_free_block(2) [OF wf b] hl by auto
  have small: "4 * (i + 1) < 2 ^ 32" using hl(1) by (rule index_small) (use i in simp)
  have u: "uint (payload h i) = uint (base h) + 4 * (i + 1)"
    unfolding payload_def by (rule addr_of_distinct [OF hl(1)]) (use i in auto)
  have "uint (base h) < uint (payload h i)" unfolding u using i by simp
  then have "payload h i \<noteq> addr_of h 0" "payload h i \<noteq> 0" by (auto simp: addr_of_def word_less_def)
  moreover have "index_of h (payload h i) = i"
    unfolding payload_def by (rule index_of_addr [OF i(1) small])
  ultimately show ?thesis using i by (auto simp: free_def Let_def isTaken_def malloc_def)
qed

theorem free_available_panics_witness:
  "free boot_heap (payload boot_heap 2) = Inl (Panic ''freeing free block'')"
  using free_available_panics [OF boot_heap_hwf, of 2 1310716] heap_blocks_wf [OF boot_heap_wf] by simp

section \<open>Any use of the heap\<close>

text \<open>
  C12. Memory safety over time: from a well-formed heap, any sequence of allocations, of
  releases of blocks in use and of writes between the first and the last word of a block in
  use runs to its end without a panic and without a loop that does not stop; the heap is
  well-formed at the end, and a block that the sequence neither releases nor writes is still
  in use with the same contents.
\<close>

theorem heap_use_safe:
  assumes "heap_run malloc free payload live set_at h ops r" and "hwf h"
  shows "\<exists>h'. r = Some h' \<and> hwf h' \<and>
    (\<forall>i s. (i, s) \<in> live h \<longrightarrow> (\<forall>op\<in>set ops. spares i op) \<longrightarrow>
       (i, s) \<in> live h' \<and> same_block array h h' (i, s))"
  using assms by (rule kh.run_safe)

theorem heap_use_safe_witness:
  "\<exists>r h'. heap_run malloc free payload live set_at boot_heap [Alloc 100, Store 2 5 77, Release 2] r
     \<and> r = Some h' \<and> hwf h'"
proof -
  let ?h = "carved boot_heap (span [(2, True)]) 1310716 27"
  note m = malloc_found [OF boot_heap_wf, of "[(2, True)]" 1310716 "[(2, True)]" 27]
  have h: "hwf ?h" "(2, 27) \<in> live ?h" using m by simp_all
  obtain h' p where a: "malloc boot_heap 100 = Some (Inr (h', p))" "hwf h'" "heap_blocks h' = [(2, True), (27, True), (1310689, False), (2, True)]"
    using malloc_best_of_twenty_witness kh.alloc_returns [OF boot_heap_hwf, of 100] by fastforce
  have l: "(2, 27) \<in> live h'" using a(3) by (simp add: live_def)
  note pk = kh.poke_inside [OF a(2) l, of 5 77]
  have l2: "(2, 27) \<in> live (set_at h' 5 77)" and w2: "hwf (set_at h' 5 77)" using pk l by auto
  obtain h2 where f: "free (set_at h' 5 77) (payload (set_at h' 5 77) 2) = Inr h2"
    using kh.release_returns [OF w2 l2] by blast
  have "heap_step malloc free payload live set_at boot_heap (Alloc 100) (Some h')"
    by (rule heap_step.alloc_ok) (use a(1) in auto)
  moreover have "heap_step malloc free payload live set_at h' (Store 2 5 77) (Some (set_at h' 5 77))"
    by (rule heap_step.store) (use l in auto)
  moreover have "heap_step malloc free payload live set_at (set_at h' 5 77) (Release 2) (Some h2)"
    by (rule heap_step.release_ok) (use l2 f in auto)
  ultimately have "heap_run malloc free payload live set_at boot_heap [Alloc 100, Store 2 5 77, Release 2] (Some h2)"
    by (blast intro: heap_run.intros)
  from this heap_use_safe [OF this boot_heap_hwf] show ?thesis by blast
qed

end
