(* ===== verification/PhysMem.thy ===== *)
theory PhysMem
  imports Prelude
begin

text \<open>
  Physical memory and its frame allocator, \<open>kernel/physmem.cc\<close> and \<open>kernel/physmem.h\<close>.

  The kernel reads and writes frames only through a frame-aligned pointer and an index, so
  memory is a function from frame addresses to the 1024 words of the frame. A free frame
  holds the address of the next free frame in its first word (\<open>struct Frame\<close>). Reference
  counts are 16 bit numbers in tables that are frames themselves; the array \<open>refs\<close> holds, for
  each 2048 frames (8 MB), the address of their table and, in its low 12 bits, how many counts of
  the table are not zero. Each operation is one step, as on one core; the
  window that \<open>incref\<close> and \<open>decref\<close> leave between their atomic accesses is not modelled.
\<close>

section \<open>State\<close>

record pm =
  mem :: "u32 \<Rightarrow> nat \<Rightarrow> u32"
  firstFree :: u32
  pavail :: u32
  limit :: u32
  start :: u32
  refs :: "u32 \<Rightarrow> u32"

definition FRAME_SIZE :: u32 where
  "FRAME_SIZE = 0x1000"

definition offset :: "u32 \<Rightarrow> u32" where
  "offset pa = pa AND 0xFFF"

definition ppn :: "u32 \<Rightarrow> u32" where
  "ppn pa = drop_bit 12 pa"

definition framedown :: "u32 \<Rightarrow> u32" where
  "framedown pa = (pa div FRAME_SIZE) * FRAME_SIZE"

definition frameup :: "u32 \<Rightarrow> u32" where
  "frameup pa = framedown (pa + FRAME_SIZE - 1)"

text \<open>The 16 bit halves of the words of a frame, as \<open>uint16_t*\<close> indexes them.\<close>

definition get16 :: "(nat \<Rightarrow> u32) \<Rightarrow> nat \<Rightarrow> u16" where
  "get16 f k = ucast (drop_bit (16 * (k mod 2)) (f (k div 2)))"

definition put16 :: "(nat \<Rightarrow> u32) \<Rightarrow> nat \<Rightarrow> u16 \<Rightarrow> (nat \<Rightarrow> u32)" where
  "put16 f k v = f(k div 2 :=
     (if even k then (f (k div 2) AND 0xFFFF0000) OR ucast v
      else (f (k div 2) AND 0xFFFF) OR push_bit 16 (ucast v)))"

section \<open>Operations\<close>

definition unsafe_alloc_frame :: "'a pm_scheme \<Rightarrow> ('a pm_scheme \<times> u32) res" where
  "unsafe_alloc_frame m =
     bindE (if firstFree m \<noteq> 0 then
              Inr (m\<lparr>firstFree := mem m (firstFree m) 0\<rparr>, firstFree m)
            else if pavail m = limit m then Inl (Panic ''no more frames'')
            else Inr (m\<lparr>pavail := pavail m + FRAME_SIZE\<rparr>, pavail m))
       (\<lambda>(m1, p). bindE (ASSERT (offset p = 0) ''offset(p) == 0'')
         (\<lambda>_. Inr (m1\<lparr>mem := (mem m1)(p := (\<lambda>_. 0))\<rparr>, p)))"

definition dealloc_frame :: "u32 \<Rightarrow> 'a pm_scheme \<Rightarrow> 'a pm_scheme res" where
  "dealloc_frame p m =
     bindE (ASSERT (offset p = 0) ''offset(p) == 0'')
       (\<lambda>_. Inr (m\<lparr>mem := (mem m)(p := (mem m p)(0 := firstFree m)), firstFree := p\<rparr>))"

definition ref_index :: "'a pm_scheme \<Rightarrow> u32 \<Rightarrow> u32" where
  "ref_index m p = drop_bit 12 (p - start m)"

definition ridx :: "'a pm_scheme \<Rightarrow> u32 \<Rightarrow> u32" where
  "ridx m p = drop_bit 11 (ref_index m p)"

definition rofs :: "'a pm_scheme \<Rightarrow> u32 \<Rightarrow> nat" where
  "rofs m p = unat (ref_index m p AND 0x7FF)"

definition set_ref :: "u32 \<Rightarrow> u32 \<Rightarrow> 'a pm_scheme \<Rightarrow> 'a pm_scheme" where
  "set_ref i v m = m\<lparr>refs := (refs m)(i := v)\<rparr>"

definition set_count :: "u32 \<Rightarrow> nat \<Rightarrow> u16 \<Rightarrow> 'a pm_scheme \<Rightarrow> 'a pm_scheme" where
  "set_count rtb k v m = m\<lparr>mem := (mem m)(rtb := put16 (mem m rtb) k v)\<rparr>"

definition incref :: "u32 \<Rightarrow> 'a pm_scheme \<Rightarrow> 'a pm_scheme res" where
  "incref p m =
     bindE (ASSERT (offset p = 0) ''offset(p) == 0'') (\<lambda>_.
     let i = ridx m p; k = rofs m p in
     bindE (if refs m i AND 0xFFF = 0
            then bindE (unsafe_alloc_frame m) (\<lambda>(m1, t). Inr (set_ref i t m1))
            else Inr m) (\<lambda>m1.
     let rtb = refs m1 i AND 0xFFFFF000;
         old = get16 (mem m1 rtb) k;
         m2 = set_count rtb k (old + 1) m1
     in Inr (if old = 0 then set_ref i (refs m2 i + 1) m2 else m2)))"

definition decref :: "u32 \<Rightarrow> (u32 \<Rightarrow> 'a pm_scheme \<Rightarrow> 'a pm_scheme res) \<Rightarrow> 'a pm_scheme \<Rightarrow> 'a pm_scheme res" where
  "decref p f m =
     bindE (ASSERT (offset p = 0) ''offset(p) == 0'') (\<lambda>_.
     let i = ridx m p; k = rofs m p; rent = refs m i in
     bindE (ASSERT (rent AND 0xFFF \<noteq> 0) ''rent & 0xfff'') (\<lambda>_.
     let rtb = rent AND 0xFFFFF000;
         val = get16 (mem m rtb) k - 1;
         m1 = set_count rtb k val m
     in if val = 0 then
          bindE (f p m1) (\<lambda>m2.
          bindE (dealloc_frame p m2) (\<lambda>m3.
          let rent' = refs m3 i - 1;
              m4 = set_ref i rent' m3
          in if rent' AND 0xFFF = 0 then dealloc_frame (rent' AND 0xFFFFF000) m4 else Inr m4))
        else Inr m1))"

definition alloc_frame :: "'a pm_scheme \<Rightarrow> ('a pm_scheme \<times> u32) res" where
  "alloc_frame m = bindE (unsafe_alloc_frame m) (\<lambda>(m1, p). bindE (incref p m1) (\<lambda>m2. Inr (m2, p)))"

text \<open>
  \<open>PhysMem::init\<close>; it also registers the page fault handler with the IDT (\<open>IDT::trap(14, \<dots>, 3)\<close>).
  The array \<open>refs\<close> is fresh zeroed heap memory.
\<close>

definition init :: "u32 \<Rightarrow> u32 \<Rightarrow> 'a pm_scheme \<Rightarrow> 'a pm_scheme res" where
  "init start0 sz m =
     bindE (ASSERT (offset start0 = 0) ''offset(start) == 0'') (\<lambda>_.
     bindE (ASSERT (offset sz = 0) ''offset(size) == 0'') (\<lambda>_.
     Inr (m\<lparr>start := start0, pavail := start0, limit := start0 + sz, refs := (\<lambda>_. 0)\<rparr>)))"

text \<open>The stores that clients make into their frames: one word, and a whole frame (\<open>memcpy\<close>).\<close>

definition write_word :: "u32 \<Rightarrow> nat \<Rightarrow> u32 \<Rightarrow> 'a pm_scheme \<Rightarrow> 'a pm_scheme" where
  "write_word p k v m = m\<lparr>mem := (mem m)(p := (mem m p)(k := v))\<rparr>"

definition copy_frame :: "u32 \<Rightarrow> u32 \<Rightarrow> 'a pm_scheme \<Rightarrow> 'a pm_scheme" where
  "copy_frame dst src m = m\<lparr>mem := (mem m)(dst := mem m src)\<rparr>"

lemma halves:
  fixes w :: u32 and v :: u16
  shows "ucast ((w AND 0xFFFF0000) OR ucast v) = v"
    and "ucast (drop_bit 16 ((w AND 0xFFFF0000) OR ucast v)) = (ucast (drop_bit 16 w) :: u16)"
    and "ucast ((w AND 0xFFFF) OR push_bit 16 (ucast v)) = (ucast w :: u16)"
    and "ucast (drop_bit 16 ((w AND 0xFFFF) OR push_bit 16 (ucast v))) = v"
proof -
  have hi: "(0xFFFF0000 :: u32) = push_bit 16 (mask 16)" and lo: "(0xFFFF :: u32) = mask 16"
    by (simp_all add: mask_eq_exp_minus_1 push_bit_eq_mult)
  show "ucast ((w AND 0xFFFF0000) OR ucast v) = v"
    unfolding hi by (rule bit_word_eqI) (auto simp: bit_simps)
  show "ucast (drop_bit 16 ((w AND 0xFFFF0000) OR ucast v)) = (ucast (drop_bit 16 w) :: u16)"
    unfolding hi by (rule bit_word_eqI) (auto simp: bit_simps dest: bit_imp_le_length)
  show "ucast ((w AND 0xFFFF) OR push_bit 16 (ucast v)) = (ucast w :: u16)"
    unfolding lo by (rule bit_word_eqI) (auto simp: bit_simps)
  show "ucast (drop_bit 16 ((w AND 0xFFFF) OR push_bit 16 (ucast v))) = v"
    unfolding lo by (rule bit_word_eqI) (auto simp: bit_simps)
qed

lemma half_up [simp]: "ucast (drop_bit 16 (push_bit 16 (ucast (v :: u16) :: u32))) = v"
  by (rule bit_word_eqI) (auto simp: bit_simps)

lemma get16_put16: "get16 (put16 f k v) j = (if j = k then v else get16 f j)"
proof (cases "j div 2 = k div 2")
  case False
  then show ?thesis by (auto simp: get16_def put16_def)
next
  case True
  then have odd: "j \<noteq> k \<Longrightarrow> even j \<longleftrightarrow> odd k" by presburger
  show ?thesis
  proof (cases "j = k")
    case True
    then show ?thesis by (simp add: get16_def put16_def mod_2_eq_odd halves del: drop_bit_and drop_bit_or)
  next
    case False
    with odd True show ?thesis by (cases "even k") (simp_all add: get16_def put16_def mod_2_eq_odd halves del: drop_bit_and drop_bit_or)
  qed
qed

end
