(* ===== verification/PhysMem_Inv.thy ===== *)
theory PhysMem_Inv
  imports PhysMem
begin

text \<open>
  The invariant of the frame allocator and of the reference counts, and what each operation
  of \<open>PhysMem\<close> does under it. The abstract state is the list \<open>fl\<close> of free frames, in the
  order of the linked list, and the count of every frame.
\<close>

section \<open>Frame arithmetic\<close>

abbreviation FMASK :: u32 where "FMASK \<equiv> 0xFFFFF000"

lemma and_low: "(x :: u32) AND 0xFFF = take_bit 12 x"
proof -
  have "(0xFFF :: u32) = mask 12" by (simp add: mask_eq_exp_minus_1)
  then show ?thesis by (simp only: take_bit_eq_mask)
qed

lemma and_high: "(x :: u32) AND FMASK = push_bit 12 (drop_bit 12 x)"
proof -
  have m: "FMASK = push_bit 12 (mask 20)" by (simp add: mask_eq_exp_minus_1 push_bit_eq_mult)
  show ?thesis unfolding m by (rule bit_word_eqI) (auto simp: bit_simps)
qed

lemma uint_low: "uint ((x :: u32) AND 0xFFF) = uint x mod 4096"
  unfolding and_low unsigned_take_bit_eq by (simp add: take_bit_eq_mod)

lemma uint_high: "uint ((x :: u32) AND FMASK) = 4096 * (uint x div 4096)"
proof -
  have "4096 * (uint x div 4096) \<le> uint x" by simp
  then have b: "4096 * (uint x div 4096) < 2 ^ 32" using uint_lt2p [of x] by simp
  have "x AND FMASK = 4096 * (x div 4096)"
    unfolding and_high by (simp add: push_bit_eq_mult drop_bit_eq_div mult.commute)
  then have "uint (x AND FMASK) = (4096 * (uint x div 4096)) mod 2 ^ 32"
    by (simp add: uint_word_ariths uint_div)
  also have "\<dots> = 4096 * (uint x div 4096)"
    by (rule mod_pos_pos_trivial) (use b in \<open>auto simp: pos_imp_zdiv_nonneg_iff\<close>)
  finally show ?thesis .
qed

text \<open>Frame addresses are the multiples of 4096.\<close>

lemma offset_iff: "offset p = 0 \<longleftrightarrow> uint p mod 4096 = 0"
  unfolding offset_def word_uint_eq_iff uint_low by simp

lemma offset_high [simp]: "offset (x AND FMASK) = 0"
  unfolding offset_iff uint_high by simp

lemma high_aligned: "offset p = 0 \<Longrightarrow> p AND FMASK = p"
proof -
  assume "offset p = 0"
  then have "uint p mod 4096 = 0" by (simp only: offset_iff)
  then have "4096 * (uint p div 4096) = uint p" by (metis add_0_right mult_div_mod_eq)
  then show ?thesis unfolding word_uint_eq_iff uint_high .
qed

lemma low_aligned: "offset p = 0 \<Longrightarrow> p AND 0xFFF = 0"
  by (simp add: offset_def)

lemma int_entry_succ:
  "(a :: int) mod 4096 < 4095 \<Longrightarrow> (a + 1) div 4096 = a div 4096 \<and> (a + 1) mod 4096 = a mod 4096 + 1"
proof -
  assume "a mod 4096 < 4095"
  moreover have "a + 1 = 4096 * (a div 4096) + (a mod 4096 + 1)" by simp
  moreover have "0 \<le> a mod 4096 + 1" by (simp add: add_nonneg_nonneg)
  ultimately show ?thesis
    using int_div_pos_eq [of "a + 1" 4096 "a div 4096" "a mod 4096 + 1"]
      int_mod_pos_eq [of "a + 1" 4096 "a div 4096" "a mod 4096 + 1"] by simp
qed

lemma int_entry_pred:
  "0 < (a :: int) mod 4096 \<Longrightarrow> (a - 1) div 4096 = a div 4096 \<and> (a - 1) mod 4096 = a mod 4096 - 1"
proof -
  assume "0 < a mod 4096"
  moreover have "a - 1 = 4096 * (a div 4096) + (a mod 4096 - 1)" by simp
  moreover have "a mod 4096 < 4096" by simp
  ultimately show ?thesis
    using int_div_pos_eq [of "a - 1" 4096 "a div 4096" "a mod 4096 - 1"]
      int_mod_pos_eq [of "a - 1" 4096 "a div 4096" "a mod 4096 - 1"] by simp
qed

lemma offset_dvd: "offset p = 0 \<longleftrightarrow> 4096 dvd uint p"
  by (simp add: offset_iff dvd_eq_mod_eq_0)

lemma offset_diff:
  assumes "offset p = 0" "offset q = 0"
  shows "offset (p - q) = 0"
proof -
  have "uint (p - q) = (uint p - uint q) mod 2 ^ 32" by (simp add: uint_word_ariths)
  moreover have "(4096 :: int) dvd 2 ^ 32" by simp
  ultimately show ?thesis using assms unfolding offset_dvd by (metis dvd_diff dvd_mod)
qed

lemma high_eqI: "offset p = 0 \<Longrightarrow> offset q = 0 \<Longrightarrow> drop_bit 12 p = drop_bit 12 q \<Longrightarrow> p = q"
  by (metis and_high high_aligned)

text \<open>A table entry: an aligned address with a number below 4096 in the low bits.\<close>

lemma entry_succ:
  assumes "uint (r AND 0xFFF) < 4095"
  shows "(r + 1) AND FMASK = r AND FMASK" "uint ((r + 1) AND 0xFFF) = uint (r AND 0xFFF) + 1"
proof -
  have b: "uint r mod 4096 < 4095" using assms unfolding uint_low .
  note e = int_entry_succ [OF b]
  have "uint r \<noteq> 2 ^ 32 - 1" using b by auto
  then have "uint r + 1 < 2 ^ 32" using uint_lt2p [of r] by simp
  then have u: "uint (r + 1) = uint r + 1" by (simp add: uint_word_ariths)
  show "(r + 1) AND FMASK = r AND FMASK"
    unfolding word_uint_eq_iff uint_high u using e by (simp only: e)
  show "uint ((r + 1) AND 0xFFF) = uint (r AND 0xFFF) + 1"
    unfolding uint_low u using e by (simp only: e)
qed

lemma entry_pred:
  assumes "0 < uint (r AND 0xFFF)"
  shows "(r - 1) AND FMASK = r AND FMASK" "uint ((r - 1) AND 0xFFF) = uint (r AND 0xFFF) - 1"
proof -
  have b: "0 < uint r mod 4096" using assms unfolding uint_low .
  note e = int_entry_pred [OF b]
  have "uint r \<noteq> 0" using b by auto
  then have "0 \<le> uint r - 1" using uint_ge_0 [of r] by linarith
  moreover have "uint r - 1 < 2 ^ 32" using uint_lt2p [of r] by simp
  ultimately have u: "uint (r - 1) = uint r - 1" by (simp add: uint_word_ariths)
  show "(r - 1) AND FMASK = r AND FMASK"
    unfolding word_uint_eq_iff uint_high u by (simp only: e)
  show "uint ((r - 1) AND 0xFFF) = uint (r AND 0xFFF) - 1"
    unfolding uint_low u by (simp only: e)
qed

section \<open>Indices of the reference counts\<close>

lemma ref_slot_inj:
  assumes "offset p = 0" "offset q = 0" "offset (start m) = 0"
    and "ridx m p = ridx m q" "rofs m p = rofs m q"
  shows "p = q"
proof -
  let ?a = "ref_index m p" and ?b = "ref_index m q"
  have low: "?a AND 0x7FF = ?b AND 0x7FF" and high: "drop_bit 11 ?a = drop_bit 11 ?b"
    using assms(4,5) by (simp_all only: ridx_def rofs_def word_unat_eq_iff)
  have "(0x7FF :: u32) = mask 11" by (simp add: mask_eq_exp_minus_1)
  then have "take_bit 11 ?a = take_bit 11 ?b" using low by (simp add: take_bit_eq_mask)
  then have "?a = ?b" using high by (metis bits_ident)
  then have "drop_bit 12 (p - start m) = drop_bit 12 (q - start m)" by (simp add: ref_index_def)
  then have "p - start m = q - start m"
    using high_eqI offset_diff assms(1-3) by blast
  then show ?thesis by simp
qed

lemma rofs_bound: "rofs m p < 2048"
proof -
  have "(0x7FF :: u32) = mask 11" by (simp add: mask_eq_exp_minus_1)
  then have "ref_index m p AND 0x7FF = take_bit 11 (ref_index m p)" by (simp add: take_bit_eq_mask)
  then show ?thesis unfolding rofs_def by (simp only: unsigned_take_bit_eq) (simp add: take_bit_eq_mod)
qed


section \<open>The invariant\<close>

fun fchain :: "(u32 \<Rightarrow> nat \<Rightarrow> u32) \<Rightarrow> u32 \<Rightarrow> u32 list \<Rightarrow> bool" where
  "fchain mm p [] \<longleftrightarrow> p = 0"
| "fchain mm p (x # xs) \<longleftrightarrow> p = x \<and> x \<noteq> 0 \<and> fchain mm (mm x 0) xs"

lemma fchain_cong: "(\<And>x. x \<in> set fl \<Longrightarrow> mm' x 0 = mm x 0) \<Longrightarrow> fchain mm' p fl \<longleftrightarrow> fchain mm p fl"
  by (induction fl arbitrary: p) auto

text \<open>A frame of the managed range that has been handed out at some time.\<close>

definition managed :: "'a pm_scheme \<Rightarrow> u32 \<Rightarrow> bool" where
  "managed m p \<longleftrightarrow> offset p = 0 \<and> start m \<le> p \<and> p < pavail m"

definition used :: "'a pm_scheme \<Rightarrow> u32 \<Rightarrow> bool" where
  "used m i \<longleftrightarrow> refs m i AND 0xFFF \<noteq> 0"

definition tbl :: "'a pm_scheme \<Rightarrow> u32 \<Rightarrow> u32" where
  "tbl m i = refs m i AND FMASK"

definition nonzero_counts :: "'a pm_scheme \<Rightarrow> u32 \<Rightarrow> nat set" where
  "nonzero_counts m i = {k. k < 2048 \<and> get16 (mem m (tbl m i)) k \<noteq> 0}"

text \<open>
  \<open>pend i\<close> is the number of counts in table \<open>i\<close> that have reached zero but whose \<open>decref\<close> has
  not yet lowered the number in \<open>refs\<close>: it is running the destructor of its frame.
\<close>

definition pm_wf :: "(u32 \<Rightarrow> nat) \<Rightarrow> u32 list \<Rightarrow> 'a pm_scheme \<Rightarrow> bool" where
  "pm_wf pend fl m \<longleftrightarrow>
     offset (start m) = 0 \<and> start m \<noteq> 0 \<and> offset (pavail m) = 0 \<and> offset (limit m) = 0 \<and>
     start m \<le> pavail m \<and> pavail m \<le> limit m \<and>
     fchain (mem m) (firstFree m) fl \<and> distinct fl \<and> (\<forall>x\<in>set fl. managed m x) \<and>
     (\<forall>i. used m i \<longrightarrow> managed m (tbl m i) \<and> tbl m i \<notin> set fl \<and>
        uint (refs m i AND 0xFFF) = int (card (nonzero_counts m i) + pend i)) \<and>
     (\<forall>i j. used m i \<longrightarrow> used m j \<longrightarrow> tbl m i = tbl m j \<longrightarrow> i = j) \<and>
     (\<forall>i. pend i \<le> 1024 \<and> (pend i \<noteq> 0 \<longrightarrow> used m i))"

text \<open>The frames that clients own.\<close>

definition owned :: "u32 list \<Rightarrow> 'a pm_scheme \<Rightarrow> u32 \<Rightarrow> bool" where
  "owned fl m p \<longleftrightarrow> managed m p \<and> p \<notin> set fl \<and> (\<forall>i. used m i \<longrightarrow> tbl m i \<noteq> p)"

definition refcount :: "'a pm_scheme \<Rightarrow> u32 \<Rightarrow> nat" where
  "refcount m p = (if used m (ridx m p) then unat (get16 (mem m (tbl m (ridx m p))) (rofs m p)) else 0)"

lemma next_frame:
  assumes "offset p = 0" "offset q = 0" "p < q"
  shows "p < p + FRAME_SIZE" "p + FRAME_SIZE \<le> q" "offset (p + FRAME_SIZE) = 0"
    "\<And>x. offset x = 0 \<Longrightarrow> x < p + FRAME_SIZE \<longleftrightarrow> x < p \<or> x = p"
proof -
  have d: "4096 dvd uint p" "4096 dvd uint q" using assms by (simp_all add: offset_dvd)
  have lt: "uint p < uint q" using assms(3) by (simp add: word_less_def)
  obtain a b where ab: "uint p = 4096 * a" "uint q = 4096 * b" using d by (auto elim!: dvdE)
  have "uint q < 2 ^ 32" using uint_lt2p [of q] by simp
  then have u: "uint (p + FRAME_SIZE) = uint p + 4096"
    using lt ab uint_ge_0 [of p] by (simp add: FRAME_SIZE_def uint_word_ariths)
  show "p < p + FRAME_SIZE" by (simp add: word_less_def u)
  show "p + FRAME_SIZE \<le> q" using lt ab by (simp add: word_le_def u)
  show "offset (p + FRAME_SIZE) = 0" using d by (simp add: offset_dvd u)
  fix x assume "offset x = 0"
  then obtain c where c: "uint x = 4096 * c" by (auto simp: offset_dvd elim!: dvdE)
  show "x < p + FRAME_SIZE \<longleftrightarrow> x < p \<or> x = p"
    using ab c by (auto simp: word_less_def word_uint_eq_iff u)
qed

text \<open>Memory outside the frames of the allocator may change freely.\<close>

lemma pm_wf_mem:
  assumes "pm_wf pend fl m" "start m' = start m" "pavail m' = pavail m" "limit m' = limit m"
    "firstFree m' = firstFree m" "refs m' = refs m"
    "\<And>x. x \<in> set fl \<Longrightarrow> mem m' x 0 = mem m x 0"
    "\<And>i. used m i \<Longrightarrow> mem m' (tbl m i) = mem m (tbl m i)"
  shows "pm_wf pend fl m'" "owned fl m' = owned fl m" "offset q = 0 \<Longrightarrow> refcount m' q = refcount m q"
proof -
  have u: "used m' = used m" "tbl m' = tbl m" "managed m' = managed m"
    using assms by (auto simp: used_def tbl_def managed_def fun_eq_iff)
  have nz: "nonzero_counts m' i = nonzero_counts m i" if "used m i" for i
    using assms(8) [OF that] u by (simp add: nonzero_counts_def)
  have "fchain (mem m') (firstFree m) fl = fchain (mem m) (firstFree m) fl"
    by (rule fchain_cong) (rule assms(7))
  then show "pm_wf pend fl m'" using assms(1-6) nz unfolding pm_wf_def u by simp
  show "owned fl m' = owned fl m" using u by (simp add: owned_def fun_eq_iff)
  show "refcount m' q = refcount m q"
    using u assms by (simp add: refcount_def ridx_def rofs_def ref_index_def)
qed

lemma owned_mem:
  assumes "pm_wf pend fl m" "owned fl m p"
  shows "pm_wf pend fl (m\<lparr>mem := (mem m)(p := f)\<rparr>)"
    "owned fl (m\<lparr>mem := (mem m)(p := f)\<rparr>) = owned fl m"
    "offset q = 0 \<Longrightarrow> refcount (m\<lparr>mem := (mem m)(p := f)\<rparr>) q = refcount m q"
  by (rule pm_wf_mem [OF assms(1)]; use assms(2) in \<open>auto simp: owned_def\<close>)+


section \<open>Allocation and release of a frame\<close>

text \<open>What a fresh frame is to the state before (\<open>m\<close>) and after (\<open>m'\<close>).\<close>

definition fresh_frame ::
  "u32 list \<Rightarrow> 'a pm_scheme \<Rightarrow> u32 list \<Rightarrow> 'a pm_scheme \<Rightarrow> u32 \<Rightarrow> bool" where
  "fresh_frame fl m fl' m' p \<longleftrightarrow>
     (fl = p # fl' \<and> pavail m' = pavail m \<or> fl = [] \<and> fl' = [] \<and> p = pavail m \<and> pavail m < limit m \<and>
        pavail m' = pavail m + FRAME_SIZE) \<and>
     mem m' = (mem m)(p := (\<lambda>_. 0)) \<and> refs m' = refs m \<and> start m' = start m \<and> limit m' = limit m \<and>
     more m' = more m"

lemma fresh_frame_owned:
  assumes wf: "pm_wf pend fl m" and fr: "fresh_frame fl m fl' m' p"
  shows "\<not> owned fl m p" "owned fl' m' q \<longleftrightarrow> owned fl m q \<or> q = p"
    "offset p = 0" "managed m' p" "p \<notin> set fl'" "p \<noteq> 0"
    "used m i \<Longrightarrow> tbl m i \<noteq> p" "managed m q \<Longrightarrow> managed m' q"
proof -
  have u: "used m' = used m" "tbl m' = tbl m"
    using fr by (auto simp: used_def tbl_def fresh_frame_def fun_eq_iff)
  have al: "offset (start m) = 0" "offset (pavail m) = 0" "start m \<le> pavail m" "start m \<noteq> 0"
    and tb: "\<And>i. used m i \<Longrightarrow> managed m (tbl m i) \<and> tbl m i \<notin> set fl"
    using wf by (auto simp: pm_wf_def)
  have all: "\<not> owned fl m p \<and> (owned fl' m' q \<longleftrightarrow> owned fl m q \<or> q = p) \<and> offset p = 0 \<and>
      managed m' p \<and> p \<notin> set fl' \<and> p \<noteq> 0 \<and> (used m i \<longrightarrow> tbl m i \<noteq> p) \<and>
      (managed m q \<longrightarrow> managed m' q)" for i
  proof (cases "fl = []")
    case False
    with fr have f: "fl = p # fl'" "managed m' = managed m"
      by (auto simp: fresh_frame_def managed_def fun_eq_iff)
    have "managed m p" "p \<notin> set fl'" using wf f by (auto simp: pm_wf_def)
    moreover have "p \<noteq> 0" using wf f by (simp add: pm_wf_def)
    ultimately show ?thesis using f u tb by (auto simp: owned_def managed_def)
  next
    case True
    with fr have f: "fl' = []" "p = pavail m" "pavail m' = pavail m + FRAME_SIZE" "start m' = start m"
      by (auto simp: fresh_frame_def)
    have "pavail m < limit m" "offset (limit m) = 0" using fr True wf by (auto simp: fresh_frame_def pm_wf_def)
    note nf = next_frame [OF al(2) this(2) this(1)]
    have mg: "managed m' x \<longleftrightarrow> managed m x \<or> x = p" for x
      using nf(4) [of x] al f by (auto simp: managed_def)
    have np: "\<not> managed m p" using f by (simp add: managed_def)
    have "p \<noteq> 0" using al f by (auto simp: word_le_def word_uint_eq_iff intro: antisym)
    moreover have "\<not> owned fl m p" using np by (simp add: owned_def)
    moreover have "used m j \<Longrightarrow> tbl m j \<noteq> p" for j using tb np by auto
    ultimately show ?thesis using f u mg True al by (auto simp: owned_def)
  qed
  show "\<not> owned fl m p" "owned fl' m' q \<longleftrightarrow> owned fl m q \<or> q = p"
    "offset p = 0" "managed m' p" "p \<notin> set fl'" "p \<noteq> 0"
    "used m i \<Longrightarrow> tbl m i \<noteq> p" "managed m q \<Longrightarrow> managed m' q"
    using all by blast+
qed


lemma fresh_frame_wf:
  assumes wf: "pm_wf pend fl m" and fr: "fresh_frame fl m fl' m' p"
    and ff: "firstFree m' = (if fl = [] then firstFree m else mem m p 0)"
  shows "pm_wf pend fl' m'" "offset q = 0 \<Longrightarrow> refcount m' q = refcount m q"
proof -
  note fo = fresh_frame_owned [OF wf fr]
  have u: "used m' = used m" "tbl m' = tbl m" "refs m' = refs m"
    using fr by (auto simp: used_def tbl_def fresh_frame_def fun_eq_iff)
  have me: "mem m' = (mem m)(p := (\<lambda>_. 0))" using fr by (simp add: fresh_frame_def)
  have nz: "nonzero_counts m' i = nonzero_counts m i" if "used m i" for i
    using fo(7) [OF that] u me by (auto simp: nonzero_counts_def)
  have bounds: "offset (pavail m') = 0" "start m \<le> pavail m'" "pavail m' \<le> limit m"
  proof -
    have al: "offset (pavail m) = 0" "offset (limit m) = 0" "start m \<le> pavail m" "pavail m \<le> limit m"
      using wf by (auto simp: pm_wf_def)
    then show "offset (pavail m') = 0" "start m \<le> pavail m'" "pavail m' \<le> limit m"
      using fr next_frame [OF al(1,2)] unfolding fresh_frame_def by (force)+
  qed
  have ch: "fchain (mem m') (firstFree m') fl'"
  proof -
    have eq: "fchain (mem m') x fl' \<longleftrightarrow> fchain (mem m) x fl'" for x
      by (rule fchain_cong) (use fo(5) me in auto)
    have "fchain (mem m) (firstFree m) fl" using wf by (simp add: pm_wf_def)
    then show ?thesis using fr ff unfolding eq by (auto simp: fresh_frame_def)
  qed
  have fls: "distinct fl'" "set fl' \<subseteq> set fl"
    using wf fr by (auto simp: pm_wf_def fresh_frame_def)
  show "pm_wf pend fl' m'"
    using wf fr bounds ch fls nz fo(8) unfolding pm_wf_def u
    by (auto simp: fresh_frame_def)
  show "offset q = 0 \<Longrightarrow> refcount m' q = refcount m q"
    using u me fo(7) fr by (simp add: refcount_def ridx_def rofs_def ref_index_def fresh_frame_def)
qed

lemma unsafe_alloc_frame_wf:
  assumes wf: "pm_wf pend fl m"
  shows "(fl = [] \<and> pavail m = limit m \<and> unsafe_alloc_frame m = Inl (Panic ''no more frames'')) \<or>
    (\<exists>m' p fl'. unsafe_alloc_frame m = Inr (m', p) \<and> pm_wf pend fl' m' \<and> fresh_frame fl m fl' m' p \<and>
       (\<forall>q. offset q = 0 \<longrightarrow> refcount m' q = refcount m q))"
proof (cases fl)
  case Nil
  then have z: "firstFree m = 0" using wf by (simp add: pm_wf_def)
  show ?thesis
  proof (cases "pavail m = limit m")
    case True
    then show ?thesis using Nil z by (simp add: unsafe_alloc_frame_def)
  next
    case False
    let ?m = "m\<lparr>pavail := pavail m + FRAME_SIZE, mem := (mem m)(pavail m := (\<lambda>_. 0))\<rparr>"
    have "pavail m < limit m" "offset (pavail m) = 0" using False wf by (auto simp: pm_wf_def)
    then have fr: "fresh_frame fl m [] ?m (pavail m)" and r: "unsafe_alloc_frame m = Inr (?m, pavail m)"
      using Nil z False by (simp_all add: fresh_frame_def unsafe_alloc_frame_def)
    have "firstFree ?m = (if fl = [] then firstFree m else mem m (pavail m) 0)" using Nil by simp
    from fresh_frame_wf [OF wf fr this] show ?thesis using fr r by blast
  qed
next
  case (Cons x xs)
  then have x: "firstFree m = x" "x \<noteq> 0" "offset x = 0" using wf by (auto simp: pm_wf_def managed_def)
  let ?m = "m\<lparr>firstFree := mem m x 0, mem := (mem m)(x := (\<lambda>_. 0))\<rparr>"
  have fr: "fresh_frame fl m xs ?m x" and r: "unsafe_alloc_frame m = Inr (?m, x)"
    using Cons x by (simp_all add: fresh_frame_def unsafe_alloc_frame_def)
  have "firstFree ?m = (if fl = [] then firstFree m else mem m x 0)" using Cons by simp
  from fresh_frame_wf [OF wf fr this] show ?thesis using fr r by blast
qed

lemma refcount_firstFree [simp]: "refcount (m\<lparr>firstFree := x\<rparr>) q = refcount m q"
  unfolding refcount_def used_def tbl_def ridx_def rofs_def ref_index_def by simp

lemma dealloc_frame_wf:
  assumes wf: "pm_wf pend fl m" and ow: "owned fl m p"
  shows "\<exists>m'. dealloc_frame p m = Inr m' \<and> pm_wf pend (p # fl) m' \<and>
    (\<forall>q. owned (p # fl) m' q \<longleftrightarrow> owned fl m q \<and> q \<noteq> p) \<and>
    mem m' = (mem m)(p := (mem m p)(0 := firstFree m)) \<and> refs m' = refs m \<and> start m' = start m \<and>
    limit m' = limit m \<and> more m' = more m \<and> (\<forall>q. offset q = 0 \<longrightarrow> refcount m' q = refcount m q)"
proof -
  let ?m1 = "m\<lparr>mem := (mem m)(p := (mem m p)(0 := firstFree m))\<rparr>"
  let ?m = "?m1\<lparr>firstFree := p\<rparr>"
  note om = owned_mem [OF wf ow, where f = "(mem m p)(0 := firstFree m)"]
  have p: "offset p = 0" "managed m p" "p \<notin> set fl" "\<And>i. used m i \<Longrightarrow> tbl m i \<noteq> p" "p \<noteq> 0"
  proof -
    show "offset p = 0" "managed m p" "p \<notin> set fl" "\<And>i. used m i \<Longrightarrow> tbl m i \<noteq> p"
      using ow by (auto simp: owned_def managed_def)
    then show "p \<noteq> 0" using wf by (auto simp: pm_wf_def managed_def word_le_def word_uint_eq_iff intro: antisym)
  qed
  have r: "dealloc_frame p m = Inr ?m" using p by (simp add: dealloc_frame_def)
  have u: "used ?m = used ?m1" "tbl ?m = tbl ?m1" "managed ?m = managed ?m1"
    "nonzero_counts ?m = nonzero_counts ?m1" "managed ?m1 = managed m" "used ?m1 = used m" "tbl ?m1 = tbl m"
    by (simp_all add: used_def tbl_def managed_def nonzero_counts_def fun_eq_iff)
  have "fchain (mem ?m) p (p # fl)"
  proof -
    have "fchain (mem ?m1) (firstFree m) fl" using om(1) by (simp add: pm_wf_def)
    then show ?thesis using p by simp
  qed
  then have "pm_wf pend (p # fl) ?m"
    using om(1) p unfolding pm_wf_def u by auto
  moreover have "owned (p # fl) ?m q \<longleftrightarrow> owned fl m q \<and> q \<noteq> p" for q
    unfolding owned_def u by auto
  moreover have "refcount ?m q = refcount m q" if "offset q = 0" for q
    unfolding refcount_firstFree by (rule om(3) [OF that])
  ultimately show ?thesis using r by (intro exI [of _ ?m]) simp
qed


section \<open>One slot of a table\<close>

lemma get16_zero [simp]: "get16 (\<lambda>_. 0) k = 0"
  by (simp add: get16_def)

lemma nonzero_le: "card (nonzero_counts m i) \<le> 2048"
proof -
  have "nonzero_counts m i \<subseteq> {..<2048}" by (auto simp: nonzero_counts_def)
  from card_mono [OF _ this] show ?thesis by simp
qed

lemma nonzero_finite [simp]: "finite (nonzero_counts m i)"
  by (rule finite_subset [of _ "{..<2048}"]) (auto simp: nonzero_counts_def)

text \<open>
  Writing count \<open>v\<close> into slot \<open>k\<close> of the table at \<open>t\<close>, and entry \<open>r\<close> into \<open>refs\<close>. The table
  belongs to entry \<open>i\<close>, or it is a zeroed frame about to become the table of \<open>i\<close>.
\<close>

lemma slot_wf:
  assumes wf: "pm_wf pend fl m"
    and t: "managed m t" "t \<notin> set fl" "\<And>j. used m j \<Longrightarrow> tbl m j = t \<Longrightarrow> j = i"
      "used m i \<Longrightarrow> tbl m i = t" "\<not> used m i \<Longrightarrow> mem m t = (\<lambda>_. 0)"
    and m': "mem m' = (mem m)(t := put16 (mem m t) k v)" "refs m' = (refs m)(i := r)"
      "start m' = start m" "pavail m' = pavail m" "limit m' = limit m" "firstFree m' = firstFree m"
    and r: "r AND FMASK = t" "r AND 0xFFF \<noteq> 0"
      "uint (r AND 0xFFF) = int (card (nonzero_counts m' i) + pend' i)"
    and pend': "\<And>j. j \<noteq> i \<Longrightarrow> pend' j = pend j" "pend' i \<le> 1024"
  shows "pm_wf pend' fl m'" "owned fl m' q \<longleftrightarrow> owned fl m q \<and> q \<noteq> t"
    "used m' j \<longleftrightarrow> used m j \<or> j = i" "tbl m' i = t"
    "refcount m' q = (if ridx m q = i \<and> rofs m q = k then unat v else refcount m q)"
proof -
  have mg: "managed m' = managed m" using m' by (simp add: managed_def fun_eq_iff)
  have us: "used m' j \<longleftrightarrow> used m j \<or> j = i" for j using m' r by (auto simp: used_def)
  have tb: "tbl m' j = (if j = i then t else tbl m j)" for j using m' r by (simp add: tbl_def)
  have nz: "nonzero_counts m' j = nonzero_counts m j" if "used m j" "j \<noteq> i" for j
    using t(3) [OF that(1)] that tb m' by (auto simp: nonzero_counts_def)
  have ri: "ridx m' = ridx m" "rofs m' = rofs m"
    using m' by (simp_all add: ridx_def rofs_def ref_index_def fun_eq_iff)
  have rj: "refs m' j = refs m j" if "j \<noteq> i" for j using m' that by simp
  have fc: "fchain (mem m') (firstFree m') fl"
  proof -
    have "fchain (mem m) (firstFree m) fl" using wf by (simp add: pm_wf_def)
    moreover have "fchain (mem m') x fl \<longleftrightarrow> fchain (mem m) x fl" for x
      by (rule fchain_cong) (use t(2) m' in auto)
    ultimately show ?thesis using m' by simp
  qed
  have tab: "\<forall>j. used m' j \<longrightarrow> managed m' (tbl m' j) \<and> tbl m' j \<notin> set fl \<and>
      uint (refs m' j AND 0xFFF) = int (card (nonzero_counts m' j) + pend' j)"
  proof (intro allI impI)
    fix j assume u: "used m' j"
    show "managed m' (tbl m' j) \<and> tbl m' j \<notin> set fl \<and>
      uint (refs m' j AND 0xFFF) = int (card (nonzero_counts m' j) + pend' j)"
    proof (cases "j = i")
      case True
      then show ?thesis using t r m' tb mg by simp
    next
      case False
      then have "used m j" using u us by simp
      then show ?thesis using False wf tb mg nz pend' rj by (simp add: pm_wf_def)
    qed
  qed
  have inj: "\<forall>j k. used m' j \<longrightarrow> used m' k \<longrightarrow> tbl m' j = tbl m' k \<longrightarrow> j = k"
    using wf t(3) unfolding us tb pm_wf_def by metis
  have pe: "\<forall>j. pend' j \<le> 1024 \<and> (pend' j \<noteq> 0 \<longrightarrow> used m' j)"
  proof
    fix j show "pend' j \<le> 1024 \<and> (pend' j \<noteq> 0 \<longrightarrow> used m' j)"
      using wf pend' us by (cases "j = i") (auto simp: pm_wf_def)
  qed
  have st: "offset (start m') = 0 \<and> start m' \<noteq> 0 \<and> offset (pavail m') = 0 \<and> offset (limit m') = 0 \<and>
     start m' \<le> pavail m' \<and> pavail m' \<le> limit m'" "distinct fl \<and> (\<forall>x\<in>set fl. managed m' x)"
    using wf m' mg by (simp_all add: pm_wf_def)
  show "pm_wf pend' fl m'"
    unfolding pm_wf_def using st fc tab inj pe by blast
  show "owned fl m' q \<longleftrightarrow> owned fl m q \<and> q \<noteq> t"
    using t(4) us tb mg by (auto simp: owned_def)
  show "used m' j \<longleftrightarrow> used m j \<or> j = i" "tbl m' i = t" using us tb by simp_all
  show "refcount m' q = (if ridx m q = i \<and> rofs m q = k then unat v else refcount m q)"
  proof (cases "ridx m q = i")
    case True
    then show ?thesis using us tb ri t(4,5) m' by (auto simp: refcount_def get16_put16)
  next
    case False
    then have "used m (ridx m q) \<Longrightarrow> tbl m (ridx m q) \<noteq> t" using t(3) by blast
    then show ?thesis using False us tb ri m' by (simp add: refcount_def)
  qed
qed

lemma nonzero_slot:
  assumes "mem m' = (mem m)(t := put16 (mem m t) k v)" "tbl m' i = t" "k < 2048"
  shows "nonzero_counts m' i = (let s = {j. j < 2048 \<and> get16 (mem m t) j \<noteq> 0} in
     if v = 0 then s - {k} else insert k s)"
  using assms by (auto simp: nonzero_counts_def get16_put16 Let_def)

section \<open>incref\<close>

lemma incref_used:
  assumes wf: "pm_wf pend fl m" and p: "offset p = 0" "refcount m p < 0xFFFF" and us: "used m (ridx m p)"
  shows "\<exists>m'. incref p m = Inr m' \<and> pm_wf pend fl m' \<and> owned fl m' = owned fl m \<and>
    (\<forall>q. offset q = 0 \<longrightarrow> refcount m' q = (if q = p then refcount m p + 1 else refcount m q)) \<and>
    (\<forall>q. q \<noteq> tbl m (ridx m p) \<longrightarrow> mem m' q = mem m q) \<and> more m' = more m \<and>
    start m' = start m \<and> limit m' = limit m \<and> pavail m' = pavail m"
proof -
  let ?i = "ridx m p" and ?k = "rofs m p" let ?t = "tbl m ?i"
  let ?old = "get16 (mem m ?t) ?k"
  let ?r = "if ?old = 0 then refs m ?i + 1 else refs m ?i"
  let ?m = "m\<lparr>mem := (mem m)(?t := put16 (mem m ?t) ?k (?old + 1)), refs := (refs m)(?i := ?r)\<rparr>"
  have run: "incref p m = Inr ?m"
    using p us by (simp add: incref_def Let_def used_def tbl_def set_count_def set_ref_def)
  have lt: "unat ?old < 0xFFFF" using us p(2) by (simp add: refcount_def)
  have v: "unat (?old + 1) = unat ?old + 1"
    using lt by (simp add: unat_word_ariths)
  then have v0: "?old + 1 \<noteq> 0" by (metis add_is_0 one_neq_zero unat_0)
  have cnt: "uint (refs m ?i AND 0xFFF) = int (card (nonzero_counts m ?i) + pend ?i)" "pend ?i \<le> 1024"
    and mt: "managed m ?t" "?t \<notin> set fl" "\<And>j. used m j \<Longrightarrow> tbl m j = ?t \<Longrightarrow> j = ?i"
    using wf us by (auto simp: pm_wf_def)
  have small: "uint (refs m ?i AND 0xFFF) < 4095" using cnt nonzero_le [of m ?i] by linarith
  have r: "?r AND FMASK = ?t" using entry_succ(1) [OF small] by (simp add: tbl_def)
  have k: "?k < 2048" by (rule rofs_bound)
  have tm: "tbl ?m ?i = ?t" using r by (simp add: tbl_def)
  have nz: "nonzero_counts ?m ?i = insert ?k (nonzero_counts m ?i)"
    using nonzero_slot [of ?m m ?t ?k "?old + 1" ?i] tm k v0
    by (simp add: Let_def nonzero_counts_def)
  have ru: "uint (?r AND 0xFFF) = int (card (nonzero_counts ?m ?i) + pend ?i)"
  proof (cases "?old = 0")
    case True
    then have "?k \<notin> nonzero_counts m ?i" by (simp add: nonzero_counts_def)
    then show ?thesis using True cnt entry_succ(2) [OF small] nz by simp
  next
    case False
    then have "?k \<in> nonzero_counts m ?i" using k by (simp add: nonzero_counts_def)
    then show ?thesis using False cnt nz by (simp add: insert_absorb)
  qed
  have r0: "?r AND 0xFFF \<noteq> 0"
  proof
    assume "?r AND 0xFFF = 0"
    then have "uint (?r AND 0xFFF) = 0" by simp
    moreover have "0 < card (nonzero_counts ?m ?i)" unfolding nz by (simp add: card_gt_0_iff)
    ultimately show False using ru by linarith
  qed
  have z: "used m ?i \<Longrightarrow> ?t = ?t" "\<not> used m ?i \<Longrightarrow> mem m ?t = (\<lambda>_. 0)" using us by simp_all
  have fm: "mem ?m = (mem m)(?t := put16 (mem m ?t) ?k (?old + 1))" "refs ?m = (refs m)(?i := ?r)"
    "start ?m = start m" "pavail ?m = pavail m" "limit ?m = limit m" "firstFree ?m = firstFree m"
    by simp_all
  note sw = slot_wf [OF wf mt z fm r r0 ru refl cnt(2)]
  have ow: "owned fl ?m q \<longleftrightarrow> owned fl m q" for q
    using sw(2) us by (auto simp: owned_def)
  have ct: "refcount ?m q = (if q = p then refcount m p + 1 else refcount m q)" if "offset q = 0" for q
  proof -
    have "ridx m q = ?i \<and> rofs m q = ?k \<longleftrightarrow> q = p"
      using ref_slot_inj [of q p m] that p wf by (auto simp: pm_wf_def)
    then show ?thesis using sw(5) us v cnt(2) by (simp add: refcount_def)
  qed
  show ?thesis
    by (intro exI [of _ ?m] conjI) (use run sw(1) ow ct us cnt in \<open>auto simp: fun_eq_iff\<close>)
qed


lemma incref_new_table:
  assumes wf: "pm_wf pend fl m" and p: "offset p = 0" and us: "\<not> used m (ridx m p)"
    and al: "unsafe_alloc_frame m = Inr (m1, t)" and wf1: "pm_wf pend fl1 m1"
    and fr: "fresh_frame fl m fl1 m1 t"
    and c1: "\<And>q. offset q = 0 \<Longrightarrow> refcount m1 q = refcount m q"
  shows "\<exists>m'. incref p m = Inr m' \<and> pm_wf pend fl1 m' \<and> owned fl1 m' = owned fl m \<and>
    (\<forall>q. offset q = 0 \<longrightarrow> refcount m' q = (if q = p then refcount m p + 1 else refcount m q)) \<and>
    (\<forall>q. q \<noteq> t \<longrightarrow> mem m' q = mem m q) \<and> more m' = more m \<and>
    start m' = start m \<and> limit m' = limit m"
proof -
  let ?i = "ridx m p" and ?k = "rofs m p"
  let ?m = "m1\<lparr>mem := (mem m1)(t := put16 (mem m1 t) ?k 1), refs := (refs m1)(?i := t + 1)\<rparr>"
  have same: "refs m1 = refs m" "start m1 = start m" "mem m1 = (mem m)(t := (\<lambda>_. 0))"
    "limit m1 = limit m" "more m1 = more m"
    using fr by (simp_all add: fresh_frame_def)
  have u1: "used m1 = used m" "tbl m1 = tbl m" "ridx m1 = ridx m" "rofs m1 = rofs m"
    using same by (simp_all add: used_def tbl_def ridx_def rofs_def ref_index_def fun_eq_iff)
  note fo = fresh_frame_owned [OF wf fr]
  have ta: "t AND FMASK = t" "t AND 0xFFF = 0" using fo(3) by (simp_all add: high_aligned low_aligned)
  have run: "incref p m = Inr ?m"
    using p us al same ta by (simp add: incref_def Let_def used_def set_count_def set_ref_def)
  have small: "uint (t AND 0xFFF) < 4095" using ta by simp
  have r: "(t + 1) AND FMASK = t" using entry_succ(1) [OF small] ta by simp
  have one: "uint ((t + 1) AND 0xFFF) = 1" using entry_succ(2) [OF small] ta by simp
  then have r0: "(t + 1) AND 0xFFF \<noteq> 0" by (metis unsigned_0 zero_neq_one)
  have pe: "pend ?i = 0" using wf us by (auto simp: pm_wf_def)
  have tm: "tbl ?m ?i = t" using r by (simp add: tbl_def)
  have m1t: "mem m1 t = (\<lambda>_. 0)" using same by simp
  have nz: "nonzero_counts ?m ?i = {?k}"
    using nonzero_slot [of ?m m1 t ?k 1 ?i] tm rofs_bound [of m p] m1t
    by (simp add: Let_def)
  have ru: "uint ((t + 1) AND 0xFFF) = int (card (nonzero_counts ?m ?i) + pend ?i)"
    unfolding nz one by (simp add: pe)
  have mt: "managed m1 t" "t \<notin> set fl1" "\<And>j. used m1 j \<Longrightarrow> tbl m1 j = t \<Longrightarrow> j = ?i"
    "used m1 ?i \<Longrightarrow> tbl m1 ?i = t" "\<not> used m1 ?i \<Longrightarrow> mem m1 t = (\<lambda>_. 0)"
    using fo(4,5,7) us m1t by (auto simp: u1)
  have fm: "mem ?m = (mem m1)(t := put16 (mem m1 t) ?k 1)" "refs ?m = (refs m1)(?i := t + 1)"
    "start ?m = start m1" "pavail ?m = pavail m1" "limit ?m = limit m1" "firstFree ?m = firstFree m1"
    by simp_all
  have pb: "pend ?i \<le> 1024" using pe by simp
  note sw = slot_wf [OF wf1 mt fm r r0 ru refl pb]
  have ow: "owned fl1 ?m q \<longleftrightarrow> owned fl m q" for q
    using sw(2) fo(1,2) by auto
  have ct: "refcount ?m q = (if q = p then refcount m p + 1 else refcount m q)" if q: "offset q = 0" for q
  proof -
    have "ridx m q = ?i \<and> rofs m q = ?k \<longleftrightarrow> q = p"
      using ref_slot_inj [of q p m] q p wf by (auto simp: pm_wf_def)
    then show ?thesis using sw(5) us c1 q by (simp add: refcount_def u1)
  qed
  have ow': "owned fl1 ?m = owned fl m" using ow by (simp add: fun_eq_iff)
  have mq: "mem ?m q = mem m q" if "q \<noteq> t" for q using that same(3) by simp
  have fin: "more ?m = more m" "start ?m = start m" "limit ?m = limit m" using same by simp_all
  show ?thesis
  proof (intro exI [of _ ?m] conjI allI impI)
    show "incref p m = Inr ?m" by (rule run)
    show "pm_wf pend fl1 ?m" by (rule sw(1))
    show "owned fl1 ?m = owned fl m" by (rule ow')
  qed (use ct mq fin in blast)+
qed

text \<open>\<open>incref\<close> adds one to the count of its frame and to nothing else.\<close>

lemma incref_wf:
  assumes wf: "pm_wf pend fl m" and p: "offset p = 0" "refcount m p < 0xFFFF"
  shows "(fl = [] \<and> pavail m = limit m \<and> incref p m = Inl (Panic ''no more frames'')) \<or>
    (\<exists>m' fl'. incref p m = Inr m' \<and> pm_wf pend fl' m' \<and> owned fl' m' = owned fl m \<and>
      (\<forall>q. offset q = 0 \<longrightarrow> refcount m' q = (if q = p then refcount m p + 1 else refcount m q)) \<and>
      (\<forall>q. owned fl m q \<longrightarrow> mem m' q = mem m q) \<and> more m' = more m \<and>
      start m' = start m \<and> limit m' = limit m)"
proof (cases "used m (ridx m p)")
  case True
  from incref_used [OF wf p True] show ?thesis using True by (fastforce simp: owned_def)
next
  case False
  from unsafe_alloc_frame_wf [OF wf] show ?thesis
  proof (elim disjE exE conjE)
    assume "fl = []" "pavail m = limit m" "unsafe_alloc_frame m = Inl (Panic ''no more frames'')"
    then show ?thesis using False p by (simp add: incref_def Let_def used_def)
  next
    fix m1 t fl1
    assume a: "unsafe_alloc_frame m = Inr (m1, t)" "pm_wf pend fl1 m1" "fresh_frame fl m fl1 m1 t"
      "\<forall>q. offset q = 0 \<longrightarrow> refcount m1 q = refcount m q"
    have "owned fl m q \<Longrightarrow> q \<noteq> t" for q using fresh_frame_owned(1) [OF wf a(3)] by auto
    then show ?thesis using incref_new_table [OF wf p(1) False a(1-3)] a(4) by blast
  qed
qed

section \<open>alloc_frame\<close>

lemma alloc_frame_wf:
  assumes wf: "pm_wf pend fl m" and cz: "\<And>q. offset q = 0 \<Longrightarrow> \<not> owned fl m q \<Longrightarrow> refcount m q = 0"
  shows "alloc_frame m = Inl (Panic ''no more frames'') \<or>
    (\<exists>m' p fl'. alloc_frame m = Inr (m', p) \<and> pm_wf pend fl' m' \<and> offset p = 0 \<and> p \<noteq> 0 \<and>
      \<not> owned fl m p \<and> mem m' p = (\<lambda>_. 0) \<and> start m \<le> p \<and> p < limit m \<and>
      (\<forall>q. owned fl' m' q \<longleftrightarrow> owned fl m q \<or> q = p) \<and>
      (\<forall>q. offset q = 0 \<longrightarrow> refcount m' q = (if q = p then 1 else refcount m q)) \<and>
      (\<forall>q. owned fl m q \<longrightarrow> mem m' q = mem m q) \<and> more m' = more m \<and>
      start m' = start m \<and> limit m' = limit m)"
  using unsafe_alloc_frame_wf [OF wf]
proof (elim disjE exE conjE)
  assume "unsafe_alloc_frame m = Inl (Panic ''no more frames'')"
  then show ?thesis by (simp add: alloc_frame_def)
next
  fix m1 p fl1
  assume a: "unsafe_alloc_frame m = Inr (m1, p)" "pm_wf pend fl1 m1" "fresh_frame fl m fl1 m1 p"
    "\<forall>q. offset q = 0 \<longrightarrow> refcount m1 q = refcount m q"
  note fo = fresh_frame_owned [OF wf a(3)]
  have same: "mem m1 = (mem m)(p := (\<lambda>_. 0))" "start m1 = start m" "limit m1 = limit m" "more m1 = more m"
    using a(3) by (simp_all add: fresh_frame_def)
  have c0: "refcount m1 p = 0" using a(4) cz fo(1,3) by simp
  then have "refcount m1 p < 0xFFFF" by simp
  from incref_wf [OF a(2) fo(3) this] show ?thesis
  proof (elim disjE exE conjE)
    assume "incref p m1 = Inl (Panic ''no more frames'')"
    then show ?thesis using a(1) by (simp add: alloc_frame_def)
  next
    fix m2 fl2
    assume b: "incref p m1 = Inr m2" "pm_wf pend fl2 m2" "owned fl2 m2 = owned fl1 m1"
      "\<forall>q. offset q = 0 \<longrightarrow> refcount m2 q = (if q = p then refcount m1 p + 1 else refcount m1 q)"
      "\<forall>q. owned fl1 m1 q \<longrightarrow> mem m2 q = mem m1 q" "more m2 = more m1" "start m2 = start m1" "limit m2 = limit m1"
    have r: "alloc_frame m = Inr (m2, p)" using a(1) b(1) by (simp add: alloc_frame_def)
    have pm: "start m \<le> p" "p < limit m"
    proof -
      have "p < pavail m1" "start m1 \<le> p" using fo(4) by (auto simp: managed_def)
      moreover have "pavail m1 \<le> limit m1" using a(2) by (simp add: pm_wf_def)
      ultimately show "start m \<le> p" "p < limit m" using same by simp_all
    qed
    have mp: "mem m2 p = (\<lambda>_. 0)" using b(5) fo(2) same(1) by simp
    have mq: "mem m2 q = mem m q" if "owned fl m q" for q
    proof -
      have "q \<noteq> p" "owned fl1 m1 q" using that fo(1,2) by auto
      then show ?thesis using b(5) same(1) by simp
    qed
    have ct: "refcount m2 q = (if q = p then 1 else refcount m q)" if "offset q = 0" for q
      using b(4) c0 a(4) that by simp
    show ?thesis
      using r b(2,3,6,7,8) fo(1,2,3,6) mp pm ct mq same by (intro disjI2 exI [of _ m2] exI [of _ p] exI [of _ fl2]) auto
  qed
qed


section \<open>decref\<close>

text \<open>The entry, address and position of the count of an owned frame with a positive count.\<close>

lemma counted:
  assumes wf: "pm_wf pend fl m" and p: "offset p = 0" and c: "0 < refcount m p"
  defines "i \<equiv> ridx m p" and "k \<equiv> rofs m p"
  shows "used m i" "managed m (tbl m i)" "tbl m i \<notin> set fl" "\<And>j. used m j \<Longrightarrow> tbl m j = tbl m i \<Longrightarrow> j = i"
    "k \<in> nonzero_counts m i" "refcount m p = unat (get16 (mem m (tbl m i)) k)"
    "uint (refs m i AND 0xFFF) = int (card (nonzero_counts m i) + pend i)"
    "\<And>q. offset q = 0 \<Longrightarrow> ridx m q = i \<and> rofs m q = k \<longleftrightarrow> q = p"
proof -
  show us: "used m i" using c by (auto simp: refcount_def i_def split: if_splits)
  then show "managed m (tbl m i)" "tbl m i \<notin> set fl" "\<And>j. used m j \<Longrightarrow> tbl m j = tbl m i \<Longrightarrow> j = i"
    "uint (refs m i AND 0xFFF) = int (card (nonzero_counts m i) + pend i)"
    using wf by (auto simp: pm_wf_def)
  show cp: "refcount m p = unat (get16 (mem m (tbl m i)) k)" using us by (simp add: refcount_def i_def k_def)
  then have "get16 (mem m (tbl m i)) k \<noteq> 0" using c by auto
  then show "k \<in> nonzero_counts m i" using rofs_bound [of m p] by (simp add: nonzero_counts_def k_def)
  have "offset (start m) = 0" using wf by (simp add: pm_wf_def)
  then show "\<And>q. offset q = 0 \<Longrightarrow> ridx m q = i \<and> rofs m q = k \<longleftrightarrow> q = p"
    using ref_slot_inj [of _ p m] p unfolding i_def k_def by blast
qed

lemma unat_pred: "0 < unat (w :: u16) \<Longrightarrow> unat (w - 1) = unat w - 1"
  by (metis gr0I less_irrefl unat_0 unat_minus_one)

text \<open>The count goes down; the number in \<open>refs\<close> is still the old one, so a count that
  reached zero is pending.\<close>

lemma lower_count:
  assumes wf: "pm_wf pend fl m" and p: "offset p = 0" and c: "0 < refcount m p"
    and room: "refcount m p = 1 \<Longrightarrow> pend (ridx m p) < 1024"
  defines "i \<equiv> ridx m p" and "k \<equiv> rofs m p"
  defines "m' \<equiv> set_count (tbl m i) k (get16 (mem m (tbl m i)) k - 1) m"
  defines "pend' \<equiv> pend(i := pend i + (if refcount m p = 1 then 1 else 0))"
  shows "pm_wf pend' fl m'" "owned fl m' = owned fl m"
    "\<And>q. offset q = 0 \<Longrightarrow> refcount m' q = (if q = p then refcount m p - 1 else refcount m q)"
    "\<And>q. owned fl m q \<Longrightarrow> mem m' q = mem m q"
proof -
  note cn = counted [OF wf p c, folded i_def k_def]
  let ?v = "get16 (mem m (tbl m i)) k - 1"
  have v: "unat ?v = refcount m p - 1" using unat_pred c unfolding cn(6) by simp
  then have v0: "?v = 0 \<longleftrightarrow> refcount m p = 1" using c by (auto simp: unat_eq_zero [symmetric] simp del: unat_eq_zero)
  have mm: "mem m' = (mem m)(tbl m i := put16 (mem m (tbl m i)) k ?v)" "refs m' = (refs m)(i := refs m i)"
    "start m' = start m" "pavail m' = pavail m" "limit m' = limit m" "firstFree m' = firstFree m"
    by (simp_all add: m'_def set_count_def)
  have tm: "tbl m' i = tbl m i" using mm by (simp add: tbl_def)
  have nz: "nonzero_counts m' i = (if ?v = 0 then nonzero_counts m i - {k} else nonzero_counts m i)"
    using nonzero_slot [OF mm(1) tm] cn(5) by (auto simp: Let_def nonzero_counts_def)
  have "card (nonzero_counts m i - {k}) + 1 = card (nonzero_counts m i)"
    using cn(5) by (simp add: card_Diff_singleton card_gt_0_iff) (metis Suc_pred card_gt_0_iff empty_iff nonzero_finite)
  then have ru: "uint (refs m i AND 0xFFF) = int (card (nonzero_counts m' i) + pend' i)"
    unfolding nz cn(7) using v0 by (auto simp: pend'_def)
  have r0: "refs m i AND 0xFFF \<noteq> 0" using cn(1) by (simp add: used_def)
  have tf: "refs m i AND FMASK = tbl m i" by (simp add: tbl_def)
  have pb: "pend' i \<le> 1024" using room wf by (auto simp: pend'_def pm_wf_def i_def Suc_le_eq)
  have pj: "\<And>j. j \<noteq> i \<Longrightarrow> pend' j = pend j" by (simp add: pend'_def)
  have uz: "\<not> used m i \<Longrightarrow> mem m (tbl m i) = (\<lambda>_. 0)" using cn(1) by simp
  note sw = slot_wf [OF wf cn(2-4) refl uz mm tf r0 ru pj pb]
  show "pm_wf pend' fl m'" by (rule sw(1))
  show "owned fl m' = owned fl m" using sw(2) cn(1) by (auto simp: fun_eq_iff owned_def)
  show "\<And>q. offset q = 0 \<Longrightarrow> refcount m' q = (if q = p then refcount m p - 1 else refcount m q)"
    using sw(5) cn(8) v by simp
  show "\<And>q. owned fl m q \<Longrightarrow> mem m' q = mem m q" using cn(1) mm(1) by (auto simp: owned_def)
qed

text \<open>The number in \<open>refs\<close> catches up with a pending count.\<close>

lemma settle_entry:
  assumes wf: "pm_wf pend fl m" and pe: "0 < pend i"
  defines "m' \<equiv> set_ref i (refs m i - 1) m"
  shows "pm_wf (pend(i := pend i - 1)) fl m'"
    "owned fl m' q \<longleftrightarrow> owned fl m q \<or> (\<not> used m' i \<and> q = tbl m i)"
    "refcount m' q = refcount m q" "tbl m' i = tbl m i" "used m i"
proof -
  show us: "used m i" using wf pe by (simp add: pm_wf_def)
  then have cnt: "uint (refs m i AND 0xFFF) = int (card (nonzero_counts m i) + pend i)"
    "managed m (tbl m i)" "tbl m i \<notin> set fl" "\<And>j. used m j \<Longrightarrow> tbl m j = tbl m i \<Longrightarrow> j = i"
    using wf by (auto simp: pm_wf_def)
  have pos: "0 < uint (refs m i AND 0xFFF)" using cnt(1) pe by linarith
  note ep = entry_pred [OF pos]
  have mm: "mem m' = mem m" "start m' = start m" "pavail m' = pavail m" "limit m' = limit m"
    "firstFree m' = firstFree m" "refs m' j = (if j = i then refs m i - 1 else refs m j)" for j
    by (simp_all add: m'_def set_ref_def)
  have tb: "tbl m' j = tbl m j" for j using ep(1) mm(6) by (simp add: tbl_def)
  have uj: "used m' j = used m j" if "j \<noteq> i" for j using mm(6) that by (simp add: used_def)
  have mg: "managed m' = managed m" using mm by (simp add: managed_def fun_eq_iff)
  have nz: "nonzero_counts m' j = nonzero_counts m j" for j using tb mm by (simp add: nonzero_counts_def)
  have un: "uint (refs m' i AND 0xFFF) = int (card (nonzero_counts m i) + (pend i - 1))"
    using ep(2) mm(6) cnt(1) pe by simp
  have empty: "nonzero_counts m i = {} \<and> pend i = 1" if "\<not> used m' i"
  proof -
    have "uint (refs m' i AND 0xFFF) = 0" using that by (simp add: used_def)
    then have "card (nonzero_counts m i) + (pend i - 1) = 0" using un by linarith
    then have "card (nonzero_counts m i) = 0" "pend i = 1" using pe by linarith+
    then show ?thesis by simp
  qed
  show "tbl m' i = tbl m i" by (rule tb)
  show "owned fl m' q \<longleftrightarrow> owned fl m q \<or> (\<not> used m' i \<and> q = tbl m i)"
    using uj us tb mg cnt(2-4) unfolding owned_def by metis
  have ri: "ridx m' q = ridx m q" "rofs m' q = rofs m q"
    using mm by (simp_all add: ridx_def rofs_def ref_index_def)
  show "refcount m' q = refcount m q"
  proof (cases "ridx m q = i \<and> \<not> used m' i")
    case True
    then have "get16 (mem m (tbl m i)) (rofs m q) = 0"
      using empty rofs_bound [of m q] by (auto simp: nonzero_counts_def)
    then show ?thesis using True us unfolding refcount_def ri tb mm by simp
  next
    case False
    then have "used m' (ridx m q) = used m (ridx m q)" using us uj by metis
    then show ?thesis unfolding refcount_def ri tb mm by (rule arg_cong [where f = "\<lambda>b. if b then _ else _"])
  qed
  show "pm_wf (pend(i := pend i - 1)) fl m'"
  proof -
    have tab: "\<forall>j. used m' j \<longrightarrow> managed m' (tbl m' j) \<and> tbl m' j \<notin> set fl \<and>
      uint (refs m' j AND 0xFFF) = int (card (nonzero_counts m' j) + (pend(i := pend i - 1)) j)"
    proof (intro allI impI)
      fix j assume "used m' j"
      then show "managed m' (tbl m' j) \<and> tbl m' j \<notin> set fl \<and>
        uint (refs m' j AND 0xFFF) = int (card (nonzero_counts m' j) + (pend(i := pend i - 1)) j)"
        using un cnt(2,3) uj tb mg nz mm(6) wf by (cases "j = i") (simp_all add: pm_wf_def)
    qed
    have inj: "\<forall>j k. used m' j \<longrightarrow> used m' k \<longrightarrow> tbl m' j = tbl m' k \<longrightarrow> j = k"
      using wf uj us unfolding tb pm_wf_def by metis
    have pend: "\<forall>j. (pend(i := pend i - 1)) j \<le> 1024 \<and> ((pend(i := pend i - 1)) j \<noteq> 0 \<longrightarrow> used m' j)"
    proof
      fix j
      have "pend j \<le> 1024 \<and> (pend j \<noteq> 0 \<longrightarrow> used m j)" using wf by (simp add: pm_wf_def)
      then show "(pend(i := pend i - 1)) j \<le> 1024 \<and> ((pend(i := pend i - 1)) j \<noteq> 0 \<longrightarrow> used m' j)"
        using empty uj by (cases "j = i"; cases "used m' i") auto
    qed
    show ?thesis using wf tab inj pend unfolding pm_wf_def mm mg by blast
  qed
qed


text \<open>
  \<open>decref\<close> on a frame with count 1. The destructor gets the state in which the count is 0 and
  pending; whatever it does (release other frames, for example), it must keep the invariant, leave the frame
  to its caller and leave the counter pending.
\<close>

lemma decref_last:
  assumes wf: "pm_wf pend fl m" and ow: "owned fl m p" and c: "refcount m p = 1"
    and room: "pend (ridx m p) < 1024"
    and f: "\<And>m1. pm_wf (pend(ridx m p := pend (ridx m p) + 1)) fl m1 \<Longrightarrow> owned fl m1 = owned fl m \<Longrightarrow>
      (\<And>q. offset q = 0 \<Longrightarrow> refcount m1 q = (if q = p then 0 else refcount m q)) \<Longrightarrow>
      (\<And>q. owned fl m q \<Longrightarrow> mem m1 q = mem m q) \<Longrightarrow> start m1 = start m \<Longrightarrow> limit m1 = limit m \<Longrightarrow>
      more m1 = more m \<Longrightarrow>
      \<exists>m2 fl2. f p m1 = Inr m2 \<and> pm_wf (pend(ridx m p := pend (ridx m p) + 1)) fl2 m2 \<and>
        owned fl2 m2 p \<and> start m2 = start m \<and> limit m2 = limit m \<and> P fl2 m2"
  shows "\<exists>m' fl' fl2 m2. decref p f m = Inr m' \<and> P fl2 m2 \<and> pm_wf pend fl' m' \<and>
    (\<forall>q. owned fl' m' q \<longleftrightarrow> owned fl2 m2 q \<and> q \<noteq> p) \<and>
    (\<forall>q. offset q = 0 \<longrightarrow> refcount m' q = refcount m2 q) \<and>
    (\<forall>q. owned fl2 m2 q \<longrightarrow> q \<noteq> p \<longrightarrow> mem m' q = mem m2 q) \<and> more m' = more m2 \<and>
    start m' = start m \<and> limit m' = limit m \<and> p \<in> set fl'"
proof -
  have p: "offset p = 0" using ow by (simp add: owned_def managed_def)
  have c0: "0 < refcount m p" using c by simp
  let ?i = "ridx m p" and ?k = "rofs m p"
  let ?m1 = "set_count (tbl m ?i) ?k (get16 (mem m (tbl m ?i)) ?k - 1) m"
  let ?pend = "pend(?i := pend ?i + 1)"
  note cn = counted [OF wf p c0]
  note lc = lower_count [OF wf p c0 room]
  have pp: "pend(?i := pend ?i + (if refcount m p = 1 then 1 else 0)) = ?pend" using c by simp
  have "get16 (mem m (tbl m ?i)) ?k - 1 = 0"
  proof -
    have "unat (get16 (mem m (tbl m ?i)) ?k) = 1" using cn(6) c by simp
    then show ?thesis using unat_pred by (metis diff_self_eq_0 unat_eq_zero zero_less_one)
  qed
  then have run1: "decref p f m = bindE (f p ?m1) (\<lambda>m2.
          bindE (dealloc_frame p m2) (\<lambda>m3.
          let rent' = refs m3 ?i - 1;
              m4 = set_ref ?i rent' m3
          in if rent' AND 0xFFF = 0 then dealloc_frame (rent' AND 0xFFFFF000) m4 else Inr m4))"
    using p cn(1) by (simp add: decref_def Let_def used_def tbl_def)
  have s1: "start ?m1 = start m" "limit ?m1 = limit m" "more ?m1 = more m" by (simp_all add: set_count_def)
  have ct1: "refcount ?m1 q = (if q = p then 0 else refcount m q)" if "offset q = 0" for q
    using lc(3) [OF that] c by simp
  obtain m2 fl2 where m2: "f p ?m1 = Inr m2" "pm_wf ?pend fl2 m2" "owned fl2 m2 p"
    "start m2 = start m" "limit m2 = limit m" "P fl2 m2"
    using f [OF lc(1) [unfolded pp] lc(2) ct1 lc(4) s1] by blast
  obtain m3 where m3: "dealloc_frame p m2 = Inr m3" "pm_wf ?pend (p # fl2) m3"
    "\<And>q. owned (p # fl2) m3 q \<longleftrightarrow> owned fl2 m2 q \<and> q \<noteq> p"
    "mem m3 = (mem m2)(p := (mem m2 p)(0 := firstFree m2))" "refs m3 = refs m2" "start m3 = start m2"
    "more m3 = more m2" "limit m3 = limit m2" "\<And>q. offset q = 0 \<Longrightarrow> refcount m3 q = refcount m2 q"
    using dealloc_frame_wf [OF m2(2,3)] by blast
  let ?m4 = "set_ref ?i (refs m3 ?i - 1) m3"
  have "0 < ?pend ?i" by simp
  note se = settle_entry [OF m3(2) this]
  have pend: "?pend(?i := ?pend ?i - 1) = pend" by simp
  have s4: "mem ?m4 = mem m3" "start ?m4 = start m3" "limit ?m4 = limit m3" "more ?m4 = more m3"
    by (simp_all add: set_ref_def)
  show ?thesis
  proof (cases "used ?m4 ?i")
    case True
    then have "decref p f m = Inr ?m4"
      using run1 m2(1) m3(1) by (simp add: Let_def used_def set_ref_def)
    then show ?thesis
      using se(1-3) [unfolded pend] True m2 m3 s4
      by (intro exI [of _ ?m4] exI [of _ "p # fl2"] exI [of _ fl2] exI [of _ m2]) auto
  next
    case False
    let ?t = "tbl m3 ?i"
    have ot: "owned (p # fl2) ?m4 ?t" using se(2) False by simp
    have run: "decref p f m = dealloc_frame ?t ?m4"
      using run1 m2(1) m3(1) False se(4) by (simp add: Let_def used_def set_ref_def tbl_def)
    have nt: "\<not> owned (p # fl2) m3 ?t" using se(5) by (auto simp: owned_def)
    obtain m5 where m5: "dealloc_frame ?t ?m4 = Inr m5" "pm_wf pend (?t # p # fl2) m5"
      "\<And>q. owned (?t # p # fl2) m5 q \<longleftrightarrow> owned (p # fl2) ?m4 q \<and> q \<noteq> ?t"
      "mem m5 = (mem ?m4)(?t := (mem ?m4 ?t)(0 := firstFree ?m4))" "start m5 = start ?m4"
      "more m5 = more ?m4" "limit m5 = limit ?m4" "\<And>q. offset q = 0 \<Longrightarrow> refcount m5 q = refcount ?m4 q"
      using dealloc_frame_wf [OF se(1) ot] unfolding pend by blast
    have o5: "owned (?t # p # fl2) m5 q \<longleftrightarrow> owned fl2 m2 q \<and> q \<noteq> p" for q
      using m5(3) se(2) m3(3) nt by auto
    have mq: "mem m5 q = mem m2 q" if "owned fl2 m2 q" "q \<noteq> p" for q
    proof -
      have "q \<noteq> ?t" using nt m3(3) that by auto
      then show ?thesis using that m5(4) s4 m3(4) by simp
    qed
    have c5: "refcount m5 q = refcount m2 q" if "offset q = 0" for q
      using m5(8) [OF that] m3(9) [OF that] se(3) by simp
    have f5: "more m5 = more m2" "start m5 = start m" "limit m5 = limit m"
      using m5(5-7) s4 m3(6-8) m2(4,5) by simp_all
    have r5: "decref p f m = Inr m5" using run m5(1) by simp
    show ?thesis
      by (intro exI [of _ m5] exI [of _ "?t # p # fl2"] exI [of _ fl2] exI [of _ m2])
        (simp add: r5 m2(6) m5(2) o5 mq c5 f5)
  qed
qed

text \<open>\<open>decref\<close> on a frame that others still use.\<close>

lemma decref_shared:
  assumes wf: "pm_wf pend fl m" and p: "offset p = 0" and c: "1 < refcount m p"
  shows "\<exists>m'. decref p f m = Inr m' \<and> pm_wf pend fl m' \<and> owned fl m' = owned fl m \<and>
    (\<forall>q. offset q = 0 \<longrightarrow> refcount m' q = (if q = p then refcount m p - 1 else refcount m q)) \<and>
    (\<forall>q. owned fl m q \<longrightarrow> mem m' q = mem m q) \<and> more m' = more m \<and> start m' = start m \<and> limit m' = limit m"
proof -
  have c0: "0 < refcount m p" "refcount m p \<noteq> 1" using c by simp_all
  let ?i = "ridx m p" and ?k = "rofs m p"
  let ?m1 = "set_count (tbl m ?i) ?k (get16 (mem m (tbl m ?i)) ?k - 1) m"
  note cn = counted [OF wf p c0(1)]
  have "refcount m p = 1 \<Longrightarrow> pend ?i < 1024" using c by simp
  note lc = lower_count [OF wf p c0(1) this]
  have "get16 (mem m (tbl m ?i)) ?k - 1 \<noteq> 0"
    using unat_pred c cn(6) by (metis diff_is_0_eq not_le unat_0 c0(1))
  then have "decref p f m = Inr ?m1"
    using p cn(1) by (simp add: decref_def Let_def used_def tbl_def)
  moreover have "more ?m1 = more m" "start ?m1 = start m" "limit ?m1 = limit m" by (simp_all add: set_count_def)
  ultimately show ?thesis
    using lc c0(2) by (intro exI [of _ ?m1]) auto
qed

end
