(* ===== verification/Frames.thy ===== *)
theory Frames
  imports Prelude "HOL-Library.Multiset"
begin

text \<open>
  The contract between the frame allocator and its clients, as an interface. A client holds a
  multiset of references to frames; \<open>alloc\<close> adds a reference to a zeroed frame nobody holds,
  \<open>take\<close> adds one to a held frame, \<open>drop\<close> gives one back. A frame keeps its contents as long
  as somebody holds it.
\<close>

lemma in_remove_iff: "q \<in># R - {#p#} \<longleftrightarrow> (if q = p then 1 < count R p else q \<in># R)"
proof -
  have "q \<in># R - {#p#} \<longleftrightarrow> 0 < count (R - {#p#}) q" by (simp only: count_greater_zero_iff)
  also have "\<dots> \<longleftrightarrow> (if q = p then 1 < count R p else 0 < count R q)" by auto
  finally show ?thesis by (simp only: count_greater_zero_iff)
qed

lemma in_remove_last: "count R p = 1 \<Longrightarrow> q \<in># R - {#p#} \<longleftrightarrow> q \<in># R \<and> q \<noteq> p"
  by (simp add: in_remove_iff)

lemma in_remove_shared:
  assumes "1 < count R p"
  shows "q \<in># R - {#p#} \<longleftrightarrow> q \<in># R"
proof -
  have "0 < count R p" using assms by linarith
  then have "p \<in># R" by simp
  then show ?thesis using assms by (simp add: in_remove_iff)
qed

lemma in_remove_counts: "p \<in># R \<Longrightarrow> count R p \<noteq> 1 \<Longrightarrow> 1 < count R p"
proof -
  assume "p \<in># R" "count R p \<noteq> 1"
  then have "0 < count R p" "count R p \<noteq> 1" by simp_all
  then show ?thesis by linarith
qed

lemma count_in: "0 < count R p \<Longrightarrow> p \<in># R"
  by (simp add: count_greater_zero_iff)

text \<open>
  The states and references that clients can reach from \<open>m0\<close>, holding nothing at first, if they never take more than \<open>b\<close> references to a
  frame. The allocator does not check such a bound: it is for the theorems to say which \<open>b\<close> is needed.
\<close>

inductive frame_reach ::
  "nat \<Rightarrow> ('s \<Rightarrow> ('s \<times> u32) res) \<Rightarrow> (u32 \<Rightarrow> 's \<Rightarrow> 's res) \<Rightarrow> (u32 \<Rightarrow> 's \<Rightarrow> 's res) \<Rightarrow>
   (u32 \<Rightarrow> nat \<Rightarrow> u32 \<Rightarrow> 's \<Rightarrow> 's) \<Rightarrow> 's \<Rightarrow> 's \<Rightarrow> u32 multiset \<Rightarrow> bool"
  for b alloc take_ref drop_ref poke m0
where
  start: "frame_reach b alloc take_ref drop_ref poke m0 m0 {#}"
| alloc_step: "frame_reach b alloc take_ref drop_ref poke m0 m R \<Longrightarrow> alloc m = Inr (m', p) \<Longrightarrow>
     frame_reach b alloc take_ref drop_ref poke m0 m' (add_mset p R)"
| take_step: "frame_reach b alloc take_ref drop_ref poke m0 m R \<Longrightarrow> p \<in># R \<Longrightarrow> count R p < b \<Longrightarrow>
     take_ref p m = Inr m' \<Longrightarrow> frame_reach b alloc take_ref drop_ref poke m0 m' (add_mset p R)"
| drop_step: "frame_reach b alloc take_ref drop_ref poke m0 m R \<Longrightarrow> p \<in># R \<Longrightarrow> drop_ref p m = Inr m' \<Longrightarrow>
     frame_reach b alloc take_ref drop_ref poke m0 m' (R - {#p#})"
| poke_step: "frame_reach b alloc take_ref drop_ref poke m0 m R \<Longrightarrow> p \<in># R \<Longrightarrow>
     frame_reach b alloc take_ref drop_ref poke m0 (poke p k v m) R"

locale frame_store =
  fixes holds :: "u32 multiset \<Rightarrow> 's \<Rightarrow> bool"
    and frame :: "'s \<Rightarrow> u32 \<Rightarrow> nat \<Rightarrow> u32"
    and alloc :: "'s \<Rightarrow> ('s \<times> u32) res"
    and take_ref :: "u32 \<Rightarrow> 's \<Rightarrow> 's res"
    and drop_ref :: "u32 \<Rightarrow> 's \<Rightarrow> 's res"
    and poke :: "u32 \<Rightarrow> nat \<Rightarrow> u32 \<Rightarrow> 's \<Rightarrow> 's"
  assumes alloc_fresh: "holds R m \<Longrightarrow> alloc m = Inr (m', p) \<Longrightarrow>
      p \<notin># R \<and> holds (add_mset p R) m' \<and> frame m' p = (\<lambda>_. 0) \<and> (\<forall>q. q \<in># R \<longrightarrow> frame m' q = frame m q)"
    and take_counts: "holds R m \<Longrightarrow> p \<in># R \<Longrightarrow> count R p < 0xFFFF \<Longrightarrow> take_ref p m = Inr m' \<Longrightarrow>
      holds (add_mset p R) m' \<and> (\<forall>q. q \<in># R \<longrightarrow> frame m' q = frame m q)"
    and drop_counts: "holds R m \<Longrightarrow> p \<in># R \<Longrightarrow>
      \<exists>m'. drop_ref p m = Inr m' \<and> holds (R - {#p#}) m' \<and> (\<forall>q. q \<in># R - {#p#} \<longrightarrow> frame m' q = frame m q)"
    and poke_holds: "holds R m \<Longrightarrow> p \<in># R \<Longrightarrow>
      holds R (poke p k v m) \<and> frame (poke p k v m) = (frame m)(p := (frame m p)(k := v))"
begin

lemma reach_holds:
  "frame_reach b alloc take_ref drop_ref poke m0 m R \<Longrightarrow> b \<le> 0xFFFF \<Longrightarrow> holds {#} m0 \<Longrightarrow> holds R m"
proof (induction rule: frame_reach.induct)
  case start
  then show ?case by simp
next
  case (alloc_step m R m' p)
  then show ?case using alloc_fresh by blast
next
  case (take_step m R p m')
  have "count R p < 0xFFFF" using take_step.hyps(3) take_step.prems(1) by simp
  then show ?case using take_step take_counts by blast
next
  case (drop_step m R p m')
  then show ?case using drop_counts [of R m p] by auto
next
  case (poke_step m R p k v)
  then show ?case using poke_holds by blast
qed

text \<open>However the client got there, it can give back every reference, one after the other.\<close>

lemma drain:
  "holds (mset ps) m \<Longrightarrow> \<exists>m'. forE drop_ref ps m = Inr m' \<and> holds {#} m'"
proof (induction ps arbitrary: m)
  case Nil
  then show ?case by simp
next
  case (Cons p ps)
  then obtain m1 where "drop_ref p m = Inr m1" "holds (mset ps) m1"
    using drop_counts [of "mset (p # ps)" m p] by auto
  with Cons.IH show ?case by auto
qed

end

end
