(* ===== verification/PhysMem_Thms.thy ===== *)
theory PhysMem_Thms
  imports PhysMem_Inv Frames
begin

text \<open>
  The frame allocator as a store of counted frames. The references that clients hold are a
  multiset of frames. \<open>K\<close> is the set of frames in use without a count, such as the kernel's page
  tables. The concrete state agrees with both when the frames in use are those of \<open>K\<close> and those
  referenced, and each count in the tables is the number of references.
\<close>

definition refs_ok :: "(u32 \<Rightarrow> nat) \<Rightarrow> u32 set \<Rightarrow> u32 multiset \<Rightarrow> 'a pm_scheme \<Rightarrow> bool" where
  "refs_ok pend K R m \<longleftrightarrow> (\<exists>fl. pm_wf pend fl m \<and> (\<forall>q. owned fl m q \<longleftrightarrow> q \<in># R \<or> q \<in> K) \<and>
     (\<forall>q\<in>K. q \<notin># R) \<and> (\<forall>q. offset q = 0 \<longrightarrow> refcount m q = count R q))"

text \<open>Outside a destructor no count is pending.\<close>

abbreviation holds :: "u32 set \<Rightarrow> u32 multiset \<Rightarrow> 'a pm_scheme \<Rightarrow> bool" where
  "holds \<equiv> refs_ok (\<lambda>_. 0)"

abbreviation oom :: kerror where
  "oom \<equiv> Panic ''no more frames''"

text \<open>What an operation leaves alone: the contents of the frames \<open>S\<close> and the fixed part of the state.\<close>

definition keeps :: "u32 set \<Rightarrow> 'a pm_scheme \<Rightarrow> 'a pm_scheme \<Rightarrow> bool" where
  "keeps S m m' \<longleftrightarrow> (\<forall>q\<in>S. mem m' q = mem m q) \<and> start m' = start m \<and> limit m' = limit m \<and> more m' = more m"

lemma keeps_refl [simp, intro]: "keeps S m m"
  by (simp add: keeps_def)

lemma keeps_trans: "keeps S m m1 \<Longrightarrow> keeps T m1 m2 \<Longrightarrow> U \<subseteq> S \<Longrightarrow> U \<subseteq> T \<Longrightarrow> keeps U m m2"
  by (simp add: keeps_def subset_iff)

lemma keeps_mono: "keeps S m m' \<Longrightarrow> T \<subseteq> S \<Longrightarrow> keeps T m m'"
  by (auto simp: keeps_def)

lemma keeps_mem: "keeps S m m' \<Longrightarrow> q \<in> S \<Longrightarrow> mem m' q = mem m q"
  by (simp add: keeps_def)

lemma keeps_ridx: "keeps S m m' \<Longrightarrow> ridx m' p = ridx m p"
  by (simp add: keeps_def ridx_def ref_index_def)

lemma keeps_write: "p \<notin> S \<Longrightarrow> keeps S m (m\<lparr>mem := (mem m)(p := f)\<rparr>)"
  by (auto simp: keeps_def)

lemma refs_ok_aligned: "refs_ok pend K R m \<Longrightarrow> p \<in># R \<or> p \<in> K \<Longrightarrow> offset p = 0"
  by (auto simp: refs_ok_def owned_def managed_def)

lemma refs_ok_range:
  assumes "refs_ok pend K R m" "p \<in># R \<or> p \<in> K"
  shows "p \<noteq> 0 \<and> start m \<le> p \<and> p < limit m"
proof -
  obtain fl where fl: "pm_wf pend fl m" "owned fl m p" using assms unfolding refs_ok_def by blast
  have p: "start m \<le> p" "p < pavail m" using fl(2) by (simp_all add: owned_def managed_def)
  have "start m \<noteq> 0" "pavail m \<le> limit m" using fl(1) by (simp_all add: pm_wf_def)
  moreover from this have "p \<noteq> 0" using p(1) by (auto simp: word_le_nat_alt unat_eq_zero)
  ultimately show ?thesis using p by (auto intro: less_le_trans)
qed

lemma refs_ok_disjoint: "refs_ok pend K R m \<Longrightarrow> p \<in> K \<Longrightarrow> p \<notin># R"
  by (auto simp: refs_ok_def)

lemma refs_okE:
  assumes "refs_ok pend K R m"
  obtains fl where "pm_wf pend fl m" "\<And>q. owned fl m q \<longleftrightarrow> q \<in># R \<or> q \<in> K"
    "\<And>q. q \<in> K \<Longrightarrow> q \<notin># R" "\<And>q. offset q = 0 \<Longrightarrow> refcount m q = count R q"
  using assms by (auto simp: refs_ok_def)

section \<open>Allocation\<close>

lemma refs_ok_alloc:
  assumes "refs_ok pend K R m"
  shows "outcome {oom} (\<lambda>(m', p). p \<notin># R \<and> p \<notin> K \<and> refs_ok pend K (add_mset p R) m' \<and>
      mem m' p = (\<lambda>_. 0) \<and> keeps (set_mset R \<union> K) m m' \<and> offset p = 0 \<and> p \<noteq> 0 \<and>
      start m \<le> p \<and> p < limit m) (alloc_frame m)"
proof -
  obtain fl where h: "pm_wf pend fl m" "\<And>q. owned fl m q \<longleftrightarrow> q \<in># R \<or> q \<in> K"
    "\<And>q. q \<in> K \<Longrightarrow> q \<notin># R" "\<And>q. offset q = 0 \<Longrightarrow> refcount m q = count R q"
    using assms by (auto simp: refs_ok_def)
  have z: "\<And>q. offset q = 0 \<Longrightarrow> \<not> owned fl m q \<Longrightarrow> refcount m q = 0"
    using h by (simp add: count_eq_zero_iff)
  note af = alloc_frame_wf [OF h(1), OF z, simplified]
  from af show ?thesis
  proof (elim disjE exE conjE)
    assume "alloc_frame m = Inl oom"
    then show ?thesis by simp
  next
    fix m' p fl'
    assume a: "alloc_frame m = Inr (m', p)" "pm_wf pend fl' m'" "offset p = 0" "p \<noteq> 0" "\<not> owned fl m p"
      "mem m' p = (\<lambda>_. 0)" "start m \<le> p" "p < limit m" "\<forall>q. owned fl' m' q \<longleftrightarrow> owned fl m q \<or> q = p"
      "\<forall>q. offset q = 0 \<longrightarrow> refcount m' q = (if q = p then 1 else refcount m q)"
      "\<forall>q. owned fl m q \<longrightarrow> mem m' q = mem m q" "more m' = more m" "start m' = start m" "limit m' = limit m"
    have "p \<notin># R" "p \<notin> K" using a(5) h(2) by simp_all
    moreover have "refs_ok pend K (add_mset p R) m'"
      unfolding refs_ok_def using a(2,9,10) h(2-4) \<open>p \<notin># R\<close> \<open>p \<notin> K\<close>
      by (intro exI [of _ fl']) (auto simp: not_in_iff)
    moreover have "keeps (set_mset R \<union> K) m m'" using a(11-14) h(2) by (auto simp: keeps_def)
    ultimately show ?thesis using a by simp
  qed
qed

text \<open>A frame taken from the list without counting it joins \<open>K\<close>.\<close>

lemma refs_ok_unsafe_alloc:
  assumes "refs_ok pend K R m"
  shows "outcome {oom} (\<lambda>(m', p). p \<notin># R \<and> p \<notin> K \<and> refs_ok pend (insert p K) R m' \<and>
      mem m' = (mem m)(p := (\<lambda>_. 0)) \<and> keeps (set_mset R \<union> K) m m' \<and> offset p = 0 \<and> p \<noteq> 0)
      (unsafe_alloc_frame m)"
proof -
  obtain fl where h: "pm_wf pend fl m" "\<And>q. owned fl m q \<longleftrightarrow> q \<in># R \<or> q \<in> K"
    "\<And>q. q \<in> K \<Longrightarrow> q \<notin># R" "\<And>q. offset q = 0 \<Longrightarrow> refcount m q = count R q"
    using assms by (auto simp: refs_ok_def)
  from unsafe_alloc_frame_wf [OF h(1)] show ?thesis
  proof (elim disjE exE conjE)
    fix m' p fl'
    assume a: "unsafe_alloc_frame m = Inr (m', p)" "pm_wf pend fl' m'" "fresh_frame fl m fl' m' p"
      "\<forall>q. offset q = 0 \<longrightarrow> refcount m' q = refcount m q"
    note fo = fresh_frame_owned [OF h(1) a(3)]
    have n: "p \<notin># R" "p \<notin> K" using fo(1) h(2) by simp_all
    have "refs_ok pend (insert p K) R m'"
      unfolding refs_ok_def using a(2,4) fo(2) h(2-4) n by (intro exI [of _ fl']) auto
    then show ?thesis using a(1,3) n fo(3,6) by (auto simp: fresh_frame_def keeps_def)
  qed simp
qed

section \<open>References\<close>

lemma refs_ok_incref:
  assumes "refs_ok pend K R m" "p \<in># R" "count R p < 0xFFFF"
  shows "outcome {oom} (\<lambda>m'. refs_ok pend K (add_mset p R) m' \<and> keeps (set_mset R \<union> K) m m') (incref p m)"
proof -
  obtain fl where h: "pm_wf pend fl m" "\<And>q. owned fl m q \<longleftrightarrow> q \<in># R \<or> q \<in> K"
    "\<And>q. q \<in> K \<Longrightarrow> q \<notin># R" "\<And>q. offset q = 0 \<Longrightarrow> refcount m q = count R q"
    using assms(1) by (auto simp: refs_ok_def)
  have al: "offset p = 0" using refs_ok_aligned assms by blast
  then have "refcount m p < 0xFFFF" using assms(3) h(4) by simp
  from incref_wf [OF h(1) al this] show ?thesis
  proof (elim disjE exE conjE)
    fix m' fl'
    assume a: "incref p m = Inr m'" "pm_wf pend fl' m'" "owned fl' m' = owned fl m"
      "\<forall>q. offset q = 0 \<longrightarrow> refcount m' q = (if q = p then refcount m p + 1 else refcount m q)"
      "\<forall>q. owned fl m q \<longrightarrow> mem m' q = mem m q" "more m' = more m" "start m' = start m" "limit m' = limit m"
    have "refs_ok pend K (add_mset p R) m'"
      unfolding refs_ok_def using a(2-4) h(2-4) assms(2) al by (intro exI [of _ fl']) auto
    then show ?thesis using a h(2) by (auto simp: keeps_def)
  qed simp
qed

lemma refs_ok_decref_shared:
  assumes "refs_ok pend K R m" "1 < count R p"
  shows "\<exists>m'. decref p f m = Inr m' \<and> refs_ok pend K (R - {#p#}) m' \<and> keeps (set_mset R \<union> K) m m'"
proof -
  obtain fl where h: "pm_wf pend fl m" "\<And>q. owned fl m q \<longleftrightarrow> q \<in># R \<or> q \<in> K"
    "\<And>q. q \<in> K \<Longrightarrow> q \<notin># R" "\<And>q. offset q = 0 \<Longrightarrow> refcount m q = count R q"
    using assms(1) by (auto simp: refs_ok_def)
  have pR: "p \<in># R" by (rule count_in) (use assms(2) in linarith)
  then have al: "offset p = 0" using refs_ok_aligned assms(1) by blast
  then have "1 < refcount m p" using assms(2) h(4) by simp
  from decref_shared [OF h(1) al this, of f] obtain m' where
    a: "decref p f m = Inr m'" "pm_wf pend fl m'" "owned fl m' = owned fl m"
      "\<forall>q. offset q = 0 \<longrightarrow> refcount m' q = (if q = p then refcount m p - 1 else refcount m q)"
      "\<forall>q. owned fl m q \<longrightarrow> mem m' q = mem m q" "more m' = more m" "start m' = start m" "limit m' = limit m"
    by blast
  note in_remove_shared [OF assms(2)]
  then have "refs_ok pend K (R - {#p#}) m'"
    unfolding refs_ok_def using a(2-4) h(2-4) al by (intro exI [of _ fl]) auto
  then show ?thesis using a h(2) by (auto simp: keeps_def)
qed

text \<open>
  The last reference: the destructor runs while the frame is still in use, with no count (so it is
  in \<open>K\<close>) and the counter of its table pending. It may itself give back references.
\<close>

lemma refs_ok_decref_last:
  assumes r: "refs_ok pend K R m" and c: "count R p = 1" and room: "pend (ridx m p) < 1024"
    and f: "\<And>m1. refs_ok (pend(ridx m p := pend (ridx m p) + 1)) (insert p K) (R - {#p#}) m1 \<Longrightarrow>
      keeps (set_mset R \<union> K) m m1 \<Longrightarrow>
      \<exists>m2. f p m1 = Inr m2 \<and> refs_ok (pend(ridx m p := pend (ridx m p) + 1)) (insert p K) R2 m2 \<and>
        keeps (set_mset R2 \<union> insert p K) m1 m2"
    and sub: "R2 \<subseteq># R - {#p#}"
  shows "\<exists>m'. decref p f m = Inr m' \<and> refs_ok pend K R2 m' \<and> keeps (set_mset R2 \<union> K) m m'"
proof -
  obtain fl where h: "pm_wf pend fl m" "\<And>q. owned fl m q \<longleftrightarrow> q \<in># R \<or> q \<in> K"
    "\<And>q. q \<in> K \<Longrightarrow> q \<notin># R" "\<And>q. offset q = 0 \<Longrightarrow> refcount m q = count R q"
    using r by (auto simp: refs_ok_def)
  have pR: "p \<in># R" by (rule count_in) (use c in simp)
  have pR2: "q \<in># R2 \<Longrightarrow> q \<in># R \<and> q \<noteq> p" for q
    using mset_subset_eqD [OF sub] in_remove_last [OF c] by blast
  have al: "offset p = 0" using refs_ok_aligned r pR by blast
  have ow: "owned fl m p" and c1: "refcount m p = 1" using h pR al c by simp_all
  let ?pend = "pend(ridx m p := pend (ridx m p) + 1)"
  let ?P = "\<lambda>fl2 m2. (\<forall>q. owned fl2 m2 q \<longleftrightarrow> q \<in># R2 \<or> q = p \<or> q \<in> K) \<and>
    (\<forall>q. offset q = 0 \<longrightarrow> refcount m2 q = count R2 q) \<and> keeps (set_mset R2 \<union> insert p K) m m2"
  note q = in_remove_last [OF c]
  have "\<exists>m' fl' fl2 m2. decref p f m = Inr m' \<and> ?P fl2 m2 \<and> pm_wf pend fl' m' \<and>
    (\<forall>q. owned fl' m' q \<longleftrightarrow> owned fl2 m2 q \<and> q \<noteq> p) \<and>
    (\<forall>q. offset q = 0 \<longrightarrow> refcount m' q = refcount m2 q) \<and>
    (\<forall>q. owned fl2 m2 q \<longrightarrow> q \<noteq> p \<longrightarrow> mem m' q = mem m2 q) \<and> more m' = more m2 \<and>
    start m' = start m \<and> limit m' = limit m \<and> p \<in> set fl'"
  proof (rule decref_last [OF h(1) ow c1 room, where P = ?P])
    fix m1 :: "'a pm_scheme"
    assume b: "pm_wf ?pend fl m1" "owned fl m1 = owned fl m"
      "\<And>q. offset q = 0 \<Longrightarrow> refcount m1 q = (if q = p then 0 else refcount m q)"
      "\<And>q. owned fl m q \<Longrightarrow> mem m1 q = mem m q" "start m1 = start m" "limit m1 = limit m" "more m1 = more m"
    have k1: "keeps (set_mset R \<union> K) m m1" using b(4-7) h(2) by (simp add: keeps_def)
    have "refs_ok ?pend (insert p K) (R - {#p#}) m1"
      unfolding refs_ok_def
    proof (intro exI [of _ fl] conjI ballI allI impI)
      show "owned fl m1 x \<longleftrightarrow> x \<in># R - {#p#} \<or> x \<in> insert p K" for x
        using b(2) h(2) q pR by auto
      show "x \<notin># R - {#p#}" if "x \<in> insert p K" for x using that q h(3) by auto
      show "refcount m1 x = count (R - {#p#}) x" if "offset x = 0" for x
        using b(3) [OF that] h(4) [OF that] c by simp
    qed (rule b(1))
    from f [OF this k1] obtain m2 where m2: "f p m1 = Inr m2" "refs_ok ?pend (insert p K) R2 m2"
      "keeps (set_mset R2 \<union> insert p K) m1 m2" by blast
    obtain fl2 where h2: "pm_wf ?pend fl2 m2" "\<And>q. owned fl2 m2 q \<longleftrightarrow> q \<in># R2 \<or> q \<in> insert p K"
      "\<And>q. q \<in> insert p K \<Longrightarrow> q \<notin># R2" "\<And>q. offset q = 0 \<Longrightarrow> refcount m2 q = count R2 q"
      using m2(2) by (auto simp: refs_ok_def)
    have k2: "keeps (set_mset R2 \<union> insert p K) m m2"
      by (rule keeps_trans [OF k1 m2(3)]) (use pR2 pR in auto)
    have "?P fl2 m2" using h2(2,4) k2 by simp
    then show "\<exists>m2 fl2. f p m1 = Inr m2 \<and> pm_wf ?pend fl2 m2 \<and>
        owned fl2 m2 p \<and> start m2 = start m \<and> limit m2 = limit m \<and> ?P fl2 m2"
      using m2(1) h2(1,2) k2 by (intro exI [of _ m2] exI [of _ fl2]) (simp add: keeps_def)
  qed
  then obtain m' fl' fl2 m2 where a: "decref p f m = Inr m'" "pm_wf pend fl' m'"
    "\<forall>q. owned fl' m' q \<longleftrightarrow> owned fl2 m2 q \<and> q \<noteq> p" "\<forall>q. offset q = 0 \<longrightarrow> refcount m' q = refcount m2 q"
    "\<forall>q. owned fl2 m2 q \<longrightarrow> q \<noteq> p \<longrightarrow> mem m' q = mem m2 q" "more m' = more m2"
    "start m' = start m" "limit m' = limit m"
    and b: "\<forall>q. owned fl2 m2 q \<longleftrightarrow> q \<in># R2 \<or> q = p \<or> q \<in> K"
    "\<forall>q. offset q = 0 \<longrightarrow> refcount m2 q = count R2 q" "keeps (set_mset R2 \<union> insert p K) m m2"
    by (elim exE conjE) (rule that)
  have nK: "p \<notin> K" using h(3) pR by blast
  have "refs_ok pend K R2 m'"
    unfolding refs_ok_def
  proof (intro exI [of _ fl'] conjI ballI allI impI)
    show "pm_wf pend fl' m'" by (rule a(2))
    show "owned fl' m' r \<longleftrightarrow> r \<in># R2 \<or> r \<in> K" for r using a(3) b(1) pR2 nK by blast
    show "r \<notin># R2" if "r \<in> K" for r using h(3) [OF that] pR2 by blast
    show "refcount m' r = count R2 r" if "offset r = 0" for r using a(4) b(2) that by simp
  qed
  moreover have "keeps (set_mset R2 \<union> K) m m'"
    unfolding keeps_def
  proof (intro conjI ballI)
    fix r assume "r \<in> set_mset R2 \<union> K"
    then have "owned fl2 m2 r" "r \<noteq> p" "r \<in> set_mset R2 \<union> insert p K" using b(1) pR2 nK by auto
    then show "mem m' r = mem m r" using a(5) keeps_mem [OF b(3)] by simp
  qed (use a(6-8) b(3) in \<open>simp_all add: keeps_def\<close>)
  ultimately show ?thesis using a(1) by blast
qed

text \<open>A release with a destructor that does nothing, as for a page of data.\<close>

abbreviation free_page :: "u32 \<Rightarrow> 'a pm_scheme \<Rightarrow> 'a pm_scheme res" where
  "free_page p \<equiv> decref p (\<lambda>_ m. Inr m)"

lemma refs_ok_free:
  assumes "refs_ok pend K R m" "p \<in># R" "pend (ridx m p) < 1024"
  shows "\<exists>m'. free_page p m = Inr m' \<and> refs_ok pend K (R - {#p#}) m' \<and> keeps (set_mset (R - {#p#}) \<union> K) m m'"
proof (cases "count R p = 1")
  case True
  show ?thesis
  proof (rule refs_ok_decref_last [OF assms(1) True assms(3) _ subset_mset.order_refl])
    fix m1 :: "'a pm_scheme"
    let ?pend = "pend(ridx m p := pend (ridx m p) + 1)"
    assume "refs_ok ?pend (insert p K) (R - {#p#}) m1"
    then show "\<exists>m2. Inr m1 = Inr m2 \<and> refs_ok ?pend (insert p K) (R - {#p#}) m2 \<and>
        keeps (set_mset (R - {#p#}) \<union> insert p K) m1 m2"
      by (intro exI [of _ m1]) simp
  qed
next
  case False
  have "1 < count R p" by (rule in_remove_counts [OF assms(2) False])
  note sh = refs_ok_decref_shared [OF assms(1) this, of "\<lambda>_ m. Inr m"]
  have sub: "set_mset (R - {#p#}) \<union> K \<subseteq> set_mset R \<union> K" by (auto dest: in_diffD)
  from sh show ?thesis
    by (elim exE conjE) (intro exI conjI, assumption, assumption, erule keeps_mono, rule sub)
qed

section \<open>Stores\<close>

lemma refs_ok_write:
  assumes "refs_ok pend K R m" "p \<in># R \<or> p \<in> K"
  shows "refs_ok pend K R (m\<lparr>mem := (mem m)(p := f)\<rparr>)"
proof -
  obtain fl where h: "pm_wf pend fl m" "\<And>q. owned fl m q \<longleftrightarrow> q \<in># R \<or> q \<in> K"
    "\<And>q. q \<in> K \<Longrightarrow> q \<notin># R" "\<And>q. offset q = 0 \<Longrightarrow> refcount m q = count R q"
    using assms(1) by (auto simp: refs_ok_def)
  have ow: "owned fl m p" using h(2) assms(2) by simp
  note om = owned_mem [OF h(1) ow, where f = f]
  show ?thesis
    unfolding refs_ok_def using om h by (intro exI [of _ fl]) simp
qed

lemma refs_ok_write_word: "refs_ok pend K R m \<Longrightarrow> p \<in># R \<or> p \<in> K \<Longrightarrow> refs_ok pend K R (write_word p k v m)"
  by (simp add: write_word_def refs_ok_write)

lemma refs_ok_copy_frame: "refs_ok pend K R m \<Longrightarrow> p \<in># R \<or> p \<in> K \<Longrightarrow> refs_ok pend K R (copy_frame p src m)"
  by (simp add: copy_frame_def refs_ok_write)

section \<open>The interface\<close>

lemma alloc_law:
  "holds K R m \<Longrightarrow> alloc_frame m = Inr (m', p) \<Longrightarrow>
    p \<notin># R \<and> holds K (add_mset p R) m' \<and> mem m' p = (\<lambda>_. 0) \<and> (\<forall>q. q \<in># R \<longrightarrow> mem m' q = mem m q)"
  by (drule refs_ok_alloc) (simp add: keeps_def)

lemma incref_law:
  "holds K R m \<Longrightarrow> p \<in># R \<Longrightarrow> count R p < 0xFFFF \<Longrightarrow> incref p m = Inr m' \<Longrightarrow>
    holds K (add_mset p R) m' \<and> (\<forall>q. q \<in># R \<longrightarrow> mem m' q = mem m q)"
  by (drule (2) refs_ok_incref) (simp add: keeps_def)

lemma free_law:
  "holds K R m \<Longrightarrow> p \<in># R \<Longrightarrow>
    \<exists>m'. free_page p m = Inr m' \<and> holds K (R - {#p#}) m' \<and> (\<forall>q. q \<in># R - {#p#} \<longrightarrow> mem m' q = mem m q)"
  by (drule (1) refs_ok_free) (auto simp: keeps_def)

lemma write_law:
  "holds K R m \<Longrightarrow> p \<in># R \<Longrightarrow>
    holds K R (write_word p k v m) \<and> mem (write_word p k v m) = (mem m)(p := (mem m p)(k := v))"
  by (simp add: write_word_def refs_ok_write)

interpretation pm: frame_store "holds K" mem alloc_frame incref free_page write_word for K
  by unfold_locales (fact alloc_law incref_law free_law write_law)+

text \<open>The state after \<open>init\<close>: nothing is in use.\<close>

lemma init_holds:
  assumes "offset s = 0" "offset z = 0" "s \<noteq> 0" "uint s + uint z < 2 ^ 32" "firstFree m0 = 0"
  shows "\<exists>m. init s z m0 = Inr m \<and> holds {} {#} m \<and> start m = s \<and> limit m = s + z \<and> pavail m = s"
proof -
  let ?m = "m0\<lparr>start := s, pavail := s, limit := s + z, refs := (\<lambda>_. 0)\<rparr>"
  have u: "uint (s + z) = uint s + uint z"
    using assms(4) by (simp add: uint_word_ariths)
  have o: "offset (s + z) = 0" using assms(1,2) by (simp add: offset_dvd u)
  have le: "s \<le> s + z" by (simp add: word_le_def u)
  have "pm_wf (\<lambda>_. 0) [] ?m"
    using assms o le by (simp add: pm_wf_def used_def)
  moreover have "owned [] ?m q = False" for q
    by (auto simp: owned_def managed_def)
  moreover have "refcount ?m q = 0" for q by (simp add: refcount_def used_def)
  ultimately have "holds {} {#} ?m" unfolding refs_ok_def by (intro exI [of _ "[]"]) simp
  then show ?thesis using assms(1,2) by (simp add: init_def)
qed

end
