(* ===== verification/PhysMem_Props.thy ===== *)
theory PhysMem_Props
  imports PhysMem_Thms
begin

text \<open>What the frame allocator promises, over the definitions of \<open>PhysMem\<close>.\<close>

section \<open>A concrete memory\<close>

text \<open>One megabyte of frames above the first megabyte.\<close>

definition pm0 :: pm where
  "pm0 = \<lparr>mem = (\<lambda>_ _. 7), firstFree = 0, pavail = 0, limit = 0, start = 0, refs = (\<lambda>_. 0)\<rparr>"

definition boot_pm :: pm where
  "boot_pm = \<lparr>mem = (\<lambda>_ _. 7), firstFree = 0, pavail = 0x100000, limit = 0x200000, start = 0x100000,
     refs = (\<lambda>_. 0)\<rparr>"

lemma boot_pm_init: "init 0x100000 0x100000 pm0 = Inr boot_pm"
  by (simp add: init_def pm0_def boot_pm_def offset_def)

lemma boot_pm_holds: "holds {} {#} boot_pm"
  using init_holds [of "0x100000" "0x100000" pm0] boot_pm_init
  by (simp add: offset_def pm0_def)

lemma boot_pm_alloc: "\<exists>m. alloc_frame boot_pm = Inr (m, 0x100000)"
  by (simp add: alloc_frame_def unsafe_alloc_frame_def incref_def boot_pm_def offset_def Let_def
      ridx_def ref_index_def rofs_def FRAME_SIZE_def set_ref_def set_count_def)

lemma boot_pm_reach:
  assumes "alloc_frame boot_pm = Inr (m, p)"
  shows "frame_reach b alloc_frame incref free_page write_word boot_pm m {#p#}"
  by (rule frame_reach.alloc_step) (rule frame_reach.start, rule assms)

section \<open>Properties\<close>

text \<open>
  \<open>alloc_frame\<close> in a memory whose counts agree with the references in use either panics
  for want of frames or returns an aligned, non-zero address inside the managed range, of a frame
  that nobody references, zeroed, now with exactly one reference; the frames in use keep
  their contents and their counts.
\<close>

theorem alloc_frame_contract:
  "holds K R m \<Longrightarrow>
    alloc_frame m = Inl (Panic ''no more frames'') \<or>
    (\<exists>m' p. alloc_frame m = Inr (m', p) \<and> p \<notin># R \<and> p \<notin> K \<and> holds K (add_mset p R) m' \<and> mem m' p = (\<lambda>_. 0) \<and>
      offset p = 0 \<and> p \<noteq> 0 \<and> start m \<le> p \<and> p < limit m \<and> (\<forall>q. q \<in># R \<longrightarrow> mem m' q = mem m q))"
  using outcome_cases [OF refs_ok_alloc [of "\<lambda>_. 0" K R m]] by (fastforce simp: keeps_def)

theorem alloc_frame_contract_witness:
  "\<exists>m'. alloc_frame boot_pm = Inr (m', 0x100000) \<and> holds {} {#0x100000#} m' \<and> mem m' 0x100000 = (\<lambda>_. 0)"
  using alloc_frame_contract [OF boot_pm_holds] boot_pm_alloc by auto

text \<open>
  C33. Reference counting is safe. However clients allocate frames, take references to frames
  they hold, drop them and write into them, starting from nothing, as long as no frame ever has more than 65535 references (the
  counts have 16 bits and \<open>incref\<close> does not check them; \<open>incref_overflow\<close> is the next one): every held frame lies in the
  managed range and its count is exactly the number of references held; the next frame
  that \<open>alloc_frame\<close> returns is held by nobody and zeroed; and dropping a held
  reference never fails an assertion.
\<close>

theorem frames_run_safe:
  assumes "holds {} {#} m0" "b \<le> 0xFFFF"
    and "frame_reach b alloc_frame incref free_page write_word m0 m R"
  shows "(\<forall>p. p \<in># R \<longrightarrow> offset p = 0 \<and> p \<noteq> 0 \<and> start m \<le> p \<and> p < limit m \<and> refcount m p = count R p) \<and>
    (\<forall>m' p. alloc_frame m = Inr (m', p) \<longrightarrow> p \<notin># R \<and> mem m' p = (\<lambda>_. 0)) \<and>
    (\<forall>p. p \<in># R \<longrightarrow> (\<exists>m'. free_page p m = Inr m'))"
proof (intro conjI allI impI)
  have h: "holds {} R m" by (rule pm.reach_holds [OF assms(3,2,1)])
  fix p
  show "\<exists>m'. free_page p m = Inr m'" if "p \<in># R" using pm.drop_counts [OF h that] by blast
  show "p \<noteq> 0" "start m \<le> p" "p < limit m" if "p \<in># R" using refs_ok_range [OF h] that by blast+
  show "offset p = 0" if "p \<in># R" using refs_ok_aligned [OF h] that by blast
  then show "refcount m p = count R p" if "p \<in># R" using h that by (auto simp: refs_ok_def)
  fix m'
  assume "alloc_frame m = Inr (m', p)"
  then show "p \<notin># R" "mem m' p = (\<lambda>_. 0)" using pm.alloc_fresh [OF h] by blast+
qed

theorem frames_run_safe_witness:
  "\<exists>m. alloc_frame boot_pm = Inr (m, 0x100000) \<and> refcount m 0x100000 = 1 \<and>
    (\<exists>m'. free_page 0x100000 m = Inr m')"
proof -
  obtain m where m: "alloc_frame boot_pm = Inr (m, 0x100000)" using boot_pm_alloc by blast
  from frames_run_safe [OF boot_pm_holds _ boot_pm_reach [where b = "0xFFFF", OF m]] m show ?thesis by simp
qed

text \<open>
  Nothing leaks: from any state that clients can reach, dropping the references they hold, in
  any order, returns and leaves every count at zero and no frame in use.
\<close>

theorem frames_drain:
  assumes "holds {} {#} m0" "b \<le> 0xFFFF"
    and "frame_reach b alloc_frame incref free_page write_word m0 m (mset ps)"
  shows "\<exists>m'. forE free_page ps m = Inr m' \<and> (\<forall>q. offset q = 0 \<longrightarrow> refcount m' q = 0) \<and>
    (\<exists>fl. pm_wf (\<lambda>_. 0) fl m' \<and> (\<forall>q. \<not> owned fl m' q))"
proof -
  obtain m' where m': "forE free_page ps m = Inr m'" "holds {} {#} m'"
    using pm.drain [OF pm.reach_holds [OF assms(3,2,1)]] by blast
  then show ?thesis by (auto simp: refs_ok_def)
qed

theorem frames_drain_witness:
  "\<exists>m m'. alloc_frame boot_pm = Inr (m, 0x100000) \<and> forE free_page [0x100000] m = Inr m' \<and>
    refcount m' 0x100000 = 0"
proof -
  obtain m where m: "alloc_frame boot_pm = Inr (m, 0x100000)" using boot_pm_alloc by blast
  have "frame_reach 0xFFFF alloc_frame incref free_page write_word boot_pm m (mset [0x100000])"
    using boot_pm_reach [OF m] by simp
  from frames_drain [OF boot_pm_holds _ this] m show ?thesis by (auto simp: offset_def)
qed

text \<open>
  The counts have 16 bits and \<open>incref\<close> does not check them: the 65536th reference to a frame makes
  its count 0, with all its references still out.
\<close>

theorem incref_overflow:
  assumes "offset p = 0" "refcount m p = 0xFFFF"
  shows "\<exists>m'. incref p m = Inr m' \<and> refcount m' p = 0"
proof -
  let ?i = "ridx m p" and ?k = "rofs m p"
  have us: "used m ?i" using assms(2) by (auto simp: refcount_def split: if_splits)
  let ?t = "tbl m ?i"
  have "unat (get16 (mem m ?t) ?k) = 0xFFFF" using assms(2) us by (simp add: refcount_def)
  then have old: "get16 (mem m ?t) ?k = 0xFFFF" by (simp add: word_unat_eq_iff)
  let ?m = "set_count ?t ?k 0 m"
  have wrap: "get16 (mem m ?t) ?k + 1 = 0" unfolding old by simp
  have "get16 (mem m ?t) ?k \<noteq> 0" unfolding old by simp
  then have "incref p m = Inr ?m"
    using assms(1) us wrap by (simp add: incref_def Let_def used_def tbl_def)
  moreover have "refcount ?m p = 0"
    by (simp add: refcount_def set_count_def get16_put16 tbl_def ridx_def rofs_def ref_index_def)
  ultimately show ?thesis by blast
qed

definition full_pm :: pm where
  "full_pm = \<lparr>mem = (\<lambda>_ _. 0xFFFF), firstFree = 0, pavail = 0x102000, limit = 0x200000, start = 0x100000,
     refs = (\<lambda>_. 0)(0 := 0x101001)\<rparr>"

theorem incref_overflow_witness: "\<exists>m'. incref 0x100000 full_pm = Inr m' \<and> refcount m' 0x100000 = 0"
proof -
  have "refcount full_pm 0x100000 = 0xFFFF"
    by (simp add: refcount_def used_def tbl_def full_pm_def ridx_def rofs_def ref_index_def get16_def)
  then show ?thesis using incref_overflow [of "0x100000" full_pm] by (simp add: offset_def)
qed

end
