(* ===== verification/VMM.thy ===== *)
theory VMM
  imports PhysMem
begin

text \<open>
  Virtual memory, \<open>kernel/vmm.cc\<close>: two-level page tables in the frames of \<open>PhysMem\<close>, with
  copy-on-write. The state adds the kernel's page directory and, for the core that runs,
  the register CR3. \<open>invlpg\<close> and reloading CR3 only flush the TLB; the model has none.
  A call of \<open>SYS::exit\<close> does not return: it is the value \<open>ThreadExit\<close>.
\<close>

record vm = pm +
  kpd :: u32
  cr3 :: u32

section \<open>Flags of an entry\<close>

definition PAGES_PER_TABLE :: nat where "PAGES_PER_TABLE = 1024"

definition fP :: u32 where "fP = 0x1"
definition fRW :: u32 where "fRW = 0x2"
definition fUS :: u32 where "fUS = 0x4"
definition fG :: u32 where "fG = 0x200"
definition fNG :: u32 where "fNG = 0x400"
definition fMASK :: u32 where "fMASK = 0xfffff000"

lemmas flag_defs = fP_def fRW_def fUS_def fG_def fNG_def fMASK_def

section \<open>Destructors\<close>

definition destroy_pg :: "u32 \<Rightarrow> 'a pm_scheme \<Rightarrow> 'a pm_scheme res" where
  "destroy_pg p m = Inr m"

definition destroy_pt :: "u32 \<Rightarrow> 'a pm_scheme \<Rightarrow> 'a pm_scheme res" where
  "destroy_pt pt m = forE (\<lambda>i m.
     if mem m pt i AND (fNG OR fP) = (fNG OR fP) then decref (mem m pt i AND fMASK) destroy_pg m else Inr m)
     [0..<PAGES_PER_TABLE] m"

definition destroy_pd :: "u32 \<Rightarrow> 'a vm_scheme \<Rightarrow> 'a vm_scheme res" where
  "destroy_pd pd m =
     bindE (ASSERT (pd \<noteq> cr3 m) ''p != getCR3()'') (\<lambda>_.
     bindE (forE (\<lambda>i m.
       if mem m pd i AND (fNG OR fP) = (fNG OR fP) then decref (mem m pd i AND fMASK) destroy_pt m else Inr m)
       [0..<PAGES_PER_TABLE] m)
     (decref pd destroy_pg))"

text \<open>
  \<open>clear_pt\<close> declares \<open>bool discard\<close> without a value; it is only ever set to false. The value
  it happens to have is the argument \<open>discard\<close>.
\<close>

definition clear_pt :: "bool \<Rightarrow> u32 \<Rightarrow> 'a pm_scheme \<Rightarrow> 'a pm_scheme res" where
  "clear_pt discard pt m =
     bindE (forE (\<lambda>i (d, m).
       let pte = mem m pt i in
       if pte AND fP = 0 then Inr (d, m)
       else if pte AND fNG = 0 then Inr (False, m)
       else bindE (decref (pte AND fMASK) destroy_pg m) (\<lambda>m. Inr (d, write_word pt i 0 m)))
       [0..<PAGES_PER_TABLE] (discard, m))
     (\<lambda>(d, m). bindE (ASSERT (\<not> d) ''!discard'') (\<lambda>_. Inr m))"

definition clear_pd :: "(nat \<Rightarrow> bool) \<Rightarrow> u32 \<Rightarrow> 'a pm_scheme \<Rightarrow> 'a pm_scheme res" where
  "clear_pd discard pd m = forE (\<lambda>i m.
     let pde = mem m pd i in
     if pde AND fP = 0 then Inr m
     else if pde AND fNG = 0 then Inr m
     else if pde AND fG = 0 then
       bindE (decref (pde AND fMASK) destroy_pt m) (\<lambda>m. Inr (write_word pd i 0 m))
     else clear_pt (discard i) (pde AND fMASK) m)
     [0..<PAGES_PER_TABLE] m"

section \<open>Copies\<close>

definition copy_kpd :: "'a vm_scheme \<Rightarrow> ('a vm_scheme \<times> u32) res" where
  "copy_kpd m = bindE (alloc_frame m) (\<lambda>(m, pd). Inr (copy_frame pd (kpd m) m, pd))"

definition copy_pg :: "u32 \<Rightarrow> 'a pm_scheme \<Rightarrow> ('a pm_scheme \<times> u32) res" where
  "copy_pg pg m = bindE (alloc_frame m) (\<lambda>(m, new_pg). Inr (copy_frame new_pg pg m, new_pg))"

definition copy_pte :: "u32 \<Rightarrow> u32 \<Rightarrow> nat \<Rightarrow> 'a pm_scheme \<Rightarrow> 'a pm_scheme res" where
  "copy_pte pt new_pt i m =
     (let pte = mem m pt i in
      if pte AND fP = 0 then Inr m
      else if pte AND fG \<noteq> 0 then
        bindE (ASSERT (pte AND fNG = 0) ''!(pte & Flag::NG)'') (\<lambda>_. Inr (write_word new_pt i pte m))
      else if pte AND fRW = 0 then incref (pte AND fMASK) (write_word new_pt i pte m)
      else bindE (copy_pg (pte AND fMASK) m)
             (\<lambda>(m, pg). Inr (write_word new_pt i (pg OR (pte AND 0xfff)) m)))"

definition copy_pt :: "u32 \<Rightarrow> 'a pm_scheme \<Rightarrow> ('a pm_scheme \<times> u32) res" where
  "copy_pt pt m =
     bindE (alloc_frame m) (\<lambda>(m, new_pt).
     bindE (forE (copy_pte pt new_pt) [0..<PAGES_PER_TABLE] m) (\<lambda>m. Inr (m, new_pt)))"

definition copy_pde :: "u32 \<Rightarrow> u32 \<Rightarrow> nat \<Rightarrow> 'a pm_scheme \<Rightarrow> 'a pm_scheme res" where
  "copy_pde pd new_pd i m =
     (let pde = mem m pd i in
      if pde AND fP = 0 then Inr m
      else if pde AND fNG = 0 then Inr (write_word new_pd i pde m)
      else if pde AND fRW = 0 then incref (pde AND fMASK) (write_word new_pd i pde m)
      else bindE (copy_pt (pde AND fMASK) m)
             (\<lambda>(m, pt). Inr (write_word new_pd i (pt OR (pde AND 0xfff)) m)))"

definition copy_pd :: "u32 \<Rightarrow> 'a pm_scheme \<Rightarrow> ('a pm_scheme \<times> u32) res" where
  "copy_pd pd m =
     bindE (alloc_frame m) (\<lambda>(m, new_pd).
     bindE (forE (copy_pde pd new_pd) [0..<PAGES_PER_TABLE] m) (\<lambda>m. Inr (m, new_pd)))"

section \<open>Mapping a page\<close>

definition pdi_of :: "u32 \<Rightarrow> nat" where
  "pdi_of va = unat (drop_bit 22 va)"

definition pti_of :: "u32 \<Rightarrow> nat" where
  "pti_of va = unat (drop_bit 12 va AND 0x3ff)"

text \<open>The part that \<open>map\<close> and \<open>map_copy\<close> share: \<open>pd[pdi]\<close> gets a table with the permissions \<open>flags\<close>.\<close>

definition get_table :: "u32 \<Rightarrow> nat \<Rightarrow> u32 \<Rightarrow> 'a pm_scheme \<Rightarrow> 'a pm_scheme res" where
  "get_table pd pdi flags m =
     (let pde = mem m pd pdi in
      bindE (ASSERT (flags AND 1 \<noteq> 0) ''(flags & 1)'') (\<lambda>_.
      if pde AND 1 = 0 then
        bindE (alloc_frame m) (\<lambda>(m, pt). Inr (write_word pd pdi (pt OR flags) m))
      else if pde AND flags \<noteq> flags then
        bindE (copy_pt (pde AND fMASK) m) (\<lambda>(m, pt).
        let m = write_word pd pdi (pt OR (pde AND 0xfff) OR flags) m
        in if pde AND fNG \<noteq> 0 then decref (pde AND fMASK) destroy_pt m else Inr m)
      else Inr m))"

definition map_pg :: "u32 \<Rightarrow> u32 \<Rightarrow> u32 \<Rightarrow> u32 \<Rightarrow> 'a pm_scheme \<Rightarrow> 'a pm_scheme res" where
  "map_pg pd va pa flags m =
     bindE (get_table pd (pdi_of va) flags m) (\<lambda>m.
     let pt = mem m pd (pdi_of va) AND 0xfffff000
     in Inr (write_word pt (pti_of va) (pa OR flags) m))"

definition map_copy :: "u32 \<Rightarrow> u32 \<Rightarrow> u32 \<Rightarrow> u32 \<Rightarrow> 'a pm_scheme \<Rightarrow> 'a pm_scheme res" where
  "map_copy pd va pa flags m =
     bindE (get_table pd (pdi_of va) flags m) (\<lambda>m.
     let pt = mem m pd (pdi_of va) AND fMASK;
         pte = mem m pt (pti_of va)
     in bindE
       (if pte AND fP \<noteq> 0 then
          if pte AND fRW \<noteq> 0 then Inl (ThreadExit (- 1))
          else decref (pte AND fMASK) destroy_pg (copy_frame pa (pte AND fMASK) m)
        else Inr m)
       (\<lambda>m. Inr (write_word pt (pti_of va) (pa OR flags) m)))"

section \<open>Write protection\<close>

definition pFlag :: u32 where "pFlag = fNG OR fRW OR fP"

definition protect_pte :: "u32 \<Rightarrow> nat \<Rightarrow> u32 \<Rightarrow> nat \<Rightarrow> 'a pm_scheme \<Rightarrow> 'a pm_scheme" where
  "protect_pte pd pdi pt pti m =
     (if mem m pt pti AND pFlag = pFlag then write_word pt pti (mem m pt pti XOR fRW) m
      else if mem m pt pti AND pFlag = (fRW OR fP) then write_word pd pdi (mem m pd pdi OR fRW) m
      else m)"

definition protect_pde :: "u32 \<Rightarrow> nat \<Rightarrow> 'a pm_scheme \<Rightarrow> 'a pm_scheme" where
  "protect_pde pd pdi m =
     (if mem m pd pdi AND pFlag = pFlag then
        let m = write_word pd pdi (mem m pd pdi XOR fRW) m;
            pt = mem m pd pdi AND fMASK
        in fold (protect_pte pd pdi pt) [0..<PAGES_PER_TABLE] m
      else m)"

definition write_protect :: "u32 \<Rightarrow> 'a pm_scheme \<Rightarrow> 'a pm_scheme" where
  "write_protect pd m = fold (protect_pde pd) [0..<PAGES_PER_TABLE] m"

section \<open>The kernel's address space\<close>

definition kFlags :: u32 where "kFlags = fG OR fRW OR fP"

text \<open>One table of the identity map.\<close>

definition identity_table :: "nat \<Rightarrow> 'a vm_scheme \<Rightarrow> 'a vm_scheme res" where
  "identity_table pdi m =
     bindE (unsafe_alloc_frame m) (\<lambda>(m, pt).
     let m = fold (\<lambda>pti. write_word pt pti
                     (push_bit 22 (of_nat pdi) OR push_bit 12 (of_nat pti) OR kFlags))
                  [0..<PAGES_PER_TABLE] m
     in Inr (write_word (kpd m) pdi (pt OR kFlags) m))"

text \<open>The loop over the last, partial 4 MB; it runs forever if \<open>va\<close> can pass \<open>memSize\<close> only by wrapping.\<close>

partial_function (option) map_rest :: "u32 \<Rightarrow> u32 \<Rightarrow> 'a vm_scheme \<Rightarrow> 'a vm_scheme res option" where
  "map_rest va memSize m =
     (if va < memSize then
        case map_pg (kpd m) va va kFlags m of
          Inl e \<Rightarrow> Some (Inl e)
        | Inr m' \<Rightarrow> map_rest (va + 4096) memSize m'
      else Some (Inr m))"

definition map_partial :: "u32 \<Rightarrow> 'a vm_scheme \<Rightarrow> 'a vm_scheme res option" where
  "map_partial memSize m =
     (let va = memSize AND 0xffc00000 in
      if va < memSize then
        case unsafe_alloc_frame m of
          Inl e \<Rightarrow> Some (Inl e)
        | Inr (m, pt) \<Rightarrow> map_rest va memSize (write_word (kpd m) (unat (drop_bit 22 va)) (pt OR kFlags) m)
      else Some (Inr m))"

definition global_init :: "u32 \<Rightarrow> u32 \<Rightarrow> u32 \<Rightarrow> 'a vm_scheme \<Rightarrow> 'a vm_scheme res option" where
  "global_init memSize localAPIC ioAPIC m =
     (case bindE (unsafe_alloc_frame m) (\<lambda>(m, pd).
             bindE (forE identity_table [0..<unat (drop_bit 22 memSize)] (m\<lparr>kpd := pd\<rparr>)) (\<lambda>m.
             Inr (write_word (mem m (kpd m) 0 AND fMASK) 0 0 m))) of
        Inl e \<Rightarrow> Some (Inl e)
      | Inr m \<Rightarrow>
          (case map_partial memSize m of
             None \<Rightarrow> None
           | Some r \<Rightarrow> Some (bindE r (\<lambda>m.
               bindE (map_pg (kpd m) localAPIC localAPIC kFlags m) (\<lambda>m.
               map_pg (kpd m) ioAPIC ioAPIC kFlags m)))))"

definition per_core_init :: "'a vm_scheme \<Rightarrow> 'a vm_scheme res" where
  "per_core_init m = bindE (ASSERT (kpd m \<noteq> 0) ''kpd'') (\<lambda>_. Inr (m\<lparr>cr3 := kpd m\<rparr>))"

section \<open>Page faults\<close>

definition vmm_pageFault :: "u32 \<Rightarrow> u32 \<Rightarrow> 'a vm_scheme \<Rightarrow> 'a vm_scheme res" where
  "vmm_pageFault va error_code m =
     (if va = 0 then Inl (ThreadExit (- 1))
      else if error_code AND 0x7 = 0x5 then Inl (ThreadExit (- 1))
      else if \<not> 0x80000000 \<le> va then Inl (ThreadExit (- 1))
      else
        let flags = fP OR (fNG OR fRW) OR fUS in
        if error_code AND 0x3 = 0x3 then
          bindE (alloc_frame m) (\<lambda>(m, pa). map_copy (cr3 m) (va AND fMASK) pa flags m)
        else if error_code AND 0x1 = 0x1 then Inl (ThreadExit (- 1))
        else bindE (alloc_frame m) (\<lambda>(m, pa). map_pg (cr3 m) (va AND fMASK) pa flags m))"

end
