(* ===== verification/VMM_Inv.thy ===== *)
theory VMM_Inv
  imports VMM PhysMem_Thms
begin

text \<open>
  Page tables as owners of references: what a table, and a directory, holds; how the
  destructors give those references back and how the copies take new ones.
\<close>

section \<open>Entries\<close>

definition present :: "u32 \<Rightarrow> bool" where
  "present e \<longleftrightarrow> e AND fP \<noteq> 0"

definition priv :: "u32 \<Rightarrow> bool" where
  "priv e \<longleftrightarrow> e AND (fNG OR fP) = (fNG OR fP)"

lemma low_flag: "n < 12 \<Longrightarrow> bit ((x :: u32) AND 0xFFF) n = bit x n"
proof -
  assume "n < 12"
  moreover have "x AND 0xFFF = take_bit 12 x" by (rule and_low)
  ultimately show ?thesis by (simp add: bit_take_bit_iff)
qed

lemma bit_high: "bit ((x :: u32) AND FMASK) n \<longleftrightarrow> 12 \<le> n \<and> bit x n"
  unfolding and_high by (auto simp: bit_push_bit_iff bit_drop_bit_eq dest: bit_imp_le_length)

lemma flag_bits:
  "(x :: u32) AND fP \<noteq> 0 \<longleftrightarrow> bit x 0" "x AND fRW \<noteq> 0 \<longleftrightarrow> bit x 1" "x AND fG \<noteq> 0 \<longleftrightarrow> bit x 9"
  "x AND fNG \<noteq> 0 \<longleftrightarrow> bit x 10" "x AND fUS \<noteq> 0 \<longleftrightarrow> bit x 2"
proof -
  have *: "x AND 2 ^ n \<noteq> 0 \<longleftrightarrow> bit x n" for n
    by (simp add: and_exp_eq_0_iff_not_bit)
  from * [of 0] * [of 1] * [of 9] * [of 10] * [of 2]
  show "(x :: u32) AND fP \<noteq> 0 \<longleftrightarrow> bit x 0" "x AND fRW \<noteq> 0 \<longleftrightarrow> bit x 1" "x AND fG \<noteq> 0 \<longleftrightarrow> bit x 9"
    "x AND fNG \<noteq> 0 \<longleftrightarrow> bit x 10" "x AND fUS \<noteq> 0 \<longleftrightarrow> bit x 2"
    by (simp_all add: flag_defs)
qed

lemma present_bit: "present e \<longleftrightarrow> bit e 0"
  by (simp add: present_def flag_bits)

lemma has_flag:
  assumes "n < 32"
  shows "(e :: u32) AND 2 ^ n = 2 ^ n \<longleftrightarrow> bit e n"
proof
  have "bit (2 ^ n :: u32) n" using assms by (simp add: bit_exp_iff possible_bit_def)
  moreover assume "e AND 2 ^ n = 2 ^ n"
  ultimately show "bit e n" by (metis bit_and_iff)
next
  assume "bit e n"
  then show "e AND 2 ^ n = 2 ^ n"
    by (intro bit_word_eqI) (auto simp: bit_and_iff bit_exp_iff)
qed

lemma has_both: "(e :: u32) AND (a OR b) = (a OR b) \<longleftrightarrow> e AND a = a \<and> e AND b = b"
  by (auto simp: bit_eq_iff bit_and_iff bit_or_iff)

lemma priv_bits: "priv e \<longleftrightarrow> bit e 0 \<and> bit e 10"
proof -
  have f: "fNG = 2 ^ 10" "fP = 2 ^ 0" by (simp_all add: flag_defs)
  have "priv e \<longleftrightarrow> bit e 10 \<and> bit e 0"
    unfolding priv_def has_both f by (simp only: has_flag [of 10] has_flag [of 0])
  then show ?thesis by blast
qed

lemma priv_present: "priv e \<Longrightarrow> present e"
  by (simp add: priv_bits present_bit)

text \<open>An aligned frame address together with flags.\<close>

lemma join_entry:
  assumes "offset p = 0"
  shows "(p OR (x AND 0xFFF)) AND fMASK = p" "(p OR (x AND 0xFFF)) AND 0xFFF = x AND 0xFFF"
    "n < 12 \<Longrightarrow> bit (p OR (x AND 0xFFF)) n = bit x n"
proof -
  have m: "fMASK = FMASK" by (simp add: fMASK_def)
  have p: "bit p n \<longleftrightarrow> 12 \<le> n \<and> bit p n" for n
    using bit_high [of p n] high_aligned [OF assms] by simp
  have low: "bit (x AND 0xFFF) n \<longleftrightarrow> n < 12 \<and> bit x n" for x :: u32 and n
    unfolding and_low by (auto simp: bit_take_bit_iff)
  show "n < 12 \<Longrightarrow> bit (p OR (x AND 0xFFF)) n = bit x n"
    using p [of n] low [of x n] by (auto simp: bit_or_iff)
  show "(p OR (x AND 0xFFF)) AND fMASK = p"
  proof (rule bit_word_eqI)
    fix n show "bit ((p OR (x AND 0xFFF)) AND fMASK) n = bit p n"
      using p [of n] low [of x n] unfolding m bit_high bit_or_iff by auto
  qed
  show "(p OR (x AND 0xFFF)) AND 0xFFF = x AND 0xFFF"
  proof (rule bit_word_eqI)
    fix n show "bit ((p OR (x AND 0xFFF)) AND 0xFFF) n = bit (x AND 0xFFF) n"
      using p [of n] low [of x n] unfolding low [of "p OR (x AND 0xFFF)"] bit_or_iff by auto
  qed
qed

section \<open>The references a table holds\<close>

text \<open>Of its first \<open>n\<close> entries.\<close>

primrec priv_refs :: "(nat \<Rightarrow> u32) \<Rightarrow> nat \<Rightarrow> u32 multiset" where
  "priv_refs c 0 = {#}"
| "priv_refs c (Suc n) = (if priv (c n) then add_mset (c n AND fMASK) (priv_refs c n) else priv_refs c n)"

text \<open>
  The references of a page directory \<open>c\<close>: one for each private table, and the references of the table
  itself unless somebody else (the references \<open>R0\<close>) also holds the table.
\<close>

primrec table_refs :: "(u32 \<Rightarrow> nat \<Rightarrow> u32) \<Rightarrow> u32 multiset \<Rightarrow> (nat \<Rightarrow> u32) \<Rightarrow> nat \<Rightarrow> u32 multiset" where
  "table_refs M R0 c 0 = {#}"
| "table_refs M R0 c (Suc n) = (if priv (c n) then add_mset (c n AND fMASK)
      ((if c n AND fMASK \<in># R0 then {#} else priv_refs (M (c n AND fMASK)) PAGES_PER_TABLE) + table_refs M R0 c n)
    else table_refs M R0 c n)"

lemma priv_refs_mono: "n \<le> k \<Longrightarrow> priv_refs c n \<subseteq># priv_refs c k"
proof (induction k)
  case (Suc k)
  then show ?case
    by (cases "n = Suc k") (auto intro: subset_mset.order_trans)
qed simp

lemma priv_refs_cong: "(\<And>i. i < n \<Longrightarrow> c i = d i) \<Longrightarrow> priv_refs c n = priv_refs d n"
  by (induction n) simp_all

lemma size_priv_refs: "size (priv_refs c n) \<le> n"
  by (induction n) auto

lemma table_refs_mono: "n \<le> k \<Longrightarrow> table_refs M R0 c n \<subseteq># table_refs M R0 c k"
proof (induction k)
  case (Suc k)
  show ?case
  proof (cases "n = Suc k")
    case False
    with Suc have "table_refs M R0 c n \<subseteq># table_refs M R0 c k" by simp
    moreover have "table_refs M R0 c k \<subseteq># table_refs M R0 c (Suc k)"
      by (auto simp: subset_mset.add_increasing subset_mset.add_increasing2 subseteq_mset_def)
    ultimately show ?thesis by (rule subset_mset.order_trans)
  qed simp
qed simp

section \<open>Destructors give references back\<close>

lemma destroy_pg_eq: "destroy_pg = (\<lambda>_ m. Inr m)"
  by (simp add: fun_eq_iff destroy_pg_def)

definition roomy :: "nat \<Rightarrow> (u32 \<Rightarrow> nat) \<Rightarrow> bool" where
  "roomy n pend \<longleftrightarrow> (\<forall>i. pend i + n \<le> 1024)"

lemma roomy_less [simp, intro]: "roomy (Suc n) pend \<Longrightarrow> pend i < 1024"
  by (auto simp: roomy_def Suc_le_eq dest: spec [of _ i])

lemma roomy_upd [intro]: "roomy (Suc n) pend \<Longrightarrow> roomy n (pend(i := pend i + 1))"
  unfolding roomy_def
proof
  fix j
  assume "\<forall>i. pend i + Suc n \<le> 1024"
  then have "pend j + Suc n \<le> 1024" "pend i + Suc n \<le> 1024" by blast+
  then show "(pend(i := pend i + 1)) j + n \<le> 1024" by simp
qed

lemma roomy_zero [simp]: "n \<le> 1024 \<Longrightarrow> roomy n (\<lambda>_. 0)"
  by (simp add: roomy_def)

lemma minus_add_mset: "R - add_mset p A = R - A - {#p#}"
  by (simp add: multiset_eq_iff)

lemma sub_member: "add_mset p A \<subseteq># R \<Longrightarrow> p \<in># R - A"
proof -
  assume "add_mset p A \<subseteq># R"
  then have "count (add_mset p A) p \<le> count R p" unfolding subseteq_mset_def by blast
  then have "0 < count (R - A) p" by simp
  then show ?thesis by (rule count_in)
qed

lemma set_mset_diff: "set_mset (A - B) \<subseteq> set_mset A"
  by (meson in_diffD subsetI)

lemma keeps_trans_diff:
  "keeps (set_mset A \<union> K) m m1 \<Longrightarrow> keeps (set_mset (A - B) \<union> K) m1 m2 \<Longrightarrow> keeps (set_mset (A - B) \<union> K) m m2"
  by (erule (1) keeps_trans) (rule Un_mono [OF set_mset_diff subset_refl], rule subset_refl)

lemma destroy_pt_refs:
  assumes r: "refs_ok pend K R m" and t: "t \<in> K" and sub: "priv_refs (mem m t) PAGES_PER_TABLE \<subseteq># R"
    and pend: "roomy (Suc n) pend"
  shows "\<exists>m'. destroy_pt t m = Inr m' \<and> refs_ok pend K (R - priv_refs (mem m t) PAGES_PER_TABLE) m' \<and>
    keeps (set_mset (R - priv_refs (mem m t) PAGES_PER_TABLE) \<union> K) m m'"
proof -
  let ?c = "mem m t"
  let ?I = "\<lambda>i m'. refs_ok pend K (R - priv_refs ?c i) m' \<and> keeps (set_mset (R - priv_refs ?c i) \<union> K) m m'"
  have "outcome {} (?I PAGES_PER_TABLE) (destroy_pt t m)"
    unfolding destroy_pt_def
  proof (rule outcome_upt)
    show "?I 0 m" using r by simp
  next
    fix i m1
    assume i: "i < PAGES_PER_TABLE" and I: "?I i m1"
    have c: "mem m1 t = ?c" using I t keeps_mem by blast
    show "outcome {} (?I (Suc i))
      (if mem m1 t i AND (fNG OR fP) = (fNG OR fP) then decref (mem m1 t i AND fMASK) destroy_pg m1 else Inr m1)"
    proof (cases "priv (?c i)")
      case False
      then show ?thesis using I by (simp add: c priv_def)
    next
      case True
      let ?p = "?c i AND fMASK"
      have "priv_refs ?c (Suc i) \<subseteq># R"
        using sub priv_refs_mono [of "Suc i" PAGES_PER_TABLE ?c] i by (auto intro: subset_mset.order_trans)
      then have p: "?p \<in># R - priv_refs ?c i"
        using True by (simp add: sub_member)
      from refs_ok_free [OF conjunct1 [OF I] p roomy_less [OF pend]] obtain m2 where m2: "free_page ?p m1 = Inr m2"
        "refs_ok pend K (R - priv_refs ?c i - {#?p#}) m2"
        "keeps (set_mset (R - priv_refs ?c i - {#?p#}) \<union> K) m1 m2" by (elim exE conjE) (rule that)
      have e: "R - priv_refs ?c (Suc i) = R - priv_refs ?c i - {#?p#}"
        unfolding priv_refs.simps if_P [OF True] by (rule minus_add_mset)
      have "keeps (set_mset (R - priv_refs ?c (Suc i)) \<union> K) m m2"
        unfolding e
        by (rule keeps_trans_diff [OF conjunct2 [OF I] m2(3)])
      then show ?thesis
        using m2(1,2) True unfolding e c priv_def destroy_pg_eq by simp
    qed
  qed
  then show ?thesis by (auto dest: outcome_cases)
qed


text \<open>Giving back a table: its own references go with the last reference to it.\<close>

definition after_free :: "(nat \<Rightarrow> u32) \<Rightarrow> u32 \<Rightarrow> u32 multiset \<Rightarrow> u32 multiset" where
  "after_free c t R = (if 1 < count R t then R - {#t#} else R - {#t#} - priv_refs c PAGES_PER_TABLE)"

lemma free_table_refs:
  assumes r: "refs_ok pend K R m" and t: "t \<in># R" and pend: "roomy (Suc (Suc n)) pend"
    and sub: "count R t = 1 \<Longrightarrow> priv_refs (mem m t) PAGES_PER_TABLE \<subseteq># R - {#t#}"
  shows "\<exists>m'. decref t destroy_pt m = Inr m' \<and> refs_ok pend K (after_free (mem m t) t R) m' \<and>
    keeps (set_mset (after_free (mem m t) t R) \<union> K) m m'"
proof (cases "count R t = 1")
  case True
  let ?R2 = "R - {#t#} - priv_refs (mem m t) PAGES_PER_TABLE"
  let ?pend = "pend(ridx m t := pend (ridx m t) + 1)"
  have af: "after_free (mem m t) t R = ?R2" using True by (simp add: after_free_def)
  show ?thesis
    unfolding af
  proof (rule refs_ok_decref_last [OF r True])
    show "pend (ridx m t) < 1024" using pend by blast
    show "?R2 \<subseteq># R - {#t#}" by (rule diff_subset_eq_self)
    fix m1 :: "'a pm_scheme"
    assume r1: "refs_ok ?pend (insert t K) (R - {#t#}) m1" and k1: "keeps (set_mset R \<union> K) m m1"
    have c: "mem m1 t = mem m t" using keeps_mem [OF k1] t by simp
    have "roomy (Suc n) ?pend" using pend by (rule roomy_upd)
    from destroy_pt_refs [OF r1 _ _ this, of t] c sub True
    show "\<exists>m2. destroy_pt t m1 = Inr m2 \<and> refs_ok ?pend (insert t K) ?R2 m2 \<and>
        keeps (set_mset ?R2 \<union> insert t K) m1 m2" by simp
  qed
next
  case False
  then have c: "1 < count R t" by (rule in_remove_counts [OF t])
  then have af: "after_free (mem m t) t R = R - {#t#}" by (simp add: after_free_def)
  note sh = refs_ok_decref_shared [OF r c, of destroy_pt]
  show ?thesis
    unfolding af
    using sh by (elim exE conjE) (intro exI conjI, assumption, assumption,
        erule keeps_mono, rule Un_mono [OF set_mset_diff subset_refl])
qed

lemma minus_assoc_mset: "A \<subseteq># R \<Longrightarrow> R - (B + A) = R - A - B"
  by (metis add.commute diff_diff_add_mset)

text \<open>
  A directory whose tables are its own entries only: each occurs once among the references
  that the directory brings, so neither as another entry nor as a page of a table.
\<close>

definition tree_like :: "(u32 \<Rightarrow> nat \<Rightarrow> u32) \<Rightarrow> u32 multiset \<Rightarrow> u32 \<Rightarrow> (nat \<Rightarrow> u32) \<Rightarrow> bool" where
  "tree_like M R0 pd c \<longleftrightarrow> pd \<notin># R0 + table_refs M R0 c PAGES_PER_TABLE \<and>
     (\<forall>i<PAGES_PER_TABLE. priv (c i) \<longrightarrow> count (table_refs M R0 c PAGES_PER_TABLE) (c i AND fMASK) = 1)"

lemma table_refs_step:
  assumes tl: "tree_like M R0 pd c" and i: "i < PAGES_PER_TABLE" and p: "priv (c i)"
    and R: "R = R0 + {#pd#} + table_refs M R0 c PAGES_PER_TABLE"
  defines "t \<equiv> c i AND fMASK" and "Ri \<equiv> R - table_refs M R0 c i"
  shows "t \<in># Ri" "count Ri t = count R0 t + 1" "t \<noteq> pd"
    "after_free (M t) t Ri = R - table_refs M R0 c (Suc i)"
    "count Ri t = 1 \<Longrightarrow> priv_refs (M t) PAGES_PER_TABLE \<subseteq># Ri - {#t#}"
proof -
  let ?T = "table_refs M R0 c" and ?P = "if t \<in># R0 then {#} else priv_refs (M t) PAGES_PER_TABLE"
  have T: "?T (Suc i) = add_mset t (?P + ?T i)" using p by (simp add: t_def)
  have sub: "?T (Suc i) \<subseteq># ?T PAGES_PER_TABLE" by (rule table_refs_mono) (use i in simp)
  then have le: "count (?T (Suc i)) x \<le> count (?T PAGES_PER_TABLE) x" for x
    unfolding subseteq_mset_def by blast
  have one: "count (?T PAGES_PER_TABLE) t = 1" using tl i p by (simp add: tree_like_def t_def)
  have npd: "pd \<notin># R0 + ?T PAGES_PER_TABLE" using tl by (simp add: tree_like_def)
  have "0 < count (?T PAGES_PER_TABLE) t" using one by simp
  then have "t \<in># ?T PAGES_PER_TABLE" by (rule count_in)
  then show tpd: "t \<noteq> pd" using npd by auto
  have Ti: "count (?T i) t = 0" using le [of t] one unfolding T by simp
  show c: "count Ri t = count R0 t + 1"
    using Ti one tpd by (simp add: Ri_def R)
  show "t \<in># Ri" by (rule count_in) (use c in simp)
  have cnt: "count Ri x \<ge> count (add_mset t ?P) x" for x
  proof -
    define P where "P = ?P"
    have "count (add_mset t (P + ?T i)) x \<le> count (?T PAGES_PER_TABLE) x"
      using le [of x] unfolding T P_def .
    then have "count (add_mset t P) x + count (?T i) x \<le> count (?T PAGES_PER_TABLE) x" by auto
    moreover have "count Ri x = count R0 x + count {#pd#} x + count (?T PAGES_PER_TABLE) x - count (?T i) x"
      by (simp add: Ri_def R)
    ultimately show ?thesis unfolding P_def by linarith
  qed
  have R': "R - ?T (Suc i) = Ri - {#t#} - ?P"
  proof -
    define P where "P = ?P"
    show ?thesis unfolding T Ri_def P_def [symmetric] by (simp add: multiset_eq_iff add.commute)
  qed
  show "after_free (M t) t Ri = R - ?T (Suc i)"
  proof (cases "t \<in># R0")
    case True
    then have "0 < count R0 t" by simp
    then have "1 < count Ri t" unfolding c by linarith
    then show ?thesis unfolding R' using True by (simp add: after_free_def)
  next
    case False
    then have "count Ri t = 1" unfolding c by (simp add: not_in_iff)
    then show ?thesis unfolding R' using False by (simp add: after_free_def)
  qed
  assume "count Ri t = 1"
  then have "t \<notin># R0" unfolding c by (simp add: not_in_iff)
  then have P: "?P = priv_refs (M t) PAGES_PER_TABLE" by simp
  have le2: "count (priv_refs (M t) PAGES_PER_TABLE) x \<le> count (Ri - {#t#}) x" for x
    using cnt [of x] unfolding P by (auto split: if_splits)
  then show "priv_refs (M t) PAGES_PER_TABLE \<subseteq># Ri - {#t#}" by (rule mset_subset_eqI)
qed

lemma destroy_pd_refs:
  fixes m :: "'a vm_scheme"
  assumes r: "refs_ok pend K R m" and pend: "roomy 4 pend" and cr: "pd \<noteq> cr3 m"
    and R: "R = R0 + {#pd#} + table_refs (mem m) R0 (mem m pd) PAGES_PER_TABLE"
    and tl: "tree_like (mem m) R0 pd (mem m pd)"
  shows "\<exists>m'. destroy_pd pd m = Inr m' \<and> refs_ok pend K R0 m' \<and> keeps (set_mset R0 \<union> K) m m'"
proof -
  let ?c = "mem m pd" and ?T = "table_refs (mem m) R0 (mem m pd)"
  let ?f = "\<lambda>i m. if mem m pd i AND (fNG OR fP) = (fNG OR fP) then decref (mem m pd i AND fMASK) destroy_pt m else Inr m"
  let ?I = "\<lambda>i m'. refs_ok pend K (R - ?T i) m' \<and> keeps (set_mset (R - ?T i) \<union> K) m m'"
  have "Suc (Suc 2) = (4 :: nat)" by simp
  then have pend4: "roomy (Suc (Suc 2)) pend" using pend by metis
  have pend1: "pend i < 1024" for i
  proof -
    have "pend i + 4 \<le> 1024" using pend unfolding roomy_def by blast
    then show ?thesis by linarith
  qed
  have pdT: "count (?T PAGES_PER_TABLE) pd = 0" "count R0 pd = 0"
    using tl by (auto simp: tree_like_def not_in_iff)
  have pdR: "pd \<in># R - ?T i" if "i \<le> PAGES_PER_TABLE" for i
  proof (rule count_in)
    have "count (?T i) pd \<le> count (?T PAGES_PER_TABLE) pd"
      using table_refs_mono [OF that] unfolding subseteq_mset_def by blast
    then show "0 < count (R - ?T i) pd" using pdT by (simp add: R)
  qed
  have "outcome {} (?I PAGES_PER_TABLE) (forE ?f [0..<PAGES_PER_TABLE] m)"
  proof (rule outcome_upt)
    show "?I 0 m" using r by simp
  next
    fix i m1
    assume i: "i < PAGES_PER_TABLE" and I: "?I i m1"
    have "pd \<in># R - ?T i" using pdR i by simp
    then have c: "mem m1 pd = ?c" using keeps_mem [OF conjunct2 [OF I]] by simp
    show "outcome {} (?I (Suc i)) (?f i m1)"
    proof (cases "priv (?c i)")
      case False
      then show ?thesis using I by (simp add: c priv_def)
    next
      case True
      let ?t = "?c i AND fMASK"
      note st = table_refs_step [OF tl i True R]
      have mt: "mem m1 ?t = mem m ?t" using keeps_mem [OF conjunct2 [OF I]] st(1) by simp
      obtain m2 where m2: "decref ?t destroy_pt m1 = Inr m2"
        "refs_ok pend K (after_free (mem m1 ?t) ?t (R - ?T i)) m2"
        "keeps (set_mset (after_free (mem m1 ?t) ?t (R - ?T i)) \<union> K) m1 m2"
        using free_table_refs [OF conjunct1 [OF I] st(1) pend4, OF st(5) [folded mt], simplified]
        by (elim exE conjE) (rule that)
      note af = st(4) [folded mt]
      have "R - ?T (Suc i) = (R - ?T i) - (?T (Suc i) - ?T i)"
        by (simp add: multiset_eq_iff)
      then have "keeps (set_mset (R - ?T (Suc i)) \<union> K) m m2"
        using keeps_trans_diff [OF conjunct2 [OF I]] m2(3) unfolding af by metis
      then show ?thesis using m2(1,2) True unfolding af c priv_def by simp
    qed
  qed
  then obtain m1 where m1: "forE ?f [0..<PAGES_PER_TABLE] m = Inr m1" "?I PAGES_PER_TABLE m1"
    by (auto dest: outcome_cases)
  have R1: "R - ?T PAGES_PER_TABLE - {#pd#} = R0" by (simp add: R)
  obtain m2 where m2: "free_page pd m1 = Inr m2" "refs_ok pend K R0 m2" "keeps (set_mset R0 \<union> K) m1 m2"
    using refs_ok_free [OF conjunct1 [OF m1(2)] pdR [OF order_refl] pend1] unfolding R1
    by (elim exE conjE) (rule that)
  have "keeps (set_mset R0 \<union> K) m m2"
    using keeps_trans_diff [OF conjunct2 [OF m1(2)], of "{#pd#}"] m2(3) unfolding R1 by blast
  then show ?thesis
    using m1(1) m2(1,2) cr by (simp add: destroy_pd_def destroy_pg_eq)
qed

end
