(* ===== verification/VMM_Copy.thy ===== *)
theory VMM_Copy
  imports VMM_Inv
begin

text \<open>
  Copies of page tables and directories: what the new table holds, entry by entry, and which
  references it brings.
\<close>

section \<open>The copy of one entry\<close>

text \<open>
  \<open>U\<close> are the frames in use before, the new table included. A writable private page has become a
  fresh frame with the same contents and flags; every other entry is the same.
\<close>

definition copied :: "u32 set \<Rightarrow> (u32 \<Rightarrow> nat \<Rightarrow> u32) \<Rightarrow> (u32 \<Rightarrow> nat \<Rightarrow> u32) \<Rightarrow> u32 \<Rightarrow> u32 \<Rightarrow> bool" where
  "copied U M M' e e' \<longleftrightarrow>
     (if \<not> present e then e' = 0
      else if e AND fG \<noteq> 0 \<or> e AND fRW = 0 then e' = e
      else e' AND 0xFFF = e AND 0xFFF \<and> e' AND fMASK \<notin> U \<and> M' (e' AND fMASK) = M (e AND fMASK))"

text \<open>Each present entry is global or private, and the pages of private ones are referenced.\<close>

definition wf_table :: "u32 multiset \<Rightarrow> (nat \<Rightarrow> u32) \<Rightarrow> bool" where
  "wf_table R c \<longleftrightarrow> (\<forall>i<PAGES_PER_TABLE. present (c i) \<longrightarrow>
     (c i AND fG \<noteq> 0 \<longleftrightarrow> c i AND fNG = 0) \<and> (priv (c i) \<longrightarrow> c i AND fMASK \<in># R))"

lemma low_bits:
  assumes "(e :: u32) AND 0xFFF = e' AND 0xFFF"
  shows "present e = present e'" "priv e = priv e'" "(e AND fG \<noteq> 0) = (e' AND fG \<noteq> 0)"
    "(e AND fRW \<noteq> 0) = (e' AND fRW \<noteq> 0)" "(e AND fNG \<noteq> 0) = (e' AND fNG \<noteq> 0)" "(e AND fUS \<noteq> 0) = (e' AND fUS \<noteq> 0)"
proof -
  have b: "bit e n = bit e' n" if "n < 12" for n
    using low_flag [OF that, of e] low_flag [OF that, of e'] assms by simp
  show "present e = present e'" "priv e = priv e'" "(e AND fG \<noteq> 0) = (e' AND fG \<noteq> 0)"
    "(e AND fRW \<noteq> 0) = (e' AND fRW \<noteq> 0)" "(e AND fNG \<noteq> 0) = (e' AND fNG \<noteq> 0)" "(e AND fUS \<noteq> 0) = (e' AND fUS \<noteq> 0)"
    by (simp_all add: present_bit priv_bits flag_bits b)
qed

lemma priv_refs_in: "j < n \<Longrightarrow> priv (c j) \<Longrightarrow> c j AND fMASK \<in># priv_refs c n"
  by (induction n) (auto simp: less_Suc_eq)

lemma priv_refs_memD: "p \<in># priv_refs c n \<Longrightarrow> \<exists>j<n. priv (c j) \<and> p = c j AND fMASK"
  by (induction n) (auto simp: less_Suc_eq split: if_splits)

lemma copied_flags:
  assumes "copied U M M' e e'" "present e"
  shows "e' AND 0xFFF = e AND 0xFFF"
  using assms by (auto simp: copied_def split: if_splits)

lemma copied_priv: "copied U M M' e e' \<Longrightarrow> priv e' \<longleftrightarrow> priv e"
proof (cases "present e")
  case True
  assume "copied U M M' e e'"
  from low_bits(2) [OF copied_flags [OF this True]] show ?thesis .
next
  case False
  assume "copied U M M' e e'"
  with False show ?thesis by (auto simp: copied_def priv_bits present_bit)
qed

lemma priv_iff: "priv e \<longleftrightarrow> present e \<and> e AND fNG \<noteq> 0"
  by (simp only: priv_bits present_bit flag_bits)

lemma copied_later:
  assumes "copied U M M1 e e'" "priv e \<Longrightarrow> M2 (e' AND fMASK) = M1 (e' AND fMASK)"
    "present e \<Longrightarrow> e AND fG = 0 \<Longrightarrow> e AND fNG \<noteq> 0"
  shows "copied U M M2 e e'"
  using assms by (auto simp: copied_def priv_iff split: if_splits)

section \<open>Copying a table\<close>

text \<open>The state of the loop before entry \<open>i\<close>.\<close>

definition copying ::
  "(u32 \<Rightarrow> nat) \<Rightarrow> u32 set \<Rightarrow> u32 multiset \<Rightarrow> 'a pm_scheme \<Rightarrow> (nat \<Rightarrow> u32) \<Rightarrow> u32 \<Rightarrow> nat \<Rightarrow> 'a pm_scheme \<Rightarrow> bool" where
  "copying pend K R m c new i m1 \<longleftrightarrow>
     refs_ok pend K (add_mset new (R + priv_refs (mem m1 new) i)) m1 \<and>
     keeps (set_mset R \<union> K) m m1 \<and>
     (\<forall>j<i. copied (insert new (set_mset R \<union> K)) (mem m) (mem m1) (c j) (mem m1 new j)) \<and>
     (\<forall>j\<ge>i. mem m1 new j = 0)"

lemma copying_step:
  assumes wt: "wf_table R c" and i: "i < PAGES_PER_TABLE" and new: "new \<notin># R" "new \<notin> K"
    and I: "copying pend K R m c new i m1"
    and e: "mem m2 new = (mem m1 new)(i := e')"
    and k: "keeps (set_mset (R + priv_refs (mem m1 new) i) \<union> K) m1 m2"
    and r: "refs_ok pend K (add_mset new (R + priv_refs (mem m2 new) (Suc i))) m2"
    and c: "copied (insert new (set_mset R \<union> K)) (mem m) (mem m2) (c i) e'"
  shows "copying pend K R m c new (Suc i) m2"
proof -
  let ?U = "insert new (set_mset R \<union> K)"
  have k1: "keeps (set_mset R \<union> K) m m1" using I by (simp add: copying_def)
  have "keeps (set_mset R \<union> K) m m2" by (rule keeps_trans [OF k1 k]) auto
  moreover have "copied ?U (mem m) (mem m2) (c j) (mem m2 new j)" if j: "j < Suc i" for j
  proof (cases "j = i")
    case True
    then show ?thesis using c e by simp
  next
    case False
    then have ji: "j < i" using j by simp
    have cj: "copied ?U (mem m) (mem m1) (c j) (mem m1 new j)" using I ji by (simp add: copying_def)
    have "copied ?U (mem m) (mem m2) (c j) (mem m1 new j)"
    proof (rule copied_later [OF cj])
      assume "priv (c j)"
      then have "priv (mem m1 new j)" using copied_priv [OF cj] by simp
      then have "mem m1 new j AND fMASK \<in># priv_refs (mem m1 new) i" using priv_refs_in ji by blast
      then show "mem m2 (mem m1 new j AND fMASK) = mem m1 (mem m1 new j AND fMASK)"
        using keeps_mem [OF k] by simp
    next
      assume "present (c j)" "c j AND fG = 0"
      moreover have "j < PAGES_PER_TABLE" using ji i by simp
      ultimately show "c j AND fNG \<noteq> 0" using wt by (auto simp: wf_table_def)
    qed
    then show ?thesis using e False by simp
  qed
  moreover have "\<forall>j\<ge>Suc i. mem m2 new j = 0" using I e by (simp add: copying_def)
  ultimately show ?thesis using r by (simp add: copying_def)
qed

lemma copying_refs:
  "mem m2 new = (mem m1 new)(i := e') \<Longrightarrow>
   priv_refs (mem m2 new) (Suc i) = (if priv e' then add_mset (e' AND fMASK) (priv_refs (mem m1 new) i)
     else priv_refs (mem m1 new) i)"
  by (simp add: priv_refs_cong [of i "(mem m1 new)(i := e')" "mem m1 new"])

lemma copy_pte_step:
  assumes wt: "wf_table R (mem m pt)" and i: "i < PAGES_PER_TABLE" and new: "new \<notin># R" "new \<notin> K"
    and pt: "pt \<in># R \<or> pt \<in> K" and few: "\<And>p. p \<in># priv_refs (mem m pt) PAGES_PER_TABLE \<Longrightarrow> count R p + 1024 < 0xFFFF"
    and I: "copying pend K R m (mem m pt) new i m1"
  shows "outcome {oom} (copying pend K R m (mem m pt) new (Suc i)) (copy_pte pt new i m1)"
proof -
  let ?e = "mem m pt i" and ?c = "mem m pt"
  let ?cur = "add_mset new (R + priv_refs (mem m1 new) i)"
  have r1: "refs_ok pend K ?cur m1" and k1: "keeps (set_mset R \<union> K) m m1"
    and z: "mem m1 new i = 0" using I by (simp_all add: copying_def)
  have e1: "mem m1 pt i = ?e" using keeps_mem [OF k1] pt by auto
  have pnew: "p \<noteq> new" if "p \<in># R" for p using new that by auto
  have pages: "?e AND fMASK \<in># R" if "priv ?e" using wt i that priv_present by (auto simp: wf_table_def)
  have glob: "present ?e \<Longrightarrow> ?e AND fG \<noteq> 0 \<longleftrightarrow> ?e AND fNG = 0" using wt i by (simp add: wf_table_def)
  have nprefs: "new \<notin># priv_refs (mem m1 new) i"
  proof
    assume "new \<in># priv_refs (mem m1 new) i"
    then obtain j where j: "j < i" "priv (mem m1 new j)" "new = mem m1 new j AND fMASK"
      using priv_refs_memD by blast
    have cj: "copied (insert new (set_mset R \<union> K)) (mem m) (mem m1) (?c j) (mem m1 new j)"
      using I j by (simp add: copying_def)
    have "priv (?c j)" using j(2) copied_priv [OF cj] by simp
    moreover have "j < PAGES_PER_TABLE" using j(1) i by simp
    ultimately have "?c j AND fMASK \<in># R" "present (?c j)" using wt priv_present by (auto simp: wf_table_def)
    then show False using cj j new by (auto simp: copied_def split: if_splits)
  qed
  note step = copying_step [OF wt i new I]
  consider (absent) "\<not> present ?e" | (global) "present ?e" "?e AND fG \<noteq> 0"
    | (ro) "present ?e" "?e AND fG = 0" "?e AND fRW = 0" | (rw) "present ?e" "?e AND fG = 0" "?e AND fRW \<noteq> 0"
    by blast
  then show ?thesis
  proof cases
    case absent
    have "copying pend K R m ?c new (Suc i) m1"
      by (rule step [of m1 0]) (use r1 z absent in \<open>auto simp: copied_def priv_bits\<close>)
    then show ?thesis using absent by (simp add: copy_pte_def e1 present_def Let_def)
  next
    case global
    let ?m2 = "write_word new i ?e m1"
    have m2: "mem ?m2 new = (mem m1 new)(i := ?e)" by (simp add: write_word_def)
    have np: "\<not> priv ?e" using glob [OF global(1)] global(2) by (simp add: priv_iff)
    have "copying pend K R m ?c new (Suc i) ?m2"
    proof (rule step [OF m2])
      show "keeps (set_mset (R + priv_refs (mem m1 new) i) \<union> K) m1 ?m2"
        unfolding write_word_def by (rule keeps_write) (use new nprefs in auto)
      show "refs_ok pend K (add_mset new (R + priv_refs (mem ?m2 new) (Suc i))) ?m2"
        unfolding copying_refs [OF m2] using np refs_ok_write_word [OF r1] by simp
    qed (use global in \<open>simp add: copied_def\<close>)
    then show ?thesis using global glob by (simp add: copy_pte_def e1 present_def Let_def)
  next
    case ro
    let ?m2 = "write_word new i ?e m1" and ?p = "?e AND fMASK"
    have pe: "priv ?e" using glob [OF ro(1)] ro(1,2) by (simp add: priv_iff)
    have pR: "?p \<in># R" by (rule pages [OF pe])
    have r2: "refs_ok pend K ?cur ?m2" by (rule refs_ok_write_word [OF r1]) simp
    have "count ?cur ?p < 0xFFFF"
    proof -
      have "count (priv_refs (mem m1 new) i) ?p \<le> size (priv_refs (mem m1 new) i)"
        by (rule count_le_size)
      also have "\<dots> \<le> i" by (rule size_priv_refs)
      finally have "count (priv_refs (mem m1 new) i) ?p \<le> 1023" using i by (simp add: PAGES_PER_TABLE_def)
      then show ?thesis using few [OF priv_refs_in [where c = ?c, OF i pe]] pnew [OF pR] by simp
    qed
    from refs_ok_incref [OF r2 _ this] pR
    have "outcome {oom} (\<lambda>m3. refs_ok pend K (add_mset ?p ?cur) m3 \<and> keeps (set_mset ?cur \<union> K) ?m2 m3) (incref ?p ?m2)"
      by simp
    then have "outcome {oom} (copying pend K R m ?c new (Suc i)) (incref ?p ?m2)"
    proof (rule outcome_mono)
      fix m3
      assume m3: "refs_ok pend K (add_mset ?p ?cur) m3 \<and> keeps (set_mset ?cur \<union> K) ?m2 m3"
      have me: "mem m3 new = (mem m1 new)(i := ?e)"
        using keeps_mem [OF conjunct2 [OF m3], of new] by (simp add: write_word_def)
      show "copying pend K R m ?c new (Suc i) m3"
      proof (rule step [OF me])
        have "keeps (set_mset (R + priv_refs (mem m1 new) i) \<union> K) m1 ?m2"
          unfolding write_word_def by (rule keeps_write) (use new nprefs in auto)
        then show "keeps (set_mset (R + priv_refs (mem m1 new) i) \<union> K) m1 m3"
          by (rule keeps_trans [OF _ conjunct2 [OF m3]]) auto
        show "refs_ok pend K (add_mset new (R + priv_refs (mem m3 new) (Suc i))) m3"
          unfolding copying_refs [OF me] using pe m3 by (simp add: add_mset_commute)
      qed (use ro in \<open>simp add: copied_def\<close>)
    qed
    then show ?thesis using ro by (simp add: copy_pte_def e1 present_def Let_def)
  next
    case rw
    let ?p = "?e AND fMASK"
    have pe: "priv ?e" using glob [OF rw(1)] rw(1,2) by (simp add: priv_iff)
    have pR: "?p \<in># R" by (rule pages [OF pe])
    have run: "copy_pte pt new i m1 = bindE (alloc_frame m1) (\<lambda>(m2, pg).
        Inr (write_word new i (pg OR (?e AND 0xFFF)) (copy_frame pg ?p m2)))"
      using rw by (simp add: copy_pte_def e1 present_def Let_def copy_pg_def bindE_assoc split_def)
    show ?thesis
      unfolding run
    proof (rule outcome_bind [OF refs_ok_alloc [OF r1]])
      fix x :: "'a pm_scheme \<times> u32"
      obtain m2 pg where x: "x = (m2, pg)" by (cases x)
      assume "case x of (m', p) \<Rightarrow> p \<notin># ?cur \<and> p \<notin> K \<and> refs_ok pend K (add_mset p ?cur) m' \<and>
        mem m' p = (\<lambda>_. 0) \<and> keeps (set_mset ?cur \<union> K) m1 m' \<and> offset p = 0 \<and> p \<noteq> 0 \<and> start m1 \<le> p \<and> p < limit m1"
      then have a: "pg \<noteq> new" "pg \<notin># R" "pg \<notin># priv_refs (mem m1 new) i" "pg \<notin> K"
        "refs_ok pend K (add_mset pg ?cur) m2" "keeps (set_mset ?cur \<union> K) m1 m2"
        "offset pg = 0"
        by (simp_all add: x)
      note j = join_entry [OF a(7), where x = ?e]
      let ?e' = "pg OR (?e AND 0xFFF)"
      let ?m3 = "write_word new i ?e' (copy_frame pg ?p m2)"
      have m2n: "mem m2 new = mem m1 new" and m2p: "mem m2 ?p = mem m1 ?p"
        using keeps_mem [OF a(6)] pR by simp_all
      have me: "mem ?m3 new = (mem m1 new)(i := ?e')"
        using a(1) m2n by (simp add: write_word_def copy_frame_def)
      have pv: "priv ?e'" using pe low_bits(2) [OF j(2)] by simp
      have "copying pend K R m ?c new (Suc i) ?m3"
      proof (rule step [OF me])
        have "keeps (set_mset (R + priv_refs (mem m1 new) i) \<union> K) m2 ?m3"
          using a(2-4) new nprefs by (auto simp: keeps_def write_word_def copy_frame_def)
        then show "keeps (set_mset (R + priv_refs (mem m1 new) i) \<union> K) m1 ?m3"
          by (rule keeps_trans [OF a(6)]) auto
        have "refs_ok pend K (add_mset pg ?cur) ?m3"
          by (rule refs_ok_write_word [OF refs_ok_copy_frame [OF a(5)]]) simp_all
        then show "refs_ok pend K (add_mset new (R + priv_refs (mem ?m3 new) (Suc i))) ?m3"
          unfolding copying_refs [OF me] using pv j(1) by (simp add: add_mset_commute)
        have "mem ?m3 pg = mem m ?p"
          using a(1) m2p keeps_mem [OF k1, of ?p] pR by (simp add: write_word_def copy_frame_def)
        then show "copied (insert new (set_mset R \<union> K)) (mem m) (mem ?m3) ?e ?e'"
          using rw j a(1,2,4) by (simp add: copied_def)
      qed
      then show "outcome {oom} (copying pend K R m ?c new (Suc i))
        (case x of (m2, pg) \<Rightarrow> Inr (write_word new i (pg OR (?e AND 0xFFF)) (copy_frame pg ?p m2)))"
        by (simp add: x)
    qed
  qed
qed


lemma copy_pt_refs:
  assumes r: "refs_ok pend K R m" and pt: "pt \<in># R \<or> pt \<in> K" and wt: "wf_table R (mem m pt)"
    and few: "\<And>p. p \<in># priv_refs (mem m pt) PAGES_PER_TABLE \<Longrightarrow> count R p + 1024 < 0xFFFF"
  shows "outcome {oom} (\<lambda>(m', new). new \<notin># R \<and> new \<notin> K \<and> offset new = 0 \<and>
     copying pend K R m (mem m pt) new PAGES_PER_TABLE m') (copy_pt pt m)"
  unfolding copy_pt_def
proof (rule outcome_bind [OF refs_ok_alloc [OF r]])
  fix x :: "'a pm_scheme \<times> u32"
  obtain m1 new where x: "x = (m1, new)" by (cases x)
  assume "case x of (m', p) \<Rightarrow> p \<notin># R \<and> p \<notin> K \<and> refs_ok pend K (add_mset p R) m' \<and>
     mem m' p = (\<lambda>_. 0) \<and> keeps (set_mset R \<union> K) m m' \<and> offset p = 0 \<and> p \<noteq> 0 \<and> start m \<le> p \<and> p < limit m"
  then have a: "new \<notin># R" "new \<notin> K" "refs_ok pend K (add_mset new R) m1" "mem m1 new = (\<lambda>_. 0)"
    "keeps (set_mset R \<union> K) m m1" "offset new = 0" by (simp_all add: x)
  have "outcome {oom} (copying pend K R m (mem m pt) new PAGES_PER_TABLE)
     (forE (copy_pte pt new) [0..<PAGES_PER_TABLE] m1)"
  proof (rule outcome_upt)
    show "copying pend K R m (mem m pt) new 0 m1" using a by (simp add: copying_def)
  qed (rule copy_pte_step [OF wt _ a(1,2) pt few])
  then show "outcome {oom} (\<lambda>(m', new). new \<notin># R \<and> new \<notin> K \<and> offset new = 0 \<and>
     copying pend K R m (mem m pt) new PAGES_PER_TABLE m')
     (case x of (m, new_pt) \<Rightarrow> bindE (forE (copy_pte pt new_pt) [0..<PAGES_PER_TABLE] m) (\<lambda>m. Inr (m, new_pt)))"
    using a by (auto simp: x intro: outcome_bind)
qed

text \<open>What the copy has in common with the original.\<close>

lemma copying_frame:
  assumes "copying pend K R m c new i m1" "j < i" "priv (mem m1 new j)"
  shows "priv (c j)" "mem m1 new j AND fMASK = c j AND fMASK \<or> mem m1 new j AND fMASK \<notin> insert new (set_mset R \<union> K)"
proof -
  have cj: "copied (insert new (set_mset R \<union> K)) (mem m) (mem m1) (c j) (mem m1 new j)"
    using assms by (simp add: copying_def)
  show p: "priv (c j)" using copied_priv [OF cj] assms(3) by simp
  show "mem m1 new j AND fMASK = c j AND fMASK \<or> mem m1 new j AND fMASK \<notin> insert new (set_mset R \<union> K)"
    using cj priv_present [OF p] by (auto simp: copied_def split: if_splits)
qed

lemma copying_count:
  assumes "copying pend K R m c new i m1" "x \<in> insert new (set_mset R \<union> K)" "k \<le> i"
  shows "count (priv_refs (mem m1 new) k) x \<le> count (priv_refs c k) x"
  using assms(3)
proof (induction k)
  case (Suc k)
  then show ?case using copying_frame [OF assms(1), of k] assms(2) by auto
qed simp

lemma copying_no_self:
  assumes "copying pend K R m c new PAGES_PER_TABLE m1" "wf_table R c" "new \<notin># R"
  shows "new \<notin># priv_refs (mem m1 new) PAGES_PER_TABLE"
proof
  assume "new \<in># priv_refs (mem m1 new) PAGES_PER_TABLE"
  then obtain j where j: "j < PAGES_PER_TABLE" "priv (mem m1 new j)" "new = mem m1 new j AND fMASK"
    using priv_refs_memD by blast
  note cf = copying_frame [OF assms(1) j(1,2)]
  have "c j AND fMASK \<in># R" using cf(1) priv_present assms(2) j(1) by (auto simp: wf_table_def)
  then show False using cf(2) j(3) assms(3) by auto
qed

end
