(* ===== verification/VMM_Fork.thy ===== *)
theory VMM_Fork
  imports VMM_Copy
begin

text \<open>Copies of whole page directories, as \<open>fork\<close> makes them.\<close>

section \<open>References of a directory\<close>

lemma table_refs_in: "j < n \<Longrightarrow> priv (c j) \<Longrightarrow> c j AND fMASK \<in># table_refs M R0 c n"
  by (induction n) (auto simp: less_Suc_eq)

lemma table_refs_pages:
  "j < n \<Longrightarrow> priv (c j) \<Longrightarrow> c j AND fMASK \<notin># R0 \<Longrightarrow>
    x \<in># priv_refs (M (c j AND fMASK)) PAGES_PER_TABLE \<Longrightarrow> x \<in># table_refs M R0 c n"
  by (induction n) (auto simp: less_Suc_eq)

lemma table_refs_cong:
  "(\<And>j. j < n \<Longrightarrow> c j = d j) \<Longrightarrow>
   (\<And>j. j < n \<Longrightarrow> priv (c j) \<Longrightarrow> c j AND fMASK \<notin># R0 \<Longrightarrow> M (c j AND fMASK) = M' (c j AND fMASK)) \<Longrightarrow>
   table_refs M R0 c n = table_refs M' R0 d n"
  by (induction n) auto

definition wf_dir :: "u32 multiset \<Rightarrow> (u32 \<Rightarrow> nat \<Rightarrow> u32) \<Rightarrow> (nat \<Rightarrow> u32) \<Rightarrow> bool" where
  "wf_dir R M c \<longleftrightarrow> (\<forall>i<PAGES_PER_TABLE. priv (c i) \<longrightarrow> c i AND fMASK \<in># R \<and>
     wf_table R (M (c i AND fMASK)))"

lemma wf_table_mono: "wf_table R c \<Longrightarrow> R \<subseteq># R' \<Longrightarrow> wf_table R' c"
  unfolding wf_table_def by (meson mset_subset_eqD)

text \<open>The copy of an entry of a directory; \<open>U\<close> are the frames in use before.\<close>

definition dir_copied :: "u32 set \<Rightarrow> (u32 \<Rightarrow> nat \<Rightarrow> u32) \<Rightarrow> (u32 \<Rightarrow> nat \<Rightarrow> u32) \<Rightarrow> u32 \<Rightarrow> u32 \<Rightarrow> bool" where
  "dir_copied U M M' e e' \<longleftrightarrow>
     (if \<not> present e then e' = 0
      else if e AND fNG = 0 \<or> e AND fRW = 0 then e' = e
      else e' AND 0xFFF = e AND 0xFFF \<and> e' AND fMASK \<notin> U \<and>
        (\<forall>i<PAGES_PER_TABLE. copied U M M' (M (e AND fMASK) i) (M' (e' AND fMASK) i)))"

lemma dir_copied_priv: "dir_copied U M M' e e' \<Longrightarrow> priv e' \<longleftrightarrow> priv e"
proof (cases "present e")
  case True
  assume d: "dir_copied U M M' e e'"
  then have "e' AND 0xFFF = e AND 0xFFF" using True by (auto simp: dir_copied_def split: if_splits)
  from low_bits(2) [OF this] show ?thesis .
next
  case False
  assume "dir_copied U M M' e e'"
  with False show ?thesis by (auto simp: dir_copied_def priv_iff present_def)
qed

lemma dir_copied_frame:
  "dir_copied U M M' e e' \<Longrightarrow> priv e \<Longrightarrow> e AND fRW = 0 \<and> e' = e \<or> e AND fRW \<noteq> 0 \<and> e' AND fMASK \<notin> U"
  by (auto simp: dir_copied_def priv_iff split: if_splits)

lemma copied_count:
  assumes "\<And>j. j < k \<Longrightarrow> copied U M M' (c j) (c' j)" "x \<in> U"
  shows "count (priv_refs c' k) x \<le> count (priv_refs c k) x"
  using assms(1)
proof (induction k)
  case (Suc k)
  have ck: "copied U M M' (c k) (c' k)" using Suc.prems by simp
  have "priv (c' k) \<Longrightarrow> priv (c k) \<and> (c' k AND fMASK = x \<longrightarrow> c k AND fMASK = x)"
  proof -
    assume "priv (c' k)"
    then have p: "priv (c k)" using copied_priv [OF ck] by simp
    then show ?thesis using ck assms(2) by (auto simp: copied_def priv_present split: if_splits)
  qed
  then show ?case using Suc by (auto simp: le_SucI)
qed simp

lemma dir_copied_count:
  assumes "\<And>j. j < k \<Longrightarrow> dir_copied U M M' (c j) (c' j)" "x \<in> U" "set_mset R \<subseteq> U"
    and "\<And>j. j < k \<Longrightarrow> priv (c j) \<Longrightarrow> c j AND fMASK \<in># R"
  shows "count (table_refs M' R c' k) x \<le> count (table_refs M {#} c k) x"
  using assms(1,4)
proof (induction k)
  case (Suc k)
  let ?e = "c k" and ?e' = "c' k"
  have ck: "dir_copied U M M' ?e ?e'" using Suc.prems by simp
  have IH: "count (table_refs M' R c' k) x \<le> count (table_refs M {#} c k) x" using Suc by simp
  show ?case
  proof (cases "priv ?e")
    case False
    then show ?thesis using IH dir_copied_priv [OF ck] by simp
  next
    case p: True
    then have p': "priv ?e'" using dir_copied_priv [OF ck] by simp
    show ?thesis
    proof (cases "?e AND fRW = 0")
      case True
      then have "?e' = ?e" using dir_copied_frame [OF ck p] by simp
      moreover have "?e AND fMASK \<in># R" using Suc.prems p by simp
      ultimately show ?thesis using IH p by simp
    next
      case False
      then have n: "?e' AND fMASK \<notin> U" using dir_copied_frame [OF ck p] by simp
      then have nR: "?e' AND fMASK \<notin># R" "?e' AND fMASK \<noteq> x" using assms(2,3) by auto
      have "count (priv_refs (M' (?e' AND fMASK)) PAGES_PER_TABLE) x \<le> count (priv_refs (M (?e AND fMASK)) PAGES_PER_TABLE) x"
      proof (rule copied_count [OF _ assms(2)])
        fix j assume "j < PAGES_PER_TABLE"
        then show "copied U M M' (M (?e AND fMASK) j) (M' (?e' AND fMASK) j)"
          using ck p False by (auto simp: dir_copied_def priv_iff)
      qed
      then show ?thesis using IH p p' nR by auto
    qed
  qed
qed simp

lemma copied_weaken: "copied U M M' e e' \<Longrightarrow> V \<subseteq> U \<Longrightarrow> copied V M M' e e'"
  by (auto simp: copied_def split: if_splits)

lemma copied_source:
  assumes "copied U M M' e e'" "priv e \<Longrightarrow> M0 (e AND fMASK) = M (e AND fMASK)"
    "present e \<Longrightarrow> e AND fG = 0 \<Longrightarrow> e AND fNG \<noteq> 0"
  shows "copied U M0 M' e e'"
  using assms by (auto simp: copied_def priv_iff split: if_splits)

lemma wf_tableD:
  assumes "wf_table R c" "i < PAGES_PER_TABLE"
  shows "priv (c i) \<Longrightarrow> c i AND fMASK \<in># R" "present (c i) \<Longrightarrow> c i AND fG = 0 \<Longrightarrow> c i AND fNG \<noteq> 0"
  using assms priv_present by (auto simp: wf_table_def)

section \<open>The loop of \<open>copy_pd\<close>\<close>

text \<open>The new tables occur once among the references \<open>T\<close>.\<close>

definition fresh_once :: "u32 multiset \<Rightarrow> u32 multiset \<Rightarrow> (nat \<Rightarrow> u32) \<Rightarrow> nat \<Rightarrow> bool" where
  "fresh_once R T d n \<longleftrightarrow> (\<forall>j<n. priv (d j) \<longrightarrow> d j AND fMASK \<notin># R \<longrightarrow> count T (d j AND fMASK) = 1)"

lemma fresh_once_add:
  assumes "fresh_once R T d i" "\<And>x. x \<in># X \<Longrightarrow> x \<in># T \<Longrightarrow> x \<in># R"
    and "priv e' \<Longrightarrow> e' AND fMASK \<notin># R \<Longrightarrow> count (X + T) (e' AND fMASK) = 1"
  shows "fresh_once R (X + T) (d(i := e')) (Suc i)"
  unfolding fresh_once_def
proof (intro allI impI)
  fix j
  assume j: "j < Suc i" "priv ((d(i := e')) j)" "(d(i := e')) j AND fMASK \<notin># R"
  show "count (X + T) ((d(i := e')) j AND fMASK) = 1"
  proof (cases "j = i")
    case True
    then show ?thesis using assms(3) j by simp
  next
    case False
    let ?f = "d j AND fMASK"
    have c: "count T ?f = 1" using assms(1) j False by (simp add: fresh_once_def)
    have "?f \<in># T" by (rule count_in) (use c in simp)
    then have "?f \<notin># X" using assms(2) j False by auto
    then show ?thesis using c False by (simp add: not_in_iff)
  qed
qed

definition dcopying ::
  "(u32 \<Rightarrow> nat) \<Rightarrow> u32 set \<Rightarrow> u32 multiset \<Rightarrow> 'a pm_scheme \<Rightarrow> (nat \<Rightarrow> u32) \<Rightarrow> u32 \<Rightarrow> nat \<Rightarrow> 'a pm_scheme \<Rightarrow> bool" where
  "dcopying pend K R m c new i m1 \<longleftrightarrow>
     refs_ok pend K (add_mset new (R + table_refs (mem m1) R (mem m1 new) i)) m1 \<and>
     new \<notin># table_refs (mem m1) R (mem m1 new) i \<and>
     fresh_once R (table_refs (mem m1) R (mem m1 new) i) (mem m1 new) i \<and>
     keeps (set_mset R \<union> K) m m1 \<and>
     (\<forall>j<i. dir_copied (insert new (set_mset R \<union> K)) (mem m) (mem m1) (c j) (mem m1 new j)) \<and>
     (\<forall>j\<ge>i. mem m1 new j = 0)"

lemma dcopying_tables:
  assumes I: "dcopying pend K R m c new i m1" and j: "j < i" "priv (c j)" "c j AND fRW \<noteq> 0"
  defines "t \<equiv> mem m1 new j AND fMASK"
  shows "t \<notin># R" "t \<in># table_refs (mem m1) R (mem m1 new) i"
    "x \<in># priv_refs (mem m1 t) PAGES_PER_TABLE \<Longrightarrow> x \<in># table_refs (mem m1) R (mem m1 new) i"
proof -
  have d: "dir_copied (insert new (set_mset R \<union> K)) (mem m) (mem m1) (c j) (mem m1 new j)"
    using I j by (simp add: dcopying_def)
  have p: "priv (mem m1 new j)" using dir_copied_priv [OF d] j by simp
  show n: "t \<notin># R" using dir_copied_frame [OF d j(2)] j(3) by (auto simp: t_def)
  show "t \<in># table_refs (mem m1) R (mem m1 new) i" unfolding t_def by (rule table_refs_in, rule j(1), rule p)
  show "x \<in># priv_refs (mem m1 t) PAGES_PER_TABLE \<Longrightarrow> x \<in># table_refs (mem m1) R (mem m1 new) i"
    using table_refs_pages [OF j(1), of "mem m1 new" R x "mem m1"] p n unfolding t_def by blast
qed

lemma dcopying_step:
  assumes wd: "wf_dir R (mem m) c" and i: "i < PAGES_PER_TABLE" and new: "new \<notin># R" "new \<notin> K"
    and I: "dcopying pend K R m c new i m1"
    and e: "mem m2 new = (mem m1 new)(i := e')"
    and k: "keeps (set_mset (R + table_refs (mem m1) R (mem m1 new) i) \<union> K) m1 m2"
    and r: "refs_ok pend K (add_mset new (R + table_refs (mem m2) R (mem m2 new) (Suc i))) m2"
    and n: "new \<notin># table_refs (mem m2) R (mem m2 new) (Suc i)"
    and o: "fresh_once R (table_refs (mem m2) R (mem m2 new) (Suc i)) (mem m2 new) (Suc i)"
    and c: "dir_copied (insert new (set_mset R \<union> K)) (mem m) (mem m2) (c i) e'"
  shows "dcopying pend K R m c new (Suc i) m2"
proof -
  let ?U = "insert new (set_mset R \<union> K)" and ?T = "table_refs (mem m1) R (mem m1 new) i"
  have k1: "keeps (set_mset R \<union> K) m m1" using I by (simp add: dcopying_def)
  have "keeps (set_mset R \<union> K) m m2" by (rule keeps_trans [OF k1 k]) auto
  moreover have "dir_copied ?U (mem m) (mem m2) (c j) (mem m2 new j)" if j: "j < Suc i" for j
  proof (cases "j = i")
    case True
    then show ?thesis using c e by simp
  next
    case False
    then have ji: "j < i" using j by simp
    let ?e = "c j" and ?e' = "mem m1 new j"
    let ?t = "?e AND fMASK" and ?t' = "?e' AND fMASK"
    have d: "dir_copied ?U (mem m) (mem m1) ?e ?e'" using I ji by (simp add: dcopying_def)
    have "dir_copied ?U (mem m) (mem m2) ?e ?e'"
    proof (cases "priv ?e \<and> ?e AND fRW \<noteq> 0")
      case False
      then show ?thesis using d by (auto simp: dir_copied_def priv_iff)
    next
      case True
      note ts = dcopying_tables [OF I ji conjunct1 [OF True] conjunct2 [OF True]]
      have t2: "mem m2 ?t' = mem m1 ?t'" using keeps_mem [OF k] ts(2) by simp
      have wt: "wf_table R (mem m ?t)" using wd True ji i by (simp add: wf_dir_def)
      have "copied ?U (mem m) (mem m2) (mem m ?t l) (mem m1 ?t' l)" if l: "l < PAGES_PER_TABLE" for l
      proof -
        have cl: "copied ?U (mem m) (mem m1) (mem m ?t l) (mem m1 ?t' l)"
          using d True l by (auto simp: dir_copied_def priv_iff)
        show ?thesis
        proof (rule copied_later [OF cl])
          assume "priv (mem m ?t l)"
          then have "priv (mem m1 ?t' l)" using copied_priv [OF cl] by simp
          then have "mem m1 ?t' l AND fMASK \<in># priv_refs (mem m1 ?t') PAGES_PER_TABLE" by (rule priv_refs_in [OF l])
          then show "mem m2 (mem m1 ?t' l AND fMASK) = mem m1 (mem m1 ?t' l AND fMASK)"
            using ts(3) keeps_mem [OF k] by simp
        qed (rule wf_tableD(2) [OF wt l])
      qed
      then show ?thesis using d True t2 by (auto simp: dir_copied_def priv_iff)
    qed
    then show ?thesis using e False by simp
  qed
  moreover have "\<forall>j\<ge>Suc i. mem m2 new j = 0" using I e by (simp add: dcopying_def)
  ultimately show ?thesis using r n o by (simp add: dcopying_def)
qed

lemma dcopying_refs:
  assumes I: "dcopying pend K R m c new i m1" and e: "mem m2 new = (mem m1 new)(i := e')"
    and k: "keeps (set_mset (R + table_refs (mem m1) R (mem m1 new) i) \<union> K) m1 m2"
  shows "table_refs (mem m2) R (mem m2 new) (Suc i) =
    (if priv e' then add_mset (e' AND fMASK) ((if e' AND fMASK \<in># R then {#}
        else priv_refs (mem m2 (e' AND fMASK)) PAGES_PER_TABLE) + table_refs (mem m1) R (mem m1 new) i)
     else table_refs (mem m1) R (mem m1 new) i)"
proof -
  have "table_refs (mem m2) R (mem m2 new) i = table_refs (mem m1) R (mem m1 new) i"
  proof (rule table_refs_cong)
    fix j assume j: "j < i" "priv (mem m2 new j)" "mem m2 new j AND fMASK \<notin># R"
    then have "mem m1 new j AND fMASK \<in># table_refs (mem m1) R (mem m1 new) i"
      using table_refs_in [of j i "mem m1 new"] e by simp
    then show "mem m2 (mem m2 new j AND fMASK) = mem m1 (mem m2 new j AND fMASK)"
      using keeps_mem [OF k] e j by simp
  qed (simp add: e)
  then show ?thesis by (simp add: e)
qed


text \<open>No count can overflow while a directory is copied.\<close>

definition few_refs :: "u32 multiset \<Rightarrow> (u32 \<Rightarrow> nat \<Rightarrow> u32) \<Rightarrow> (nat \<Rightarrow> u32) \<Rightarrow> bool" where
  "few_refs R M c \<longleftrightarrow> (\<forall>p\<in>#table_refs M {#} c PAGES_PER_TABLE.
     count R p + count (table_refs M {#} c PAGES_PER_TABLE) p + 1025 < 0xFFFF)"

lemma dcopying_count:
  assumes few: "few_refs R (mem m) c" and wd: "wf_dir R (mem m) c" and i: "i \<le> PAGES_PER_TABLE"
    and I: "dcopying pend K R m c new i m1" and p: "p \<in># table_refs (mem m) {#} c PAGES_PER_TABLE" "p \<in># R"
    and new: "new \<notin># R"
  shows "count (add_mset new (R + table_refs (mem m1) R (mem m1 new) i)) p + 1024 < 0xFFFF"
proof -
  have "count (table_refs (mem m1) R (mem m1 new) i) p \<le> count (table_refs (mem m) {#} c i) p"
    by (rule dir_copied_count [where U = "insert new (set_mset R \<union> K)"])
      (use I wd p i in \<open>auto simp: dcopying_def wf_dir_def\<close>)
  also have "\<dots> \<le> count (table_refs (mem m) {#} c PAGES_PER_TABLE) p"
    using table_refs_mono [OF i, of "mem m" "{#}" c] unfolding subseteq_mset_def by blast
  finally have "count (table_refs (mem m1) R (mem m1 new) i) p \<le> count (table_refs (mem m) {#} c PAGES_PER_TABLE) p" .
  moreover have "count R p + count (table_refs (mem m) {#} c PAGES_PER_TABLE) p + 1025 < 0xFFFF"
    using few p(1) unfolding few_refs_def by blast
  moreover have "p \<noteq> new" using p(2) new by auto
  ultimately show ?thesis by simp
qed

lemma copy_pde_step:
  assumes wd: "wf_dir R (mem m) (mem m pd)" and i: "i < PAGES_PER_TABLE" and new: "new \<notin># R" "new \<notin> K"
    and pd: "pd \<in># R \<or> pd \<in> K" and few: "few_refs R (mem m) (mem m pd)"
    and I: "dcopying pend K R m (mem m pd) new i m1"
  shows "outcome {oom} (dcopying pend K R m (mem m pd) new (Suc i)) (copy_pde pd new i m1)"
proof -
  let ?c = "mem m pd" let ?e = "?c i" let ?t = "?e AND fMASK"
  let ?T = "table_refs (mem m1) R (mem m1 new) i" let ?cur = "add_mset new (R + ?T)"
  let ?U = "insert new (set_mset R \<union> K)"
  have r1: "refs_ok pend K ?cur m1" and k1: "keeps (set_mset R \<union> K) m m1" and nT: "new \<notin># ?T"
    and fo: "fresh_once R ?T (mem m1 new) i" and z: "mem m1 new i = 0" using I by (simp_all add: dcopying_def)
  have e1: "mem m1 pd i = ?e" using keeps_mem [OF k1] pd by auto
  have tR: "priv ?e \<Longrightarrow> ?t \<in># R" using wd i by (simp add: wf_dir_def)
  have inT: "priv ?e \<Longrightarrow> ?t \<in># table_refs (mem m) {#} ?c PAGES_PER_TABLE" by (rule table_refs_in [OF i])
  have keepw: "keeps (set_mset (R + ?T) \<union> K) m1 (write_word new i e m1)" for e
    unfolding write_word_def by (rule keeps_write) (use new nT in auto)
  have memw: "mem (write_word new i e m1) new = (mem m1 new)(i := e)" for e by (simp add: write_word_def)
  note step = dcopying_step [OF wd i new I] and refs = dcopying_refs [OF I]
  consider (absent) "\<not> present ?e" | (global) "present ?e" "?e AND fNG = 0"
    | (ro) "present ?e" "?e AND fNG \<noteq> 0" "?e AND fRW = 0" | (rw) "present ?e" "?e AND fNG \<noteq> 0" "?e AND fRW \<noteq> 0"
    by blast
  then show ?thesis
  proof cases
    case absent
    have me: "mem m1 new = (mem m1 new)(i := 0)" using z by auto
    have "fresh_once R ?T (mem m1 new) (Suc i)"
      using fresh_once_add [OF fo, of "{#}" 0] z by (simp add: priv_iff present_def fun_upd_idem)
    then have "dcopying pend K R m ?c new (Suc i) m1"
      by (intro step [OF me]) (use r1 z nT absent in \<open>auto simp: dir_copied_def priv_iff present_def\<close>)
    then show ?thesis using absent by (simp add: copy_pde_def e1 present_def Let_def)
  next
    case global
    let ?m2 = "write_word new i ?e m1"
    have np: "\<not> priv ?e" using global by (simp add: priv_iff)
    note rf = refs [OF memw [of ?e] keepw, unfolded if_not_P [OF np]]
    have "dcopying pend K R m ?c new (Suc i) ?m2"
    proof (rule step [OF memw keepw])
      show "refs_ok pend K (add_mset new (R + table_refs (mem ?m2) R (mem ?m2 new) (Suc i))) ?m2"
        unfolding rf by (rule refs_ok_write_word [OF r1]) simp
      show "new \<notin># table_refs (mem ?m2) R (mem ?m2 new) (Suc i)" unfolding rf by (rule nT)
      show "fresh_once R (table_refs (mem ?m2) R (mem ?m2 new) (Suc i)) (mem ?m2 new) (Suc i)"
        unfolding rf unfolding memw using fresh_once_add [OF fo, of "{#}" ?e] np by simp
    qed (use global in \<open>simp add: dir_copied_def\<close>)
    then show ?thesis using global by (simp add: copy_pde_def e1 present_def Let_def)
  next
    case ro
    let ?m2 = "write_word new i ?e m1"
    have p: "priv ?e" using ro by (simp add: priv_iff)
    have tn: "?t \<noteq> new" using tR [OF p] new by auto
    have r2: "refs_ok pend K ?cur ?m2" by (rule refs_ok_write_word [OF r1]) simp
    have "count ?cur ?t < 0xFFFF"
      using dcopying_count [OF few wd _ I inT [OF p] tR [OF p] new(1)] i by simp
    from refs_ok_incref [OF r2 _ this] tR [OF p]
    have "outcome {oom} (\<lambda>m3. refs_ok pend K (add_mset ?t ?cur) m3 \<and> keeps (set_mset ?cur \<union> K) ?m2 m3) (incref ?t ?m2)"
      by simp
    then have "outcome {oom} (dcopying pend K R m ?c new (Suc i)) (incref ?t ?m2)"
    proof (rule outcome_mono)
      fix m3
      assume m3: "refs_ok pend K (add_mset ?t ?cur) m3 \<and> keeps (set_mset ?cur \<union> K) ?m2 m3"
      have me: "mem m3 new = (mem m1 new)(i := ?e)"
        using keeps_mem [OF conjunct2 [OF m3], of new] by (simp add: write_word_def)
      have k3: "keeps (set_mset (R + ?T) \<union> K) m1 m3"
        by (rule keeps_trans [OF keepw conjunct2 [OF m3]]) auto
      have rf: "table_refs (mem m3) R (mem m3 new) (Suc i) = add_mset ?t ?T"
        using refs [OF me k3] p tR [OF p] by simp
      show "dcopying pend K R m ?c new (Suc i) m3"
      proof (rule step [OF me k3])
        show "refs_ok pend K (add_mset new (R + table_refs (mem m3) R (mem m3 new) (Suc i))) m3"
          unfolding rf using m3 by (simp add: add_mset_commute)
        show "new \<notin># table_refs (mem m3) R (mem m3 new) (Suc i)" unfolding rf using nT tn by simp
        show "fresh_once R (table_refs (mem m3) R (mem m3 new) (Suc i)) (mem m3 new) (Suc i)"
          unfolding rf unfolding me using fresh_once_add [OF fo, of "{#?t#}" ?e] tR [OF p] by simp
      qed (use ro in \<open>simp add: dir_copied_def\<close>)
    qed
    then show ?thesis using ro by (simp add: copy_pde_def e1 present_def Let_def)
  next
    case rw
    have p: "priv ?e" using rw by (simp add: priv_iff)
    have t1: "mem m1 ?t = mem m ?t" using keeps_mem [OF k1] tR [OF p] by simp
    have wt: "wf_table R (mem m ?t)" using wd i p rw by (simp add: wf_dir_def)
    have wt1: "wf_table ?cur (mem m1 ?t)"
      unfolding t1 by (rule wf_table_mono [OF wt]) (simp add: subset_mset.add_increasing2 subseteq_mset_def)
    have few1: "count ?cur q + 1024 < 0xFFFF" if "q \<in># priv_refs (mem m1 ?t) PAGES_PER_TABLE" for q
    proof (rule dcopying_count [OF few wd _ I _ _ new(1)])
      have q: "q \<in># priv_refs (mem m ?t) PAGES_PER_TABLE" using that t1 by simp
      show "q \<in># table_refs (mem m) {#} ?c PAGES_PER_TABLE"
        by (rule table_refs_pages [where c = ?c, OF i p]) (use q in simp_all)
      show "q \<in># R" using priv_refs_memD [OF q] wf_tableD(1) [OF wt] by auto
    qed (use i in simp)
    have run: "copy_pde pd new i m1 = bindE (copy_pt ?t m1) (\<lambda>(m2, pt). Inr (write_word new i (pt OR (?e AND 0xFFF)) m2))"
      using rw by (simp add: copy_pde_def e1 present_def Let_def)
    have tc: "?t \<in># ?cur \<or> ?t \<in> K" using tR [OF p] by simp
    show ?thesis
      unfolding run
    proof (rule outcome_bind [OF copy_pt_refs [OF r1 tc wt1 few1]])
      fix x :: "'a pm_scheme \<times> u32"
      obtain m2 t' where x: "x = (m2, t')" by (cases x)
      assume "case x of (m', t') \<Rightarrow> t' \<notin># ?cur \<and> t' \<notin> K \<and> offset t' = 0 \<and>
        copying pend K ?cur m1 (mem m1 ?t) t' PAGES_PER_TABLE m'"
      then have a: "t' \<notin># ?cur" "t' \<notin> K" "offset t' = 0" "copying pend K ?cur m1 (mem m1 ?t) t' PAGES_PER_TABLE m2"
        by (simp_all add: x)
      let ?e' = "t' OR (?e AND 0xFFF)"
      let ?m3 = "write_word new i ?e' m2"
      note j = join_entry [OF a(3), where x = ?e]
      have k2: "keeps (set_mset ?cur \<union> K) m1 m2" and r2: "refs_ok pend K (add_mset t' (?cur + priv_refs (mem m2 t') PAGES_PER_TABLE)) m2"
        using a(4) by (simp_all add: copying_def)
      have tn: "t' \<noteq> new" "t' \<notin># R" using a(1) by auto
      have me: "mem ?m3 new = (mem m1 new)(i := ?e')" using keeps_mem [OF k2, of new] by (simp add: write_word_def)
      have mt: "mem ?m3 t' = mem m2 t'" using tn by (simp add: write_word_def)
      have nw: "keeps (set_mset (R + ?T) \<union> K) m2 ?m3"
        unfolding write_word_def by (rule keeps_write) (use new nT in auto)
      have k3: "keeps (set_mset (R + ?T) \<union> K) m1 ?m3" by (rule keeps_trans [OF k2 nw]) auto
      have pv: "priv ?e'" using p low_bits(2) [OF j(2)] by simp
      have rf: "table_refs (mem ?m3) R (mem ?m3 new) (Suc i) = add_mset t' (priv_refs (mem m2 t') PAGES_PER_TABLE + ?T)"
        using refs [OF me k3] pv tn(2) mt j(1) by simp
      have cp: "\<forall>l<PAGES_PER_TABLE. copied (insert t' (set_mset ?cur \<union> K)) (mem m1) (mem m2) (mem m1 ?t l) (mem m2 t' l)"
        using a(4) by (simp add: copying_def)
      have np: "new \<notin># priv_refs (mem m2 t') PAGES_PER_TABLE"
      proof
        assume "new \<in># priv_refs (mem m2 t') PAGES_PER_TABLE"
        then have c0: "0 < count (priv_refs (mem m2 t') PAGES_PER_TABLE) new" by simp
        have "count (priv_refs (mem m2 t') PAGES_PER_TABLE) new \<le> count (priv_refs (mem m1 ?t) PAGES_PER_TABLE) new"
          by (rule copied_count [where U = "insert t' (set_mset ?cur \<union> K)"]) (use cp in auto)
        with c0 have "0 < count (priv_refs (mem m ?t) PAGES_PER_TABLE) new" unfolding t1 by linarith
        then have "new \<in># priv_refs (mem m ?t) PAGES_PER_TABLE" by (rule count_in)
        then show False using priv_refs_memD [of new] wf_tableD(1) [OF wt] new(1) by blast
      qed
      have "dcopying pend K R m ?c new (Suc i) ?m3"
      proof (rule step [OF me k3])
        have "refs_ok pend K (add_mset t' (?cur + priv_refs (mem m2 t') PAGES_PER_TABLE)) ?m3"
          by (rule refs_ok_write_word [OF r2]) simp
        then show "refs_ok pend K (add_mset new (R + table_refs (mem ?m3) R (mem ?m3 new) (Suc i))) ?m3"
          unfolding rf by (simp add: add_mset_commute ac_simps)
        show "new \<notin># table_refs (mem ?m3) R (mem ?m3 new) (Suc i)" unfolding rf using nT np tn by simp
        have cp0: "count (priv_refs (mem m2 t') PAGES_PER_TABLE) x \<le> count (priv_refs (mem m ?t) PAGES_PER_TABLE) x"
          if "x \<in> insert t' (set_mset ?cur \<union> K)" for x
          unfolding t1 [symmetric] by (rule copied_count [OF _ that]) (use cp in blast)
        have pages: "x \<in># R" if x: "x \<in># priv_refs (mem m2 t') PAGES_PER_TABLE" "x \<in> insert t' (set_mset ?cur \<union> K)" for x
        proof -
          have "0 < count (priv_refs (mem m2 t') PAGES_PER_TABLE) x" using x(1) by simp
          then have "0 < count (priv_refs (mem m ?t) PAGES_PER_TABLE) x" using cp0 [OF x(2)] by linarith
          then have "x \<in># priv_refs (mem m ?t) PAGES_PER_TABLE" by (rule count_in)
          then show ?thesis using priv_refs_memD [of x] wf_tableD(1) [OF wt] by blast
        qed
        show "fresh_once R (table_refs (mem ?m3) R (mem ?m3 new) (Suc i)) (mem ?m3 new) (Suc i)"
        proof -
          have "t' \<notin># priv_refs (mem m2 t') PAGES_PER_TABLE" using pages tn by blast
          then have one: "count (add_mset t' (priv_refs (mem m2 t') PAGES_PER_TABLE) + ?T) t' = 1"
            using a(1) by (simp add: not_in_iff)
          have "fresh_once R (add_mset t' (priv_refs (mem m2 t') PAGES_PER_TABLE) + ?T) ((mem m1 new)(i := ?e')) (Suc i)"
          proof (rule fresh_once_add [OF fo])
            fix x assume x: "x \<in># add_mset t' (priv_refs (mem m2 t') PAGES_PER_TABLE)" "x \<in># ?T"
            then have "x \<noteq> t'" using a(1) by auto
            then show "x \<in># R" using x pages by auto
          qed (use one j(1) in simp)
          then show ?thesis unfolding rf unfolding me by simp
        qed
        have "copied ?U (mem m) (mem ?m3) (mem m ?t l) (mem ?m3 t' l)" if l: "l < PAGES_PER_TABLE" for l
        proof -
          have c1: "copied (insert t' (set_mset ?cur \<union> K)) (mem m1) (mem m2) (mem m ?t l) (mem m2 t' l)"
            using cp l t1 by simp
          have c2: "copied ?U (mem m1) (mem m2) (mem m ?t l) (mem m2 t' l)"
            by (rule copied_weaken [OF c1]) auto
          have c3: "copied ?U (mem m) (mem m2) (mem m ?t l) (mem m2 t' l)"
            by (rule copied_source [OF c2]) (use wf_tableD [OF wt l] keeps_mem [OF k1] in auto)
          have "copied ?U (mem m) (mem ?m3) (mem m ?t l) (mem m2 t' l)"
          proof (rule copied_later [OF c3])
            assume "priv (mem m ?t l)"
            then have "priv (mem m2 t' l)" using copied_priv [OF c3] by simp
            then have "mem m2 t' l AND fMASK \<in># priv_refs (mem m2 t') PAGES_PER_TABLE" by (rule priv_refs_in [OF l])
            then have "mem m2 t' l AND fMASK \<noteq> new" using np by auto
            then show "mem ?m3 (mem m2 t' l AND fMASK) = mem m2 (mem m2 t' l AND fMASK)" by (simp add: write_word_def)
          qed (rule wf_tableD(2) [OF wt l])
          then show ?thesis using mt by simp
        qed
        then show "dir_copied ?U (mem m) (mem ?m3) ?e ?e'"
          using rw j(1,2) tn a(2) by (simp add: dir_copied_def)
      qed
      then show "outcome {oom} (dcopying pend K R m ?c new (Suc i))
        (case x of (m2, pt) \<Rightarrow> Inr (write_word new i (pt OR (?e AND 0xFFF)) m2))"
        by (simp add: x)
    qed
  qed
qed

lemma copy_pd_refs:
  assumes r: "refs_ok pend K R m" and pd: "pd \<in># R \<or> pd \<in> K" and wd: "wf_dir R (mem m) (mem m pd)"
    and few: "few_refs R (mem m) (mem m pd)"
  shows "outcome {oom} (\<lambda>(m', new). new \<notin># R \<and> new \<notin> K \<and> offset new = 0 \<and> new \<noteq> 0 \<and>
     dcopying pend K R m (mem m pd) new PAGES_PER_TABLE m') (copy_pd pd m)"
  unfolding copy_pd_def
proof (rule outcome_bind [OF refs_ok_alloc [OF r]])
  fix x :: "'a pm_scheme \<times> u32"
  obtain m1 new where x: "x = (m1, new)" by (cases x)
  assume "case x of (m', p) \<Rightarrow> p \<notin># R \<and> p \<notin> K \<and> refs_ok pend K (add_mset p R) m' \<and>
     mem m' p = (\<lambda>_. 0) \<and> keeps (set_mset R \<union> K) m m' \<and> offset p = 0 \<and> p \<noteq> 0 \<and> start m \<le> p \<and> p < limit m"
  then have a: "new \<notin># R" "new \<notin> K" "refs_ok pend K (add_mset new R) m1" "mem m1 new = (\<lambda>_. 0)"
    "keeps (set_mset R \<union> K) m m1" "offset new = 0" "new \<noteq> 0" by (simp_all add: x)
  have "outcome {oom} (dcopying pend K R m (mem m pd) new PAGES_PER_TABLE)
     (forE (copy_pde pd new) [0..<PAGES_PER_TABLE] m1)"
  proof (rule outcome_upt)
    show "dcopying pend K R m (mem m pd) new 0 m1" using a by (simp add: dcopying_def fresh_once_def)
  qed (rule copy_pde_step [OF wd _ a(1,2) pd few])
  then show "outcome {oom} (\<lambda>(m', new). new \<notin># R \<and> new \<notin> K \<and> offset new = 0 \<and> new \<noteq> 0 \<and>
     dcopying pend K R m (mem m pd) new PAGES_PER_TABLE m')
     (case x of (m, new_pd) \<Rightarrow> bindE (forE (copy_pde pd new_pd) [0..<PAGES_PER_TABLE] m) (\<lambda>m. Inr (m, new_pd)))"
    using a by (auto simp: x intro: outcome_bind)
qed

end
