(* ===== verification/VMM_Props.thy ===== *)
theory VMM_Props
  imports VMM_Fork
begin

text \<open>What the virtual memory code promises about whole address spaces.\<close>

section \<open>The view of an address space\<close>

text \<open>
  The private page at \<open>va\<close>: its contents, the flags of its entry and of the directory entry.
\<close>

definition user_page :: "'a pm_scheme \<Rightarrow> u32 \<Rightarrow> u32 \<Rightarrow> ((nat \<Rightarrow> u32) \<times> u32 \<times> u32) option" where
  "user_page m pd va =
     (let pde = mem m pd (pdi_of va); pte = mem m (pde AND fMASK) (pti_of va) in
      if priv pde \<and> priv pte then Some (mem m (pte AND fMASK), pte AND 0xFFF, pde AND 0xFFF) else None)"

definition user_frame :: "'a pm_scheme \<Rightarrow> u32 \<Rightarrow> u32 \<Rightarrow> u32" where
  "user_frame m pd va = mem m (mem m pd (pdi_of va) AND fMASK) (pti_of va) AND fMASK"

definition user_writable :: "'a pm_scheme \<Rightarrow> u32 \<Rightarrow> u32 \<Rightarrow> bool" where
  "user_writable m pd va \<longleftrightarrow>
     (case user_page m pd va of None \<Rightarrow> False | Some (_, pte, pde) \<Rightarrow> pte AND fRW \<noteq> 0 \<and> pde AND fRW \<noteq> 0)"

lemma pdi_bound: "pdi_of va < PAGES_PER_TABLE"
proof -
  have "drop_bit 22 va = va div 2 ^ 22" by (simp add: drop_bit_eq_div)
  then have "unat (drop_bit 22 va) = unat va div 2 ^ 22" by (simp add: unat_div)
  moreover have "unat va < 2 ^ 32" using unsigned_less [of va] by simp
  ultimately show ?thesis by (simp add: pdi_of_def PAGES_PER_TABLE_def less_mult_imp_div_less)
qed

lemma pti_bound: "pti_of va < PAGES_PER_TABLE"
proof -
  have "(0x3ff :: u32) = mask 10" by (simp add: mask_eq_exp_minus_1)
  then have "drop_bit 12 va AND 0x3ff = take_bit 10 (drop_bit 12 va)" by (simp add: take_bit_eq_mask)
  then have "pti_of va = take_bit 10 (unat (drop_bit 12 va))"
    by (simp only: pti_of_def unsigned_take_bit_eq)
  then show ?thesis by (simp add: take_bit_eq_mod PAGES_PER_TABLE_def)
qed

lemma dir_copied_view:
  assumes d: "dir_copied U (mem m) (mem m') (mem m pd (pdi_of va)) (mem m' new (pdi_of va))"
    and U: "set_mset R \<subseteq> U" and wd: "wf_dir R (mem m) (mem m pd)"
    and k: "\<And>q. q \<in># R \<Longrightarrow> mem m' q = mem m q"
  shows "user_page m' new va = user_page m pd va"
    "user_writable m pd va \<Longrightarrow> user_frame m' new va \<notin> U"
proof -
  let ?e = "mem m pd (pdi_of va)" and ?e' = "mem m' new (pdi_of va)"
  let ?l = "pti_of va"
  let ?p = "mem m (?e AND fMASK) ?l" and ?p' = "mem m' (?e' AND fMASK) ?l"
  have pr: "priv ?e' \<longleftrightarrow> priv ?e" by (rule dir_copied_priv [OF d])
  have wf: "?e AND fMASK \<in># R" "wf_table R (mem m (?e AND fMASK))" if "priv ?e"
    using wd pdi_bound that by (auto simp: wf_dir_def)
  have page: "?p AND fMASK \<in># R" if "priv ?e" "priv ?p"
    using wf_tableD(1) [OF wf(2) [OF that(1)] pti_bound that(2)] .
  have fl: "?e' AND 0xFFF = ?e AND 0xFFF" if "priv ?e"
    using d priv_present [OF that] by (auto simp: dir_copied_def split: if_splits)
  have ro: "?p' = ?p" if "priv ?e" "?e AND fRW = 0"
    using dir_copied_frame [OF d that(1)] that wf(1) k by auto
  have rw: "copied U (mem m) (mem m') ?p ?p'" if "priv ?e" "?e AND fRW \<noteq> 0"
    using d that pti_bound [of va] by (auto simp: dir_copied_def priv_iff)
  have same: "priv ?p' = priv ?p \<and> (priv ?p \<longrightarrow> mem m' (?p' AND fMASK) = mem m (?p AND fMASK) \<and>
      ?p' AND 0xFFF = ?p AND 0xFFF)" if p: "priv ?e"
  proof (cases "?e AND fRW = 0")
    case True
    then show ?thesis using ro [OF p True] page [OF p] k by simp
  next
    case False
    note c = rw [OF p False]
    have "priv ?p' = priv ?p" by (rule copied_priv [OF c])
    moreover have "priv ?p \<Longrightarrow> ?p' AND 0xFFF = ?p AND 0xFFF" using copied_flags [OF c priv_present] .
    moreover have "priv ?p \<Longrightarrow> mem m' (?p' AND fMASK) = mem m (?p AND fMASK)"
      using c priv_present page [OF p] k by (auto simp: copied_def split: if_splits)
    ultimately show ?thesis by blast
  qed
  show "user_page m' new va = user_page m pd va"
    using pr same fl by (cases "priv ?e") (simp_all add: user_page_def Let_def)
  assume w: "user_writable m pd va"
  then have pe: "priv ?e" "priv ?p" and ww: "(?p AND 0xFFF) AND fRW \<noteq> 0" "(?e AND 0xFFF) AND fRW \<noteq> 0"
    by (auto simp: user_writable_def user_page_def Let_def split: if_splits)
  have ww': "?p AND fRW \<noteq> 0" "?e AND fRW \<noteq> 0"
    using ww low_bits(4) [of "?p AND 0xFFF" ?p] low_bits(4) [of "?e AND 0xFFF" ?e] by (simp_all add: and.assoc)
  have "?p AND fG = 0"
    using wf(2) [OF pe(1)] pti_bound [of va] pe(2) by (auto simp: wf_table_def priv_iff)
  then show "user_frame m' new va \<notin> U"
    using rw [OF pe(1) ww'(2)] ww'(1) priv_present [OF pe(2)] by (simp add: copied_def user_frame_def)
qed

section \<open>A small address space\<close>

text \<open>One private writable table at 0x101000 with one private writable page at 0x102000.\<close>

definition demo :: vm where
  "demo = \<lparr>mem = (\<lambda>_ _. 0)(0x100000 := (\<lambda>_. 0)(512 := 0x101407), 0x101000 := (\<lambda>_. 0)(0 := 0x102407),
       0x102000 := (\<lambda>_. 42), 0x103000 := (\<lambda>_. 0)(0 := 0x10001, 1 := 1)),
     firstFree = 0, pavail = 0x104000, limit = 0x200000, start = 0x100000,
     refs = (\<lambda>_. 0)(0 := 0x103003), kpd = 0x1000, cr3 = 0x1000\<rparr>"

abbreviation demo_refs :: "u32 multiset" where
  "demo_refs \<equiv> {#0x100000, 0x101000, 0x102000#}"

lemma demo_get16: "get16 (mem demo 0x103000) k = (if k < 3 then 1 else 0)"
proof -
  have "k < 3 \<Longrightarrow> k = 0 \<or> k = 1 \<or> k = 2" by auto
  moreover have "get16 (mem demo 0x103000) 0 = 1" "get16 (mem demo 0x103000) 1 = 1" "get16 (mem demo 0x103000) 2 = 1"
    by (simp_all add: get16_def demo_def)
  moreover have "get16 (mem demo 0x103000) k = 0" if "\<not> k < 3"
  proof -
    have "k div 2 \<noteq> 0 \<and> (k div 2 = 1 \<longrightarrow> k mod 2 = 1)" using that by presburger
    then show ?thesis by (auto simp: get16_def demo_def)
  qed
  ultimately show ?thesis by auto
qed

lemma demo_managed: "managed demo q \<longleftrightarrow> q = 0x100000 \<or> q = 0x101000 \<or> q = 0x102000 \<or> q = 0x103000"
proof
  assume "managed demo q"
  then have a: "4096 dvd uint q" "uint (0x100000 :: u32) \<le> uint q" "uint q < uint (0x104000 :: u32)"
    by (simp_all add: managed_def offset_dvd demo_def word_le_def word_less_def)
  then obtain k where k: "uint q = 4096 * k" by (auto elim!: dvdE)
  then have "k = 256 \<or> k = 257 \<or> k = 258 \<or> k = 259" using a by auto
  then show "q = 0x100000 \<or> q = 0x101000 \<or> q = 0x102000 \<or> q = 0x103000"
    using k by (auto simp: word_uint_eq_iff)
qed (auto simp: managed_def offset_def demo_def)

lemma demo_slots:
  "ridx demo 0x100000 = 0" "ridx demo 0x101000 = 0" "ridx demo 0x102000 = 0"
  "rofs demo 0x100000 = 0" "rofs demo 0x101000 = 1" "rofs demo 0x102000 = 2"
  by (simp_all add: ridx_def rofs_def ref_index_def demo_def)

lemma demo_holds: "holds {} demo_refs demo"
proof -
  have us: "used demo i \<longleftrightarrow> i = 0" for i by (simp add: used_def demo_def)
  have tb: "tbl demo 0 = 0x103000" by (simp add: tbl_def demo_def)
  have "nonzero_counts demo 0 = {..<3}"
    unfolding nonzero_counts_def tb by (auto simp: demo_get16 split: if_splits)
  then have nz: "card (nonzero_counts demo 0) = 3" by simp
  have f: "firstFree demo = 0" "start demo = 0x100000" "pavail demo = 0x104000" "limit demo = 0x200000"
    "refs demo 0 = 0x103003"
    by (simp_all add: demo_def)
  have wf: "pm_wf (\<lambda>_. 0) [] demo"
    unfolding pm_wf_def using nz by (simp add: f us tb demo_managed offset_def word_le_def)
  have ow: "owned [] demo q \<longleftrightarrow> q \<in># demo_refs \<or> q \<in> {}" for q
    unfolding owned_def us demo_managed using tb by auto
  have rc: "refcount demo q = count demo_refs q" if q: "offset q = 0" for q
  proof -
    have st: "offset (start demo) = 0" by (simp add: f offset_def)
    have slot: "q = 0x100000 \<or> q = 0x101000 \<or> q = 0x102000" if "ridx demo q = 0" "rofs demo q < 3"
    proof -
      have "rofs demo q = 0 \<or> rofs demo q = 1 \<or> rofs demo q = 2" using that by auto
      then show ?thesis
        using ref_slot_inj [OF q _ st] that(1) demo_slots by (auto simp: offset_def)
    qed
    show ?thesis
      using slot demo_slots by (auto simp: refcount_def us tb demo_get16)
  qed
  show ?thesis
    unfolding refs_ok_def using wf ow rc by (intro exI [of _ "[]"]) simp
qed

lemma demo_priv: "priv 0x101407" "priv 0x102407" "\<not> priv 0"
  by (simp_all add: priv_def flag_defs)

lemma demo_entries:
  "priv (mem demo 0x100000 i) \<longleftrightarrow> i = 512" "priv (mem demo 0x101000 i) \<longleftrightarrow> i = 0"
  "mem demo 0x100000 512 AND fMASK = 0x101000" "mem demo 0x101000 0 AND fMASK = 0x102000"
  "present (mem demo 0x101000 i) \<longleftrightarrow> i = 0"
  using demo_priv by (simp_all add: demo_def fMASK_def present_def fP_def)

lemma demo_page_refs: "priv_refs (mem demo 0x101000) n = (if 0 < n then {#0x102000#} else {#})"
  by (induction n) (auto simp: demo_entries)

lemma demo_table_refs:
  "0x101000 \<notin># R0 \<Longrightarrow> table_refs (mem demo) R0 (mem demo 0x100000) n = (if 512 < n then {#0x101000, 0x102000#} else {#})"
  by (induction n) (auto simp: demo_entries demo_page_refs PAGES_PER_TABLE_def less_Suc_eq)

lemma demo_wf_dir: "wf_dir demo_refs (mem demo) (mem demo 0x100000)"
  by (auto simp: wf_dir_def wf_table_def demo_entries) (simp_all add: demo_def fG_def fNG_def)

lemma demo_few: "few_refs demo_refs (mem demo) (mem demo 0x100000)"
  unfolding few_refs_def by (simp add: demo_table_refs PAGES_PER_TABLE_def)

section \<open>Properties\<close>

text \<open>
  \<open>copy_pd\<close> makes an equal address space. Unless frames run out, it returns a directory nobody
  holds; the counts of all frames equal the references from before plus those that the new
  directory and its new tables hold; no frame that was in use has changed; and at every address the
  new space has the same private page, with the same contents and flags, as the old one.
\<close>

theorem copy_pd_contract:
  assumes "holds K R m" and "pd \<in># R \<or> pd \<in> K"
    and "wf_dir R (mem m) (mem m pd)" and "few_refs R (mem m) (mem m pd)"
  shows "outcome {oom} (\<lambda>(m', new). new \<notin># R \<and> new \<notin> K \<and> new \<noteq> 0 \<and>
      holds K (add_mset new (R + table_refs (mem m') R (mem m' new) PAGES_PER_TABLE)) m' \<and>
      keeps (set_mset R \<union> K) m m' \<and> (\<forall>va. user_page m' new va = user_page m pd va)) (copy_pd pd m)"
proof (rule outcome_mono [OF copy_pd_refs [OF assms]])
  fix x :: "'a pm_scheme \<times> u32"
  obtain m' new where x: "x = (m', new)" by (cases x)
  assume "case x of (m', new) \<Rightarrow> new \<notin># R \<and> new \<notin> K \<and> offset new = 0 \<and> new \<noteq> 0 \<and>
    dcopying (\<lambda>_. 0) K R m (mem m pd) new PAGES_PER_TABLE m'"
  then have a: "new \<notin># R" "new \<notin> K" "new \<noteq> 0" "dcopying (\<lambda>_. 0) K R m (mem m pd) new PAGES_PER_TABLE m'"
    by (simp_all add: x)
  then have b: "keeps (set_mset R \<union> K) m m'"
    "\<And>j. j < PAGES_PER_TABLE \<Longrightarrow> dir_copied (insert new (set_mset R \<union> K)) (mem m) (mem m') (mem m pd j) (mem m' new j)"
    by (simp_all add: dcopying_def)
  have "user_page m' new va = user_page m pd va" for va
    by (rule dir_copied_view(1) [OF b(2) [OF pdi_bound] _ assms(3)]) (use keeps_mem [OF b(1)] in auto)
  then show "case x of (m', new) \<Rightarrow> new \<notin># R \<and> new \<notin> K \<and> new \<noteq> 0 \<and>
      holds K (add_mset new (R + table_refs (mem m') R (mem m' new) PAGES_PER_TABLE)) m' \<and>
      keeps (set_mset R \<union> K) m m' \<and> (\<forall>va. user_page m' new va = user_page m pd va)"
    using a by (simp add: x dcopying_def)
qed

theorem copy_pd_contract_witness:
  "outcome {oom} (\<lambda>(m', new). user_page m' new 0x80000000 = Some (\<lambda>_. 42, 0x407, 0x407)) (copy_pd 0x100000 demo)"
proof -
  have "user_page demo 0x100000 0x80000000 = Some (\<lambda>_. 42, 0x407, 0x407)"
    using demo_priv by (simp add: user_page_def Let_def pdi_of_def pti_of_def demo_def fMASK_def)
  then show ?thesis
    by (intro outcome_mono [OF copy_pd_contract [OF demo_holds _ demo_wf_dir demo_few]]) auto
qed


text \<open>
  C8. A copied address space is isolated: wherever the old space may write a private page, the new space
  has a frame that was not in use before, so no store through either reaches the other.
\<close>

theorem copy_pd_isolated:
  assumes "holds K R m" and "pd \<in># R \<or> pd \<in> K"
    and "wf_dir R (mem m) (mem m pd)" and "few_refs R (mem m) (mem m pd)"
    and "user_writable m pd va"
  shows "outcome {oom} (\<lambda>(m', new). user_frame m' new va \<notin> set_mset R \<union> K \<and>
      user_frame m' new va \<noteq> user_frame m pd va \<and> user_frame m' new va \<noteq> new) (copy_pd pd m)"
proof (rule outcome_mono [OF copy_pd_refs [OF assms(1-4)]])
  fix x :: "'a pm_scheme \<times> u32"
  obtain m' new where x: "x = (m', new)" by (cases x)
  assume "case x of (m', new) \<Rightarrow> new \<notin># R \<and> new \<notin> K \<and> offset new = 0 \<and> new \<noteq> 0 \<and>
    dcopying (\<lambda>_. 0) K R m (mem m pd) new PAGES_PER_TABLE m'"
  then have b: "keeps (set_mset R \<union> K) m m'"
    "\<And>j. j < PAGES_PER_TABLE \<Longrightarrow> dir_copied (insert new (set_mset R \<union> K)) (mem m) (mem m') (mem m pd j) (mem m' new j)"
    by (simp_all add: x dcopying_def)
  have "user_frame m' new va \<notin> insert new (set_mset R \<union> K)"
    by (rule dir_copied_view(2) [OF b(2) [OF pdi_bound] _ assms(3) _ assms(5)]) (use keeps_mem [OF b(1)] in auto)
  moreover have "user_frame m pd va \<in># R"
  proof -
    have p: "priv (mem m pd (pdi_of va))" "priv (mem m (mem m pd (pdi_of va) AND fMASK) (pti_of va))"
      using assms(5) by (auto simp: user_writable_def user_page_def Let_def split: if_splits)
    have "wf_table R (mem m (mem m pd (pdi_of va) AND fMASK))"
      using assms(3) p(1) pdi_bound by (auto simp: wf_dir_def)
    from wf_tableD(1) [OF this pti_bound p(2)] show ?thesis by (simp add: user_frame_def)
  qed
  ultimately show "case x of (m', new) \<Rightarrow> user_frame m' new va \<notin> set_mset R \<union> K \<and>
      user_frame m' new va \<noteq> user_frame m pd va \<and> user_frame m' new va \<noteq> new"
    by (auto simp: x)
qed

theorem copy_pd_isolated_witness:
  "outcome {oom} (\<lambda>(m', new). user_frame m' new 0x80000000 \<noteq> 0x102000) (copy_pd 0x100000 demo)"
proof -
  have "user_writable demo 0x100000 0x80000000"
    using demo_priv by (simp add: user_writable_def user_page_def Let_def pdi_of_def pti_of_def demo_def flag_defs)
  moreover have "user_frame demo 0x100000 0x80000000 = 0x102000"
    by (simp add: user_frame_def pdi_of_def pti_of_def demo_def fMASK_def)
  ultimately show ?thesis
    by (intro outcome_mono [OF copy_pd_isolated [OF demo_holds _ demo_wf_dir demo_few]]) auto
qed

text \<open>
  \<open>destroy_pd\<close> leaks nothing and takes nothing. If the references in use are those of others (\<open>R0\<close>), the
  directory and what the directory brings (one reference for each private table, and the pages of
  the tables that nobody else holds), then destroying the directory returns, leaves exactly \<open>R0\<close> and
  changes no frame of \<open>R0\<close>.
\<close>

theorem destroy_pd_releases:
  fixes m :: "'a vm_scheme"
  assumes "holds K (R0 + {#pd#} + table_refs (mem m) R0 (mem m pd) PAGES_PER_TABLE) m"
    and "tree_like (mem m) R0 pd (mem m pd)" and "pd \<noteq> cr3 m"
  shows "\<exists>m'. destroy_pd pd m = Inr m' \<and> holds K R0 m' \<and> keeps (set_mset R0 \<union> K) m m'"
  by (rule destroy_pd_refs [OF assms(1) _ assms(3) refl assms(2)]) simp

theorem destroy_pd_releases_witness:
  "\<exists>m'. destroy_pd 0x100000 demo = Inr m' \<and> holds {} {#} m' \<and> refcount m' 0x102000 = 0"
proof -
  have t: "table_refs (mem demo) {#} (mem demo 0x100000) PAGES_PER_TABLE = {#0x101000, 0x102000#}"
    by (simp add: demo_table_refs PAGES_PER_TABLE_def)
  have "holds {} ({#} + {#0x100000#} + table_refs (mem demo) {#} (mem demo 0x100000) PAGES_PER_TABLE) demo"
  proof -
    have e: "{#} + {#0x100000#} + {#0x101000, 0x102000#} = demo_refs" by (simp add: add_mset_commute)
    show ?thesis unfolding t e by (rule demo_holds)
  qed
  moreover have "tree_like (mem demo) {#} 0x100000 (mem demo 0x100000)"
    unfolding tree_like_def t by (simp add: demo_entries)
  moreover have "0x100000 \<noteq> cr3 demo" by (simp add: demo_def)
  ultimately obtain m' where "destroy_pd 0x100000 demo = Inr m'" "holds {} {#} m'"
    using destroy_pd_releases by blast
  then show ?thesis by (auto simp: refs_ok_def offset_def)
qed

lemma copy_pd_tree_like:
  assumes d: "dcopying pend K R m c new PAGES_PER_TABLE m1" and new: "new \<notin># R"
    and wd: "wf_dir R (mem m) c"
    and one: "\<And>i. i < PAGES_PER_TABLE \<Longrightarrow> priv (c i) \<Longrightarrow> count (table_refs (mem m) {#} c PAGES_PER_TABLE) (c i AND fMASK) = 1"
  shows "tree_like (mem m1) R new (mem m1 new)"
  unfolding tree_like_def
proof (intro conjI allI impI)
  let ?T = "table_refs (mem m1) R (mem m1 new) PAGES_PER_TABLE"
  show "new \<notin># R + ?T" using d new by (simp add: dcopying_def)
  fix i
  assume i: "i < PAGES_PER_TABLE" and p: "priv (mem m1 new i)"
  let ?f = "mem m1 new i AND fMASK"
  have ci: "\<And>j. j < PAGES_PER_TABLE \<Longrightarrow> dir_copied (insert new (set_mset R \<union> K)) (mem m) (mem m1) (c j) (mem m1 new j)"
    using d by (simp add: dcopying_def)
  have pc: "priv (c i)" using dir_copied_priv [OF ci [OF i]] p by simp
  show "count ?T ?f = 1"
  proof (cases "?f \<in># R")
    case False
    then show ?thesis using d i p by (simp add: dcopying_def fresh_once_def)
  next
    case True
    then have f: "?f = c i AND fMASK" using dir_copied_frame [OF ci [OF i] pc] by auto
    have "count ?T ?f \<le> count (table_refs (mem m) {#} c PAGES_PER_TABLE) ?f"
      by (rule dir_copied_count [where U = "insert new (set_mset R \<union> K)"])
        (use ci True wd in \<open>auto simp: wf_dir_def\<close>)
    then have "count ?T ?f \<le> 1" using one [OF i pc] f by simp
    moreover have "?f \<in># ?T" by (rule table_refs_in, rule i, rule p)
    then have "0 < count ?T ?f" by simp
    ultimately show ?thesis by linarith
  qed
qed

lemma keeps_cr3: "keeps S m m' \<Longrightarrow> cr3 m' = cr3 (m :: 'a vm_scheme)"
  by (cases m; cases m') (simp add: keeps_def)

lemma refs_ok_cr3:
  assumes "refs_ok pend K R m"
  shows "refs_ok pend K R (m\<lparr>cr3 := x\<rparr>)"
proof -
  obtain fl where h: "pm_wf pend fl m" "\<And>q. owned fl m q \<longleftrightarrow> q \<in># R \<or> q \<in> K"
    "\<And>q. q \<in> K \<Longrightarrow> q \<notin># R" "\<And>q. offset q = 0 \<Longrightarrow> refcount m q = count R q"
    using assms by (auto simp: refs_ok_def)
  note w = pm_wf_mem [OF h(1), of "m\<lparr>cr3 := x\<rparr>"]
  have "pm_wf pend fl (m\<lparr>cr3 := x\<rparr>)" "owned fl (m\<lparr>cr3 := x\<rparr>) = owned fl m"
    "\<And>q. offset q = 0 \<Longrightarrow> refcount (m\<lparr>cr3 := x\<rparr>) q = refcount m q"
    using w by simp_all
  then show ?thesis unfolding refs_ok_def using h(2-4) by (intro exI [of _ fl]) simp
qed

text \<open>
  C9. Forking and exiting is neutral: copying the directory of a space whose tables are its own, and then
  destroying the copy, returns unless frames run out, restores every reference count and leaves
  the contents of all frames in use as they were.
\<close>

theorem fork_exit_neutral:
  fixes m :: "'a vm_scheme"
  assumes "holds K R m" and "pd \<in># R \<or> pd \<in> K" and "cr3 m \<in># R \<or> cr3 m \<in> K"
    and "wf_dir R (mem m) (mem m pd)" and "few_refs R (mem m) (mem m pd)"
    and "\<And>i. i < PAGES_PER_TABLE \<Longrightarrow> priv (mem m pd i) \<Longrightarrow>
      count (table_refs (mem m) {#} (mem m pd) PAGES_PER_TABLE) (mem m pd i AND fMASK) = 1"
  shows "outcome {oom} (\<lambda>m'. holds K R m' \<and> keeps (set_mset R \<union> K) m m')
    (bindE (copy_pd pd m) (\<lambda>(m1, new). destroy_pd new m1))"
proof (rule outcome_bind [OF copy_pd_refs [OF assms(1,2,4,5)]])
  fix x :: "'a vm_scheme \<times> u32"
  obtain m1 new where x: "x = (m1, new)" by (cases x)
  assume "case x of (m', new) \<Rightarrow> new \<notin># R \<and> new \<notin> K \<and> offset new = 0 \<and> new \<noteq> 0 \<and>
    dcopying (\<lambda>_. 0) K R m (mem m pd) new PAGES_PER_TABLE m'"
  then have a: "new \<notin># R" "new \<notin> K" "dcopying (\<lambda>_. 0) K R m (mem m pd) new PAGES_PER_TABLE m1"
    by (simp_all add: x)
  have k: "keeps (set_mset R \<union> K) m m1" using a(3) by (simp add: dcopying_def)
  have h: "holds K (R + {#new#} + table_refs (mem m1) R (mem m1 new) PAGES_PER_TABLE) m1"
    using a(3) by (simp add: dcopying_def)
  have "new \<noteq> cr3 m1" using keeps_cr3 [OF k] assms(3) a(1,2) by auto
  from destroy_pd_refs [OF h _ this refl copy_pd_tree_like [OF a(3,1) assms(4,6)]]
  obtain m' where m': "destroy_pd new m1 = Inr m'" "holds K R m'" "keeps (set_mset R \<union> K) m1 m'"
    by auto
  have "keeps (set_mset R \<union> K) m m'" by (rule keeps_trans [OF k m'(3)]) auto
  then show "outcome {oom} (\<lambda>m'. holds K R m' \<and> keeps (set_mset R \<union> K) m m') (case x of (m1, new) \<Rightarrow> destroy_pd new m1)"
    using m'(1,2) by (simp add: x)
qed

theorem fork_exit_neutral_witness:
  "outcome {oom} (\<lambda>m'. holds {} demo_refs m') (bindE (copy_pd 0x100000 (demo\<lparr>cr3 := 0x100000\<rparr>)) (\<lambda>(m1, new). destroy_pd new m1))"
proof -
  let ?m = "demo\<lparr>cr3 := 0x100000\<rparr>"
  have m: "mem ?m = mem demo" by simp
  have "holds {} demo_refs ?m"
    by (rule refs_ok_cr3 [OF demo_holds])
  moreover have "count (table_refs (mem ?m) {#} (mem ?m 0x100000) PAGES_PER_TABLE) (mem ?m 0x100000 i AND fMASK) = 1"
    if "i < PAGES_PER_TABLE" "priv (mem ?m 0x100000 i)" for i
    using that unfolding m by (auto simp: demo_entries demo_table_refs PAGES_PER_TABLE_def)
  ultimately show ?thesis
    using fork_exit_neutral [of "{}" demo_refs ?m "0x100000"] demo_wf_dir demo_few
    by (auto intro: outcome_mono)
qed

end
