(* ===== verification/VMM_Protect.thy ===== *)
theory VMM_Protect
  imports VMM_Props
begin

text \<open>Write protection and page faults.\<close>

section \<open>Words that differ in the writable bit only\<close>

definition same_but_rw :: "u32 \<Rightarrow> u32 \<Rightarrow> bool" where
  "same_but_rw w w' \<longleftrightarrow> w OR fRW = w' OR fRW"

lemma fRW_bit: "bit fRW n \<longleftrightarrow> n = 1"
proof -
  have "fRW = 2 ^ 1" by (simp add: fRW_def)
  then have "bit fRW n \<longleftrightarrow> bit (2 ^ 1 :: u32) n" by (simp only:)
  then show ?thesis unfolding bit_exp_iff by (auto simp: possible_bit_def)
qed

lemma same_but_rw_bit: "same_but_rw w w' \<Longrightarrow> n \<noteq> 1 \<Longrightarrow> bit w' n = bit w n"
proof -
  assume "same_but_rw w w'" "n \<noteq> 1"
  then have "bit (w OR fRW) n = bit (w' OR fRW) n" unfolding same_but_rw_def by metis
  then show ?thesis using \<open>n \<noteq> 1\<close> by (simp add: bit_or_iff fRW_bit)
qed

lemma same_but_rwI: "(\<And>n. n \<noteq> 1 \<Longrightarrow> bit w' n = bit w n) \<Longrightarrow> same_but_rw w w'"
  unfolding same_but_rw_def by (rule bit_word_eqI) (auto simp: bit_or_iff fRW_bit)

lemma same_but_rw_entry:
  assumes "same_but_rw w w'"
  shows "priv w' = priv w" "w' AND fMASK = w AND fMASK"
proof -
  note b = same_but_rw_bit [OF assms]
  show "priv w' = priv w" by (simp add: priv_bits b)
  have m: "fMASK = FMASK" by (simp add: fMASK_def)
  show "w' AND fMASK = w AND fMASK"
    unfolding m
  proof (rule bit_word_eqI)
    fix n show "bit (w' AND FMASK) n = bit (w AND FMASK) n"
      using b [of n] by (cases "n = 1") (simp_all add: bit_high)
  qed
qed

lemma pFlag_iff: "w AND pFlag = pFlag \<longleftrightarrow> priv w \<and> bit w 1"
proof -
  have r: "w AND fRW = fRW \<longleftrightarrow> bit w 1"
    using has_flag [of 1 w] by (simp add: fRW_def)
  have e: "pFlag = (fNG OR fP) OR fRW" by (simp add: pFlag_def ac_simps)
  show ?thesis unfolding e has_both [of w "fNG OR fP" fRW] r priv_def ..
qed

lemma xor_rw: "same_but_rw w (w XOR fRW)" "bit (w XOR fRW) 1 \<longleftrightarrow> \<not> bit w 1" "same_but_rw w (w OR fRW)"
  by (auto intro!: same_but_rwI simp: bit_xor_iff bit_or_iff fRW_bit)

section \<open>What \<open>write_protect\<close> does\<close>

text \<open>No entry of the table is private and writable.\<close>

definition no_write :: "(nat \<Rightarrow> u32) \<Rightarrow> nat \<Rightarrow> bool" where
  "no_write f n \<longleftrightarrow> (\<forall>l<n. \<not> (priv (f l) \<and> bit (f l) 1))"

text \<open>Only writable bits change, and outside the directory they are only taken away.\<close>

definition protects :: "u32 \<Rightarrow> 'a pm_scheme \<Rightarrow> 'a pm_scheme \<Rightarrow> bool" where
  "protects pd m m' \<longleftrightarrow> (\<forall>q k. same_but_rw (mem m q k) (mem m' q k)) \<and>
     (\<forall>q k. q \<noteq> pd \<longrightarrow> bit (mem m' q k) 1 \<longrightarrow> bit (mem m q k) 1)"

lemma protects_refl [simp]: "protects pd m m"
  by (simp add: protects_def same_but_rw_def)

lemma protects_trans: "protects pd m m1 \<Longrightarrow> protects pd m1 m2 \<Longrightarrow> protects pd m m2"
  by (simp add: protects_def same_but_rw_def)

lemma protects_no_write:
  assumes "protects pd m m'" "q \<noteq> pd" "no_write (mem m q) n"
  shows "no_write (mem m' q) n"
  using assms same_but_rw_entry(1) unfolding no_write_def protects_def by metis

lemma protect_pte_step:
  assumes "pt \<noteq> pd"
  shows "protects pd m (protect_pte pd pdi pt pti m)"
    "\<not> (priv (mem (protect_pte pd pdi pt pti m) pt pti) \<and> bit (mem (protect_pte pd pdi pt pti m) pt pti) 1)"
    "k \<noteq> pdi \<Longrightarrow> mem (protect_pte pd pdi pt pti m) pd k = mem m pd k"
  using assms xor_rw
  by (auto simp: protects_def protect_pte_def write_word_def pFlag_iff same_but_rw_def)

lemma protect_pde_step:
  assumes "priv (mem m pd pdi) \<Longrightarrow> mem m pd pdi AND fMASK \<noteq> pd"
  defines "m' \<equiv> protect_pde pd pdi m"
  shows "protects pd m m'" "k \<noteq> pdi \<Longrightarrow> mem m' pd k = mem m pd k"
    "priv (mem m pd pdi) \<Longrightarrow> bit (mem m pd pdi) 1 \<Longrightarrow> no_write (mem m' (mem m pd pdi AND fMASK)) PAGES_PER_TABLE"
    "bit (mem m' pd pdi) 1 \<Longrightarrow> bit (mem m pd pdi) 1"
    "q \<noteq> pd \<Longrightarrow> (priv (mem m pd pdi) \<Longrightarrow> bit (mem m pd pdi) 1 \<Longrightarrow> q \<noteq> mem m pd pdi AND fMASK) \<Longrightarrow> mem m' q = mem m q"
proof -
  have "protects pd m m' \<and> (k \<noteq> pdi \<longrightarrow> mem m' pd k = mem m pd k) \<and>
    (priv (mem m pd pdi) \<and> bit (mem m pd pdi) 1 \<longrightarrow> no_write (mem m' (mem m pd pdi AND fMASK)) PAGES_PER_TABLE) \<and>
    (bit (mem m' pd pdi) 1 \<longrightarrow> bit (mem m pd pdi) 1) \<and>
    (q \<noteq> pd \<longrightarrow> (priv (mem m pd pdi) \<longrightarrow> bit (mem m pd pdi) 1 \<longrightarrow> q \<noteq> mem m pd pdi AND fMASK) \<longrightarrow> mem m' q = mem m q)"
  proof (cases "mem m pd pdi AND pFlag = pFlag")
    case False
    then have "m' = m" by (simp add: m'_def protect_pde_def)
    then show ?thesis using False by (auto simp: pFlag_iff)
  next
    case True
    then have p: "priv (mem m pd pdi)" "bit (mem m pd pdi) 1" by (simp_all add: pFlag_iff)
    let ?pt = "mem m pd pdi AND fMASK"
    let ?m1 = "write_word pd pdi (mem m pd pdi XOR fRW) m"
    let ?I = "\<lambda>i n. protects pd m n \<and> (k \<noteq> pdi \<longrightarrow> mem n pd k = mem m pd k) \<and> no_write (mem n ?pt) i \<and>
      (q \<noteq> pd \<longrightarrow> q \<noteq> ?pt \<longrightarrow> mem n q = mem m q)"
    have ne: "?pt \<noteq> pd" using assms(1) p by simp
    have e1: "mem ?m1 pd pdi AND fMASK = ?pt"
      using same_but_rw_entry(2) [OF xor_rw(1)] by (simp add: write_word_def)
    have m': "m' = fold (protect_pte pd pdi ?pt) [0..<PAGES_PER_TABLE] ?m1"
      using True e1 by (simp add: m'_def protect_pde_def Let_def)
    have "protects pd m ?m1"
      using xor_rw(1) by (auto simp: protects_def write_word_def same_but_rw_def)
    then have I0: "?I 0 ?m1" by (simp add: write_word_def no_write_def)
    have "?I PAGES_PER_TABLE m'"
      unfolding m'
    proof (rule fold_upt [where I = ?I])
      show "?I 0 ?m1" by (rule I0)
      fix i n
      assume I: "?I i n"
      note st = protect_pte_step [OF ne, where m = n and pdi = pdi and pti = i]
      have "no_write (mem (protect_pte pd pdi ?pt i n) ?pt) i"
        using protects_no_write [OF st(1) ne] I by blast
      then have "no_write (mem (protect_pte pd pdi ?pt i n) ?pt) (Suc i)"
        using st(2) by (auto simp: no_write_def less_Suc_eq)
      moreover have "q \<noteq> pd \<Longrightarrow> q \<noteq> ?pt \<Longrightarrow> mem (protect_pte pd pdi ?pt i n) q = mem n q"
        by (simp add: protect_pte_def write_word_def)
      ultimately show "?I (Suc i) (protect_pte pd pdi ?pt i n)"
        using I st(1) st(3) [of k] protects_trans by auto
    qed
    then show ?thesis using p by simp
  qed
  then show "protects pd m m'" "k \<noteq> pdi \<Longrightarrow> mem m' pd k = mem m pd k"
    "priv (mem m pd pdi) \<Longrightarrow> bit (mem m pd pdi) 1 \<Longrightarrow> no_write (mem m' (mem m pd pdi AND fMASK)) PAGES_PER_TABLE"
    "bit (mem m' pd pdi) 1 \<Longrightarrow> bit (mem m pd pdi) 1"
    "q \<noteq> pd \<Longrightarrow> (priv (mem m pd pdi) \<Longrightarrow> bit (mem m pd pdi) 1 \<Longrightarrow> q \<noteq> mem m pd pdi AND fMASK) \<Longrightarrow> mem m' q = mem m q"
    by blast+
qed

text \<open>
  After the whole loop: the pages that were writable are not, no directory entry has become writable, and only the
  directory and its writable tables have changed.
\<close>

lemma write_protect_effect:
  assumes sep: "\<And>i. i < PAGES_PER_TABLE \<Longrightarrow> priv (mem m pd i) \<Longrightarrow> mem m pd i AND fMASK \<noteq> pd"
  defines "m' \<equiv> write_protect pd m"
  shows "protects pd m m' \<and>
    (\<forall>i<PAGES_PER_TABLE. priv (mem m pd i) \<longrightarrow> bit (mem m pd i) 1 \<longrightarrow> no_write (mem m' (mem m pd i AND fMASK)) PAGES_PER_TABLE) \<and>
    (\<forall>k. bit (mem m' pd k) 1 \<longrightarrow> bit (mem m pd k) 1) \<and>
    (\<forall>q. q \<noteq> pd \<longrightarrow> (\<forall>i<PAGES_PER_TABLE. priv (mem m pd i) \<longrightarrow> bit (mem m pd i) 1 \<longrightarrow> q \<noteq> mem m pd i AND fMASK) \<longrightarrow>
       mem m' q = mem m q)"
proof -
  let ?I = "\<lambda>i n. protects pd m n \<and>
    (\<forall>j<i. priv (mem m pd j) \<longrightarrow> bit (mem m pd j) 1 \<longrightarrow> no_write (mem n (mem m pd j AND fMASK)) PAGES_PER_TABLE) \<and>
    (\<forall>k. (i \<le> k \<longrightarrow> mem n pd k = mem m pd k) \<and> (bit (mem n pd k) 1 \<longrightarrow> bit (mem m pd k) 1)) \<and>
    (\<forall>q. q \<noteq> pd \<longrightarrow> (\<forall>i<PAGES_PER_TABLE. priv (mem m pd i) \<longrightarrow> bit (mem m pd i) 1 \<longrightarrow> q \<noteq> mem m pd i AND fMASK) \<longrightarrow>
       mem n q = mem m q)"
  have "?I PAGES_PER_TABLE m'"
    unfolding m'_def write_protect_def
  proof (rule fold_upt [where I = ?I])
    show "?I 0 m" by simp
    fix i n
    assume i: "i < PAGES_PER_TABLE" and I: "?I i n"
    have e: "mem n pd i = mem m pd i" using I by simp
    have sepn: "priv (mem n pd i) \<Longrightarrow> mem n pd i AND fMASK \<noteq> pd" using sep [OF i] e by simp
    let ?n = "protect_pde pd i n"
    note st = protect_pde_step [where pd = pd, OF sepn, unfolded e]
    have p: "protects pd m ?n" using I st(1) protects_trans by blast
    have "no_write (mem ?n (mem m pd j AND fMASK)) PAGES_PER_TABLE"
      if j: "j < Suc i" "priv (mem m pd j)" "bit (mem m pd j) 1" for j
    proof (cases "j = i")
      case True
      then show ?thesis using st(3) j by simp
    next
      case False
      then have "no_write (mem n (mem m pd j AND fMASK)) PAGES_PER_TABLE" "mem m pd j AND fMASK \<noteq> pd"
        using I j sep [of j] i by simp_all
      then show ?thesis using protects_no_write [OF st(1)] by blast
    qed
    moreover have "mem ?n pd k = mem m pd k" if "Suc i \<le> k" for k using st(2) [of k] I that by simp
    moreover have "bit (mem m pd k) 1" if "bit (mem ?n pd k) 1" for k
      using that st(2) [of k] st(4) I by (cases "k = i") simp_all
    moreover have "mem ?n q = mem m q"
      if "q \<noteq> pd" "\<forall>i<PAGES_PER_TABLE. priv (mem m pd i) \<longrightarrow> bit (mem m pd i) 1 \<longrightarrow> q \<noteq> mem m pd i AND fMASK" for q
      using st(5) [of q] I that i by simp
    ultimately show "?I (Suc i) ?n" using p by blast
  qed
  then show ?thesis by blast
qed

text \<open>Where the directory entry stays writable, the pages of its table are not.\<close>

lemma write_protect_pages:
  assumes sep: "\<And>i. i < PAGES_PER_TABLE \<Longrightarrow> priv (mem m pd i) \<Longrightarrow> mem m pd i AND fMASK \<noteq> pd"
  defines "m' \<equiv> write_protect pd m"
  assumes "i < PAGES_PER_TABLE" "priv (mem m' pd i)" "bit (mem m' pd i) 1"
  shows "no_write (mem m' (mem m' pd i AND fMASK)) PAGES_PER_TABLE"
proof -
  note ef = write_protect_effect [of m pd, OF sep, folded m'_def]
  have s: "same_but_rw (mem m pd i) (mem m' pd i)" using ef by (simp add: protects_def)
  then have "priv (mem m pd i)" "bit (mem m pd i) 1" using ef same_but_rw_entry(1) [OF s] assms(4,5) by auto
  then show ?thesis using ef assms(3) same_but_rw_entry(2) [OF s] by simp
qed

text \<open>
  C10. After \<open>write_protect\<close> no private page of the address space can be written: at every address the
  entry or its directory entry is read-only. The same pages are mapped to the same frames
  as before. The directory must not be one of its own page tables.
\<close>

theorem write_protect_contract:
  assumes "\<And>i. i < PAGES_PER_TABLE \<Longrightarrow> priv (mem m pd i) \<Longrightarrow> mem m pd i AND fMASK \<noteq> pd"
  shows "\<not> user_writable (write_protect pd m) pd va \<and>
    (user_page (write_protect pd m) pd va = None \<longleftrightarrow> user_page m pd va = None) \<and>
    user_frame (write_protect pd m) pd va = user_frame m pd va"
proof -
  let ?m = "write_protect pd m"
  let ?e = "mem m pd (pdi_of va)" and ?e' = "mem ?m pd (pdi_of va)"
  let ?p = "mem m (?e AND fMASK) (pti_of va)" and ?p' = "mem ?m (?e AND fMASK) (pti_of va)"
  note ef = write_protect_effect [OF assms]
  have "same_but_rw ?e ?e'" "same_but_rw ?p ?p'" using ef by (simp_all add: protects_def)
  note s = same_but_rw_entry [OF this(1)] same_but_rw_entry [OF this(2)]
  have "\<not> user_writable ?m pd va"
  proof
    assume "user_writable ?m pd va"
    then have w: "priv ?e'" "priv ?p'" "(?p' AND 0xFFF) AND fRW \<noteq> 0" "(?e' AND 0xFFF) AND fRW \<noteq> 0"
      using s(2) by (auto simp: user_writable_def user_page_def Let_def split: if_splits)
    then have "bit ?p' 1" "bit ?e' 1" unfolding flag_bits by (simp_all add: low_flag)
    then show False
      using write_protect_pages [OF assms pdi_bound [of va] w(1)] w(2) pti_bound [of va] s(2) by (auto simp: no_write_def)
  qed
  then show ?thesis using s by (simp add: user_page_def user_frame_def Let_def)
qed

theorem write_protect_contract_witness:
  "user_writable demo 0x100000 0x80000000 \<and> \<not> user_writable (write_protect 0x100000 demo) 0x100000 0x80000000"
proof -
  have "mem demo 0x100000 i AND fMASK \<noteq> 0x100000" if "priv (mem demo 0x100000 i)" for i
    using that demo_entries by simp
  moreover have "user_writable demo 0x100000 0x80000000"
    using demo_priv by (simp add: user_writable_def user_page_def Let_def pdi_of_def pti_of_def demo_def flag_defs)
  ultimately show ?thesis using write_protect_contract [of demo "0x100000" "0x80000000"] by blast
qed

end
