(* ===== verification/VMM_Space.thy ===== *)
theory VMM_Space
  imports VMM_Protect
begin

text \<open>
  The invariant of one address space among others: which frames it owns, which it shares, and
  why a page that it may write is nobody else's.
\<close>

section \<open>References, entry by entry\<close>

definition entry_refs :: "(u32 \<Rightarrow> nat \<Rightarrow> u32) \<Rightarrow> u32 multiset \<Rightarrow> u32 \<Rightarrow> u32 multiset" where
  "entry_refs M R0 e = (if priv e then add_mset (e AND fMASK)
     (if e AND fMASK \<in># R0 then {#} else priv_refs (M (e AND fMASK)) PAGES_PER_TABLE) else {#})"

definition page_refs :: "u32 \<Rightarrow> u32 multiset" where
  "page_refs e = (if priv e then {#e AND fMASK#} else {#})"

lemma priv_zero [simp]: "\<not> priv 0" "\<not> present 0"
  by (simp_all add: priv_bits present_bit)

lemma table_refs_split:
  "i < n \<Longrightarrow> table_refs M R0 c n = entry_refs M R0 (c i) + table_refs M R0 (c(i := 0)) n"
proof (induction n)
  case (Suc n)
  have "table_refs M R0 (c(n := 0)) n = table_refs M R0 c n"
    by (intro table_refs_cong) auto
  then show ?case using Suc by (cases "i = n") (auto simp: entry_refs_def fun_upd_def)
qed simp

lemma priv_refs_split:
  "j < n \<Longrightarrow> priv_refs f n = page_refs (f j) + priv_refs (f(j := 0)) n"
proof (induction n)
  case (Suc n)
  have "priv_refs (f(n := 0)) n = priv_refs f n"
    by (intro priv_refs_cong) auto
  then show ?case using Suc by (cases "j = n") (auto simp: page_refs_def fun_upd_def)
qed simp

section \<open>The invariant\<close>

definition has_table :: "(nat \<Rightarrow> u32) \<Rightarrow> nat \<Rightarrow> bool" where
  "has_table c i \<longleftrightarrow> i < PAGES_PER_TABLE \<and> priv (c i)"

definition pte :: "(u32 \<Rightarrow> nat \<Rightarrow> u32) \<Rightarrow> (nat \<Rightarrow> u32) \<Rightarrow> nat \<Rightarrow> nat \<Rightarrow> u32" where
  "pte M c i j = M (c i AND fMASK) j"

definition mapped :: "(u32 \<Rightarrow> nat \<Rightarrow> u32) \<Rightarrow> (nat \<Rightarrow> u32) \<Rightarrow> nat \<Rightarrow> nat \<Rightarrow> bool" where
  "mapped M c i j \<longleftrightarrow> has_table c i \<and> j < PAGES_PER_TABLE \<and> priv (pte M c i j)"

text \<open>
  \<open>R0\<close> are the references that others hold. Tables are distinct and are not pages; what a shared
  table maps, the others hold too; a writable directory entry has a table of its own, and only there
  are pages writable; a writable page is mapped once and nobody else holds it. What is private, users
  may access.
\<close>

definition tables_apart :: "(u32 \<Rightarrow> nat \<Rightarrow> u32) \<Rightarrow> u32 \<Rightarrow> (nat \<Rightarrow> u32) \<Rightarrow> bool" where
  "tables_apart M pd c \<longleftrightarrow>
     (\<forall>i. has_table c i \<longrightarrow> c i AND fMASK \<noteq> pd) \<and>
     (\<forall>i i'. has_table c i \<longrightarrow> has_table c i' \<longrightarrow> c i AND fMASK = c i' AND fMASK \<longrightarrow> i = i') \<and>
     (\<forall>i j. mapped M c i j \<longrightarrow> pte M c i j AND fMASK \<noteq> pd) \<and>
     (\<forall>i j i'. mapped M c i j \<longrightarrow> has_table c i' \<longrightarrow> c i' AND fMASK \<noteq> pte M c i j AND fMASK) \<and>
     (\<forall>i j. has_table c i \<longrightarrow> j < PAGES_PER_TABLE \<longrightarrow> present (pte M c i j) \<longrightarrow>
        (pte M c i j AND fG \<noteq> 0 \<longleftrightarrow> pte M c i j AND fNG = 0))"

definition cow :: "(u32 \<Rightarrow> nat \<Rightarrow> u32) \<Rightarrow> u32 multiset \<Rightarrow> (nat \<Rightarrow> u32) \<Rightarrow> bool" where
  "cow M R0 c \<longleftrightarrow>
     (\<forall>i. has_table c i \<longrightarrow> bit (c i) 2) \<and> (\<forall>i j. mapped M c i j \<longrightarrow> bit (pte M c i j) 2) \<and>
     (\<forall>i j. mapped M c i j \<longrightarrow> c i AND fMASK \<in># R0 \<longrightarrow> pte M c i j AND fMASK \<in># R0) \<and>
     (\<forall>i. has_table c i \<longrightarrow> bit (c i) 1 \<longrightarrow> c i AND fMASK \<notin># R0) \<and>
     (\<forall>i j. mapped M c i j \<longrightarrow> bit (pte M c i j) 1 \<longrightarrow> bit (c i) 1 \<and> pte M c i j AND fMASK \<notin># R0) \<and>
     (\<forall>i j i' j'. mapped M c i j \<longrightarrow> bit (pte M c i j) 1 \<longrightarrow> mapped M c i' j' \<longrightarrow>
        pte M c i' j' AND fMASK = pte M c i j AND fMASK \<longrightarrow> i' = i \<and> j' = j)"

definition laid :: "(u32 \<Rightarrow> nat \<Rightarrow> u32) \<Rightarrow> u32 multiset \<Rightarrow> u32 \<Rightarrow> (nat \<Rightarrow> u32) \<Rightarrow> bool" where
  "laid M R0 pd c \<longleftrightarrow> pd \<notin># R0 \<and> tables_apart M pd c \<and> cow M R0 c"

abbreviation space_refs :: "'a pm_scheme \<Rightarrow> u32 multiset \<Rightarrow> u32 \<Rightarrow> u32 multiset" where
  "space_refs m R0 pd \<equiv> add_mset pd (R0 + table_refs (mem m) R0 (mem m pd) PAGES_PER_TABLE)"

definition space :: "u32 set \<Rightarrow> u32 multiset \<Rightarrow> u32 \<Rightarrow> 'a pm_scheme \<Rightarrow> bool" where
  "space K R0 pd m \<longleftrightarrow> holds K (space_refs m R0 pd) m \<and> laid (mem m) R0 pd (mem m pd)"

lemma has_tableI: "i < PAGES_PER_TABLE \<Longrightarrow> priv (c i) \<Longrightarrow> has_table c i"
  by (simp add: has_table_def)

lemma laidD:
  assumes "laid M R0 pd c"
  shows "pd \<notin># R0"
    "has_table c i \<Longrightarrow> c i AND fMASK \<noteq> pd"
    "has_table c i \<Longrightarrow> has_table c i' \<Longrightarrow> c i AND fMASK = c i' AND fMASK \<Longrightarrow> i = i'"
    "mapped M c i j \<Longrightarrow> pte M c i j AND fMASK \<noteq> pd"
    "mapped M c i j \<Longrightarrow> has_table c i' \<Longrightarrow> c i' AND fMASK \<noteq> pte M c i j AND fMASK"
    "has_table c i \<Longrightarrow> j < PAGES_PER_TABLE \<Longrightarrow> present (pte M c i j) \<Longrightarrow>
       (pte M c i j AND fG \<noteq> 0 \<longleftrightarrow> pte M c i j AND fNG = 0)"
    "mapped M c i j \<Longrightarrow> c i AND fMASK \<in># R0 \<Longrightarrow> pte M c i j AND fMASK \<in># R0"
    "has_table c i \<Longrightarrow> bit (c i) 1 \<Longrightarrow> c i AND fMASK \<notin># R0"
    "mapped M c i j \<Longrightarrow> bit (pte M c i j) 1 \<Longrightarrow> bit (c i) 1"
    "mapped M c i j \<Longrightarrow> bit (pte M c i j) 1 \<Longrightarrow> pte M c i j AND fMASK \<notin># R0"
    "mapped M c i j \<Longrightarrow> bit (pte M c i j) 1 \<Longrightarrow> mapped M c i' j' \<Longrightarrow>
        pte M c i' j' AND fMASK = pte M c i j AND fMASK \<Longrightarrow> i' = i \<and> j' = j"
    "has_table c i \<Longrightarrow> bit (c i) 2" "mapped M c i j \<Longrightarrow> bit (pte M c i j) 2"
  using assms unfolding laid_def tables_apart_def cow_def by (elim conjE, metis)+

section \<open>What a space holds\<close>

lemma table_refs_mem:
  "x \<in># table_refs M R0 c PAGES_PER_TABLE \<longleftrightarrow>
     (\<exists>i. has_table c i \<and> x = c i AND fMASK) \<or>
     (\<exists>i j. mapped M c i j \<and> c i AND fMASK \<notin># R0 \<and> x = pte M c i j AND fMASK)"
proof
  have *: "x \<in># table_refs M R0 c n \<Longrightarrow> n \<le> PAGES_PER_TABLE \<Longrightarrow> (\<exists>i. has_table c i \<and> x = c i AND fMASK) \<or>
     (\<exists>i j. mapped M c i j \<and> c i AND fMASK \<notin># R0 \<and> x = pte M c i j AND fMASK)" for n
  proof (induction n)
    case (Suc n)
    show ?case
    proof (cases "x \<in># table_refs M R0 c n")
      case False
      then have p: "priv (c n)" and x: "x = c n AND fMASK \<or> (c n AND fMASK \<notin># R0 \<and> x \<in># priv_refs (M (c n AND fMASK)) PAGES_PER_TABLE)"
        using Suc.prems(1) by (auto split: if_splits)
      have h: "has_table c n" using p Suc.prems by (simp add: has_table_def)
      show ?thesis
      proof (cases "x = c n AND fMASK")
        case False
        then obtain j where "j < PAGES_PER_TABLE" "priv (M (c n AND fMASK) j)" "x = M (c n AND fMASK) j AND fMASK"
          using x priv_refs_memD by blast
        then have "mapped M c n j \<and> c n AND fMASK \<notin># R0 \<and> x = pte M c n j AND fMASK"
          using h x False by (simp add: mapped_def pte_def)
        then show ?thesis by blast
      qed (use h in blast)
    qed (use Suc in simp)
  qed simp
  show "x \<in># table_refs M R0 c PAGES_PER_TABLE \<Longrightarrow> (\<exists>i. has_table c i \<and> x = c i AND fMASK) \<or>
     (\<exists>i j. mapped M c i j \<and> c i AND fMASK \<notin># R0 \<and> x = pte M c i j AND fMASK)"
    using * [OF _ order_refl] .
  assume "(\<exists>i. has_table c i \<and> x = c i AND fMASK) \<or>
     (\<exists>i j. mapped M c i j \<and> c i AND fMASK \<notin># R0 \<and> x = pte M c i j AND fMASK)"
  then show "x \<in># table_refs M R0 c PAGES_PER_TABLE"
    using table_refs_in [of _ PAGES_PER_TABLE c M R0] table_refs_pages [of _ PAGES_PER_TABLE c R0 x M]
    by (auto simp: has_table_def mapped_def pte_def intro: priv_refs_in)
qed

lemma space_tables:
  assumes "has_table c i"
  shows "c i AND fMASK \<in># table_refs M R0 c PAGES_PER_TABLE"
  using assms table_refs_mem by blast

lemma space_pages:
  assumes "laid M R0 pd c" "mapped M c i j"
  shows "pte M c i j AND fMASK \<in># R0 + table_refs M R0 c PAGES_PER_TABLE"
  using laidD(7) [OF assms] assms(2) table_refs_mem [of "pte M c i j AND fMASK" M R0 c] by auto

lemma laid_pd: "laid M R0 pd c \<Longrightarrow> pd \<notin># R0 + table_refs M R0 c PAGES_PER_TABLE"
proof -
  assume l: "laid M R0 pd c"
  have "\<not> (has_table c i \<and> pd = c i AND fMASK)" "\<not> (mapped M c i j \<and> pd = pte M c i j AND fMASK)" for i j
    using laidD(2,4) [OF l] by metis+
  then show ?thesis using laidD(1) [OF l] by (auto simp: table_refs_mem)
qed

lemma space_wf_table:
  assumes l: "laid M R0 pd c" and i: "has_table c i"
  shows "wf_table (add_mset pd (R0 + table_refs M R0 c PAGES_PER_TABLE)) (M (c i AND fMASK))"
  unfolding wf_table_def
proof (intro allI impI conjI)
  fix j assume j: "j < PAGES_PER_TABLE" "present (M (c i AND fMASK) j)"
  show "(M (c i AND fMASK) j AND fG \<noteq> 0) = (M (c i AND fMASK) j AND fNG = 0)"
    using laidD(6) [OF l i j(1)] j(2) by (simp add: pte_def)
  assume "priv (M (c i AND fMASK) j)"
  then have "mapped M c i j" using i j by (simp add: mapped_def pte_def)
  from space_pages [OF l this]
  show "M (c i AND fMASK) j AND fMASK \<in># add_mset pd (R0 + table_refs M R0 c PAGES_PER_TABLE)"
    by (simp add: pte_def)
qed

lemma space_wf_dir:
  "laid M R0 pd c \<Longrightarrow> wf_dir (add_mset pd (R0 + table_refs M R0 c PAGES_PER_TABLE)) M c"
  using space_wf_table [of M R0 pd c] space_tables [of c _ M R0]
  by (auto simp: wf_dir_def has_table_def)


section \<open>A directory entry gets a new table\<close>

abbreviation user_flags :: u32 where
  "user_flags \<equiv> fP OR (fNG OR fRW) OR fUS"

lemma user_flags_iff: "e AND user_flags = user_flags \<longleftrightarrow> priv e \<and> bit e 1 \<and> bit e 2"
proof -
  have r: "e AND fRW = fRW \<longleftrightarrow> bit e 1" "e AND fUS = fUS \<longleftrightarrow> bit e 2" "e AND fP = fP \<longleftrightarrow> bit e 0" "e AND fNG = fNG \<longleftrightarrow> bit e 10"
    using has_flag [of 1 e] has_flag [of 2 e] has_flag [of 0 e] has_flag [of 10 e] by (simp_all add: flag_defs)
  show ?thesis unfolding has_both r priv_bits by blast
qed

text \<open>The same pages, with the same contents, at the same places.\<close>

definition same_view :: "u32 \<Rightarrow> 'a pm_scheme \<Rightarrow> 'a pm_scheme \<Rightarrow> bool" where
  "same_view pd m m' \<longleftrightarrow> (\<forall>k j.
     (mapped (mem m') (mem m' pd) k j \<longleftrightarrow> mapped (mem m) (mem m pd) k j) \<and>
     (mapped (mem m) (mem m pd) k j \<longrightarrow> pte (mem m') (mem m' pd) k j = pte (mem m) (mem m pd) k j \<and>
        mem m' (pte (mem m) (mem m pd) k j AND fMASK) = mem m (pte (mem m) (mem m pd) k j AND fMASK)))"

lemma same_view_refl [simp]: "same_view pd m m"
  by (simp add: same_view_def)

lemma laid_new_table:
  assumes l: "laid M R0 pd c" and i: "i < PAGES_PER_TABLE"
    and new: "t' \<noteq> pd" "t' \<notin># R0" "\<And>k. has_table c k \<Longrightarrow> c k AND fMASK \<noteq> t'"
      "\<And>k j. mapped M c k j \<Longrightarrow> pte M c k j AND fMASK \<noteq> t'"
    and e': "e' AND fMASK = t'" "e' AND user_flags = user_flags"
    and M': "\<And>k. has_table c k \<Longrightarrow> k \<noteq> i \<Longrightarrow> M' (c k AND fMASK) = M (c k AND fMASK)"
    and gl: "\<And>j. j < PAGES_PER_TABLE \<Longrightarrow> present (M' t' j) \<Longrightarrow> (M' t' j AND fG \<noteq> 0 \<longleftrightarrow> M' t' j AND fNG = 0)"
    and pr: "\<And>j. j < PAGES_PER_TABLE \<Longrightarrow> priv (M' t' j) \<Longrightarrow>
      mapped M c i j \<and> M' t' j = pte M c i j \<and> \<not> bit (pte M c i j) 1"
  shows "laid M' R0 pd (c(i := e'))"
proof -
  let ?c = "c(i := e')"
  have pe: "priv e'" "bit e' 1" "bit e' 2" using e'(2) by (auto simp: user_flags_iff)
  have h: "has_table ?c k \<longleftrightarrow> k = i \<or> has_table c k" for k
    using pe i by (auto simp: has_table_def)
  have p: "pte M' ?c k j = pte M c k j" if "has_table c k" "k \<noteq> i" for k j
    using that M' by (simp add: pte_def)
  have pi: "pte M' ?c i j = M' t' j" for j using e' by (simp add: pte_def)
  have mm: "mapped M c k j \<and> pte M' ?c k j = pte M c k j \<and> (k = i \<longrightarrow> \<not> bit (pte M c k j) 1)"
    if "mapped M' ?c k j" for k j
    using that pr [of j] p [of k j] h [of k] by (cases "k = i") (auto simp: mapped_def pi)
  have wf: "pte M' ?c k j AND fG \<noteq> 0 \<longleftrightarrow> pte M' ?c k j AND fNG = 0"
    if "has_table ?c k" "j < PAGES_PER_TABLE" "present (pte M' ?c k j)" for k j
    using that gl [of j] p [of k j] h [of k] laidD(6) [OF l, of k j] by (cases "k = i") (simp_all add: pi)
  have fr: "?c k AND fMASK = (if k = i then t' else c k AND fMASK)" for k using e' by simp
  have "tables_apart M' pd ?c"
    unfolding tables_apart_def
  proof (intro conjI allI impI)
    fix k assume "has_table ?c k" then show "?c k AND fMASK \<noteq> pd" using h fr new(1) laidD(2) [OF l] by auto
  next
    fix k k' assume "has_table ?c k" "has_table ?c k'" "?c k AND fMASK = ?c k' AND fMASK"
    then show "k = k'" unfolding h fr using new(3) laidD(3) [OF l] by (auto split: if_splits)
  next
    fix k j assume "mapped M' ?c k j" then show "pte M' ?c k j AND fMASK \<noteq> pd" using mm laidD(4) [OF l] by simp
  next
    fix k j k' assume "mapped M' ?c k j" "has_table ?c k'"
    then show "?c k' AND fMASK \<noteq> pte M' ?c k j AND fMASK"
      unfolding h fr using mm new(4) [of k j] laidD(5) [OF l] by (auto split: if_splits)
  qed (rule wf)
  moreover have "cow M' R0 ?c"
    unfolding cow_def
  proof (intro conjI allI impI)
    fix k assume k: "has_table ?c k"
    show "bit (?c k) 2" using k pe laidD(12) [OF l] unfolding h by auto
    assume "bit (?c k) 1" then show "?c k AND fMASK \<notin># R0"
      using k laidD(8) [OF l] new(2) unfolding h fr by (auto split: if_splits)
  next
    fix k j assume k: "mapped M' ?c k j"
    note m = mm [OF k]
    show "bit (pte M' ?c k j) 2" using m laidD(13) [OF l] by simp
    show "pte M' ?c k j AND fMASK \<in># R0" if "?c k AND fMASK \<in># R0"
      using that m new(2) laidD(7) [OF l] unfolding fr by (auto split: if_splits)
    assume b: "bit (pte M' ?c k j) 1"
    show "bit (?c k) 1" "pte M' ?c k j AND fMASK \<notin># R0"
      using m b laidD(9,10) [OF l] by auto
    fix k' j' assume "mapped M' ?c k' j'" "pte M' ?c k' j' AND fMASK = pte M' ?c k j AND fMASK"
    then show "k' = k" "j' = j" using mm [of k' j'] m b laidD(11) [OF l, of k j k' j'] by auto
  qed
  ultimately show ?thesis using laidD(1) [OF l] by (simp add: laid_def)
qed

lemma new_table_space:
  assumes sp: "space K R0 pd m" and i: "i < PAGES_PER_TABLE" and t': "t' \<notin># space_refs m R0 pd"
    and e': "e' AND fMASK = t'" "e' AND user_flags = user_flags"
    and h: "holds K (add_mset pd (R0 + add_mset t' (priv_refs (mem m' t') PAGES_PER_TABLE +
        table_refs (mem m) R0 ((mem m pd)(i := 0)) PAGES_PER_TABLE))) m'"
    and pd': "mem m' pd = (mem m pd)(i := e')"
    and k: "\<And>q. q \<in># R0 + (priv_refs (mem m' t') PAGES_PER_TABLE +
        table_refs (mem m) R0 ((mem m pd)(i := 0)) PAGES_PER_TABLE) \<Longrightarrow> mem m' q = mem m q"
    and gl: "\<And>j. j < PAGES_PER_TABLE \<Longrightarrow> present (mem m' t' j) \<Longrightarrow>
      (mem m' t' j AND fG \<noteq> 0 \<longleftrightarrow> mem m' t' j AND fNG = 0)"
    and pr: "\<And>j. j < PAGES_PER_TABLE \<Longrightarrow> priv (mem m' t' j) \<Longrightarrow> mapped (mem m) (mem m pd) i j \<and>
      mem m' t' j = pte (mem m) (mem m pd) i j \<and> \<not> bit (pte (mem m) (mem m pd) i j) 1"
    and all: "\<And>j. mapped (mem m) (mem m pd) i j \<Longrightarrow> mem m' t' j = pte (mem m) (mem m pd) i j"
  shows "space K R0 pd m'" "same_view pd m m'"
proof -
  let ?c = "mem m pd" and ?M = "mem m" and ?c' = "mem m' pd" and ?M' = "mem m'"
  let ?rest = "table_refs ?M R0 (?c(i := 0)) PAGES_PER_TABLE"
  have l: "laid ?M R0 pd ?c" using sp by (simp add: space_def)
  have pe: "priv e'" using e'(2) by (simp add: user_flags_iff)
  have tab: "?M' (?c k AND fMASK) = ?M (?c k AND fMASK)" if "has_table ?c k" "k \<noteq> i" for k
  proof (rule k)
    have "has_table (?c(i := 0)) k" using that by (simp add: has_table_def)
    from space_tables [OF this, of ?M R0]
    show "?c k AND fMASK \<in># R0 + (priv_refs (mem m' t') PAGES_PER_TABLE + ?rest)" using that by simp
  qed
  have l': "laid ?M' R0 pd ?c'"
    unfolding pd'
  proof (rule laid_new_table [OF l i])
    show "t' \<noteq> pd" "t' \<notin># R0" using t' by auto
    show "?c k AND fMASK \<noteq> t'" if "has_table ?c k" for k using space_tables [OF that, of ?M R0] t' by auto
    show "pte ?M ?c k j AND fMASK \<noteq> t'" if "mapped ?M ?c k j" for k j using space_pages [OF l that] t' by auto
  qed (fact e' tab gl pr)+
  have rest: "table_refs ?M' R0 (?c'(i := 0)) PAGES_PER_TABLE = ?rest"
  proof (rule table_refs_cong)
    fix j assume j: "j < PAGES_PER_TABLE" "priv ((?c'(i := 0)) j)"
    then have "j \<noteq> i" "has_table ?c j" by (auto simp: pd' has_table_def split: if_splits)
    then show "?M' ((?c'(i := 0)) j AND fMASK) = ?M ((?c'(i := 0)) j AND fMASK)" using tab by (simp add: pd')
  qed (simp add: pd')
  have "t' \<notin># R0" using t' by auto
  then have "entry_refs ?M' R0 e' = add_mset t' (priv_refs (?M' t') PAGES_PER_TABLE)"
    using pe e'(1) by (simp add: entry_refs_def)
  then have "table_refs ?M' R0 ?c' PAGES_PER_TABLE = add_mset t' (priv_refs (?M' t') PAGES_PER_TABLE + ?rest)"
    using table_refs_split [OF i, of ?M' R0 ?c'] rest by (simp add: pd')
  then show s': "space K R0 pd m'"
    using h l' by (simp add: space_def)
  show "same_view pd m m'"
    unfolding same_view_def
  proof (intro allI)
    fix k' j
    let ?p = "pte ?M ?c k' j"
    have pt: "mapped ?M ?c k' j \<Longrightarrow> pte ?M' ?c' k' j = ?p"
      using tab [of k'] all [of j] e' by (cases "k' = i") (auto simp: mapped_def pte_def pd')
    have m1: "mapped ?M' ?c' k' j \<Longrightarrow> mapped ?M ?c k' j"
      using tab [of k'] pr [of j] e' by (cases "k' = i") (auto simp: mapped_def has_table_def pte_def pd')
    have m2: "mapped ?M ?c k' j \<Longrightarrow> mapped ?M' ?c' k' j"
      using pt pe i by (cases "k' = i") (auto simp: mapped_def has_table_def pd')
    have "?M' (?p AND fMASK) = ?M (?p AND fMASK)" if m: "mapped ?M ?c k' j"
    proof (rule k)
      from space_pages [OF l' m2 [OF m]] pt [OF m]
      have "?p AND fMASK \<in># R0 + add_mset t' (priv_refs (?M' t') PAGES_PER_TABLE + ?rest)"
        by (simp add: \<open>table_refs ?M' R0 ?c' PAGES_PER_TABLE = _\<close>)
      moreover have "?p AND fMASK \<noteq> t'" using space_pages [OF l m] t' by auto
      ultimately show "?p AND fMASK \<in># R0 + (priv_refs (?M' t') PAGES_PER_TABLE + ?rest)" by simp
    qed
    then show "(mapped ?M' ?c' k' j \<longleftrightarrow> mapped ?M ?c k' j) \<and> (mapped ?M ?c k' j \<longrightarrow>
        pte ?M' ?c' k' j = ?p \<and> ?M' (?p AND fMASK) = ?M (?p AND fMASK))"
      using pt m1 m2 by blast
  qed
qed

end
