(* ===== verification/VMM_Fault.thy ===== *)
theory VMM_Fault
  imports VMM_Space
begin

text \<open>
  The page fault handler: it gives the running address space a page of its own at the faulting address, as
  demand paging or as copy-on-write, and no other page of any space changes.
\<close>

section \<open>The table of a page\<close>

lemma priv_refs_page_cong:
  "(\<And>j. j < n \<Longrightarrow> page_refs (f j) = page_refs (g j)) \<Longrightarrow> priv_refs f n = priv_refs g n"
proof (induction n)
  case (Suc n)
  have s: "priv_refs h (Suc n) = page_refs (h n) + priv_refs h n" for h by (simp add: page_refs_def)
  show ?case unfolding s using Suc by simp
qed simp

lemma priv_refs_zero [simp]: "priv_refs (\<lambda>_. 0) n = {#}"
  by (induction n) simp_all

lemma fP_one: "(e :: u32) AND 1 = 0 \<longleftrightarrow> \<not> present e"
  by (simp add: present_def fP_def)

lemma user_flags_low: "user_flags AND 0xFFF = user_flags" "user_flags AND 1 \<noteq> 0"
  by (simp_all add: flag_defs)

lemma join_flags:
  assumes "offset p = 0"
  shows "(p OR user_flags) AND fMASK = p" "(p OR user_flags) AND user_flags = user_flags"
    "(p OR (e AND 0xFFF) OR user_flags) AND fMASK = p"
    "(p OR (e AND 0xFFF) OR user_flags) AND user_flags = user_flags"
proof -
  note j = join_entry [OF assms]
  show "(p OR user_flags) AND fMASK = p" using j(1) [of user_flags] by (simp only: user_flags_low)
  have "(e AND 0xFFF) OR user_flags = (e OR user_flags) AND 0xFFF"
    using user_flags_low by (simp only: bit.conj_disj_distrib2)
  then show "(p OR (e AND 0xFFF) OR user_flags) AND fMASK = p"
    using j(1) [of "e OR user_flags"] by (simp only: or.assoc)
  show "(p OR user_flags) AND user_flags = user_flags"
    "(p OR (e AND 0xFFF) OR user_flags) AND user_flags = user_flags"
    by (auto simp: bit_eq_iff bit_simps)
qed

text \<open>What \<open>get_table\<close> promises: the directory entry of the page has all flags.\<close>

definition table_ready :: "u32 set \<Rightarrow> u32 multiset \<Rightarrow> u32 \<Rightarrow> nat \<Rightarrow> 'a pm_scheme \<Rightarrow> 'a pm_scheme \<Rightarrow> bool" where
  "table_ready K R0 pd i m m' \<longleftrightarrow> space K R0 pd m' \<and> same_view pd m m' \<and> keeps (set_mset R0 \<union> K) m m' \<and>
     mem m' pd i AND user_flags = user_flags \<and> (\<forall>k. k \<noteq> i \<longrightarrow> mem m' pd k = mem m pd k)"

lemma table_absent:
  assumes sp: "space K R0 pd m" and i: "i < PAGES_PER_TABLE" and ab: "\<not> present (mem m pd i)"
  shows "outcome {oom} (table_ready K R0 pd i m)
    (bindE (alloc_frame m) (\<lambda>(m, pt). Inr (write_word pd i (pt OR user_flags) m)))"
proof (rule outcome_bind [OF refs_ok_alloc])
  show h: "holds K (space_refs m R0 pd) m" using sp by (simp add: space_def)
  fix x :: "'a pm_scheme \<times> u32"
  obtain m1 t' where x: "x = (m1, t')" by (cases x)
  assume "case x of (m', p) \<Rightarrow> p \<notin># space_refs m R0 pd \<and> p \<notin> K \<and> holds K (add_mset p (space_refs m R0 pd)) m' \<and>
     mem m' p = (\<lambda>_. 0) \<and> keeps (set_mset (space_refs m R0 pd) \<union> K) m m' \<and> offset p = 0 \<and> p \<noteq> 0 \<and> start m \<le> p \<and> p < limit m"
  then have a: "t' \<notin># space_refs m R0 pd" "t' \<notin> K" "holds K (add_mset t' (space_refs m R0 pd)) m1"
    "mem m1 t' = (\<lambda>_. 0)" "keeps (set_mset (space_refs m R0 pd) \<union> K) m m1" "offset t' = 0"
    by (simp_all add: x)
  let ?m = "write_word pd i (t' OR user_flags) m1"
  have tp: "t' \<noteq> pd" using a(1) by auto
  then have t0: "mem ?m t' = (\<lambda>_. 0)" using a(4) by (simp add: write_word_def)
  have np: "\<not> priv (mem m pd i)" using ab priv_present by blast
  have "table_refs (mem m) R0 (mem m pd) PAGES_PER_TABLE = table_refs (mem m) R0 ((mem m pd)(i := 0)) PAGES_PER_TABLE"
    using table_refs_split [OF i, of "mem m" R0 "mem m pd"] np by (simp add: entry_refs_def)
  note rest = this
  have ho: "holds K (add_mset pd (R0 + add_mset t' (priv_refs (mem ?m t') PAGES_PER_TABLE +
        table_refs (mem m) R0 ((mem m pd)(i := 0)) PAGES_PER_TABLE))) ?m"
    using refs_ok_write_word [OF a(3), of pd] rest by (simp add: t0 add_mset_commute)
  have kp: "mem ?m q = mem m q" if "q \<in># space_refs m R0 pd" "q \<noteq> pd" for q
    using keeps_mem [OF a(5), of q] that by (auto simp: write_word_def)
  have l: "laid (mem m) R0 pd (mem m pd)" using sp by (simp add: space_def)
  note pdn = laid_pd [OF l]
  have nm: "\<not> mapped (mem m) (mem m pd) i j" for j using np by (simp add: mapped_def has_table_def)
  have pdm: "mem ?m pd = (mem m pd)(i := t' OR user_flags)"
    using keeps_mem [OF a(5), of pd] by (simp add: write_word_def)
  have q: "mem ?m q = mem m q" if "q \<in># R0 + (priv_refs (mem ?m t') PAGES_PER_TABLE +
      table_refs (mem m) R0 ((mem m pd)(i := 0)) PAGES_PER_TABLE)" for q
  proof (rule kp)
    have "q \<in># R0 + table_refs (mem m) R0 (mem m pd) PAGES_PER_TABLE" using that by (simp add: t0 rest)
    then show "q \<in># space_refs m R0 pd" "q \<noteq> pd" using pdn by auto
  qed
  have e: "\<not> present (mem ?m t' j)" "\<not> priv (mem ?m t' j)" for j by (simp_all add: t0)
  note nt = new_table_space [OF sp i a(1) join_flags(1,2) [OF a(6)] ho pdm]
  have "space K R0 pd ?m"
    by (rule nt(1)) (fact q | use e nm in blast)+
  moreover have "same_view pd m ?m"
    by (rule nt(2)) (fact q | use e nm in blast)+
  moreover have "keeps (set_mset R0 \<union> K) m ?m"
  proof -
    have "pd \<notin> set_mset R0 \<union> K" using pdn refs_ok_disjoint [OF h, of pd] by auto
    then have "keeps (set_mset R0 \<union> K) m1 ?m" unfolding write_word_def by (rule keeps_write)
    then show ?thesis by (rule keeps_trans [OF a(5)]) auto
  qed
  moreover have "mem ?m pd i AND user_flags = user_flags \<and> (\<forall>k. k \<noteq> i \<longrightarrow> mem ?m pd k = mem m pd k)"
    unfolding pdm using join_flags(2) [OF a(6)] by simp
  ultimately show "outcome {oom} (table_ready K R0 pd i m) (case x of (m, pt) \<Rightarrow> Inr (write_word pd i (pt OR user_flags) m))"
    by (simp add: x table_ready_def)
qed

text \<open>A copied read-only table: the same entries, so the same references.\<close>

lemma copied_read_only:
  assumes "copied U M M' e e'" "present e \<Longrightarrow> e AND fG = 0 \<Longrightarrow> \<not> bit e 1"
  shows "e' = (if present e then e else 0)"
  using assms flag_bits(2,3) [of e] by (auto simp: copied_def split: if_splits)

lemma shared_table_copy:
  assumes sp: "space K R0 pd m" and i: "has_table (mem m pd) i" and ro: "\<not> bit (mem m pd i) 1"
    and cp: "copying pend K R m (mem m (mem m pd i AND fMASK)) t' PAGES_PER_TABLE m1"
  shows "j < PAGES_PER_TABLE \<Longrightarrow> mem m1 t' j = (if present (pte (mem m) (mem m pd) i j) then pte (mem m) (mem m pd) i j else 0)"
    "priv_refs (mem m1 t') PAGES_PER_TABLE = priv_refs (mem m (mem m pd i AND fMASK)) PAGES_PER_TABLE"
proof -
  have l: "laid (mem m) R0 pd (mem m pd)" using sp by (simp add: space_def)
  show E: "mem m1 t' j = (if present (pte (mem m) (mem m pd) i j) then pte (mem m) (mem m pd) i j else 0)"
    if j: "j < PAGES_PER_TABLE" for j
  proof (rule copied_read_only)
    show "copied (insert t' (set_mset R \<union> K)) (mem m) (mem m1) (pte (mem m) (mem m pd) i j) (mem m1 t' j)"
      using cp j by (simp add: copying_def pte_def)
    assume "present (pte (mem m) (mem m pd) i j)" "pte (mem m) (mem m pd) i j AND fG = 0"
    then have "mapped (mem m) (mem m pd) i j"
      using laidD(6) [OF l i j] i j by (simp add: mapped_def priv_iff)
    then show "\<not> bit (pte (mem m) (mem m pd) i j) 1" using laidD(9) [OF l] ro by blast
  qed
  show "priv_refs (mem m1 t') PAGES_PER_TABLE = priv_refs (mem m (mem m pd i AND fMASK)) PAGES_PER_TABLE"
  proof (rule priv_refs_page_cong)
    fix j assume "j < PAGES_PER_TABLE"
    from E [OF this] show "page_refs (mem m1 t' j) = page_refs (mem m (mem m pd i AND fMASK) j)"
      using priv_present by (auto simp: page_refs_def pte_def)
  qed
qed

text \<open>Giving back the old table, which others may still hold.\<close>

lemma old_table_freed:
  assumes l: "laid M R0 pd c" and i: "has_table c i" and t': "t' \<noteq> c i AND fMASK"
  defines "t \<equiv> c i AND fMASK" and "P \<equiv> priv_refs (M (c i AND fMASK)) PAGES_PER_TABLE"
    and "rest \<equiv> table_refs M R0 (c(i := 0)) PAGES_PER_TABLE"
  defines "R1 \<equiv> add_mset t' (add_mset pd (R0 + table_refs M R0 c PAGES_PER_TABLE) + P)"
  shows "after_free (M t) t R1 = add_mset pd (R0 + add_mset t' (P + rest))"
    "t \<in># R1" "count R1 t = 1 \<Longrightarrow> P \<subseteq># R1 - {#t#}"
proof -
  have i': "i < PAGES_PER_TABLE" "priv (c i)" using i by (simp_all add: has_table_def)
  have T: "table_refs M R0 c PAGES_PER_TABLE = add_mset t ((if t \<in># R0 then {#} else P) + rest)"
    using table_refs_split [OF i'(1), of M R0 c] i' by (simp add: entry_refs_def t_def P_def rest_def)
  have tP: "t \<notin># P"
  proof
    assume "t \<in># P"
    then obtain j where "mapped M c i j" "t = pte M c i j AND fMASK"
      using priv_refs_memD [of t] i unfolding P_def mapped_def pte_def by blast
    then show False using laidD(5) [OF l _ i] t_def by metis
  qed
  have h0: "has_table (c(i := 0)) k \<longleftrightarrow> has_table c k \<and> k \<noteq> i" for k by (auto simp: has_table_def)
  have "t \<notin># rest"
  proof
    assume "t \<in># rest"
    then consider k where "has_table c k" "k \<noteq> i" "t = c k AND fMASK"
      | k j where "mapped M c k j" "t = pte M c k j AND fMASK"
      using h0 unfolding rest_def table_refs_mem by (auto simp: mapped_def pte_def split: if_splits)
    then show False
    proof cases
      case 1 then show False using laidD(3) [OF l i, of k] t_def by metis
    next
      case 2 then show False using laidD(5) [OF l 2(1) i] t_def by metis
    qed
  qed
  moreover have "t \<noteq> pd" "t \<noteq> t'" using laidD(2) [OF l i] t' by (auto simp: t_def)
  ultimately have c: "count R1 t = count R0 t + 1"
    using tP by (simp add: R1_def T not_in_iff)
  show "t \<in># R1" by (rule count_in) (simp add: c)
  show "after_free (M t) t R1 = add_mset pd (R0 + add_mset t' (P + rest))"
  proof (cases "t \<in># R0")
    case True
    then have "1 < count R1 t" using c by simp
    then show ?thesis using True by (simp add: after_free_def R1_def T multiset_eq_iff)
  next
    case False
    then have "count R1 t = 1" using c by (simp add: not_in_iff)
    then have "after_free (M t) t R1 = R1 - {#t#} - P" by (simp add: after_free_def P_def t_def)
    then show ?thesis using False by (simp add: R1_def T multiset_eq_iff)
  qed
  show "P \<subseteq># R1 - {#t#}" if "count R1 t = 1"
    using that c by (auto simp: R1_def T not_in_iff subseteq_mset_def)
qed

lemma table_shared:
  assumes sp: "space K R0 pd m" and i: "has_table (mem m pd) i" and ro: "\<not> bit (mem m pd i) 1"
    and few: "\<And>p. p \<in># priv_refs (mem m (mem m pd i AND fMASK)) PAGES_PER_TABLE \<Longrightarrow>
      count (space_refs m R0 pd) p + 1024 < 0xFFFF"
  shows "outcome {oom} (table_ready K R0 pd i m)
    (bindE (copy_pt (mem m pd i AND fMASK) m) (\<lambda>(m', pt).
       decref (mem m pd i AND fMASK) destroy_pt (write_word pd i (pt OR (mem m pd i AND 0xFFF) OR user_flags) m')))"
proof -
  let ?t = "mem m pd i AND fMASK" and ?R = "space_refs m R0 pd" and ?c = "mem m pd"
  let ?P = "priv_refs (mem m ?t) PAGES_PER_TABLE" and ?rest = "table_refs (mem m) R0 (?c(i := 0)) PAGES_PER_TABLE"
  have h: "holds K ?R m" and l: "laid (mem m) R0 pd ?c" using sp by (simp_all add: space_def)
  have i': "i < PAGES_PER_TABLE" "priv (?c i)" using i by (simp_all add: has_table_def)
  have tR: "?t \<in># ?R" using space_tables [OF i, of "mem m" R0] by simp
  show ?thesis
  proof (rule outcome_bind [OF copy_pt_refs [OF h disjI1 [OF tR] space_wf_table [OF l i] few]])
    fix x :: "'a pm_scheme \<times> u32"
    obtain m1 t' where x: "x = (m1, t')" by (cases x)
    assume "case x of (m', new) \<Rightarrow> new \<notin># ?R \<and> new \<notin> K \<and> offset new = 0 \<and>
      copying (\<lambda>_. 0) K ?R m (mem m ?t) new PAGES_PER_TABLE m'"
    then have a: "t' \<notin># ?R" "t' \<notin> K" "offset t' = 0" and cp: "copying (\<lambda>_. 0) K ?R m (mem m ?t) t' PAGES_PER_TABLE m1"
      by (simp_all add: x)
    note E = shared_table_copy [OF sp i ro cp]
    define e' where "e' = t' OR (?c i AND 0xFFF) OR user_flags"
    have e: "e' AND fMASK = t'" "e' AND user_flags = user_flags" unfolding e'_def by (rule join_flags [OF a(3)])+
    let ?m = "write_word pd i e' m1"
    have tt: "t' \<noteq> ?t" "t' \<noteq> pd" using a(1) tR by auto
    have k1: "keeps (set_mset ?R \<union> K) m m1" using cp by (simp add: copying_def)
    have h1: "holds K (add_mset t' (?R + ?P)) ?m"
      using cp refs_ok_write_word [of "\<lambda>_. 0" K "add_mset t' (?R + ?P)" m1 pd i e'] unfolding E(2) [symmetric] copying_def by simp
    have kq: "mem ?m q = mem m q" if "q \<in># ?R" "q \<noteq> pd" for q
      using keeps_mem [OF k1, of q] that by (auto simp: write_word_def)
    have mt: "mem ?m ?t = mem m ?t" by (rule kq [OF tR laidD(2) [OF l i]])
    note of = old_table_freed [OF l i tt(1)]
    have "roomy (Suc (Suc 0)) (\<lambda>_. 0)" by simp
    from free_table_refs [OF h1 of(2) this] of(3)
    obtain m2 where m2: "decref ?t destroy_pt ?m = Inr m2"
      "holds K (after_free (mem ?m ?t) ?t (add_mset t' (?R + ?P))) m2"
      "keeps (set_mset (after_free (mem ?m ?t) ?t (add_mset t' (?R + ?P))) \<union> K) ?m m2"
      unfolding mt by blast
    note h2 = m2(2) [unfolded mt of(1)] and k2 = m2(3) [unfolded mt of(1)]
    have m2t: "mem m2 t' = mem m1 t'" using keeps_mem [OF k2, of t'] tt by (simp add: write_word_def)
    have m2pd: "mem m2 pd = ?c(i := e')"
      using keeps_mem [OF k2, of pd] keeps_mem [OF k1, of pd] by (simp add: write_word_def)
    have P2: "priv_refs (mem m2 t') PAGES_PER_TABLE = ?P" unfolding m2t by (rule E(2))
    have split: "table_refs (mem m) R0 ?c PAGES_PER_TABLE = add_mset ?t ((if ?t \<in># R0 then {#} else ?P) + ?rest)"
      using table_refs_split [OF i'(1), of "mem m" R0 ?c] i' by (simp add: entry_refs_def)
    have pages: "p \<in># R0 + table_refs (mem m) R0 ?c PAGES_PER_TABLE" if "p \<in># ?P" for p
    proof -
      obtain j where "mapped (mem m) ?c i j" "p = pte (mem m) ?c i j AND fMASK"
        using priv_refs_memD [OF \<open>p \<in># ?P\<close>] i by (auto simp: mapped_def pte_def)
      then show ?thesis using space_pages [OF l] by simp
    qed
    have q: "mem m2 q = mem m q" if q: "q \<in># R0 + (priv_refs (mem m2 t') PAGES_PER_TABLE + ?rest)" for q
    proof -
      have "q \<in># R0 + table_refs (mem m) R0 ?c PAGES_PER_TABLE"
        using q pages [of q] unfolding P2 by (auto simp: split)
      then have "q \<noteq> pd" "mem ?m q = mem m q" using laid_pd [OF l] kq [of q] by auto
      moreover have "mem m2 q = mem ?m q" by (rule keeps_mem [OF k2]) (use q in \<open>auto simp: P2\<close>)
      ultimately show ?thesis by simp
    qed
    have E2: "mem m2 t' j = (if present (pte (mem m) ?c i j) then pte (mem m) ?c i j else 0)" if "j < PAGES_PER_TABLE" for j
      unfolding m2t by (rule E(1) [OF that])
    have gl: "mem m2 t' j AND fG \<noteq> 0 \<longleftrightarrow> mem m2 t' j AND fNG = 0" if "j < PAGES_PER_TABLE" "present (mem m2 t' j)" for j
      using that(2) laidD(6) [OF l i that(1)] unfolding E2 [OF that(1)] by (auto split: if_splits)
    have pr: "mapped (mem m) ?c i j \<and> mem m2 t' j = pte (mem m) ?c i j \<and> \<not> bit (pte (mem m) ?c i j) 1"
      if j: "j < PAGES_PER_TABLE" "priv (mem m2 t' j)" for j
    proof -
      have "mem m2 t' j = pte (mem m) ?c i j" "priv (pte (mem m) ?c i j)"
        using j(2) unfolding E2 [OF j(1)] by (auto split: if_splits)
      moreover from this have "mapped (mem m) ?c i j" using i j by (simp add: mapped_def)
      ultimately show ?thesis using laidD(9) [OF l] ro by blast
    qed
    have al: "mem m2 t' j = pte (mem m) ?c i j" if "mapped (mem m) ?c i j" for j
      using that E2 [of j] priv_present by (auto simp: mapped_def)
    have h3: "holds K (add_mset pd (R0 + add_mset t' (priv_refs (mem m2 t') PAGES_PER_TABLE + ?rest))) m2"
      unfolding P2 by (rule h2)
    note nt = new_table_space [OF sp i'(1) a(1) e h3 m2pd]
    have "space K R0 pd m2" by (rule nt(1)) (fact q gl pr al)+
    moreover have "same_view pd m m2" by (rule nt(2)) (fact q gl pr al)+
    moreover have "keeps (set_mset R0 \<union> K) m m2"
    proof -
      have "pd \<notin> set_mset R0 \<union> K" using laid_pd [OF l] refs_ok_disjoint [OF h, of pd] by auto
      then have "keeps (set_mset R0 \<union> K) m1 ?m" unfolding write_word_def by (rule keeps_write)
      then have "keeps (set_mset R0 \<union> K) m ?m" by (rule keeps_trans [OF k1]) auto
      then show ?thesis by (rule keeps_trans [OF _ k2]) auto
    qed
    moreover have "mem m2 pd i AND user_flags = user_flags \<and> (\<forall>k. k \<noteq> i \<longrightarrow> mem m2 pd k = ?c k)"
      unfolding m2pd using e(2) by simp
    ultimately show "outcome {oom} (table_ready K R0 pd i m) (case x of (m', pt) \<Rightarrow>
       decref ?t destroy_pt (write_word pd i (pt OR (?c i AND 0xFFF) OR user_flags) m'))"
      using m2(1) by (simp add: x table_ready_def e'_def)
  qed
qed

lemma get_table_ready:
  assumes sp: "space K R0 pd m" and i: "i < PAGES_PER_TABLE" and pr: "present (mem m pd i) \<Longrightarrow> priv (mem m pd i)"
    and few: "\<And>p. priv (mem m pd i) \<Longrightarrow> p \<in># priv_refs (mem m (mem m pd i AND fMASK)) PAGES_PER_TABLE \<Longrightarrow>
      count (space_refs m R0 pd) p + 1024 < 0xFFFF"
  shows "outcome {oom} (table_ready K R0 pd i m) (get_table pd i user_flags m)"
proof -
  have l: "laid (mem m) R0 pd (mem m pd)" using sp by (simp add: space_def)
  note f = user_flags_low(2)
  show ?thesis
  proof (cases "present (mem m pd i)")
    case False
    then show ?thesis
      using table_absent [OF sp i False] f by (simp add: get_table_def fP_one Let_def ASSERT_def)
  next
    case True
    have h: "has_table (mem m pd) i" using pr [OF True] i by (simp add: has_table_def)
    have ng: "mem m pd i AND fNG \<noteq> 0" using pr [OF True] by (simp add: priv_iff)
    show ?thesis
    proof (cases "mem m pd i AND user_flags = user_flags")
      case True
      then show ?thesis using \<open>present (mem m pd i)\<close> sp f
        by (simp add: get_table_def fP_one Let_def ASSERT_def table_ready_def)
    next
      case False
      then have "\<not> bit (mem m pd i) 1" using laidD(12) [OF l h] pr [OF True] user_flags_iff by blast
      from table_shared [OF sp h this few] pr [OF True] show ?thesis
        using False True f ng by (simp add: get_table_def fP_one Let_def ASSERT_def)
    qed
  qed
qed

section \<open>A page gets a new frame\<close>

lemma laid_new_page:
  assumes l: "laid M R0 pd c" and i: "has_table c i" and j: "j < PAGES_PER_TABLE" and rw: "bit (c i) 1"
    and pa: "pa \<noteq> pd" "pa \<notin># R0" "\<And>k. has_table c k \<Longrightarrow> c k AND fMASK \<noteq> pa"
      "\<And>k n. mapped M c k n \<Longrightarrow> (k, n) \<noteq> (i, j) \<Longrightarrow> pte M c k n AND fMASK \<noteq> pa"
    and e': "e' AND fMASK = pa" "e' AND user_flags = user_flags" "e' AND fG = 0"
    and M': "\<And>k n. has_table c k \<Longrightarrow> n < PAGES_PER_TABLE \<Longrightarrow>
      pte M' c k n = (if (k, n) = (i, j) then e' else pte M c k n)"
  shows "laid M' R0 pd c" "mapped M' c k n \<longleftrightarrow> (k, n) = (i, j) \<or> mapped M c k n"
proof -
  have pe: "priv e'" "bit e' 1" "bit e' 2" using e'(2) by (auto simp: user_flags_iff)
  have mm: "mapped M' c k n \<longleftrightarrow> (k, n) = (i, j) \<or> mapped M c k n" for k n
    using M' [of k n] i j pe by (auto simp: mapped_def)
  then show "mapped M' c k n \<longleftrightarrow> (k, n) = (i, j) \<or> mapped M c k n" .
  have p: "pte M' c k n = (if (k, n) = (i, j) then e' else pte M c k n)" if "mapped M' c k n" for k n
    using M' that by (simp add: mapped_def)
  have fr: "pte M' c k n AND fMASK = (if (k, n) = (i, j) then pa else pte M c k n AND fMASK)" if "mapped M' c k n" for k n
    using p [OF that] e' by simp
  have ti: "c i AND fMASK \<notin># R0" by (rule laidD(8) [OF l i rw])
  have "tables_apart M' pd c"
    unfolding tables_apart_def
  proof (intro conjI allI impI)
    fix k assume "has_table c k" then show "c k AND fMASK \<noteq> pd" by (rule laidD(2) [OF l])
  next
    fix k k' assume "has_table c k" "has_table c k'" "c k AND fMASK = c k' AND fMASK"
    then show "k = k'" by (rule laidD(3) [OF l])
  next
    fix k n assume m: "mapped M' c k n"
    then show "pte M' c k n AND fMASK \<noteq> pd" unfolding fr [OF m] using mm laidD(4) [OF l] pa(1) by auto
    fix k' assume "has_table c k'"
    then show "c k' AND fMASK \<noteq> pte M' c k n AND fMASK"
      unfolding fr [OF m] using m mm laidD(5) [OF l] pa(3) by (auto split: if_splits)
  next
    fix k n assume "has_table c k" "n < PAGES_PER_TABLE" "present (pte M' c k n)"
    then show "(pte M' c k n AND fG \<noteq> 0) = (pte M' c k n AND fNG = 0)"
      using M' [of k n] laidD(6) [OF l, of k n] e'(3) pe(1) by (auto simp: priv_iff split: if_splits)
  qed
  moreover have "cow M' R0 c"
    unfolding cow_def
  proof (intro conjI allI impI)
    fix k assume k: "has_table c k"
    then show "bit (c k) 2" by (rule laidD(12) [OF l])
    show "bit (c k) 1 \<Longrightarrow> c k AND fMASK \<notin># R0" by (rule laidD(8) [OF l k])
  next
    fix k n assume m: "mapped M' c k n"
    then show "bit (pte M' c k n) 2" using p mm laidD(13) [OF l] pe by auto
    show "pte M' c k n AND fMASK \<in># R0" if "c k AND fMASK \<in># R0"
      using that m mm laidD(7) [OF l] ti unfolding fr [OF m] by (auto split: if_splits)
    assume b: "bit (pte M' c k n) 1"
    show "bit (c k) 1" using m mm [of k n] p [OF m] b rw laidD(9) [OF l, of k n] by (cases "(k, n) = (i, j)") auto
    show "pte M' c k n AND fMASK \<notin># R0" using m mm p b pa(2) e' laidD(10) [OF l] by auto
    fix k' n' assume m': "mapped M' c k' n'" and eq: "pte M' c k' n' AND fMASK = pte M' c k n AND fMASK"
    show "k' = k" "n' = n"
      using m m' eq b p [OF m] mm pa(4) [of k' n'] pa(4) [of k n] laidD(11) [OF l, of k n k' n']
      unfolding fr [OF m] fr [OF m'] by (auto split: if_splits)
  qed
  ultimately show "laid M' R0 pd c" using laidD(1) [OF l] by (simp add: laid_def)
qed

text \<open>A frame that somebody else holds for the time being.\<close>

lemma laid_lend:
  assumes "\<And>k. has_table c k \<Longrightarrow> c k AND fMASK \<noteq> pa" "\<And>k n. mapped M c k n \<Longrightarrow> pte M c k n AND fMASK \<noteq> pa" "pa \<noteq> pd"
  shows "laid M (add_mset pa R0) pd c \<longleftrightarrow> laid M R0 pd c"
    "table_refs M (add_mset pa R0) c PAGES_PER_TABLE = table_refs M R0 c PAGES_PER_TABLE"
proof -
  have t: "has_table c k \<Longrightarrow> c k AND fMASK \<in># add_mset pa R0 \<longleftrightarrow> c k AND fMASK \<in># R0" for k
    using assms(1) by auto
  have p: "mapped M c k n \<Longrightarrow> pte M c k n AND fMASK \<in># add_mset pa R0 \<longleftrightarrow> pte M c k n AND fMASK \<in># R0" for k n
    using assms(2) by auto
  have h: "mapped M c k n \<Longrightarrow> has_table c k" for k n by (simp add: mapped_def)
  have "cow M (add_mset pa R0) c \<longleftrightarrow> cow M R0 c"
    unfolding cow_def using t p h by meson
  moreover have "pd \<notin># add_mset pa R0 \<longleftrightarrow> pd \<notin># R0" using assms(3) by auto
  ultimately show "laid M (add_mset pa R0) pd c \<longleftrightarrow> laid M R0 pd c" by (simp add: laid_def)
  have "table_refs M (add_mset pa R0) c n = table_refs M R0 c n" if "n \<le> PAGES_PER_TABLE" for n
    using that
  proof (induction n)
    case (Suc n)
    have "priv (c n) \<Longrightarrow> c n AND fMASK \<in># add_mset pa R0 \<longleftrightarrow> c n AND fMASK \<in># R0"
      using t [of n] Suc.prems by (simp add: has_table_def)
    then show ?case using Suc by auto
  qed simp
  then show "table_refs M (add_mset pa R0) c PAGES_PER_TABLE = table_refs M R0 c PAGES_PER_TABLE" by blast
qed

definition other_pages :: "u32 \<Rightarrow> nat \<Rightarrow> nat \<Rightarrow> 'a pm_scheme \<Rightarrow> 'a pm_scheme \<Rightarrow> bool" where
  "other_pages pd i j m m' \<longleftrightarrow> (\<forall>k n. (k, n) \<noteq> (i, j) \<longrightarrow>
     (mapped (mem m') (mem m' pd) k n \<longleftrightarrow> mapped (mem m) (mem m pd) k n) \<and>
     (mapped (mem m) (mem m pd) k n \<longrightarrow> pte (mem m') (mem m' pd) k n = pte (mem m) (mem m pd) k n \<and>
        mem m' (pte (mem m) (mem m pd) k n AND fMASK) = mem m (pte (mem m) (mem m pd) k n AND fMASK)))"

lemma same_view_other: "same_view pd m m1 \<Longrightarrow> other_pages pd i j m1 m2 \<Longrightarrow> other_pages pd i j m m2"
  unfolding same_view_def other_pages_def by metis

lemma same_view_trans: "same_view pd m m1 \<Longrightarrow> same_view pd m1 m2 \<Longrightarrow> same_view pd m m2"
  unfolding same_view_def by metis

lemma user_flags_G: "offset pa = 0 \<Longrightarrow> (pa OR user_flags) AND fG = 0"
proof -
  assume o: "offset pa = 0"
  have "\<not> bit (user_flags :: u32) 9" by (simp add: flag_defs)
  moreover have "bit (pa OR user_flags) 9 = bit user_flags 9"
    using join_entry(3) [OF o, of 9 user_flags] unfolding user_flags_low by simp
  ultimately have "\<not> bit (pa OR user_flags) 9" by (simp only: not_False_eq_True)
  then show ?thesis using flag_bits(3) by blast
qed

lemma entry_split:
  assumes "has_table c i" "j < PAGES_PER_TABLE" "c i AND fMASK \<notin># R0"
  shows "table_refs M R0 c PAGES_PER_TABLE = add_mset (c i AND fMASK) (page_refs (pte M c i j) +
    (priv_refs ((M (c i AND fMASK))(j := 0)) PAGES_PER_TABLE + table_refs M R0 (c(i := 0)) PAGES_PER_TABLE))"
  using assms table_refs_split [of i PAGES_PER_TABLE M R0 c] priv_refs_split [of j PAGES_PER_TABLE "M (c i AND fMASK)"]
  by (simp add: has_table_def entry_refs_def pte_def)

lemma page_placed:
  assumes l: "laid (mem m) R0 pd (mem m pd)" and i: "has_table (mem m pd) i" and j: "j < PAGES_PER_TABLE"
    and fl: "mem m pd i AND user_flags = user_flags" and o: "offset pa = 0"
    and pa: "pa \<noteq> pd" "pa \<notin># R0" "\<And>k. has_table (mem m pd) k \<Longrightarrow> mem m pd k AND fMASK \<noteq> pa"
      "\<And>k n. mapped (mem m) (mem m pd) k n \<Longrightarrow> pte (mem m) (mem m pd) k n AND fMASK \<noteq> pa"
    and T: "T = table_refs (mem m) R0 (mem m pd) PAGES_PER_TABLE - page_refs (pte (mem m) (mem m pd) i j)"
    and h: "holds K (add_mset pd (R0 + add_mset pa T)) mx"
    and k: "\<And>q. q \<in># add_mset pd (R0 + T) \<Longrightarrow> mem mx q = mem m q"
  defines "m' \<equiv> write_word (mem m pd i AND fMASK) j (pa OR user_flags) mx"
  shows "space K R0 pd m'" "other_pages pd i j m m'" "mapped (mem m') (mem m' pd) i j"
    "pte (mem m') (mem m' pd) i j = pa OR user_flags" "mem m' pa = mem mx pa" "mem m' pd = mem m pd"
proof -
  let ?c = "mem m pd" let ?t = "?c i AND fMASK" and ?M = "mem m" and ?M' = "mem m'"
  let ?Q = "priv_refs ((?M ?t)(j := 0)) PAGES_PER_TABLE" and ?rest = "table_refs ?M R0 (?c(i := 0)) PAGES_PER_TABLE"
  have rw: "bit (?c i) 1" using fl by (simp add: user_flags_iff)
  have tR: "?t \<notin># R0" by (rule laidD(8) [OF l i rw])
  have Ts: "T = add_mset ?t (?Q + ?rest)" unfolding T entry_split [OF i j tR, of ?M] by (simp add: multiset_eq_iff)
  have tpd: "?t \<noteq> pd" by (rule laidD(2) [OF l i])
  have tpa: "?t \<noteq> pa" by (rule pa(3) [OF i])
  have c': "?M' pd = ?c" using k [of pd] tpd by (simp add: m'_def write_word_def)
  then show "?M' pd = ?c" .
  show mpa: "?M' pa = mem mx pa" using tpa by (simp add: m'_def write_word_def)
  have mt: "?M' ?t = (?M ?t)(j := pa OR user_flags)" using k [of ?t] by (simp add: m'_def write_word_def Ts)
  have tabk: "?M' (?c k AND fMASK) = ?M (?c k AND fMASK)" if "has_table ?c k" "k \<noteq> i" for k
  proof -
    have "has_table (?c(i := 0)) k" using that by (simp add: has_table_def)
    from space_tables [OF this, of ?M R0] have "?c k AND fMASK \<in># T" using that by (simp add: Ts)
    moreover have "?c k AND fMASK \<noteq> ?t" using laidD(3) [OF l that(1) i] that(2) by blast
    ultimately show ?thesis using k [of "?c k AND fMASK"] by (simp add: m'_def write_word_def)
  qed
  have M': "pte ?M' ?c k n = (if (k, n) = (i, j) then pa OR user_flags else pte ?M ?c k n)" if "has_table ?c k" for k n
    using tabk [OF that] mt by (cases "k = i") (auto simp: pte_def)
  note e = join_flags(1,2) [OF o] user_flags_G [OF o]
  note np = laid_new_page [OF l i j rw pa(1-3) pa(4) e M']
  have l': "laid ?M' R0 pd ?c" by (rule np(1))
  have mp: "mapped ?M' ?c k n \<longleftrightarrow> (k, n) = (i, j) \<or> mapped ?M ?c k n" for k n by (rule np(2))
  show mij: "mapped ?M' (?M' pd) i j" unfolding c' mp by simp
  show pij: "pte ?M' (?M' pd) i j = pa OR user_flags" unfolding c' using M' [OF i, of j] by simp
  have rest: "table_refs ?M' R0 (?c(i := 0)) PAGES_PER_TABLE = ?rest"
  proof (rule table_refs_cong)
    fix n assume n: "n < PAGES_PER_TABLE" "priv ((?c(i := 0)) n)"
    then have "n \<noteq> i" "has_table ?c n" by (auto simp: has_table_def split: if_splits)
    then show "?M' ((?c(i := 0)) n AND fMASK) = ?M ((?c(i := 0)) n AND fMASK)" using tabk by simp
  qed simp
  have pg: "page_refs (pa OR user_flags) = {#pa#}"
    using user_flags_iff [THEN iffD1, OF e(2)] e(1) unfolding page_refs_def by (simp only: if_True)
  have T': "table_refs ?M' R0 ?c PAGES_PER_TABLE = add_mset pa T"
    unfolding entry_split [OF i j tR, of ?M'] rest using pij mt by (simp add: c' pg Ts)
  have "holds K (add_mset pd (R0 + add_mset pa T)) m'"
    unfolding m'_def by (rule refs_ok_write_word [OF h]) (simp add: Ts)
  then have "holds K (space_refs m' R0 pd) m'" unfolding c' T' .
  then show "space K R0 pd m'" using l' by (simp add: space_def c')
  show "other_pages pd i j m m'"
    unfolding other_pages_def c'
  proof (intro allI impI conjI)
    fix k' n assume kn: "(k', n) \<noteq> (i, j)"
    show "mapped ?M' ?c k' n = mapped ?M ?c k' n" using mp kn by blast
    assume m: "mapped ?M ?c k' n"
    show "pte ?M' ?c k' n = pte ?M ?c k' n" using M' [of k' n] m kn by (auto simp: mapped_def)
    then have "pte ?M ?c k' n AND fMASK \<in># R0 + add_mset pa T"
      using space_pages [OF l', of k' n] m mp by (simp add: T')
    then have "pte ?M ?c k' n AND fMASK \<in># add_mset pd (R0 + T)" using pa(4) [OF m] by auto
    moreover have "pte ?M ?c k' n AND fMASK \<noteq> ?t" using laidD(5) [OF l m i] by metis
    ultimately show "?M' (pte ?M ?c k' n AND fMASK) = ?M (pte ?M ?c k' n AND fMASK)"
      using k by (simp add: m'_def write_word_def)
  qed
qed

end
