(* ===== verification/VMM_Pages.thy ===== *)
theory VMM_Pages
  imports VMM_Fault
begin

text \<open>
  What a page fault does to the running address space, and what follows for its memory: a store changes
  one word of one page of one space.
\<close>

section \<open>A fresh frame\<close>

lemma laid_cong:
  assumes "\<And>k. has_table c k \<Longrightarrow> M' (c k AND fMASK) = M (c k AND fMASK)"
  shows "laid M' R0 pd c \<longleftrightarrow> laid M R0 pd c" "mapped M' c = mapped M c"
    "has_table c k \<Longrightarrow> pte M' c k = pte M c k"
    "table_refs M' R0 c PAGES_PER_TABLE = table_refs M R0 c PAGES_PER_TABLE"
proof -
  have p: "has_table c k \<Longrightarrow> pte M' c k = pte M c k" for k using assms by (simp add: fun_eq_iff pte_def)
  then show "has_table c k \<Longrightarrow> pte M' c k = pte M c k" .
  show m: "mapped M' c = mapped M c" using p by (auto simp: fun_eq_iff mapped_def)
  have h: "mapped M c k n \<Longrightarrow> has_table c k" for k n by (simp add: mapped_def)
  have pm: "mapped M c k n \<Longrightarrow> pte M' c k n = pte M c k n" for k n using p [OF h] by simp
  have ph: "has_table c k \<Longrightarrow> pte M' c k n = pte M c k n" for k n using p by simp
  have "tables_apart M' pd c = tables_apart M pd c"
    unfolding tables_apart_def m by (simp add: pm ph cong: conj_cong imp_cong)
  moreover have "cow M' R0 c = cow M R0 c"
    unfolding cow_def m by (simp add: pm ph cong: conj_cong imp_cong)
  ultimately show "laid M' R0 pd c \<longleftrightarrow> laid M R0 pd c" by (simp add: laid_def)
  show "table_refs M' R0 c PAGES_PER_TABLE = table_refs M R0 c PAGES_PER_TABLE"
    by (rule table_refs_cong) (simp_all add: assms has_table_def)
qed

definition lent :: "u32 set \<Rightarrow> u32 multiset \<Rightarrow> u32 \<Rightarrow> u32 \<Rightarrow> 'a pm_scheme \<Rightarrow> 'a pm_scheme \<Rightarrow> bool" where
  "lent K R0 pd pa m m' \<longleftrightarrow> space K (add_mset pa R0) pd m' \<and> keeps (set_mset (space_refs m R0 pd) \<union> K) m m' \<and>
     pa \<notin># space_refs m R0 pd \<and> pa \<notin> K \<and> offset pa = 0 \<and> mem m' pa = (\<lambda>_. 0)"

lemma space_alloc:
  assumes sp: "space K R0 pd m"
  shows "outcome {oom} (\<lambda>(m', pa). lent K R0 pd pa m m') (alloc_frame m)"
proof (rule outcome_mono [OF refs_ok_alloc])
  show h: "holds K (space_refs m R0 pd) m" using sp by (simp add: space_def)
  have l: "laid (mem m) R0 pd (mem m pd)" using sp by (simp add: space_def)
  fix x :: "'a pm_scheme \<times> u32"
  obtain m1 pa where x: "x = (m1, pa)" by (cases x)
  assume "case x of (m', p) \<Rightarrow> p \<notin># space_refs m R0 pd \<and> p \<notin> K \<and> holds K (add_mset p (space_refs m R0 pd)) m' \<and>
     mem m' p = (\<lambda>_. 0) \<and> keeps (set_mset (space_refs m R0 pd) \<union> K) m m' \<and> offset p = 0 \<and> p \<noteq> 0 \<and> start m \<le> p \<and> p < limit m"
  then have a: "pa \<notin># space_refs m R0 pd" "pa \<notin> K" "holds K (add_mset pa (space_refs m R0 pd)) m1"
    "mem m1 pa = (\<lambda>_. 0)" "keeps (set_mset (space_refs m R0 pd) \<union> K) m m1" "offset pa = 0"
    by (simp_all add: x)
  have c: "mem m1 pd = mem m pd" using keeps_mem [OF a(5), of pd] by simp
  have t: "mem m1 (mem m pd k AND fMASK) = mem m (mem m pd k AND fMASK)" if "has_table (mem m pd) k" for k
    using keeps_mem [OF a(5)] space_tables [OF that, of "mem m" R0] by simp
  note lc = laid_cong [of "mem m pd" "mem m1" "mem m", OF t]
  have n: "mem m pd k AND fMASK \<noteq> pa" if "has_table (mem m pd) k" for k
    using space_tables [OF that, of "mem m" R0] a(1) by auto
  have n': "pte (mem m) (mem m pd) k n AND fMASK \<noteq> pa" if "mapped (mem m) (mem m pd) k n" for k n
    using space_pages [OF l that] a(1) by auto
  have "pa \<noteq> pd" using a(1) by auto
  note ll = laid_lend [of "mem m pd" pa "mem m", OF n n' this]
  have "table_refs (mem m1) (add_mset pa R0) (mem m1 pd) PAGES_PER_TABLE = table_refs (mem m) R0 (mem m pd) PAGES_PER_TABLE"
    unfolding c using lc(4) [of "add_mset pa R0"] ll(2) [of R0] by simp
  moreover have "laid (mem m1) (add_mset pa R0) pd (mem m1 pd)"
    unfolding c using lc(1) [of "add_mset pa R0"] ll(1) [of R0] l by simp
  ultimately have "space K (add_mset pa R0) pd m1" using a(3) by (simp add: space_def add_mset_commute)
  then show "case x of (m', pa) \<Rightarrow> lent K R0 pd pa m m'" using a by (simp add: x lent_def)
qed

lemma lentD:
  assumes sp: "space K R0 pd m" and le: "lent K R0 pd pa m m1"
  shows "mem m1 pd = mem m pd" "mapped (mem m1) (mem m1 pd) = mapped (mem m) (mem m pd)"
    "has_table (mem m pd) k \<Longrightarrow> pte (mem m1) (mem m1 pd) k = pte (mem m) (mem m pd) k"
    "has_table (mem m1 pd) k \<Longrightarrow> mem m1 pd k AND fMASK \<noteq> pa"
    "mapped (mem m1) (mem m1 pd) k n \<Longrightarrow> pte (mem m1) (mem m1 pd) k n AND fMASK \<noteq> pa"
    "same_view pd m m1" "keeps (set_mset R0 \<union> K) m m1" "pa \<noteq> pd" "pa \<notin># R0"
    "space_refs m1 (add_mset pa R0) pd = add_mset pa (space_refs m R0 pd)"
proof -
  have l: "laid (mem m) R0 pd (mem m pd)" using sp by (simp add: space_def)
  have k: "keeps (set_mset (space_refs m R0 pd) \<union> K) m m1" and pa: "pa \<notin># space_refs m R0 pd"
    using le by (simp_all add: lent_def)
  show c: "mem m1 pd = mem m pd" using keeps_mem [OF k, of pd] by simp
  have t: "mem m1 (mem m pd k AND fMASK) = mem m (mem m pd k AND fMASK)" if "has_table (mem m pd) k" for k
    using keeps_mem [OF k] space_tables [OF that, of "mem m" R0] by simp
  note lc = laid_cong [of "mem m pd" "mem m1" "mem m", OF t]
  show m: "mapped (mem m1) (mem m1 pd) = mapped (mem m) (mem m pd)" unfolding c by (rule lc(2))
  show p: "has_table (mem m pd) k \<Longrightarrow> pte (mem m1) (mem m1 pd) k = pte (mem m) (mem m pd) k" for k
    unfolding c by (rule lc(3))
  show n: "has_table (mem m1 pd) k \<Longrightarrow> mem m1 pd k AND fMASK \<noteq> pa" for k
    using space_tables [of "mem m pd" k "mem m" R0] pa by (auto simp: c)
  have mh: "mapped (mem m) (mem m pd) k n \<Longrightarrow> has_table (mem m pd) k" for k n by (simp add: mapped_def)
  have pg: "mapped (mem m) (mem m pd) k n \<Longrightarrow> pte (mem m) (mem m pd) k n AND fMASK \<in># space_refs m R0 pd" for k n
    using space_pages [OF l, of k n] by simp
  show n': "mapped (mem m1) (mem m1 pd) k n \<Longrightarrow> pte (mem m1) (mem m1 pd) k n AND fMASK \<noteq> pa" for k n
    using pg [of k n] p [OF mh, of k n] pa unfolding m by auto
  show "same_view pd m m1"
    unfolding same_view_def m using p [OF mh] keeps_mem [OF k, OF UnI1, OF pg] by simp
  show "keeps (set_mset R0 \<union> K) m m1" by (rule keeps_mono [OF k]) auto
  show pp: "pa \<noteq> pd" "pa \<notin># R0" using pa by auto
  have n0: "has_table (mem m pd) k \<Longrightarrow> mem m pd k AND fMASK \<noteq> pa" for k using n by (simp add: c)
  have n1: "mapped (mem m) (mem m pd) k n \<Longrightarrow> pte (mem m) (mem m pd) k n AND fMASK \<noteq> pa" for k n
    using pg [of k n] pa by auto
  show "space_refs m1 (add_mset pa R0) pd = add_mset pa (space_refs m R0 pd)"
    unfolding c using lc(4) [of "add_mset pa R0"] laid_lend(2) [of "mem m pd" pa "mem m" pd R0, OF n0 n1 pp(1)]
    by (simp add: add_mset_commute)
qed

section \<open>Mapping a page\<close>

text \<open>The page at \<open>(i, j)\<close> is the space's own, with the contents \<open>f\<close>; every other page is as before.\<close>

definition page_given :: "u32 set \<Rightarrow> u32 multiset \<Rightarrow> u32 \<Rightarrow> nat \<Rightarrow> nat \<Rightarrow> (nat \<Rightarrow> u32) \<Rightarrow> 'a pm_scheme \<Rightarrow> 'a pm_scheme \<Rightarrow> bool" where
  "page_given K R0 pd i j f m m' \<longleftrightarrow> space K R0 pd m' \<and> keeps (set_mset R0 \<union> K) m m' \<and> other_pages pd i j m m' \<and>
     mapped (mem m') (mem m' pd) i j \<and> mem m' pd i AND user_flags = user_flags \<and>
     pte (mem m') (mem m' pd) i j AND user_flags = user_flags \<and>
     mem m' (pte (mem m') (mem m' pd) i j AND fMASK) = f"

lemma page_of_va:
  "pdi_of (va AND fMASK) = pdi_of va" "pti_of (va AND fMASK) = pti_of va"
proof -
  have m: "fMASK = FMASK" by (simp add: fMASK_def)
  have "drop_bit 22 (va AND FMASK) = drop_bit 22 va" "drop_bit 12 (va AND FMASK) = drop_bit 12 va"
    by (rule bit_word_eqI, simp only: bit_drop_bit_eq bit_high o_apply, simp)+
  then show "pdi_of (va AND fMASK) = pdi_of va" "pti_of (va AND fMASK) = pti_of va"
    unfolding pdi_of_def pti_of_def m by simp_all
qed

text \<open>The state once the table is there: the new frame is still only the handler's.\<close>

lemma table_then_page:
  assumes sp: "space K R0 pd m" and le: "lent K R0 pd pa m m1" and rd: "table_ready K (add_mset pa R0) pd i m1 m2"
    and i: "i < PAGES_PER_TABLE"
  shows "laid (mem m2) R0 pd (mem m2 pd)" "has_table (mem m2 pd) i" "mem m2 pd i AND user_flags = user_flags"
    "offset pa = 0" "pa \<noteq> pd" "pa \<notin># R0" "pa \<notin> K"
    "has_table (mem m2 pd) k \<Longrightarrow> mem m2 pd k AND fMASK \<noteq> pa"
    "mapped (mem m2) (mem m2 pd) k n \<Longrightarrow> pte (mem m2) (mem m2 pd) k n AND fMASK \<noteq> pa"
    "holds K (add_mset pd (R0 + add_mset pa (table_refs (mem m2) R0 (mem m2 pd) PAGES_PER_TABLE))) m2"
    "same_view pd m m2" "keeps (set_mset R0 \<union> K) m m2" "mem m2 pa = (\<lambda>_. 0)"
proof -
  note ld = lentD [OF sp le]
  have s2: "space K (add_mset pa R0) pd m2" "same_view pd m1 m2" "keeps (set_mset (add_mset pa R0) \<union> K) m1 m2"
    "mem m2 pd i AND user_flags = user_flags" "\<And>k. k \<noteq> i \<Longrightarrow> mem m2 pd k = mem m1 pd k"
    using rd by (simp_all add: table_ready_def)
  have l2: "laid (mem m2) (add_mset pa R0) pd (mem m2 pd)" using s2(1) by (simp add: space_def)
  show fl: "mem m2 pd i AND user_flags = user_flags" by (rule s2(4))
  then have pb: "priv (mem m2 pd i)" "bit (mem m2 pd i) 1" by (simp_all add: user_flags_iff)
  show h: "has_table (mem m2 pd) i" using pb i by (simp add: has_table_def)
  show tb: "mem m2 pd k AND fMASK \<noteq> pa" if "has_table (mem m2 pd) k" for k
  proof (cases "k = i")
    case True
    then show ?thesis using laidD(8) [OF l2 h pb(2)] by auto
  next
    case False
    then show ?thesis using that s2(5) ld(4) [of k] by (simp add: has_table_def)
  qed
  show pg: "pte (mem m2) (mem m2 pd) k n AND fMASK \<noteq> pa" if "mapped (mem m2) (mem m2 pd) k n" for k n
    using that s2(2) ld(5) [of k n] by (simp add: same_view_def)
  show pp: "pa \<noteq> pd" "pa \<notin># R0" by (rule ld)+
  show "offset pa = 0" "pa \<notin> K" using le by (simp_all add: lent_def)
  have "laid (mem m2) (add_mset pa R0) pd (mem m2 pd) = laid (mem m2) R0 pd (mem m2 pd)"
    by (rule laid_lend(1)) (fact tb pg pp)+
  then show "laid (mem m2) R0 pd (mem m2 pd)" using l2 by blast
  have "table_refs (mem m2) (add_mset pa R0) (mem m2 pd) PAGES_PER_TABLE = table_refs (mem m2) R0 (mem m2 pd) PAGES_PER_TABLE"
    by (rule laid_lend(2)) (fact tb pg pp)+
  then show "holds K (add_mset pd (R0 + add_mset pa (table_refs (mem m2) R0 (mem m2 pd) PAGES_PER_TABLE))) m2"
    using s2(1) by (simp add: space_def add_mset_commute)
  show "same_view pd m m2" by (rule same_view_trans [OF ld(6) s2(2)])
  show "keeps (set_mset R0 \<union> K) m m2" by (rule keeps_trans [OF ld(7) s2(3)]) auto
  show "mem m2 pa = (\<lambda>_. 0)" using keeps_mem [OF s2(3), of pa] le by (simp add: lent_def)
qed

lemma table_keeps:
  assumes l: "laid M R0 pd c" and i: "has_table c i" and h: "holds K (add_mset pd (R0 + add_mset pa (table_refs M R0 c PAGES_PER_TABLE))) m"
    and t: "c i AND fMASK \<notin># R0"
  shows "c i AND fMASK \<notin> set_mset R0 \<union> K"
  using t refs_ok_disjoint [OF h, of "c i AND fMASK"] space_tables [OF i, of M R0] by auto

lemma finish_page:
  assumes sp: "space K R0 pd m" and le: "lent K R0 pd pa m m1" and rd: "table_ready K (add_mset pa R0) pd i m1 m2"
    and i: "i < PAGES_PER_TABLE" and j: "j < PAGES_PER_TABLE"
    and T: "T = table_refs (mem m2) R0 (mem m2 pd) PAGES_PER_TABLE - page_refs (pte (mem m2) (mem m2 pd) i j)"
    and h: "holds K (add_mset pd (R0 + add_mset pa T)) mx"
    and k: "\<And>q. q \<in># add_mset pd (R0 + T) \<Longrightarrow> mem mx q = mem m2 q" and kx: "keeps (set_mset R0 \<union> K) m2 mx"
  shows "page_given K R0 pd i j (mem mx pa) m (write_word (mem m2 pd i AND fMASK) j (pa OR user_flags) mx)"
proof -
  note tp = table_then_page [OF sp le rd i]
  let ?t = "mem m2 pd i AND fMASK" and ?m = "write_word (mem m2 pd i AND fMASK) j (pa OR user_flags) mx"
  note pl = page_placed [OF tp(1,2) j tp(3,4,5,6) tp(8) tp(9) T h k]
  have "?t \<notin># R0" using laidD(8) [OF tp(1,2)] tp(3) by (simp add: user_flags_iff)
  then have "?t \<notin> set_mset R0 \<union> K" by (rule table_keeps [OF tp(1,2,10)])
  then have "keeps (set_mset R0 \<union> K) mx ?m" unfolding write_word_def by (rule keeps_write)
  then have "keeps (set_mset R0 \<union> K) m2 ?m" by (rule keeps_trans [OF kx]) auto
  then have "keeps (set_mset R0 \<union> K) m ?m" by (rule keeps_trans [OF tp(12)]) auto
  moreover have "other_pages pd i j m ?m" by (rule same_view_other [OF tp(11) pl(2)])
  ultimately show ?thesis
    using pl(1,3-6) tp(3) join_flags(1,2) [OF tp(4)] by (simp add: page_given_def)
qed

lemma map_fault:
  assumes sp: "space K R0 pd m" and pr: "present (mem m pd (pdi_of va)) \<Longrightarrow> priv (mem m pd (pdi_of va))"
    and few: "\<And>p. priv (mem m pd (pdi_of va)) \<Longrightarrow>
      p \<in># priv_refs (mem m (mem m pd (pdi_of va) AND fMASK)) PAGES_PER_TABLE \<Longrightarrow> count (space_refs m R0 pd) p + 1025 < 0xFFFF"
    and free: "\<not> mapped (mem m) (mem m pd) (pdi_of va) (pti_of va)"
  shows "outcome {oom} (page_given K R0 pd (pdi_of va) (pti_of va) (\<lambda>_. 0) m)
    (bindE (alloc_frame m) (\<lambda>(m, pa). map_pg pd (va AND fMASK) pa user_flags m))"
proof (rule outcome_bind [OF space_alloc [OF sp]])
  fix x :: "'a pm_scheme \<times> u32"
  obtain m1 pa where x: "x = (m1, pa)" by (cases x)
  assume "case x of (m', pa) \<Rightarrow> lent K R0 pd pa m m'"
  then have le: "lent K R0 pd pa m m1" by (simp add: x)
  note ld = lentD [OF sp le]
  let ?i = "pdi_of va" and ?j = "pti_of va"
  have few1: "count (space_refs m1 (add_mset pa R0) pd) p + 1024 < 0xFFFF"
    if p: "priv (mem m1 pd ?i)" "p \<in># priv_refs (mem m1 (mem m1 pd ?i AND fMASK)) PAGES_PER_TABLE" for p
  proof -
    have "has_table (mem m pd) ?i" using p(1) pdi_bound by (simp add: ld(1) has_table_def)
    from ld(3) [OF this] have "mem m1 (mem m1 pd ?i AND fMASK) = mem m (mem m pd ?i AND fMASK)"
      by (simp add: pte_def fun_eq_iff ld(1))
    then have "count (space_refs m R0 pd) p + 1025 < 0xFFFF" using few p by (simp add: ld(1))
    then show ?thesis unfolding ld(10) by simp
  qed
  have "space K (add_mset pa R0) pd m1" using le by (simp add: lent_def)
  from get_table_ready [OF this pdi_bound _ few1] pr
  have "outcome {oom} (table_ready K (add_mset pa R0) pd ?i m1) (get_table pd ?i user_flags m1)"
    by (simp add: ld(1))
  then have "outcome {oom} (page_given K R0 pd ?i ?j (\<lambda>_. 0) m) (map_pg pd (va AND fMASK) pa user_flags m1)"
    unfolding map_pg_def page_of_va
  proof (rule outcome_bind)
    fix m2 assume rd: "table_ready K (add_mset pa R0) pd ?i m1 m2"
    note tp = table_then_page [OF sp le rd pdi_bound]
    have "\<not> mapped (mem m2) (mem m2 pd) ?i ?j" using free tp(11) by (simp add: same_view_def)
    then have "page_refs (pte (mem m2) (mem m2 pd) ?i ?j) = {#}"
      using tp(2) pti_bound [of va] by (simp add: page_refs_def mapped_def)
    then have "page_given K R0 pd ?i ?j (mem m2 pa) m (write_word (mem m2 pd ?i AND fMASK) ?j (pa OR user_flags) m2)"
      by (intro finish_page [OF sp le rd pdi_bound pti_bound refl]) (use tp(10) in simp_all)
    note fp = this
    have "(0xfffff000 :: u32) = fMASK" by (simp add: fMASK_def)
    then show "outcome {oom} (page_given K R0 pd ?i ?j (\<lambda>_. 0) m)
      (let pt = mem m2 pd ?i AND 0xfffff000 in Inr (write_word pt ?j (pa OR user_flags) m2))"
      using fp unfolding tp(13) by (simp only: Let_def outcome_simps)
  qed
  then show "outcome {oom} (page_given K R0 pd ?i ?j (\<lambda>_. 0) m)
    (case x of (m, pa) \<Rightarrow> map_pg pd (va AND fMASK) pa user_flags m)" by (simp add: x)
qed

lemma copy_fault:
  assumes sp: "space K R0 pd m" and mp: "mapped (mem m) (mem m pd) (pdi_of va) (pti_of va)"
    and few: "\<And>p. p \<in># priv_refs (mem m (mem m pd (pdi_of va) AND fMASK)) PAGES_PER_TABLE \<Longrightarrow>
      count (space_refs m R0 pd) p + 1025 < 0xFFFF"
    and ro: "\<not> bit (pte (mem m) (mem m pd) (pdi_of va) (pti_of va)) 1"
  defines "old \<equiv> pte (mem m) (mem m pd) (pdi_of va) (pti_of va) AND fMASK"
  shows "outcome {oom} (page_given K R0 pd (pdi_of va) (pti_of va) (mem m old) m)
    (bindE (alloc_frame m) (\<lambda>(m, pa). map_copy pd (va AND fMASK) pa user_flags m))"
proof (rule outcome_bind [OF space_alloc [OF sp]])
  fix x :: "'a pm_scheme \<times> u32"
  obtain m1 pa where x: "x = (m1, pa)" by (cases x)
  assume "case x of (m', pa) \<Rightarrow> lent K R0 pd pa m m'"
  then have le: "lent K R0 pd pa m m1" by (simp add: x)
  note ld = lentD [OF sp le]
  let ?i = "pdi_of va" and ?j = "pti_of va"
  have h: "has_table (mem m pd) ?i" using mp by (simp add: mapped_def)
  have few1: "count (space_refs m1 (add_mset pa R0) pd) p + 1024 < 0xFFFF"
    if p: "p \<in># priv_refs (mem m1 (mem m1 pd ?i AND fMASK)) PAGES_PER_TABLE" for p
  proof -
    from ld(3) [OF h] have "mem m1 (mem m1 pd ?i AND fMASK) = mem m (mem m pd ?i AND fMASK)"
      by (simp add: pte_def fun_eq_iff ld(1))
    then have "count (space_refs m R0 pd) p + 1025 < 0xFFFF" using few p by (simp add: ld(1))
    then show ?thesis unfolding ld(10) by simp
  qed
  have "space K (add_mset pa R0) pd m1" using le by (simp add: lent_def)
  from get_table_ready [OF this pdi_bound _ few1] h
  have "outcome {oom} (table_ready K (add_mset pa R0) pd ?i m1) (get_table pd ?i user_flags m1)"
    by (simp add: ld(1) has_table_def)
  then have "outcome {oom} (page_given K R0 pd ?i ?j (mem m old) m) (map_copy pd (va AND fMASK) pa user_flags m1)"
    unfolding map_copy_def page_of_va
  proof (rule outcome_bind)
    fix m2 assume rd: "table_ready K (add_mset pa R0) pd ?i m1 m2"
    note tp = table_then_page [OF sp le rd pdi_bound]
    let ?T = "table_refs (mem m2) R0 (mem m2 pd) PAGES_PER_TABLE" and ?e = "pte (mem m2) (mem m2 pd) ?i ?j"
    have v: "mapped (mem m2) (mem m2 pd) ?i ?j" "?e = pte (mem m) (mem m pd) ?i ?j" "mem m2 old = mem m old"
      using mp tp(11) by (simp_all add: same_view_def old_def)
    then have e: "priv ?e" "?e AND fMASK = old" "\<not> bit ?e 1" using ro by (simp_all add: mapped_def old_def)
    have eP: "?e AND fP \<noteq> 0" "\<not> ?e AND fRW \<noteq> 0"
      using priv_present [OF e(1)] e(3) unfolding present_def flag_bits(2) by blast+
    have pg: "page_refs ?e = {#old#}" using e(1,2) by (simp add: page_refs_def)
    have "mem m2 pd ?i AND fMASK \<notin># R0" using laidD(8) [OF tp(1,2)] tp(3) by (simp add: user_flags_iff)
    then have oT: "old \<in># ?T" using v(1) e(2) table_refs_mem [of old "mem m2" R0 "mem m2 pd"] by metis
    have opa: "old \<noteq> pa" using tp(9) [OF v(1)] e(2) by simp
    let ?m3 = "copy_frame pa old m2" and ?R = "add_mset pd (R0 + add_mset pa ?T)"
    have h3: "holds K ?R ?m3" by (rule refs_ok_copy_frame [OF tp(10)]) simp
    have "old \<in># ?R" using oT by simp
    from refs_ok_free [OF h3 this] obtain mx where mx: "free_page old ?m3 = Inr mx" "holds K (?R - {#old#}) mx"
      "keeps (set_mset (?R - {#old#}) \<union> K) ?m3 mx" by auto
    have R: "?R - {#old#} = add_mset pd (R0 + add_mset pa (?T - page_refs ?e))"
      using oT by (simp add: pg insert_DiffM multiset_eq_iff)
    have cp: "mem ?m3 q = mem m2 q" if "q \<in># add_mset pd (R0 + (?T - page_refs ?e)) \<or> q \<in> set_mset R0 \<union> K" for q
    proof -
      have "q \<noteq> pa"
      proof
        assume "q = pa"
        then have "pa \<in># ?T" using that tp(5,6,7) by (auto dest: in_diffD)
        then show False unfolding table_refs_mem using tp(8,9) by metis
      qed
      then show ?thesis by (simp add: copy_frame_def)
    qed
    have k: "mem mx q = mem m2 q" if "q \<in># add_mset pd (R0 + (?T - page_refs ?e))" for q
      using keeps_mem [OF mx(3), of q] cp that unfolding R by auto
    have "keeps (set_mset R0 \<union> K) m2 ?m3" using cp by (simp add: keeps_def copy_frame_def)
    then have kx: "keeps (set_mset R0 \<union> K) m2 mx"
      by (rule keeps_trans [OF _ mx(3) [unfolded R]]) auto
    have "mem mx pa = mem m old"
      using keeps_mem [OF mx(3), of pa] v(3) unfolding R by (simp add: copy_frame_def)
    then have "page_given K R0 pd ?i ?j (mem m old) m (write_word (mem m2 pd ?i AND fMASK) ?j (pa OR user_flags) mx)"
      using finish_page [OF sp le rd pdi_bound pti_bound refl mx(2) [unfolded R] k kx] by simp
    then show "outcome {oom} (page_given K R0 pd ?i ?j (mem m old) m)
      (let pt = mem m2 pd ?i AND fMASK; pte = mem m2 pt ?j
       in bindE (if pte AND fP \<noteq> 0 then if pte AND fRW \<noteq> 0 then Inl (ThreadExit (- 1))
            else decref (pte AND fMASK) destroy_pg (copy_frame pa (pte AND fMASK) m2) else Inr m2)
          (\<lambda>m. Inr (write_word pt ?j (pa OR user_flags) m)))"
      using eP mx(1) e(2) by (simp add: Let_def pte_def destroy_pg_eq)
  qed
  then show "outcome {oom} (page_given K R0 pd ?i ?j (mem m old) m)
    (case x of (m, pa) \<Rightarrow> map_copy pd (va AND fMASK) pa user_flags m)" by (simp add: x)
qed

section \<open>The memory of a user\<close>

text \<open>A page that is not there reads as zeros: the first access to it makes it so.\<close>

definition user_contents :: "'a pm_scheme \<Rightarrow> u32 \<Rightarrow> u32 \<Rightarrow> nat \<Rightarrow> u32" where
  "user_contents m pd va = (case user_page m pd va of None \<Rightarrow> (\<lambda>_. 0) | Some (f, _) \<Rightarrow> f)"

definition same_page :: "u32 \<Rightarrow> u32 \<Rightarrow> bool" where
  "same_page va va' \<longleftrightarrow> pdi_of va' = pdi_of va \<and> pti_of va' = pti_of va"

lemma user_page_mapped:
  "user_page m pd va \<noteq> None \<longleftrightarrow> mapped (mem m) (mem m pd) (pdi_of va) (pti_of va)"
  using pdi_bound [of va] pti_bound [of va]
  by (simp add: user_page_def Let_def mapped_def has_table_def pte_def)

lemma user_frame_pte: "user_frame m pd va = pte (mem m) (mem m pd) (pdi_of va) (pti_of va) AND fMASK"
  by (simp add: user_frame_def pte_def)

lemma user_contents_mapped:
  "user_contents m pd va = (if mapped (mem m) (mem m pd) (pdi_of va) (pti_of va) then mem m (user_frame m pd va) else (\<lambda>_. 0))"
  using pdi_bound [of va] pti_bound [of va]
  by (simp add: user_contents_def user_page_def Let_def mapped_def has_table_def pte_def user_frame_def)

lemma user_writable_bits:
  "user_writable m pd va \<longleftrightarrow> mapped (mem m) (mem m pd) (pdi_of va) (pti_of va) \<and>
     bit (pte (mem m) (mem m pd) (pdi_of va) (pti_of va)) 1 \<and> bit (mem m pd (pdi_of va)) 1"
  using pdi_bound [of va] pti_bound [of va]
  by (auto simp: user_writable_def user_page_def Let_def mapped_def has_table_def pte_def flag_bits low_flag)

lemma space_writable:
  assumes "space K R0 pd m" "mapped (mem m) (mem m pd) (pdi_of va) (pti_of va)" "\<not> user_writable m pd va"
  shows "\<not> bit (pte (mem m) (mem m pd) (pdi_of va) (pti_of va)) 1"
  using assms laidD(9) [of "mem m" R0 pd "mem m pd"] by (auto simp: space_def user_writable_bits)

lemma page_given_view:
  assumes g: "page_given K R0 pd (pdi_of va) (pti_of va) f m m'" and f: "f = user_contents m pd va"
  shows "user_writable m' pd va" "user_contents m' pd va' = user_contents m pd va'"
proof -
  let ?i = "pdi_of va" and ?j = "pti_of va"
  have m: "mapped (mem m') (mem m' pd) ?i ?j" and o: "other_pages pd ?i ?j m m'"
    and c: "mem m' (pte (mem m') (mem m' pd) ?i ?j AND fMASK) = f"
    using g by (simp_all add: page_given_def)
  have "bit (mem m' pd ?i) 1" "bit (pte (mem m') (mem m' pd) ?i ?j) 1"
    using g unfolding page_given_def user_flags_iff by blast+
  then show "user_writable m' pd va" using m by (simp add: user_writable_bits)
  show "user_contents m' pd va' = user_contents m pd va'"
  proof (cases "(pdi_of va', pti_of va') = (?i, ?j)")
    case True
    then have "user_contents m pd va' = user_contents m pd va" "user_contents m' pd va' = user_contents m' pd va"
      by (simp_all add: user_contents_mapped user_frame_pte)
    then show ?thesis using m c f by (simp add: user_contents_mapped [of m'] user_frame_pte)
  next
    case False
    then show ?thesis using o unfolding other_pages_def user_contents_mapped user_frame_pte by metis
  qed
qed

lemma space_own_frame:
  assumes sp: "space K R0 pd m" and w: "user_writable m pd va"
  shows "user_frame m pd va \<notin> set_mset R0 \<union> K" "user_frame m pd va \<in># space_refs m R0 pd"
proof -
  have l: "laid (mem m) R0 pd (mem m pd)" and h: "holds K (space_refs m R0 pd) m" using sp by (simp_all add: space_def)
  have m: "mapped (mem m) (mem m pd) (pdi_of va) (pti_of va)" "bit (pte (mem m) (mem m pd) (pdi_of va) (pti_of va)) 1"
    using w by (simp_all add: user_writable_bits)
  show r: "user_frame m pd va \<in># space_refs m R0 pd" using space_pages [OF l m(1)] by (simp add: user_frame_pte)
  then show "user_frame m pd va \<notin> set_mset R0 \<union> K"
    using laidD(10) [OF l m] refs_ok_disjoint [OF h, of "user_frame m pd va"] by (auto simp: user_frame_pte)
qed

text \<open>The error codes of a fault: bit 0 is set if the page is there, bit 1 for a store.\<close>

lemma error_codes:
  "(e :: u32) AND 3 = 3 \<Longrightarrow> \<not> e AND 7 = 5"
  "(e :: u32) AND 1 = 0 \<Longrightarrow> \<not> e AND 7 = 5" "(e :: u32) AND 1 = 0 \<Longrightarrow> \<not> e AND 3 = 3" "(e :: u32) AND 1 = 0 \<Longrightarrow> \<not> e AND 1 = 1"
proof -
  have n: "bit (7 :: u32) 1" "bit (7 :: u32) 0" "bit (3 :: u32) 0" "\<not> bit (5 :: u32) 1" "bit (5 :: u32) 0" "bit (1 :: u32) 0"
    "bit (3 :: u32) 1" "\<not> bit (0 :: u32) 0"
    by simp_all
  show "e AND 3 = 3 \<Longrightarrow> \<not> e AND 7 = 5" using n by (metis bit_and_iff)
  show "e AND 1 = 0 \<Longrightarrow> \<not> e AND 7 = 5" using n by (metis bit_and_iff)
  show "e AND 1 = 0 \<Longrightarrow> \<not> e AND 3 = 3" using n by (metis bit_and_iff)
  show "e AND 1 = 0 \<Longrightarrow> \<not> e AND 1 = 1" by simp
qed

definition fault_at :: "'a pm_scheme \<Rightarrow> u32 \<Rightarrow> u32 \<Rightarrow> u32 \<Rightarrow> bool" where
  "fault_at m pd va e \<longleftrightarrow>
     (if user_page m pd va = None then e AND 1 = 0 \<and> (present (mem m pd (pdi_of va)) \<longrightarrow> priv (mem m pd (pdi_of va)))
      else e AND 3 = 3 \<and> \<not> user_writable m pd va)"

lemma few_table:
  assumes "few_refs R M c" "has_table c i" "p \<in># priv_refs (M (c i AND fMASK)) PAGES_PER_TABLE"
  shows "count R p + 1025 < 0xFFFF"
proof -
  have "p \<in># table_refs M {#} c PAGES_PER_TABLE"
    using table_refs_pages [of i PAGES_PER_TABLE c "{#}" p M] assms(2,3) by (simp add: has_table_def)
  then have "count R p + count (table_refs M {#} c PAGES_PER_TABLE) p + 1025 < 0xFFFF"
    using assms(1) unfolding few_refs_def by blast
  then show ?thesis by simp
qed

lemma page_fault_given:
  fixes m :: "'a vm_scheme"
  assumes sp: "space K R0 pd m" and cr: "cr3 m = pd" and va: "0x80000000 \<le> va" and f: "fault_at m pd va e"
    and few: "few_refs (space_refs m R0 pd) (mem m) (mem m pd)"
  shows "outcome {oom} (page_given K R0 pd (pdi_of va) (pti_of va) (user_contents m pd va) m) (vmm_pageFault va e m)"
proof -
  have v: "va \<noteq> 0" using va by auto
  have al: "bindE (alloc_frame m) (\<lambda>(m', pa). g (cr3 m') m' pa) = bindE (alloc_frame m) (\<lambda>(m', pa). g pd m' pa)" for g :: "u32 \<Rightarrow> 'a vm_scheme \<Rightarrow> u32 \<Rightarrow> 'a vm_scheme res"
  proof (cases "alloc_frame m")
    case (Inr x)
    obtain m1 pa where x: "x = (m1, pa)" by (cases x)
    have "lent K R0 pd pa m m1" using outcomeD [OF space_alloc [OF sp] Inr] by (simp add: x)
    then have "cr3 m1 = cr3 m" unfolding lent_def by (blast intro: keeps_cr3)
    then show ?thesis using Inr cr by (simp add: x)
  qed simp
  show ?thesis
  proof (cases "user_page m pd va = None")
    case True
    then have e: "e AND 1 = 0" and p: "present (mem m pd (pdi_of va)) \<Longrightarrow> priv (mem m pd (pdi_of va))"
      using f by (simp_all add: fault_at_def)
    have n: "\<not> mapped (mem m) (mem m pd) (pdi_of va) (pti_of va)" using True user_page_mapped [of m pd va] by simp
    have c: "user_contents m pd va = (\<lambda>_. 0)" using True by (simp add: user_contents_def)
    have "outcome {oom} (page_given K R0 pd (pdi_of va) (pti_of va) (\<lambda>_. 0) m)
      (bindE (alloc_frame m) (\<lambda>(m, pa). map_pg pd (va AND fMASK) pa user_flags m))"
      by (rule map_fault [OF sp p few_table [OF few has_tableI [OF pdi_bound]] n])
    then show ?thesis
      using v va error_codes(2-4) [OF e] al [of "\<lambda>c m pa. map_pg c (va AND fMASK) pa user_flags m"]
      by (simp add: vmm_pageFault_def Let_def c)
  next
    case False
    then have e: "e AND 3 = 3" and w: "\<not> user_writable m pd va" using f by (simp_all add: fault_at_def)
    have n: "mapped (mem m) (mem m pd) (pdi_of va) (pti_of va)" using False user_page_mapped by blast
    have h: "has_table (mem m pd) (pdi_of va)" using n by (simp add: mapped_def)
    have c: "user_contents m pd va = mem m (pte (mem m) (mem m pd) (pdi_of va) (pti_of va) AND fMASK)"
      using n by (simp add: user_contents_mapped user_frame_pte)
    show ?thesis
      using copy_fault [OF sp n few_table [OF few h] space_writable [OF sp n w]]
        v va error_codes(1) [OF e] e al [of "\<lambda>c m pa. map_copy c (va AND fMASK) pa user_flags m"]
      by (simp add: vmm_pageFault_def Let_def c)
  qed
qed

end
