(* ===== verification/VMM_Claims.thy ===== *)
theory VMM_Claims
  imports VMM_Pages
begin

text \<open>
  The memory that a user sees is the memory of a machine of its own: page faults are
  invisible, a store changes one word, and no other address space notices.
\<close>

section \<open>Loads and stores\<close>

text \<open>
  The processor runs the handler when the page is not there, or not writable, and then tries again.
  A word of the page of \<open>va\<close>, with its index.
\<close>

definition user_store :: "u32 \<Rightarrow> nat \<Rightarrow> u32 \<Rightarrow> 'a vm_scheme \<Rightarrow> 'a vm_scheme res" where
  "user_store va k v m =
     bindE (if user_writable m (cr3 m) va then Inr m
            else vmm_pageFault va (if user_page m (cr3 m) va = None then 6 else 7) m)
       (\<lambda>m. Inr (write_word (user_frame m (cr3 m) va) k v m))"

definition user_load :: "u32 \<Rightarrow> nat \<Rightarrow> 'a vm_scheme \<Rightarrow> ('a vm_scheme \<times> u32) res" where
  "user_load va k m =
     bindE (if user_page m (cr3 m) va = None then vmm_pageFault va 4 m else Inr m)
       (\<lambda>m. Inr (m, mem m (user_frame m (cr3 m) va) k))"

text \<open>No table of the kernel covers the address.\<close>

definition user_area :: "'a pm_scheme \<Rightarrow> u32 \<Rightarrow> u32 \<Rightarrow> bool" where
  "user_area m pd va \<longleftrightarrow> 0x80000000 \<le> va \<and> (present (mem m pd (pdi_of va)) \<longrightarrow> priv (mem m pd (pdi_of va)))"

text \<open>An address space all of whose frames are in \<open>S\<close>.\<close>

definition lies_in :: "u32 set \<Rightarrow> u32 \<Rightarrow> 'a pm_scheme \<Rightarrow> bool" where
  "lies_in S pd m \<longleftrightarrow> pd \<in> S \<and> (\<forall>i. has_table (mem m pd) i \<longrightarrow> mem m pd i AND fMASK \<in> S) \<and>
     (\<forall>i j. mapped (mem m) (mem m pd) i j \<longrightarrow> pte (mem m) (mem m pd) i j AND fMASK \<in> S)"

lemma lies_in_keeps:
  assumes s: "lies_in S pd m" and k: "keeps S m m'"
  shows "user_page m' pd va = user_page m pd va"
proof -
  have c: "mem m' pd = mem m pd" using s keeps_mem [OF k] by (simp add: lies_in_def)
  have t: "priv (mem m pd (pdi_of va)) \<Longrightarrow> mem m' (mem m pd (pdi_of va) AND fMASK) = mem m (mem m pd (pdi_of va) AND fMASK)"
    using s keeps_mem [OF k] pdi_bound by (simp add: lies_in_def has_table_def)
  have p: "mapped (mem m) (mem m pd) (pdi_of va) (pti_of va) \<Longrightarrow> mem m' (user_frame m pd va) = mem m (user_frame m pd va)"
    using s keeps_mem [OF k] by (simp add: lies_in_def user_frame_pte)
  show ?thesis
    using t p pdi_bound [of va] pti_bound [of va]
    by (auto simp: user_page_def Let_def c user_frame_def mapped_def has_table_def pte_def)
qed

lemma space_lies_in:
  assumes "space K R0 pd m"
  shows "lies_in (set_mset (space_refs m R0 pd)) pd m"
proof -
  have l: "laid (mem m) R0 pd (mem m pd)" using assms by (simp add: space_def)
  show ?thesis
    unfolding lies_in_def using space_tables [of "mem m pd" _ "mem m" R0] space_pages [OF l] by auto
qed

section \<open>A store into a page of one's own\<close>

lemma store_own_page:
  fixes k :: nat and v :: u32
  assumes sp: "space K R0 pd m" and w: "user_writable m pd va"
  defines "m' \<equiv> write_word (user_frame m pd va) k v m"
  shows "space K R0 pd m'"
    "user_contents m' pd va' = (if same_page va va' then (user_contents m pd va)(k := v) else user_contents m pd va')"
    "keeps (set_mset R0 \<union> K) m m'"
proof -
  let ?p = "user_frame m pd va" and ?c = "mem m pd" and ?i = "pdi_of va" and ?j = "pti_of va"
  have l: "laid (mem m) R0 pd ?c" and h: "holds K (space_refs m R0 pd) m" using sp by (simp_all add: space_def)
  have mw: "mapped (mem m) ?c ?i ?j" "bit (pte (mem m) ?c ?i ?j) 1" using w by (simp_all add: user_writable_bits)
  note own = space_own_frame [OF sp w]
  have c: "mem m' pd = ?c" using laidD(4) [OF l mw(1)] by (simp add: m'_def write_word_def user_frame_pte)
  have t: "mem m' (?c n AND fMASK) = mem m (?c n AND fMASK)" if "has_table ?c n" for n
    using laidD(5) [OF l mw(1) that] by (simp add: m'_def write_word_def user_frame_pte)
  have lc: "laid (mem m') R0 pd ?c = laid (mem m) R0 pd ?c" "mapped (mem m') ?c = mapped (mem m) ?c"
    "table_refs (mem m') R0 ?c PAGES_PER_TABLE = table_refs (mem m) R0 ?c PAGES_PER_TABLE"
    by (rule laid_cong, rule t, assumption)+
  have "holds K (space_refs m R0 pd) m'" unfolding m'_def by (rule refs_ok_write_word [OF h]) (use own(2) in blast)
  then show "space K R0 pd m'" using l lc(1,3) by (simp add: space_def c)
  show "keeps (set_mset R0 \<union> K) m m'" unfolding m'_def write_word_def by (rule keeps_write [OF own(1)])
  have fr: "user_frame m' pd va' = user_frame m pd va'" if "has_table ?c (pdi_of va')"
    unfolding user_frame_pte c using t that by (simp add: pte_def)
  show "user_contents m' pd va' = (if same_page va va' then (user_contents m pd va)(k := v) else user_contents m pd va')"
  proof (cases "mapped (mem m) ?c (pdi_of va') (pti_of va')")
    case False
    then have "\<not> same_page va va'" using mw(1) by (auto simp: same_page_def)
    then show ?thesis using False lc(2) by (simp add: user_contents_mapped c)
  next
    case True
    then have ht: "has_table ?c (pdi_of va')" by (simp add: mapped_def)
    have f': "user_frame m pd va' = ?p \<longleftrightarrow> same_page va va'"
      using laidD(11) [OF l mw True] by (auto simp: same_page_def user_frame_pte)
    then have "mem m' (user_frame m pd va') = (if same_page va va' then (mem m ?p)(k := v) else mem m (user_frame m pd va'))"
      by (simp add: m'_def write_word_def)
    then show ?thesis using True mw(1) fr [OF ht] lc(2) by (simp add: user_contents_mapped c)
  qed
qed

lemma keeps_lies_in: "lies_in (set_mset R0 \<union> K) pd2 m \<Longrightarrow> keeps (set_mset R0 \<union> K) m m' \<Longrightarrow> lies_in (set_mset R0 \<union> K) pd2 m'"
proof -
  assume s: "lies_in (set_mset R0 \<union> K) pd2 m" and k: "keeps (set_mset R0 \<union> K) m m'"
  have c: "mem m' pd2 = mem m pd2" using s keeps_mem [OF k] by (simp add: lies_in_def)
  have t: "has_table (mem m pd2) n \<Longrightarrow> mem m' (mem m pd2 n AND fMASK) = mem m (mem m pd2 n AND fMASK)" for n
    using s keeps_mem [OF k] by (simp add: lies_in_def)
  have lc: "mapped (mem m') (mem m pd2) = mapped (mem m) (mem m pd2)" by (rule laid_cong(2)) (rule t)
  have "mapped (mem m) (mem m pd2) i j \<Longrightarrow> pte (mem m') (mem m pd2) i j = pte (mem m) (mem m pd2) i j" for i j
    using t [of i] by (simp add: mapped_def pte_def)
  then show ?thesis using s unfolding lies_in_def c lc by simp
qed

section \<open>Properties\<close>

lemma write_word_cr3 [simp]: "cr3 (write_word p k v m) = cr3 (m :: 'a vm_scheme)"
  by (simp add: write_word_def)

text \<open>The demonstration space, forked: its table is read-only, and somebody else holds it too.\<close>

lemma demo_space: "space {} {#} 0x100000 demo"
proof -
  have h: "has_table (mem demo 0x100000) i \<longleftrightarrow> i = 512" for i
    by (auto simp: has_table_def demo_entries PAGES_PER_TABLE_def)
  have p: "pte (mem demo) (mem demo 0x100000) 512 j = mem demo 0x101000 j" for j
    by (simp add: pte_def demo_entries)
  have m: "mapped (mem demo) (mem demo 0x100000) i j \<longleftrightarrow> i = 512 \<and> j = 0" for i j
    unfolding mapped_def h using p by (auto simp: demo_entries PAGES_PER_TABLE_def)
  have e: "mem demo 0x100000 512 = 0x101407" "mem demo 0x101000 0 = 0x102407" by (simp_all add: demo_def)
  have "present (pte (mem demo) (mem demo 0x100000) 512 j) \<Longrightarrow> j = 0" for j
    by (simp add: p demo_entries)
  then have "tables_apart (mem demo) 0x100000 (mem demo 0x100000)"
    unfolding tables_apart_def m h by (auto simp: p demo_entries e flag_defs)
  moreover have "cow (mem demo) {#} (mem demo 0x100000)"
    unfolding cow_def m h by (auto simp: p e)
  moreover have "space_refs demo {#} 0x100000 = demo_refs"
    by (simp add: demo_table_refs PAGES_PER_TABLE_def)
  ultimately show ?thesis using demo_holds unfolding space_def laid_def by simp
qed

text \<open>
  C3. A page fault is invisible. If the running space and the frames of the others (\<open>R0\<close> and \<open>K\<close>) satisfy the
  invariant, then the handler, unless frames run out, keeps it: the
  page may be written afterwards, through a frame that nobody else has; no page of the
  space reads differently (a new one reads as zeros); and no frame of the others has changed.
\<close>

theorem page_fault_contract:
  fixes m :: "'a vm_scheme"
  assumes "space K R0 (cr3 m) m" and "user_area m (cr3 m) va"
    and "user_page m (cr3 m) va = None \<Longrightarrow> e AND 1 = 0"
    and "user_page m (cr3 m) va \<noteq> None \<Longrightarrow> e AND 3 = 3 \<and> \<not> user_writable m (cr3 m) va"
    and "few_refs (space_refs m R0 (cr3 m)) (mem m) (mem m (cr3 m))"
  shows "outcome {oom} (\<lambda>m'. space K R0 (cr3 m') m' \<and> cr3 m' = cr3 m \<and> keeps (set_mset R0 \<union> K) m m' \<and>
      user_writable m' (cr3 m) va \<and> user_frame m' (cr3 m) va \<notin> set_mset R0 \<union> K \<and>
      (\<forall>va'. user_contents m' (cr3 m) va' = user_contents m (cr3 m) va')) (vmm_pageFault va e m)"
proof (rule outcome_mono [OF page_fault_given [OF assms(1) refl _ _ assms(5)]])
  show "0x80000000 \<le> va" using assms(2) by (simp add: user_area_def)
  show "fault_at m (cr3 m) va e" using assms(2-4) by (simp add: fault_at_def user_area_def)
  fix m' assume g: "page_given K R0 (cr3 m) (pdi_of va) (pti_of va) (user_contents m (cr3 m) va) m m'"
  note v = page_given_view [OF g refl]
  have s: "space K R0 (cr3 m) m'" and k: "keeps (set_mset R0 \<union> K) m m'" using g by (simp_all add: page_given_def)
  show "space K R0 (cr3 m') m' \<and> cr3 m' = cr3 m \<and> keeps (set_mset R0 \<union> K) m m' \<and> user_writable m' (cr3 m) va \<and>
      user_frame m' (cr3 m) va \<notin> set_mset R0 \<union> K \<and> (\<forall>va'. user_contents m' (cr3 m) va' = user_contents m (cr3 m) va')"
    using s k v keeps_cr3 [OF k] space_own_frame(1) [OF s v(1)] by simp
qed

abbreviation demo_running :: vm where
  "demo_running \<equiv> demo\<lparr>cr3 := 0x100000\<rparr>"

lemma demo_running_space: "space {} {#} 0x100000 demo_running"
  using demo_space refs_ok_cr3 [of "\<lambda>_. 0" "{}" _ demo "0x100000"] by (simp add: space_def)

lemma demo_running_few: "few_refs (space_refs demo_running {#} 0x100000) (mem demo_running) (mem demo_running 0x100000)"
  using demo_few by (simp add: demo_table_refs PAGES_PER_TABLE_def)

lemma demo_running_pages:
  "user_page demo_running 0x100000 0x80001000 = None" "user_contents demo_running 0x100000 0x80000000 = (\<lambda>_. 42)"
  "user_area demo_running 0x100000 0x80001000" "user_area demo_running 0x100000 0x80000000"
  using demo_priv
  by (simp_all add: user_page_def user_contents_def user_area_def Let_def pdi_of_def pti_of_def demo_def fMASK_def)

theorem page_fault_contract_witness:
  "outcome {oom} (\<lambda>m'. user_writable m' 0x100000 0x80001000 \<and> user_contents m' 0x100000 0x80000000 = (\<lambda>_. 42))
     (vmm_pageFault 0x80001000 6 demo_running)"
  using demo_running_space demo_running_few demo_running_pages
  by (intro outcome_mono [OF page_fault_contract [of "{}" "{#}"]]) auto

lemma fault_then:
  fixes m :: "'a vm_scheme"
  assumes sp: "space K R0 (cr3 m) m" and a: "user_area m (cr3 m) va"
    and e: "user_page m (cr3 m) va = None \<Longrightarrow> e AND 1 = 0"
      "user_page m (cr3 m) va \<noteq> None \<Longrightarrow> \<not> user_writable m (cr3 m) va \<Longrightarrow> e AND 3 = 3"
    and few: "few_refs (space_refs m R0 (cr3 m)) (mem m) (mem m (cr3 m))"
    and w: "user_writable m (cr3 m) va \<Longrightarrow> \<not> p"
  shows "outcome {oom} (\<lambda>m'. space K R0 (cr3 m) m' \<and> cr3 m' = cr3 m \<and> keeps (set_mset R0 \<union> K) m m' \<and>
      (p \<longrightarrow> user_writable m' (cr3 m) va) \<and> (\<forall>va'. user_contents m' (cr3 m) va' = user_contents m (cr3 m) va') \<and>
      (\<not> p \<longrightarrow> m' = m))
    (if p then vmm_pageFault va e m else Inr m)"
proof (cases p)
  case False
  then show ?thesis using sp by simp
next
  case True
  have "outcome {oom} (page_given K R0 (cr3 m) (pdi_of va) (pti_of va) (user_contents m (cr3 m) va) m) (vmm_pageFault va e m)"
    by (rule page_fault_given [OF sp refl _ _ few])
      (use a e w True in \<open>auto simp: fault_at_def user_area_def\<close>)
  then have "outcome {oom} (\<lambda>m'. space K R0 (cr3 m) m' \<and> cr3 m' = cr3 m \<and> keeps (set_mset R0 \<union> K) m m' \<and>
      user_writable m' (cr3 m) va \<and> (\<forall>va'. user_contents m' (cr3 m) va' = user_contents m (cr3 m) va')) (vmm_pageFault va e m)"
  proof (rule outcome_mono)
    fix m' assume g: "page_given K R0 (cr3 m) (pdi_of va) (pti_of va) (user_contents m (cr3 m) va) m m'"
    then have k: "space K R0 (cr3 m) m'" "keeps (set_mset R0 \<union> K) m m'" by (simp_all add: page_given_def)
    then show "space K R0 (cr3 m) m' \<and> cr3 m' = cr3 m \<and> keeps (set_mset R0 \<union> K) m m' \<and>
      user_writable m' (cr3 m) va \<and> (\<forall>va'. user_contents m' (cr3 m) va' = user_contents m (cr3 m) va')"
      using page_given_view [OF g refl] keeps_cr3 [OF k(2)] by simp
  qed
  then show ?thesis using True by (auto intro: outcome_mono)
qed

lemma store_keeps:
  fixes m :: "'a vm_scheme"
  assumes "space K R0 (cr3 m) m" and "user_area m (cr3 m) va"
    and "few_refs (space_refs m R0 (cr3 m)) (mem m) (mem m (cr3 m))"
  shows "outcome {oom} (\<lambda>m'. space K R0 (cr3 m') m' \<and> cr3 m' = cr3 m \<and> keeps (set_mset R0 \<union> K) m m' \<and>
      (\<forall>va'. user_contents m' (cr3 m) va' =
         (if same_page va va' then (user_contents m (cr3 m) va)(k := v) else user_contents m (cr3 m) va')) \<and>
      (\<forall>pd2. lies_in (set_mset R0 \<union> K) pd2 m \<longrightarrow>
         lies_in (set_mset R0 \<union> K) pd2 m' \<and> (\<forall>va'. user_page m' pd2 va' = user_page m pd2 va')))
    (user_store va k v m)"
proof -
  let ?p = "\<not> user_writable m (cr3 m) va" and ?e = "if user_page m (cr3 m) va = None then 6 else 7 :: u32"
  have "outcome {oom} (\<lambda>m'. space K R0 (cr3 m) m' \<and> cr3 m' = cr3 m \<and> keeps (set_mset R0 \<union> K) m m' \<and>
      (?p \<longrightarrow> user_writable m' (cr3 m) va) \<and> (\<forall>va'. user_contents m' (cr3 m) va' = user_contents m (cr3 m) va') \<and>
      (\<not> ?p \<longrightarrow> m' = m)) (if ?p then vmm_pageFault va ?e m else Inr m)"
    by (rule fault_then [OF assms(1,2) _ _ assms(3)]) auto
  then have f: "outcome {oom} (\<lambda>m'. space K R0 (cr3 m) m' \<and> cr3 m' = cr3 m \<and> keeps (set_mset R0 \<union> K) m m' \<and>
      user_writable m' (cr3 m) va \<and> (\<forall>va'. user_contents m' (cr3 m) va' = user_contents m (cr3 m) va'))
      (if user_writable m (cr3 m) va then Inr m else vmm_pageFault va ?e m)"
    by (cases ?p) (auto intro: outcome_mono)
  show ?thesis
    unfolding user_store_def
  proof (rule outcome_bind [OF f])
    fix m1 assume a: "space K R0 (cr3 m) m1 \<and> cr3 m1 = cr3 m \<and> keeps (set_mset R0 \<union> K) m m1 \<and>
      user_writable m1 (cr3 m) va \<and> (\<forall>va'. user_contents m1 (cr3 m) va' = user_contents m (cr3 m) va')"
    then have s: "space K R0 (cr3 m) m1" and w: "user_writable m1 (cr3 m) va" and k1: "keeps (set_mset R0 \<union> K) m m1" by auto
    note st = store_own_page [OF s w, of k v]
    have k2: "keeps (set_mset R0 \<union> K) m (write_word (user_frame m1 (cr3 m) va) k v m1)"
      by (rule keeps_trans [OF k1 st(3)]) auto
    show "outcome {oom} (\<lambda>m'. space K R0 (cr3 m') m' \<and> cr3 m' = cr3 m \<and> keeps (set_mset R0 \<union> K) m m' \<and>
      (\<forall>va'. user_contents m' (cr3 m) va' =
         (if same_page va va' then (user_contents m (cr3 m) va)(k := v) else user_contents m (cr3 m) va')) \<and>
      (\<forall>pd2. lies_in (set_mset R0 \<union> K) pd2 m \<longrightarrow>
         lies_in (set_mset R0 \<union> K) pd2 m' \<and> (\<forall>va'. user_page m' pd2 va' = user_page m pd2 va')))
      (Inr (write_word (user_frame m1 (cr3 m1) va) k v m1))"
      using st(1,2) a k2 lies_in_keeps [OF _ k2] keeps_lies_in [OF _ k2] by simp
  qed
qed

lemma store_into_space:
  fixes m :: "'a vm_scheme"
  assumes "space K R0 (cr3 m) m" and "user_area m (cr3 m) va"
    and "few_refs (space_refs m R0 (cr3 m)) (mem m) (mem m (cr3 m))"
  shows "outcome {oom} (\<lambda>m'. space K R0 (cr3 m') m' \<and> cr3 m' = cr3 m \<and>
      (\<forall>va'. user_contents m' (cr3 m) va' =
         (if same_page va va' then (user_contents m (cr3 m) va)(k := v) else user_contents m (cr3 m) va')) \<and>
      (\<forall>pd2. lies_in (set_mset R0 \<union> K) pd2 m \<longrightarrow>
         lies_in (set_mset R0 \<union> K) pd2 m' \<and> (\<forall>va'. user_page m' pd2 va' = user_page m pd2 va')))
    (user_store va k v m)"
  by (rule outcome_mono [OF store_keeps [OF assms]]) blast

text \<open>
  C2. A store by the user refines a store into a private memory. Unless frames run out, it changes
  one word of one page of the view of the running space, whether or not the page was there, read-only or
  shared before; the view of every space whose frames belong to others stays the same,
  entries, flags and contents; and the invariant holds again.
\<close>

theorem user_store_refines:
  fixes m :: "'a vm_scheme"
  assumes "space K R0 (cr3 m) m" and "user_area m (cr3 m) va"
    and "few_refs (space_refs m R0 (cr3 m)) (mem m) (mem m (cr3 m))"
  shows "outcome {oom} (\<lambda>m'. space K R0 (cr3 m') m' \<and> cr3 m' = cr3 m \<and>
      (\<forall>va'. user_contents m' (cr3 m) va' =
         (if same_page va va' then (user_contents m (cr3 m) va)(k := v) else user_contents m (cr3 m) va')) \<and>
      (\<forall>pd2. lies_in (set_mset R0 \<union> K) pd2 m \<longrightarrow>
         lies_in (set_mset R0 \<union> K) pd2 m' \<and> (\<forall>va'. user_page m' pd2 va' = user_page m pd2 va')))
    (user_store va k v m)"
  by (rule store_into_space [OF assms])

theorem user_store_refines_witness:
  "outcome {oom} (\<lambda>m'. user_contents m' 0x100000 0x80001000 = (\<lambda>_. 0)(3 := 7) \<and> user_contents m' 0x100000 0x80000000 = (\<lambda>_. 42))
     (user_store 0x80001000 3 7 demo_running)"
proof -
  have "\<not> same_page 0x80001000 0x80000000" "same_page 0x80001000 0x80001000"
    by (simp_all add: same_page_def pdi_of_def pti_of_def)
  moreover have "user_contents demo_running 0x100000 0x80001000 = (\<lambda>_. 0)"
    using demo_running_pages(1) by (simp add: user_contents_def)
  ultimately show ?thesis
    using demo_running_space demo_running_few demo_running_pages
    by (intro outcome_mono [OF user_store_refines [of "{}" "{#}"]]) auto
qed

text \<open>
  C43. A load by the user reads the private memory, and changes nothing that anybody sees.
\<close>

theorem user_load_refines:
  fixes m :: "'a vm_scheme"
  assumes "space K R0 (cr3 m) m" and "user_area m (cr3 m) va"
    and "few_refs (space_refs m R0 (cr3 m)) (mem m) (mem m (cr3 m))"
  shows "outcome {oom} (\<lambda>(m', w). w = user_contents m (cr3 m) va k \<and> space K R0 (cr3 m') m' \<and> cr3 m' = cr3 m \<and>
      keeps (set_mset R0 \<union> K) m m' \<and> (\<forall>va'. user_contents m' (cr3 m) va' = user_contents m (cr3 m) va'))
    (user_load va k m)"
proof -
  let ?p = "user_page m (cr3 m) va = None"
  have w: "user_writable m (cr3 m) va \<Longrightarrow> \<not> ?p"
    using user_page_mapped [of m "cr3 m" va] by (auto simp: user_writable_bits)
  have f: "outcome {oom} (\<lambda>m'. space K R0 (cr3 m) m' \<and> cr3 m' = cr3 m \<and> keeps (set_mset R0 \<union> K) m m' \<and>
      (?p \<longrightarrow> user_writable m' (cr3 m) va) \<and> (\<forall>va'. user_contents m' (cr3 m) va' = user_contents m (cr3 m) va') \<and>
      (\<not> ?p \<longrightarrow> m' = m)) (if ?p then vmm_pageFault va 4 m else Inr m)"
  proof (cases ?p)
    case True
    then show ?thesis by (intro fault_then [OF assms(1,2) _ _ assms(3) w]) auto
  next
    case False
    then show ?thesis using assms(1) by auto
  qed
  show ?thesis
    unfolding user_load_def
  proof (rule outcome_bind [OF f])
    fix m1 assume a: "space K R0 (cr3 m) m1 \<and> cr3 m1 = cr3 m \<and> keeps (set_mset R0 \<union> K) m m1 \<and>
      (?p \<longrightarrow> user_writable m1 (cr3 m) va) \<and> (\<forall>va'. user_contents m1 (cr3 m) va' = user_contents m (cr3 m) va') \<and>
      (\<not> ?p \<longrightarrow> m1 = m)"
    have "mapped (mem m1) (mem m1 (cr3 m)) (pdi_of va) (pti_of va)"
      using a user_page_mapped [of m "cr3 m" va] by (cases ?p) (auto simp: user_writable_bits)
    then have "mem m1 (user_frame m1 (cr3 m) va) = user_contents m (cr3 m) va"
      using a user_contents_mapped [of m1 "cr3 m" va] by simp
    then show "outcome {oom} (\<lambda>(m', w). w = user_contents m (cr3 m) va k \<and> space K R0 (cr3 m') m' \<and> cr3 m' = cr3 m \<and>
        keeps (set_mset R0 \<union> K) m m' \<and> (\<forall>va'. user_contents m' (cr3 m) va' = user_contents m (cr3 m) va'))
      (Inr (m1, mem m1 (user_frame m1 (cr3 m1) va) k))" using a by simp
  qed
qed

theorem user_load_refines_witness:
  "outcome {oom} (\<lambda>(m', w). w = 0 \<and> user_contents m' 0x100000 0x80000000 = (\<lambda>_. 42)) (user_load 0x80001000 3 demo_running)"
proof -
  have "user_contents demo_running 0x100000 0x80001000 = (\<lambda>_. 0)"
    using demo_running_pages(1) by (simp add: user_contents_def)
  then show ?thesis
    using demo_running_space demo_running_few demo_running_pages
    by (intro outcome_mono [OF user_load_refines [of "{}" "{#}"]]) auto
qed

end
