(* ===== verification/VMM_Clone.thy ===== *)
theory VMM_Clone
  imports VMM_Claims
begin

text \<open>
  \<open>Process::clone\<close>: write protection and the copy of the directory turn one address space into two that
  satisfy the invariant, each with the other among those who hold the rest.
\<close>

definition clone_space :: "u32 \<Rightarrow> 'a vm_scheme \<Rightarrow> ('a vm_scheme \<times> u32) res" where
  "clone_space pd m = bindE (ASSERT (pd = cr3 m) ''cr3 == getCR3()'') (\<lambda>_. copy_pd pd (write_protect pd m))"

section \<open>Write protection keeps the invariant\<close>

definition protected_space :: "(u32 \<Rightarrow> nat \<Rightarrow> u32) \<Rightarrow> (nat \<Rightarrow> u32) \<Rightarrow> bool" where
  "protected_space M c \<longleftrightarrow> (\<forall>i j. mapped M c i j \<longrightarrow> \<not> bit (pte M c i j) 1)"

lemma protect_ptes_refs:
  "refs_ok pend K R m \<Longrightarrow> pd \<in># R \<Longrightarrow> pt \<in># R \<Longrightarrow> refs_ok pend K R (fold (protect_pte pd pdi pt) xs m)"
  by (induction xs arbitrary: m) (simp_all add: protect_pte_def refs_ok_write_word)

lemma protect_pde_refs:
  assumes "refs_ok pend K R m" "pd \<in># R" "priv (mem m pd pdi) \<Longrightarrow> mem m pd pdi AND fMASK \<in># R"
  shows "refs_ok pend K R (protect_pde pd pdi m)"
proof -
  have "(mem m pd pdi XOR fRW) AND fMASK = mem m pd pdi AND fMASK" using same_but_rw_entry(2) [OF xor_rw(1)] .
  then show ?thesis
    using assms by (auto simp: protect_pde_def Let_def pFlag_iff write_word_def [of _ _ _ m, symmetric]
      intro!: protect_ptes_refs refs_ok_write_word) (simp add: write_word_def)
qed

lemma write_protect_refs:
  assumes r: "refs_ok pend K R m" and pd: "pd \<in># R"
    and t: "\<And>i. has_table (mem m pd) i \<Longrightarrow> mem m pd i AND fMASK \<in># R \<and> mem m pd i AND fMASK \<noteq> pd"
  shows "refs_ok pend K R (write_protect pd m)"
proof -
  have "refs_ok pend K R (write_protect pd m) \<and> protects pd m (write_protect pd m)"
    unfolding write_protect_def
  proof (rule fold_upt [where I = "\<lambda>_ n. refs_ok pend K R n \<and> protects pd m n"])
    show "refs_ok pend K R m \<and> protects pd m m" using r by simp
    fix i n assume i: "i < PAGES_PER_TABLE" and I: "refs_ok pend K R n \<and> protects pd m n"
    have s: "same_but_rw (mem m pd i) (mem n pd i)" using I by (simp add: protects_def)
    have tn: "priv (mem n pd i) \<Longrightarrow> mem n pd i AND fMASK \<in># R \<and> mem n pd i AND fMASK \<noteq> pd"
      using t [of i] i same_but_rw_entry [OF s] by (simp add: has_table_def)
    have "protects pd n (protect_pde pd i n)" by (rule protect_pde_step(1)) (use tn in blast)
    then show "refs_ok pend K R (protect_pde pd i n) \<and> protects pd m (protect_pde pd i n)"
      using I protect_pde_refs [of pend K R n pd i] pd tn protects_trans by blast
  qed
  then show ?thesis by simp
qed

lemma table_refs_rw:
  assumes "\<And>j. same_but_rw (c j) (d j)" "\<And>q k. same_but_rw (M q k) (M' q k)"
  shows "table_refs M' R0 d n = table_refs M R0 c n"
proof -
  have "priv_refs (M' q) k = priv_refs (M q) k" for q k
    by (rule priv_refs_page_cong) (simp add: page_refs_def same_but_rw_entry [OF assms(2)])
  then show ?thesis
    by (induction n) (simp_all add: same_but_rw_entry [OF assms(1)])
qed

lemma protect_pde_same:
  "start (protect_pde pd i m) = start m" "limit (protect_pde pd i m) = limit m" "pm.more (protect_pde pd i m) = pm.more m"
proof -
  have "start (fold (protect_pte pd i pt) xs n) = start n \<and> limit (fold (protect_pte pd i pt) xs n) = limit n \<and>
    pm.more (fold (protect_pte pd i pt) xs n) = pm.more n" for pt xs and n :: "'a pm_scheme"
    by (induction xs arbitrary: n) (simp_all add: protect_pte_def write_word_def)
  then show "start (protect_pde pd i m) = start m" "limit (protect_pde pd i m) = limit m" "pm.more (protect_pde pd i m) = pm.more m"
    by (simp_all add: protect_pde_def Let_def write_word_def)
qed

lemma write_protect_space:
  assumes sp: "space K R0 pd m"
  defines "m' \<equiv> write_protect pd m"
  shows "space K R0 pd m'" "protected_space (mem m') (mem m' pd)"
    "mapped (mem m') (mem m' pd) i j = mapped (mem m) (mem m pd) i j"
    "user_contents m' pd va = user_contents m pd va"
    "table_refs (mem m') R1 (mem m' pd) n = table_refs (mem m) R1 (mem m pd) n"
    "keeps (set_mset R0 \<union> K) m m'"
proof -
  let ?c = "mem m pd" and ?c' = "mem m' pd" and ?M = "mem m" and ?M' = "mem m'"
  have l: "laid ?M R0 pd ?c" and h: "holds K (space_refs m R0 pd) m" using sp by (simp_all add: space_def)
  have sep: "\<And>i. i < PAGES_PER_TABLE \<Longrightarrow> priv (?c i) \<Longrightarrow> ?c i AND fMASK \<noteq> pd"
    using laidD(2) [OF l] by (simp add: has_table_def)
  note ef = write_protect_effect [of m pd, OF sep, folded m'_def]
  have s: "same_but_rw (?M q k) (?M' q k)" for q k using ef by (simp add: protects_def)
  note se = same_but_rw_entry [OF s] and sb = same_but_rw_bit [OF s]
  have ht: "has_table ?c' k = has_table ?c k" for k by (simp add: has_table_def se)
  have sp': "same_but_rw (pte ?M ?c k n) (pte ?M' ?c' k n)" for k n using s by (simp add: pte_def se)
  note pe = same_but_rw_entry [OF sp'] and pb = same_but_rw_bit [OF sp']
  have mp: "mapped ?M' ?c' k n = mapped ?M ?c k n" for k n by (simp add: mapped_def ht pe)
  then show "mapped ?M' ?c' i j = mapped ?M ?c i j" .
  have rw: "bit (?c' k) 1 \<Longrightarrow> bit (?c k) 1" for k using ef by blast
  have nw: "\<not> bit (pte ?M' ?c' k n) 1" if m: "mapped ?M ?c k n" for k n
  proof (cases "bit (?c k) 1")
    case True
    then have "no_write (?M' (?c k AND fMASK)) PAGES_PER_TABLE" using ef m by (simp add: mapped_def has_table_def)
    then show ?thesis using m pe [of k n] by (simp add: no_write_def mapped_def pte_def se)
  next
    case False
    then have "\<not> bit (pte ?M ?c k n) 1" using laidD(9) [OF l m] by blast
    moreover have "?c k AND fMASK \<noteq> pd" using laidD(2) [OF l] m by (simp add: mapped_def)
    ultimately show ?thesis using ef by (auto simp: protects_def pte_def se)
  qed
  then show "protected_space ?M' ?c'" by (simp add: protected_space_def mp)
  show tr: "table_refs ?M' R1 ?c' n = table_refs ?M R1 ?c n" for R1 n by (rule table_refs_rw) (rule s)+
  have fr: "?c' k AND fMASK = ?c k AND fMASK" for k by (rule se)
  have "tables_apart ?M' pd ?c'"
    unfolding tables_apart_def ht mp fr pe
    using laidD(2-5) [OF l]
  proof (intro conjI allI impI)
    fix k n assume k: "has_table ?c k" "n < PAGES_PER_TABLE" "present (pte ?M' ?c' k n)"
    have "present (pte ?M ?c k n)" using k(3) by (simp add: present_bit pb)
    note g = laidD(6) [OF l k(1,2) this]
    have "(pte ?M' ?c' k n AND fG \<noteq> 0) = (pte ?M ?c k n AND fG \<noteq> 0)"
      "(pte ?M' ?c' k n AND fNG \<noteq> 0) = (pte ?M ?c k n AND fNG \<noteq> 0)"
      unfolding flag_bits by (simp_all add: pb)
    then show "(pte ?M' ?c' k n AND fG \<noteq> 0) = (pte ?M' ?c' k n AND fNG = 0)" using g by blast
  qed blast+
  moreover have "cow ?M' R0 ?c'"
    unfolding cow_def ht mp fr pe using laidD(7,8,12,13) [OF l] nw rw sb [of 2] pb [of 2] by simp
  ultimately have l': "laid ?M' R0 pd ?c'" using laidD(1) [OF l] by (simp add: laid_def)
  have "holds K (space_refs m R0 pd) m'"
    unfolding m'_def
    by (rule write_protect_refs [OF h]) (use space_tables [of ?c _ ?M R0] laidD(2) [OF l] in auto)
  then show "space K R0 pd m'" using l' by (simp add: space_def tr)
  have same: "?M' q = ?M q" if "q \<noteq> pd" "\<And>k. has_table ?c k \<Longrightarrow> bit (?c k) 1 \<Longrightarrow> q \<noteq> ?c k AND fMASK" for q
    using ef that by (simp add: has_table_def)
  have "?M' (pte ?M ?c k n AND fMASK) = ?M (pte ?M ?c k n AND fMASK)" if "mapped ?M ?c k n" for k n
    by (rule same) (use laidD(4) [OF l that] laidD(5) [OF l that] in \<open>metis+\<close>)
  then show "user_contents m' pd va = user_contents m pd va"
    by (simp add: user_contents_mapped user_frame_pte mp pe)
  show "keeps (set_mset R0 \<union> K) m m'"
  proof -
    have "?M' q = ?M q" if q: "q \<in> set_mset R0 \<union> K" for q
    proof (rule same)
      show "q \<noteq> pd" using q laidD(1) [OF l] refs_ok_disjoint [OF h, of q] by auto
      fix k assume "has_table ?c k" "bit (?c k) 1"
      then show "q \<noteq> ?c k AND fMASK"
        using q laidD(8) [OF l, of k] refs_ok_disjoint [OF h, of q] space_tables [of ?c k ?M R0] by auto
    qed
    moreover have "start m' = start m \<and> limit m' = limit m \<and> pm.more m' = pm.more m"
      unfolding m'_def write_protect_def
      by (rule fold_upt [where I = "\<lambda>_ n. start n = start m \<and> limit n = limit m \<and> pm.more n = pm.more m"])
        (simp_all add: protect_pde_same)
    ultimately show ?thesis by (simp add: keeps_def)
  qed
qed

section \<open>Parent and child\<close>

text \<open>\<open>m1\<close> is the protected parent and \<open>m2\<close> the state with the copy \<open>new\<close>.\<close>

definition forked :: "u32 set \<Rightarrow> u32 multiset \<Rightarrow> u32 \<Rightarrow> 'a pm_scheme \<Rightarrow> u32 \<Rightarrow> 'a pm_scheme \<Rightarrow> bool" where
  "forked K R0 pd m1 new m2 \<longleftrightarrow> space K R0 pd m1 \<and> protected_space (mem m1) (mem m1 pd) \<and>
     new \<notin># space_refs m1 R0 pd \<and> new \<notin> K \<and>
     dcopying (\<lambda>_. 0) K (space_refs m1 R0 pd) m1 (mem m1 pd) new PAGES_PER_TABLE m2"

lemma once_only:
  assumes c: "count (table_refs M R c PAGES_PER_TABLE) (c i AND fMASK) = 1" and i: "has_table c i" and k: "has_table c k"
    and e: "c k AND fMASK = c i AND fMASK"
  shows "i = k"
proof (rule ccontr)
  assume "i \<noteq> k"
  then have "has_table (c(i := 0)) k" using k by (simp add: has_table_def)
  from space_tables [OF this, of M R] \<open>i \<noteq> k\<close> e
  have "c i AND fMASK \<in># table_refs M R (c(i := 0)) PAGES_PER_TABLE" by simp
  then have "0 < count (table_refs M R (c(i := 0)) PAGES_PER_TABLE) (c i AND fMASK)" by simp
  moreover have "0 < count (entry_refs M R (c i)) (c i AND fMASK)" using i by (simp add: entry_refs_def has_table_def)
  moreover have "count (entry_refs M R (c i)) (c i AND fMASK) + count (table_refs M R (c(i := 0)) PAGES_PER_TABLE) (c i AND fMASK) = 1"
    using c table_refs_split [of i PAGES_PER_TABLE M R c] i by (simp add: has_table_def)
  ultimately show False by linarith
qed

lemma table_refs_entries: "table_refs M R c (Suc n) = entry_refs M R (c n) + table_refs M R c n"
  by (simp add: entry_refs_def)

lemma forked_parent:
  assumes "forked K R0 pd m1 new m2"
  shows "mem m2 pd = mem m1 pd" "has_table (mem m1 pd) i \<Longrightarrow> mem m2 (mem m1 pd i AND fMASK) = mem m1 (mem m1 pd i AND fMASK)"
    "mapped (mem m2) (mem m1 pd) = mapped (mem m1) (mem m1 pd)"
    "has_table (mem m1 pd) i \<Longrightarrow> pte (mem m2) (mem m1 pd) i = pte (mem m1) (mem m1 pd) i"
    "table_refs (mem m2) R (mem m1 pd) PAGES_PER_TABLE = table_refs (mem m1) R (mem m1 pd) PAGES_PER_TABLE"
    "keeps (set_mset (space_refs m1 R0 pd) \<union> K) m1 m2"
proof -
  show k: "keeps (set_mset (space_refs m1 R0 pd) \<union> K) m1 m2" using assms by (simp add: forked_def dcopying_def)
  show "mem m2 pd = mem m1 pd" using keeps_mem [OF k, of pd] by simp
  show t: "has_table (mem m1 pd) i \<Longrightarrow> mem m2 (mem m1 pd i AND fMASK) = mem m1 (mem m1 pd i AND fMASK)" for i
    using keeps_mem [OF k] space_tables [of "mem m1 pd" i "mem m1" R0] by simp
  show "mapped (mem m2) (mem m1 pd) = mapped (mem m1) (mem m1 pd)" by (rule laid_cong(2)) (rule t)
  show "has_table (mem m1 pd) i \<Longrightarrow> pte (mem m2) (mem m1 pd) i = pte (mem m1) (mem m1 pd) i"
    using t [of i] by (simp add: pte_def fun_eq_iff)
  show "table_refs (mem m2) R (mem m1 pd) PAGES_PER_TABLE = table_refs (mem m1) R (mem m1 pd) PAGES_PER_TABLE"
    by (rule laid_cong(4)) (rule t)
qed

text \<open>The entries of the child.\<close>

lemma forked_child:
  assumes f: "forked K R0 pd m1 new m2"
  shows "has_table (mem m2 new) i = has_table (mem m1 pd) i"
    "has_table (mem m1 pd) i \<Longrightarrow> n < 12 \<Longrightarrow> bit (mem m2 new i) n = bit (mem m1 pd i) n"
    "has_table (mem m1 pd) i \<Longrightarrow> \<not> bit (mem m1 pd i) 1 \<Longrightarrow> mem m2 new i = mem m1 pd i"
    "has_table (mem m1 pd) i \<Longrightarrow> bit (mem m1 pd i) 1 \<Longrightarrow> mem m2 new i AND fMASK \<notin># space_refs m1 R0 pd"
    "has_table (mem m1 pd) i \<Longrightarrow> j < PAGES_PER_TABLE \<Longrightarrow> pte (mem m2) (mem m2 new) i j =
       (if present (pte (mem m1) (mem m1 pd) i j) \<or> \<not> bit (mem m1 pd i) 1 then pte (mem m1) (mem m1 pd) i j else 0)"
    "mapped (mem m2) (mem m2 new) = mapped (mem m1) (mem m1 pd)"
proof -
  let ?R = "space_refs m1 R0 pd" and ?c = "mem m1 pd" and ?c' = "mem m2 new"
  have l: "laid (mem m1) R0 pd ?c" and ro: "protected_space (mem m1) ?c" using f by (simp_all add: forked_def space_def)
  have d: "dir_copied (insert new (set_mset ?R \<union> K)) (mem m1) (mem m2) (?c i) (?c' i)" if "i < PAGES_PER_TABLE" for i
    using f that by (simp add: forked_def dcopying_def)
  show ht: "has_table ?c' i = has_table ?c i" for i using dir_copied_priv [OF d] by (auto simp: has_table_def)
  have low: "?c' i AND 0xFFF = ?c i AND 0xFFF" if "has_table ?c i" for i
    using d [of i] that priv_present by (auto simp: has_table_def dir_copied_def split: if_splits)
  show "bit (?c' i) n = bit (?c i) n" if "has_table ?c i" "n < 12"
    using low [OF that(1)] low_flag [OF that(2), of "?c i"] low_flag [OF that(2), of "?c' i"] by simp
  have fr: "?c i AND fRW = 0 \<and> ?c' i = ?c i \<or> ?c i AND fRW \<noteq> 0 \<and> ?c' i AND fMASK \<notin> insert new (set_mset ?R \<union> K)"
    if "has_table ?c i" for i
    using dir_copied_frame [OF d] that by (simp add: has_table_def)
  show same: "?c' i = ?c i" if "has_table ?c i" "\<not> bit (?c i) 1" for i using fr [OF that(1)] that(2) flag_bits(2) by blast
  show "?c' i AND fMASK \<notin># ?R" if "has_table ?c i" "bit (?c i) 1"
    using fr [OF that(1)] that(2) flag_bits(2) by blast
  show p: "pte (mem m2) ?c' i j = (if present (pte (mem m1) ?c i j) \<or> \<not> bit (?c i) 1 then pte (mem m1) ?c i j else 0)"
    if i: "has_table ?c i" and j: "j < PAGES_PER_TABLE" for i j
  proof (cases "bit (?c i) 1")
    case False
    then show ?thesis using same [OF i] forked_parent(2) [OF f i] by (simp add: pte_def)
  next
    case True
    then have "?c i AND fRW \<noteq> 0" using flag_bits(2) by blast
    then have "copied (insert new (set_mset ?R \<union> K)) (mem m1) (mem m2) (pte (mem m1) ?c i j) (pte (mem m2) ?c' i j)"
      using d [of i] i j priv_present by (auto simp: dir_copied_def has_table_def pte_def priv_iff)
    moreover have "\<not> bit (pte (mem m1) ?c i j) 1" if "present (pte (mem m1) ?c i j)" "pte (mem m1) ?c i j AND fG = 0"
      using laidD(6) [OF l i j that(1)] that i j ro by (simp add: protected_space_def mapped_def priv_iff)
    ultimately show ?thesis using copied_read_only True by simp
  qed
  show "mapped (mem m2) ?c' = mapped (mem m1) ?c"
    using p ht priv_present by (auto simp: fun_eq_iff mapped_def split: if_splits)
qed

lemma forked_pte:
  assumes f: "forked K R0 pd m1 new m2" and "mapped (mem m1) (mem m1 pd) i j"
  shows "pte (mem m2) (mem m2 new) i j = pte (mem m1) (mem m1 pd) i j"
  using forked_child(5) [OF f, of i j] assms(2) priv_present by (simp add: mapped_def)

lemma forked_child_space:
  assumes f: "forked K R0 pd m1 new m2"
  shows "space K (space_refs m2 R0 pd) new m2"
proof -
  let ?R = "space_refs m1 R0 pd" and ?c = "mem m1 pd" and ?c' = "mem m2 new"
  note fp = forked_parent [OF f] and fc = forked_child [OF f] and pt = forked_pte [OF f]
  have l: "laid (mem m1) R0 pd ?c" and ro: "protected_space (mem m1) ?c" and new: "new \<notin># ?R"
    and dc: "dcopying (\<lambda>_. 0) K ?R m1 ?c new PAGES_PER_TABLE m2" using f by (simp_all add: forked_def space_def)
  have R: "space_refs m2 R0 pd = ?R" unfolding fp(1) fp(5) ..
  let ?T = "table_refs (mem m2) ?R ?c' PAGES_PER_TABLE"
  have nT: "new \<notin># ?T" and once: "fresh_once ?R ?T ?c' PAGES_PER_TABLE"
    and h: "holds K (add_mset new (?R + ?T)) m2" using dc by (simp_all add: dcopying_def)
  have pg: "pte (mem m1) ?c i j AND fMASK \<in># ?R" if "mapped (mem m1) ?c i j" for i j
    using space_pages [OF l that] by simp
  have old: "?c' i AND fMASK = ?c i AND fMASK" if "has_table ?c i" "?c' i AND fMASK \<in># ?R" for i
    using that fc(3,4) [of i] by metis
  have "tables_apart (mem m2) new ?c'"
    unfolding tables_apart_def fc(1) fc(6)
  proof (intro conjI allI impI)
    fix i assume "has_table ?c i"
    then show "?c' i AND fMASK \<noteq> new" using space_tables [of ?c' i "mem m2" ?R] fc(1) nT by auto
  next
    fix i i' assume i: "has_table ?c i" "has_table ?c i'" and e: "?c' i AND fMASK = ?c' i' AND fMASK"
    show "i = i'"
    proof (cases "?c' i AND fMASK \<in># ?R")
      case True
      have t: "?c' i' AND fMASK \<in># ?R" by (rule subst [OF e, of "\<lambda>x. x \<in># ?R", OF True])
      have "?c i AND fMASK = ?c i' AND fMASK"
        by (rule trans [OF trans [OF old [OF i(1) True, symmetric] e] old [OF i(2) t]])
      then show ?thesis by (rule laidD(3) [OF l i])
    next
      case False
      then have "count ?T (?c' i AND fMASK) = 1" using once i fc(1) [of i] by (simp add: fresh_once_def has_table_def)
      then show ?thesis by (rule once_only [OF _ _ _ e [symmetric]]) (simp_all only: fc(1) i)
    qed
  next
    fix i j assume m: "mapped (mem m1) ?c i j"
    then show "pte (mem m2) ?c' i j AND fMASK \<noteq> new" using pg [OF m] pt [OF m] new by auto
    fix i' assume i': "has_table ?c i'"
    show "?c' i' AND fMASK \<noteq> pte (mem m2) ?c' i j AND fMASK"
    proof
      assume e: "?c' i' AND fMASK = pte (mem m2) ?c' i j AND fMASK"
      then have "?c' i' AND fMASK \<in># ?R" using pg [OF m] unfolding pt [OF m] by (simp only:)
      from old [OF i' this] show False using laidD(5) [OF l m i'] trans [OF _ e] unfolding pt [OF m] by metis
    qed
  next
    fix i j assume i: "has_table ?c i" "j < PAGES_PER_TABLE" and "present (pte (mem m2) ?c' i j)"
    then have "present (pte (mem m1) ?c i j)" "pte (mem m2) ?c' i j = pte (mem m1) ?c i j"
      using fc(5) [OF i] by (auto split: if_splits)
    then show "(pte (mem m2) ?c' i j AND fG \<noteq> 0) = (pte (mem m2) ?c' i j AND fNG = 0)"
      using laidD(6) [OF l i] by simp
  qed
  moreover have "cow (mem m2) ?R ?c'"
    unfolding cow_def fc(1) fc(6)
    using fc(2) [of _ 2] fc(2) [of _ 1] fc(4) pt pg ro laidD(12,13) [OF l] unfolding protected_space_def by simp
  ultimately show ?thesis using h new unfolding R by (simp add: space_def laid_def)
qed

text \<open>What the parent may still write to, the child does not have.\<close>

lemma forked_own_table:
  assumes f: "forked K R0 pd m1 new m2" and i: "has_table (mem m1 pd) i" and w: "bit (mem m1 pd i) 1"
  shows "mem m1 pd i AND fMASK \<notin># space_refs m2 R0 new"
proof
  let ?c = "mem m1 pd" and ?c' = "mem m2 new"
  note fc = forked_child [OF f] and pt = forked_pte [OF f]
  have l: "laid (mem m1) R0 pd ?c" and new: "new \<notin># space_refs m1 R0 pd" using f by (simp_all add: forked_def space_def)
  assume "?c i AND fMASK \<in># space_refs m2 R0 new"
  moreover have "?c i AND fMASK \<notin># R0" by (rule laidD(8) [OF l i w])
  moreover have t: "?c i AND fMASK \<in># space_refs m1 R0 pd" using space_tables [OF i, of "mem m1" R0] by simp
  then have "?c i AND fMASK \<noteq> new" using new by auto
  ultimately have "?c i AND fMASK \<in># table_refs (mem m2) R0 ?c' PAGES_PER_TABLE" by simp
  then consider k where "has_table ?c k" "?c i AND fMASK = ?c' k AND fMASK"
    | k j where "mapped (mem m1) ?c k j" "?c i AND fMASK = pte (mem m2) ?c' k j AND fMASK"
    unfolding table_refs_mem fc(1) fc(6) by blast
  then show False
  proof cases
    case (1 k)
    show False
    proof (cases "bit (?c k) 1")
      case True
      from fc(4) [OF 1(1) True] show False using t 1(2) by (simp only:)
    next
      case False
      have "?c i AND fMASK = ?c k AND fMASK" using 1(2) fc(3) [OF 1(1) False] by simp
      from laidD(3) [OF l i 1(1) this] show False using w False by simp
    qed
  next
    case (2 k j)
    then show False using laidD(5) [OF l 2(1) i] pt [OF 2(1)] by simp
  qed
qed

lemma forked_shared_table:
  assumes f: "forked K R0 pd m1 new m2" and i: "has_table (mem m1 pd) i" and w: "\<not> bit (mem m1 pd i) 1"
  shows "mem m1 pd i AND fMASK \<in># space_refs m2 R0 new"
    "mapped (mem m1) (mem m1 pd) i j \<Longrightarrow> pte (mem m1) (mem m1 pd) i j AND fMASK \<in># space_refs m2 R0 new"
proof -
  note fc = forked_child [OF f] and pt = forked_pte [OF f]
  have l: "laid (mem m1) R0 pd (mem m1 pd)" using f by (simp add: forked_def space_def)
  have e: "mem m2 new i = mem m1 pd i" by (rule fc(3) [OF i w])
  have "has_table (mem m2 new) i" using i fc(1) by simp
  from space_tables [OF this, of "mem m2" R0] show "mem m1 pd i AND fMASK \<in># space_refs m2 R0 new" by (simp add: e)
  assume m: "mapped (mem m1) (mem m1 pd) i j"
  show "pte (mem m1) (mem m1 pd) i j AND fMASK \<in># space_refs m2 R0 new"
  proof (cases "mem m1 pd i AND fMASK \<in># R0")
    case True
    then show ?thesis using laidD(7) [OF l m] by simp
  next
    case False
    have "mapped (mem m2) (mem m2 new) i j" using m fc(6) by simp
    then have "pte (mem m2) (mem m2 new) i j AND fMASK \<in># table_refs (mem m2) R0 (mem m2 new) PAGES_PER_TABLE"
      using False e table_refs_mem [of "pte (mem m2) (mem m2 new) i j AND fMASK" "mem m2" R0 "mem m2 new"] by metis
    then show ?thesis unfolding pt [OF m] by simp
  qed
qed

lemma sums_regroup:
  "(a :: 'x multiset) + b = c + d \<Longrightarrow> A + B = C + D \<Longrightarrow> (a + A) + (b + B) = (c + C) + (d + D)"
proof -
  assume e: "a + b = c + d" "A + B = C + D"
  have "(a + A) + (b + B) = (a + b) + (A + B)" by (simp only: ac_simps)
  also have "\<dots> = (c + C) + (d + D)" unfolding e by (simp only: ac_simps)
  finally show ?thesis .
qed

lemma forked_total:
  assumes f: "forked K R0 pd m1 new m2" and n: "n \<le> PAGES_PER_TABLE"
  shows "table_refs (mem m2) R0 (mem m2 new) n + table_refs (mem m2) (space_refs m2 R0 new) (mem m1 pd) n =
    table_refs (mem m2) R0 (mem m1 pd) n + table_refs (mem m2) (space_refs m1 R0 pd) (mem m2 new) n"
  using n
proof (induction n)
  case (Suc n)
  let ?c = "mem m1 pd" and ?c' = "mem m2 new" and ?M = "mem m2" and ?R = "space_refs m1 R0 pd" and ?RC = "space_refs m2 R0 new"
  note fc = forked_child [OF f]
  have l: "laid (mem m1) R0 pd ?c" using f by (simp add: forked_def space_def)
  have "entry_refs ?M R0 (?c' n) + entry_refs ?M ?RC (?c n) = entry_refs ?M R0 (?c n) + entry_refs ?M ?R (?c' n)"
  proof (cases "has_table ?c n")
    case False
    then have "\<not> priv (?c n)" "\<not> priv (?c' n)" using fc(1) [of n] Suc.prems by (auto simp: has_table_def)
    then show ?thesis by (simp add: entry_refs_def)
  next
    case i: True
    then have p: "priv (?c n)" "priv (?c' n)" using fc(1) [of n] by (simp_all add: has_table_def)
    have t: "?c n AND fMASK \<in># ?R" using space_tables [OF i, of "mem m1" R0] by simp
    show ?thesis
    proof (cases "bit (?c n) 1")
      case False
      have e: "?c' n = ?c n" by (rule fc(3) [OF i False])
      show ?thesis using forked_shared_table(1) [OF f i False] t p unfolding entry_refs_def e by simp
    next
      case True
      note o = forked_own_table [OF f i True] and fr = fc(4) [OF i True]
      have r0: "?c n AND fMASK \<notin># R0" "?c' n AND fMASK \<notin># R0" using laidD(8) [OF l i True] fr by auto
      show ?thesis using p o fr r0 unfolding entry_refs_def by (simp only: if_True if_False union_ac)
    qed
  qed
  then show ?case unfolding table_refs_entries by (rule sums_regroup) (rule Suc.IH, use Suc.prems in simp)
qed simp

lemma forked_refs:
  assumes f: "forked K R0 pd m1 new m2"
  shows "add_mset new (space_refs m1 R0 pd + table_refs (mem m2) (space_refs m1 R0 pd) (mem m2 new) PAGES_PER_TABLE) =
    space_refs m2 (space_refs m2 R0 new) pd"
proof -
  have sh: "X + Y = Z + W \<Longrightarrow> add_mset new (add_mset pd (R0 + Z) + W) = add_mset pd (add_mset new (R0 + X) + Y)" for X Y Z W
    by (simp add: add.assoc add_mset_commute)
  show ?thesis
    unfolding forked_parent(1) [OF f] using sh [OF forked_total [OF f order_refl]] unfolding forked_parent(5) [OF f] .
qed

lemma forked_parent_space:
  assumes f: "forked K R0 pd m1 new m2"
  shows "space K (space_refs m2 R0 new) pd m2"
proof -
  let ?R = "space_refs m1 R0 pd" and ?c = "mem m1 pd" and ?c' = "mem m2 new" and ?RC = "space_refs m2 R0 new"
  note fp = forked_parent [OF f] and fc = forked_child [OF f] and pt = forked_pte [OF f]
  have l: "laid (mem m1) R0 pd ?c" and ro: "protected_space (mem m1) ?c" and new: "new \<notin># ?R"
    and dc: "dcopying (\<lambda>_. 0) K ?R m1 ?c new PAGES_PER_TABLE m2" using f by (simp_all add: forked_def space_def)
  have l2: "laid (mem m2) R0 pd ?c" using l laid_cong(1) [of ?c "mem m2" "mem m1", OF fp(2)] by blast
  have "holds K (add_mset new (?R + table_refs (mem m2) ?R ?c' PAGES_PER_TABLE)) m2" using dc by (simp add: dcopying_def)
  moreover note forked_refs [OF f]
  ultimately have h: "holds K (space_refs m2 ?RC pd) m2" by (rule back_subst [of "\<lambda>x. holds K x m2"])
  have npd: "pd \<notin># ?RC"
  proof
    assume "pd \<in># ?RC"
    moreover have "pd \<noteq> new" "pd \<notin># R0" using new laidD(1) [OF l] by auto
    ultimately have "pd \<in># table_refs (mem m2) R0 ?c' PAGES_PER_TABLE" by simp
    then consider k where "has_table ?c k" "pd = ?c' k AND fMASK"
      | k j where "mapped (mem m1) ?c k j" "pd = pte (mem m2) ?c' k j AND fMASK"
      unfolding table_refs_mem fc(1) fc(6) by blast
    then show False
    proof cases
      case (1 k)
      show False
      proof (cases "bit (?c k) 1")
        case True
        from fc(4) [OF 1(1) True] 1(2) have "pd \<notin># ?R" by (simp only: not_False_eq_True)
        then show False by simp
      next
        case False
        from laidD(2) [OF l 1(1)] 1(2) fc(3) [OF 1(1) False] show False by metis
      qed
    next
      case (2 k j)
      from laidD(4) [OF l 2(1)] 2(2) pt [OF 2(1)] show False by metis
    qed
  qed
  have "cow (mem m2) ?RC ?c"
    unfolding cow_def fp(3)
  proof (intro conjI allI impI)
    fix i assume i: "has_table ?c i"
    then show "bit (?c i) 2" by (rule laidD(12) [OF l])
    show "bit (?c i) 1 \<Longrightarrow> ?c i AND fMASK \<notin># ?RC" by (rule forked_own_table [OF f i])
  next
    fix i j assume m: "mapped (mem m1) ?c i j"
    then have i: "has_table ?c i" by (simp add: mapped_def)
    note e = fp(4) [OF i]
    show "bit (pte (mem m2) ?c i j) 2" using laidD(13) [OF l m] by (simp add: e)
    show "?c i AND fMASK \<in># ?RC \<Longrightarrow> pte (mem m2) ?c i j AND fMASK \<in># ?RC"
      using forked_own_table [OF f i] forked_shared_table(2) [OF f i _ m] unfolding e by blast
    assume "bit (pte (mem m2) ?c i j) 1"
    then have False using ro m by (simp add: e protected_space_def)
    then show "bit (?c i) 1" "pte (mem m2) ?c i j AND fMASK \<notin># ?RC" "i' = i" "j' = j" for i' j' by blast+
  qed
  then show ?thesis using h l2 npd by (simp add: space_def laid_def fp(1))
qed

text \<open>Where the two spaces lie, and what they show.\<close>

lemma forked_lies_in:
  assumes f: "forked K R0 pd m1 new m2"
  shows "lies_in (set_mset (space_refs m2 R0 new)) new m2" "lies_in (set_mset (space_refs m2 R0 pd)) pd m2"
proof -
  note fp = forked_parent [OF f] and fc = forked_child [OF f] and pt = forked_pte [OF f]
  have l: "laid (mem m1) R0 pd (mem m1 pd)" using f by (simp add: forked_def space_def)
  have "pte (mem m2) (mem m2 new) i j AND fMASK \<in># space_refs m2 R0 new" if m: "mapped (mem m1) (mem m1 pd) i j" for i j
  proof (cases "bit (mem m1 pd i) 1")
    case False
    then show ?thesis using forked_shared_table(2) [OF f _ False m] m pt [OF m] by (simp add: mapped_def)
  next
    case True
    have "mem m2 new i AND fMASK \<notin># R0" using fc(4) [of i] True m by (auto simp: mapped_def)
    moreover have "mapped (mem m2) (mem m2 new) i j" using m fc(6) by simp
    ultimately have "pte (mem m2) (mem m2 new) i j AND fMASK \<in># table_refs (mem m2) R0 (mem m2 new) PAGES_PER_TABLE"
      using table_refs_mem [of "pte (mem m2) (mem m2 new) i j AND fMASK" "mem m2" R0 "mem m2 new"] by blast
    then show ?thesis by simp
  qed
  then show "lies_in (set_mset (space_refs m2 R0 new)) new m2"
    unfolding lies_in_def using fc(6) space_tables [of "mem m2 new" _ "mem m2" R0] by auto
  have l2: "laid (mem m2) R0 pd (mem m2 pd)" using l laid_cong(1) [of "mem m1 pd" "mem m2" "mem m1", OF fp(2)] fp(1) by simp
  show "lies_in (set_mset (space_refs m2 R0 pd)) pd m2"
    unfolding lies_in_def using space_tables [of "mem m2 pd" _ "mem m2" R0] space_pages [OF l2] by auto
qed

lemma contents_cong: "user_page m' pd' va = user_page m pd va \<Longrightarrow> user_contents m' pd' va = user_contents m pd va"
  by (simp add: user_contents_def)

lemma forked_contents:
  assumes f: "forked K R0 pd m1 new m2"
  shows "user_contents m2 new va = user_contents m1 pd va" "user_contents m2 pd va = user_contents m1 pd va"
proof -
  note fp = forked_parent [OF f] and fc = forked_child [OF f] and pt = forked_pte [OF f]
  have sp: "space K R0 pd m1" and l: "laid (mem m1) R0 pd (mem m1 pd)" using f by (simp_all add: forked_def space_def)
  have k: "keeps (set_mset (space_refs m1 R0 pd)) m1 m2" by (rule keeps_mono [OF fp(6)]) auto
  show "user_contents m2 pd va = user_contents m1 pd va"
    by (rule contents_cong) (rule lies_in_keeps [OF space_lies_in [OF sp] k])
  show "user_contents m2 new va = user_contents m1 pd va"
  proof (cases "mapped (mem m1) (mem m1 pd) (pdi_of va) (pti_of va)")
    case True
    have "user_frame m2 new va = user_frame m1 pd va" by (simp add: user_frame_pte pt [OF True])
    moreover have "mem m2 (user_frame m1 pd va) = mem m1 (user_frame m1 pd va)"
      by (rule keeps_mem [OF k]) (use space_pages [OF l True] in \<open>simp add: user_frame_pte\<close>)
    ultimately show ?thesis using True fc(6) by (simp add: user_contents_mapped)
  next
    case False
    then show ?thesis using fc(6) by (simp add: user_contents_mapped)
  qed
qed

lemma clone_space_forked:
  fixes m :: "'a vm_scheme"
  assumes sp: "space K R0 (cr3 m) m" and few: "few_refs (space_refs m R0 (cr3 m)) (mem m) (mem m (cr3 m))"
  shows "outcome {oom} (\<lambda>(m', new). forked K R0 (cr3 m) (write_protect (cr3 m) m) new m' \<and> new \<noteq> 0) (clone_space (cr3 m) m)"
proof -
  let ?pd = "cr3 m" and ?m = "write_protect (cr3 m) m"
  note ws = write_protect_space [OF sp]
  have l: "laid (mem ?m) R0 ?pd (mem ?m ?pd)" and h: "holds K (space_refs ?m R0 ?pd) ?m" using ws(1) by (simp_all add: space_def)
  have few': "few_refs (space_refs ?m R0 ?pd) (mem ?m) (mem ?m ?pd)"
    using few unfolding few_refs_def ws(5) .
  have "outcome {oom} (\<lambda>(m', new). forked K R0 ?pd ?m new m' \<and> new \<noteq> 0) (copy_pd ?pd ?m)"
    by (rule outcome_mono [OF copy_pd_refs [OF h _ space_wf_dir [OF l] few']])
      (use ws(1,2) in \<open>auto simp: forked_def\<close>)
  then show ?thesis by (simp add: clone_space_def)
qed

section \<open>Properties\<close>

text \<open>
  C4. \<open>Process::clone\<close> makes two spaces out of one. If the running space satisfies the invariant then, unless frames run out, so do
  the parent among the child and the others, and the child among the parent and the
  others; both show the pages that the parent had; and no frame of the others has changed.
\<close>

theorem clone_two_spaces:
  fixes m :: "'a vm_scheme"
  assumes "space K R0 (cr3 m) m" and "few_refs (space_refs m R0 (cr3 m)) (mem m) (mem m (cr3 m))"
  shows "outcome {oom} (\<lambda>(m', new). new \<notin># space_refs m R0 (cr3 m) \<and> cr3 m' = cr3 m \<and> keeps (set_mset R0 \<union> K) m m' \<and>
      space K (space_refs m' R0 new) (cr3 m) m' \<and> space K (space_refs m' R0 (cr3 m)) new m' \<and>
      lies_in (set_mset (space_refs m' R0 new)) new m' \<and> lies_in (set_mset (space_refs m' R0 (cr3 m))) (cr3 m) m' \<and>
      (\<forall>va. user_contents m' (cr3 m) va = user_contents m (cr3 m) va \<and> user_contents m' new va = user_contents m (cr3 m) va))
    (clone_space (cr3 m) m)"
proof (rule outcome_mono [OF clone_space_forked [OF assms]])
  fix x :: "'a vm_scheme \<times> u32"
  obtain m' new where x: "x = (m', new)" by (cases x)
  let ?pd = "cr3 m" and ?m = "write_protect (cr3 m) m"
  assume "case x of (m', new) \<Rightarrow> forked K R0 ?pd ?m new m' \<and> new \<noteq> 0"
  then have f: "forked K R0 ?pd ?m new m'" by (simp add: x)
  note ws = write_protect_space [OF assms(1)]
  have new: "new \<notin># space_refs m R0 ?pd" using f ws(5) by (simp add: forked_def)
  have "keeps (set_mset R0 \<union> K) m m'" by (rule keeps_trans [OF ws(6) forked_parent(6) [OF f]]) auto
  then show "case x of (m', new) \<Rightarrow> new \<notin># space_refs m R0 ?pd \<and> cr3 m' = ?pd \<and> keeps (set_mset R0 \<union> K) m m' \<and>
      space K (space_refs m' R0 new) ?pd m' \<and> space K (space_refs m' R0 ?pd) new m' \<and>
      lies_in (set_mset (space_refs m' R0 new)) new m' \<and> lies_in (set_mset (space_refs m' R0 ?pd)) ?pd m' \<and>
      (\<forall>va. user_contents m' ?pd va = user_contents m ?pd va \<and> user_contents m' new va = user_contents m ?pd va)"
    using new keeps_cr3 forked_parent_space [OF f] forked_child_space [OF f] forked_lies_in [OF f] forked_contents [OF f] ws(4)
    by (simp add: x)
qed

theorem clone_two_spaces_witness:
  "outcome {oom} (\<lambda>(m', new). user_contents m' new 0x80000000 = (\<lambda>_. 42) \<and> space {} (space_refs m' {#} 0x100000) new m')
     (clone_space 0x100000 demo_running)"
  using outcome_mono [OF clone_two_spaces [of "{}" "{#}" demo_running]] demo_running_space demo_running_few demo_running_pages
  by auto

lemma forked_few:
  assumes f: "forked K R0 pd m1 new m2"
    and few: "few_refs (space_refs m1 R0 pd + table_refs (mem m1) {#} (mem m1 pd) PAGES_PER_TABLE) (mem m1) (mem m1 pd)"
  shows "few_refs (space_refs m2 (space_refs m2 R0 new) pd) (mem m2) (mem m2 pd)"
  unfolding few_refs_def
proof
  let ?R = "space_refs m1 R0 pd" and ?T = "table_refs (mem m1) {#} (mem m1 pd) PAGES_PER_TABLE"
  let ?T2 = "table_refs (mem m2) ?R (mem m2 new) PAGES_PER_TABLE"
  note fp = forked_parent [OF f]
  have l: "laid (mem m1) R0 pd (mem m1 pd)" and new: "new \<notin># ?R" using f by (simp_all add: forked_def space_def)
  fix p assume "p \<in># table_refs (mem m2) {#} (mem m2 pd) PAGES_PER_TABLE"
  then have p: "p \<in># ?T" unfolding fp(1) fp(5) .
  then have pR: "p \<in># ?R"
    unfolding table_refs_mem using space_tables [of "mem m1 pd" _ "mem m1" R0] space_pages [OF l] by auto
  have "count ?T2 p \<le> count ?T p"
  proof (rule dir_copied_count [where U = "insert new (set_mset ?R \<union> K)"])
    show "dir_copied (insert new (set_mset ?R \<union> K)) (mem m1) (mem m2) (mem m1 pd j) (mem m2 new j)" if "j < PAGES_PER_TABLE" for j
      using f that by (simp add: forked_def dcopying_def)
    show "mem m1 pd j AND fMASK \<in># ?R" if "j < PAGES_PER_TABLE" "priv (mem m1 pd j)" for j
      using space_tables [of "mem m1 pd" j "mem m1" R0] that by (simp add: has_table_def)
  qed (use pR in auto)
  moreover have "(count ?R p + count ?T p) + count ?T p + 1025 < 0xFFFF"
    using few p unfolding few_refs_def count_union by blast
  ultimately have sum: "(count ?R p + count ?T2 p) + count ?T p + 1025 < 0xFFFF" by linarith
  have "p \<noteq> new" using pR new by auto
  then have e: "count (space_refs m2 (space_refs m2 R0 new) pd) p = count ?R p + count ?T2 p"
    unfolding forked_refs [OF f, symmetric] by simp
  have b: "count (table_refs (mem m2) {#} (mem m2 pd) PAGES_PER_TABLE) p = count ?T p" unfolding fp(1) fp(5) ..
  show "count (space_refs m2 (space_refs m2 R0 new) pd) p +
      count (table_refs (mem m2) {#} (mem m2 pd) PAGES_PER_TABLE) p + 1025 < 0xFFFF"
    using sum by (simp only: e b)
qed

lemma few_refs_less: "few_refs (R + S) M c \<Longrightarrow> few_refs R M c"
proof -
  assume f: "few_refs (R + S) M c"
  show ?thesis
    unfolding few_refs_def
  proof
    fix p assume "p \<in># table_refs M {#} c PAGES_PER_TABLE"
    then have "count (R + S) p + count (table_refs M {#} c PAGES_PER_TABLE) p + 1025 < 0xFFFF"
      using f unfolding few_refs_def by blast
    then show "count R p + count (table_refs M {#} c PAGES_PER_TABLE) p + 1025 < 0xFFFF" by simp
  qed
qed

lemma protected_area:
  assumes sp: "space K R0 pd m" and a: "user_area m pd va"
  shows "user_area (write_protect pd m) pd va"
proof -
  have l: "laid (mem m) R0 pd (mem m pd)" using sp by (simp add: space_def)
  have sep: "\<And>i. i < PAGES_PER_TABLE \<Longrightarrow> priv (mem m pd i) \<Longrightarrow> mem m pd i AND fMASK \<noteq> pd"
    using laidD(2) [OF l] by (simp add: has_table_def)
  have s: "same_but_rw (mem m pd i) (mem (write_protect pd m) pd i)" for i
    using write_protect_effect [of m pd, OF sep] by (simp add: protects_def)
  show ?thesis
    using a same_but_rw_entry(1) [OF s] same_but_rw_bit [OF s, of 0] by (simp add: user_area_def present_bit)
qed

text \<open>
  C1. After a fork, what the parent stores the child does not see. Whatever the page was before, the parent
  gets its own copy on the first store; the child still shows, everywhere, what the parent
  had when it forked.
\<close>

theorem fork_store_isolated:
  fixes m :: "'a vm_scheme"
  assumes "space K R0 (cr3 m) m" and "user_area m (cr3 m) va"
    and "few_refs (space_refs m R0 (cr3 m) + table_refs (mem m) {#} (mem m (cr3 m)) PAGES_PER_TABLE) (mem m) (mem m (cr3 m))"
  shows "outcome {oom} (\<lambda>(m', new).
      (\<forall>va'. user_contents m' new va' = user_contents m (cr3 m) va') \<and>
      (\<forall>va'. user_contents m' (cr3 m) va' =
         (if same_page va va' then (user_contents m (cr3 m) va)(k := v) else user_contents m (cr3 m) va')))
    (bindE (clone_space (cr3 m) m) (\<lambda>(m1, new). bindE (user_store va k v m1) (\<lambda>m2. Inr (m2, new))))"
proof (rule outcome_bind [OF clone_space_forked [OF assms(1) few_refs_less [OF assms(3)]]])
  fix x :: "'a vm_scheme \<times> u32"
  obtain m1 new where x: "x = (m1, new)" by (cases x)
  let ?pd = "cr3 m" and ?m = "write_protect (cr3 m) m"
  assume "case x of (m', new) \<Rightarrow> forked K R0 ?pd ?m new m' \<and> new \<noteq> 0"
  then have f: "forked K R0 ?pd ?m new m1" by (simp add: x)
  note ws = write_protect_space [OF assms(1)] and fp = forked_parent [OF f] and co = forked_contents [OF f]
  have c: "cr3 m1 = ?pd" using keeps_cr3 [OF ws(6)] keeps_cr3 [OF fp(6)] by simp
  have "user_area m1 ?pd va" using protected_area [OF assms(1,2)] by (simp add: user_area_def fp(1))
  moreover have "few_refs (space_refs m1 (space_refs m1 R0 new) ?pd) (mem m1) (mem m1 ?pd)"
    by (rule forked_few [OF f]) (use assms(3) in \<open>simp only: few_refs_def ws(5)\<close>)
  ultimately have "outcome {oom} (\<lambda>m2. space K (space_refs m1 R0 new) (cr3 m2) m2 \<and> cr3 m2 = cr3 m1 \<and>
      (\<forall>va'. user_contents m2 (cr3 m1) va' =
         (if same_page va va' then (user_contents m1 (cr3 m1) va)(k := v) else user_contents m1 (cr3 m1) va')) \<and>
      (\<forall>pd2. lies_in (set_mset (space_refs m1 R0 new) \<union> K) pd2 m1 \<longrightarrow>
         lies_in (set_mset (space_refs m1 R0 new) \<union> K) pd2 m2 \<and> (\<forall>va'. user_page m2 pd2 va' = user_page m1 pd2 va')))
      (user_store va k v m1)"
    using store_into_space [of K "space_refs m1 R0 new" m1 va k v] forked_parent_space [OF f] unfolding c by blast
  moreover have "lies_in (set_mset (space_refs m1 R0 new) \<union> K) new m1"
    using forked_lies_in(1) [OF f] by (auto simp: lies_in_def)
  ultimately have "outcome {oom} (\<lambda>m2. (\<forall>va'. user_contents m2 new va' = user_contents m ?pd va') \<and>
      (\<forall>va'. user_contents m2 ?pd va' =
         (if same_page va va' then (user_contents m ?pd va)(k := v) else user_contents m ?pd va'))) (user_store va k v m1)"
  proof (elim outcome_mono, goal_cases)
    case (1 m2)
    then show ?case using contents_cong [of m2 new _ m1 new] co ws(4) by (simp add: c)
  qed
  then show "outcome {oom} (\<lambda>(m', new). (\<forall>va'. user_contents m' new va' = user_contents m ?pd va') \<and>
      (\<forall>va'. user_contents m' ?pd va' =
         (if same_page va va' then (user_contents m ?pd va)(k := v) else user_contents m ?pd va')))
    (case x of (m1, new) \<Rightarrow> bindE (user_store va k v m1) (\<lambda>m2. Inr (m2, new)))"
    by (simp add: x) (rule outcome_bind, assumption, simp)
qed

theorem fork_store_isolated_witness:
  "outcome {oom} (\<lambda>(m', new). user_contents m' new 0x80000000 = (\<lambda>_. 42) \<and>
       user_contents m' 0x100000 0x80000000 = (\<lambda>_. 42)(5 := 1))
     (bindE (clone_space 0x100000 demo_running) (\<lambda>(m1, new). bindE (user_store 0x80000000 5 1 m1) (\<lambda>m2. Inr (m2, new))))"
proof -
  have t: "table_refs (mem demo) R0 (mem demo 0x100000) PAGES_PER_TABLE = {#0x101000, 0x102000#}"
    if "0x101000 \<notin># R0" for R0
    using that by (simp add: demo_table_refs PAGES_PER_TABLE_def)
  have "few_refs (space_refs demo_running {#} 0x100000 + table_refs (mem demo_running) {#} (mem demo_running 0x100000) PAGES_PER_TABLE)
      (mem demo_running) (mem demo_running 0x100000)"
    unfolding few_refs_def by (simp add: t)
  then show ?thesis
    using outcome_mono [OF fork_store_isolated [of "{}" "{#}" demo_running "0x80000000" 5 1]]
      demo_running_space demo_running_pages by (auto simp: same_page_def)
qed

end
