(* ===== verification/VMM_Clear.thy ===== *)
theory VMM_Clear
  imports VMM_Clone
begin

text \<open>
  \<open>VMM::clear_pd\<close>, as \<open>Process::reset\<close> calls it before a new program is loaded: the space has no private page left, and
  what it held is given back.
\<close>

section \<open>A space is a tree\<close>

lemma laid_tree_like:
  assumes l: "laid M R0 pd c"
  shows "tree_like M R0 pd c"
  unfolding tree_like_def
proof (intro conjI allI impI)
  show "pd \<notin># R0 + table_refs M R0 c PAGES_PER_TABLE" by (rule laid_pd [OF l])
  fix i assume ip: "i < PAGES_PER_TABLE" "priv (c i)"
  then have i: "has_table c i" by (simp add: has_table_def)
  let ?t = "c i AND fMASK"
  have "?t \<notin># priv_refs (M ?t) PAGES_PER_TABLE"
  proof
    assume "?t \<in># priv_refs (M ?t) PAGES_PER_TABLE"
    then obtain j where "mapped M c i j" "?t = pte M c i j AND fMASK"
      using priv_refs_memD [of ?t] i unfolding mapped_def pte_def by blast
    then show False using laidD(5) [OF l _ i] by metis
  qed
  then have e: "count (entry_refs M R0 (c i)) ?t = 1" using ip by (simp add: entry_refs_def not_in_iff)
  have h0: "has_table (c(i := 0)) k \<longleftrightarrow> has_table c k \<and> k \<noteq> i" for k by (auto simp: has_table_def)
  have "?t \<notin># table_refs M R0 (c(i := 0)) PAGES_PER_TABLE"
  proof
    assume "?t \<in># table_refs M R0 (c(i := 0)) PAGES_PER_TABLE"
    then consider k where "has_table c k" "k \<noteq> i" "?t = c k AND fMASK"
      | k j where "mapped M c k j" "?t = pte M c k j AND fMASK"
      using h0 unfolding table_refs_mem by (auto simp: mapped_def pte_def split: if_splits)
    then show False
    proof cases
      case (1 k) then show False using laidD(3) [OF l i 1(1) 1(3)] by simp
    next
      case (2 k j) then show False using laidD(5) [OF l 2(1) i] by metis
    qed
  qed
  then have "count (table_refs M R0 (c(i := 0)) PAGES_PER_TABLE) ?t = 0" by (simp only: not_in_iff)
  then show "count (table_refs M R0 c PAGES_PER_TABLE) ?t = 1"
    using e unfolding table_refs_split [OF ip(1), of M R0 c] count_union by linarith
qed

section \<open>The loop\<close>

definition clearing :: "u32 set \<Rightarrow> u32 multiset \<Rightarrow> u32 multiset \<Rightarrow> u32 \<Rightarrow> 'a pm_scheme \<Rightarrow> nat \<Rightarrow> 'a pm_scheme \<Rightarrow> bool" where
  "clearing K R T pd m i m' \<longleftrightarrow> holds K (R - T) m' \<and> mem m' pd = (\<lambda>j. if j < i \<and> priv (mem m pd j) then 0 else mem m pd j) \<and>
     keeps (set_mset (R - T) \<union> K - {pd}) m m'"

lemma clear_step:
  assumes sp: "space K R0 pd m" and i: "i < PAGES_PER_TABLE" and g: "priv (mem m pd i) \<Longrightarrow> mem m pd i AND fG = 0"
    and R: "R = R0 + {#pd#} + table_refs (mem m) R0 (mem m pd) PAGES_PER_TABLE"
    and I: "clearing K R (table_refs (mem m) R0 (mem m pd) i) pd m i m1"
  shows "outcome {} (clearing K R (table_refs (mem m) R0 (mem m pd) (Suc i)) pd m (Suc i))
    (let pde = mem m1 pd i in
     if pde AND fP = 0 then Inr m1
     else if pde AND fNG = 0 then Inr m1
     else if pde AND fG = 0 then bindE (decref (pde AND fMASK) destroy_pt m1) (\<lambda>m. Inr (write_word pd i 0 m))
     else clear_pt d (pde AND fMASK) m1)"
proof -
  let ?c = "mem m pd" and ?T = "table_refs (mem m) R0 (mem m pd)"
  have l: "laid (mem m) R0 pd ?c" using sp by (simp add: space_def)
  have e: "mem m1 pd i = ?c i" using I by (simp add: clearing_def)
  show ?thesis
  proof (cases "priv (?c i)")
    case False
    then have "?c i AND fP = 0 \<or> ?c i AND fNG = 0" by (auto simp: priv_iff present_def)
    moreover have "(\<lambda>j. if j < Suc i \<and> priv (?c j) then 0 else ?c j) = (\<lambda>j. if j < i \<and> priv (?c j) then 0 else ?c j)"
      using False by (auto simp: less_Suc_eq)
    ultimately show ?thesis using I False by (auto simp: Let_def e clearing_def)
  next
    case True
    let ?t = "?c i AND fMASK"
    have f: "?c i AND fP \<noteq> 0" "?c i AND fNG \<noteq> 0" using True by (auto simp: priv_iff present_def)
    note st = table_refs_step [OF laid_tree_like [OF l] i True R]
    have h1: "holds K (R - ?T i) m1" and k1: "keeps (set_mset (R - ?T i) \<union> K - {pd}) m m1"
      and c1: "mem m1 pd = (\<lambda>j. if j < i \<and> priv (?c j) then 0 else ?c j)" using I by (simp_all add: clearing_def)
    have mt: "mem m1 ?t = mem m ?t" by (rule keeps_mem [OF k1]) (use st(1,3) in blast)
    have room: "roomy (Suc (Suc 0)) (\<lambda>_. 0)" by simp
    obtain m2 where m2: "decref ?t destroy_pt m1 = Inr m2"
      "holds K (after_free (mem m1 ?t) ?t (R - ?T i)) m2"
      "keeps (set_mset (after_free (mem m1 ?t) ?t (R - ?T i)) \<union> K) m1 m2"
      using free_table_refs [OF h1 st(1) room, OF st(5) [folded mt]] by auto
    note h2 = m2(2) [unfolded mt st(4)] and k2 = m2(3) [unfolded mt st(4)]
    have pdT: "pd \<notin># ?T PAGES_PER_TABLE" "pd \<notin># R0" using laid_pd [OF l] by auto
    have "count (?T (Suc i)) pd \<le> count (?T PAGES_PER_TABLE) pd"
      using table_refs_mono [of "Suc i" PAGES_PER_TABLE "mem m" R0 ?c] i unfolding subseteq_mset_def by simp
    then have "0 < count (R - ?T (Suc i)) pd" using pdT by (simp add: R not_in_iff)
    then have pdR: "pd \<in># R - ?T (Suc i)" by (rule count_in)
    have c2: "mem m2 pd = mem m1 pd" by (rule keeps_mem [OF k2]) (use pdR in blast)
    let ?m = "write_word pd i 0 m2"
    have "holds K (R - ?T (Suc i)) ?m" by (rule refs_ok_write_word [OF h2]) (use pdR in blast)
    moreover have "mem ?m pd = (\<lambda>j. if j < Suc i \<and> priv (?c j) then 0 else ?c j)"
      using True by (auto simp: write_word_def c2 c1 fun_eq_iff less_Suc_eq)
    moreover have "keeps (set_mset (R - ?T (Suc i)) \<union> K - {pd}) m ?m"
    proof -
      have sub: "set_mset (R - ?T (Suc i)) \<subseteq> set_mset (R - ?T i)"
        using table_refs_mono [of i "Suc i" "mem m" R0 ?c] by (intro set_mset_mono) (simp add: subseteq_mset_def diff_le_mono2)
      have "keeps (set_mset (R - ?T (Suc i)) \<union> K - {pd}) m2 ?m" unfolding write_word_def by (rule keeps_write) simp
      then have "keeps (set_mset (R - ?T (Suc i)) \<union> K - {pd}) m1 ?m" by (rule keeps_trans [OF k2]) auto
      then show ?thesis by (rule keeps_trans [OF k1]) (use sub in auto)
    qed
    ultimately show ?thesis using m2(1) f g [OF True] by (simp add: Let_def e clearing_def)
  qed
qed

section \<open>Properties\<close>

text \<open>
  C11. \<open>clear_pd\<close> returns and empties the space: no address has a private page, the references in use are exactly those of the others and one of
  the directory itself, the entries of the kernel's own tables stay, no frame of the others has changed, and
  the invariant holds. No private directory entry may be marked global.
\<close>

theorem clear_pd_empties:
  fixes m :: "'a vm_scheme"
  assumes "space K R0 pd m" and "\<And>i. i < PAGES_PER_TABLE \<Longrightarrow> priv (mem m pd i) \<Longrightarrow> mem m pd i AND fG = 0"
  shows "\<exists>m'. clear_pd discard pd m = Inr m' \<and> space K R0 pd m' \<and> holds K (add_mset pd R0) m' \<and>
    (\<forall>va. user_page m' pd va = None) \<and> (\<forall>i. \<not> priv (mem m pd i) \<longrightarrow> mem m' pd i = mem m pd i) \<and>
    keeps (set_mset R0 \<union> K) m m'"
proof -
  let ?c = "mem m pd" and ?T = "table_refs (mem m) R0 (mem m pd)"
  define R where "R = R0 + {#pd#} + ?T PAGES_PER_TABLE"
  have h: "holds K R m" and l: "laid (mem m) R0 pd ?c" using assms(1) by (simp_all add: space_def R_def)
  have "outcome {} (clearing K R (?T PAGES_PER_TABLE) pd m PAGES_PER_TABLE) (clear_pd discard pd m)"
    unfolding clear_pd_def
  proof (rule outcome_upt)
    show "clearing K R (?T 0) pd m 0 m" using h by (simp add: clearing_def)
  qed (rule clear_step [OF assms(1) _ assms(2) R_def])
  then obtain m' where m': "clear_pd discard pd m = Inr m'" "clearing K R (?T PAGES_PER_TABLE) pd m PAGES_PER_TABLE m'"
    by (auto dest: outcome_cases)
  have R0: "R - ?T PAGES_PER_TABLE = add_mset pd R0" by (simp add: R_def)
  have c': "mem m' pd = (\<lambda>j. if j < PAGES_PER_TABLE \<and> priv (?c j) then 0 else ?c j)"
    and h': "holds K (add_mset pd R0) m'" and k: "keeps (set_mset (add_mset pd R0) \<union> K - {pd}) m m'"
    using m'(2) unfolding clearing_def R0 by blast+
  have nt: "\<not> has_table (mem m' pd) j" for j by (simp add: has_table_def c')
  then have nm: "\<not> mapped (mem m') (mem m' pd) i j" for i j by (simp add: mapped_def)
  have t0: "table_refs (mem m') R0 (mem m' pd) PAGES_PER_TABLE = {#}"
    using table_refs_mem [of _ "mem m'" R0 "mem m' pd"] nt nm by (auto intro: multiset_eqI simp: not_in_iff [symmetric])
  have "laid (mem m') R0 pd (mem m' pd)"
    using laidD(1) [OF l] nt nm unfolding laid_def tables_apart_def cow_def by blast
  then have "space K R0 pd m'" using h' by (simp add: space_def t0)
  moreover have "user_page m' pd va = None" for va using user_page_mapped [of m' pd va] nm by blast
  moreover have "keeps (set_mset R0 \<union> K) m m'"
  proof (rule keeps_mono [OF k])
    have "pd \<notin># R0" "pd \<notin> K" using laidD(1) [OF l] refs_ok_disjoint [OF h', of pd] by auto
    then show "set_mset R0 \<union> K \<subseteq> set_mset (add_mset pd R0) \<union> K - {pd}" by auto
  qed
  ultimately show ?thesis using m'(1) h' c' by auto
qed

theorem clear_pd_empties_witness:
  "\<exists>m'. clear_pd (\<lambda>_. False) 0x100000 demo = Inr m' \<and> user_page m' 0x100000 0x80000000 = None \<and> holds {} {#0x100000#} m'"
proof -
  have "mem demo 0x100000 i AND fG = 0" if "priv (mem demo 0x100000 i)" for i
    using that by (simp add: demo_entries) (simp add: demo_def fG_def)
  then show ?thesis using clear_pd_empties [OF demo_space] by blast
qed

end
