(* ===== verification/VMM_Boot.thy ===== *)
theory VMM_Boot
  imports VMM_Clear
begin

text \<open>
  The kernel's own address space: \<open>global_init\<close> maps memory to itself, and a new process, which starts with a copy of that
  directory (\<open>copy_kpd\<close>), has the invariant of address spaces.
\<close>

section \<open>Addresses and entries\<close>

definition addr :: "nat \<Rightarrow> nat \<Rightarrow> u32" where
  "addr i j = push_bit 22 (of_nat i) OR push_bit 12 (of_nat j)"

lemma addr_page: "addr (pdi_of va) (pti_of va) = va AND fMASK"
proof (rule bit_word_eqI)
  fix n :: nat
  have m: "fMASK = FMASK" by (simp add: fMASK_def)
  have k: "(0x3ff :: u32) = mask 10" by (simp add: mask_eq_exp_minus_1)
  assume "n < LENGTH(32)"
  then show "bit (addr (pdi_of va) (pti_of va)) n = bit (va AND fMASK) n"
    unfolding m bit_high addr_def pdi_of_def pti_of_def k
    by (cases "22 \<le> n") (auto simp: bit_or_iff bit_push_bit_iff bit_and_iff bit_drop_bit_eq bit_mask_iff)
qed

lemma kFlags_low: "kFlags AND 0xFFF = kFlags" "bit kFlags 0" "bit kFlags 1" "bit kFlags 9" "\<not> bit kFlags 10"
proof -
  show "kFlags AND 0xFFF = kFlags" by (simp add: kFlags_def flag_defs)
  have "kFlags AND fP \<noteq> 0" "kFlags AND fRW \<noteq> 0" "kFlags AND fG \<noteq> 0" "kFlags AND fNG = 0"
    by (simp_all add: kFlags_def flag_defs)
  then show "bit kFlags 0" "bit kFlags 1" "bit kFlags 9" "\<not> bit kFlags 10" using flag_bits by blast+
qed

lemma join_kFlags:
  assumes "offset p = 0"
  shows "(p OR kFlags) AND fMASK = p" "present (p OR kFlags)" "\<not> priv (p OR kFlags)" "(p OR kFlags) AND kFlags = kFlags"
proof -
  note j = join_entry(1) [OF assms, of kFlags, unfolded kFlags_low(1)] and b = join_entry(3) [OF assms, where x = kFlags, unfolded kFlags_low(1)]
  show "(p OR kFlags) AND fMASK = p" by (rule j)
  show "present (p OR kFlags)" using b [of 0] kFlags_low(2) by (simp add: present_bit)
  show "\<not> priv (p OR kFlags)" using b [of 10] kFlags_low(5) by (simp add: priv_bits)
  show "(p OR kFlags) AND kFlags = kFlags" by (auto simp: bit_eq_iff bit_simps)
qed

lemma addr_offset: "offset (addr (pdi_of va) (pti_of va)) = 0"
  unfolding addr_page fMASK_def by (rule offset_high)

lemma fill_table:
  "fold (\<lambda>j. write_word p j (f j)) [0..<n] m = m\<lparr>mem := (mem m)(p := (\<lambda>j. if j < n then f j else mem m p j))\<rparr>"
proof (induction n)
  case (Suc n)
  then show ?case by (simp add: write_word_def fun_eq_iff less_Suc_eq)
qed simp

section \<open>The map\<close>

text \<open>\<open>S\<close> are the pages that are mapped, \<open>tab\<close> the tables.\<close>

definition kentries :: "(nat \<times> nat) set \<Rightarrow> nat \<Rightarrow> nat \<Rightarrow> u32" where
  "kentries S i j = (if (i, j) \<in> S then addr i j OR kFlags else 0)"

definition identity_map ::
  "u32 set \<Rightarrow> u32 multiset \<Rightarrow> (nat \<Rightarrow> u32 option) \<Rightarrow> (nat \<times> nat) set \<Rightarrow> 'a vm_scheme \<Rightarrow> bool" where
  "identity_map K R tab S m \<longleftrightarrow> holds K R m \<and> kpd m \<in> K \<and> (\<forall>i j. (i, j) \<in> S \<longrightarrow> i \<in> dom tab) \<and>
     (\<forall>i i'. i \<in> dom tab \<longrightarrow> tab i = tab i' \<longrightarrow> i = i') \<and>
     (\<forall>i. mem m (kpd m) i = (case tab i of None \<Rightarrow> 0 | Some t \<Rightarrow> t OR kFlags)) \<and>
     (\<forall>i t. tab i = Some t \<longrightarrow> offset t = 0 \<and> t \<noteq> kpd m \<and> (t \<in> K \<or> t \<in># R) \<and> mem m t = kentries S i)"

lemma identity_mapD:
  assumes "identity_map K R tab S m"
  shows "holds K R m" "kpd m \<in> K" "(i, j) \<in> S \<Longrightarrow> \<exists>t. tab i = Some t" "tab i = Some t \<Longrightarrow> tab i' = Some t \<Longrightarrow> i = i'"
    "mem m (kpd m) i = (case tab i of None \<Rightarrow> 0 | Some t \<Rightarrow> t OR kFlags)"
    "tab i = Some t \<Longrightarrow> offset t = 0 \<and> t \<noteq> kpd m \<and> (t \<in> K \<or> t \<in># R) \<and> mem m t = kentries S i"
  using assms unfolding identity_map_def by (blast, blast, blast, (metis domI), blast, blast)

lemma entry_placed:
  assumes m: "identity_map K R tab S m" and t: "tab i = Some t" and e: "e = kentries S' i j"
    and S': "\<And>i' j'. (i', j') \<noteq> (i, j) \<Longrightarrow> (i', j') \<in> S' \<longleftrightarrow> (i', j') \<in> S"
  shows "identity_map K R tab S' (write_word t j e m)"
proof -
  note d = identity_mapD [OF m]
  have k: "kpd (write_word t j e m) = kpd m" by (simp add: write_word_def)
  have "\<exists>t'. tab i' = Some t'" if "(i', j') \<in> S'" for i' j' using S' [of i' j'] that d(3) t by (cases "(i', j') = (i, j)") auto
  moreover have "mem (write_word t j e m) t' = kentries S' i'" if t': "tab i' = Some t'" for i' t'
  proof (cases "i' = i")
    case True
    then have "t' = t" using t t' by simp
    have "(mem m t)(j := e) = kentries S' i"
    proof
      fix j' show "((mem m t)(j := e)) j' = kentries S' i j'"
        using d(6) [OF t] e S' [of i j'] by (simp add: kentries_def)
    qed
    then show ?thesis using True \<open>t' = t\<close> by (simp add: write_word_def)
  next
    case False
    then have "t' \<noteq> t" using d(4) [OF t, of i'] t' by auto
    moreover have "kentries S' i' = kentries S i'" using S' [of i'] False by (simp add: kentries_def fun_eq_iff)
    ultimately show ?thesis using d(6) [OF t'] by (simp add: write_word_def)
  qed
  moreover have "mem (write_word t j e m) (kpd m) = mem m (kpd m)"
    using d(6) [OF t] by (auto simp: write_word_def)
  ultimately show ?thesis
    using d refs_ok_write_word [OF d(1), of t j e] d(6) [OF t] unfolding identity_map_def k by (simp add: dom_def) metis
qed

lemma table_placed:
  assumes m: "identity_map K R tab S m" and i: "tab i = None" and p: "p \<notin> K" "p \<notin># R" "offset p = 0"
    and h: "holds K' R' m'" "K \<subseteq> K'" "set_mset R \<subseteq> set_mset R'" "p \<in> K' \<or> p \<in># R'"
    and k: "kpd m' = kpd m" "\<And>q. q \<in> K \<or> q \<in># R \<Longrightarrow> mem m' q = mem m q" "mem m' p = kentries S' i"
    and S': "\<And>i' j'. i' \<noteq> i \<Longrightarrow> (i', j') \<in> S' \<longleftrightarrow> (i', j') \<in> S"
  shows "identity_map K' R' (tab(i \<mapsto> p)) S' (write_word (kpd m) i (p OR kFlags) m')"
proof -
  note d = identity_mapD [OF m]
  let ?m = "write_word (kpd m) i (p OR kFlags) m'"
  have kk: "kpd ?m = kpd m" using k(1) by (simp add: write_word_def)
  have pn: "p \<noteq> kpd m" using d(2) p(1) by auto
  have ne: "tab i' \<noteq> Some p" for i' using d(6) [of i' p] p by auto
  have dir: "mem ?m (kpd m) i' = (case (tab(i \<mapsto> p)) i' of None \<Rightarrow> 0 | Some t \<Rightarrow> t OR kFlags)" for i'
    using k(2) [of "kpd m"] d(2) d(5) [of i'] by (simp add: write_word_def)
  have tb: "offset t = 0 \<and> t \<noteq> kpd m \<and> (t \<in> K' \<or> t \<in># R') \<and> mem ?m t = kentries S' i'" if "(tab(i \<mapsto> p)) i' = Some t" for i' t
  proof (cases "i' = i")
    case True
    then show ?thesis using that p(3) pn h(4) k(3) by (simp add: write_word_def)
  next
    case False
    then have t: "tab i' = Some t" using that by simp
    have "kentries S' i' = kentries S i'" using S' [OF False] by (simp add: kentries_def fun_eq_iff)
    then show ?thesis using d(6) [OF t] k(2) [of t] h(2,3) by (auto simp: write_word_def)
  qed
  have in_dom: "i' \<in> dom (tab(i \<mapsto> p))" if "(i', j') \<in> S'" for i' j'
    using S' [of i' j'] that d(3) by (cases "i' = i") auto
  have inj: "i' = i''" if "i' \<in> dom (tab(i \<mapsto> p))" "(tab(i \<mapsto> p)) i' = (tab(i \<mapsto> p)) i''" for i' i''
    using that d(4) ne by (auto split: if_splits) (metis ne)+
  show ?thesis
    using refs_ok_write_word [OF h(1), of "kpd m" i "p OR kFlags"] d(2) h(2) dir tb in_dom inj
    unfolding identity_map_def kk by blast
qed

section \<open>Building it\<close>

text \<open>\<open>D\<close> are the directory entries in use.\<close>

definition kernel_map :: "nat set \<Rightarrow> (nat \<times> nat) set \<Rightarrow> 'a vm_scheme \<Rightarrow> bool" where
  "kernel_map D S m \<longleftrightarrow> (\<exists>K R tab. identity_map K R tab S m \<and> dom tab = D)"

lemma kernel_mapE:
  assumes "kernel_map D S m"
  obtains K R tab where "identity_map K R tab S m" "dom tab = D"
  using assms by (auto simp: kernel_map_def)

lemma kernel_mapI: "identity_map K R tab S m \<Longrightarrow> dom tab = D \<Longrightarrow> kernel_map D S m"
  unfolding kernel_map_def by blast

lemma not_in_map: "identity_map K R tab S m \<Longrightarrow> tab i = None \<Longrightarrow> (i, j) \<notin> S"
  using identity_mapD(3) by fastforce

lemma keeps_kpd: "keeps S m m' \<Longrightarrow> kpd m' = kpd (m :: 'a vm_scheme)"
  unfolding keeps_def by (cases m; cases m') simp

lemma identity_table_step:
  assumes m: "kernel_map D S m" and i: "i \<notin> D"
  shows "outcome {oom} (kernel_map (insert i D) (S \<union> {i} \<times> {..<PAGES_PER_TABLE})) (identity_table i m)"
proof -
  obtain K R tab where im: "identity_map K R tab S m" and D: "dom tab = D" using m by (rule kernel_mapE)
  have ti: "tab i = None" using i D by auto
  let ?S = "S \<union> {i} \<times> {..<PAGES_PER_TABLE}"
  show ?thesis
    unfolding identity_table_def
  proof (rule outcome_bind [OF refs_ok_unsafe_alloc [OF identity_mapD(1) [OF im]]])
    fix x :: "'a vm_scheme \<times> u32"
    obtain m1 p where x: "x = (m1, p)" by (cases x)
    assume "case x of (m', p) \<Rightarrow> p \<notin># R \<and> p \<notin> K \<and> holds (insert p K) R m' \<and> mem m' = (mem m)(p := (\<lambda>_. 0)) \<and>
      keeps (set_mset R \<union> K) m m' \<and> offset p = 0 \<and> p \<noteq> 0"
    then have a: "p \<notin># R" "p \<notin> K" "holds (insert p K) R m1" "mem m1 = (mem m)(p := (\<lambda>_. 0))" "offset p = 0" "kpd m1 = kpd m"
      using keeps_kpd by (auto simp: x)
    let ?f = "\<lambda>j. push_bit 22 (of_nat i) OR push_bit 12 (of_nat j) OR kFlags"
    let ?m = "m1\<lparr>mem := (mem m1)(p := (\<lambda>j. if j < PAGES_PER_TABLE then ?f j else mem m1 p j))\<rparr>"
    have im': "identity_map (insert p K) R (tab(i \<mapsto> p)) ?S (write_word (kpd m) i (p OR kFlags) ?m)"
    proof (rule table_placed [OF im ti a(2,1,5)])
      show "holds (insert p K) R ?m" by (rule refs_ok_write [OF a(3)]) simp
      show "kpd ?m = kpd m" using a(6) by simp
      show "mem ?m q = mem m q" if "q \<in> K \<or> q \<in># R" for q using that a(1,2,4) by auto
      show "mem ?m p = kentries ?S i"
        using a(4) not_in_map [OF im ti] by (auto simp: kentries_def addr_def fun_eq_iff or.assoc)
    qed auto
    have "kernel_map (insert i D) ?S (write_word (kpd m) i (p OR kFlags) ?m)"
      by (rule kernel_mapI [OF im']) (use D in auto)
    then show "outcome {oom} (kernel_map (insert i D) ?S) (case x of (m, pt) \<Rightarrow>
        let m = fold (\<lambda>pti. write_word pt pti (push_bit 22 (of_nat i) OR push_bit 12 (of_nat pti) OR kFlags)) [0..<PAGES_PER_TABLE] m
        in Inr (write_word (kpd m) i (pt OR kFlags) m))"
      unfolding x prod.case Let_def fill_table by (simp add: a(6))
  qed
qed

lemma map_step:
  assumes m: "kernel_map D S m" and va: "offset va = 0"
  shows "outcome {oom} (kernel_map (insert (pdi_of va) D) (insert (pdi_of va, pti_of va) S)) (map_pg (kpd m) va va kFlags m)"
proof -
  obtain K R tab where im: "identity_map K R tab S m" and D: "dom tab = D" using m by (rule kernel_mapE)
  let ?i = "pdi_of va" and ?j = "pti_of va" and ?S = "insert (pdi_of va, pti_of va) S"
  have e: "va OR kFlags = kentries ?S ?i ?j"
    using high_aligned [OF va] addr_page [of va] by (simp add: kentries_def fMASK_def)
  have one: "kFlags AND 1 \<noteq> 0" using kFlags_low(2) fP_one [of kFlags] by (simp add: present_bit)
  note d = identity_mapD [OF im]
  show ?thesis
  proof (cases "tab ?i")
    case (Some t)
    then have t: "mem m (kpd m) ?i = t OR kFlags" "offset t = 0" using d(5) [of ?i] d(6) [OF Some] by auto
    note j = join_kFlags [OF t(2)]
    have "get_table (kpd m) ?i kFlags m = Inr m"
      using one j(2,4) fP_one [of "t OR kFlags"] by (simp add: get_table_def t(1) Let_def)
    then have "map_pg (kpd m) va va kFlags m = Inr (write_word t ?j (va OR kFlags) m)"
      using j(1) by (simp add: map_pg_def t(1) fMASK_def)
    moreover have "identity_map K R tab ?S (write_word t ?j (va OR kFlags) m)"
      by (rule entry_placed [OF im Some e]) auto
    moreover have "insert ?i D = D" using Some D by auto
    ultimately show ?thesis using D by (auto simp: kernel_map_def)
  next
    case None
    have absent: "mem m (kpd m) ?i = 0" using d(5) [of ?i] None by simp
    show ?thesis
      unfolding map_pg_def
    proof (rule outcome_bind)
      have g: "get_table (kpd m) ?i kFlags m =
          bindE (alloc_frame m) (\<lambda>(m', pt). Inr (write_word (kpd m) ?i (pt OR kFlags) m'))"
        using one by (simp add: get_table_def absent)
      show "outcome {oom} (\<lambda>m'. \<exists>t. kpd m' = kpd m \<and> mem m' (kpd m) ?i = t OR kFlags \<and> offset t = 0 \<and>
          identity_map K (add_mset t R) (tab(?i \<mapsto> t)) S m') (get_table (kpd m) ?i kFlags m)"
        unfolding g
      proof (rule outcome_bind [OF refs_ok_alloc [OF d(1)]])
        fix x :: "'a vm_scheme \<times> u32"
        obtain m1 p where x: "x = (m1, p)" by (cases x)
        assume "case x of (m', p) \<Rightarrow> p \<notin># R \<and> p \<notin> K \<and> holds K (add_mset p R) m' \<and> mem m' p = (\<lambda>_. 0) \<and>
          keeps (set_mset R \<union> K) m m' \<and> offset p = 0 \<and> p \<noteq> 0 \<and> start m \<le> p \<and> p < limit m"
        then have a: "p \<notin># R" "p \<notin> K" "holds K (add_mset p R) m1" "mem m1 p = (\<lambda>_. 0)" "offset p = 0"
            "keeps (set_mset R \<union> K) m m1"
          by (simp_all add: x)
        have "identity_map K (add_mset p R) (tab(?i \<mapsto> p)) S (write_word (kpd m) ?i (p OR kFlags) m1)"
        proof (rule table_placed [OF im None a(2,1,5,3) _ _ _ keeps_kpd [OF a(6)]])
          show "mem m1 q = mem m q" if "q \<in> K \<or> q \<in># R" for q using keeps_mem [OF a(6)] that by auto
          show "mem m1 p = kentries S ?i" using a(4) not_in_map [OF im None] by (simp add: kentries_def fun_eq_iff)
        qed auto
        then show "outcome {oom} (\<lambda>m'. \<exists>t. kpd m' = kpd m \<and> mem m' (kpd m) ?i = t OR kFlags \<and> offset t = 0 \<and>
            identity_map K (add_mset t R) (tab(?i \<mapsto> t)) S m')
          (case x of (m', pt) \<Rightarrow> Inr (write_word (kpd m) ?i (pt OR kFlags) m'))"
          using a(5) keeps_kpd [OF a(6)] by (auto simp: x write_word_def intro!: exI [of _ p])
      qed
    next
      fix m1 assume "\<exists>t. kpd m1 = kpd m \<and> mem m1 (kpd m) ?i = t OR kFlags \<and> offset t = 0 \<and>
          identity_map K (add_mset t R) (tab(?i \<mapsto> t)) S m1"
      then obtain t where t: "mem m1 (kpd m) ?i = t OR kFlags" "offset t = 0"
          "identity_map K (add_mset t R) (tab(?i \<mapsto> t)) S m1" by blast
      have im': "identity_map K (add_mset t R) (tab(?i \<mapsto> t)) ?S (write_word t ?j (va OR kFlags) m1)"
        by (rule entry_placed [OF t(3) _ e]) auto
      have "kernel_map (insert ?i D) ?S (write_word t ?j (va OR kFlags) m1)"
        by (rule kernel_mapI [OF im']) (use D in auto)
      moreover have "mem m1 (kpd m) ?i AND 0xfffff000 = t" using join_kFlags(1) [OF t(2)] t(1) by (simp add: fMASK_def)
      ultimately show "outcome {oom} (kernel_map (insert ?i D) ?S)
          (let pt = mem m1 (kpd m) ?i AND 0xfffff000 in Inr (write_word pt ?j (va OR kFlags) m1))"
        by (simp add: Let_def)
    qed
  qed
qed

text \<open>The pages that the last loop maps.\<close>

definition pages_from :: "u32 \<Rightarrow> u32 \<Rightarrow> (nat \<times> nat) set" where
  "pages_from a b = {(pdi_of x, pti_of x) | x. a \<le> x \<and> x < b \<and> offset x = 0}"

lemma pages_from_step:
  assumes "offset va = 0" "va < b" "b \<le> 0xFFFFF000"
  shows "pages_from va b = insert (pdi_of va, pti_of va) (pages_from (va + 4096) b)"
    "uint (va + 4096) = uint va + 4096" "offset (va + 4096) = 0"
proof -
  have "uint va < uint b" "uint b \<le> uint (0xFFFFF000 :: u32)" using assms(2,3) unfolding word_less_def word_le_def .
  then have v: "uint va + 4096 < 2 ^ 32" by simp
  then show u: "uint (va + 4096) = uint va + 4096" by (simp add: uint_word_ariths)
  have d: "4096 dvd uint va" using assms(1) by (simp add: offset_dvd)
  then show "offset (va + 4096) = 0" by (simp add: offset_dvd u)
  have s: "va \<le> x \<longleftrightarrow> x = va \<or> va + 4096 \<le> x" if x: "offset x = 0" for x
  proof -
    obtain a c where ac: "uint va = 4096 * a" "uint x = 4096 * c" using d x by (auto simp: offset_dvd elim!: dvdE)
    show ?thesis unfolding word_le_def word_uint_eq_iff u ac by auto
  qed
  show "pages_from va b = insert (pdi_of va, pti_of va) (pages_from (va + 4096) b)"
    unfolding pages_from_def using s assms(1,2) by auto
qed

lemma map_rest_maps:
  "offset va = 0 \<Longrightarrow> b \<le> 0xFFFFF000 \<Longrightarrow> kernel_map D S m \<Longrightarrow>
    \<exists>r. map_rest va b m = Some r \<and> outcome {oom} (\<lambda>m'. \<exists>D'. kernel_map D' (S \<union> pages_from va b) m') r"
proof (induction "nat (uint b - uint va)" arbitrary: va m D S rule: less_induct)
  case less
  show ?case
  proof (cases "va < b")
    case False
    then have "pages_from va b = {}" by (auto simp: pages_from_def)
    then show ?thesis using False less.prems(3) by (subst map_rest.simps) auto
  next
    case True
    note ps = pages_from_step [OF less.prems(1) True less.prems(2)]
    note st = map_step [OF less.prems(3,1)]
    show ?thesis
    proof (cases "map_pg (kpd m) va va kFlags m")
      case (Inl e)
      then show ?thesis using True st by (subst map_rest.simps) simp
    next
      case (Inr m')
      then have k: "kernel_map (insert (pdi_of va) D) (insert (pdi_of va, pti_of va) S) m'" using st by simp
      have "nat (uint b - uint (va + 4096)) < nat (uint b - uint va)"
        using True ps(2) by (simp add: word_less_def)
      from less.hyps [OF this ps(3) less.prems(2) k]
      show ?thesis using True Inr ps(1) by (subst map_rest.simps) simp
    qed
  qed
qed

lemma refs_ok_kpd:
  assumes "refs_ok pend K R m"
  shows "refs_ok pend K R (m\<lparr>kpd := x\<rparr>)"
proof -
  obtain fl where h: "pm_wf pend fl m" "\<And>q. owned fl m q \<longleftrightarrow> q \<in># R \<or> q \<in> K"
    "\<And>q. q \<in> K \<Longrightarrow> q \<notin># R" "\<And>q. offset q = 0 \<Longrightarrow> refcount m q = count R q"
    using assms by (auto simp: refs_ok_def)
  note w = pm_wf_mem [OF h(1), of "m\<lparr>kpd := x\<rparr>"]
  then show ?thesis unfolding refs_ok_def using h(2-4) by (intro exI [of _ fl]) simp
qed

lemma full_tables:
  assumes h: "holds K R m" and n: "0 < n"
  shows "outcome {oom} (kernel_map {..<n} ({..<n} \<times> {..<PAGES_PER_TABLE} - {(0, 0)}))
    (bindE (unsafe_alloc_frame m) (\<lambda>(m, pd).
     bindE (forE identity_table [0..<n] (m\<lparr>kpd := pd\<rparr>)) (\<lambda>m. Inr (write_word (mem m (kpd m) 0 AND fMASK) 0 0 m))))"
proof (rule outcome_bind [OF refs_ok_unsafe_alloc [OF h]])
  fix x :: "'a vm_scheme \<times> u32"
  obtain m1 pd where x: "x = (m1, pd)" by (cases x)
  assume "case x of (m', p) \<Rightarrow> p \<notin># R \<and> p \<notin> K \<and> holds (insert p K) R m' \<and> mem m' = (mem m)(p := (\<lambda>_. 0)) \<and>
      keeps (set_mset R \<union> K) m m' \<and> offset p = 0 \<and> p \<noteq> 0"
  then have a: "holds (insert pd K) R (m1\<lparr>kpd := pd\<rparr>)" "mem m1 = (mem m)(pd := (\<lambda>_. 0))"
    using refs_ok_kpd by (auto simp: x)
  let ?I = "\<lambda>i. kernel_map {..<i} ({..<i} \<times> {..<PAGES_PER_TABLE})"
  have "identity_map (insert pd K) R Map.empty {} (m1\<lparr>kpd := pd\<rparr>)"
    using a by (simp add: identity_map_def)
  then have I0: "?I 0 (m1\<lparr>kpd := pd\<rparr>)" by (intro kernel_mapI) auto
  have "outcome {oom} (?I n) (forE identity_table [0..<n] (m1\<lparr>kpd := pd\<rparr>))"
  proof (rule outcome_upt [of ?I, OF I0])
    fix i and s :: "'a vm_scheme"
    assume "?I i s"
    moreover have "insert i {..<i} = {..<Suc i}" "{..<i} \<times> {..<PAGES_PER_TABLE} \<union> {i} \<times> {..<PAGES_PER_TABLE} = {..<Suc i} \<times> {..<PAGES_PER_TABLE}"
      by auto
    ultimately show "outcome {oom} (?I (Suc i)) (identity_table i s)"
      using identity_table_step [of "{..<i}" _ s i] by fastforce
  qed
  then show "outcome {oom} (kernel_map {..<n} ({..<n} \<times> {..<PAGES_PER_TABLE} - {(0, 0)})) (case x of (m, pd) \<Rightarrow>
      bindE (forE identity_table [0..<n] (m\<lparr>kpd := pd\<rparr>)) (\<lambda>m. Inr (write_word (mem m (kpd m) 0 AND fMASK) 0 0 m)))"
    unfolding x prod.case
  proof (rule outcome_bind)
    fix m2 assume "?I n m2"
    then obtain K R tab where im: "identity_map K R tab ({..<n} \<times> {..<PAGES_PER_TABLE}) m2" "dom tab = {..<n}" by (rule kernel_mapE)
    then obtain t where t: "tab 0 = Some t" using n by auto
    have e: "mem m2 (kpd m2) 0 AND fMASK = t"
      using identity_mapD(5) [OF im(1), of 0] identity_mapD(6) [OF im(1) t] join_kFlags(1) t by simp
    have "identity_map K R tab ({..<n} \<times> {..<PAGES_PER_TABLE} - {(0, 0)}) (write_word t 0 0 m2)"
      by (rule entry_placed [OF im(1) t]) (auto simp: kentries_def)
    then show "outcome {oom} (kernel_map {..<n} ({..<n} \<times> {..<PAGES_PER_TABLE} - {(0, 0)}))
        (Inr (write_word (mem m2 (kpd m2) 0 AND fMASK) 0 0 m2))"
      using im(2) unfolding e by (simp add: kernel_mapI)
  qed
qed

section \<open>The last four megabytes\<close>

lemma big_page: "(x :: u32) AND 0xffc00000 = push_bit 22 (drop_bit 22 x)"
proof -
  have m: "(0xffc00000 :: u32) = push_bit 22 (mask 10)" by (simp add: mask_eq_exp_minus_1 push_bit_eq_mult)
  show ?thesis unfolding m by (rule bit_word_eqI) (auto simp: bit_simps)
qed

lemma unat_big_page: "unat (x AND 0xffc00000) = 4194304 * (unat (x :: u32) div 4194304)"
proof -
  have d: "unat (x div 4194304) = unat x div 4194304" by (simp add: unat_div)
  have "4194304 * (unat x div 4194304) \<le> unat x" by simp
  moreover have "unat x < 2 ^ 32" using unsigned_less [of x] by simp
  ultimately have b: "4194304 * (unat x div 4194304) < 2 ^ 32" by (rule le_less_trans)
  have "x AND 0xffc00000 = 4194304 * (x div 4194304)"
    unfolding big_page by (simp add: push_bit_eq_mult drop_bit_eq_div mult.commute)
  then have "unat (x AND 0xffc00000) = (4194304 * (unat x div 4194304)) mod 2 ^ 32"
    by (simp add: unat_word_ariths d mod_mult_right_eq)
  then show ?thesis using b by simp
qed

lemma unat_page_start: "unat ((x :: u32) AND fMASK) = 4096 * (unat x div 4096)"
proof -
  have "int (unat (x AND fMASK)) = int (4096 * (unat x div 4096))"
    using uint_high [of x] by (simp add: fMASK_def zdiv_int uint_nat [symmetric] del: uint_nat)
  then show ?thesis by linarith
qed

lemma pdi_div: "pdi_of va = unat va div 4194304"
  by (simp add: pdi_of_def drop_bit_eq_div unat_div)

lemma pti_less: "pti_of va < PAGES_PER_TABLE"
proof -
  have "drop_bit 12 va AND 0x3ff \<le> 0x3ff" by (rule word_and_le1)
  then have "pti_of va \<le> 0x3ff" by (simp add: pti_of_def word_le_nat_alt)
  then show ?thesis by (simp add: PAGES_PER_TABLE_def)
qed

lemma page_index: "pdi_of (va AND fMASK) = pdi_of va" "pti_of (va AND fMASK) = pti_of va"
proof -
  have "drop_bit 22 (va AND fMASK) = drop_bit 22 va" "drop_bit 12 (va AND fMASK) = drop_bit 12 va"
    unfolding fMASK_def by (intro bit_word_eqI; simp only: bit_drop_bit_eq comp_def bit_high; simp)+
  then show "pdi_of (va AND fMASK) = pdi_of va" "pti_of (va AND fMASK) = pti_of va"
    by (simp_all add: pdi_of_def pti_of_def)
qed

lemma same_index: "offset x = 0 \<Longrightarrow> (pdi_of x, pti_of x) = (pdi_of va, pti_of va) \<longleftrightarrow> x = va AND fMASK"
  using addr_page [of x] addr_page [of va] high_aligned [of x] page_index [of va] by (auto simp: fMASK_def)

lemma first_page: "(pdi_of va, pti_of va) = (0, 0) \<longleftrightarrow> va AND fMASK = 0" "va AND fMASK = 0 \<longleftrightarrow> va < 0x1000"
proof -
  have "pdi_of 0 = 0" "pti_of 0 = 0" "offset 0 = 0" by (simp_all add: pdi_of_def pti_of_def offset_def)
  then show "(pdi_of va, pti_of va) = (0, 0) \<longleftrightarrow> va AND fMASK = 0" using same_index [of 0 va] by auto
  show "va AND fMASK = 0 \<longleftrightarrow> va < 0x1000"
    using unat_page_start [of va] by (auto simp: unat_eq_zero [symmetric] word_less_nat_alt)
qed

lemma pages_from_iff: "(pdi_of va, pti_of va) \<in> pages_from a b \<longleftrightarrow> a \<le> va AND fMASK \<and> va AND fMASK < b"
proof -
  have "(pdi_of va, pti_of va) \<in> pages_from a b \<longleftrightarrow> (\<exists>x. (pdi_of va, pti_of va) = (pdi_of x, pti_of x) \<and> a \<le> x \<and> x < b \<and> offset x = 0)"
    by (simp only: pages_from_def mem_Collect_eq)
  also have "\<dots> \<longleftrightarrow> a \<le> va AND fMASK \<and> va AND fMASK < b"
  proof
    assume "\<exists>x. (pdi_of va, pti_of va) = (pdi_of x, pti_of x) \<and> a \<le> x \<and> x < b \<and> offset x = 0"
    then obtain x where x: "(pdi_of x, pti_of x) = (pdi_of va, pti_of va)" "a \<le> x" "x < b" "offset x = 0" by auto
    then have "x = va AND fMASK" using same_index by blast
    then show "a \<le> va AND fMASK \<and> va AND fMASK < b" using x(2,3) by blast
  next
    assume "a \<le> va AND fMASK \<and> va AND fMASK < b"
    moreover have "offset (va AND fMASK) = 0" unfolding fMASK_def by (rule offset_high)
    moreover have "(pdi_of va, pti_of va) = (pdi_of (va AND fMASK), pti_of (va AND fMASK))" by (simp only: page_index)
    ultimately show "\<exists>x. (pdi_of va, pti_of va) = (pdi_of x, pti_of x) \<and> a \<le> x \<and> x < b \<and> offset x = 0" by blast
  qed
  finally show ?thesis .
qed

definition ram_pages :: "u32 \<Rightarrow> (nat \<times> nat) set" where
  "ram_pages memSize = {..<pdi_of memSize} \<times> {..<PAGES_PER_TABLE} - {(0, 0)} \<union> pages_from (memSize AND 0xffc00000) memSize"

lemma below_last:
  fixes p M :: nat
  shows "p div 1024 < M div 4194304 \<or> 4194304 * (M div 4194304) \<le> 4096 * p \<and> 4096 * p < M \<longleftrightarrow> 4096 * p < M"
proof -
  define q r where "q = M div 4194304" and "r = p div 1024"
  have "4194304 * q \<le> M" "1024 * r \<le> p" "p < 1024 * r + 1024"
    unfolding q_def r_def by (simp_all add: dividend_less_times_div add.commute)
  then have "r < q \<or> 4194304 * q \<le> 4096 * p \<and> 4096 * p < M \<longleftrightarrow> 4096 * p < M" by (cases "r < q") auto
  then show ?thesis by (simp only: q_def r_def)
qed

lemma ram_pages_iff:
  assumes "0x400000 \<le> memSize"
  shows "(pdi_of va, pti_of va) \<in> ram_pages memSize \<longleftrightarrow> 0x1000 \<le> va \<and> va AND fMASK < memSize"
proof -
  let ?M = "unat memSize" and ?v = "unat va"
  have M: "4194304 \<le> ?M" using assms by (simp add: word_le_nat_alt)
  have low: "(pdi_of va, pti_of va) = (0, 0) \<longleftrightarrow> \<not> 0x1000 \<le> va" using first_page [of va] by auto
  have d: "?v div 4194304 = ?v div 4096 div 1024" using div_mult2_eq [of ?v 4096 1024] by simp
  have "pdi_of va < pdi_of memSize \<or> memSize AND 0xffc00000 \<le> va AND fMASK \<and> va AND fMASK < memSize \<longleftrightarrow> va AND fMASK < memSize"
    unfolding pdi_div word_le_nat_alt word_less_nat_alt unat_big_page unat_page_start d by (rule below_last)
  moreover have "\<not> 0x1000 \<le> va \<Longrightarrow> \<not> memSize AND 0xffc00000 \<le> va AND fMASK"
  proof -
    assume "\<not> 0x1000 \<le> va"
    then have "va AND fMASK = 0" using first_page(2) [of va] by simp
    moreover have "1 \<le> ?M div 4194304" using M by (simp add: Suc_le_eq div_greater_zero_iff)
    then have "0 < unat (memSize AND 0xffc00000)" unfolding unat_big_page by simp
    ultimately show "\<not> memSize AND 0xffc00000 \<le> va AND fMASK" by (simp add: word_le_nat_alt)
  qed
  ultimately show ?thesis
    unfolding ram_pages_def using low pti_less [of va] pages_from_iff [of va "memSize AND 0xffc00000" memSize] by auto
qed

lemma partial_mapped:
  assumes m: "kernel_map {..<pdi_of memSize} S m" and b: "memSize \<le> 0xFFFFF000"
  shows "\<exists>r. map_partial memSize m = Some r \<and>
    outcome {oom} (\<lambda>m'. \<exists>D. kernel_map D (S \<union> pages_from (memSize AND 0xffc00000) memSize) m') r"
proof -
  let ?va = "memSize AND 0xffc00000"
  have o: "offset ?va = 0"
  proof -
    have "uint ?va = int (unat ?va)" by simp
    also have "\<dots> = 4194304 * (int (unat memSize) div 4194304)" unfolding unat_big_page by (simp add: zdiv_int)
    finally show ?thesis by (simp add: offset_dvd dvd_mult2)
  qed
  have i: "unat (drop_bit 22 ?va) = pdi_of memSize"
    unfolding pdi_of_def [symmetric] pdi_div unat_big_page by (rule nonzero_mult_div_cancel_left) simp
  show ?thesis
  proof (cases "?va < memSize")
    case False
    then have "pages_from ?va memSize = {}" by (auto simp: pages_from_def)
    then show ?thesis using False m by (auto simp: map_partial_def)
  next
    case True
    obtain K R tab where im: "identity_map K R tab S m" and D: "dom tab = {..<pdi_of memSize}" using m by (rule kernel_mapE)
    have ti: "tab (pdi_of memSize) = None" using D by auto
    from refs_ok_unsafe_alloc [OF identity_mapD(1) [OF im]] show ?thesis
    proof (cases "unsafe_alloc_frame m")
      case (Inl e)
      then show ?thesis using True refs_ok_unsafe_alloc [OF identity_mapD(1) [OF im]] by (simp add: map_partial_def)
    next
      case (Inr x)
      obtain m1 p where x: "x = (m1, p)" by (cases x)
      have a: "p \<notin># R" "p \<notin> K" "holds (insert p K) R m1" "mem m1 = (mem m)(p := (\<lambda>_. 0))" "offset p = 0" "kpd m1 = kpd m"
        using refs_ok_unsafe_alloc [OF identity_mapD(1) [OF im]] keeps_kpd by (auto simp: Inr x)
      let ?m = "write_word (kpd m) (pdi_of memSize) (p OR kFlags) m1"
      have "identity_map (insert p K) R (tab(pdi_of memSize \<mapsto> p)) S ?m"
      proof (rule table_placed [OF im ti a(2,1,5,3) _ _ _ a(6)])
        show "mem m1 q = mem m q" if "q \<in> K \<or> q \<in># R" for q using that a(1,2,4) by auto
        show "mem m1 p = kentries S (pdi_of memSize)" using a(4) not_in_map [OF im ti] by (simp add: kentries_def fun_eq_iff)
      qed auto
      then have k: "kernel_map (dom (tab(pdi_of memSize \<mapsto> p))) S ?m" by (rule kernel_mapI) simp
      show ?thesis
        using map_rest_maps [OF o b k] True by (simp only: map_partial_def Let_def if_True Inr x sum.case prod.case i a(6))
    qed
  qed
qed

definition device_page :: "u32 \<Rightarrow> (nat \<times> nat)" where
  "device_page a = (pdi_of a, pti_of a)"

lemma global_init_map:
  assumes h: "holds K R m" and M: "0x400000 \<le> memSize" "memSize \<le> 0xFFFFF000" and d: "offset lapic = 0" "offset ioapic = 0"
  shows "\<exists>r. global_init memSize lapic ioapic m = Some r \<and>
    outcome {oom} (\<lambda>m'. \<exists>D. kernel_map D (insert (device_page ioapic) (insert (device_page lapic) (ram_pages memSize))) m') r"
proof -
  let ?F = "{..<pdi_of memSize} \<times> {..<PAGES_PER_TABLE} - {(0, 0)}"
  let ?r1 = "bindE (unsafe_alloc_frame m) (\<lambda>(m, pd).
     bindE (forE identity_table [0..<pdi_of memSize] (m\<lparr>kpd := pd\<rparr>)) (\<lambda>m. Inr (write_word (mem m (kpd m) 0 AND fMASK) 0 0 m)))"
  have "4194304 \<le> unat memSize" using M(1) by (simp add: word_le_nat_alt)
  then have "0 < pdi_of memSize" by (simp add: pdi_div div_greater_zero_iff)
  note f = full_tables [OF h this]
  show ?thesis
  proof (cases ?r1)
    case (Inl e)
    then show ?thesis using f by (simp add: global_init_def pdi_of_def [symmetric])
  next
    case (Inr m1)
    then have "kernel_map {..<pdi_of memSize} ?F m1" using f by simp
    from partial_mapped [OF this M(2)] obtain r where
      r: "map_partial memSize m1 = Some r" "outcome {oom} (\<lambda>m'. \<exists>D. kernel_map D (ram_pages memSize) m') r"
      unfolding ram_pages_def by blast
    have "global_init memSize lapic ioapic m = Some (bindE r (\<lambda>m.
        bindE (map_pg (kpd m) lapic lapic kFlags m) (\<lambda>m. map_pg (kpd m) ioapic ioapic kFlags m)))"
      using Inr r(1) by (simp add: global_init_def pdi_of_def [symmetric])
    moreover have "outcome {oom} (\<lambda>m'. \<exists>D. kernel_map D (insert (device_page ioapic) (insert (device_page lapic) (ram_pages memSize))) m')
      (bindE r (\<lambda>m. bindE (map_pg (kpd m) lapic lapic kFlags m) (\<lambda>m. map_pg (kpd m) ioapic ioapic kFlags m)))"
    proof (rule outcome_bind [OF r(2)], elim exE)
      fix m2 :: "'a vm_scheme" and D assume "kernel_map D (ram_pages memSize) m2"
      from map_step [OF this d(1)]
      show "outcome {oom} (\<lambda>m'. \<exists>D. kernel_map D (insert (device_page ioapic) (insert (device_page lapic) (ram_pages memSize))) m')
        (bindE (map_pg (kpd m2) lapic lapic kFlags m2) (\<lambda>m. map_pg (kpd m) ioapic ioapic kFlags m))"
      proof (rule outcome_bind)
        fix m3 assume "kernel_map (insert (pdi_of lapic) D) (insert (pdi_of lapic, pti_of lapic) (ram_pages memSize)) m3"
        from map_step [OF this d(2)]
        show "outcome {oom} (\<lambda>m'. \<exists>D. kernel_map D (insert (device_page ioapic) (insert (device_page lapic) (ram_pages memSize))) m')
          (map_pg (kpd m3) ioapic ioapic kFlags m3)"
          unfolding device_page_def by (rule outcome_mono) blast
      qed
    qed
    ultimately show ?thesis by blast
  qed
qed

section \<open>What the processor reads\<close>

definition kernel_page :: "'a vm_scheme \<Rightarrow> u32 \<Rightarrow> u32 option" where
  "kernel_page m va =
     (let pde = mem m (kpd m) (pdi_of va); entry = mem m (pde AND fMASK) (pti_of va)
      in if present pde \<and> present entry then Some (entry AND fMASK) else None)"

lemma kernel_page_map:
  assumes "kernel_map D S m"
  shows "kernel_page m va = (if (pdi_of va, pti_of va) \<in> S then Some (va AND fMASK) else None)"
proof -
  obtain K R tab where im: "identity_map K R tab S m" using assms by (rule kernel_mapE)
  note d = identity_mapD [OF im]
  show ?thesis
  proof (cases "tab (pdi_of va)")
    case None
    then have "(pdi_of va, pti_of va) \<notin> S" using not_in_map [OF im] by blast
    then show ?thesis using d(5) [of "pdi_of va"] None by (simp add: kernel_page_def)
  next
    case (Some t)
    then have t: "mem m (kpd m) (pdi_of va) = t OR kFlags" "offset t = 0" "mem m t = kentries S (pdi_of va)"
      using d(5) [of "pdi_of va"] d(6) [OF Some] by auto
    show ?thesis
      using join_kFlags [OF t(2)] join_kFlags [OF addr_offset [of va]] addr_page [of va]
      by (simp add: kernel_page_def t(1,3) kentries_def fMASK_def)
  qed
qed

lemma kernel_map_not_priv:
  assumes "kernel_map D S m"
  shows "\<not> priv (mem m (kpd m) i)"
proof -
  obtain K R tab where im: "identity_map K R tab S m" using assms by (rule kernel_mapE)
  show ?thesis
    using identity_mapD(5) [OF im, of i] identity_mapD(6) [OF im, of i] join_kFlags(3)
    by (cases "tab i") (auto simp: priv_bits)
qed

text \<open>The kernel's directory is in nobody's count, and none of its entries is private.\<close>

definition kernel_ready :: "u32 set \<Rightarrow> u32 multiset \<Rightarrow> 'a vm_scheme \<Rightarrow> bool" where
  "kernel_ready K R m \<longleftrightarrow> holds K R m \<and> kpd m \<in> K \<and> (\<forall>i. \<not> priv (mem m (kpd m) i))"

lemma ready_no_tables:
  assumes "\<And>i. \<not> priv (c i)"
  shows "table_refs M R c n = {#}" "\<not> has_table c i" "\<not> mapped M c i j"
  using assms by (induction n) (simp_all add: has_table_def mapped_def)

text \<open>A copy of the kernel's directory is an empty space.\<close>

lemma new_space:
  assumes k: "kernel_ready K R m"
  shows "outcome {oom} (\<lambda>(m', pd). space K R pd m' \<and> kernel_ready K (add_mset pd R) m' \<and> keeps (set_mset R \<union> K) m m' \<and>
      mem m' pd = mem m (kpd m) \<and> (\<forall>va. user_page m' pd va = None)) (copy_kpd m)"
proof -
  have h: "holds K R m" "kpd m \<in> K" and np: "\<And>i. \<not> priv (mem m (kpd m) i)" using k by (simp_all add: kernel_ready_def)
  show ?thesis
    unfolding copy_kpd_def
  proof (rule outcome_bind [OF refs_ok_alloc [OF h(1)]])
    fix x :: "'a vm_scheme \<times> u32"
    obtain m1 pd where x: "x = (m1, pd)" by (cases x)
    assume "case x of (m', p) \<Rightarrow> p \<notin># R \<and> p \<notin> K \<and> holds K (add_mset p R) m' \<and> mem m' p = (\<lambda>_. 0) \<and>
      keeps (set_mset R \<union> K) m m' \<and> offset p = 0 \<and> p \<noteq> 0 \<and> start m \<le> p \<and> p < limit m"
    then have a: "pd \<notin># R" "pd \<notin> K" "holds K (add_mset pd R) m1" "keeps (set_mset R \<union> K) m m1" by (simp_all add: x)
    let ?m = "copy_frame pd (kpd m1) m1"
    have kp: "kpd m1 = kpd m" "mem m1 (kpd m) = mem m (kpd m)"
      using keeps_kpd [OF a(4)] keeps_mem [OF a(4), of "kpd m"] h(2) by auto
    then have c: "mem ?m pd = mem m (kpd m)" "mem ?m (kpd m) = mem m (kpd m)" "kpd ?m = kpd m" by (simp_all add: copy_frame_def)
    have h2: "holds K (add_mset pd R) ?m" by (rule refs_ok_copy_frame [OF a(3)]) simp
    have k2: "keeps (set_mset R \<union> K) m ?m"
      by (rule keeps_trans [OF a(4) keeps_write [of pd "set_mset R \<union> K" m1 "mem m1 (kpd m1)", folded copy_frame_def]])
        (use a(1,2) in auto)
    note nt = ready_no_tables [of "mem m (kpd m)", OF np]
    have "laid (mem ?m) R pd (mem ?m pd)"
      using a(1) nt unfolding laid_def tables_apart_def cow_def c(1) by simp
    then have "space K R pd ?m" using h2 nt(1) by (simp add: space_def c(1))
    moreover have "kernel_ready K (add_mset pd R) ?m" using h2 h(2) np by (simp add: kernel_ready_def c)
    moreover have "user_page ?m pd va = None" for va
    proof -
      have "\<not> mapped (mem ?m) (mem ?m pd) (pdi_of va) (pti_of va)" unfolding c(1) by (rule nt(3))
      then show ?thesis using user_page_mapped by blast
    qed
    ultimately show "outcome {oom} (\<lambda>(m', pd). space K R pd m' \<and> kernel_ready K (add_mset pd R) m' \<and> keeps (set_mset R \<union> K) m m' \<and>
        mem m' pd = mem m (kpd m) \<and> (\<forall>va. user_page m' pd va = None)) (case x of (m, pd) \<Rightarrow> Inr (copy_frame pd (kpd m) m, pd))"
      using k2 c(1) by (simp add: x)
  qed
qed

text \<open>Twenty-six megabytes of frames above the first six, as \<open>kernelInit\<close> hands them over.\<close>

definition boot_vm :: vm where
  "boot_vm = \<lparr>mem = (\<lambda>_ _. 7), firstFree = 0, pavail = 0x600000, limit = 0x2000000, start = 0x600000,
     refs = (\<lambda>_. 0), kpd = 0, cr3 = 0\<rparr>"

lemma boot_vm_holds: "holds {} {#} boot_vm"
proof -
  let ?m0 = "\<lparr>mem = (\<lambda>_ _. 7), firstFree = 0, pavail = 0, limit = 0, start = 0, refs = (\<lambda>_. 0), kpd = 0, cr3 = 0\<rparr> :: vm"
  have "init 0x600000 0x1A00000 ?m0 = Inr boot_vm" by (simp add: init_def boot_vm_def offset_def)
  moreover have "\<exists>m. init 0x600000 0x1A00000 ?m0 = Inr m \<and> holds {} {#} m \<and> start m = 0x600000 \<and> limit m = 0x600000 + 0x1A00000 \<and> pavail m = 0x600000"
    by (rule init_holds) (simp_all add: offset_def)
  ultimately show ?thesis by auto
qed

text \<open>The first of them is the kernel's directory, still empty.\<close>

definition started_vm :: vm where
  "started_vm = boot_vm\<lparr>pavail := 0x601000, kpd := 0x600000, mem := (\<lambda>_ _. 7)(0x600000 := (\<lambda>_. 0))\<rparr>"

lemma started_ready: "kernel_ready {0x600000} {#} started_vm"
proof -
  have "unsafe_alloc_frame boot_vm = Inr (boot_vm\<lparr>pavail := 0x601000, mem := (\<lambda>_ _. 7)(0x600000 := (\<lambda>_. 0))\<rparr>, 0x600000)"
    by (simp add: unsafe_alloc_frame_def boot_vm_def offset_def FRAME_SIZE_def)
  then have "holds {0x600000} {#} (boot_vm\<lparr>pavail := 0x601000, mem := (\<lambda>_ _. 7)(0x600000 := (\<lambda>_. 0))\<rparr>)"
    using refs_ok_unsafe_alloc [OF boot_vm_holds] by (simp only: outcome_simps prod.case)
  from refs_ok_kpd [OF this, of "0x600000"] show ?thesis by (simp add: kernel_ready_def started_vm_def boot_vm_def)
qed

section \<open>Properties\<close>

text \<open>
  C6. \<open>global_init\<close> ends, and maps memory to itself: unless frames run out, every page that starts below \<open>memSize\<close>
  except the first, the page of the local and that of the I/O interrupt controller are mapped to themselves, and
  no other address is mapped; no entry of the directory is private.
\<close>

theorem kernel_maps_memory:
  assumes "holds K R m" and "0x400000 \<le> memSize" "memSize \<le> 0xFFFFF000"
    and "offset lapic = 0" "offset ioapic = 0" "lapic \<noteq> 0" "ioapic \<noteq> 0"
  shows "\<exists>r. global_init memSize lapic ioapic m = Some r \<and> outcome {oom} (\<lambda>m'. (\<exists>K' R'. kernel_ready K' R' m') \<and>
    (\<forall>va. kernel_page m' va =
       (if 0x1000 \<le> va \<and> va AND fMASK < memSize \<or> va AND fMASK = lapic \<or> va AND fMASK = ioapic then Some (va AND fMASK) else None))) r"
proof -
  obtain r where r: "global_init memSize lapic ioapic m = Some r"
    "outcome {oom} (\<lambda>m'. \<exists>D. kernel_map D (insert (device_page ioapic) (insert (device_page lapic) (ram_pages memSize))) m') r"
    using global_init_map [OF assms(1-5)] by blast
  have i: "(pdi_of va, pti_of va) \<in> insert (device_page ioapic) (insert (device_page lapic) (ram_pages memSize)) \<longleftrightarrow>
      0x1000 \<le> va \<and> va AND fMASK < memSize \<or> va AND fMASK = lapic \<or> va AND fMASK = ioapic" for va
    unfolding insert_iff ram_pages_iff [OF assms(2)] device_page_def
    using same_index [OF assms(4), of va] same_index [OF assms(5), of va] by auto
  have "outcome {oom} (\<lambda>m'. (\<exists>K' R'. kernel_ready K' R' m') \<and>
    (\<forall>va. kernel_page m' va =
       (if 0x1000 \<le> va \<and> va AND fMASK < memSize \<or> va AND fMASK = lapic \<or> va AND fMASK = ioapic then Some (va AND fMASK) else None))) r"
  proof (rule outcome_mono [OF r(2)], elim exE)
    fix m' :: "'a vm_scheme" and D
    assume k: "kernel_map D (insert (device_page ioapic) (insert (device_page lapic) (ram_pages memSize))) m'"
    obtain K' R' tab where "identity_map K' R' tab (insert (device_page ioapic) (insert (device_page lapic) (ram_pages memSize))) m'"
      using k by (rule kernel_mapE)
    from identity_mapD(1,2) [OF this] have "kernel_ready K' R' m'"
      using kernel_map_not_priv [OF k] by (simp add: kernel_ready_def)
    then show "(\<exists>K' R'. kernel_ready K' R' m') \<and> (\<forall>va. kernel_page m' va =
       (if 0x1000 \<le> va \<and> va AND fMASK < memSize \<or> va AND fMASK = lapic \<or> va AND fMASK = ioapic then Some (va AND fMASK) else None))"
      unfolding kernel_page_map [OF k] i by blast
  qed
  then show ?thesis using r(1) by blast
qed

theorem kernel_maps_memory_witness:
  "\<exists>r. global_init 0x800000 0xfee00000 0xfec00000 boot_vm = Some r \<and> outcome {oom} (\<lambda>m'. kernel_page m' 0 = None \<and>
     kernel_page m' 0x12345 = Some 0x12000 \<and> kernel_page m' 0xfee00020 = Some 0xfee00000 \<and> kernel_page m' 0x800000 = None) r"
proof -
  obtain r where r: "global_init 0x800000 0xfee00000 0xfec00000 boot_vm = Some r"
    "outcome {oom} (\<lambda>m'. (\<exists>K' R'. kernel_ready K' R' m') \<and>
       (\<forall>va. kernel_page m' va = (if 0x1000 \<le> va \<and> va AND fMASK < 0x800000 \<or> va AND fMASK = 0xfee00000 \<or>
        va AND fMASK = 0xfec00000 then Some (va AND fMASK) else None))) r"
    using kernel_maps_memory [OF boot_vm_holds, of "0x800000" "0xfee00000" "0xfec00000"] by (auto simp: offset_def)
  have "outcome {oom} (\<lambda>m'. kernel_page m' 0 = None \<and>
     kernel_page m' 0x12345 = Some 0x12000 \<and> kernel_page m' 0xfee00020 = Some 0xfee00000 \<and> kernel_page m' 0x800000 = None) r"
    by (rule outcome_mono [OF r(2)]) (simp add: fMASK_def)
  then show ?thesis using r(1) by blast
qed

text \<open>
  C7. A new process has a memory of its own. On a machine whose kernel directory is ready, a space is made by \<open>copy_kpd\<close>,
  and a store into it is seen at its address while every other word is zero, unless frames run out; the
  kernel's directory is ready for the next.
\<close>

theorem new_process_memory:
  fixes m :: "'a vm_scheme"
  assumes "kernel_ready K R m" and "0x80000000 \<le> va" and "\<not> present (mem m (kpd m) (pdi_of va))"
  shows "outcome {oom} (\<lambda>(m', pd). space K R pd m' \<and> pd \<notin># R \<and> (\<forall>q\<in>set_mset R \<union> K. mem m' q = mem m q) \<and>
      (\<forall>va'. user_contents m' pd va' = (if same_page va va' then (\<lambda>_. 0)(k := v) else (\<lambda>_. 0))) \<and>
      mem m' (kpd m') = mem m (kpd m))
    (bindE (copy_kpd m) (\<lambda>(m, pd). bindE (user_store va k v (m\<lparr>cr3 := pd\<rparr>)) (\<lambda>m. Inr (m, pd))))"
proof (rule outcome_bind [OF new_space [OF assms(1)]])
  fix x :: "'a vm_scheme \<times> u32"
  obtain m1 pd where x: "x = (m1, pd)" by (cases x)
  assume "case x of (m', pd) \<Rightarrow> space K R pd m' \<and> kernel_ready K (add_mset pd R) m' \<and> keeps (set_mset R \<union> K) m m' \<and>
      mem m' pd = mem m (kpd m) \<and> (\<forall>va. user_page m' pd va = None)"
  then have a: "space K R pd m1" "keeps (set_mset R \<union> K) m m1" "mem m1 pd = mem m (kpd m)" "\<And>va. user_page m1 pd va = None"
    by (simp_all add: x)
  let ?m = "m1\<lparr>cr3 := pd\<rparr>"
  have sp: "space K R (cr3 ?m) ?m" using a(1) refs_ok_cr3 [of "\<lambda>_. 0" K _ m1 pd] by (simp add: space_def)
  have np: "\<And>i. \<not> priv (mem m (kpd m) i)" using assms(1) by (simp add: kernel_ready_def)
  have "table_refs (mem ?m) R' (mem ?m (cr3 ?m)) PAGES_PER_TABLE = {#}" for R'
    using ready_no_tables(1) [of "mem m (kpd m)", OF np] a(3) by simp
  then have few: "few_refs (space_refs ?m R (cr3 ?m)) (mem ?m) (mem ?m (cr3 ?m))" by (simp add: few_refs_def)
  have ua: "user_area ?m (cr3 ?m) va" using assms(2,3) a(3) by (simp add: user_area_def)
  have z: "user_contents ?m (cr3 ?m) va' = (\<lambda>_. 0)" for va' 
  proof -
    have "user_page ?m pd va' = user_page m1 pd va'" by (simp add: user_page_def Let_def)
    then show ?thesis using a(4) [of va'] by (simp add: user_contents_def)
  qed
  have pd: "pd \<notin># R" using a(1) by (simp add: space_def laid_def)
  have kK: "kpd m \<in> K" using assms(1) by (simp add: kernel_ready_def)
  show "outcome {oom} (\<lambda>(m', pd). space K R pd m' \<and> pd \<notin># R \<and> (\<forall>q\<in>set_mset R \<union> K. mem m' q = mem m q) \<and>
      (\<forall>va'. user_contents m' pd va' = (if same_page va va' then (\<lambda>_. 0)(k := v) else (\<lambda>_. 0))) \<and>
      mem m' (kpd m') = mem m (kpd m))
    (case x of (m, pd) \<Rightarrow> bindE (user_store va k v (m\<lparr>cr3 := pd\<rparr>)) (\<lambda>m. Inr (m, pd)))"
    unfolding x prod.case
  proof (rule outcome_bind [OF store_keeps [OF sp ua few]])
    fix m2 :: "'a vm_scheme"
    assume s: "space K R (cr3 m2) m2 \<and> cr3 m2 = cr3 ?m \<and> keeps (set_mset R \<union> K) ?m m2 \<and>
      (\<forall>va'. user_contents m2 (cr3 ?m) va' = (if same_page va va' then (user_contents ?m (cr3 ?m) va)(k := v) else user_contents ?m (cr3 ?m) va')) \<and>
      (\<forall>pd2. lies_in (set_mset R \<union> K) pd2 ?m \<longrightarrow> lies_in (set_mset R \<union> K) pd2 m2 \<and> (\<forall>va'. user_page m2 pd2 va' = user_page ?m pd2 va'))"
    have k: "keeps (set_mset R \<union> K) ?m m2" and c2: "cr3 m2 = pd" using s by simp_all
    have "space K R (cr3 m2) m2" using s by blast
    then have sp2: "space K R pd m2" unfolding c2 .
    have k2: "mem m2 q = mem m q" if "q \<in> set_mset R \<union> K" for q
      using keeps_mem [OF k that] keeps_mem [OF a(2) that] by simp
    have "kpd m2 = kpd m" using keeps_kpd [OF k] keeps_kpd [OF a(2)] by simp
    then have kp: "mem m2 (kpd m2) = mem m (kpd m)" using k2 [of "kpd m"] kK by simp
    show "outcome {oom} (\<lambda>(m', pd). space K R pd m' \<and> pd \<notin># R \<and> (\<forall>q\<in>set_mset R \<union> K. mem m' q = mem m q) \<and>
      (\<forall>va'. user_contents m' pd va' = (if same_page va va' then (\<lambda>_. 0)(k := v) else (\<lambda>_. 0))) \<and>
      mem m' (kpd m') = mem m (kpd m)) (Inr (m2, pd))"
      using s sp2 c2 pd z k2 kp by simp
  qed
qed

theorem new_process_memory_witness:
  "outcome {oom} (\<lambda>(m', pd). user_contents m' pd 0x80001000 = (\<lambda>_. 0)(3 := 7) \<and> user_contents m' pd 0x80002000 = (\<lambda>_. 0))
    (bindE (copy_kpd started_vm) (\<lambda>(m, pd). bindE (user_store 0x80001000 3 7 (m\<lparr>cr3 := pd\<rparr>)) (\<lambda>m. Inr (m, pd))))"
proof -
  have "same_page 0x80001000 0x80001000" "\<not> same_page 0x80001000 0x80002000"
    by (simp_all add: same_page_def pdi_of_def pti_of_def)
  moreover have "\<not> present (mem started_vm (kpd started_vm) (pdi_of 0x80001000))" by (simp add: started_vm_def)
  ultimately show ?thesis
    by (intro outcome_mono [OF new_process_memory [OF started_ready]]) auto
qed

end
