(* ===== verification/Queue.thy ===== *)
theory Queue
  imports Prelude
begin

text \<open>
  The intrusive queue of \<open>kernel/queue.h\<close>. The links are in the nodes (\<open>t->next\<close>), one field per
  node for all queues, so the field is a store shared by all of them. A queue is correct
  as long as its nodes are in no other queue.
\<close>

section \<open>Operations\<close>

type_synonym tid = nat

record tq =
  qfirst :: "tid option"
  qlast :: "tid option"

definition empty_q :: tq where
  "empty_q = \<lparr>qfirst = None, qlast = None\<rparr>"

text \<open>Writing through a null \<open>last\<close> is a fault.\<close>

definition q_add :: "tid \<Rightarrow> (tid \<Rightarrow> tid option) \<Rightarrow> tq \<Rightarrow> ((tid \<Rightarrow> tid option) \<times> tq) res" where
  "q_add t nx q =
     (let nx = nx(t := None) in
      case qfirst q of
        None \<Rightarrow> Inr (nx, \<lparr>qfirst = Some t, qlast = Some t\<rparr>)
      | Some f \<Rightarrow>
          (case qlast q of
             None \<Rightarrow> Inl (Panic ''null dereference'')
           | Some l \<Rightarrow> Inr (nx(l := Some t), q\<lparr>qlast := Some t\<rparr>)))"

definition q_remove :: "(tid \<Rightarrow> tid option) \<Rightarrow> tq \<Rightarrow> tq \<times> tid option" where
  "q_remove nx q =
     (case qfirst q of
        None \<Rightarrow> (q, None)
      | Some it \<Rightarrow>
          (case nx it of
             None \<Rightarrow> (\<lparr>qfirst = None, qlast = None\<rparr>, Some it)
           | Some n \<Rightarrow> (q\<lparr>qfirst := Some n\<rparr>, Some it)))"

definition q_remove_all :: "tq \<Rightarrow> tq \<times> tid option" where
  "q_remove_all q = (\<lparr>qfirst = None, qlast = None\<rparr>, qfirst q)"

section \<open>The list a queue stands for\<close>

fun linked :: "(tid \<Rightarrow> tid option) \<Rightarrow> tid option \<Rightarrow> tid list \<Rightarrow> bool" where
  "linked nx p [] \<longleftrightarrow> p = None"
| "linked nx p (x # xs) \<longleftrightarrow> p = Some x \<and> linked nx (nx x) xs"

definition q_repr :: "(tid \<Rightarrow> tid option) \<Rightarrow> tq \<Rightarrow> tid list \<Rightarrow> bool" where
  "q_repr nx q xs \<longleftrightarrow> linked nx (qfirst q) xs \<and> distinct xs \<and>
     qlast q = (if xs = [] then None else Some (last xs))"

lemma linked_cong: "(\<And>x. x \<in> set xs \<Longrightarrow> nx' x = nx x) \<Longrightarrow> linked nx' p xs \<longleftrightarrow> linked nx p xs"
  by (induction xs arbitrary: p) auto

lemma q_repr_cong: "(\<And>x. x \<in> set xs \<Longrightarrow> nx' x = nx x) \<Longrightarrow> q_repr nx' q xs \<longleftrightarrow> q_repr nx q xs"
  using linked_cong [of xs nx' nx] by (simp add: q_repr_def)

lemma linked_snoc:
  "linked nx p xs \<Longrightarrow> xs \<noteq> [] \<Longrightarrow> distinct xs \<Longrightarrow> t \<notin> set xs \<Longrightarrow> nx t = None \<Longrightarrow>
    linked (nx(last xs := Some t)) p (xs @ [t])"
proof (induction xs arbitrary: p)
  case (Cons x xs)
  show ?case
  proof (cases xs)
    case Nil
    then show ?thesis using Cons.prems by simp
  next
    case (Cons y ys)
    then have "x \<noteq> last xs" using Cons.prems(3) last_in_set by fastforce
    then show ?thesis using Cons.IH [of "nx x"] Cons.prems Cons by simp
  qed
qed simp

lemma q_repr_empty [simp]: "q_repr nx empty_q xs \<longleftrightarrow> xs = []"
  by (cases xs) (auto simp: q_repr_def empty_q_def)

lemma q_add_repr:
  assumes "q_repr nx q xs" "t \<notin> set xs"
  shows "\<exists>nx' q'. q_add t nx q = Inr (nx', q') \<and> q_repr nx' q' (xs @ [t]) \<and>
    (\<forall>x. x \<noteq> t \<longrightarrow> x \<notin> set xs \<longrightarrow> nx' x = nx x)"
proof (cases xs)
  case Nil
  then show ?thesis using assms by (auto simp: q_add_def q_repr_def)
next
  case (Cons y ys)
  let ?nx = "nx(t := None)"
  have "linked ?nx (qfirst q) xs"
  proof -
    have "\<And>x. x \<in> set xs \<Longrightarrow> ?nx x = nx x" using assms(2) by auto
    from linked_cong [of xs ?nx nx, OF this] show ?thesis using assms(1) by (simp add: q_repr_def)
  qed
  then have "linked (?nx(last xs := Some t)) (qfirst q) (xs @ [t])"
    using linked_snoc [of ?nx "qfirst q" xs t] assms Cons by (simp add: q_repr_def)
  then show ?thesis using assms Cons by (auto simp: q_add_def q_repr_def Let_def)
qed

lemma q_remove_repr:
  assumes "q_repr nx q xs"
  shows "case xs of [] \<Rightarrow> q_remove nx q = (q, None)
    | x # ys \<Rightarrow> \<exists>q'. q_remove nx q = (q', Some x) \<and> q_repr nx q' ys"
proof (cases xs)
  case Nil
  then show ?thesis using assms by (simp add: q_repr_def q_remove_def)
next
  case (Cons x ys)
  then show ?thesis using assms by (cases ys) (auto simp: q_repr_def q_remove_def)
qed

section \<open>Several queues over one store\<close>

text \<open>
  The contract, as an interface: queues with names, whose contents are disjoint lists; \<open>add\<close> appends a
  node that is in no queue, \<open>remove\<close> takes the first.
\<close>

definition apart :: "('q \<Rightarrow> tid list) \<Rightarrow> bool" where
  "apart C \<longleftrightarrow> (\<forall>q. distinct (C q)) \<and> (\<forall>q r. q \<noteq> r \<longrightarrow> set (C q) \<inter> set (C r) = {})"

lemma apart_disj: "apart C \<Longrightarrow> x \<in> set (C q) \<Longrightarrow> x \<in> set (C r) \<Longrightarrow> q = r"
  by (auto simp: apart_def)

lemma apart_distinct: "apart C \<Longrightarrow> distinct (C q)"
  by (simp add: apart_def)

lemma apart_tail:
  assumes "apart C" "C q = x # xs"
  shows "apart (C(q := xs))" "x \<notin> set ((C(q := xs)) r)"
proof -
  have d: "distinct (x # xs)" using apart_distinct [OF assms(1), of q] assms(2) by simp
  show "x \<notin> set ((C(q := xs)) r)"
    using d apart_disj [OF assms(1), of x q r] assms(2) by auto
  have sub: "set ((C(q := xs)) r) \<subseteq> set (C r)" for r using assms(2) by auto
  show "apart (C(q := xs))"
    unfolding apart_def
  proof (intro conjI allI impI)
    show "distinct ((C(q := xs)) r)" for r using d assms(1) by (simp add: apart_def)
    show "set ((C(q := xs)) r) \<inter> set ((C(q := xs)) r') = {}" if "r \<noteq> r'" for r r'
      using sub [of r] sub [of r'] apart_disj [OF assms(1)] that by blast
  qed
qed

locale fifo =
  fixes repr :: "('q \<Rightarrow> tid list) \<Rightarrow> 's \<Rightarrow> bool"
    and add :: "'q \<Rightarrow> tid \<Rightarrow> 's \<Rightarrow> 's res"
    and remove :: "'q \<Rightarrow> 's \<Rightarrow> 's \<times> tid option"
  assumes repr_apart: "repr C s \<Longrightarrow> apart C"
    and add_appends: "repr C s \<Longrightarrow> (\<And>r. t \<notin> set (C r)) \<Longrightarrow>
      \<exists>s'. add q t s = Inr s' \<and> repr (C(q := C q @ [t])) s'"
    and remove_first: "repr C s \<Longrightarrow> C q = x # xs \<Longrightarrow> \<exists>s'. remove q s = (s', Some x) \<and> repr (C(q := xs)) s'"
    and remove_none: "repr C s \<Longrightarrow> C q = [] \<Longrightarrow> remove q s = (s, None)"
begin

lemma removed_apart: "repr C s \<Longrightarrow> C q = x # xs \<Longrightarrow> x \<notin> set ((C(q := xs)) r)"
  by (rule apart_tail(2) [OF repr_apart])

text \<open>Taking the first node of one queue and appending it to another, as a wake-up does.\<close>

lemma transfer:
  assumes "repr C s" "C q = x # xs" "remove q s = (s1, Some x)"
  shows "\<exists>s2. add r x s1 = Inr s2 \<and> repr ((C(q := xs))(r := (C(q := xs)) r @ [x])) s2"
proof -
  from remove_first [OF assms(1,2)] assms(3) have r: "repr (C(q := xs)) s1" by auto
  show ?thesis by (rule add_appends [OF r removed_apart [OF assms(1,2)]])
qed

end

text \<open>The queues of the kernel provide it: one store of links and a family of queue heads.\<close>

definition qs_add :: "'q \<Rightarrow> tid \<Rightarrow> (tid \<Rightarrow> tid option) \<times> ('q \<Rightarrow> tq) \<Rightarrow> ((tid \<Rightarrow> tid option) \<times> ('q \<Rightarrow> tq)) res" where
  "qs_add q t s = bindE (q_add t (fst s) (snd s q)) (\<lambda>(nx, v). Inr (nx, (snd s)(q := v)))"

definition qs_remove :: "'q \<Rightarrow> (tid \<Rightarrow> tid option) \<times> ('q \<Rightarrow> tq) \<Rightarrow> ((tid \<Rightarrow> tid option) \<times> ('q \<Rightarrow> tq)) \<times> tid option" where
  "qs_remove q s = (case q_remove (fst s) (snd s q) of (v, r) \<Rightarrow> ((fst s, (snd s)(q := v)), r))"

definition qs_repr :: "('q \<Rightarrow> tid list) \<Rightarrow> (tid \<Rightarrow> tid option) \<times> ('q \<Rightarrow> tq) \<Rightarrow> bool" where
  "qs_repr C s \<longleftrightarrow> apart C \<and> (\<forall>q. q_repr (fst s) (snd s q) (C q))"

lemma qs_add_appends:
  assumes "qs_repr C s" "\<And>r. t \<notin> set (C r)"
  shows "\<exists>s'. qs_add q t s = Inr s' \<and> qs_repr (C(q := C q @ [t])) s'"
proof -
  have rq: "q_repr (fst s) (snd s q) (C q)" and ap: "apart C" using assms(1) by (simp_all add: qs_repr_def)
  obtain nx' q' where a: "q_add t (fst s) (snd s q) = Inr (nx', q')" "q_repr nx' q' (C q @ [t])"
    "\<And>x. x \<noteq> t \<Longrightarrow> x \<notin> set (C q) \<Longrightarrow> nx' x = fst s x"
    using q_add_repr [OF rq assms(2)] by blast
  have "apart (C(q := C q @ [t]))" using ap assms(2) by (auto simp: apart_def)
  moreover have "q_repr nx' (snd s r) (C r)" if "r \<noteq> q" for r
  proof -
    have "nx' x = fst s x" if "x \<in> set (C r)" for x
      using a(3) [of x] that assms(2) [of r] ap \<open>r \<noteq> q\<close> by (auto simp: apart_def)
    then show ?thesis using assms(1) q_repr_cong [of "C r" nx' "fst s"] by (simp add: qs_repr_def)
  qed
  ultimately show ?thesis using a(1,2) by (auto simp: qs_add_def qs_repr_def)
qed

lemma qs_remove_first:
  assumes "qs_repr C s" "C q = x # xs"
  shows "\<exists>s'. qs_remove q s = (s', Some x) \<and> qs_repr (C(q := xs)) s'"
proof -
  have "q_repr (fst s) (snd s q) (x # xs)" using assms by (metis qs_repr_def)
  from q_remove_repr [OF this] obtain q' where
    "q_remove (fst s) (snd s q) = (q', Some x)" "q_repr (fst s) q' xs" by auto
  moreover have "apart (C(q := xs))"
    using assms apart_tail(1) by (auto simp: qs_repr_def)
  ultimately show ?thesis using assms(1) by (auto simp: qs_remove_def qs_repr_def)
qed

lemma qs_remove_none: "qs_repr C s \<Longrightarrow> C q = [] \<Longrightarrow> qs_remove q s = (s, None)"
proof -
  assume a: "qs_repr C s" "C q = []"
  then have "q_repr (fst s) (snd s q) []" by (metis qs_repr_def)
  from q_remove_repr [OF this] show ?thesis by (cases s) (simp add: qs_remove_def)
qed

lemma qs_repr_apart: "qs_repr C s \<Longrightarrow> apart C"
  by (simp add: qs_repr_def)

interpretation kq: fifo qs_repr qs_add qs_remove
  by unfold_locales (fact qs_repr_apart qs_add_appends qs_remove_first qs_remove_none)+

end
