(* ===== verification/Threads.thy ===== *)
theory Threads
  imports Queue
begin

text \<open>
  Threads, semaphores and condition variables: \<open>kernel/threads.h\<close>, \<open>threads.cc\<close>, \<open>semaphore.h\<close>,
  \<open>blocking_lock.h\<close>, \<open>condition.h\<close>, over the queues of \<open>Queue\<close>.

  Each of \<open>n\<close> cores runs a thread; threads \<open>0..<n\<close> are the idle threads of the cores. What a core
  does between two acquisitions of a lock is one step. \<open>block\<close> is three: the thread decides
  to block (\<open>wants\<close>); the core takes the next thread from the ready queue and switches
  to it, with the handler for the old thread still to run (\<open>pending\<close>); the handler runs on the
  new stack and puts the old thread where it belongs. A thread that was taken from a waiting queue but is not
  yet on the ready queue is in \<open>hand\<close>. What \<open>block\<close> remembers in its local variables \<open>core_id\<close> and \<open>me\<close> is in \<open>entered\<close>; a thread in
  the endless loop of \<open>stop\<close> is in \<open>stopping\<close>. Assertions are evaluated where the code has them. Whether interrupts
  are disabled (\<open>if_off\<close>) belongs to a thread, because \<open>gheith_contextSwitch\<close> saves the flag of the one and restores that of
  the other; handlers run with interrupts disabled. The interrupt-safe locks of conditions change the flag. The switch also loads CR3 and esp0 of the next process; threads
  here have no address space, \<open>Switch\<close> adds it.
\<close>

section \<open>State\<close>

type_synonym core = nat

datatype reason = Yielding | SemWait nat | CondWait nat u64 | Stopping

datatype qname = Ready | Zombies | SemQ nat | CondQ nat

record sched =
  qs :: "(tid \<Rightarrow> tid option) \<times> (qname \<Rightarrow> tq)"
  active :: "core \<Rightarrow> tid"
  wants :: "core \<Rightarrow> reason option"
  pending :: "core \<Rightarrow> (tid \<times> reason) option"
  hand :: "core \<Rightarrow> tid list"
  sem_count :: "nat \<Rightarrow> u64"
  epoch :: "nat \<Rightarrow> u64"
  locked :: "nat \<Rightarrow> bool"
  next_id :: tid
  deleted :: "tid set"
  entered :: "core \<Rightarrow> core \<times> tid"
  stopping :: "tid set"
  if_off :: "tid \<Rightarrow> bool"
  lock_was :: "nat \<Rightarrow> bool"

text \<open>
  Events of a semaphore: a \<open>down\<close> has got through, an \<open>up\<close>. \<open>Blocks t r d\<close>: thread \<open>t\<close> comes to \<open>block\<close> from a call of \<open>down\<close>, \<open>wait\<close>, \<open>yield\<close> or
  \<open>stop\<close>, with interrupts disabled if \<open>d\<close>.
\<close>

datatype event = Acquire nat | Up nat | Blocks tid reason bool

definition is_idle :: "nat \<Rightarrow> tid \<Rightarrow> bool" where
  "is_idle n t \<longleftrightarrow> t < n"

definition enqueue :: "qname \<Rightarrow> tid \<Rightarrow> sched \<Rightarrow> sched res" where
  "enqueue q t s = bindE (qs_add q t (qs s)) (\<lambda>v. Inr (s\<lparr>qs := v\<rparr>))"

definition dequeue :: "qname \<Rightarrow> sched \<Rightarrow> sched \<times> tid option" where
  "dequeue q s = (case qs_remove q (qs s) of (v, r) \<Rightarrow> (s\<lparr>qs := v\<rparr>, r))"

section \<open>atomic.h\<close>

text \<open>\<open>InterruptSafeLock\<close>, by the thread that runs on core \<open>c\<close>; and by a handler, whose interrupts are disabled.\<close>

definition take_lock :: "nat \<Rightarrow> core \<Rightarrow> sched \<Rightarrow> sched" where
  "take_lock v c s =
     (let wasDisabled = if_off s (active s c)
      in s\<lparr>if_off := (if_off s)(active s c := True), locked := (locked s)(v := True), lock_was := (lock_was s)(v := wasDisabled)\<rparr>)"

definition drop_lock :: "nat \<Rightarrow> core \<Rightarrow> sched \<Rightarrow> sched" where
  "drop_lock v c s =
     (let wasDisabled = lock_was s v; s = s\<lparr>locked := (locked s)(v := False)\<rparr>
      in if \<not> wasDisabled then s\<lparr>if_off := (if_off s)(active s c := False)\<rparr> else s)"

definition handler_lock :: "nat \<Rightarrow> sched \<Rightarrow> sched" where
  "handler_lock v s = s\<lparr>locked := (locked s)(v := True), lock_was := (lock_was s)(v := True)\<rparr>"

definition handler_unlock :: "nat \<Rightarrow> sched \<Rightarrow> sched" where
  "handler_unlock v s = s\<lparr>locked := (locked s)(v := False)\<rparr>"

section \<open>threads.cc\<close>

definition schedule :: "nat \<Rightarrow> tid \<Rightarrow> sched \<Rightarrow> sched res" where
  "schedule n tcb s = (if \<not> is_idle n tcb then enqueue Ready tcb s else Inr s)"

text \<open>\<open>thread(work)\<close>: a new TCB on the ready queue; the flags on its stack have interrupts enabled.\<close>

definition spawn :: "nat \<Rightarrow> sched \<Rightarrow> sched res" where
  "spawn n s = schedule n (next_id s) (s\<lparr>next_id := next_id s + 1, if_off := (if_off s)(next_id s := False)\<rparr>)"

text \<open>One round of \<open>delete_zombies\<close>, and of the reaper's loop.\<close>

definition reap :: "sched \<Rightarrow> sched" where
  "reap s = (case dequeue Zombies s of (s', None) \<Rightarrow> s' | (s', Some t) \<Rightarrow> s'\<lparr>deleted := insert t (deleted s')\<rparr>)"

definition can_return :: "reason \<Rightarrow> bool" where
  "can_return r = (case r of Yielding \<Rightarrow> True | SemWait k \<Rightarrow> False | CondWait v e \<Rightarrow> True | Stopping \<Rightarrow> False)"

text \<open>\<open>block\<close> before its first look at the ready queue.\<close>

definition enter :: "core \<Rightarrow> reason \<Rightarrow> sched \<Rightarrow> sched \<times> event list" where
  "enter c r s =
     (let me = active s c
      in (s\<lparr>wants := (wants s)(c := Some r), entered := (entered s)(c := (c, me))\<rparr>, [Blocks me r (if_off s me)]))"

definition switch_to :: "core \<Rightarrow> core \<Rightarrow> tid \<Rightarrow> tid \<Rightarrow> reason \<Rightarrow> sched \<Rightarrow> sched" where
  "switch_to c core_id me t r s = s\<lparr>active := (active s)(core_id := t), wants := (wants s)(c := None),
     pending := (pending s)(c := Some (me, r))\<rparr>"

text \<open>
  One round of \<open>block\<close> on core \<open>c\<close> up to the handler. An idle core with nothing to run goes through the assertions and stays where it
  is, for another round; \<open>idleThreads[core_id]\<close> is the thread with that number.
\<close>

definition block :: "nat \<Rightarrow> core \<Rightarrow> reason \<Rightarrow> sched \<Rightarrow> sched res" where
  "block n c r s =
     (case entered s c of (core_id, me) \<Rightarrow>
      case dequeue Ready s of
        (s', None) \<Rightarrow>
          if can_return r then Inr (s'\<lparr>wants := (wants s')(c := None)\<rparr>)
          else if is_idle n me then
            bindE (ASSERT (core_id = c) ''core_id == SMP::me()'') (\<lambda>_.
            bindE (ASSERT (\<not> if_off s' (active s' c)) ''!Interrupts::isDisabled()'') (\<lambda>_.
            bindE (ASSERT (me = core_id) ''me == idleThreads[core_id]'') (\<lambda>_.
            bindE (ASSERT (me = active s' core_id) ''me == activeThreads[core_id]'') (\<lambda>_. Inr s'))))
          else Inr (switch_to c core_id me core_id r s')
      | (s', Some t) \<Rightarrow> Inr (switch_to c core_id me t r s'))"

section \<open>semaphore.h\<close>

definition sem_dec :: "nat \<Rightarrow> sched \<Rightarrow> sched" where
  "sem_dec k s = s\<lparr>sem_count := (sem_count s)(k := sem_count s k - 1)\<rparr>"

text \<open>\<open>down\<close> up to the call of \<open>block\<close>.\<close>

definition sem_down :: "nat \<Rightarrow> core \<Rightarrow> sched \<Rightarrow> sched \<times> event list" where
  "sem_down k c s =
     (if 0 < sem_count s k then (sem_dec k s, [Acquire k])
      else enter c (SemWait k) s)"

definition sem_wait_handler :: "nat \<Rightarrow> nat \<Rightarrow> tid \<Rightarrow> core \<Rightarrow> sched \<Rightarrow> (sched \<times> event list) res" where
  "sem_wait_handler n k me c s =
     bindE (ASSERT (\<not> is_idle n me) ''!me->isIdle'') (\<lambda>_.
     if 0 < sem_count s k then
       Inr ((sem_dec k s)\<lparr>hand := (hand s)(c := [me])\<rparr>, [Acquire k])
     else bindE (enqueue (SemQ k) me s) (\<lambda>s. Inr (s, [])))"

definition sem_up :: "nat \<Rightarrow> core \<Rightarrow> sched \<Rightarrow> sched \<times> event list" where
  "sem_up k c s =
     (case dequeue (SemQ k) s of
        (s', None) \<Rightarrow> (s'\<lparr>sem_count := (sem_count s')(k := sem_count s' k + 1)\<rparr>, [Up k])
      | (s', Some t) \<Rightarrow> (s'\<lparr>hand := (hand s')(c := [t])\<rparr>, [Up k, Acquire k]))"

section \<open>condition.h\<close>

text \<open>\<open>wait\<close> up to the call of \<open>block\<close>.\<close>

definition cond_wait :: "nat \<Rightarrow> core \<Rightarrow> sched \<Rightarrow> (sched \<times> event list) res" where
  "cond_wait v c s =
     bindE (ASSERT (locked s v) ''the_lock.isMine()'') (\<lambda>_.
     let old_epoch = epoch s v in Inr (enter c (CondWait v old_epoch) (drop_lock v c s)))"

definition cond_wait_handler :: "nat \<Rightarrow> nat \<Rightarrow> u64 \<Rightarrow> tid \<Rightarrow> core \<Rightarrow> sched \<Rightarrow> sched res" where
  "cond_wait_handler n v old me c s =
     bindE (ASSERT (\<not> is_idle n me) ''!me->isIdle'') (\<lambda>_.
     let s = handler_lock v s in
     bindE (ASSERT (old \<le> epoch s v) ''new_epoch >= old_epoch'') (\<lambda>_.
     if old = epoch s v then bindE (enqueue (CondQ v) me s) (\<lambda>s. Inr (handler_unlock v s))
     else Inr ((handler_unlock v s)\<lparr>hand := (hand s)(c := [me])\<rparr>)))"

fun notify_loop :: "nat \<Rightarrow> nat \<Rightarrow> nat \<Rightarrow> sched \<Rightarrow> sched res" where
  "notify_loop n v 0 s = Inr s"
| "notify_loop n v (Suc i) s =
     (case dequeue (CondQ v) s of
        (s', None) \<Rightarrow> Inr s'
      | (s', Some t) \<Rightarrow> bindE (schedule n t s') (notify_loop n v i))"

definition notify :: "nat \<Rightarrow> nat \<Rightarrow> u64 \<Rightarrow> sched \<Rightarrow> sched res" where
  "notify n v limit s =
     bindE (ASSERT (locked s v) ''the_lock.isMine()'') (\<lambda>_.
     bindE (notify_loop n v (unat limit) (s\<lparr>epoch := (epoch s)(v := epoch s v + 1)\<rparr>)) (\<lambda>s.
     bindE (ASSERT (locked s v) ''the_lock.isMine()'') (\<lambda>_. Inr s)))"

definition notifyOne :: "nat \<Rightarrow> nat \<Rightarrow> sched \<Rightarrow> sched res" where
  "notifyOne n v = notify n v 1"

definition notifyAll :: "nat \<Rightarrow> nat \<Rightarrow> sched \<Rightarrow> sched res" where
  "notifyAll n v = notify n v (NOT 0)"

section \<open>stop and yield\<close>

text \<open>The reaper's mutex and condition are number 0.\<close>

definition reaper_put :: "nat \<Rightarrow> tid \<Rightarrow> sched \<Rightarrow> sched res" where
  "reaper_put n t s =
     bindE (enqueue Zombies t (handler_lock 0 s)) (\<lambda>s.
     bindE (notifyOne n 0 s) (\<lambda>s. Inr (handler_unlock 0 s)))"

definition stop_handler :: "nat \<Rightarrow> tid \<Rightarrow> sched \<Rightarrow> sched res" where
  "stop_handler n me s = (if \<not> is_idle n me then reaper_put n me s else Inr s)"

text \<open>\<open>stop\<close> up to its first call of \<open>block\<close>, and what it does when \<open>block\<close> returns.\<close>

definition stop :: "core \<Rightarrow> sched \<Rightarrow> sched \<times> event list" where
  "stop c s = enter c Stopping (s\<lparr>stopping := insert (active s c) (stopping s)\<rparr>)"

definition stop_again :: "nat \<Rightarrow> core \<Rightarrow> sched \<Rightarrow> (sched \<times> event list) res" where
  "stop_again n c s = bindE (ASSERT (is_idle n (active s c)) ''current()->isIdle'') (\<lambda>_. Inr (fst (enter c Stopping s), []))"

definition yield_handler :: "nat \<Rightarrow> tid \<Rightarrow> sched \<Rightarrow> sched res" where
  "yield_handler n me s = schedule n me s"

section \<open>Steps\<close>

text \<open>The lock a handler takes must be free; otherwise the core spins.\<close>

definition handler_ready :: "reason \<Rightarrow> sched \<Rightarrow> bool" where
  "handler_ready r s = (case r of CondWait v e \<Rightarrow> \<not> locked s v | Stopping \<Rightarrow> \<not> locked s 0 | _ \<Rightarrow> True)"

definition handler :: "nat \<Rightarrow> reason \<Rightarrow> tid \<Rightarrow> core \<Rightarrow> sched \<Rightarrow> (sched \<times> event list) res" where
  "handler n r me c s =
     (case r of
        Yielding \<Rightarrow> bindE (yield_handler n me s) (\<lambda>s. Inr (s, []))
      | SemWait k \<Rightarrow> sem_wait_handler n k me c s
      | CondWait v e \<Rightarrow> bindE (cond_wait_handler n v e me c s) (\<lambda>s. Inr (s, []))
      | Stopping \<Rightarrow> bindE (stop_handler n me s) (\<lambda>s. Inr (s, [])))"

definition runs :: "sched \<Rightarrow> core \<Rightarrow> bool" where
  "runs s c \<longleftrightarrow> wants s c = None \<and> pending s c = None \<and> hand s c = []"

text \<open>A thread in \<open>stop\<close> calls nothing else.\<close>

definition calls :: "sched \<Rightarrow> core \<Rightarrow> bool" where
  "calls s c \<longleftrightarrow> runs s c \<and> active s c \<notin> stopping s"

text \<open>
  What a core can do next, with the result. Any thread, idle or not, may call any operation, with or without a lock; the timer makes a thread call
  \<open>yield\<close>. \<open>sti\<close> is what \<open>kernelInit\<close> does before it goes to \<open>stop\<close>.
\<close>

inductive does :: "nat \<Rightarrow> core \<Rightarrow> sched \<Rightarrow> (sched \<times> event list) res \<Rightarrow> bool" for n c s where
  spawn: "calls s c \<Longrightarrow> does n c s (bindE (spawn n s) (\<lambda>s. Inr (s, [])))"
| reap: "calls s c \<Longrightarrow> does n c s (Inr (reap s, []))"
| sti: "calls s c \<Longrightarrow> does n c s (Inr (s\<lparr>if_off := (if_off s)(active s c := False)\<rparr>, []))"
| yield: "calls s c \<Longrightarrow> does n c s (Inr (enter c Yielding s))"
| stop: "calls s c \<Longrightarrow> does n c s (Inr (stop c s))"
| down: "calls s c \<Longrightarrow> does n c s (Inr (sem_down k c s))"
| up: "calls s c \<Longrightarrow> does n c s (Inr (sem_up k c s))"
| lock: "calls s c \<Longrightarrow> \<not> locked s v \<Longrightarrow> does n c s (Inr (take_lock v c s, []))"
| unlock: "calls s c \<Longrightarrow> does n c s (Inr (drop_lock v c s, []))"
| wait: "calls s c \<Longrightarrow> does n c s (cond_wait v c s)"
| notify: "calls s c \<Longrightarrow> does n c s (bindE (notify n v limit s) (\<lambda>s. Inr (s, [])))"
| again: "runs s c \<Longrightarrow> active s c \<in> stopping s \<Longrightarrow> does n c s (stop_again n c s)"
| switch: "wants s c = Some r \<Longrightarrow> does n c s (bindE (block n c r s) (\<lambda>s. Inr (s, [])))"
| handle: "pending s c = Some (me, r) \<Longrightarrow> handler_ready r s \<Longrightarrow>
    does n c s (handler n r me c (s\<lparr>pending := (pending s)(c := None)\<rparr>))"
| ready: "pending s c = None \<Longrightarrow> hand s c = t # ts \<Longrightarrow>
    does n c s (bindE (schedule n t (s\<lparr>hand := (hand s)(c := ts)\<rparr>)) (\<lambda>s. Inr (s, [])))"

inductive_cases doesE: "does n c s r"

text \<open>
  A run with its events. An epoch counts notifications in 64 bits; a run is cut off
  before one wraps.
\<close>

definition epochs_ok :: "sched \<Rightarrow> bool" where
  "epochs_ok s \<longleftrightarrow> (\<forall>v. epoch s v \<noteq> NOT 0)"

inductive run :: "nat \<Rightarrow> sched \<Rightarrow> event list \<Rightarrow> sched \<Rightarrow> bool" for n s0 where
  start: "run n s0 [] s0"
| step: "run n s0 es s \<Longrightarrow> epochs_ok s \<Longrightarrow> c < n \<Longrightarrow> does n c s (Inr (s', es')) \<Longrightarrow> run n s0 (es @ es') s'"

text \<open>
  What \<open>kernelInit\<close>, which runs on the idle threads, does (\<open>init.cc\<close>, 115-166): after \<open>threadsInit\<close> it never has to wait for a semaphore or
  a condition, and it comes to \<open>stop\<close> with interrupts enabled, by the \<open>sti()\<close> of line 157. It may call \<open>down\<close>: \<open>thread\<close> and the allocations go through the
  heap's \<open>BlockingLock\<close>. What is excluded is that the count is 0 there; in the code only the last core calls \<open>thread\<close> (line 161), and the one other thread
  there is then, the reaper, has nothing to delete.
\<close>

definition idle_code :: "nat \<Rightarrow> event list \<Rightarrow> bool" where
  "idle_code n es \<longleftrightarrow> (\<forall>e\<in>set es. case e of Blocks t r d \<Rightarrow>
     is_idle n t \<longrightarrow> (case r of SemWait k \<Rightarrow> False | CondWait v e \<Rightarrow> False | Stopping \<Rightarrow> \<not> d | Yielding \<Rightarrow> True) | _ \<Rightarrow> True)"

text \<open>The state after \<open>threadsInit\<close>, before the reaper is created. The idle threads still have interrupts disabled.\<close>

definition threadsInit :: "nat \<Rightarrow> (nat \<Rightarrow> u64) \<Rightarrow> sched" where
  "threadsInit n counts = \<lparr>qs = (\<lambda>_. None, \<lambda>_. empty_q), active = (\<lambda>c. c), wants = (\<lambda>_. None),
     pending = (\<lambda>_. None), hand = (\<lambda>_. []), sem_count = counts, epoch = (\<lambda>_. 0), locked = (\<lambda>_. False),
     next_id = n, deleted = {}, entered = (\<lambda>c. (c, c)), stopping = {}, if_off = (\<lambda>t. t < n), lock_was = (\<lambda>_. False)\<rparr>"

end
