(* ===== verification/Threads_Inv.thy ===== *)
theory Threads_Inv
  imports Threads
begin

text \<open>
  Where threads are: every thread that is not deleted is in exactly one place, a queue, a core, or
  on its way between two.
\<close>

section \<open>Places\<close>

datatype place = Q qname | Act core | Pend core | Hand core

fun at :: "nat \<Rightarrow> sched \<Rightarrow> (qname \<Rightarrow> tid list) \<Rightarrow> place \<Rightarrow> tid list" where
  "at n s C (Q q) = C q"
| "at n s C (Act c) = (if c < n then [active s c] else [])"
| "at n s C (Pend c) = (case pending s c of None \<Rightarrow> [] | Some (t, r) \<Rightarrow> [t])"
| "at n s C (Hand c) = hand s c"

text \<open>Threads \<open>0..<n\<close> are idle, \<open>nid\<close> is the next to be created and \<open>del\<close> are the deleted ones.\<close>

definition placed :: "nat \<Rightarrow> tid \<Rightarrow> tid set \<Rightarrow> (place \<Rightarrow> tid list) \<Rightarrow> bool" where
  "placed n nid del f \<longleftrightarrow> apart f \<and>
     (\<forall>p t. t \<in> set (f p) \<longrightarrow> t < nid \<and> t \<notin> del \<and> (t < n \<longrightarrow> p = Act t \<or> p = Pend t)) \<and>
     (\<forall>t. n \<le> t \<longrightarrow> t < nid \<longrightarrow> t \<notin> del \<longrightarrow> (\<exists>p. t \<in> set (f p))) \<and> n \<le> nid \<and> (\<forall>t\<in>del. n \<le> t \<and> t < nid)"

lemma placedI:
  assumes "apart f" "n \<le> nid" "\<And>t. t \<in> del \<Longrightarrow> n \<le> t \<and> t < nid"
    and "\<And>p t. t \<in> set (f p) \<Longrightarrow> t < nid \<and> t \<notin> del \<and> (t < n \<longrightarrow> p = Act t \<or> p = Pend t)"
    and "\<And>t. n \<le> t \<Longrightarrow> t < nid \<Longrightarrow> t \<notin> del \<Longrightarrow> \<exists>p. t \<in> set (f p)"
  shows "placed n nid del f"
  using assms by (simp add: placed_def)

lemma placedD:
  assumes "placed n nid del f"
  shows "apart f" "n \<le> nid" "t \<in> del \<Longrightarrow> n \<le> t \<and> t < nid"
    "t \<in> set (f p) \<Longrightarrow> t < nid \<and> t \<notin> del \<and> (t < n \<longrightarrow> p = Act t \<or> p = Pend t)"
    "n \<le> t \<Longrightarrow> t < nid \<Longrightarrow> t \<notin> del \<Longrightarrow> \<exists>p. t \<in> set (f p)"
  using assms by (simp_all add: placed_def)

lemma apart_snoc:
  assumes "apart C" "\<And>r. x \<notin> set (C r)"
  shows "apart (C(q := C q @ [x]))"
  using assms by (auto simp: apart_def)

lemma placed_move:
  assumes p: "placed n nid del f" and x: "f p = x # xs" and ne: "p \<noteq> p'"
    and ok: "n \<le> x \<or> p' = Act x \<or> p' = Pend x"
  shows "placed n nid del (f(p := xs, p' := f p' @ [x]))"
proof (rule placedI)
  let ?f = "f(p := xs, p' := f p' @ [x])"
  note t = apart_tail [OF placedD(1) [OF p] x]
  have e: "(f(p := xs))(p' := (f(p := xs)) p' @ [x]) = ?f" using ne by simp
  show "apart ?f" using apart_snoc [OF t, of p'] unfolding e .
  have xin: "x \<in> set (f p)" using x by simp
  show "n \<le> nid" by (rule placedD(2) [OF p])
  show "\<And>t. t \<in> del \<Longrightarrow> n \<le> t \<and> t < nid" by (rule placedD(3) [OF p])
  fix r u
  assume "u \<in> set (?f r)"
  then consider "u \<in> set (f r)" | "u = x" "r = p'" using x by (auto split: if_splits)
  then show "u < nid \<and> u \<notin> del \<and> (u < n \<longrightarrow> r = Act u \<or> r = Pend u)"
    using placedD(4) [OF p, of u r] placedD(4) [OF p xin] ok by cases auto
next
  fix u
  assume "n \<le> u" "u < nid" "u \<notin> del"
  then obtain r where r: "u \<in> set (f r)" using placedD(5) [OF p] by blast
  show "\<exists>r. u \<in> set ((f(p := xs, p' := f p' @ [x])) r)"
  proof (cases "u = x")
    case True
    then have "u \<in> set ((f(p := xs, p' := f p' @ [x])) p')" by simp
    then show ?thesis by blast
  next
    case False
    then have "u \<in> set ((f(p := xs, p' := f p' @ [x])) r)" using r x ne by (auto split: if_splits)
    then show ?thesis by blast
  qed
qed

lemma placed_delete:
  assumes p: "placed n nid del f" and x: "f p = x # xs" and ok: "n \<le> x"
  shows "placed n nid (insert x del) (f(p := xs))"
proof (rule placedI)
  note t = apart_tail [OF placedD(1) [OF p] x]
  show "apart (f(p := xs))" by (rule t(1))
  have xin: "x \<in> set (f p)" using x by simp
  show "n \<le> nid" by (rule placedD(2) [OF p])
  show "\<And>t. t \<in> insert x del \<Longrightarrow> n \<le> t \<and> t < nid"
    using placedD(3) [OF p] placedD(4) [OF p xin] ok by auto
  fix r u
  assume u: "u \<in> set ((f(p := xs)) r)"
  then have "u \<in> set (f r)" using x by (auto split: if_splits)
  moreover have "u \<noteq> x" using t(2) u by blast
  ultimately show "u < nid \<and> u \<notin> insert x del \<and> (u < n \<longrightarrow> r = Act u \<or> r = Pend u)"
    using placedD(4) [OF p, of u r] by auto
next
  fix u
  assume u: "n \<le> u" "u < nid" "u \<notin> insert x del"
  then obtain r where r: "u \<in> set (f r)" using placedD(5) [OF p] by blast
  then have "u \<in> set ((f(p := xs)) r)" using u(3) x by (auto split: if_splits)
  then show "\<exists>r. u \<in> set ((f(p := xs)) r)" by blast
qed

lemma placed_new:
  assumes p: "placed n nid del f"
  shows "placed n (Suc nid) del (f(Q q := f (Q q) @ [nid]))"
proof (rule placedI)
  have nn: "nid \<notin> set (f r)" for r using placedD(4) [OF p, of nid r] by auto
  show "apart (f(Q q := f (Q q) @ [nid]))" by (rule apart_snoc [OF placedD(1) [OF p] nn])
  show "n \<le> Suc nid" using placedD(2) [OF p] by simp
  show "\<And>t. t \<in> del \<Longrightarrow> n \<le> t \<and> t < Suc nid" using placedD(3) [OF p] less_SucI by blast
  fix r u
  assume "u \<in> set ((f(Q q := f (Q q) @ [nid])) r)"
  then consider "u \<in> set (f r)" | "u = nid" by (auto split: if_splits)
  then show "u < Suc nid \<and> u \<notin> del \<and> (u < n \<longrightarrow> r = Act u \<or> r = Pend u)"
    using placedD(4) [OF p, of u r] placedD(2) [OF p] placedD(3) [OF p, of u] by cases auto
next
  fix u
  assume u: "n \<le> u" "u < Suc nid" "u \<notin> del"
  show "\<exists>r. u \<in> set ((f(Q q := f (Q q) @ [nid])) r)"
  proof (cases "u = nid")
    case True
    then have "u \<in> set ((f(Q q := f (Q q) @ [nid])) (Q q))" by simp
    then show ?thesis by blast
  next
    case False
    then obtain r where "u \<in> set (f r)" using placedD(5) [OF p, of u] u by auto
    then have "u \<in> set ((f(Q q := f (Q q) @ [nid])) r)" by auto
    then show ?thesis by blast
  qed
qed

text \<open>The idle thread of a core starts to run when the core's thread blocks.\<close>

lemma placed_idle:
  assumes p: "placed n nid del f" and c: "c < n" and x: "f (Act c) = []" and y: "c \<notin> set (f (Pend c))"
  shows "placed n nid del (f(Act c := [c]))"
proof (rule placedI)
  have nn: "c \<notin> set (f r)" for r
    using placedD(4) [OF p, of c r] c x y by (cases "r = Act c"; cases "r = Pend c") auto
  have e: "f(Act c := f (Act c) @ [c]) = f(Act c := [c])" using x by simp
  show "apart (f(Act c := [c]))" using apart_snoc [OF placedD(1) [OF p] nn, of "Act c"] unfolding e .
  show "n \<le> nid" by (rule placedD(2) [OF p])
  show "\<And>t. t \<in> del \<Longrightarrow> n \<le> t \<and> t < nid" by (rule placedD(3) [OF p])
  fix r u
  assume "u \<in> set ((f(Act c := [c])) r)"
  then consider "u \<in> set (f r)" | "u = c" "r = Act c" by (auto split: if_splits)
  then show "u < nid \<and> u \<notin> del \<and> (u < n \<longrightarrow> r = Act u \<or> r = Pend u)"
    using placedD(4) [OF p, of u r] placedD(2) [OF p] placedD(3) [OF p, of u] c by cases auto
next
  fix u
  assume "n \<le> u" "u < nid" "u \<notin> del"
  then obtain r where r: "u \<in> set (f r)" using placedD(5) [OF p] by blast
  then have "u \<in> set ((f(Act c := [c])) r)" using x by auto
  then show "\<exists>r. u \<in> set ((f(Act c := [c])) r)" by blast
qed

section \<open>The invariant\<close>

definition waits :: "reason \<Rightarrow> bool" where
  "waits r = (case r of SemWait k \<Rightarrow> True | CondWait v e \<Rightarrow> True | _ \<Rightarrow> False)"

definition old_ok :: "sched \<Rightarrow> reason \<Rightarrow> bool" where
  "old_ok s r = (case r of CondWait v e \<Rightarrow> e \<le> epoch s v | _ \<Rightarrow> True)"

definition inv :: "nat \<Rightarrow> (qname \<Rightarrow> tid list) \<Rightarrow> sched \<Rightarrow> bool" where
  "inv n C s \<longleftrightarrow> qs_repr C (qs s) \<and> placed n (next_id s) (deleted s) (at n s C) \<and>
     (\<forall>k. C (SemQ k) \<noteq> [] \<longrightarrow> sem_count s k = 0) \<and>
     (\<forall>c r. wants s c = Some r \<longrightarrow> c < n \<and> pending s c = None \<and> hand s c = [] \<and> entered s c = (c, active s c) \<and> old_ok s r) \<and>
     (\<forall>c t r. pending s c = Some (t, r) \<longrightarrow> hand s c = [] \<and> old_ok s r)"

text \<open>
  A thread that is not idle and has called \<open>stop\<close> does not come back: it is about to block for that, or its handler is to run, or it is a zombie,
  or deleted.
\<close>

definition halted :: "nat \<Rightarrow> (qname \<Rightarrow> tid list) \<Rightarrow> sched \<Rightarrow> bool" where
  "halted n C s \<longleftrightarrow> (\<forall>t\<in>stopping s. n \<le> t \<longrightarrow> t < next_id s \<and> (\<forall>q. q \<noteq> Zombies \<longrightarrow> t \<notin> set (C q)) \<and> (\<forall>c. t \<notin> set (hand s c)) \<and>
     (\<forall>c < n. active s c = t \<longrightarrow> wants s c = Some Stopping) \<and> (\<forall>c r. pending s c = Some (t, r) \<longrightarrow> r = Stopping))"

lemma inv_enqueue:
  assumes r: "qs_repr C (qs s)" and new: "\<And>q. t \<notin> set (C q)"
  shows "\<exists>v. enqueue q t s = Inr (s\<lparr>qs := v\<rparr>) \<and> qs_repr (C(q := C q @ [t])) v"
proof -
  obtain v where "qs_add q t (qs s) = Inr v" "qs_repr (C(q := C q @ [t])) v"
    using kq.add_appends [OF r new, of q] by blast
  then show ?thesis by (intro exI [of _ v]) (simp add: enqueue_def)
qed

lemma inv_dequeue:
  assumes r: "qs_repr C (qs s)"
  shows "C q = [] \<Longrightarrow> dequeue q s = (s, None)"
    "C q = t # ts \<Longrightarrow> \<exists>v. dequeue q s = (s\<lparr>qs := v\<rparr>, Some t) \<and> qs_repr (C(q := ts)) v"
proof -
  show "C q = [] \<Longrightarrow> dequeue q s = (s, None)"
    using kq.remove_none [OF r, of q] by (simp add: dequeue_def)
  assume "C q = t # ts"
  then obtain v where "qs_remove q (qs s) = (v, Some t)" "qs_repr (C(q := ts)) v"
    using kq.remove_first [OF r] by blast
  then show "\<exists>v. dequeue q s = (s\<lparr>qs := v\<rparr>, Some t) \<and> qs_repr (C(q := ts)) v"
    by (intro exI [of _ v]) (simp add: dequeue_def)
qed

lemma placed_idle_queue: "placed n nid del f \<Longrightarrow> t \<in> set (f (Q q)) \<Longrightarrow> n \<le> t"
  using placedD(4) [of n nid del f t "Q q"] by (cases "t < n") auto

lemma placed_idle_hand: "placed n nid del f \<Longrightarrow> t \<in> set (f (Hand c)) \<Longrightarrow> n \<le> t"
  using placedD(4) [of n nid del f t "Hand c"] by (cases "t < n") auto

lemma placed_other: "placed n nid del f \<Longrightarrow> t \<in> set (f p) \<Longrightarrow> p \<noteq> p' \<Longrightarrow> t \<notin> set (f p')"
  using apart_disj [OF placedD(1)] by blast

end
