(* ===== verification/Threads_Steps.thy ===== *)
theory Threads_Steps
  imports Threads_Inv
begin

text \<open>
  Every step of a core keeps the invariant of \<open>Threads_Inv\<close> and none panics.
\<close>

section \<open>Using the invariant\<close>

lemma invD:
  assumes "inv n C s"
  shows "qs_repr C (qs s)" "placed n (next_id s) (deleted s) (at n s C)"
    "C (SemQ k) \<noteq> [] \<Longrightarrow> sem_count s k = 0"
    "wants s c = Some r \<Longrightarrow> c < n \<and> pending s c = None \<and> hand s c = [] \<and> entered s c = (c, active s c) \<and> old_ok s r"
    "pending s c = Some (t, r) \<Longrightarrow> hand s c = [] \<and> old_ok s r"
  using assms by (auto simp: inv_def)

lemma invI:
  assumes "qs_repr C (qs s)" "placed n (next_id s) (deleted s) (at n s C)"
    "\<And>k. C (SemQ k) \<noteq> [] \<Longrightarrow> sem_count s k = 0"
    "\<And>c r. wants s c = Some r \<Longrightarrow> c < n \<and> pending s c = None \<and> hand s c = [] \<and> entered s c = (c, active s c) \<and> old_ok s r"
    "\<And>c t r. pending s c = Some (t, r) \<Longrightarrow> hand s c = [] \<and> old_ok s r"
  shows "inv n C s"
  using assms by (auto simp: inv_def)

lemma unat_Suc_max: "x \<noteq> - 1 \<Longrightarrow> unat ((x :: u64) + 1) = Suc (unat x)"
  using unatSuc [of x] by (metis add.commute add_diff_cancel_left' diff_0)

text \<open>Changes outside the queues and places.\<close>

lemma old_ok_simps [simp]:
  "old_ok (s\<lparr>qs := v\<rparr>) r = old_ok s r"
  "old_ok (s\<lparr>active := f1\<rparr>) r = old_ok s r"
  "old_ok (s\<lparr>wants := f2\<rparr>) r = old_ok s r"
  "old_ok (s\<lparr>pending := f3\<rparr>) r = old_ok s r"
  "old_ok (s\<lparr>hand := f4\<rparr>) r = old_ok s r"
  "old_ok (s\<lparr>sem_count := f5\<rparr>) r = old_ok s r"
  "old_ok (s\<lparr>locked := f6\<rparr>) r = old_ok s r"
  "old_ok (s\<lparr>next_id := f7\<rparr>) r = old_ok s r"
  "old_ok (s\<lparr>deleted := f8\<rparr>) r = old_ok s r"
  "old_ok (s\<lparr>entered := f9\<rparr>) r = old_ok s r"
  "old_ok (s\<lparr>stopping := f10\<rparr>) r = old_ok s r"
  "old_ok (s\<lparr>if_off := f11\<rparr>) r = old_ok s r"
  "old_ok (s\<lparr>lock_was := f12\<rparr>) r = old_ok s r"
  by (cases r; simp add: old_ok_def)+

lemma at_cong:
  "active s' = active s \<Longrightarrow> pending s' = pending s \<Longrightarrow> hand s' = hand s \<Longrightarrow> at n s' C = at n s C"
proof
  fix p
  assume "active s' = active s" "pending s' = pending s" "hand s' = hand s"
  then show "at n s' C p = at n s C p" by (cases p) simp_all
qed

text \<open>Locks, flags and \<open>stopping\<close> do not say where a thread is.\<close>

lemma inv_flags:
  "inv n C (s\<lparr>locked := l\<rparr>) = inv n C s" "inv n C (s\<lparr>if_off := f\<rparr>) = inv n C s" "inv n C (s\<lparr>lock_was := w\<rparr>) = inv n C s"
  "inv n C (s\<lparr>stopping := S\<rparr>) = inv n C s"
  using at_cong [of "s\<lparr>locked := l\<rparr>" s n C] at_cong [of "s\<lparr>if_off := f\<rparr>" s n C] at_cong [of "s\<lparr>lock_was := w\<rparr>" s n C]
    at_cong [of "s\<lparr>stopping := S\<rparr>" s n C]
  by (simp_all add: inv_def)

lemma halted_flags:
  "halted n C (s\<lparr>locked := l\<rparr>) = halted n C s" "halted n C (s\<lparr>if_off := f\<rparr>) = halted n C s" "halted n C (s\<lparr>lock_was := w\<rparr>) = halted n C s"
  "halted n C (s\<lparr>sem_count := k\<rparr>) = halted n C s" "halted n C (s\<lparr>epoch := e\<rparr>) = halted n C s" "halted n C (s\<lparr>qs := v\<rparr>) = halted n C s"
  "halted n C (s\<lparr>entered := x\<rparr>) = halted n C s"
  by (simp_all add: halted_def)

lemma lock_flags [simp]:
  "inv n C (take_lock v c s) = inv n C s" "inv n C (drop_lock v c s) = inv n C s"
  "halted n C (take_lock v c s) = halted n C s" "halted n C (drop_lock v c s) = halted n C s"
  "inv n C (handler_lock v s) = inv n C s" "inv n C (handler_unlock v s) = inv n C s"
  "halted n C (handler_lock v s) = halted n C s" "halted n C (handler_unlock v s) = halted n C s"
  by (simp_all add: take_lock_def drop_lock_def handler_lock_def handler_unlock_def Let_def inv_flags halted_flags)

lemma haltedD:
  assumes "halted n C s" "t \<in> stopping s" "n \<le> t"
  shows "t < next_id s" "q \<noteq> Zombies \<Longrightarrow> t \<notin> set (C q)" "t \<notin> set (hand s c)" "c < n \<Longrightarrow> active s c = t \<Longrightarrow> wants s c = Some Stopping"
    "pending s c = Some (t, r) \<Longrightarrow> r = Stopping"
  using bspec [OF assms(1) [unfolded halted_def] assms(2), rule_format, OF assms(3)] by blast+

lemma haltedI:
  assumes "\<And>t. t \<in> stopping s \<Longrightarrow> n \<le> t \<Longrightarrow> t < next_id s"
    and "\<And>t q. t \<in> stopping s \<Longrightarrow> n \<le> t \<Longrightarrow> q \<noteq> Zombies \<Longrightarrow> t \<notin> set (C q)"
    and "\<And>t c. t \<in> stopping s \<Longrightarrow> n \<le> t \<Longrightarrow> t \<notin> set (hand s c)"
    and "\<And>t c. t \<in> stopping s \<Longrightarrow> n \<le> t \<Longrightarrow> c < n \<Longrightarrow> active s c = t \<Longrightarrow> wants s c = Some Stopping"
    and "\<And>t c r. t \<in> stopping s \<Longrightarrow> n \<le> t \<Longrightarrow> pending s c = Some (t, r) \<Longrightarrow> r = Stopping"
  shows "halted n C s"
  unfolding halted_def by (intro ballI impI conjI allI) (rule assms; assumption)+

text \<open>A thread that may move: one that is not in \<open>stop\<close>, or idle.\<close>

abbreviation moves :: "nat \<Rightarrow> sched \<Rightarrow> tid \<Rightarrow> bool" where
  "moves n s t \<equiv> t \<in> stopping s \<longrightarrow> t < n"

lemma halted_leave: "halted n C s \<Longrightarrow> C q = t # ts \<Longrightarrow> halted n (C(q := ts)) s"
  by (rule haltedI) (auto dest: haltedD split: if_splits)

lemma halted_join: "halted n C s \<Longrightarrow> q = Zombies \<or> moves n s t \<Longrightarrow> halted n (C(q := C q @ [t])) s"
  by (rule haltedI) (auto dest: haltedD split: if_splits)

lemma halted_queue: "halted n C s \<Longrightarrow> t \<in> set (C q) \<Longrightarrow> q \<noteq> Zombies \<Longrightarrow> moves n s t"
  by (metis haltedD(2) not_le)

lemma halted_pending: "halted n C s \<Longrightarrow> pending s c = Some (t, r) \<Longrightarrow> r \<noteq> Stopping \<Longrightarrow> moves n s t"
  by (metis haltedD(5) not_le)

lemma halted_inhand: "halted n C s \<Longrightarrow> t \<in> set (hand s c) \<Longrightarrow> moves n s t"
  by (metis haltedD(3) not_le)

lemma halted_drop: "halted n C s \<Longrightarrow> halted n C (s\<lparr>pending := (pending s)(c := None)\<rparr>)"
  by (rule haltedI) (auto dest: haltedD split: if_splits)

lemma halted_hand: "halted n C s \<Longrightarrow> set ts \<subseteq> {t. moves n s t} \<Longrightarrow> halted n C (s\<lparr>hand := (hand s)(c := ts)\<rparr>)"
  by (rule haltedI) (auto dest: haltedD split: if_splits)

lemma inv_count:
  assumes "inv n C s" "C (SemQ k) = []"
  shows "inv n C (s\<lparr>sem_count := (sem_count s)(k := v)\<rparr>)"
  using assms at_cong [of "s\<lparr>sem_count := (sem_count s)(k := v)\<rparr>" s n C] by (simp add: inv_def)

lemma inv_wants_none: "inv n C s \<Longrightarrow> inv n C (s\<lparr>wants := (wants s)(c := None)\<rparr>)"
  using at_cong [of "s\<lparr>wants := (wants s)(c := None)\<rparr>" s n C] by (auto simp: inv_def)

lemma inv_enter:
  assumes "inv n C s" "c < n" "runs s c" "old_ok s r"
  shows "inv n C (fst (enter c r s))"
proof -
  let ?s = "fst (enter c r s)"
  have e: "?s = s\<lparr>wants := (wants s)(c := Some r), entered := (entered s)(c := (c, active s c))\<rparr>" by (simp add: enter_def Let_def)
  have "at n ?s C = at n s C" by (rule at_cong) (simp_all add: e)
  then show ?thesis using assms unfolding e by (auto simp: inv_def runs_def)
qed

lemma halted_enter:
  assumes "halted n C s" "wants s c = None" "moves n s (active s c) \<or> r = Stopping"
  shows "halted n C (fst (enter c r s))"
proof -
  have e: "fst (enter c r s) = s\<lparr>wants := (wants s)(c := Some r), entered := (entered s)(c := (c, active s c))\<rparr>"
    by (simp add: enter_def Let_def)
  show ?thesis unfolding e using assms(2,3) by (intro haltedI) (auto dest: haltedD [OF assms(1)] split: if_splits)
qed

lemma word_le_Suc: "(e :: u64) \<le> x \<Longrightarrow> x \<noteq> NOT 0 \<Longrightarrow> e < x + 1"
  by (rule le_less_trans [of e x]) (simp_all add: word_less_nat_alt unat_Suc_max)

lemma old_ok_epoch:
  "old_ok s r \<Longrightarrow> epoch s v \<noteq> NOT 0 \<Longrightarrow> old_ok (s\<lparr>epoch := (epoch s)(v := epoch s v + 1)\<rparr>) r"
  using word_le_Suc [of _ "epoch s v"] by (auto simp: old_ok_def less_imp_le split: reason.splits)

lemma inv_epoch:
  assumes "inv n C s" "epoch s v \<noteq> NOT 0"
  shows "inv n C (s\<lparr>epoch := (epoch s)(v := epoch s v + 1)\<rparr>)"
  using assms old_ok_epoch [of s _ v] at_cong [of "s\<lparr>epoch := (epoch s)(v := epoch s v + 1)\<rparr>" s n C]
  by (auto simp: inv_def)

section \<open>Moving a thread\<close>

text \<open>From a queue to the ready queue.\<close>

lemma inv_transfer:
  assumes i: "inv n C s" and q: "C q = t # ts" and ne: "q \<noteq> Ready"
  shows "\<exists>v w. dequeue q s = (s\<lparr>qs := v\<rparr>, Some t) \<and> schedule n t (s\<lparr>qs := v\<rparr>) = Inr (s\<lparr>qs := w\<rparr>) \<and>
    inv n (C(q := ts, Ready := C Ready @ [t])) (s\<lparr>qs := w\<rparr>)"
proof -
  note p = invD(2) [OF i]
  have t: "n \<le> t" using placed_idle_queue [OF p, of t q] q by simp
  obtain v where v: "dequeue q s = (s\<lparr>qs := v\<rparr>, Some t)" "qs_repr (C(q := ts)) v"
    using inv_dequeue(2) [OF invD(1) [OF i] q] by blast
  have r: "qs_repr (C(q := ts)) (qs (s\<lparr>qs := v\<rparr>))" using v(2) by simp
  have new: "t \<notin> set ((C(q := ts)) q')" for q' by (rule kq.removed_apart [OF invD(1) [OF i] q])
  obtain w where w: "enqueue Ready t (s\<lparr>qs := v\<rparr>) = Inr (s\<lparr>qs := v\<rparr>\<lparr>qs := w\<rparr>)"
    "qs_repr ((C(q := ts))(Ready := (C(q := ts)) Ready @ [t])) w"
    using inv_enqueue [OF r new, of Ready] by blast
  have w2: "qs_repr (C(q := ts, Ready := C Ready @ [t])) w" using w(2) ne by simp
  have "at n (s\<lparr>qs := w\<rparr>) (C(q := ts, Ready := C Ready @ [t])) =
      (at n s C)(Q q := ts, Q Ready := at n s C (Q Ready) @ [t])" (is "?l = ?r")
  proof
    show "?l p = ?r p" for p by (cases p) auto
  qed
  moreover have "placed n (next_id s) (deleted s) ?r"
    by (rule placed_move [OF p]) (use q ne t in simp_all)
  ultimately have "inv n (C(q := ts, Ready := C Ready @ [t])) (s\<lparr>qs := w\<rparr>)"
    using i w2 q by (auto simp: inv_def split: if_splits)
  then show ?thesis using v(1) w(1) t
    by (intro exI [of _ v] exI [of _ w]) (simp add: schedule_def is_idle_def)
qed

text \<open>From a queue into the hand of a core.\<close>

lemma inv_take:
  assumes i: "inv n C s" and q: "C q = t # ts" and c: "runs s c"
  shows "\<exists>v. dequeue q s = (s\<lparr>qs := v\<rparr>, Some t) \<and> inv n (C(q := ts)) (s\<lparr>qs := v, hand := (hand s)(c := [t])\<rparr>)"
proof -
  note p = invD(2) [OF i]
  have t: "n \<le> t" using placed_idle_queue [OF p, of t q] q by simp
  obtain v where v: "dequeue q s = (s\<lparr>qs := v\<rparr>, Some t)" "qs_repr (C(q := ts)) v"
    using inv_dequeue(2) [OF invD(1) [OF i] q] by blast
  have "at n (s\<lparr>qs := v, hand := (hand s)(c := [t])\<rparr>) (C(q := ts)) =
      (at n s C)(Q q := ts, Hand c := at n s C (Hand c) @ [t])" (is "?l = ?r")
  proof
    show "?l p = ?r p" for p using c by (cases p) (auto simp: runs_def)
  qed
  moreover have "placed n (next_id s) (deleted s) ?r"
    by (rule placed_move [OF p]) (use q t in simp_all)
  ultimately have "inv n (C(q := ts)) (s\<lparr>qs := v, hand := (hand s)(c := [t])\<rparr>)"
    using i v(2) q c by (auto simp: inv_def runs_def split: if_splits)
  then show ?thesis using v(1) by blast
qed

text \<open>From a core's hand, or from the stack of the handler, to a queue.\<close>

lemma inv_put:
  assumes i: "inv n C s" and x: "at n s C p = t # ts" and p: "p = Hand c \<or> p = Pend c" and t: "n \<le> t"
    and s1: "s1 = s\<lparr>pending := pe, hand := ha\<rparr>" and pe: "\<And>d. pe d = (if p = Pend d then None else pending s d)"
    and ha: "\<And>d. ha d = (if p = Hand d then ts else hand s d)" and k: "\<And>k. q = SemQ k \<Longrightarrow> sem_count s k = 0"
  shows "\<exists>v. enqueue q t s1 = Inr (s1\<lparr>qs := v\<rparr>) \<and> inv n (C(q := C q @ [t])) (s1\<lparr>qs := v\<rparr>)"
proof -
  note pl = invD(2) [OF i]
  have new: "t \<notin> set (C r)" for r
    using placed_other [OF pl, of t p "Q r"] x p by auto
  have r1: "qs_repr C (qs s1)" using invD(1) [OF i] s1 by simp
  obtain v where v: "enqueue q t s1 = Inr (s1\<lparr>qs := v\<rparr>)" "qs_repr (C(q := C q @ [t])) v"
    using inv_enqueue [OF r1 new, of q] by blast
  have ts: "p = Pend d \<Longrightarrow> ts = []" for d using x by (auto split: option.splits)
  have "at n (s1\<lparr>qs := v\<rparr>) (C(q := C q @ [t])) = (at n s C)(p := ts, Q q := at n s C (Q q) @ [t])" (is "?l = ?r")
  proof
    show "?l z = ?r z" for z using p ts by (cases z) (auto simp: s1 pe ha)
  qed
  moreover have "placed n (next_id s) (deleted s) ?r"
    by (rule placed_move [OF pl x]) (use p t in auto)
  ultimately have P: "placed n (next_id s) (deleted s) (at n (s1\<lparr>qs := v\<rparr>) (C(q := C q @ [t])))" by simp
  have h: "ha d = []" if "hand s d = []" for d using that ha p x by (auto split: if_splits)
  have n: "pe d = None" if "pending s d = None" for d using that pe by simp
  have o: "pending s d = Some z" if "pe d = Some z" for d z using that pe by (simp split: if_splits)
  have "inv n (C(q := C q @ [t])) (s1\<lparr>qs := v\<rparr>)"
  proof (rule invI)
    show "qs_repr (C(q := C q @ [t])) (qs (s1\<lparr>qs := v\<rparr>))" using v(2) by simp
    show "placed n (next_id (s1\<lparr>qs := v\<rparr>)) (deleted (s1\<lparr>qs := v\<rparr>)) (at n (s1\<lparr>qs := v\<rparr>) (C(q := C q @ [t])))"
      using P by (simp add: s1)
    show "sem_count (s1\<lparr>qs := v\<rparr>) j = 0" if "(C(q := C q @ [t])) (SemQ j) \<noteq> []" for j
      using that k [of j] invD(3) [OF i, of j] by (auto simp: s1 split: if_splits)
  next
    fix d r assume "wants (s1\<lparr>qs := v\<rparr>) d = Some r"
    then show "d < n \<and> pending (s1\<lparr>qs := v\<rparr>) d = None \<and> hand (s1\<lparr>qs := v\<rparr>) d = [] \<and>
        entered (s1\<lparr>qs := v\<rparr>) d = (d, active (s1\<lparr>qs := v\<rparr>) d) \<and> old_ok (s1\<lparr>qs := v\<rparr>) r"
      using invD(4) [OF i, of d r] h [of d] n [of d] by (simp add: s1)
  next
    fix d u r assume "pending (s1\<lparr>qs := v\<rparr>) d = Some (u, r)"
    then show "hand (s1\<lparr>qs := v\<rparr>) d = [] \<and> old_ok (s1\<lparr>qs := v\<rparr>) r"
      using invD(5) [OF i, of d u r] h [of d] o [of d] by (simp add: s1)
  qed
  then show ?thesis using v(1) by blast
qed

text \<open>From the stack of the handler into the hand of the core.\<close>

lemma inv_hold:
  assumes i: "inv n C s" and x: "pending s c = Some (t, r)" and t: "n \<le> t"
  shows "inv n C (s\<lparr>pending := (pending s)(c := None), hand := (hand s)(c := [t])\<rparr>)"
proof -
  note pl = invD(2) [OF i]
  let ?s = "s\<lparr>pending := (pending s)(c := None), hand := (hand s)(c := [t])\<rparr>"
  have h: "hand s c = []" using invD(5) [OF i x] by simp
  have "at n ?s C = (at n s C)(Pend c := [], Hand c := at n s C (Hand c) @ [t])" (is "?l = ?r")
  proof
    show "?l z = ?r z" for z using h by (cases z) auto
  qed
  moreover have "placed n (next_id s) (deleted s) ?r"
    by (rule placed_move [OF pl]) (use x t in simp_all)
  moreover have "wants s c = None" using invD(4) [OF i, of c] x by (cases "wants s c") auto
  ultimately show ?thesis using i by (auto simp: inv_def)
qed

text \<open>An idle thread is in no queue: after its handler it is in no place.\<close>

lemma placed_drop:
  assumes p: "placed n nid del f" and x: "f p = x # xs" and i: "x < n"
  shows "placed n nid del (f(p := xs))"
proof (rule placedI)
  show "apart (f(p := xs))" by (rule apart_tail(1) [OF placedD(1) [OF p] x])
  show "n \<le> nid" by (rule placedD(2) [OF p])
  show "\<And>t. t \<in> del \<Longrightarrow> n \<le> t \<and> t < nid" by (rule placedD(3) [OF p])
  fix r u
  assume "u \<in> set ((f(p := xs)) r)"
  then have "u \<in> set (f r)" using x by (auto split: if_splits)
  then show "u < nid \<and> u \<notin> del \<and> (u < n \<longrightarrow> r = Act u \<or> r = Pend u)" by (rule placedD(4) [OF p])
next
  fix u
  assume u: "n \<le> u" "u < nid" "u \<notin> del"
  then obtain r where "u \<in> set (f r)" using placedD(5) [OF p] by blast
  then have "u \<in> set ((f(p := xs)) r)" using x i u(1) by auto
  then show "\<exists>r. u \<in> set ((f(p := xs)) r)" by blast
qed

lemma inv_drop:
  assumes i: "inv n C s" and x: "pending s c = Some (t, r)" and t: "t < n"
  shows "inv n C (s\<lparr>pending := (pending s)(c := None)\<rparr>)"
proof -
  have "at n (s\<lparr>pending := (pending s)(c := None)\<rparr>) C = (at n s C)(Pend c := [])" (is "?l = ?r")
  proof
    show "?l z = ?r z" for z by (cases z) auto
  qed
  moreover have "placed n (next_id s) (deleted s) ?r"
    by (rule placed_drop [OF invD(2) [OF i], where x = t]) (use x t in simp_all)
  ultimately show ?thesis using i by (auto simp: inv_def)
qed

text \<open>The context switch.\<close>

lemma inv_switch_idle:
  assumes i: "inv n C s" and w: "wants s c = Some r" and a: "n \<le> active s c"
  shows "inv n C (switch_to c c (active s c) c r s)"
proof -
  note pl = invD(2) [OF i] note W = invD(4) [OF i w]
  have m: "placed n (next_id s) (deleted s) ((at n s C)(Act c := [], Pend c := at n s C (Pend c) @ [active s c]))"
    by (rule placed_move [OF pl]) (use W a in simp_all)
  have "placed n (next_id s) (deleted s)
      (((at n s C)(Act c := [], Pend c := at n s C (Pend c) @ [active s c]))(Act c := [c]))"
    by (rule placed_idle [OF m]) (use W a in auto)
  moreover have "at n (switch_to c c (active s c) c r s) C =
      ((at n s C)(Act c := [], Pend c := at n s C (Pend c) @ [active s c]))(Act c := [c])" (is "?l = ?r")
  proof
    show "?l z = ?r z" for z using W by (cases z) (auto simp: switch_to_def)
  qed
  ultimately show ?thesis using i W by (auto simp: inv_def switch_to_def)
qed

lemma inv_switch:
  assumes i: "inv n C s" and w: "wants s c = Some r" and q: "C Ready = t # ts"
  shows "\<exists>v. dequeue Ready s = (s\<lparr>qs := v\<rparr>, Some t) \<and> inv n (C(Ready := ts)) (switch_to c c (active s c) t r (s\<lparr>qs := v\<rparr>))"
proof -
  note pl = invD(2) [OF i] note W = invD(4) [OF i w]
  have t: "n \<le> t" using placed_idle_queue [OF pl, of t Ready] q by simp
  have a: "n \<le> active s c \<or> active s c = c"
    using placedD(4) [OF pl, of "active s c" "Act c"] W by (cases "active s c < n") auto
  obtain v where v: "dequeue Ready s = (s\<lparr>qs := v\<rparr>, Some t)" "qs_repr (C(Ready := ts)) v"
    using inv_dequeue(2) [OF invD(1) [OF i] q] by blast
  let ?f = "(at n s C)(Act c := [], Pend c := at n s C (Pend c) @ [active s c])"
  have m: "placed n (next_id s) (deleted s) ?f"
    by (rule placed_move [OF pl]) (use W a in auto)
  have "placed n (next_id s) (deleted s) (?f(Q Ready := ts, Act c := ?f (Act c) @ [t]))"
    by (rule placed_move [OF m]) (use q t in simp_all)
  moreover have "at n (switch_to c c (active s c) t r (s\<lparr>qs := v\<rparr>)) (C(Ready := ts)) = ?f(Q Ready := ts, Act c := ?f (Act c) @ [t])"
    (is "?l = ?r")
  proof
    show "?l z = ?r z" for z using W by (cases z) (auto simp: switch_to_def)
  qed
  ultimately have "inv n (C(Ready := ts)) (switch_to c c (active s c) t r (s\<lparr>qs := v\<rparr>))"
    using i W v(2) by (auto simp: inv_def switch_to_def)
  then show ?thesis using v(1) by blast
qed

end
