(* ===== verification/Threads_Thms.thy ===== *)
theory Threads_Thms
  imports Threads_Steps
begin

text \<open>
  The operations of \<open>Threads\<close> one by one: each returns a state in which the invariant holds.
\<close>

lemma record_swap: "s\<lparr>hand := h, sem_count := w\<rparr> = s\<lparr>sem_count := w, hand := h\<rparr>" for s :: sched
  by simp

definition good :: "nat \<Rightarrow> (sched \<times> event list) res \<Rightarrow> bool" where
  "good n r \<longleftrightarrow> (\<exists>C s es. r = Inr (s, es) \<and> inv n C s \<and> halted n C s)"

lemma good_iff [simp]: "good n (Inr (s, es)) \<longleftrightarrow> (\<exists>C. inv n C s \<and> halted n C s)"
  by (auto simp: good_def)

lemma good_Inl [simp]: "\<not> good n (Inl e)"
  by (simp add: good_def)

section \<open>threads.cc\<close>

lemma inv_spawn:
  assumes i: "inv n C s" and h: "halted n C s"
  shows "\<exists>C' s'. spawn n s = Inr s' \<and> inv n C' s' \<and> halted n C' s'"
proof -
  note p = invD(2) [OF i]
  let ?t = "next_id s" let ?s = "s\<lparr>next_id := next_id s + 1, if_off := (if_off s)(next_id s := False)\<rparr>"
  have new: "?t \<notin> set (C q)" for q using placedD(4) [OF p, of ?t "Q q"] by auto
  have r1: "qs_repr C (qs ?s)" using invD(1) [OF i] by simp
  obtain v where v: "enqueue Ready ?t ?s = Inr (?s\<lparr>qs := v\<rparr>)" "qs_repr (C(Ready := C Ready @ [?t])) v"
    using inv_enqueue [OF r1 new, of Ready] by blast
  have "at n (?s\<lparr>qs := v\<rparr>) (C(Ready := C Ready @ [?t])) = (at n s C)(Q Ready := at n s C (Q Ready) @ [?t])" (is "?l = ?r")
  proof
    show "?l z = ?r z" for z by (cases z) auto
  qed
  then have "inv n (C(Ready := C Ready @ [?t])) (?s\<lparr>qs := v\<rparr>)"
    using i v(2) placed_new [OF p, of Ready] by (auto simp: inv_def)
  moreover have "halted n (C(Ready := C Ready @ [?t])) (?s\<lparr>qs := v\<rparr>)"
  proof -
    have "halted n C ?s" by (rule haltedI) (auto dest: haltedD [OF h])
    moreover have "moves n ?s ?t" using haltedD(1) [OF h, of ?t] by (auto simp: not_le [symmetric])
    ultimately show ?thesis using halted_join [of n C ?s Ready ?t] by (simp add: halted_flags)
  qed
  moreover have "spawn n s = Inr (?s\<lparr>qs := v\<rparr>)"
    using v(1) placedD(2) [OF p] by (simp add: spawn_def schedule_def is_idle_def)
  ultimately show ?thesis by blast
qed

lemma inv_reap:
  assumes i: "inv n C s" and h: "halted n C s"
  shows "\<exists>C'. inv n C' (reap s) \<and> halted n C' (reap s)"
proof (cases "C Zombies")
  case Nil
  then have "reap s = s" using inv_dequeue(1) [OF invD(1) [OF i]] by (simp add: reap_def)
  then show ?thesis using i h by auto
next
  case (Cons t ts)
  note p = invD(2) [OF i]
  have t: "n \<le> t" using placed_idle_queue [OF p, of t Zombies] Cons by simp
  obtain v where v: "dequeue Zombies s = (s\<lparr>qs := v\<rparr>, Some t)" "qs_repr (C(Zombies := ts)) v"
    using inv_dequeue(2) [OF invD(1) [OF i] Cons] by blast
  have e: "reap s = s\<lparr>qs := v, deleted := insert t (deleted s)\<rparr>" using v(1) by (simp add: reap_def)
  have "at n (reap s) (C(Zombies := ts)) = (at n s C)(Q Zombies := ts)" (is "?l = ?r")
  proof
    show "?l z = ?r z" for z by (cases z) (auto simp: e)
  qed
  moreover have "placed n (next_id s) (insert t (deleted s)) ?r"
    by (rule placed_delete [OF p]) (use Cons t in simp_all)
  ultimately have "inv n (C(Zombies := ts)) (reap s)" using i v(2) by (auto simp: inv_def e)
  moreover have "halted n (C(Zombies := ts)) (reap s)"
    by (rule haltedI) (auto simp: e dest: haltedD [OF h])
  ultimately show ?thesis by blast
qed

text \<open>A core switches to a thread that may move, or returns from \<open>block\<close>.\<close>

lemma halted_switch:
  assumes h: "halted n C s" and w: "wants s c = Some r" and c: "c < n" and t: "moves n s t"
  shows "halted n C (switch_to c c (active s c) t r s)"
proof (rule haltedI)
  fix u d r'
  let ?s = "switch_to c c (active s c) t r s"
  assume u: "u \<in> stopping ?s" "n \<le> u"
  then have us: "u \<in> stopping s" by (simp add: switch_to_def)
  note D = haltedD [OF h us u(2)]
  show "wants ?s d = Some Stopping" if "d < n" "active ?s d = u"
    using that D(4) [of d] us u(2) t by (auto simp: switch_to_def split: if_splits)
  show "r' = Stopping" if "pending ?s d = Some (u, r')"
    using that D(4) [OF c] D(5) [of d r'] w by (auto simp: switch_to_def split: if_splits)
qed (auto simp: switch_to_def dest: haltedD [OF h])

lemma halted_return:
  assumes h: "halted n C s" and w: "wants s c = Some r" "can_return r"
  shows "halted n C (s\<lparr>wants := (wants s)(c := None)\<rparr>)"
proof (rule haltedI)
  fix u d
  let ?s = "s\<lparr>wants := (wants s)(c := None)\<rparr>"
  assume u: "u \<in> stopping ?s" "n \<le> u" "d < n" "active ?s d = u"
  then have "wants s d = Some Stopping" using haltedD(4) [OF h, of u d] by simp
  then show "wants ?s d = Some Stopping" using w by (auto simp: can_return_def)
qed (auto dest: haltedD [OF h])

text \<open>The one assertion of \<open>block\<close> that depends on more than where threads are is that interrupts are enabled.\<close>

lemma inv_block:
  assumes i: "inv n C s" and h: "halted n C s" and w: "wants s c = Some r"
  shows "(\<exists>C' s'. block n c r s = Inr s' \<and> inv n C' s' \<and> halted n C' s') \<or>
    \<not> can_return r \<and> active s c < n \<and> if_off s (active s c) \<and> (\<exists>e. block n c r s = Inl e)"
proof (cases "C Ready")
  case Nil
  note d = inv_dequeue(1) [OF invD(1) [OF i] Nil] and W = invD(4) [OF i w]
  show ?thesis
  proof (cases "can_return r")
    case True
    then have "block n c r s = Inr (s\<lparr>wants := (wants s)(c := None)\<rparr>)" using d W by (simp add: block_def)
    then show ?thesis using inv_wants_none [OF i] halted_return [OF h w True] by blast
  next
    case must: False
    show ?thesis
    proof (cases "active s c < n")
      case True
      then have a: "active s c = c" using placedD(4) [OF invD(2) [OF i], of "active s c" "Act c"] W by auto
      show ?thesis
      proof (cases "if_off s (active s c)")
        case False
        then have "block n c r s = Inr s" using d W must True a by (simp add: block_def is_idle_def)
        then show ?thesis using i h by blast
      next
        case off: True
        then show ?thesis using d W must True a by (simp add: block_def is_idle_def ASSERT_def)
      qed
    next
      case False
      then have "block n c r s = Inr (switch_to c c (active s c) c r s)" using d W must by (simp add: block_def is_idle_def)
      moreover have "moves n s c" using W by simp
      ultimately show ?thesis using inv_switch_idle [OF i w] halted_switch [OF h w] W False by auto
    qed
  qed
next
  case (Cons t ts)
  note W = invD(4) [OF i w]
  obtain v where v: "dequeue Ready s = (s\<lparr>qs := v\<rparr>, Some t)" "inv n (C(Ready := ts)) (switch_to c c (active s c) t r (s\<lparr>qs := v\<rparr>))"
    using inv_switch [OF i w Cons] by blast
  have "moves n s t" using halted_queue [OF h, of t Ready] Cons by simp
  then have "halted n (C(Ready := ts)) (switch_to c c (active s c) t r (s\<lparr>qs := v\<rparr>))"
    using halted_switch [of n "C(Ready := ts)" "s\<lparr>qs := v\<rparr>" c r t] halted_leave [OF h Cons] w W by (simp add: halted_flags)
  moreover have "block n c r s = Inr (switch_to c c (active s c) t r (s\<lparr>qs := v\<rparr>))" using v(1) W by (simp add: block_def)
  ultimately show ?thesis using v(2) by blast
qed

text \<open>The ready queue takes a thread from a hand or a handler.\<close>

lemma inv_schedule_hand:
  assumes i: "inv n C s" and H: "halted n C s" and h: "hand s c = t # ts"
  shows "\<exists>C' s'. schedule n t (s\<lparr>hand := (hand s)(c := ts)\<rparr>) = Inr s' \<and> inv n C' s' \<and> halted n C' s'"
proof -
  have t: "n \<le> t" using placed_idle_hand [OF invD(2) [OF i], of t c] h by simp
  have m: "moves n s u" if "u \<in> set (t # ts)" for u using halted_inhand [OF H, of u c] that h by simp
  then have "halted n C (s\<lparr>hand := (hand s)(c := ts)\<rparr>)" using halted_hand [OF H, of ts c] by (simp add: subset_iff)
  then have J: "halted n (C(Ready := C Ready @ [t])) (s\<lparr>hand := (hand s)(c := ts)\<rparr>)" by (rule halted_join) (use m [of t] in simp)
  have "\<exists>v. enqueue Ready t (s\<lparr>hand := (hand s)(c := ts)\<rparr>) = Inr (s\<lparr>hand := (hand s)(c := ts)\<rparr>\<lparr>qs := v\<rparr>) \<and>
      inv n (C(Ready := C Ready @ [t])) (s\<lparr>hand := (hand s)(c := ts)\<rparr>\<lparr>qs := v\<rparr>)"
    by (rule inv_put [OF i, where p = "Hand c" and ts = ts and c = c and pe = "pending s" and ha = "(hand s)(c := ts)"])
      (use h t in auto)
  then show ?thesis using t J by (fastforce simp: schedule_def is_idle_def halted_flags)
qed

lemma inv_pend_put:
  assumes i: "inv n C s" and x: "pending s c = Some (t, r)" and t: "n \<le> t"
    and k: "\<And>k. q = SemQ k \<Longrightarrow> sem_count s k = 0"
  shows "\<exists>v. enqueue q t (s\<lparr>pending := (pending s)(c := None)\<rparr>) = Inr (s\<lparr>pending := (pending s)(c := None)\<rparr>\<lparr>qs := v\<rparr>) \<and>
    inv n (C(q := C q @ [t])) (s\<lparr>pending := (pending s)(c := None)\<rparr>\<lparr>qs := v\<rparr>)"
  by (rule inv_put [OF i, where p = "Pend c" and ts = "[]" and c = c and ha = "hand s" and pe = "(pending s)(c := None)"])
    (use x t k in auto)

lemma halted_pend_put:
  assumes h: "halted n C s" and x: "pending s c = Some (t, r)" and r: "r = Stopping \<longrightarrow> q = Zombies"
  shows "halted n (C(q := C q @ [t])) (s\<lparr>pending := (pending s)(c := None)\<rparr>\<lparr>qs := v\<rparr>)"
  using halted_join [OF halted_drop [OF h, of c], of q t] halted_pending [OF h x] r by (auto simp: halted_flags)

lemma inv_yield_handler:
  assumes i: "inv n C s" and h: "halted n C s" and x: "pending s c = Some (t, Yielding)"
  shows "\<exists>C' s'. yield_handler n t (s\<lparr>pending := (pending s)(c := None)\<rparr>) = Inr s' \<and> inv n C' s' \<and> halted n C' s'"
proof (cases "t < n")
  case True
  then show ?thesis using inv_drop [OF i x] halted_drop [OF h] by (auto simp: yield_handler_def schedule_def is_idle_def)
next
  case False
  then obtain v where "enqueue Ready t (s\<lparr>pending := (pending s)(c := None)\<rparr>) = Inr (s\<lparr>pending := (pending s)(c := None)\<rparr>\<lparr>qs := v\<rparr>)"
    "inv n (C(Ready := C Ready @ [t])) (s\<lparr>pending := (pending s)(c := None)\<rparr>\<lparr>qs := v\<rparr>)"
    using inv_pend_put [OF i x, of Ready] by auto
  then show ?thesis using halted_pend_put [OF h x, of Ready v] False by (auto simp: yield_handler_def schedule_def is_idle_def)
qed

section \<open>semaphore.h\<close>

lemma inv_sem_down:
  assumes i: "inv n C s" and h: "halted n C s" and c: "c < n" "calls s c"
  shows "\<exists>C'. inv n C' (fst (sem_down k c s)) \<and> halted n C' (fst (sem_down k c s))"
proof (cases "0 < sem_count s k")
  case True
  then have "C (SemQ k) = []" using invD(3) [OF i, of k] by (metis less_irrefl)
  then show ?thesis using True inv_count [OF i, of k] h by (auto simp: sem_down_def sem_dec_def halted_flags)
next
  case False
  have r: "runs s c" "wants s c = None" "active s c \<notin> stopping s" using c(2) by (simp_all add: calls_def runs_def)
  then show ?thesis using False inv_enter [OF i c(1) r(1), of "SemWait k"] halted_enter [OF h r(2), of "SemWait k"]
    by (auto simp: sem_down_def old_ok_def)
qed

lemma inv_sem_wait_handler:
  assumes i: "inv n C s" and h: "halted n C s" and x: "pending s c = Some (t, SemWait k)" and t: "n \<le> t"
  shows "good n (sem_wait_handler n k t c (s\<lparr>pending := (pending s)(c := None)\<rparr>))"
proof (cases "0 < sem_count s k")
  case True
  then have "C (SemQ k) = []" using invD(3) [OF i, of k] by (metis less_irrefl)
  from inv_count [OF inv_hold [OF i x t] this, of "sem_count s k - 1"]
  have "inv n C (s\<lparr>pending := (pending s)(c := None), sem_count := (sem_count s)(k := sem_count s k - 1),
      hand := (hand s)(c := [t])\<rparr>)" by (simp add: record_swap)
  moreover have "halted n C (s\<lparr>pending := (pending s)(c := None), sem_count := (sem_count s)(k := sem_count s k - 1),
      hand := (hand s)(c := [t])\<rparr>)"
    using halted_hand [of n C "s\<lparr>pending := (pending s)(c := None), sem_count := (sem_count s)(k := sem_count s k - 1)\<rparr>" "[t]" c]
      halted_drop [OF h, of c] halted_pending [OF h x] by (simp add: halted_flags)
  ultimately show ?thesis using True t by (auto simp: sem_wait_handler_def sem_dec_def is_idle_def)
next
  case False
  then have z: "sem_count s k = 0" by (simp add: word_gt_0)
  obtain v where "enqueue (SemQ k) t (s\<lparr>pending := (pending s)(c := None)\<rparr>) = Inr (s\<lparr>pending := (pending s)(c := None)\<rparr>\<lparr>qs := v\<rparr>)"
    "inv n (C(SemQ k := C (SemQ k) @ [t])) (s\<lparr>pending := (pending s)(c := None)\<rparr>\<lparr>qs := v\<rparr>)"
    using inv_pend_put [OF i x t, of "SemQ k"] z by blast
  then show ?thesis using z t halted_pend_put [OF h x, of "SemQ k" v] by (auto simp: sem_wait_handler_def is_idle_def)
qed

lemma inv_sem_up:
  assumes i: "inv n C s" and h: "halted n C s" and c: "runs s c"
  shows "\<exists>C'. inv n C' (fst (sem_up k c s)) \<and> halted n C' (fst (sem_up k c s))"
proof (cases "C (SemQ k)")
  case Nil
  then show ?thesis using inv_dequeue(1) [OF invD(1) [OF i] Nil] inv_count [OF i Nil] h by (auto simp: sem_up_def halted_flags)
next
  case (Cons t ts)
  obtain v where v: "dequeue (SemQ k) s = (s\<lparr>qs := v\<rparr>, Some t)" "inv n (C(SemQ k := ts)) (s\<lparr>qs := v, hand := (hand s)(c := [t])\<rparr>)"
    using inv_take [OF i Cons c] by blast
  have "moves n s t" using halted_queue [OF h, of t "SemQ k"] Cons by simp
  then have "halted n (C(SemQ k := ts)) (s\<lparr>qs := v, hand := (hand s)(c := [t])\<rparr>)"
    using halted_hand [of n "C(SemQ k := ts)" "s\<lparr>qs := v\<rparr>" "[t]" c] halted_leave [OF h Cons] by (simp add: halted_flags)
  then show ?thesis using v by (auto simp: sem_up_def)
qed

section \<open>condition.h\<close>

lemma inv_cond_wait:
  assumes i: "inv n C s" and h: "halted n C s" and c: "c < n" "calls s c" "locked s v"
  shows "good n (cond_wait v c s)"
proof -
  let ?s = "drop_lock v c s"
  have e: "runs ?s c = runs s c" "wants ?s c = wants s c" "active ?s = active s" "stopping ?s = stopping s" "epoch ?s = epoch s"
    by (simp_all add: drop_lock_def runs_def Let_def)
  have r: "runs ?s c" "wants ?s c = None" "active ?s c \<notin> stopping ?s" using c(2) unfolding e by (simp_all add: calls_def runs_def)
  have "old_ok ?s (CondWait v (epoch s v))" by (simp add: old_ok_def e)
  then have "inv n C (fst (enter c (CondWait v (epoch s v)) ?s))" "halted n C (fst (enter c (CondWait v (epoch s v)) ?s))"
    using inv_enter [of n C ?s c] halted_enter [of n C ?s c] i h c(1) r by simp_all
  then show ?thesis using c(3) by (cases "enter c (CondWait v (epoch s v)) ?s") (auto simp: cond_wait_def)
qed

lemma inv_cond_wait_handler:
  assumes i: "inv n C s" and h: "halted n C s" and x: "pending s c = Some (t, CondWait v e)" and t: "n \<le> t"
  shows "\<exists>C' s'. cond_wait_handler n v e t c (s\<lparr>pending := (pending s)(c := None)\<rparr>) = Inr s' \<and> inv n C' s' \<and> halted n C' s'"
proof -
  have e: "e \<le> epoch s v" using invD(5) [OF i x] by (simp add: old_ok_def)
  let ?l = "handler_lock v s"
  have I: "inv n C ?l" "halted n C ?l" using i h by simp_all
  have X: "pending ?l c = Some (t, CondWait v e)" using x by (simp add: handler_lock_def)
  have p: "handler_lock v (s\<lparr>pending := (pending s)(c := None)\<rparr>) = ?l\<lparr>pending := (pending ?l)(c := None)\<rparr>" "epoch ?l = epoch s" "hand ?l = hand s"
    by (simp_all add: handler_lock_def)
  show ?thesis
  proof (cases "e = epoch s v")
    case True
    obtain u where "enqueue (CondQ v) t (?l\<lparr>pending := (pending ?l)(c := None)\<rparr>) = Inr (?l\<lparr>pending := (pending ?l)(c := None)\<rparr>\<lparr>qs := u\<rparr>)"
      "inv n (C(CondQ v := C (CondQ v) @ [t])) (?l\<lparr>pending := (pending ?l)(c := None)\<rparr>\<lparr>qs := u\<rparr>)"
      using inv_pend_put [OF I(1) X t, of "CondQ v"] by blast
    then show ?thesis using True t halted_pend_put [OF I(2) X, of "CondQ v" u]
      by (auto simp: cond_wait_handler_def is_idle_def Let_def p)
  next
    case False
    let ?h = "?l\<lparr>pending := (pending ?l)(c := None), hand := (hand ?l)(c := [t])\<rparr>"
    have "cond_wait_handler n v e t c (s\<lparr>pending := (pending s)(c := None)\<rparr>) = Inr (handler_unlock v ?h)"
      using False e t by (simp add: cond_wait_handler_def is_idle_def Let_def p handler_unlock_def)
    moreover have "halted n C ?h"
      using halted_hand [OF halted_drop [OF I(2), of c], of "[t]" c] halted_pending [OF I(2) X] by simp
    ultimately show ?thesis using inv_hold [OF I(1) X t] by auto
  qed
qed

text \<open>The loop of \<open>notify\<close> moves the first waiters to the ready queue.\<close>

definition woken :: "nat \<Rightarrow> nat \<Rightarrow> (qname \<Rightarrow> tid list) \<Rightarrow> qname \<Rightarrow> tid list" where
  "woken v i C = C(CondQ v := drop i (C (CondQ v)), Ready := C Ready @ take i (C (CondQ v)))"

lemma inv_notify_loop:
  assumes "inv n C s"
  shows "\<exists>w. notify_loop n v i s = Inr (s\<lparr>qs := w\<rparr>) \<and> inv n (woken v i C) (s\<lparr>qs := w\<rparr>)"
  using assms
proof (induction i arbitrary: C s)
  case 0
  moreover have "woken v 0 C = C" by (rule ext) (simp add: woken_def)
  ultimately show ?case by (intro exI [of _ "qs s"]) simp
next
  case (Suc i)
  show ?case
  proof (cases "C (CondQ v)")
    case Nil
    have "woken v (Suc i) C = C" by (rule ext) (simp add: woken_def Nil)
    then show ?thesis using Suc.prems inv_dequeue(1) [OF invD(1) [OF Suc.prems] Nil]
      by (intro exI [of _ "qs s"]) simp
  next
    case (Cons t ts)
    obtain u w where u: "dequeue (CondQ v) s = (s\<lparr>qs := u\<rparr>, Some t)" "schedule n t (s\<lparr>qs := u\<rparr>) = Inr (s\<lparr>qs := w\<rparr>)"
      "inv n (C(CondQ v := ts, Ready := C Ready @ [t])) (s\<lparr>qs := w\<rparr>)"
      using inv_transfer [OF Suc.prems Cons] by blast
    obtain z where z: "notify_loop n v i (s\<lparr>qs := w\<rparr>) = Inr (s\<lparr>qs := w\<rparr>\<lparr>qs := z\<rparr>)"
      "inv n (woken v i (C(CondQ v := ts, Ready := C Ready @ [t]))) (s\<lparr>qs := w\<rparr>\<lparr>qs := z\<rparr>)"
      using Suc.IH [OF u(3)] by blast
    have "woken v i (C(CondQ v := ts, Ready := C Ready @ [t])) = woken v (Suc i) C"
      by (rule ext) (simp add: woken_def Cons)
    then show ?thesis using u(1,2) z by (intro exI [of _ z]) simp
  qed
qed

lemma inv_notify:
  assumes i: "inv n C s" and l: "locked s v" and e: "epoch s v \<noteq> NOT 0"
  shows "\<exists>w. notify n v limit s = Inr (s\<lparr>epoch := (epoch s)(v := epoch s v + 1), qs := w\<rparr>) \<and>
    inv n (woken v (unat limit) C) (s\<lparr>epoch := (epoch s)(v := epoch s v + 1), qs := w\<rparr>)"
proof -
  obtain w where "notify_loop n v (unat limit) (s\<lparr>epoch := (epoch s)(v := epoch s v + 1)\<rparr>) = Inr (s\<lparr>epoch := (epoch s)(v := epoch s v + 1), qs := w\<rparr>)"
    "inv n (woken v (unat limit) C) (s\<lparr>epoch := (epoch s)(v := epoch s v + 1), qs := w\<rparr>)"
    using inv_notify_loop [OF inv_epoch [OF i e], of v "unat limit"] by auto
  then show ?thesis using l by (intro exI [of _ w]) (simp add: notify_def)
qed

lemma halted_woken: "halted n C s \<Longrightarrow> halted n (woken v i C) s"
  by (rule haltedI) (auto simp: woken_def dest: haltedD in_set_takeD in_set_dropD)

section \<open>stop\<close>

lemma inv_stop:
  assumes i: "inv n C s" and h: "halted n C s" and c: "c < n" "calls s c"
  shows "inv n C (fst (stop c s))" "halted n C (fst (stop c s))"
proof -
  let ?s = "s\<lparr>stopping := insert (active s c) (stopping s)\<rparr>"
  have r: "runs ?s c" "runs s c" "wants s c = None" "pending s c = None" "hand s c = []" using c(2) by (auto simp: calls_def runs_def)
  show "inv n C (fst (stop c s))"
    unfolding stop_def by (rule inv_enter [OF _ c(1) r(1)]) (use i in \<open>simp_all add: inv_flags old_ok_def\<close>)
  note p = invD(2) [OF i]
  have a: "active s c \<in> set (at n s C (Act c))" using c(1) by simp
  note o = placed_other [OF p a]
  have e: "fst (stop c s) = ?s\<lparr>wants := (wants s)(c := Some Stopping), entered := (entered s)(c := (c, active s c))\<rparr>"
    by (simp add: stop_def enter_def Let_def)
  show "halted n C (fst (stop c s))"
  proof (rule haltedI)
    fix t q d r'
    let ?z = "fst (stop c s)"
    assume t: "t \<in> stopping ?z" "n \<le> t"
    then have T: "t = active s c \<or> t \<in> stopping s" by (simp add: e)
    show "t < next_id ?z" using T placedD(4) [OF p a] haltedD(1) [OF h _ t(2)] by (auto simp: e)
    show "t \<notin> set (C q)" if "q \<noteq> Zombies" using T o [of "Q q"] haltedD(2) [OF h _ t(2) that] by auto
    show "t \<notin> set (hand ?z d)" using T o [of "Hand d"] haltedD(3) [OF h _ t(2), of d] by (auto simp: e)
    show "wants ?z d = Some Stopping" if "d < n" "active ?z d = t"
      using T that o [of "Act d"] haltedD(4) [OF h _ t(2), of d] by (cases "d = c") (auto simp: e)
    show "r' = Stopping" if "pending ?z d = Some (t, r')" using T that o [of "Pend d"] haltedD(5) [OF h _ t(2), of d r'] by (auto simp: e)
  qed
qed

lemma inv_stop_handler:
  assumes i: "inv n C s" and h: "halted n C s" and x: "pending s c = Some (t, Stopping)" and e: "epoch s 0 \<noteq> NOT 0"
  shows "\<exists>C' s'. stop_handler n t (s\<lparr>pending := (pending s)(c := None)\<rparr>) = Inr s' \<and> inv n C' s' \<and> halted n C' s'"
proof (cases "t < n")
  case True
  then show ?thesis using inv_drop [OF i x] halted_drop [OF h] by (auto simp: stop_handler_def is_idle_def)
next
  case False
  let ?s = "handler_lock 0 s"
  have I: "inv n C ?s" "halted n C ?s" using i h by simp_all
  have X: "pending ?s c = Some (t, Stopping)" and f: "epoch ?s = epoch s" "locked ?s 0"
    "handler_lock 0 (s\<lparr>pending := (pending s)(c := None)\<rparr>) = ?s\<lparr>pending := (pending ?s)(c := None)\<rparr>"
    using x by (simp_all add: handler_lock_def)
  let ?C = "C(Zombies := C Zombies @ [t])" and ?p = "?s\<lparr>pending := (pending ?s)(c := None)\<rparr>"
  obtain v where v: "enqueue Zombies t ?p = Inr (?p\<lparr>qs := v\<rparr>)" "inv n ?C (?p\<lparr>qs := v\<rparr>)"
    using inv_pend_put [OF I(1) X, of Zombies] False by auto
  obtain w where w: "notifyOne n 0 (?p\<lparr>qs := v\<rparr>) = Inr (?p\<lparr>qs := v\<rparr>\<lparr>epoch := (epoch s)(0 := epoch s 0 + 1), qs := w\<rparr>)"
      "inv n (woken 0 1 ?C) (?p\<lparr>qs := v\<rparr>\<lparr>epoch := (epoch s)(0 := epoch s 0 + 1), qs := w\<rparr>)"
    using inv_notify [OF v(2), of 0 1] e f(1,2) by (auto simp: notifyOne_def)
  have "halted n (woken 0 1 ?C) (?p\<lparr>qs := v\<rparr>\<lparr>epoch := (epoch s)(0 := epoch s 0 + 1), qs := w\<rparr>)"
    using halted_woken [OF halted_pend_put [OF I(2) X, of Zombies v], of 0 1] by (simp add: halted_flags)
  moreover have "stop_handler n t (s\<lparr>pending := (pending s)(c := None)\<rparr>) =
      Inr (handler_unlock 0 (?p\<lparr>qs := v\<rparr>\<lparr>epoch := (epoch s)(0 := epoch s 0 + 1), qs := w\<rparr>))"
    using False v(1) w(1) by (simp add: stop_handler_def is_idle_def reaper_put_def f(3))
  ultimately show ?thesis using w(2) by fastforce
qed

section \<open>Steps\<close>

lemma inv_handler:
  assumes i: "inv n C s" and h: "halted n C s" and x: "pending s c = Some (me, r)" and e: "epochs_ok s"
  shows "good n (handler n r me c (s\<lparr>pending := (pending s)(c := None)\<rparr>)) \<or>
    waits r \<and> me < n \<and> (\<exists>e. handler n r me c (s\<lparr>pending := (pending s)(c := None)\<rparr>) = Inl e)"
proof (cases "waits r \<and> me < n")
  case True
  then show ?thesis by (cases r) (auto simp: waits_def handler_def sem_wait_handler_def cond_wait_handler_def is_idle_def ASSERT_def)
next
  case False
  then have t: "waits r \<Longrightarrow> n \<le> me" by simp
  show ?thesis
  proof (cases r)
    case Yielding
    then show ?thesis using inv_yield_handler [OF i h, of c me] x by (auto simp: handler_def)
  next
    case (SemWait k)
    then show ?thesis using inv_sem_wait_handler [OF i h, of c me k] x t by (simp add: handler_def waits_def)
  next
    case (CondWait v e)
    then show ?thesis using inv_cond_wait_handler [OF i h, of c me v e] x t by (auto simp: handler_def waits_def)
  next
    case Stopping
    then show ?thesis using inv_stop_handler [OF i h, of c me] x e by (auto simp: handler_def epochs_ok_def)
  qed
qed

text \<open>
  What a step leads to: a good state, or one of four assertions fails, the first of which is about the caller of \<open>wait\<close> or \<open>notify\<close>, the
  others about idle threads and about threads that have stopped.
\<close>

definition unlocked_call :: "nat \<Rightarrow> core \<Rightarrow> sched \<Rightarrow> (sched \<times> event list) res \<Rightarrow> bool" where
  "unlocked_call n c s r \<longleftrightarrow> (\<exists>v. \<not> locked s v \<and> (r = cond_wait v c s \<or> (\<exists>l. r = bindE (notify n v l s) (\<lambda>s. Inr (s, []))))) \<and>
     r = Inl (Assertion ''the_lock.isMine()'')"

definition trouble :: "nat \<Rightarrow> core \<Rightarrow> sched \<Rightarrow> bool" where
  "trouble n c s \<longleftrightarrow> (\<exists>r. wants s c = Some r \<and> \<not> can_return r \<and> active s c < n \<and> if_off s (active s c)) \<or>
     (\<exists>me r. pending s c = Some (me, r) \<and> waits r \<and> me < n) \<or> runs s c \<and> active s c \<in> stopping s \<and> n \<le> active s c"

lemma notify_locked: "\<not> locked s v \<Longrightarrow> notify n v limit s = Inl (Assertion ''the_lock.isMine()'')"
  by (simp add: notify_def ASSERT_def)

lemma cond_wait_locked: "\<not> locked s v \<Longrightarrow> cond_wait v c s = Inl (Assertion ''the_lock.isMine()'')"
  by (simp add: cond_wait_def ASSERT_def)

lemma calls_runs: "calls s c \<Longrightarrow> runs s c"
  by (simp add: calls_def)

lemma does_outcome:
  assumes i: "inv n C s" and h: "halted n C s" and e: "epochs_ok s" and c: "c < n" and d: "does n c s r"
  shows "good n r \<or> unlocked_call n c s r \<or> trouble n c s \<and> (\<exists>e. r = Inl e)"
  using d
proof cases
  case spawn
  then show ?thesis using inv_spawn [OF i h] by auto
next
  case reap
  then show ?thesis using inv_reap [OF i h] by auto
next
  case sti
  then show ?thesis using i h by (auto simp: inv_flags halted_flags)
next
  case yield
  have "runs s c" "wants s c = None" "active s c \<notin> stopping s" using yield(2) by (simp_all add: calls_def runs_def)
  then show ?thesis using yield inv_enter [OF i c, of Yielding] halted_enter [OF h, of c Yielding]
    by (cases "enter c Yielding s") (auto simp: old_ok_def)
next
  case stop
  then show ?thesis using inv_stop [OF i h c] by (cases "stop c s") auto
next
  case (down k)
  then show ?thesis using inv_sem_down [OF i h c, of k] by (cases "sem_down k c s") auto
next
  case (up k)
  then show ?thesis using inv_sem_up [OF i h calls_runs, of c k] by (cases "sem_up k c s") auto
next
  case (lock v)
  then show ?thesis using i h by auto
next
  case (unlock v)
  then show ?thesis using i h by auto
next
  case (wait v)
  then show ?thesis using inv_cond_wait [OF i h c, of v] cond_wait_locked [of s v c] unfolding unlocked_call_def by metis
next
  case (notify v limit)
  show ?thesis
  proof (cases "locked s v")
    case True
    have "epoch s v \<noteq> NOT 0" using e by (simp add: epochs_ok_def)
    from inv_notify [OF i True this, of limit] obtain w where
      w: "notify n v limit s = Inr (s\<lparr>epoch := (epoch s)(v := epoch s v + 1), qs := w\<rparr>)"
        "inv n (woken v (unat limit) C) (s\<lparr>epoch := (epoch s)(v := epoch s v + 1), qs := w\<rparr>)" by blast
    moreover have "halted n (woken v (unat limit) C) (s\<lparr>epoch := (epoch s)(v := epoch s v + 1), qs := w\<rparr>)"
      using halted_woken [OF h, of v "unat limit"] by (simp add: halted_flags)
    ultimately show ?thesis using notify(1) by auto
  next
    case False
    then have "r = Inl (Assertion ''the_lock.isMine()'')" using notify(1) notify_locked [OF False, of n limit] by simp
    then show ?thesis using notify(1) False unfolding unlocked_call_def by blast
  qed
next
  case again
  show ?thesis
  proof (cases "active s c < n")
    case True
    have r: "wants s c = None" using again(2) by (simp add: runs_def)
    show ?thesis using again True inv_enter [OF i c, of Stopping] halted_enter [OF h r, of Stopping]
      by (auto simp: stop_again_def is_idle_def old_ok_def)
  next
    case False
    then show ?thesis using again by (auto simp: stop_again_def is_idle_def trouble_def ASSERT_def)
  qed
next
  case (switch r)
  then show ?thesis using inv_block [OF i h, of c r] by (auto simp: trouble_def)
next
  case (handle me r)
  then show ?thesis using inv_handler [OF i h _ e, of c me r] by (auto simp: trouble_def)
next
  case (ready t ts)
  then show ?thesis using inv_schedule_hand [OF i h, of c t ts] by auto
qed

lemma inv_init: "inv n (\<lambda>_. []) (threadsInit n counts)"
proof (rule invI)
  let ?s = "threadsInit n counts"
  have a: "at n ?s (\<lambda>_. []) p = (case p of Act c \<Rightarrow> if c < n then [c] else [] | _ \<Rightarrow> [])" for p
    by (cases p) (simp_all add: threadsInit_def)
  show "placed n (next_id ?s) (deleted ?s) (at n ?s (\<lambda>_. []))"
  proof (rule placedI)
    show "apart (at n ?s (\<lambda>_. []))" by (auto simp: apart_def a split: place.splits)
    fix p t assume "t \<in> set (at n ?s (\<lambda>_. []) p)"
    then have "p = Act t \<and> t < n" unfolding a by (auto split: place.splits if_splits)
    then show "t < next_id ?s \<and> t \<notin> deleted ?s \<and> (t < n \<longrightarrow> p = Act t \<or> p = Pend t)"
      by (simp add: threadsInit_def)
  qed (simp_all add: threadsInit_def)
  show "qs_repr (\<lambda>_. []) (qs ?s)" by (simp add: qs_repr_def apart_def threadsInit_def)
qed (simp_all add: threadsInit_def)

lemma halted_init: "halted n (\<lambda>_. []) (threadsInit n counts)"
  by (simp add: halted_def threadsInit_def)

lemma run_good: "run n (threadsInit n counts) es s \<Longrightarrow> \<exists>C. inv n C s \<and> halted n C s"
proof (induction rule: run.induct)
  case start
  show ?case using inv_init halted_init by blast
next
  case (step es s c s' es')
  then show ?case using does_outcome [of n _ s c "Inr (s', es')"] by (auto simp: unlocked_call_def)
qed

lemma run_inv: "run n (threadsInit n counts) es s \<Longrightarrow> \<exists>C. inv n C s"
  using run_good by blast

end
