(* ===== verification/Threads_Idle.thy ===== *)
theory Threads_Idle
  imports Threads_Thms
begin

text \<open>
  The idle threads over a run: if they do what \<open>idle_code\<close> says, no handler runs for an idle thread that waits, and a core that is idle in
  \<open>stop\<close> has interrupts enabled, whatever its thread was switched away for.
\<close>

section \<open>What operations leave alone\<close>

definition keeps_cores :: "sched \<Rightarrow> sched \<Rightarrow> bool" where
  "keeps_cores s s' \<longleftrightarrow> active s' = active s \<and> wants s' = wants s \<and> pending s' = pending s \<and> stopping s' = stopping s \<and>
     (\<forall>t. if_off s' t \<longrightarrow> if_off s t)"

lemma cores_refl [simp]: "keeps_cores s s"
  by (simp add: keeps_cores_def)

lemma cores_trans: "keeps_cores s s' \<Longrightarrow> keeps_cores s' s'' \<Longrightarrow> keeps_cores s s''"
  by (simp add: keeps_cores_def)

lemma keeps_simps [simp]:
  "keeps_cores u (s\<lparr>qs := v\<rparr>) = keeps_cores u s" "keeps_cores u (s\<lparr>hand := h\<rparr>) = keeps_cores u s"
  "keeps_cores u (s\<lparr>sem_count := k\<rparr>) = keeps_cores u s" "keeps_cores u (s\<lparr>epoch := e\<rparr>) = keeps_cores u s"
  "keeps_cores u (s\<lparr>locked := l\<rparr>) = keeps_cores u s" "keeps_cores u (s\<lparr>lock_was := w\<rparr>) = keeps_cores u s"
  "keeps_cores u (s\<lparr>next_id := i\<rparr>) = keeps_cores u s" "keeps_cores u (s\<lparr>deleted := d\<rparr>) = keeps_cores u s"
  by (simp_all add: keeps_cores_def)

lemma keeps_enqueue: "enqueue q t s = Inr s' \<Longrightarrow> keeps_cores s s'"
  by (auto simp: enqueue_def)

lemma keeps_dequeue: "dequeue q s = (s', r) \<Longrightarrow> keeps_cores s s'"
  by (auto simp: dequeue_def split: prod.splits)

lemma keeps_schedule: "schedule n t s = Inr s' \<Longrightarrow> keeps_cores s s'"
  by (auto simp: schedule_def dest: keeps_enqueue split: if_splits)

lemma keeps_locks [simp]: "keeps_cores s (handler_lock v s)" "keeps_cores s (handler_unlock v s)"
  by (simp_all add: handler_lock_def handler_unlock_def)

lemma keeps_notify_loop: "notify_loop n v i s = Inr s' \<Longrightarrow> keeps_cores s s'"
proof (induction i arbitrary: s)
  case (Suc i)
  obtain s1 r where d: "dequeue (CondQ v) s = (s1, r)" by fastforce
  show ?case
  proof (cases r)
    case None
    then show ?thesis using Suc.prems d keeps_dequeue [OF d] by simp
  next
    case (Some t)
    then obtain s2 where s: "schedule n t s1 = Inr s2" "notify_loop n v i s2 = Inr s'"
      using Suc.prems d by (cases "schedule n t s1") auto
    show ?thesis by (rule cores_trans [OF keeps_dequeue [OF d] cores_trans [OF keeps_schedule [OF s(1)] Suc.IH [OF s(2)]]])
  qed
qed simp

lemma keeps_notify: "notify n v l s = Inr s' \<Longrightarrow> keeps_cores s s'"
proof -
  assume "notify n v l s = Inr s'"
  then have "notify_loop n v (unat l) (s\<lparr>epoch := (epoch s)(v := epoch s v + 1)\<rparr>) = Inr s'"
    by (auto simp: notify_def elim!: bindE_InrE split: if_splits)
  from keeps_notify_loop [OF this] show ?thesis by (simp add: keeps_cores_def)
qed

lemma keeps_reaper_put: "reaper_put n t s = Inr s' \<Longrightarrow> keeps_cores s s'"
proof -
  assume "reaper_put n t s = Inr s'"
  then obtain s1 s2 where s: "enqueue Zombies t (handler_lock 0 s) = Inr s1" "notify n 0 1 s1 = Inr s2" "s' = handler_unlock 0 s2"
    by (auto simp: reaper_put_def notifyOne_def elim!: bindE_InrE)
  show ?thesis using cores_trans [OF keeps_locks(1) cores_trans [OF keeps_enqueue [OF s(1)] keeps_notify [OF s(2)]]] s(3)
    cores_trans [OF _ keeps_locks(2)] by blast
qed

lemma keeps_handler: "handler n r me c s = Inr (s', es) \<Longrightarrow> keeps_cores s s' \<and> (\<forall>t r d. Blocks t r d \<notin> set es)"
proof (cases r)
  case Yielding
  assume "handler n r me c s = Inr (s', es)"
  then show ?thesis using Yielding by (auto simp: handler_def yield_handler_def elim!: bindE_InrE dest: keeps_schedule)
next
  case (SemWait k)
  assume "handler n r me c s = Inr (s', es)"
  then show ?thesis using SemWait
    by (auto simp: handler_def sem_wait_handler_def sem_dec_def elim!: bindE_InrE dest: keeps_enqueue split: if_splits)
next
  case (CondWait v e)
  assume "handler n r me c s = Inr (s', es)"
  then have c: "cond_wait_handler n v e me c s = Inr s'" "es = []" using CondWait by (auto simp: handler_def elim!: bindE_InrE)
  from c(1) have "keeps_cores s s'"
    by (auto simp: cond_wait_handler_def Let_def elim!: bindE_InrE split: if_splits)
      (meson keeps_enqueue keeps_locks cores_trans, simp add: keeps_cores_def handler_lock_def handler_unlock_def)
  then show ?thesis using c(2) by simp
next
  case Stopping
  assume "handler n r me c s = Inr (s', es)"
  then show ?thesis using Stopping
    by (auto simp: handler_def stop_handler_def elim!: bindE_InrE dest: keeps_reaper_put split: if_splits)
qed

section \<open>The invariant\<close>

definition idle_ok :: "nat \<Rightarrow> sched \<Rightarrow> bool" where
  "idle_ok n s \<longleftrightarrow>
     (\<forall>c < n. \<forall>r. wants s c = Some r \<longrightarrow> active s c < n \<longrightarrow> \<not> waits r \<and> (r = Stopping \<longrightarrow> active s c \<in> stopping s)) \<and>
     (\<forall>c t r. pending s c = Some (t, r) \<longrightarrow> t < n \<longrightarrow> \<not> waits r) \<and> (\<forall>t\<in>stopping s. t < n \<longrightarrow> \<not> if_off s t)"

lemma idle_okD:
  assumes "idle_ok n s"
  shows "c < n \<Longrightarrow> wants s c = Some r \<Longrightarrow> active s c < n \<Longrightarrow> \<not> waits r"
    "c < n \<Longrightarrow> wants s c = Some Stopping \<Longrightarrow> active s c < n \<Longrightarrow> active s c \<in> stopping s"
    "pending s c = Some (t, r) \<Longrightarrow> t < n \<Longrightarrow> \<not> waits r" "t \<in> stopping s \<Longrightarrow> t < n \<Longrightarrow> \<not> if_off s t"
  using assms unfolding idle_ok_def by blast+

lemma idle_ok_keeps: "idle_ok n s \<Longrightarrow> keeps_cores s s' \<Longrightarrow> idle_ok n s'"
  unfolding idle_ok_def keeps_cores_def by metis

lemma idle_code_append: "idle_code n (es @ es') \<longleftrightarrow> idle_code n es \<and> idle_code n es'"
  by (auto simp: idle_code_def)

lemma idle_code_waits: "idle_code n [Blocks t r d] \<Longrightarrow> t < n \<Longrightarrow> \<not> waits r \<and> (r = Stopping \<longrightarrow> \<not> d)"
  by (auto simp: idle_code_def is_idle_def waits_def split: reason.splits)

lemma idle_ok_enter:
  assumes "idle_ok n s" "active s c < n \<Longrightarrow> \<not> waits r \<and> (r = Stopping \<longrightarrow> active s c \<in> stopping s)"
  shows "idle_ok n (fst (enter c r s))"
  using assms by (auto simp: idle_ok_def enter_def Let_def)

lemma idle_ok_block:
  assumes o: "idle_ok n s" and i: "inv n C s" and w: "wants s c = Some r" and b: "block n c r s = Inr s'"
  shows "idle_ok n s'"
proof -
  note W = invD(4) [OF i w]
  obtain s1 q where d: "dequeue Ready s = (s1, q)" by fastforce
  note k = keeps_dequeue [OF d]
  have f: "active s1 = active s" "wants s1 = wants s" "pending s1 = pending s" "stopping s1 = stopping s" using k by (simp_all add: keeps_cores_def)
  have o1: "idle_ok n s1" by (rule idle_ok_keeps [OF o k])
  have sw: "idle_ok n (switch_to c c (active s c) t r s1)" for t
    using o1 idle_okD(1) [OF o, of c r] W w f by (auto simp: idle_ok_def switch_to_def)
  have "idle_ok n (s1\<lparr>wants := (wants s1)(c := None)\<rparr>)" using o1 by (auto simp: idle_ok_def)
  then show ?thesis using b d W sw o1 by (auto simp: block_def elim!: bindE_InrE split: option.splits if_splits)
qed

lemma idle_ok_step:
  assumes o: "idle_ok n s" and i: "inv n C s" and c: "c < n" and d: "does n c s (Inr (s', es))" and e: "idle_code n es"
  shows "idle_ok n s'"
proof -
  have k: "keeps_cores s s' \<Longrightarrow> ?thesis" by (rule idle_ok_keeps [OF o])
  show ?thesis
    using d
  proof cases
    case spawn
    from spawn(1) [symmetric] obtain s1 where "schedule n (next_id s) (s\<lparr>next_id := next_id s + 1, if_off := (if_off s)(next_id s := False)\<rparr>) = Inr s1" "s' = s1"
      by (auto simp: spawn_def elim!: bindE_InrE)
    from keeps_schedule [OF this(1)] this(2) show ?thesis by (intro k) (auto simp: keeps_cores_def split: if_splits)
  next
    case reap
    then show ?thesis by (intro k) (auto simp: reap_def dest: keeps_dequeue split: prod.splits option.splits)
  next
    case sti
    then show ?thesis by (intro k) (auto simp: keeps_cores_def)
  next
    case yield
    then have "s' = fst (enter c Yielding s)" by (cases "enter c Yielding s") simp
    then show ?thesis using idle_ok_enter [OF o, of c Yielding] by (simp add: waits_def)
  next
    case stop
    let ?s = "s\<lparr>stopping := insert (active s c) (stopping s)\<rparr>"
    have s': "s' = fst (enter c Stopping ?s)" and es: "es = [Blocks (active s c) Stopping (if_off s (active s c))]"
      using stop(1) by (simp_all add: stop_def enter_def Let_def)
    have "idle_ok n ?s" using o idle_code_waits [OF e [unfolded es]] by (auto simp: idle_ok_def)
    from idle_ok_enter [OF this, of c Stopping] show ?thesis unfolding s' by (simp add: waits_def)
  next
    case (down k)
    show ?thesis
    proof (cases "0 < sem_count s k")
      case True
      then show ?thesis using down(1) by (intro k) (auto simp: sem_down_def sem_dec_def)
    next
      case False
      then have s': "s' = fst (enter c (SemWait k) s)" and es: "es = [Blocks (active s c) (SemWait k) (if_off s (active s c))]"
        using down(1) by (simp_all add: sem_down_def enter_def Let_def)
      from idle_ok_enter [OF o, of c "SemWait k"] idle_code_waits [OF e [unfolded es]] show ?thesis unfolding s' by blast
    qed
  next
    case (up k)
    then show ?thesis by (intro k) (auto simp: sem_up_def dest: keeps_dequeue split: prod.splits option.splits)
  next
    case (lock v)
    then have "active s c \<notin> stopping s" by (simp add: calls_def)
    then show ?thesis using o lock(1) by (auto simp: idle_ok_def take_lock_def Let_def)
  next
    case (unlock v)
    then show ?thesis by (intro k) (auto simp: drop_lock_def keeps_cores_def Let_def)
  next
    case (wait v)
    let ?s = "drop_lock v c s" and ?r = "CondWait v (epoch s v)"
    have s': "s' = fst (enter c ?r ?s)" and es: "es = [Blocks (active ?s c) ?r (if_off ?s (active ?s c))]"
      using wait(1) [symmetric] by (auto simp: cond_wait_def enter_def Let_def elim!: bindE_InrE)
    have "idle_ok n ?s" by (rule idle_ok_keeps [OF o]) (auto simp: drop_lock_def keeps_cores_def Let_def)
    from idle_ok_enter [OF this, of c ?r] idle_code_waits [OF e [unfolded es]] show ?thesis unfolding s' by blast
  next
    case (notify v l)
    from notify(1) [symmetric] show ?thesis by (intro k) (auto elim!: bindE_InrE dest: keeps_notify)
  next
    case again
    from again(1) [symmetric] have "s' = fst (enter c Stopping s)" by (auto simp: stop_again_def elim!: bindE_InrE)
    then show ?thesis using idle_ok_enter [OF o, of c Stopping] again(3) by (simp add: waits_def)
  next
    case (switch r)
    from switch(1) [symmetric] show ?thesis using idle_ok_block [OF o i switch(2)] by (auto elim!: bindE_InrE)
  next
    case (handle me r)
    have "idle_ok n (s\<lparr>pending := (pending s)(c := None)\<rparr>)" using o by (auto simp: idle_ok_def)
    then show ?thesis using keeps_handler idle_ok_keeps handle(1) by metis
  next
    case (ready t ts)
    from ready(1) [symmetric] obtain s1 where "schedule n t (s\<lparr>hand := (hand s)(c := ts)\<rparr>) = Inr s1" "s' = s1" by (auto elim!: bindE_InrE)
    from keeps_schedule [OF this(1)] this(2) show ?thesis by (intro k) (simp add: keeps_cores_def)
  qed
qed

lemma run_idle: "run n (threadsInit n counts) es s \<Longrightarrow> idle_code n es \<Longrightarrow> idle_ok n s"
proof (induction rule: run.induct)
  case start
  show ?case by (simp add: idle_ok_def threadsInit_def)
next
  case (step es s c s' es')
  obtain C where "inv n C s" using run_inv [OF step.hyps(1)] by blast
  then show ?case using idle_ok_step [of n s C c s' es'] step by (simp add: idle_code_append)
qed

text \<open>Then nothing but a call of \<open>wait\<close> or \<open>notify\<close> without the lock can fail.\<close>

lemma no_trouble:
  assumes i: "inv n C s" and h: "halted n C s" and o: "idle_ok n s" and c: "c < n"
  shows "\<not> trouble n c s"
proof
  assume "trouble n c s"
  then consider r where "wants s c = Some r" "\<not> can_return r" "active s c < n" "if_off s (active s c)"
    | me r where "pending s c = Some (me, r)" "waits r" "me < n" | "runs s c" "active s c \<in> stopping s" "n \<le> active s c"
    unfolding trouble_def by blast
  then show False
  proof cases
    case (1 r)
    have "\<not> waits r" by (rule idle_okD(1) [OF o c 1(1,3)])
    then have "r = Stopping" using 1(2) by (cases r) (auto simp: waits_def can_return_def)
    then show False using idle_okD(2) [OF o c, OF 1(1) [unfolded \<open>r = Stopping\<close>] 1(3)] idle_okD(4) [OF o _ 1(3)] 1(4) by blast
  next
    case (2 me r)
    then show False using idle_okD(3) [OF o 2(1,3)] by blast
  next
    case 3
    then have "wants s c = Some Stopping" using haltedD(4) [OF h 3(2,3) c] by simp
    then show False using 3(1) by (simp add: runs_def)
  qed
qed

end
