(* ===== verification/Threads_Props.thy ===== *)
theory Threads_Props
  imports Threads_Idle
begin

text \<open>
  What threads and their synchronisation guarantee over every run of every number of cores.
\<close>

section \<open>Tokens of a semaphore\<close>

abbreviation acquires :: "nat \<Rightarrow> event list \<Rightarrow> nat" where
  "acquires k es \<equiv> count_list es (Acquire k)"

abbreviation ups :: "nat \<Rightarrow> event list \<Rightarrow> nat" where
  "ups k es \<equiv> count_list es (Up k)"

lemma enqueue_count [simp]: "enqueue q t s = Inr s' \<Longrightarrow> sem_count s' = sem_count s"
  by (auto simp: enqueue_def)

lemma dequeue_count: "sem_count (fst (dequeue q s)) = sem_count s"
  by (simp add: dequeue_def split: prod.splits)

lemma dequeue_count' [simp]: "dequeue q s = (s', r) \<Longrightarrow> sem_count s' = sem_count s"
  using dequeue_count [of q s] by simp

lemma schedule_count [simp]: "schedule n t s = Inr s' \<Longrightarrow> sem_count s' = sem_count s"
  by (auto simp: schedule_def split: if_splits)

lemma notify_loop_count: "notify_loop n v i s = Inr s' \<Longrightarrow> sem_count s' = sem_count s"
proof (induction i arbitrary: s)
  case (Suc i)
  show ?case
  proof (cases "dequeue (CondQ v) s")
    case (Pair u r)
    show ?thesis
    proof (cases r)
      case None
      then show ?thesis using Suc.prems Pair dequeue_count' [OF Pair] by simp
    next
      case (Some t)
      then obtain w where "schedule n t u = Inr w" "notify_loop n v i w = Inr s'"
        using Suc.prems Pair by auto
      then show ?thesis using Suc.IH [of w] schedule_count [of n t u w] dequeue_count' [OF Pair] by simp
    qed
  qed
qed simp

lemma notify_count: "notify n v l s = Inr s' \<Longrightarrow> sem_count s' = sem_count s"
  using notify_loop_count [of n v "unat l" "s\<lparr>epoch := (epoch s)(v := epoch s v + 1)\<rparr>" s']
  by (auto simp: notify_def)

lemma block_count: "block n c r s = Inr s' \<Longrightarrow> sem_count s' = sem_count s"
  by (auto simp: block_def switch_to_def dest!: dequeue_count' split: prod.splits option.splits if_splits)

lemma lock_counts [simp]:
  "sem_count (take_lock v c s) = sem_count s" "sem_count (drop_lock v c s) = sem_count s"
  "sem_count (handler_lock v s) = sem_count s" "sem_count (handler_unlock v s) = sem_count s"
  by (simp_all add: take_lock_def drop_lock_def handler_lock_def handler_unlock_def Let_def)

lemma reap_count: "sem_count (reap s) = sem_count s"
  by (auto simp: reap_def split: prod.splits option.splits)

definition token_step :: "sched \<Rightarrow> sched \<Rightarrow> event list \<Rightarrow> bool" where
  "token_step s s' es \<longleftrightarrow> (\<forall>k. unat (sem_count s' k) + acquires k es \<le> unat (sem_count s k) + ups k es \<and>
     (unat (sem_count s k) + ups k es < 2 ^ 64 \<longrightarrow> unat (sem_count s' k) + acquires k es = unat (sem_count s k) + ups k es))"

lemma token_same: "sem_count s' = sem_count s \<Longrightarrow> token_step s s' []"
  by (simp add: token_step_def)

lemma enter_tokens: "enter c r s = (s', es) \<Longrightarrow> token_step s s' es"
  by (auto simp: enter_def Let_def token_step_def)

lemma token_acquire:
  assumes "sem_count s' = (sem_count s)(k := sem_count s k - 1)" "0 < sem_count s k"
  shows "token_step s s' [Acquire k]"
proof -
  have "unat (sem_count s k - 1) = unat (sem_count s k) - 1" "0 < unat (sem_count s k)"
    using assms(2) by (simp_all add: unat_minus_one word_gt_0 unat_gt_0)
  then show ?thesis using assms(1) by (auto simp: token_step_def)
qed

lemma token_up:
  assumes "sem_count s' = (sem_count s)(k := sem_count s k + 1)"
  shows "token_step s s' [Up k]"
proof -
  have "unat (sem_count s k + 1) \<le> unat (sem_count s k) + 1" using unat_plus_if' [of "sem_count s k" 1] by auto
  moreover have "unat (sem_count s k + 1) = unat (sem_count s k) + 1" if "unat (sem_count s k) + 1 < 2 ^ 64"
    using that by (simp add: unat_plus_if')
  ultimately show ?thesis using assms by (simp add: token_step_def)
qed

lemma token_pass: "sem_count s' = sem_count s \<Longrightarrow> token_step s s' [Up k, Acquire k]"
  by (simp add: token_step_def)

lemma sem_up_tokens: "sem_up k c s = (s', es) \<Longrightarrow> token_step s s' es"
proof -
  assume a: "sem_up k c s = (s', es)"
  obtain u r where d: "dequeue (SemQ k) s = (u, r)" by fastforce
  show ?thesis
  proof (cases r)
    case None
    then have "sem_count s' = (sem_count s)(k := sem_count s k + 1)" "es = [Up k]"
      using a d dequeue_count' [OF d] by (auto simp: sem_up_def)
    then show ?thesis using token_up by simp
  next
    case (Some t)
    then have "sem_count s' = sem_count s" "es = [Up k, Acquire k]"
      using a d dequeue_count' [OF d] by (auto simp: sem_up_def)
    then show ?thesis using token_pass by simp
  qed
qed

lemma sem_down_tokens: "sem_down k c s = (s', es) \<Longrightarrow> token_step s s' es"
  by (auto simp: sem_down_def sem_dec_def split: if_splits intro!: token_acquire token_same dest: enter_tokens)

lemma sem_wait_handler_tokens: "sem_wait_handler n k me c s = Inr (s', es) \<Longrightarrow> token_step s s' es"
  by (auto simp: sem_wait_handler_def sem_dec_def split: if_splits intro!: token_acquire token_same)

lemma handler_tokens: "handler n r me c s = Inr (s', es) \<Longrightarrow> token_step s s' es"
proof (cases r)
  case (SemWait k)
  assume "handler n r me c s = Inr (s', es)"
  then show ?thesis using SemWait sem_wait_handler_tokens by (simp add: handler_def)
next
  case (CondWait v e)
  assume "handler n r me c s = Inr (s', es)"
  then show ?thesis using CondWait
    by (auto simp: handler_def cond_wait_handler_def Let_def split: if_splits intro!: token_same)
next
  case Stopping
  assume "handler n r me c s = Inr (s', es)"
  then obtain "es = []" and h: "stop_handler n me s = Inr s'" using Stopping by (auto simp: handler_def)
  moreover have "sem_count s' = sem_count s"
  proof (cases "is_idle n me")
    case False
    with h obtain u w where u: "enqueue Zombies me (handler_lock 0 s) = Inr u"
      "notify n 0 1 u = Inr w" "s' = handler_unlock 0 w"
      by (auto simp: stop_handler_def reaper_put_def notifyOne_def)
    then show ?thesis using enqueue_count [OF u(1)] notify_count [OF u(2)] by simp
  qed (use h in \<open>simp add: stop_handler_def\<close>)
  ultimately show ?thesis using token_same by simp
next
  case Yielding
  assume "handler n r me c s = Inr (s', es)"
  then show ?thesis using Yielding by (auto simp: handler_def yield_handler_def intro!: token_same)
qed

lemma token_step_cong: "sem_count u = sem_count s \<Longrightarrow> token_step u s' es \<Longrightarrow> token_step s s' es"
  by (simp add: token_step_def)

lemma does_tokens:
  assumes "does n c s (Inr (s', es))"
  shows "token_step s s' es"
  using assms
proof cases
  case spawn
  from spawn(1) [symmetric] obtain "es = []" "schedule n (next_id s) (s\<lparr>next_id := next_id s + 1, if_off := (if_off s)(next_id s := False)\<rparr>) = Inr s'"
    by (auto simp: spawn_def)
  then show ?thesis using schedule_count by (fastforce intro!: token_same)
next
  case yield
  then show ?thesis using enter_tokens by simp
next
  case stop
  then show ?thesis using enter_tokens [of c Stopping "s\<lparr>stopping := insert (active s c) (stopping s)\<rparr>" s' es]
    by (simp add: stop_def token_step_def)
next
  case (down k)
  then show ?thesis using sem_down_tokens by simp
next
  case (up k)
  then show ?thesis using sem_up_tokens by simp
next
  case (wait v)
  from wait(1) [symmetric] have "enter c (CondWait v (epoch s v)) (drop_lock v c s) = (s', es)" by (auto simp: cond_wait_def)
  from enter_tokens [OF this] show ?thesis by (simp add: token_step_def)
next
  case (notify v l)
  from notify(1) [symmetric] show ?thesis using notify_count by (auto intro!: token_same)
next
  case again
  from again(1) [symmetric] show ?thesis by (auto simp: stop_again_def enter_def Let_def intro!: token_same)
next
  case (switch r)
  from switch(1) [symmetric] show ?thesis using block_count by (auto intro!: token_same)
next
  case (handle me r)
  then have "token_step (s\<lparr>pending := (pending s)(c := None)\<rparr>) s' es"
    using handler_tokens [of n r me c "s\<lparr>pending := (pending s)(c := None)\<rparr>" s' es] by simp
  then show ?thesis by (simp add: token_step_def)
next
  case (ready t ts)
  from ready(1) [symmetric] show ?thesis using schedule_count by (fastforce intro!: token_same)
qed (auto simp: reap_count intro!: token_same)

lemma run_tokens_le: "run n s0 es s \<Longrightarrow> unat (sem_count s k) + acquires k es \<le> unat (sem_count s0 k) + ups k es"
proof (induction rule: run.induct)
  case (step es s c s' es')
  then show ?case using does_tokens [OF step.hyps(4)] unfolding token_step_def
    by (auto dest!: spec [of _ k])
qed simp

lemma run_tokens_eq:
  "run n s0 es s \<Longrightarrow> unat (sem_count s0 k) + ups k es < 2 ^ 64 \<Longrightarrow>
    unat (sem_count s k) + acquires k es = unat (sem_count s0 k) + ups k es"
proof (induction rule: run.induct)
  case (step es s c s' es')
  note t = does_tokens [OF step.hyps(4), unfolded token_step_def, rule_format, of k]
  have b: "unat (sem_count s0 k) + ups k es + ups k es' < 2 ^ 64" using step.prems by simp
  then have e: "unat (sem_count s k) + acquires k es = unat (sem_count s0 k) + ups k es" using step.IH by simp
  show ?case using t b e by simp
qed simp

section \<open>The claims\<close>

text \<open>
  C15. Threads are neither lost nor duplicated. In every run of \<open>n\<close> cores from \<open>threadsInit\<close> (thread creation,
  the reaper, yield, stop, semaphores, locks and conditions interleaved in any order) the queues
  stand for disjoint lists, and every thread that was created and not deleted is in exactly one place: one queue,
  the core that runs it, or on its way between two; a deleted thread is nowhere.
\<close>

theorem threads_placed:
  assumes "run n (threadsInit n counts) es s"
  shows "\<exists>C. qs_repr C (qs s) \<and>
    (\<forall>t. n \<le> t \<longrightarrow> t < next_id s \<longrightarrow> t \<notin> deleted s \<longrightarrow> (\<exists>!p. t \<in> set (at n s C p))) \<and>
    (\<forall>t\<in>deleted s. \<forall>p. t \<notin> set (at n s C p)) \<and> (\<forall>p. distinct (at n s C p))"
proof -
  obtain C where i: "inv n C s" using run_inv [OF assms] by blast
  note p = invD(2) [OF i]
  have "\<exists>!q. t \<in> set (at n s C q)" if "n \<le> t" "t < next_id s" "t \<notin> deleted s" for t
    using placedD(5) [OF p that] apart_disj [OF placedD(1) [OF p]] by blast
  moreover have "t \<notin> set (at n s C q)" if "t \<in> deleted s" for t q
    using placedD(4) [OF p, of t q] that by blast
  ultimately show ?thesis using invD(1) [OF i] apart_distinct [OF placedD(1) [OF p]]
    by (intro exI [of _ C]) simp
qed

text \<open>A run on one core: a thread is created, the idle thread yields to it, it takes the semaphore.\<close>

definition one_core :: sched where
  "one_core = threadsInit 1 (\<lambda>_. 1)"

definition created :: sched where
  "created = one_core\<lparr>next_id := 2, qs := (\<lambda>_. None, (\<lambda>_. empty_q)(Ready := \<lparr>qfirst = Some 1, qlast = Some 1\<rparr>))\<rparr>"

definition taken :: sched where
  "taken = created\<lparr>sem_count := (\<lambda>_. 1)(3 := 0)\<rparr>"

lemma run_created: "run 1 one_core [] created"
proof -
  have "spawn 1 one_core = Inr created"
    by (auto simp: spawn_def schedule_def is_idle_def enqueue_def one_core_def threadsInit_def created_def
      qs_add_def q_add_def empty_q_def fun_eq_iff)
  moreover have "calls one_core 0" by (simp add: calls_def runs_def one_core_def threadsInit_def)
  ultimately have "does 1 0 one_core (Inr (created, []))" using does.spawn [of one_core 0 1] by simp
  from run.step [OF run.start _ _ this] show ?thesis by (simp add: epochs_ok_def one_core_def threadsInit_def)
qed

lemma run_up: "run 1 one_core [Up 3] (created\<lparr>sem_count := (\<lambda>_. 1)(3 := 2)\<rparr>)"
proof -
  have "sem_up 3 0 created = (created\<lparr>sem_count := (\<lambda>_. 1)(3 := 2)\<rparr>, [Up 3])"
    by (simp add: sem_up_def dequeue_def qs_remove_def q_remove_def created_def one_core_def threadsInit_def empty_q_def fun_eq_iff)
  moreover have "calls created 0" by (simp add: calls_def runs_def created_def one_core_def threadsInit_def)
  ultimately have "does 1 0 created (Inr (created\<lparr>sem_count := (\<lambda>_. 1)(3 := 2)\<rparr>, [Up 3]))"
    using does.up [of created 0 1 3] by simp
  from run.step [OF run_created _ _ this] show ?thesis by (simp add: epochs_ok_def created_def one_core_def threadsInit_def)
qed

theorem threads_placed_witness:
  "\<exists>C. qs_repr C (qs created) \<and> (\<exists>!p. 1 \<in> set (at 1 created C p))"
  using threads_placed [OF run_created [unfolded one_core_def]]
  by (elim exE conjE, rule_tac x = C in exI) (simp add: created_def one_core_def threadsInit_def)





text \<open>
  C14. The count of a semaphore is exact: in every run, the tokens left and the \<open>down\<close>s that got through add up to the
  initial count and the \<open>up\<close>s, unless there are so many that 64 bits overflow.
\<close>

theorem semaphore_tokens:
  assumes "run n s0 es s" "unat (sem_count s0 k) + ups k es < 2 ^ 64"
  shows "unat (sem_count s k) + acquires k es = unat (sem_count s0 k) + ups k es"
  by (rule run_tokens_eq [OF assms])

theorem semaphore_tokens_witness: "unat (2 :: u64) + acquires 3 [Up 3] = unat (1 :: u64) + ups 3 [Up 3]"
  using semaphore_tokens [OF run_up, of 3] by (simp add: one_core_def threadsInit_def)

text \<open>
  A \<open>BlockingLock\<close>, a semaphore that starts at one, excludes: however the cores are interleaved, it was never
  acquired more than once more often than it was released.
\<close>

definition blocking_lock_count :: u64 where
  "blocking_lock_count = 1"

theorem blocking_lock_excludes:
  assumes "run n (threadsInit n counts) es s" "counts k = blocking_lock_count"
  shows "acquires k es \<le> ups k es + 1"
  using run_tokens_le [OF assms(1), of k] assms(2) by (simp add: threadsInit_def blocking_lock_count_def)

theorem blocking_lock_excludes_witness: "acquires 3 [Up 3] \<le> ups 3 [Up 3] + 1"
  by (rule blocking_lock_excludes [OF run_up [unfolded one_core_def]]) (simp add: blocking_lock_count_def)

text \<open>
  C34. No wake-up is lost. After \<open>notifyAll\<close> by the holder of the lock every thread that waited in the condition's queue
  is on the ready queue, in the order in which they came to wait, and every thread that has released the lock but has not reached
  the queue yet has an old epoch, so its handler will not let it wait.
\<close>

theorem notifyAll_wakes:
  assumes "inv n C s" "locked s v" "epoch s v \<noteq> NOT 0" "length (C (CondQ v)) < 2 ^ 64"
  shows "\<exists>s' C'. notifyAll n v s = Inr s' \<and> qs_repr C' (qs s') \<and> C' (CondQ v) = [] \<and>
    C' Ready = C Ready @ C (CondQ v) \<and>
    (\<forall>c e. wants s' c = Some (CondWait v e) \<or> (\<exists>t. pending s' c = Some (t, CondWait v e)) \<longrightarrow> e < epoch s' v)"
proof -
  let ?s = "\<lambda>w. s\<lparr>epoch := (epoch s)(v := epoch s v + 1), qs := w\<rparr>"
  obtain w where w: "notifyAll n v s = Inr (?s w)" "inv n (woken v (unat (NOT (0 :: u64))) C) (?s w)"
    using inv_notify [OF assms(1-3), of "NOT 0"] by (auto simp: notifyAll_def)
  have "unat (NOT (0 :: u64)) = 2 ^ 64 - 1" by (simp add: unsigned_minus_1_eq_mask mask_eq_exp_minus_1)
  then have l: "length (C (CondQ v)) \<le> unat (NOT (0 :: u64))" using assms(4) by simp
  have "e < epoch (?s w) v" if "wants (?s w) c = Some (CondWait v e) \<or> (\<exists>t. pending (?s w) c = Some (t, CondWait v e))" for c e
    using that invD(4) [OF assms(1), of c "CondWait v e"] invD(5) [OF assms(1), of c _ "CondWait v e"] word_le_Suc [OF _ assms(3), of e]
    by (auto simp: old_ok_def)
  moreover have "woken v (unat (NOT (0 :: u64))) C (CondQ v) = []"
    "woken v (unat (NOT (0 :: u64))) C Ready = C Ready @ C (CondQ v)"
    using l by (simp_all add: woken_def)
  ultimately show ?thesis using w invD(1) [OF w(2)]
    by (intro exI [of _ "?s w"] exI [of _ "woken v (unat (NOT (0 :: u64))) C"]) simp
qed

text \<open>A thread that waits in the queue of condition 0.\<close>

definition waiter :: sched where
  "waiter = one_core\<lparr>next_id := 2, locked := (\<lambda>_. True),
     qs := (\<lambda>_. None, (\<lambda>_. empty_q)(CondQ 0 := \<lparr>qfirst = Some 1, qlast = Some 1\<rparr>))\<rparr>"

lemma inv_waiter: "inv 1 ((\<lambda>_. [])(CondQ 0 := [1])) waiter"
proof (rule invI)
  let ?C = "(\<lambda>_. [])(CondQ 0 := [1 :: tid])" and ?f = "at 1 one_core (\<lambda>_. [])"
  have "at 1 waiter ?C p = (?f(Q (CondQ 0) := ?f (Q (CondQ 0)) @ [1])) p" for p
    by (cases p) (simp_all add: waiter_def)
  then have "at 1 waiter ?C = ?f(Q (CondQ 0) := ?f (Q (CondQ 0)) @ [1])" by (rule ext)
  moreover have "placed 1 1 {} ?f" using invD(2) [OF inv_init [of 1 "\<lambda>_. 1"]] by (simp add: one_core_def threadsInit_def)
  ultimately show "placed 1 (next_id waiter) (deleted waiter) (at 1 waiter ?C)"
    using placed_new [of 1 1 "{}" ?f "CondQ 0"] by (simp add: waiter_def one_core_def threadsInit_def eval_nat_numeral)
  show "qs_repr ?C (qs waiter)" by (auto simp: qs_repr_def apart_def waiter_def q_repr_def empty_q_def)
qed (simp_all add: waiter_def one_core_def threadsInit_def)

theorem notifyAll_wakes_witness:
  "\<exists>s' C'. notifyAll 1 0 waiter = Inr s' \<and> qs_repr C' (qs s') \<and> C' (CondQ 0) = [] \<and> C' Ready = [1]"
  using notifyAll_wakes [OF inv_waiter, of 0] by (fastforce simp: waiter_def one_core_def threadsInit_def)

text \<open>
  C35. The intrusive queue refines a list: adding a node that is in no queue appends it, removing takes the head, \<open>remove_all\<close>
  takes everything, and neither changes the links of other nodes.
\<close>

theorem queue_refines_list:
  assumes "q_repr nx q xs" "t \<notin> set xs"
  shows "(\<exists>nx' q'. q_add t nx q = Inr (nx', q') \<and> q_repr nx' q' (xs @ [t]) \<and>
      (\<forall>x. x \<noteq> t \<longrightarrow> x \<notin> set xs \<longrightarrow> nx' x = nx x)) \<and>
    (case xs of [] \<Rightarrow> q_remove nx q = (q, None)
     | x # ys \<Rightarrow> \<exists>q'. q_remove nx q = (q', Some x) \<and> q_repr nx q' ys) \<and>
    q_remove_all q = (empty_q, if xs = [] then None else Some (hd xs))"
proof -
  have "q_remove_all q = (empty_q, if xs = [] then None else Some (hd xs))"
    using assms(1) by (cases xs) (auto simp: q_remove_all_def q_repr_def empty_q_def)
  then show ?thesis using q_add_repr [OF assms] q_remove_repr [OF assms(1)] by blast
qed

theorem queue_refines_list_witness: "\<exists>nx' q'. q_add 5 (\<lambda>_. None) empty_q = Inr (nx', q') \<and> q_repr nx' q' [5]"
  using queue_refines_list [of "\<lambda>_. None" empty_q "[]" 5] by auto

end
