(* ===== verification/Switch.thy ===== *)
theory Switch
  imports Threads
begin

text \<open>
  Threads and their address spaces: the parts of \<open>kernel/threads.h\<close>, \<open>pcb.h\<close> and \<open>process.h\<close> that \<open>Threads\<close> leaves out. A thread has a
  process (its \<open>PCB\<close>, 0 is \<open>kProc\<close>), a process a page directory and a kernel stack; a core has CR3 and the stack for traps, which a switch
  sets. A process dies with its thread. Addresses of stacks and directories come from the allocators and are arguments; a
  new directory is none that a living process has.
\<close>

section \<open>State\<close>

type_synonym pid = nat

record spaces =
  core_cr3 :: "core \<Rightarrow> u32"
  tss_esp0 :: "core \<Rightarrow> u32"
  pcb_of :: "tid \<Rightarrow> pid"
  saved_esp :: "tid \<Rightarrow> u32"
  pcb_cr3 :: "pid \<Rightarrow> u32"
  pcb_esp0 :: "pid \<Rightarrow> u32"
  next_pcb :: pid
  dead :: "pid set"

definition STACK_BYTES :: nat where "STACK_BYTES = 8 * 1024"
definition STACK_WORDS :: nat where "STACK_WORDS = STACK_BYTES div 4"

text \<open>\<open>new Process\<close>, with the directory that \<open>copy_kpd\<close> or \<open>copy_pd\<close> made.\<close>

definition new_pcb :: "u32 \<Rightarrow> spaces \<Rightarrow> spaces" where
  "new_pcb d x = x\<lparr>pcb_cr3 := (pcb_cr3 x)(next_pcb x := d), next_pcb := next_pcb x + 1\<rparr>"

text \<open>\<open>TCBWithStack(pcb)\<close>, with a stack at \<open>stk\<close>.\<close>

definition new_tcb :: "tid \<Rightarrow> pid \<Rightarrow> u32 \<Rightarrow> spaces \<Rightarrow> spaces" where
  "new_tcb t p stk x =
     (let sp = stk + 4 * of_nat (STACK_WORDS - 2)
      in x\<lparr>pcb_of := (pcb_of x)(t := p), saved_esp := (saved_esp x)(t := sp), pcb_esp0 := (pcb_esp0 x)(p := sp)\<rparr>)"

text \<open>What \<open>block\<close> does before \<open>gheith_contextSwitch\<close>.\<close>

definition switch_space :: "core \<Rightarrow> tid \<Rightarrow> spaces \<Rightarrow> spaces" where
  "switch_space c t x =
     (let old_cr3 = core_cr3 x c; new_cr3 = pcb_cr3 x (pcb_of x t);
          x = (if old_cr3 \<noteq> new_cr3 then x\<lparr>core_cr3 := (core_cr3 x)(c := new_cr3)\<rparr> else x)
      in x\<lparr>tss_esp0 := (tss_esp0 x)(c := pcb_esp0 x (pcb_of x t))\<rparr>)"

definition block_space :: "nat \<Rightarrow> core \<Rightarrow> reason \<Rightarrow> sched \<Rightarrow> spaces \<Rightarrow> (sched \<times> spaces) res" where
  "block_space n c r s x =
     (case entered s c of (core_id, me) \<Rightarrow>
      case dequeue Ready s of
        (s', None) \<Rightarrow>
          if can_return r then Inr (s'\<lparr>wants := (wants s')(c := None)\<rparr>, x)
          else if is_idle n me then
            bindE (ASSERT (core_id = c) ''core_id == SMP::me()'') (\<lambda>_.
            bindE (ASSERT (\<not> if_off s' (active s' c)) ''!Interrupts::isDisabled()'') (\<lambda>_.
            bindE (ASSERT (me = core_id) ''me == idleThreads[core_id]'') (\<lambda>_.
            bindE (ASSERT (me = active s' core_id) ''me == activeThreads[core_id]'') (\<lambda>_. Inr (s', x)))))
          else Inr (switch_to c core_id me core_id r s', switch_space core_id core_id x)
      | (s', Some t) \<Rightarrow> Inr (switch_to c core_id me t r s', switch_space core_id t x))"

text \<open>\<open>~Process\<close>, run by the core that deletes the last thread of the process, with the assertion of \<open>destroy_pd\<close>.\<close>

definition destroy_process :: "core \<Rightarrow> pid \<Rightarrow> spaces \<Rightarrow> spaces res" where
  "destroy_process c p x =
     bindE (ASSERT (pcb_cr3 x p \<noteq> pcb_cr3 x 0) ''cr3 != (uint32_t) VMM::kpd'') (\<lambda>_.
     bindE (ASSERT (pcb_cr3 x p \<noteq> core_cr3 x c) ''p != getCR3()'') (\<lambda>_. Inr (x\<lparr>dead := insert p (dead x)\<rparr>)))"

definition reap_space :: "core \<Rightarrow> sched \<Rightarrow> spaces \<Rightarrow> (sched \<times> spaces) res" where
  "reap_space c s x =
     (case snd (dequeue Zombies s) of
        None \<Rightarrow> Inr (reap s, x)
      | Some t \<Rightarrow> if pcb_of x t = 0 then Inr (reap s, x) else bindE (destroy_process c (pcb_of x t) x) (\<lambda>x. Inr (reap s, x)))"

section \<open>Steps\<close>

text \<open>A step of \<open>Threads\<close> that neither switches nor creates nor deletes.\<close>

definition still :: "sched \<Rightarrow> sched \<Rightarrow> bool" where
  "still s s' \<longleftrightarrow> active s' = active s \<and> next_id s' = next_id s \<and> deleted s' = deleted s"

definition unused_dir :: "u32 \<Rightarrow> spaces \<Rightarrow> bool" where
  "unused_dir d x \<longleftrightarrow> (\<forall>p < next_pcb x. p \<notin> dead x \<longrightarrow> pcb_cr3 x p \<noteq> d)"

inductive sdoes :: "nat \<Rightarrow> core \<Rightarrow> sched \<times> spaces \<Rightarrow> ((sched \<times> spaces) \<times> event list) res \<Rightarrow> bool" for n c where
  kernel_thread: "calls s c \<Longrightarrow>
    sdoes n c (s, x) (bindE (spawn n s) (\<lambda>s'. Inr ((s', new_tcb (next_id s) 0 stk x), [])))"
| process_thread: "calls s c \<Longrightarrow> unused_dir d x \<Longrightarrow>
    sdoes n c (s, x) (bindE (spawn n s) (\<lambda>s'. Inr ((s', new_tcb (next_id s) (next_pcb x) stk (new_pcb d x)), [])))"
| delete_thread: "calls s c \<Longrightarrow> sdoes n c (s, x) (bindE (reap_space c s x) (\<lambda>y. Inr (y, [])))"
| switch_thread: "wants s c = Some r \<Longrightarrow> sdoes n c (s, x) (bindE (block_space n c r s x) (\<lambda>y. Inr (y, [])))"
| other: "does n c s (Inr (s', es)) \<Longrightarrow> still s s' \<Longrightarrow> sdoes n c (s, x) (Inr ((s', x), es))"

inductive_cases sdoesE: "sdoes n c (s, x) r"

inductive srun :: "nat \<Rightarrow> sched \<times> spaces \<Rightarrow> event list \<Rightarrow> sched \<times> spaces \<Rightarrow> bool" for n y0 where
  start: "srun n y0 [] y0"
| step: "srun n y0 es y \<Longrightarrow> epochs_ok (fst y) \<Longrightarrow> c < n \<Longrightarrow> sdoes n c y (Inr (y', es')) \<Longrightarrow> srun n y0 (es @ es') y'"

text \<open>After \<open>threadsInit\<close>: all cores are in the kernel's directory.\<close>

definition spacesInit :: "u32 \<Rightarrow> spaces" where
  "spacesInit kpd = \<lparr>core_cr3 = (\<lambda>_. kpd), tss_esp0 = (\<lambda>_. 0), pcb_of = (\<lambda>_. 0), saved_esp = (\<lambda>_. 0), pcb_cr3 = (\<lambda>_. kpd),
     pcb_esp0 = (\<lambda>_. 0), next_pcb = 1, dead = {}\<rparr>"

end
