(* ===== verification/Switch_Claims.thy ===== *)
theory Switch_Claims
  imports Switch Threads_Props
begin

text \<open>
  A core is in the address space of its thread, and a process that dies is in no core: over every run of \<open>Threads\<close>, with
  the invariant of where threads are.
\<close>

section \<open>The steps of \<open>Threads\<close>\<close>

lemma block_space_block: "block n c r s = bindE (block_space n c r s x) (\<lambda>y. Inr (fst y))"
  by (auto simp: block_space_def block_def ASSERT_def split: prod.splits option.splits)

lemma reap_space_reap: "reap_space c s x = Inr (s', x') \<Longrightarrow> s' = reap s"
  by (auto simp: reap_space_def split: option.splits if_splits)

lemma sdoes_does:
  assumes "sdoes n c (s, x) (Inr ((s', x'), es))"
  shows "does n c s (Inr (s', es))"
  using assms
proof cases
  case (kernel_thread stk)
  from kernel_thread(1) [symmetric] obtain "spawn n s = Inr s'" "es = []" by auto
  then show ?thesis using does.spawn [OF kernel_thread(2), of n] by simp
next
  case (process_thread d stk)
  from process_thread(1) [symmetric] obtain "spawn n s = Inr s'" "es = []" by auto
  then show ?thesis using does.spawn [OF process_thread(2), of n] by simp
next
  case delete_thread
  from delete_thread(1) [symmetric] obtain "reap_space c s x = Inr (s', x')" "es = []" by auto
  then show ?thesis using does.reap [OF delete_thread(2), of n] reap_space_reap by auto
next
  case (switch_thread r)
  from switch_thread(1) [symmetric] obtain "block_space n c r s x = Inr (s', x')" "es = []" by auto
  then show ?thesis using does.switch [OF switch_thread(2), of n] block_space_block [of n c r s x] by simp
next
  case other
  then show ?thesis by simp
qed

lemma srun_run: "srun n (s0, x0) es y \<Longrightarrow> run n s0 es (fst y)"
proof (induction es y rule: srun.induct)
  case start
  show ?case by (simp add: run.start)
next
  case (step es y c y' es')
  have "sdoes n c (fst y, snd y) (Inr ((fst y', snd y'), es'))" using step(4) by simp
  from run.step [OF step(5,2,3) sdoes_does [OF this]] show ?case .
qed

section \<open>The invariant\<close>

definition follows :: "nat \<Rightarrow> sched \<Rightarrow> spaces \<Rightarrow> bool" where
  "follows n s x \<longleftrightarrow>
     (\<forall>c < n. core_cr3 x c = pcb_cr3 x (pcb_of x (active s c))) \<and>
     (\<forall>c < n. pcb_of x (active s c) \<noteq> 0 \<longrightarrow> tss_esp0 x c = saved_esp x (active s c)) \<and>
     (\<forall>t < n. pcb_of x t = 0) \<and> (\<forall>t < next_id s. pcb_of x t < next_pcb x) \<and>
     (\<forall>t < next_id s. \<forall>u < next_id s. pcb_of x t \<noteq> 0 \<longrightarrow> pcb_of x u = pcb_of x t \<longrightarrow> u = t) \<and>
     (\<forall>t < next_id s. pcb_of x t \<noteq> 0 \<longrightarrow> pcb_esp0 x (pcb_of x t) = saved_esp x t) \<and>
     (\<forall>t < next_id s. t \<notin> deleted s \<longrightarrow> pcb_of x t \<notin> dead x) \<and>
     (\<forall>p \<in> dead x. p \<noteq> 0 \<and> p < next_pcb x) \<and> 0 < next_pcb x \<and>
     (\<forall>p < next_pcb x. \<forall>q < next_pcb x. p \<notin> dead x \<longrightarrow> q \<notin> dead x \<longrightarrow> pcb_cr3 x p = pcb_cr3 x q \<longrightarrow> p = q)"

lemma followsD:
  assumes "follows n s x"
  shows "c < n \<Longrightarrow> core_cr3 x c = pcb_cr3 x (pcb_of x (active s c))"
    "c < n \<Longrightarrow> pcb_of x (active s c) \<noteq> 0 \<Longrightarrow> tss_esp0 x c = saved_esp x (active s c)"
    "t < n \<Longrightarrow> pcb_of x t = 0" "t < next_id s \<Longrightarrow> pcb_of x t < next_pcb x"
    "t < next_id s \<Longrightarrow> u < next_id s \<Longrightarrow> pcb_of x t \<noteq> 0 \<Longrightarrow> pcb_of x u = pcb_of x t \<Longrightarrow> u = t"
    "t < next_id s \<Longrightarrow> pcb_of x t \<noteq> 0 \<Longrightarrow> pcb_esp0 x (pcb_of x t) = saved_esp x t"
    "t < next_id s \<Longrightarrow> t \<notin> deleted s \<Longrightarrow> pcb_of x t \<notin> dead x"
    "p \<in> dead x \<Longrightarrow> p \<noteq> 0 \<and> p < next_pcb x" "0 < next_pcb x"
    "p < next_pcb x \<Longrightarrow> q < next_pcb x \<Longrightarrow> p \<notin> dead x \<Longrightarrow> q \<notin> dead x \<Longrightarrow> pcb_cr3 x p = pcb_cr3 x q \<Longrightarrow> p = q"
proof -
  note a = assms [unfolded follows_def]
  show "c < n \<Longrightarrow> core_cr3 x c = pcb_cr3 x (pcb_of x (active s c))" using a [THEN conjunct1] by blast
  note a = a [THEN conjunct2]
  show "c < n \<Longrightarrow> pcb_of x (active s c) \<noteq> 0 \<Longrightarrow> tss_esp0 x c = saved_esp x (active s c)" using a [THEN conjunct1] by blast
  note a = a [THEN conjunct2]
  show "t < n \<Longrightarrow> pcb_of x t = 0" using a [THEN conjunct1] by blast
  note a = a [THEN conjunct2]
  show "t < next_id s \<Longrightarrow> pcb_of x t < next_pcb x" using a [THEN conjunct1] by blast
  note a = a [THEN conjunct2]
  show "t < next_id s \<Longrightarrow> u < next_id s \<Longrightarrow> pcb_of x t \<noteq> 0 \<Longrightarrow> pcb_of x u = pcb_of x t \<Longrightarrow> u = t" using a [THEN conjunct1] by blast
  note a = a [THEN conjunct2]
  show "t < next_id s \<Longrightarrow> pcb_of x t \<noteq> 0 \<Longrightarrow> pcb_esp0 x (pcb_of x t) = saved_esp x t" using a [THEN conjunct1] by blast
  note a = a [THEN conjunct2]
  show "t < next_id s \<Longrightarrow> t \<notin> deleted s \<Longrightarrow> pcb_of x t \<notin> dead x" using a [THEN conjunct1] by blast
  note a = a [THEN conjunct2]
  show "p \<in> dead x \<Longrightarrow> p \<noteq> 0 \<and> p < next_pcb x" using a [THEN conjunct1] by blast
  note a = a [THEN conjunct2]
  show "0 < next_pcb x" by (rule a [THEN conjunct1])
  show "p < next_pcb x \<Longrightarrow> q < next_pcb x \<Longrightarrow> p \<notin> dead x \<Longrightarrow> q \<notin> dead x \<Longrightarrow> pcb_cr3 x p = pcb_cr3 x q \<Longrightarrow> p = q"
    using a [THEN conjunct2] by blast
qed

lemma followsI:
  assumes "\<And>c. c < n \<Longrightarrow> core_cr3 x c = pcb_cr3 x (pcb_of x (active s c))"
    "\<And>c. c < n \<Longrightarrow> pcb_of x (active s c) \<noteq> 0 \<Longrightarrow> tss_esp0 x c = saved_esp x (active s c)"
    "\<And>t. t < n \<Longrightarrow> pcb_of x t = 0" "\<And>t. t < next_id s \<Longrightarrow> pcb_of x t < next_pcb x"
    "\<And>t u. t < next_id s \<Longrightarrow> u < next_id s \<Longrightarrow> pcb_of x t \<noteq> 0 \<Longrightarrow> pcb_of x u = pcb_of x t \<Longrightarrow> u = t"
    "\<And>t. t < next_id s \<Longrightarrow> pcb_of x t \<noteq> 0 \<Longrightarrow> pcb_esp0 x (pcb_of x t) = saved_esp x t"
    "\<And>t. t < next_id s \<Longrightarrow> t \<notin> deleted s \<Longrightarrow> pcb_of x t \<notin> dead x"
    "\<And>p. p \<in> dead x \<Longrightarrow> p \<noteq> 0 \<and> p < next_pcb x" "0 < next_pcb x"
    "\<And>p q. p < next_pcb x \<Longrightarrow> q < next_pcb x \<Longrightarrow> p \<notin> dead x \<Longrightarrow> q \<notin> dead x \<Longrightarrow> pcb_cr3 x p = pcb_cr3 x q \<Longrightarrow> p = q"
  shows "follows n s x"
  unfolding follows_def
proof (intro conjI)
  show "\<forall>c < n. core_cr3 x c = pcb_cr3 x (pcb_of x (active s c))" by (intro allI impI) (rule assms(1))
  show "\<forall>c < n. pcb_of x (active s c) \<noteq> 0 \<longrightarrow> tss_esp0 x c = saved_esp x (active s c)" by (intro allI impI) (rule assms(2))
  show "\<forall>t < n. pcb_of x t = 0" by (intro allI impI) (rule assms(3))
  show "\<forall>t < next_id s. pcb_of x t < next_pcb x" by (intro allI impI) (rule assms(4))
  show "\<forall>t < next_id s. \<forall>u < next_id s. pcb_of x t \<noteq> 0 \<longrightarrow> pcb_of x u = pcb_of x t \<longrightarrow> u = t"
    by (intro allI impI) (rule assms(5))
  show "\<forall>t < next_id s. pcb_of x t \<noteq> 0 \<longrightarrow> pcb_esp0 x (pcb_of x t) = saved_esp x t" by (intro allI impI) (rule assms(6))
  show "\<forall>t < next_id s. t \<notin> deleted s \<longrightarrow> pcb_of x t \<notin> dead x" by (intro allI impI) (rule assms(7))
  show "\<forall>p \<in> dead x. p \<noteq> 0 \<and> p < next_pcb x" by (intro ballI) (rule assms(8))
  show "0 < next_pcb x" by (rule assms(9))
  show "\<forall>p < next_pcb x. \<forall>q < next_pcb x. p \<notin> dead x \<longrightarrow> q \<notin> dead x \<longrightarrow> pcb_cr3 x p = pcb_cr3 x q \<longrightarrow> p = q"
    by (intro allI impI) (rule assms(10))
qed

lemma follows_init: "follows n (threadsInit n counts) (spacesInit kpd)"
  by (auto simp: follows_def threadsInit_def spacesInit_def)

lemma active_alive:
  assumes "inv n C s" "c < n"
  shows "active s c < next_id s" "active s c \<notin> deleted s"
  using placedD(4) [OF invD(2) [OF assms(1)], of "active s c" "Act c"] assms(2) by auto

text \<open>The thread at the head of the zombies is alive, and runs nowhere.\<close>

lemma zombie_waits:
  assumes i: "inv n C s" and z: "dequeue Zombies s = (s', Some t)"
  shows "t < next_id s" "t \<notin> deleted s" "n \<le> t" "c < n \<Longrightarrow> active s c \<noteq> t" "reap s = s'\<lparr>deleted := insert t (deleted s')\<rparr>"
proof -
  note p = invD(2) [OF i]
  have "C Zombies \<noteq> []" using inv_dequeue(1) [OF invD(1) [OF i], of Zombies] z by auto
  then obtain ts where c: "C Zombies = t # ts"
    using inv_dequeue(2) [OF invD(1) [OF i], of Zombies] z by (cases "C Zombies") auto
  then have m: "t \<in> set (at n s C (Q Zombies))" by simp
  show "t < next_id s" "t \<notin> deleted s" "n \<le> t" using placedD(4) [OF p m] by auto
  show "active s c \<noteq> t" if "c < n"
  proof
    assume "active s c = t"
    then have "t \<in> set (at n s C (Act c))" using that by simp
    then show False using m apart_disj [OF placedD(1) [OF p], of t "Q Zombies" "Act c"] by auto
  qed
  show "reap s = s'\<lparr>deleted := insert t (deleted s')\<rparr>" using z by (simp add: reap_def)
qed

section \<open>Every step keeps it\<close>

lemma spawn_effect: "spawn n s = Inr s' \<Longrightarrow> active s' = active s \<and> next_id s' = next_id s + 1 \<and> deleted s' = deleted s"
  by (auto simp: spawn_def schedule_def enqueue_def split: if_splits)

text \<open>A new thread, of the kernel or of a new process.\<close>

lemma new_thread_follows:
  assumes f: "follows n s x" and i: "inv n C s" and p: "p = 0 \<or> p = next_pcb x \<and> unused_dir d x"
    and s': "active s' = active s" "next_id s' = next_id s + 1" "deleted s' = deleted s"
    and y: "y = (if p = 0 then x else new_pcb d x)"
  shows "follows n s' (new_tcb (next_id s) p stk y)"
proof -
  note d = followsD [OF f]
  have n: "n \<le> next_id s" using placedD(2) [OF invD(2) [OF i]] .
  have del: "next_id s \<notin> deleted s" using placedD(3) [OF invD(2) [OF i], of "next_id s"] by auto
  have a: "active s c < next_id s" if "c < n" for c using active_alive [OF i that] by simp
  have own: "pcb_of x t \<noteq> p" if "t < next_id s" "p \<noteq> 0" for t using d(4) [OF that(1)] p that(2) by auto
  have nd: "p \<notin> dead x" using d(8) [of p] p by auto
  let ?z = "new_tcb (next_id s) p stk y"
  have z: "pcb_of ?z = (pcb_of x)(next_id s := p)" "core_cr3 ?z = core_cr3 x" "tss_esp0 ?z = tss_esp0 x" "dead ?z = dead x"
    "pcb_cr3 ?z = (if p = 0 then pcb_cr3 x else (pcb_cr3 x)(p := d))" "next_pcb ?z = (if p = 0 then next_pcb x else next_pcb x + 1)"
    "\<And>t. t \<noteq> next_id s \<Longrightarrow> saved_esp ?z t = saved_esp x t" "\<And>q. q \<noteq> p \<Longrightarrow> pcb_esp0 ?z q = pcb_esp0 x q"
    "pcb_esp0 ?z p = saved_esp ?z (next_id s)"
    using p y by (auto simp: new_tcb_def new_pcb_def Let_def)
  have c1: "core_cr3 ?z c = pcb_cr3 ?z (pcb_of ?z (active s' c))" if "c < n" for c
    using d(1) [OF that] a [OF that] own [OF a [OF that]] by (simp add: z(1,2,5) s'(1))
  have c2: "tss_esp0 ?z c = saved_esp ?z (active s' c)" if "c < n" "pcb_of ?z (active s' c) \<noteq> 0" for c
    using d(2) [OF that(1)] that a [OF that(1)] z(7) [of "active s c"] by (simp add: z(1,3) s'(1))
  have c3: "pcb_of ?z t = 0" if "t < n" for t using d(3) [OF that] that n by (simp add: z(1))
  have c4: "pcb_of ?z t < next_pcb ?z" if "t < next_id s'" for t
    using d(4) [of t] d(9) p that by (auto simp: z(1,6) s'(2) less_Suc_eq)
  have c5: "u = t" if "t < next_id s'" "u < next_id s'" "pcb_of ?z t \<noteq> 0" "pcb_of ?z u = pcb_of ?z t" for t u
  proof (cases "t = next_id s")
    case True
    show ?thesis
    proof (rule ccontr)
      assume "u \<noteq> t"
      then have "u < next_id s" "pcb_of ?z u = pcb_of x u" "pcb_of ?z t = p" using that(2) True by (simp_all add: z(1) s'(2))
      then show False using own [of u] that(3,4) by simp
    qed
  next
    case False
    then have t: "t < next_id s" "pcb_of ?z t = pcb_of x t" using that(1) by (simp_all add: z(1) s'(2))
    show ?thesis
    proof (cases "u = next_id s")
      case True
      then have "pcb_of x t = p" using that(4) t(2) by (simp add: z(1))
      then show ?thesis using own [OF t(1)] that(3) t(2) by simp
    next
      case False
      then have u: "u < next_id s" "pcb_of ?z u = pcb_of x u" using that(2) by (simp_all add: z(1) s'(2))
      show ?thesis using d(5) [OF t(1) u(1)] that(3,4) unfolding t(2) u(2) by blast
    qed
  qed
  have c6: "pcb_esp0 ?z (pcb_of ?z t) = saved_esp ?z t" if "t < next_id s'" "pcb_of ?z t \<noteq> 0" for t
  proof (cases "t = next_id s")
    case True
    then show ?thesis using z(9) by (simp add: z(1))
  next
    case False
    then have t: "t < next_id s" "pcb_of x t \<noteq> 0" "pcb_of ?z t = pcb_of x t" using that s'(2) by (auto simp: z(1))
    then have "pcb_of x t \<noteq> p" using own by (cases "p = 0") auto
    then show ?thesis using d(6) [OF t(1,2)] z(7) [OF False] z(8) t(3) by simp
  qed
  have c7: "pcb_of ?z t \<notin> dead ?z" if "t < next_id s'" "t \<notin> deleted s'" for t
    using that d(7) [of t] nd by (auto simp: z(1,4) s'(2,3) less_Suc_eq)
  have c8: "q \<noteq> 0 \<and> q < next_pcb ?z" if "q \<in> dead ?z" for q using that d(8) [of q] by (auto simp: z(4,6))
  have c9: "q = q'" if q: "q < next_pcb ?z" "q' < next_pcb ?z" "q \<notin> dead ?z" "q' \<notin> dead ?z" "pcb_cr3 ?z q = pcb_cr3 ?z q'" for q q'
  proof (cases "p = 0")
    case True
    show ?thesis using q [unfolded z(4-6) if_P [OF True]] by (intro d(10))
  next
    case False
    then have "p = next_pcb x" and un: "\<And>r. r < next_pcb x \<Longrightarrow> r \<notin> dead x \<Longrightarrow> pcb_cr3 x r \<noteq> d"
      using p by (auto simp: unused_dir_def)
    note q = q [unfolded z(4-6) if_not_P [OF False]]
    have old: "r < next_pcb x" "((pcb_cr3 x)(p := d)) r = pcb_cr3 x r" if "r < next_pcb x + 1" "r \<noteq> p" for r
      using that \<open>p = next_pcb x\<close> by simp_all
    show ?thesis
    proof (cases "q = p"; cases "q' = p")
      assume a: "q = p" "q' \<noteq> p"
      then have "pcb_cr3 x q' = d" using q(5) by simp
      then show ?thesis using un [OF old(1) [OF q(2) a(2)] q(4)] by simp
    next
      assume a: "q \<noteq> p" "q' = p"
      then have "pcb_cr3 x q = d" using q(5) by simp
      then show ?thesis using un [OF old(1) [OF q(1) a(1)] q(3)] by simp
    next
      assume a: "q \<noteq> p" "q' \<noteq> p"
      show ?thesis using d(10) [OF old(1) [OF q(1) a(1)] old(1) [OF q(2) a(2)] q(3,4)] q(5) a by simp
    qed simp
  qed
  show ?thesis
  proof (rule followsI)
    show "0 < next_pcb ?z" using d(9) by (simp add: z(6))
  qed (rule c1 c2 c3 c4 c5 c6 c7 c8 c9; assumption)+
qed

lemma switch_follows:
  assumes f: "follows n s x" and c: "c < n"
    and s': "active s' = (active s)(c := t)" "next_id s' = next_id s" "deleted s' = deleted s" and t: "t < next_id s"
  shows "follows n s' (switch_space c t x)"
proof -
  note d = followsD [OF f]
  let ?z = "switch_space c t x"
  have z: "pcb_of ?z = pcb_of x" "pcb_cr3 ?z = pcb_cr3 x" "saved_esp ?z = saved_esp x" "pcb_esp0 ?z = pcb_esp0 x" "next_pcb ?z = next_pcb x"
    "dead ?z = dead x" "core_cr3 ?z = (core_cr3 x)(c := pcb_cr3 x (pcb_of x t))" "tss_esp0 ?z = (tss_esp0 x)(c := pcb_esp0 x (pcb_of x t))"
    by (auto simp: switch_space_def Let_def)
  show ?thesis
  proof (rule followsI, unfold z s')
    show "((core_cr3 x)(c := pcb_cr3 x (pcb_of x t))) e = pcb_cr3 x (pcb_of x (((active s)(c := t)) e))" if "e < n" for e
      using d(1) [OF that] by simp
    show "((tss_esp0 x)(c := pcb_esp0 x (pcb_of x t))) e = saved_esp x (((active s)(c := t)) e)"
      if "e < n" "pcb_of x (((active s)(c := t)) e) \<noteq> 0" for e
      using d(2) [OF that(1)] d(6) [OF t] that(2) by (cases "e = c") simp_all
  qed (rule d; assumption)+
qed

lemma block_follows:
  assumes f: "follows n s x" and i: "inv n C s" and c: "c < n" and w: "wants s c = Some r" and b: "block_space n c r s x = Inr (s', x')"
  shows "follows n s' x'"
proof (cases "C Ready")
  case Nil
  note W = invD(4) [OF i w]
  note q = inv_dequeue(1) [OF invD(1) [OF i] Nil]
  have n: "c < next_id s" using placedD(2) [OF invD(2) [OF i]] c by simp
  show ?thesis
  proof (cases "can_return r")
    case True
    then have "x' = x" "active s' = active s" "next_id s' = next_id s" "deleted s' = deleted s"
      using b q W by (auto simp: block_space_def)
    then show ?thesis using f by (simp add: follows_def)
  next
    case must: False
    show ?thesis
    proof (cases "is_idle n (active s c)")
      case True
      then have "s' = s" "x' = x" using b q W must by (auto simp: block_space_def)
      then show ?thesis using f by simp
    next
      case False
      then have "s' = switch_to c c (active s c) c r s" "x' = switch_space c c x" using b q W must by (auto simp: block_space_def)
      then show ?thesis using switch_follows [OF f c _ _ _ n, of s'] by (simp add: switch_to_def)
    qed
  qed
next
  case (Cons t ts)
  then obtain v where q: "dequeue Ready s = (s\<lparr>qs := v\<rparr>, Some t)" using inv_dequeue(2) [OF invD(1) [OF i] Cons] by blast
  have "t < next_id s" using placedD(4) [OF invD(2) [OF i], of t "Q Ready"] Cons by simp
  moreover have "s' = switch_to c c (active s c) t r (s\<lparr>qs := v\<rparr>)" "x' = switch_space c t x"
    using b q invD(4) [OF i w] by (auto simp: block_space_def)
  ultimately show ?thesis using switch_follows [OF f c, of s' t] by (simp add: switch_to_def)
qed

text \<open>The process of a zombie is in no core, and its directory is not the kernel's.\<close>

lemma zombie_process_unused:
  assumes f: "follows n s x" and i: "inv n C s" and z: "dequeue Zombies s = (s', Some t)" and p: "pcb_of x t \<noteq> 0"
  shows "c < n \<Longrightarrow> core_cr3 x c \<noteq> pcb_cr3 x (pcb_of x t)" "pcb_cr3 x (pcb_of x t) \<noteq> pcb_cr3 x 0"
proof -
  note d = followsD [OF f] and zw = zombie_waits [OF i z]
  have al: "pcb_of x t \<notin> dead x" "pcb_of x t < next_pcb x" using d(4,7) zw(1,2) by auto
  show "core_cr3 x c \<noteq> pcb_cr3 x (pcb_of x t)" if c: "c < n"
  proof
    note a = active_alive [OF i c]
    assume "core_cr3 x c = pcb_cr3 x (pcb_of x t)"
    then have "pcb_cr3 x (pcb_of x (active s c)) = pcb_cr3 x (pcb_of x t)" using d(1) [OF c] by simp
    then have "pcb_of x (active s c) = pcb_of x t" using d(10) [OF d(4) [OF a(1)] al(2) d(7) [OF a] al(1)] by blast
    then have "active s c = t" using d(5) [OF zw(1) a(1) p] by blast
    then show False using zw(4) [OF c] by blast
  qed
  show "pcb_cr3 x (pcb_of x t) \<noteq> pcb_cr3 x 0"
    using d(10) [OF al(2) d(9) al(1)] d(8) [of 0] p by blast
qed

lemma reap_follows:
  assumes f: "follows n s x" and i: "inv n C s" and c: "c < n"
  shows "\<exists>s' x'. reap_space c s x = Inr (s', x') \<and> follows n s' x'"
proof (cases "dequeue Zombies s")
  case (Pair s1 r)
  note d = followsD [OF f]
  show ?thesis
  proof (cases r)
    case None
    then have "reap s = s1" "active s1 = active s" "next_id s1 = next_id s" "deleted s1 = deleted s"
      using Pair by (auto simp: reap_def dequeue_def split: prod.splits)
    then show ?thesis using f Pair None by (simp add: reap_space_def follows_def)
  next
    case (Some t)
    have z: "dequeue Zombies s = (s1, Some t)" using Pair Some by simp
    note zw = zombie_waits [OF i z] and zu = zombie_process_unused [OF f i z]
    have same: "active (reap s) = active s" "next_id (reap s) = next_id s" "deleted (reap s) = insert t (deleted s)"
      using z zw(5) by (auto simp: dequeue_def split: prod.splits)
    show ?thesis
    proof (cases "pcb_of x t = 0")
      case True
      then have "reap_space c s x = Inr (reap s, x)" using z by (simp add: reap_space_def)
      moreover have "follows n (reap s) x"
      proof (rule followsI, unfold same)
        show "pcb_of x u \<notin> dead x" if "u < next_id s" "u \<notin> insert t (deleted s)" for u using d(7) [OF that(1)] that(2) by simp
      qed (rule d; assumption)+
      ultimately show ?thesis by blast
    next
      case False
      let ?x = "x\<lparr>dead := insert (pcb_of x t) (dead x)\<rparr>"
      have x: "core_cr3 ?x = core_cr3 x" "tss_esp0 ?x = tss_esp0 x" "pcb_of ?x = pcb_of x" "saved_esp ?x = saved_esp x"
        "pcb_cr3 ?x = pcb_cr3 x" "pcb_esp0 ?x = pcb_esp0 x" "next_pcb ?x = next_pcb x" "dead ?x = insert (pcb_of x t) (dead x)"
        by simp_all
      have "reap_space c s x = Inr (reap s, ?x)"
        using z False zu(1) [OF False c] zu(2) [OF False] by (simp add: reap_space_def destroy_process_def)
      moreover have "follows n (reap s) ?x"
      proof (rule followsI, unfold same x)
        show "pcb_of x u \<notin> insert (pcb_of x t) (dead x)" if "u < next_id s" "u \<notin> insert t (deleted s)" for u
          using that d(7) [of u] d(5) [OF zw(1) that(1) False] by auto
        show "p \<noteq> 0 \<and> p < next_pcb x" if "p \<in> insert (pcb_of x t) (dead x)" for p
          using that d(8) [of p] d(4) [OF zw(1)] False by auto
        show "p = q" if "p < next_pcb x" "q < next_pcb x" "p \<notin> insert (pcb_of x t) (dead x)" "q \<notin> insert (pcb_of x t) (dead x)"
            "pcb_cr3 x p = pcb_cr3 x q" for p q
          using d(10) [OF that(1,2) _ _ that(5)] that(3,4) by simp
      qed (rule d; assumption)+
      ultimately show ?thesis by blast
    qed
  qed
qed

text \<open>What a step leaves is followed.\<close>

lemma other_follows: "follows n s x \<Longrightarrow> still s s' \<Longrightarrow> follows n s' x"
  by (simp add: follows_def still_def)

lemma sdoes_follows:
  assumes f: "follows n s x" and i: "inv n C s" and c: "c < n" and st: "sdoes n c (s, x) (Inr ((s', x'), es))"
  shows "follows n s' x'"
  using st
proof cases
  case (kernel_thread stk)
  from kernel_thread(1) [symmetric] obtain "spawn n s = Inr s'" "x' = new_tcb (next_id s) 0 stk x" by auto
  then show ?thesis using new_thread_follows [OF f i, of 0 0 s' x stk] spawn_effect by simp
next
  case (process_thread d stk)
  from process_thread(1) [symmetric] obtain "spawn n s = Inr s'" "x' = new_tcb (next_id s) (next_pcb x) stk (new_pcb d x)" by auto
  moreover have "next_pcb x \<noteq> 0" using followsD(9) [OF f] by simp
  ultimately show ?thesis
    using new_thread_follows [OF f i, of "next_pcb x" d s' "new_pcb d x" stk] process_thread(3) spawn_effect by simp
next
  case delete_thread
  from delete_thread(1) [symmetric] have "reap_space c s x = Inr (s', x')" by auto
  then show ?thesis using reap_follows [OF f i c] by auto
next
  case (switch_thread q)
  from switch_thread(1) [symmetric] have "block_space n c q s x = Inr (s', x')" by auto
  then show ?thesis by (rule block_follows [OF f i c switch_thread(2)])
next
  case other
  then show ?thesis using other_follows [OF f] by blast
qed

lemma srun_follows:
  "srun n (threadsInit n counts, spacesInit kpd) es y \<Longrightarrow> \<exists>C. inv n C (fst y) \<and> follows n (fst y) (snd y)"
proof (induction rule: srun.induct)
  case start
  show ?case using inv_init follows_init by auto
next
  case (step es y c y' es')
  obtain C where i: "inv n C (fst y)" and f: "follows n (fst y) (snd y)" using step(5) by blast
  have st: "sdoes n c (fst y, snd y) (Inr ((fst y', snd y'), es'))" using step(4) by simp
  have "\<exists>C. inv n C (fst y')" using run_inv [OF srun_run [OF srun.step [OF step(1-4)]]] by simp
  moreover have "follows n (fst y') (snd y')" by (rule sdoes_follows [OF f i step(3) st])
  ultimately show ?case by blast
qed

text \<open>No step is lost: what a core can do in \<open>Threads\<close>, it can do here.\<close>

lemma still_refl [simp]: "still s s"
  by (simp add: still_def)

lemma still_trans: "still a b \<Longrightarrow> still b c \<Longrightarrow> still a c"
  by (simp add: still_def)

lemma still_update [simp]: "still s (s'\<lparr>wants := w\<rparr>) = still s s'" "still s (s'\<lparr>locked := l\<rparr>) = still s s'"
  "still s (s'\<lparr>qs := v\<rparr>) = still s s'" "still s (s'\<lparr>hand := h\<rparr>) = still s s'" "still s (s'\<lparr>pending := p\<rparr>) = still s s'"
  "still s (s'\<lparr>sem_count := k\<rparr>) = still s s'" "still s (s'\<lparr>epoch := e\<rparr>) = still s s'"
  "still (s\<lparr>epoch := e\<rparr>) s' = still s s'" "still (s\<lparr>hand := h\<rparr>) s' = still s s'" "still (s\<lparr>pending := p\<rparr>) s' = still s s'"
  "still (s\<lparr>locked := l\<rparr>) s' = still s s'"
  by (simp_all add: still_def)

lemma still_flags [simp]: "still s (s'\<lparr>entered := e\<rparr>) = still s s'" "still s (s'\<lparr>stopping := st\<rparr>) = still s s'"
  "still s (s'\<lparr>if_off := f\<rparr>) = still s s'" "still s (s'\<lparr>lock_was := w\<rparr>) = still s s'"
  by (simp_all add: still_def)

lemma still_locks [simp]: "still s (take_lock v c s') = still s s'" "still s (drop_lock v c s') = still s s'"
  "still s (handler_lock v s') = still s s'" "still s (handler_unlock v s') = still s s'"
  "still s (fst (enter c r s')) = still s s'"
  by (simp_all add: take_lock_def drop_lock_def handler_lock_def handler_unlock_def enter_def Let_def)

lemma still_from_lock: "still (handler_lock v s) s' = still s s'"
  by (simp add: still_def handler_lock_def)

lemma still_enqueue: "enqueue q t s = Inr s' \<Longrightarrow> still s s'"
  by (auto simp: enqueue_def)

lemma still_dequeue: "dequeue q s = (s', r) \<Longrightarrow> still s s'"
  by (auto simp: dequeue_def split: prod.splits)

lemma still_schedule: "schedule n t s = Inr s' \<Longrightarrow> still s s'"
  by (auto simp: schedule_def dest: still_enqueue split: if_splits)

lemma still_notify_loop: "notify_loop n v i s = Inr s' \<Longrightarrow> still s s'"
proof (induction i arbitrary: s)
  case (Suc i)
  obtain s1 r where d: "dequeue (CondQ v) s = (s1, r)" by (cases "dequeue (CondQ v) s")
  show ?case
  proof (cases r)
    case None
    then show ?thesis using Suc.prems d still_dequeue [OF d] by simp
  next
    case (Some t)
    then obtain s2 where s: "schedule n t s1 = Inr s2" "notify_loop n v i s2 = Inr s'"
      using Suc.prems d by (cases "schedule n t s1") auto
    show ?thesis using still_trans [OF still_dequeue [OF d] still_trans [OF still_schedule [OF s(1)] Suc.IH [OF s(2)]]] .
  qed
qed simp

lemma still_notify: "notify n v l s = Inr s' \<Longrightarrow> still s s'"
  by (auto simp: notify_def dest: still_notify_loop split: if_splits)

lemma still_reaper_put: "reaper_put n t s = Inr s' \<Longrightarrow> still s s'"
proof -
  assume "reaper_put n t s = Inr s'"
  then obtain s1 s2 where s: "enqueue Zombies t (handler_lock 0 s) = Inr s1" "notify n 0 1 s1 = Inr s2" "s' = handler_unlock 0 s2"
    by (auto simp: reaper_put_def notifyOne_def)
  show ?thesis using still_trans [OF still_enqueue [OF s(1)] still_notify [OF s(2)]] s(3) by (simp add: still_from_lock)
qed

lemma still_handler: "handler n r me c s = Inr (s', es) \<Longrightarrow> still s s'"
  by (cases r) (auto simp: handler_def yield_handler_def stop_handler_def sem_wait_handler_def sem_dec_def cond_wait_handler_def Let_def
    still_from_lock dest: still_schedule still_enqueue still_reaper_put split: if_splits)

lemma does_sdoes:
  assumes f: "follows n s x" and i: "inv n C s" and c: "c < n" and d: "does n c s (Inr (s', es))"
  shows "\<exists>x'. sdoes n c (s, x) (Inr ((s', x'), es))"
proof -
  have o: "still s s' \<Longrightarrow> ?thesis" using sdoes.other [OF d] by blast
  show ?thesis using d
proof cases
  case spawn
  from spawn(1) [symmetric] obtain "spawn n s = Inr s'" "es = []" by auto
  then show ?thesis using sdoes.kernel_thread [OF spawn(2), of n x] by auto
next
  case reap
  obtain s1 x1 where "reap_space c s x = Inr (s1, x1)" using reap_follows [OF f i c] by blast
  then show ?thesis using sdoes.delete_thread [OF reap(3), of n x] reap reap_space_reap by auto
next
  case (switch r)
  from switch(1) [symmetric] obtain "block n c r s = Inr s'" "es = []" by auto
  then obtain x' where "block_space n c r s x = Inr (s', x')" using block_space_block [of n c r s x] by auto
  then show ?thesis using sdoes.switch_thread [OF switch(2), of n x] \<open>es = []\<close> by auto
next
  case yield
  then show ?thesis by (intro o) (cases "enter c Yielding s"; auto simp: enter_def Let_def)
next
  case stop
  then show ?thesis by (intro o) (auto simp: stop_def enter_def Let_def)
next
  case (down k)
  then show ?thesis by (intro o) (auto simp: sem_down_def sem_dec_def enter_def Let_def split: if_splits)
next
  case (up k)
  then show ?thesis by (intro o) (auto simp: sem_up_def dest!: still_dequeue split: prod.splits option.splits)
next
  case (wait v)
  from wait(1) [symmetric] show ?thesis by (intro o) (auto simp: cond_wait_def enter_def Let_def)
next
  case (notify v l)
  from notify(1) [symmetric] show ?thesis using still_notify by (intro o) auto
next
  case again
  from again(1) [symmetric] show ?thesis by (intro o) (auto simp: stop_again_def)
next
  case (handle me r)
  then have "handler n r me c (s\<lparr>pending := (pending s)(c := None)\<rparr>) = Inr (s', es)" by simp
  from still_handler [OF this] show ?thesis by (intro o) simp
next
  case (ready t ts)
  from ready(1) [symmetric] obtain s1 where "schedule n t (s\<lparr>hand := (hand s)(c := ts)\<rparr>) = Inr s1" "s' = s1" by auto
  then show ?thesis using still_schedule by (intro o) fastforce
qed (rule o, simp)+
qed

section \<open>Claims\<close>

text \<open>A run on one core: a process is created, the idle thread yields to it, it stops.\<close>

definition w_space :: spaces where
  "w_space = new_tcb 1 1 0x200000 (new_pcb 0x8000 (spacesInit 0x4000))"

definition w_yield :: sched where
  "w_yield = fst (enter 0 Yielding created)"

definition result :: "'x res \<Rightarrow> 'x" where
  "result r = (case r of Inr x \<Rightarrow> x)"

definition w_runs :: "sched \<times> spaces" where
  "w_runs = result (block_space 1 0 Yielding w_yield w_space)"

definition w_stop :: sched where
  "w_stop = fst (stop 0 ((fst w_runs)\<lparr>pending := (pending (fst w_runs))(0 := None)\<rparr>))"

definition w_idle :: "sched \<times> spaces" where
  "w_idle = result (block_space 1 0 Stopping w_stop (snd w_runs))"

definition w_zombie :: sched where
  "w_zombie = result (reaper_put 1 1 ((fst w_idle)\<lparr>pending := (pending (fst w_idle))(0 := None)\<rparr>))"

lemmas w_defs = w_space_def w_yield_def created_def one_core_def threadsInit_def spacesInit_def new_pcb_def new_tcb_def enter_def

lemma w_runs_eq: "w_runs = (one_core\<lparr>next_id := 2, active := (\<lambda>c. c)(0 := 1), pending := (\<lambda>_. None)(0 := Some (0, Yielding))\<rparr>,
    w_space\<lparr>core_cr3 := (\<lambda>_. 0x4000)(0 := 0x8000), tss_esp0 := (\<lambda>_. 0)(0 := saved_esp w_space 1)\<rparr>)"
  "block_space 1 0 Yielding w_yield w_space = Inr w_runs"
  by (auto simp: w_runs_def result_def w_defs block_space_def dequeue_def qs_remove_def q_remove_def switch_to_def switch_space_def Let_def
    empty_q_def fun_eq_iff)

lemma w_run: "srun 1 (threadsInit 1 (\<lambda>_. 1), spacesInit 0x4000) [Blocks 0 Yielding True] w_runs"
proof -
  have e: "epochs_ok one_core" "epochs_ok created" "epochs_ok w_yield"
    by (simp_all add: epochs_ok_def w_yield_def enter_def Let_def created_def one_core_def threadsInit_def)
  have r: "calls one_core 0" "calls created 0" by (simp_all add: calls_def runs_def created_def one_core_def threadsInit_def)
  have "spawn 1 one_core = Inr created"
    by (auto simp: spawn_def schedule_def is_idle_def enqueue_def one_core_def threadsInit_def created_def
      qs_add_def q_add_def empty_q_def fun_eq_iff)
  moreover have "unused_dir 0x8000 (spacesInit 0x4000)" "next_id one_core = 1" "next_pcb (spacesInit 0x4000) = 1"
    by (simp_all add: unused_dir_def spacesInit_def one_core_def threadsInit_def)
  ultimately have "sdoes 1 0 (one_core, spacesInit 0x4000) (Inr ((created, w_space), []))"
    using sdoes.process_thread [OF r(1), of "0x8000" "spacesInit 0x4000" 1 "0x200000"] by (simp add: w_space_def)
  from srun.step [OF srun.start _ _ this]
  have 1: "srun 1 (one_core, spacesInit 0x4000) [] (created, w_space)" using e(1) by simp
  have y: "enter 0 Yielding created = (w_yield, [Blocks 0 Yielding True])"
    by (simp add: w_yield_def enter_def Let_def created_def one_core_def threadsInit_def)
  have "sdoes 1 0 (created, w_space) (Inr ((w_yield, w_space), [Blocks 0 Yielding True]))"
    by (rule sdoes.other [OF does.yield [OF r(2), of 1, unfolded y]]) (simp add: w_yield_def)
  from srun.step [OF 1 _ _ this]
  have 2: "srun 1 (one_core, spacesInit 0x4000) [Blocks 0 Yielding True] (w_yield, w_space)" using e(2) by simp
  have "wants w_yield 0 = Some Yielding" by (simp add: w_yield_def enter_def Let_def)
  from sdoes.switch_thread [OF this, of 1 w_space, unfolded w_runs_eq(2)] have "sdoes 1 0 (w_yield, w_space) (Inr (w_runs, []))" by simp
  from srun.step [OF 2 _ _ this] e(3) show ?thesis by (simp add: one_core_def)
qed

lemma w_idle_eq: "w_idle = ((fst w_runs)\<lparr>active := (\<lambda>c. c)(0 := 0), pending := (\<lambda>_. None)(0 := Some (1, Stopping)),
      stopping := {1}, entered := (\<lambda>c. (c, c))(0 := (0, 1))\<rparr>,
    (snd w_runs)\<lparr>core_cr3 := (\<lambda>_. 0x4000)(0 := 0x4000), tss_esp0 := (\<lambda>_. 0)(0 := 0)\<rparr>)"
  "block_space 1 0 Stopping w_stop (snd w_runs) = Inr w_idle"
  by (auto simp: w_idle_def result_def w_stop_def stop_def w_runs_eq(1) w_defs block_space_def dequeue_def qs_remove_def q_remove_def switch_to_def
    switch_space_def can_return_def is_idle_def Let_def empty_q_def fun_eq_iff)

lemma w_zombie_eq: "reaper_put 1 1 ((fst w_idle)\<lparr>pending := (pending (fst w_idle))(0 := None)\<rparr>) = Inr w_zombie"
  "snd (dequeue Zombies w_zombie) = Some 1"
proof -
  let ?s = "(fst w_idle)\<lparr>pending := (pending (fst w_idle))(0 := None), locked := (\<lambda>_. False)(0 := True), lock_was := (\<lambda>_. False)(0 := True)\<rparr>"
  let ?z = "?s\<lparr>qs := (\<lambda>_. None, (\<lambda>_. empty_q)(Zombies := \<lparr>qfirst = Some 1, qlast = Some 1\<rparr>))\<rparr>"
  have l: "locked (fst w_idle) = (\<lambda>_. False)" "lock_was (fst w_idle) = (\<lambda>_. False)" "qs (fst w_idle) = (\<lambda>_. None, \<lambda>_. empty_q)" "epoch (fst w_idle) = (\<lambda>_. 0)"
    by (simp_all add: w_idle_eq(1) w_runs_eq(1) one_core_def threadsInit_def)
  have 1: "enqueue Zombies 1 ?s = Inr ?z" using l(3) by (simp add: enqueue_def qs_add_def q_add_def empty_q_def)
  let ?n = "?s\<lparr>epoch := (\<lambda>_. 0)(0 := 1), qs := (\<lambda>_. None, (\<lambda>_. empty_q)(Zombies := \<lparr>qfirst = Some 1, qlast = Some 1\<rparr>))\<rparr>"
  have q: "(\<lambda>_. e)(Zombies := a, CondQ 0 := e) = (\<lambda>_. e)(Zombies := a)" for a e :: tq by (auto simp: fun_eq_iff)
  have 2: "notifyOne 1 0 ?z = Inr ?n"
    using l(4) q [of empty_q] by (simp add: notifyOne_def notify_def dequeue_def qs_remove_def q_remove_def empty_q_def eval_nat_numeral)
  have 3: "reaper_put 1 1 ((fst w_idle)\<lparr>pending := (pending (fst w_idle))(0 := None)\<rparr>) =
      Inr (?n\<lparr>locked := (\<lambda>_. False)(0 := True, 0 := False)\<rparr>)"
    using 1 2 l(1,2) by (simp add: reaper_put_def handler_lock_def handler_unlock_def)
  then show "reaper_put 1 1 ((fst w_idle)\<lparr>pending := (pending (fst w_idle))(0 := None)\<rparr>) = Inr w_zombie"
    by (simp add: w_zombie_def result_def)
  show "snd (dequeue Zombies w_zombie) = Some 1"
    using 3 by (simp add: w_zombie_def result_def dequeue_def qs_remove_def q_remove_def)
qed

lemma w_zombie_run:
  "srun 1 (threadsInit 1 (\<lambda>_. 1), spacesInit 0x4000) [Blocks 0 Yielding True, Blocks 1 Stopping False] (w_zombie, snd w_idle)"
proof -
  let ?y = "Blocks 0 Yielding True" and ?z = "Blocks 1 Stopping False"
  let ?r = "\<lambda>es y. srun 1 (threadsInit 1 (\<lambda>_. 1), spacesInit 0x4000) es y"
  let ?s = "(fst w_runs)\<lparr>pending := (pending (fst w_runs))(0 := None)\<rparr>"
  have s: "wants (fst w_runs) 0 = None" "pending (fst w_runs) 0 = Some (0, Yielding)" "calls ?s 0" "wants w_stop 0 = Some Stopping"
    "epoch (fst w_runs) = (\<lambda>_. 0)" "epoch ?s = (\<lambda>_. 0)" "epoch w_stop = (\<lambda>_. 0)" "epoch (fst w_idle) = (\<lambda>_. 0)"
    "pending (fst w_idle) 0 = Some (1, Stopping)" "\<not> locked (fst w_idle) 0"
    by (simp_all add: w_stop_def stop_def enter_def Let_def w_idle_eq(1) w_runs_eq(1) one_core_def threadsInit_def calls_def runs_def)
  have "does 1 0 (fst w_runs) (Inr (?s, []))"
    using does.handle [OF s(2), of 1] by (simp add: handler_def handler_ready_def yield_handler_def schedule_def is_idle_def)
  from srun.step [OF w_run _ _ sdoes.other [OF this, of "snd w_runs", unfolded prod.collapse]]
  have 1: "?r [?y] (?s, snd w_runs)" using s(5) by (simp add: epochs_ok_def)
  have st: "stop 0 ?s = (w_stop, [?z])"
    by (simp add: w_stop_def stop_def enter_def Let_def w_runs_eq(1) one_core_def threadsInit_def)
  have "still ?s w_stop" by (simp add: w_stop_def stop_def enter_def Let_def)
  from srun.step [OF 1 _ _ sdoes.other [OF does.stop [OF s(3), of 1, unfolded st] this]]
  have 2: "?r [?y, ?z] (w_stop, snd w_runs)" using s(6) by (simp add: epochs_ok_def)
  have "sdoes 1 0 (w_stop, snd w_runs) (Inr (w_idle, []))"
    using sdoes.switch_thread [OF s(4), of 1 "snd w_runs", unfolded w_idle_eq(2)] by simp
  from srun.step [OF 2 _ _ this]
  have 3: "?r [?y, ?z] w_idle" using s(7) by (simp add: epochs_ok_def)
  have "does 1 0 (fst w_idle) (Inr (w_zombie, []))"
    using does.handle [OF s(9), of 1] w_zombie_eq(1) s(10) by (simp add: handler_def handler_ready_def stop_handler_def is_idle_def)
  moreover have "still (fst w_idle) w_zombie" using still_reaper_put [OF w_zombie_eq(1)] by simp
  ultimately show ?thesis
    using srun.step [OF 3 _ _ sdoes.other [of 1 0 "fst w_idle" w_zombie "[]" "snd w_idle", unfolded prod.collapse]] s(8)
    by (simp add: epochs_ok_def)
qed

text \<open>
  C16. In every run of the cores, with processes created and deleted, each core is in the address space of the thread it
  runs: CR3 is the directory of that thread's process, the process is not dead, no other living process has that directory;
  and a trap in a user process is taken on that thread's own kernel stack.
\<close>

theorem directory_follows:
  assumes "srun n (threadsInit n counts, spacesInit kpd) es (s, x)" "c < n"
  defines "p \<equiv> pcb_of x (active s c)"
  shows "core_cr3 x c = pcb_cr3 x p \<and> p \<notin> dead x \<and> (p \<noteq> 0 \<longrightarrow> tss_esp0 x c = saved_esp x (active s c)) \<and>
    (\<forall>q < next_pcb x. q \<notin> dead x \<longrightarrow> pcb_cr3 x q = core_cr3 x c \<longrightarrow> q = p)"
proof -
  obtain C where i: "inv n C s" and f: "follows n s x" using srun_follows [OF assms(1)] by auto
  note d = followsD [OF f] and a = active_alive [OF i assms(2)]
  have p: "p < next_pcb x" "p \<notin> dead x" using d(4) [OF a(1)] d(7) [OF a] by (simp_all add: p_def)
  have "core_cr3 x c = pcb_cr3 x p" using d(1) [OF assms(2)] by (simp add: p_def)
  moreover have "p \<noteq> 0 \<longrightarrow> tss_esp0 x c = saved_esp x (active s c)" using d(2) [OF assms(2)] by (simp add: p_def)
  ultimately show ?thesis using p d(10) by metis
qed

theorem directory_follows_witness:
  "core_cr3 (snd w_runs) 0 = 0x8000 \<and> pcb_of (snd w_runs) (active (fst w_runs) 0) = 1 \<and> tss_esp0 (snd w_runs) 0 = 0x201FF8"
proof -
  have "srun 1 (threadsInit 1 (\<lambda>_. 1), spacesInit 0x4000) [Blocks 0 Yielding True] (fst w_runs, snd w_runs)" using w_run by simp
  note d = directory_follows [OF this, of 0]
  show ?thesis using d by (simp add: w_runs_eq(1) w_defs STACK_WORDS_def STACK_BYTES_def Let_def)
qed

text \<open>
  C17. A thread is deleted only when its process is in no core: when a user process's thread is found among the zombies, by
  any core, the assertions of \<open>~Process\<close> and \<open>destroy_pd\<close> hold, the process was not destroyed before, and no core runs in the
  directory that is freed.
\<close>

theorem dead_process_unused:
  assumes "srun n (threadsInit n counts, spacesInit kpd) es (s, x)" "c < n" "snd (dequeue Zombies s) = Some t" "pcb_of x t \<noteq> 0"
  shows "pcb_of x t \<notin> dead x \<and> reap_space c s x = Inr (reap s, x\<lparr>dead := insert (pcb_of x t) (dead x)\<rparr>) \<and>
    (\<forall>e < n. core_cr3 x e \<noteq> pcb_cr3 x (pcb_of x t))"
proof -
  obtain C where i: "inv n C s" and f: "follows n s x" using srun_follows [OF assms(1)] by auto
  obtain s' where z: "dequeue Zombies s = (s', Some t)" using assms(3) by (cases "dequeue Zombies s") auto
  note zu = zombie_process_unused [OF f i z assms(4)]
  have "pcb_of x t \<notin> dead x" using followsD(7) [OF f] zombie_waits(1,2) [OF i z] by simp
  moreover have "reap_space c s x = Inr (reap s, x\<lparr>dead := insert (pcb_of x t) (dead x)\<rparr>)"
    using assms(3,4) zu(1) [OF assms(2)] zu(2) by (simp add: reap_space_def destroy_process_def)
  ultimately show ?thesis using zu(1) by blast
qed

theorem dead_process_unused_witness:
  "pcb_of (snd w_idle) 1 = 1 \<and>
   reap_space 0 w_zombie (snd w_idle) = Inr (reap w_zombie, (snd w_idle)\<lparr>dead := {1}\<rparr>) \<and> core_cr3 (snd w_idle) 0 \<noteq> 0x8000"
proof -
  have p: "pcb_of (snd w_idle) 1 = 1" "pcb_cr3 (snd w_idle) 1 = 0x8000" "dead (snd w_idle) = {}"
    by (simp_all add: w_idle_eq(1) w_runs_eq(1) w_defs Let_def)
  show ?thesis using dead_process_unused [OF w_zombie_run _ w_zombie_eq(2), of 0] p by simp
qed

end
