(* ===== verification/Barrier.thy ===== *)
theory Barrier
  imports Prelude
begin

text \<open>
  \<open>kernel/barrier.h\<close>: the barrier for one use and the barrier that can be used again, by any number of threads. A step is one access to
  shared memory or one operation on a semaphore, lock or condition, as far as their own claims allow: a \<open>down\<close> takes a
  token when there is one, a lock has one holder, a \<open>wait\<close> releases the lock and may come back at any time, \<open>notifyAll\<close> brings back
  every thread that waits. \<open>arrived\<close> and \<open>left\<close> are not in the code: they count the threads that have changed \<open>count\<close>.
\<close>

section \<open>ReusableBarrier\<close>

datatype rpc =
    Idle
  | WantMut        \<comment> \<open>at \<open>mut.down\<close>\<close>
  | GotMut
  | Inc u32        \<comment> \<open>has read \<open>count\<close>, will write it\<close>
  | Pass bool     \<comment> \<open>will give the token on: to \<open>sem\<close> or back to \<open>mut\<close>\<close>
  | WantSem
  | GotSem
  | Dec u32
  | Back bool    \<comment> \<open>will give the token back to \<open>mut\<close>, or on to \<open>sem\<close>\<close>

record rbarrier =
  mut :: nat
  sem :: nat
  rcount :: u32
  rpcs :: "nat \<Rightarrow> rpc"
  arrived :: nat
  left :: nat

definition new_rbarrier :: rbarrier where
  "new_rbarrier = \<lparr>mut = 1, sem = 0, rcount = 0, rpcs = (\<lambda>_. Idle), arrived = 0, left = 0\<rparr>"

abbreviation rgoto :: "nat \<Rightarrow> rpc \<Rightarrow> rbarrier \<Rightarrow> rbarrier" where
  "rgoto t p s \<equiv> s\<lparr>rpcs := (rpcs s)(t := p)\<rparr>"

definition r_arrive :: "u32 \<Rightarrow> nat \<Rightarrow> u32 \<Rightarrow> rbarrier \<Rightarrow> rbarrier" where
  "r_arrive lim t c s = rgoto t (Pass (c + 1 = lim)) (s\<lparr>rcount := c + 1, arrived := arrived s + 1\<rparr>)"

definition r_pass :: "nat \<Rightarrow> bool \<Rightarrow> rbarrier \<Rightarrow> rbarrier" where
  "r_pass t b s = rgoto t WantSem (if b then s\<lparr>sem := sem s + 1\<rparr> else s\<lparr>mut := mut s + 1\<rparr>)"

definition r_leave :: "nat \<Rightarrow> u32 \<Rightarrow> rbarrier \<Rightarrow> rbarrier" where
  "r_leave t c s = rgoto t (Back (c - 1 = 0)) (s\<lparr>rcount := c - 1, left := left s + 1\<rparr>)"

definition r_back :: "nat \<Rightarrow> bool \<Rightarrow> rbarrier \<Rightarrow> rbarrier" where
  "r_back t b s = rgoto t Idle (if b then s\<lparr>mut := mut s + 1\<rparr> else s\<lparr>sem := sem s + 1\<rparr>)"

inductive rstep :: "u32 \<Rightarrow> nat \<Rightarrow> rbarrier \<Rightarrow> rbarrier \<Rightarrow> bool" for lim t s where
  call: "rpcs s t = Idle \<Longrightarrow> rstep lim t s (rgoto t WantMut s)"
| mut_down: "rpcs s t = WantMut \<Longrightarrow> 0 < mut s \<Longrightarrow> rstep lim t s (rgoto t GotMut (s\<lparr>mut := mut s - 1\<rparr>))"
| read_inc: "rpcs s t = GotMut \<Longrightarrow> rstep lim t s (rgoto t (Inc (rcount s)) s)"
| arrive: "rpcs s t = Inc c \<Longrightarrow> rstep lim t s (r_arrive lim t c s)"
| pass: "rpcs s t = Pass b \<Longrightarrow> rstep lim t s (r_pass t b s)"
| sem_down: "rpcs s t = WantSem \<Longrightarrow> 0 < sem s \<Longrightarrow> rstep lim t s (rgoto t GotSem (s\<lparr>sem := sem s - 1\<rparr>))"
| read_dec: "rpcs s t = GotSem \<Longrightarrow> rstep lim t s (rgoto t (Dec (rcount s)) s)"
| leave: "rpcs s t = Dec c \<Longrightarrow> rstep lim t s (r_leave t c s)"
| return: "rpcs s t = Back b \<Longrightarrow> rstep lim t s (r_back t b s)"

inductive rreach :: "u32 \<Rightarrow> rbarrier \<Rightarrow> bool" for lim where
  start: "rreach lim new_rbarrier"
| step: "rreach lim s \<Longrightarrow> rstep lim t s s' \<Longrightarrow> rreach lim s'"

section \<open>Barrier\<close>

datatype bpc =
    Before
  | WantDec       \<comment> \<open>at the first guard\<close>
  | InDec
  | WantCheck     \<comment> \<open>at the second guard, or back from \<open>cv.wait\<close>\<close>
  | InCheck
  | Asleep
  | WantNotify
  | InNotify
  | Through

record barrier =
  held :: bool
  bcount :: u32
  bpcs :: "nat \<Rightarrow> bpc"
  decs :: nat

definition new_barrier :: "u32 \<Rightarrow> barrier" where
  "new_barrier n = \<lparr>held = False, bcount = n, bpcs = (\<lambda>_. Before), decs = 0\<rparr>"

abbreviation bgoto :: "nat \<Rightarrow> bpc \<Rightarrow> barrier \<Rightarrow> barrier" where
  "bgoto t p s \<equiv> s\<lparr>bpcs := (bpcs s)(t := p)\<rparr>"

text \<open>\<open>--count == 0\<close>, and the end of the guard; \<open>while (count) cv.wait()\<close>, one round; \<open>notifyAll\<close>.\<close>

definition b_dec :: "nat \<Rightarrow> barrier \<Rightarrow> barrier" where
  "b_dec t s = (let c = bcount s - 1 in
     bgoto t (if c = 0 then WantNotify else WantCheck) (s\<lparr>held := False, bcount := c, decs := decs s + 1\<rparr>))"

definition b_check :: "nat \<Rightarrow> barrier \<Rightarrow> barrier" where
  "b_check t s = bgoto t (if bcount s \<noteq> 0 then Asleep else Through) (s\<lparr>held := False\<rparr>)"

definition b_notify :: "nat \<Rightarrow> barrier \<Rightarrow> barrier" where
  "b_notify t s = bgoto t Through (s\<lparr>held := False, bpcs := (\<lambda>u. if bpcs s u = Asleep then WantCheck else bpcs s u)\<rparr>)"

inductive bstep :: "nat \<Rightarrow> barrier \<Rightarrow> barrier \<Rightarrow> bool" for t s where
  call: "bpcs s t = Before \<Longrightarrow> bstep t s (bgoto t WantDec s)"
| lock_dec: "bpcs s t = WantDec \<Longrightarrow> \<not> held s \<Longrightarrow> bstep t s (bgoto t InDec (s\<lparr>held := True\<rparr>))"
| dec: "bpcs s t = InDec \<Longrightarrow> bstep t s (b_dec t s)"
| lock_check: "bpcs s t = WantCheck \<Longrightarrow> \<not> held s \<Longrightarrow> bstep t s (bgoto t InCheck (s\<lparr>held := True\<rparr>))"
| check: "bpcs s t = InCheck \<Longrightarrow> bstep t s (b_check t s)"
| wake: "bpcs s t = Asleep \<Longrightarrow> bstep t s (bgoto t WantCheck s)"
| lock_notify: "bpcs s t = WantNotify \<Longrightarrow> \<not> held s \<Longrightarrow> bstep t s (bgoto t InNotify (s\<lparr>held := True\<rparr>))"
| notify: "bpcs s t = InNotify \<Longrightarrow> bstep t s (b_notify t s)"

inductive breach :: "u32 \<Rightarrow> barrier \<Rightarrow> bool" for n where
  start: "breach n (new_barrier n)"
| step: "breach n s \<Longrightarrow> bstep t s s' \<Longrightarrow> breach n s'"

end
