(* ===== verification/Barrier_Claims.thy ===== *)
theory Barrier_Claims
  imports Barrier
begin

text \<open>What barriers guarantee, by invariants over every interleaving.\<close>

section \<open>The barrier that can be used again\<close>

text \<open>One token is in \<open>mut\<close> or \<open>sem\<close> or with a thread; while it fills, the barrier counts up, while it empties, down.\<close>

fun holds :: "rpc \<Rightarrow> bool" where
  "holds Idle = False"
| "holds WantMut = False"
| "holds WantSem = False"
| "holds p = True"

fun counted :: "rpc \<Rightarrow> bool" where
  "counted (Pass b) = True"
| "counted WantSem = True"
| "counted GotSem = True"
| "counted (Dec c) = True"
| "counted p = False"

fun holder_ok :: "u32 \<Rightarrow> u32 \<Rightarrow> bool \<Rightarrow> rpc \<Rightarrow> bool" where
  "holder_ok lim n fill GotMut = (fill \<and> n < lim)"
| "holder_ok lim n fill (Inc c) = (fill \<and> n < lim \<and> c = n)"
| "holder_ok lim n fill (Pass b) = (fill \<and> (b \<longleftrightarrow> n = lim))"
| "holder_ok lim n fill GotSem = (\<not> fill \<and> 0 < n)"
| "holder_ok lim n fill (Dec c) = (\<not> fill \<and> 0 < n \<and> c = n)"
| "holder_ok lim n fill (Back b) = (\<not> fill \<and> (b \<longleftrightarrow> n = 0))"
| "holder_ok lim n fill p = False"

definition inside :: "(nat \<Rightarrow> rpc) \<Rightarrow> nat set" where
  "inside f = {t. counted (f t)}"

definition progress :: "u32 \<Rightarrow> nat \<Rightarrow> bool \<Rightarrow> rbarrier \<Rightarrow> bool" where
  "progress lim g fill s \<longleftrightarrow> 0 < lim \<and> rcount s \<le> lim \<and>
     (if fill then arrived s = unat lim * g + unat (rcount s) \<and> left s = unat lim * g
      else arrived s = unat lim * g + unat lim \<and> left s + unat (rcount s) = unat lim * g + unat lim)"

definition token :: "u32 \<Rightarrow> bool \<Rightarrow> nat option \<Rightarrow> rbarrier \<Rightarrow> bool" where
  "token lim fill own s \<longleftrightarrow> (\<forall>t. holds (rpcs s t) \<longleftrightarrow> own = Some t) \<and>
     (case own of
        None \<Rightarrow> if fill then mut s = 1 \<and> sem s = 0 \<and> rcount s < lim else mut s = 0 \<and> sem s = 1 \<and> 0 < rcount s
      | Some t \<Rightarrow> mut s = 0 \<and> sem s = 0 \<and> holder_ok lim (rcount s) fill (rpcs s t))"

definition rinv :: "u32 \<Rightarrow> nat \<Rightarrow> bool \<Rightarrow> nat option \<Rightarrow> rbarrier \<Rightarrow> bool" where
  "rinv lim g fill own s \<longleftrightarrow> progress lim g fill s \<and> token lim fill own s \<and>
     finite (inside (rpcs s)) \<and> card (inside (rpcs s)) = unat (rcount s)"

lemma rinv_start: "0 < lim \<Longrightarrow> rinv lim 0 True None new_rbarrier"
  by (simp add: rinv_def progress_def token_def inside_def new_rbarrier_def)

lemma inside_upd: "inside (f(t := p)) = (if counted p then insert t (inside f) else inside f - {t})"
  by (auto simp: inside_def)

lemma owner:
  assumes "token lim fill own s" "holds (rpcs s t)"
  shows "\<forall>u. u \<noteq> t \<longrightarrow> \<not> holds (rpcs s u)" "mut s = 0" "sem s = 0" "holder_ok lim (rcount s) fill (rpcs s t)"
  using assms by (auto simp: token_def)

lemma no_owner:
  assumes "token lim fill own s" "0 < mut s + sem s"
  shows "\<forall>u. \<not> holds (rpcs s u)"
    "if fill then mut s = 1 \<and> sem s = 0 \<and> rcount s < lim else mut s = 0 \<and> sem s = 1 \<and> 0 < rcount s"
  using assms by (auto simp: token_def split: option.splits)

lemma token_with:
  assumes "\<forall>u. u \<noteq> t \<longrightarrow> \<not> holds (rpcs s u)" "mut s = 0" "sem s = 0" "holder_ok lim (rcount s) fill (rpcs s t)"
  shows "token lim fill (Some t) s"
proof -
  have "holds (rpcs s t)" using assms(4) by (cases "rpcs s t") simp_all
  then show ?thesis using assms by (auto simp: token_def)
qed

lemma token_free:
  assumes "\<forall>u. \<not> holds (rpcs s u)"
    "if fill then mut s = 1 \<and> sem s = 0 \<and> rcount s < lim else mut s = 0 \<and> sem s = 1 \<and> 0 < rcount s"
  shows "token lim fill None s"
  using assms by (simp add: token_def)

lemma token_call:
  assumes "token lim fill own s" "rpcs s t = Idle"
  shows "token lim fill own (rgoto t WantMut s)"
  using assms by (cases own) (auto simp: token_def)

lemma rinv_step:
  assumes inv: "rinv lim g fill own s" and st: "rstep lim t s s'"
  shows "\<exists>g fill own. rinv lim g fill own s'"
proof -
  have pr: "progress lim g fill s" and tk: "token lim fill own s" and fin: "finite (inside (rpcs s))" "card (inside (rpcs s)) = unat (rcount s)"
    using inv by (simp_all add: rinv_def)
  have lim: "0 < unat lim" using pr by (simp add: progress_def word_gt_0 unat_gt_0)
  have mem: "t \<in> inside (rpcs s) \<longleftrightarrow> counted (rpcs s t)" by (simp add: inside_def)
  from st show ?thesis
  proof cases
    case call
    have "rinv lim g fill own s'" unfolding rinv_def
      using call pr token_call [OF tk call(2)] fin mem by (simp add: progress_def inside_upd)
    then show ?thesis by blast
  next
    case mut_down
    note f = no_owner [OF tk]
    have "token lim fill (Some t) s'" by (rule token_with) (use mut_down f in \<open>auto split: if_splits\<close>)
    moreover have "progress lim g fill s'" using pr mut_down by (simp add: progress_def)
    ultimately have "rinv lim g fill (Some t) s'" using mut_down fin mem by (simp add: rinv_def inside_upd)
    then show ?thesis by blast
  next
    case read_inc
    note o = owner [OF tk, of t, unfolded read_inc, simplified]
    have "token lim fill (Some t) s'" by (rule token_with) (use read_inc o in auto)
    moreover have "progress lim g fill s'" using pr read_inc by (simp add: progress_def)
    ultimately have "rinv lim g fill (Some t) s'" using read_inc fin mem by (simp add: rinv_def inside_upd)
    then show ?thesis by blast
  next
    case (arrive c)
    note o = owner [OF tk, of t, unfolded arrive, simplified]
    have n: "unat (rcount s + 1) = unat (rcount s) + 1" "rcount s + 1 \<le> lim"
      using o(4) unsigned_less [of lim, where 'a = nat] by (auto simp: unat_plus_if' word_less_nat_alt word_le_nat_alt)
    have "token lim fill (Some t) s'" by (rule token_with) (use arrive o in \<open>auto simp: r_arrive_def\<close>)
    moreover have "progress lim g fill s'" using pr arrive o(4) n by (simp add: progress_def r_arrive_def)
    ultimately have "rinv lim g fill (Some t) s'" using arrive o(4) fin mem n by (simp add: rinv_def inside_upd r_arrive_def)
    then show ?thesis by blast
  next
    case (pass b)
    note o = owner [OF tk, of t, unfolded pass, simplified]
    have lt: "rcount s < lim" if "\<not> b" using pr o(4) that by (auto simp: progress_def order_less_le)
    have pos: "0 < rcount s" if b using pr o(4) that by (auto simp: progress_def)
    have "token lim (\<not> b) None s'" by (rule token_free) (use pass o lt pos in \<open>auto simp: r_pass_def\<close>)
    moreover have "progress lim g (\<not> b) s'" using pr pass o(4) by (auto simp: progress_def r_pass_def)
    ultimately have "rinv lim g (\<not> b) None s'" using pass fin mem by (simp add: rinv_def inside_upd r_pass_def insert_absorb)
    then show ?thesis by blast
  next
    case sem_down
    note f = no_owner [OF tk]
    have "token lim fill (Some t) s'" by (rule token_with) (use sem_down f in \<open>auto split: if_splits\<close>)
    moreover have "progress lim g fill s'" using pr sem_down by (simp add: progress_def)
    ultimately have "rinv lim g fill (Some t) s'" using sem_down fin mem by (simp add: rinv_def inside_upd insert_absorb)
    then show ?thesis by blast
  next
    case read_dec
    note o = owner [OF tk, of t, unfolded read_dec, simplified]
    have "token lim fill (Some t) s'" by (rule token_with) (use read_dec o in auto)
    moreover have "progress lim g fill s'" using pr read_dec by (simp add: progress_def)
    ultimately have "rinv lim g fill (Some t) s'" using read_dec fin mem by (simp add: rinv_def inside_upd insert_absorb)
    then show ?thesis by blast
  next
    case (leave c)
    note o = owner [OF tk, of t, unfolded leave, simplified]
    have n: "unat (rcount s - 1) = unat (rcount s) - 1" "0 < unat (rcount s)"
      using o(4) by (simp_all add: unat_minus_one word_gt_0 unat_gt_0)
    have le: "rcount s - 1 \<le> lim" using n pr by (auto simp: progress_def word_le_nat_alt split: if_splits)
    have "token lim fill (Some t) s'" by (rule token_with) (use leave o in \<open>auto simp: r_leave_def\<close>)
    moreover have "progress lim g fill s'" using pr leave o(4) n le lim by (simp add: progress_def r_leave_def)
    ultimately have "rinv lim g fill (Some t) s'" using leave o(4) fin mem n by (simp add: rinv_def inside_upd r_leave_def)
    then show ?thesis by blast
  next
    case (return b)
    note o = owner [OF tk, of t, unfolded return, simplified]
    have "token lim b None s'" by (rule token_free) (use return o lim in \<open>auto simp: r_back_def word_gt_0\<close>)
    moreover have "progress lim (if b then g + 1 else g) b s'" using pr return o(4) by (auto simp: progress_def r_back_def)
    ultimately have "rinv lim (if b then g + 1 else g) b None s'" using return fin mem by (simp add: rinv_def inside_upd r_back_def)
    then show ?thesis by blast
  qed
qed

lemma rreach_inv:
  assumes "rreach lim s" "0 < lim"
  obtains g fill own where "rinv lim g fill own s"
proof -
  have "\<exists>g fill own. rinv lim g fill own s"
    using assms by (induction rule: rreach.induct) (use rinv_start rinv_step in blast)+
  then show ?thesis using that by blast
qed

text \<open>
  C18. The barrier that can be used again keeps its generations apart, for any number of threads that call \<open>sync\<close> any number of times: while
  threads of round \<open>k\<close> leave, all \<open>limit\<close> threads of this round have arrived, and before a thread of round \<open>k + 1\<close> arrives all
  threads of round \<open>k\<close> have left. \<open>count\<close> is the number of the threads in between.
\<close>

theorem barrier_rounds_apart:
  assumes "rreach lim s" "0 < lim"
  shows "(\<forall>k. unat lim * k < left s \<longrightarrow> unat lim * (k + 1) \<le> arrived s) \<and>
    (\<forall>k. unat lim * (k + 1) < arrived s \<longrightarrow> unat lim * (k + 1) \<le> left s) \<and>
    arrived s = left s + unat (rcount s) \<and> rcount s \<le> lim"
proof -
  obtain g fill own where inv: "rinv lim g fill own s" using rreach_inv [OF assms] .
  then have pr: "progress lim g fill s" by (simp add: rinv_def)
  have bounds: "unat lim * g \<le> left s" "arrived s \<le> unat lim * (g + 1)" "left s = unat lim * g \<or> unat lim * (g + 1) \<le> arrived s"
    "arrived s = left s + unat (rcount s)" "rcount s \<le> lim"
    using pr by (auto simp: progress_def word_le_nat_alt split: if_splits)
  have "unat lim * (k + 1) \<le> arrived s" if "unat lim * k < left s" for k
  proof (cases "k < g")
    case True
    then have "unat lim * (k + 1) \<le> unat lim * g" by (intro mult_le_mono2) simp
    then show ?thesis using bounds by simp
  next
    case False
    then have "unat lim * g \<le> unat lim * k" by (intro mult_le_mono2) simp
    then have "unat lim * (g + 1) \<le> arrived s" "left s \<le> unat lim * (g + 1)" using that bounds by auto
    then have "unat lim * k < unat lim * (g + 1)" using that by simp
    then have "k \<le> g" by (simp only: mult_less_cancel1) simp
    then have "unat lim * (k + 1) \<le> unat lim * (g + 1)" by (intro mult_le_mono2) simp
    then show ?thesis using \<open>unat lim * (g + 1) \<le> arrived s\<close> by (rule le_trans)
  qed
  moreover have "unat lim * (k + 1) \<le> left s" if "unat lim * (k + 1) < arrived s" for k
  proof -
    have "unat lim * (k + 1) < unat lim * (g + 1)" using that bounds(2) by (rule less_le_trans)
    then have "k + 1 \<le> g" by (simp only: mult_less_cancel1) simp
    then have "unat lim * (k + 1) \<le> unat lim * g" by (rule mult_le_mono2)
    then show ?thesis using bounds(1) by simp
  qed
  ultimately show ?thesis using bounds(4,5) by blast
qed

text \<open>A run of one thread through a barrier for one.\<close>

definition solo :: rbarrier where
  "solo = r_leave 0 1 (rgoto 0 (Dec 1) (rgoto 0 GotSem ((r_pass 0 True (r_arrive 1 0 0
     (rgoto 0 (Inc 0) (rgoto 0 GotMut ((rgoto 0 WantMut new_rbarrier)\<lparr>mut := 0\<rparr>)))))\<lparr>sem := 0\<rparr>)))"

lemmas solo_simps = new_rbarrier_def r_arrive_def r_pass_def r_leave_def

lemma rreach_solo: "rreach 1 solo"
proof -
  note next_step = rreach.step [where t = 0]
  have "rreach 1 (rgoto 0 WantMut new_rbarrier)"
    by (rule next_step [OF rreach.start rstep.call]) (simp add: solo_simps)
  from next_step [OF this rstep.mut_down] have "rreach 1 (rgoto 0 GotMut ((rgoto 0 WantMut new_rbarrier)\<lparr>mut := 0\<rparr>))"
    by (simp add: solo_simps)
  from next_step [OF this rstep.read_inc]
  have "rreach 1 (rgoto 0 (Inc 0) (rgoto 0 GotMut ((rgoto 0 WantMut new_rbarrier)\<lparr>mut := 0\<rparr>)))" by (simp add: solo_simps)
  from next_step [OF this rstep.arrive, of 0]
  have "rreach 1 (r_arrive 1 0 0 (rgoto 0 (Inc 0) (rgoto 0 GotMut ((rgoto 0 WantMut new_rbarrier)\<lparr>mut := 0\<rparr>))))" by simp
  from next_step [OF this rstep.pass, of True]
  have "rreach 1 (r_pass 0 True (r_arrive 1 0 0 (rgoto 0 (Inc 0) (rgoto 0 GotMut ((rgoto 0 WantMut new_rbarrier)\<lparr>mut := 0\<rparr>)))))"
    by (simp add: r_arrive_def)
  from next_step [OF this rstep.sem_down] have "rreach 1 (rgoto 0 GotSem ((r_pass 0 True (r_arrive 1 0 0
     (rgoto 0 (Inc 0) (rgoto 0 GotMut ((rgoto 0 WantMut new_rbarrier)\<lparr>mut := 0\<rparr>)))))\<lparr>sem := 0\<rparr>))" by (simp add: solo_simps)
  from next_step [OF this rstep.read_dec] have "rreach 1 (rgoto 0 (Dec 1) (rgoto 0 GotSem ((r_pass 0 True (r_arrive 1 0 0
     (rgoto 0 (Inc 0) (rgoto 0 GotMut ((rgoto 0 WantMut new_rbarrier)\<lparr>mut := 0\<rparr>)))))\<lparr>sem := 0\<rparr>)))" by (simp add: solo_simps)
  from next_step [OF this rstep.leave, of 1] show ?thesis by (simp add: solo_def)
qed

theorem barrier_rounds_apart_witness: "left solo = 1 \<and> arrived solo = 1 \<and> unat (1 :: u32) * (0 + 1) \<le> arrived solo"
proof -
  have l: "left solo = 1" "arrived solo = 1" by (simp_all add: solo_def solo_simps)
  have "\<forall>k. unat (1 :: u32) * k < left solo \<longrightarrow> unat (1 :: u32) * (k + 1) \<le> arrived solo"
    using barrier_rounds_apart [OF rreach_solo] by simp
  from spec [OF this, of 0] show ?thesis using l by simp
qed

text \<open>
  The barrier that can be used again does not get stuck: in every state that can be reached, a thread in \<open>sync\<close> can go on, or all threads in
  \<open>sync\<close> have arrived, there are \<open>count\<close> of them, and the round is not complete.
\<close>

theorem barrier_not_stuck:
  assumes "rreach lim s" "0 < lim"
  shows "(\<exists>t s'. rpcs s t \<noteq> Idle \<and> rstep lim t s s') \<or>
    (\<forall>t. rpcs s t \<in> {Idle, WantSem}) \<and> card {t. rpcs s t = WantSem} = unat (rcount s) \<and> rcount s < lim"
proof -
  obtain g fill own where inv: "rinv lim g fill own s" using rreach_inv [OF assms] .
  then have tk: "token lim fill own s" and card: "card (inside (rpcs s)) = unat (rcount s)" by (simp_all add: rinv_def)
  show ?thesis
  proof (cases own)
    case (Some t)
    then have "holds (rpcs s t)" using tk by (simp add: token_def)
    then have "\<exists>s'. rstep lim t s s'" by (cases "rpcs s t") (auto intro: rstep.intros)
    moreover have "rpcs s t \<noteq> Idle" using \<open>holds (rpcs s t)\<close> by auto
    ultimately show ?thesis by blast
  next
    case None
    then have free: "\<not> holds (rpcs s t)" for t using tk by (simp add: token_def)
    have only: "rpcs s t \<in> {Idle, WantMut, WantSem}" for t using free [of t] by (cases "rpcs s t") simp_all
    show ?thesis
    proof (cases fill)
      case True
      then have m: "mut s = 1" "rcount s < lim" using tk None by (simp_all add: token_def)
      show ?thesis
      proof (cases "\<exists>t. rpcs s t = WantMut")
        case True
        then obtain t where t: "rpcs s t = WantMut" by blast
        then have "rstep lim t s (rgoto t GotMut (s\<lparr>mut := mut s - 1\<rparr>))" using m(1) by (intro rstep.mut_down) simp_all
        moreover have "rpcs s t \<noteq> Idle" using t by simp
        ultimately show ?thesis by blast
      next
        case False
        then have "rpcs s t \<in> {Idle, WantSem}" for t using only [of t] by auto
        moreover from this have "inside (rpcs s) = {t. rpcs s t = WantSem}"
          by (auto simp: inside_def) (metis counted.simps(5) empty_iff insert_iff)
        ultimately show ?thesis using card m(2) by simp
      qed
    next
      case False
      then have m: "0 < sem s" "0 < rcount s" using tk None by (simp_all add: token_def)
      then have "inside (rpcs s) \<noteq> {}" using card by (auto simp: word_gt_0 unat_eq_0)
      then obtain t where "counted (rpcs s t)" by (auto simp: inside_def)
      then have t: "rpcs s t = WantSem" using only [of t] by auto
      then have "rpcs s t \<noteq> Idle" by simp
      then show ?thesis using rstep.sem_down [OF t m(1)] by blast
    qed
  qed
qed

theorem barrier_not_stuck_witness: "\<exists>t s'. rpcs solo t \<noteq> Idle \<and> rstep 1 t solo s'"
proof -
  have "rpcs solo 0 = Back True" by (simp add: solo_def solo_simps)
  then have "\<not> rpcs solo 0 \<in> {Idle, WantSem}" by simp
  moreover have "(0 :: u32) < 1" by simp
  ultimately show ?thesis using barrier_not_stuck [OF rreach_solo] by blast
qed

section \<open>The barrier for one use\<close>

fun crit :: "bpc \<Rightarrow> bool" where
  "crit InDec = True"
| "crit InCheck = True"
| "crit InNotify = True"
| "crit p = False"

fun opened :: "bpc \<Rightarrow> bool" where
  "opened WantNotify = True"
| "opened InNotify = True"
| "opened Through = True"
| "opened p = False"

definition lock_ok :: "nat option \<Rightarrow> barrier \<Rightarrow> bool" where
  "lock_ok own s \<longleftrightarrow> (\<forall>t. crit (bpcs s t) \<longleftrightarrow> own = Some t) \<and> (held s \<longleftrightarrow> own \<noteq> None)"

definition gate_ok :: "u32 \<Rightarrow> barrier \<Rightarrow> bool" where
  "gate_ok n s \<longleftrightarrow> bcount s = n - of_nat (decs s) \<and> (\<forall>t. opened (bpcs s t) \<longrightarrow> unat n \<le> decs s)"

definition wake_ok :: "barrier \<Rightarrow> bool" where
  "wake_ok s \<longleftrightarrow> (bcount s = 0 \<longrightarrow> (\<exists>t. bpcs s t = Asleep) \<longrightarrow> (\<exists>t. bpcs s t \<in> {WantNotify, InNotify}))"

lemma all_decs: "n - of_nat d = 0 \<Longrightarrow> unat n \<le> d" for n :: u32
  using unsigned_less [of n, where 'a = nat] by (simp add: unat_of_nat)

lemma lock_ok_step:
  assumes "lock_ok own s" "bstep t s s'"
  shows "\<exists>own. lock_ok own s'"
proof -
  have a: "crit (bpcs s u) \<longleftrightarrow> own = Some u" "held s \<longleftrightarrow> own \<noteq> None" for u using assms(1) by (simp_all add: lock_ok_def)
  have "lock_ok (if crit (bpcs s' t) then Some t else if crit (bpcs s t) then None else own) s'"
    using assms(2)
    by cases (use a a(1) [of t] in \<open>auto simp: lock_ok_def b_dec_def b_check_def b_notify_def Let_def split: if_splits\<close>)
  then show ?thesis ..
qed

lemma gate_ok_step:
  assumes "gate_ok n s" "bstep t s s'"
  shows "gate_ok n s'"
proof -
  have a: "bcount s = n - of_nat (decs s)" "opened (bpcs s u) \<Longrightarrow> unat n \<le> decs s" for u
    using assms(1) by (auto simp: gate_ok_def)
  have d: "unat n \<le> Suc (decs s)" if "n - of_nat (decs s) = 1"
  proof (rule all_decs)
    have "n = 1 + of_nat (decs s)" using that by (simp only: diff_eq_eq)
    then show "n - of_nat (Suc (decs s)) = 0" by simp
  qed
  from assms(2) show ?thesis
    by cases (use a a(2) [of t] d all_decs [of n "decs s"] in
        \<open>auto simp: gate_ok_def b_dec_def b_check_def b_notify_def Let_def le_SucI split: if_splits\<close>)
qed

lemma wake_goto:
  assumes "wake_ok s" "bpcs s t \<notin> {WantNotify, InNotify}" "p \<noteq> Asleep \<or> bcount s \<noteq> 0"
    and s': "bpcs s' = (bpcs s)(t := p)" "bcount s' = bcount s"
  shows "wake_ok s'"
  unfolding wake_ok_def
proof (intro impI)
  assume zero: "bcount s' = 0" and "\<exists>u. bpcs s' u = Asleep"
  then obtain u where "bpcs s u = Asleep" using assms(3) s' by (auto split: if_splits)
  then obtain v where "bpcs s v \<in> {WantNotify, InNotify}" using assms(1) zero s'(2) by (auto simp: wake_ok_def)
  then have "bpcs s' v \<in> {WantNotify, InNotify}" using assms(2) s'(1) by auto
  then show "\<exists>v. bpcs s' v \<in> {WantNotify, InNotify}" ..
qed

lemma wake_ok_step:
  assumes "wake_ok s" "bstep t s s'"
  shows "wake_ok s'"
  using assms(2)
proof cases
  case dec
  then show ?thesis by (auto simp: wake_ok_def b_dec_def Let_def)
next
  case notify
  then show ?thesis by (auto simp: wake_ok_def b_notify_def)
next
  case lock_notify
  then show ?thesis by (auto simp: wake_ok_def)
next
  case check
  show ?thesis by (rule wake_goto [OF assms(1), of t "if bcount s \<noteq> 0 then Asleep else Through"]) (use check in \<open>simp_all add: b_check_def\<close>)
next
  case call
  show ?thesis by (rule wake_goto [OF assms(1), of t WantDec]) (use call in simp_all)
next
  case lock_dec
  show ?thesis by (rule wake_goto [OF assms(1), of t InDec]) (use lock_dec in simp_all)
next
  case lock_check
  show ?thesis by (rule wake_goto [OF assms(1), of t InCheck]) (use lock_check in simp_all)
next
  case wake
  show ?thesis by (rule wake_goto [OF assms(1), of t WantCheck]) (use wake in simp_all)
qed

text \<open>
  The barrier for one use: no thread gets through before as many threads as the barrier is for have called \<open>sync\<close>; and once \<open>count\<close> is 0, every
  thread in \<open>sync\<close> gets through: as long as one is left, a thread that does not wait can go on, so that no wake-up is lost.
\<close>

theorem barrier_opens:
  assumes "breach n s"
  shows "(bpcs s t = Through \<longrightarrow> unat n \<le> decs s) \<and>
    (bcount s = 0 \<longrightarrow> (\<forall>t. bpcs s t \<in> {Before, Through}) \<or> (\<exists>t s'. bpcs s t \<notin> {Before, Asleep} \<and> bstep t s s'))"
proof -
  have "gate_ok n s \<and> wake_ok s \<and> (\<exists>own. lock_ok own s)"
    using assms
  proof (induction rule: breach.induct)
    case start
    then show ?case by (auto simp: gate_ok_def wake_ok_def lock_ok_def new_barrier_def)
  next
    case (step s t s')
    then show ?case using gate_ok_step wake_ok_step lock_ok_step by blast
  qed
  then obtain own where g: "gate_ok n s" and w: "wake_ok s" and l: "lock_ok own s" by blast
  have "\<exists>t s'. bpcs s t \<notin> {Before, Asleep} \<and> bstep t s s'" if zero: "bcount s = 0" and t: "bpcs s t \<notin> {Before, Through}" for t
  proof (cases own)
    case (Some u)
    then have "crit (bpcs s u)" using l by (simp add: lock_ok_def)
    then have "\<exists>s'. bstep u s s'" "bpcs s u \<notin> {Before, Asleep}" by (cases "bpcs s u"; auto intro: bstep.intros)+
    then show ?thesis by blast
  next
    case None
    then have free: "\<not> held s" "\<not> crit (bpcs s v)" for v using l by (simp_all add: lock_ok_def)
    have "\<exists>u. bpcs s u \<in> {WantDec, WantCheck, WantNotify}"
    proof (cases "bpcs s t = Asleep")
      case True
      then obtain u where "bpcs s u \<in> {WantNotify, InNotify}" using w zero by (auto simp: wake_ok_def)
      then show ?thesis using free(2) [of u] by auto
    next
      case False
      then have "bpcs s t \<in> {WantDec, WantCheck, WantNotify}" using t free(2) [of t] by (cases "bpcs s t") simp_all
      then show ?thesis by blast
    qed
    then obtain u where u: "bpcs s u \<in> {WantDec, WantCheck, WantNotify}" by blast
    then have "\<exists>s'. bstep u s s'" using free(1) by (auto intro: bstep.intros)
    moreover have "bpcs s u \<notin> {Before, Asleep}" using u by auto
    ultimately show ?thesis by blast
  qed
  moreover have "bpcs s t = Through \<longrightarrow> unat n \<le> decs s" using g opened.simps(3) unfolding gate_ok_def by metis
  ultimately show ?thesis by blast
qed

theorem barrier_opens_witness:
  "\<exists>t s'. bpcs (b_dec 0 ((bgoto 0 InDec (bgoto 0 WantDec (new_barrier 1)))\<lparr>held := True\<rparr>)) t \<notin> {Before, Asleep} \<and>
    bstep t (b_dec 0 ((bgoto 0 InDec (bgoto 0 WantDec (new_barrier 1)))\<lparr>held := True\<rparr>)) s'"
proof -
  let ?a = "bgoto 0 WantDec (new_barrier 1)" and ?b = "(bgoto 0 InDec (bgoto 0 WantDec (new_barrier 1)))\<lparr>held := True\<rparr>"
  have "breach 1 ?a" by (rule breach.step [OF breach.start bstep.call]) (simp add: new_barrier_def)
  from breach.step [OF this bstep.lock_dec, of 0] have "breach 1 ?b" by (simp add: new_barrier_def)
  from breach.step [OF this bstep.dec, of 0] have r: "breach 1 (b_dec 0 ?b)" by simp
  have z: "bcount (b_dec 0 ?b) = 0" "bpcs (b_dec 0 ?b) 0 = WantNotify" by (simp_all add: b_dec_def new_barrier_def)
  then have "\<not> bpcs (b_dec 0 ?b) 0 \<in> {Before, Through}" by simp
  then show ?thesis using barrier_opens [OF r, of 0] z(1) by blast
qed

end
