(* ===== verification/Locks.thy ===== *)
theory Locks
  imports Prelude
begin

text \<open>
  \<open>kernel/atomic.h\<close>: atomic cells, interrupt flags and the three locks, run by any number of cores. A step
  is one access to shared memory or one change of the core's interrupt flag. \<open>before\<close> is
  not in the code: it remembers whether interrupts were disabled when a core called \<open>lock\<close>.
\<close>

section \<open>Atomic cells\<close>

text \<open>\<open>T\<close> is an unsigned 32-bit integer for the counters and a boolean for the locks.\<close>

definition atomic_get :: "'a \<Rightarrow> 'a" where
  "atomic_get v = v"

definition atomic_set :: "'a \<Rightarrow> 'a \<Rightarrow> 'a" where
  "atomic_set x v = x"

definition atomic_exchange :: "'a \<Rightarrow> 'a \<Rightarrow> 'a \<times> 'a" where
  "atomic_exchange x v = (x, v)"

definition atomic_fetch_add :: "u32 \<Rightarrow> u32 \<Rightarrow> u32 \<times> u32" where
  "atomic_fetch_add inc v = (v + inc, v)"

definition atomic_add_fetch :: "u32 \<Rightarrow> u32 \<Rightarrow> u32 \<times> u32" where
  "atomic_add_fetch inc v = (v + inc, v + inc)"

section \<open>Interrupts\<close>

text \<open>EFLAGS of a core; \<open>cli\<close> and \<open>sti\<close> write bit 9.\<close>

definition isDisabled :: "u32 \<Rightarrow> bool" where
  "isDisabled flags \<longleftrightarrow> flags AND 0x200 = 0"

definition cli :: "u32 \<Rightarrow> u32" where
  "cli flags = unset_bit 9 flags"

definition sti :: "u32 \<Rightarrow> u32" where
  "sti flags = set_bit 9 flags"

definition disable :: "u32 \<Rightarrow> u32 \<times> bool" where
  "disable flags = (if isDisabled flags then (flags, True) else (cli flags, False))"

definition restore :: "bool \<Rightarrow> u32 \<Rightarrow> u32" where
  "restore wasDisabled flags = (if \<not> wasDisabled then sti flags else flags)"

definition protect :: "(u32 \<Rightarrow> u32) \<Rightarrow> u32 \<Rightarrow> u32" where
  "protect work flags = (case disable flags of (f, was) \<Rightarrow> restore was (work f))"

lemma bit9: "flags AND 0x200 = 0 \<longleftrightarrow> \<not> bit flags 9" for flags :: u32
proof -
  have "(0x200 :: u32) = push_bit 9 1" by simp
  then show ?thesis by (metis and_exp_eq_0_iff_not_bit push_bit_of_1)
qed

lemma isDisabled_bit: "isDisabled flags \<longleftrightarrow> \<not> bit flags 9"
  by (simp add: isDisabled_def bit9)

lemma cli_disabled [simp]: "isDisabled (cli flags)"
  by (simp add: isDisabled_bit cli_def bit_simps)

lemma sti_enabled [simp]: "\<not> isDisabled (sti flags)"
  by (simp add: isDisabled_bit sti_def bit_simps)

lemma disable_disables [simp]: "isDisabled (fst (disable flags))"
  by (simp add: disable_def)

lemma disable_was [simp]: "snd (disable flags) = isDisabled flags"
  by (simp add: disable_def)

lemma sti_cli: "\<not> isDisabled flags \<Longrightarrow> sti (cli flags) = flags"
  by (rule bit_eqI) (auto simp: isDisabled_bit sti_def cli_def bit_simps)

lemma restore_disable: "restore (isDisabled flags) (fst (disable flags)) = flags"
  by (simp add: restore_def disable_def sti_cli)

section \<open>SpinLock\<close>

datatype pc =
    Out
  | Want                 \<comment> \<open>in the loop of \<open>lock\<close>, before the flag is read\<close>
  | Got bool             \<comment> \<open>\<open>wasDisabled\<close> is read and interrupts are off\<close>
  | Lost bool            \<comment> \<open>the exchange found the lock taken\<close>
  | Won bool             \<comment> \<open>the exchange took the lock\<close>
  | Held bool            \<comment> \<open>\<open>lock\<close> has returned; the flag is what \<open>ISL\<close> returns to its caller\<close>
  | Rel bool             \<comment> \<open>\<open>unlock\<close> has read \<open>was\<close>\<close>
  | Rest bool            \<comment> \<open>\<open>taken\<close> is cleared\<close>

record locks =
  taken :: bool
  was :: bool
  flags :: "nat \<Rightarrow> u32"
  pcs :: "nat \<Rightarrow> pc"
  before :: "nat \<Rightarrow> bool"

definition goto :: "nat \<Rightarrow> pc \<Rightarrow> locks \<Rightarrow> locks" where
  "goto c p s = s\<lparr>pcs := (pcs s)(c := p)\<rparr>"

definition set_flags :: "nat \<Rightarrow> u32 \<Rightarrow> locks \<Rightarrow> locks" where
  "set_flags c f s = s\<lparr>flags := (flags s)(c := f)\<rparr>"

definition call :: "nat \<Rightarrow> locks \<Rightarrow> locks" where
  "call c s = goto c Want (s\<lparr>before := (before s)(c := isDisabled (flags s c))\<rparr>)"

text \<open>One round of the loop of \<open>SpinLock::lock\<close>.\<close>

definition spin_lock :: "nat \<Rightarrow> locks \<Rightarrow> locks" where
  "spin_lock c s = (case atomic_exchange True (taken s) of (t, old) \<Rightarrow>
     (if old then s\<lparr>taken := t\<rparr> else goto c (Held False) (s\<lparr>taken := t\<rparr>)))"

definition spin_unlock :: "nat \<Rightarrow> locks \<Rightarrow> locks" where
  "spin_unlock c s = goto c Out (s\<lparr>taken := atomic_set False (taken s)\<rparr>)"

definition spin_isMine :: "locks \<Rightarrow> bool" where
  "spin_isMine s = atomic_get (taken s)"

inductive spin_step :: "nat \<Rightarrow> locks \<Rightarrow> locks \<Rightarrow> bool" for c s where
  "pcs s c = Out \<Longrightarrow> spin_step c s (call c s)"
| "pcs s c = Want \<Longrightarrow> spin_step c s (spin_lock c s)"
| "pcs s c = Held w \<Longrightarrow> spin_step c s (spin_unlock c s)"

section \<open>InterruptSafeLock\<close>

definition safe_disable :: "nat \<Rightarrow> locks \<Rightarrow> locks" where
  "safe_disable c s = (case disable (flags s c) of (f, wasDisabled) \<Rightarrow> goto c (Got wasDisabled) (set_flags c f s))"

definition safe_exchange :: "nat \<Rightarrow> bool \<Rightarrow> locks \<Rightarrow> locks" where
  "safe_exchange c wasDisabled s = (case atomic_exchange True (taken s) of (t, old) \<Rightarrow>
     goto c (if \<not> old then Won wasDisabled else Lost wasDisabled) (s\<lparr>taken := t\<rparr>))"

definition safe_set_was :: "nat \<Rightarrow> bool \<Rightarrow> locks \<Rightarrow> locks" where
  "safe_set_was c wasDisabled s = goto c (Held wasDisabled) (s\<lparr>was := wasDisabled\<rparr>)"

definition safe_again :: "nat \<Rightarrow> bool \<Rightarrow> locks \<Rightarrow> locks" where
  "safe_again c wasDisabled s = goto c Want (set_flags c (restore wasDisabled (flags s c)) s)"

definition safe_read_was :: "nat \<Rightarrow> locks \<Rightarrow> locks" where
  "safe_read_was c s = goto c (Rel (was s)) s"

definition safe_release :: "nat \<Rightarrow> bool \<Rightarrow> locks \<Rightarrow> locks" where
  "safe_release c wasDisabled s = goto c (Rest wasDisabled) (s\<lparr>taken := atomic_set False (taken s)\<rparr>)"

definition safe_restore :: "nat \<Rightarrow> bool \<Rightarrow> locks \<Rightarrow> locks" where
  "safe_restore c wasDisabled s = goto c Out (set_flags c (restore wasDisabled (flags s c)) s)"

text \<open>Outside of the lock a core changes its flags at will.\<close>

inductive safe_step :: "nat \<Rightarrow> locks \<Rightarrow> locks \<Rightarrow> bool" for c s where
  "pcs s c = Out \<Longrightarrow> safe_step c s (set_flags c f s)"
| "pcs s c = Out \<Longrightarrow> safe_step c s (call c s)"
| "pcs s c = Want \<Longrightarrow> safe_step c s (safe_disable c s)"
| "pcs s c = Got w \<Longrightarrow> safe_step c s (safe_exchange c w s)"
| "pcs s c = Won w \<Longrightarrow> safe_step c s (safe_set_was c w s)"
| "pcs s c = Lost w \<Longrightarrow> safe_step c s (safe_again c w s)"
| "pcs s c = Held w \<Longrightarrow> safe_step c s (safe_read_was c s)"
| "pcs s c = Rel w \<Longrightarrow> safe_step c s (safe_release c w s)"
| "pcs s c = Rest w \<Longrightarrow> safe_step c s (safe_restore c w s)"

section \<open>ISL\<close>

text \<open>\<open>ISL::lock\<close> returns \<open>wasDisabled\<close>; the caller of \<open>unlock\<close> says whether interrupts stay off.\<close>

definition isl_lock :: "nat \<Rightarrow> bool \<Rightarrow> locks \<Rightarrow> locks" where
  "isl_lock c wasDisabled s = (case atomic_exchange True (taken s) of (t, old) \<Rightarrow>
     goto c (if \<not> old then Held wasDisabled else Lost wasDisabled) (s\<lparr>taken := t\<rparr>))"

definition isl_flags :: "nat \<Rightarrow> bool \<Rightarrow> locks \<Rightarrow> locks" where
  "isl_flags c disab s = goto c Out (set_flags c (if disab then cli (flags s c) else sti (flags s c)) s)"

inductive isl_step :: "nat \<Rightarrow> locks \<Rightarrow> locks \<Rightarrow> bool" for c s where
  "pcs s c = Out \<Longrightarrow> isl_step c s (set_flags c f s)"
| "pcs s c = Out \<Longrightarrow> isl_step c s (call c s)"
| "pcs s c = Want \<Longrightarrow> isl_step c s (safe_disable c s)"
| "pcs s c = Got w \<Longrightarrow> isl_step c s (isl_lock c w s)"
| "pcs s c = Lost w \<Longrightarrow> isl_step c s (safe_again c w s)"
| "pcs s c = Held w \<Longrightarrow> isl_step c s (safe_release c disab s)"
| "pcs s c = Rest w \<Longrightarrow> isl_step c s (isl_flags c w s)"

section \<open>What a lock owes\<close>

text \<open>A core is inside from the exchange that took the lock to the store that clears it.\<close>

fun pc_inside :: "pc \<Rightarrow> bool" where
  "pc_inside (Won w) = True"
| "pc_inside (Held w) = True"
| "pc_inside (Rel w) = True"
| "pc_inside p = False"

definition inside :: "locks \<Rightarrow> nat \<Rightarrow> bool" where
  "inside s c = pc_inside (pcs s c)"

definition unlocked :: "locks \<Rightarrow> bool" where
  "unlocked s \<longleftrightarrow> \<not> taken s \<and> (\<forall>c. pcs s c = Out)"

inductive reach :: "('s \<Rightarrow> bool) \<Rightarrow> ('c \<Rightarrow> 's \<Rightarrow> 's \<Rightarrow> bool) \<Rightarrow> 's \<Rightarrow> bool" for init step where
  "init s \<Longrightarrow> reach init step s"
| "reach init step s \<Longrightarrow> step c s s' \<Longrightarrow> reach init step s'"

locale test_and_set =
  fixes init :: "'s \<Rightarrow> bool" and step :: "nat \<Rightarrow> 's \<Rightarrow> 's \<Rightarrow> bool"
    and tk :: "'s \<Rightarrow> bool" and ins :: "'s \<Rightarrow> nat \<Rightarrow> bool"
  assumes starts: "init s \<Longrightarrow> \<not> tk s \<and> \<not> ins s c"
    and others: "step c s s' \<Longrightarrow> d \<noteq> c \<Longrightarrow> ins s' d = ins s d"
    and enter: "step c s s' \<Longrightarrow> \<not> ins s c \<Longrightarrow> ins s' c \<Longrightarrow> \<not> tk s \<and> tk s'"
    and stay: "step c s s' \<Longrightarrow> ins s c = ins s' c \<Longrightarrow> tk s' = tk s"
    and leave: "step c s s' \<Longrightarrow> ins s c \<Longrightarrow> \<not> ins s' c \<Longrightarrow> \<not> tk s'"
begin

lemma tracks:
  "reach init step s \<Longrightarrow> (\<forall>c d. ins s c \<longrightarrow> ins s d \<longrightarrow> c = d) \<and> (tk s \<longleftrightarrow> (\<exists>c. ins s c))"
proof (induction rule: reach.induct)
  case (1 s)
  then show ?case using starts by blast
next
  case (2 s c s')
  note o = others [OF 2(2)]
  show ?case
  proof (cases "ins s c = ins s' c")
    case True
    have "ins s' d = ins s d" for d by (cases "d = c") (use True o in simp_all)
    then have "ins s' = ins s" by (rule ext)
    then show ?thesis using 2(3) stay [OF 2(2) True] by simp
  next
    case False
    then show ?thesis using 2(3) o enter [OF 2(2)] leave [OF 2(2)] by metis
  qed
qed

lemma exclusive: "reach init step s \<Longrightarrow> ins s c \<Longrightarrow> ins s d \<Longrightarrow> c = d"
  using tracks by blast

lemma free_iff: "reach init step s \<Longrightarrow> \<not> tk s \<longleftrightarrow> (\<forall>c. \<not> ins s c)"
  using tracks by blast

end

lemma safe_disable_eq:
  "safe_disable c s = goto c (Got (isDisabled (flags s c))) (set_flags c (fst (disable (flags s c))) s)"
  by (simp add: safe_disable_def disable_def)

lemmas lock_steps = goto_def set_flags_def call_def spin_lock_def spin_unlock_def safe_disable_eq safe_exchange_def
  safe_set_was_def safe_again_def safe_read_was_def safe_release_def safe_restore_def isl_lock_def isl_flags_def
  atomic_exchange_def atomic_set_def inside_def

interpretation spin: test_and_set unlocked spin_step taken inside
  by unfold_locales (auto simp: unlocked_def lock_steps elim!: spin_step.cases split: if_splits prod.splits)

interpretation safe: test_and_set unlocked safe_step taken inside
  by unfold_locales (auto simp: unlocked_def lock_steps elim!: safe_step.cases split: if_splits prod.splits)

interpretation isl: test_and_set unlocked isl_step taken inside
  by unfold_locales (auto simp: unlocked_def lock_steps elim!: isl_step.cases split: if_splits prod.splits)

section \<open>Interrupts while the lock is held\<close>

fun pc_ok :: "bool \<Rightarrow> bool \<Rightarrow> bool \<Rightarrow> pc \<Rightarrow> bool" where
  "pc_ok wa bef dis Out \<longleftrightarrow> True"
| "pc_ok wa bef dis Want \<longleftrightarrow> dis = bef"
| "pc_ok wa bef dis (Held w) \<longleftrightarrow> dis \<and> w = bef \<and> wa = bef"
| "pc_ok wa bef dis (Got w) \<longleftrightarrow> dis \<and> w = bef"
| "pc_ok wa bef dis (Lost w) \<longleftrightarrow> dis \<and> w = bef"
| "pc_ok wa bef dis (Won w) \<longleftrightarrow> dis \<and> w = bef"
| "pc_ok wa bef dis (Rel w) \<longleftrightarrow> dis \<and> w = bef"
| "pc_ok wa bef dis (Rest w) \<longleftrightarrow> dis \<and> w = bef"

definition flags_ok :: "locks \<Rightarrow> nat \<Rightarrow> bool" where
  "flags_ok s c \<longleftrightarrow> pc_ok (was s) (before s c) (isDisabled (flags s c)) (pcs s c)"

lemma restored: "isDisabled f \<Longrightarrow> isDisabled (restore w f) = w"
  by (simp add: restore_def)

lemma pc_ok_was: "pc_ok a b d p \<Longrightarrow> \<not> pc_inside p \<Longrightarrow> pc_ok a' b d p"
  by (cases p) simp_all

lemma flags_ok_step:
  assumes st: "safe_step c s s'" and ok: "\<And>d. flags_ok s d" and ex: "\<And>d. inside s c \<Longrightarrow> inside s d \<Longrightarrow> d = c"
  shows "flags_ok s' d"
proof (cases "d = c")
  case True
  show ?thesis using st ok [of c]
    by cases (auto simp: flags_ok_def lock_steps restored True)
next
  case False
  have o: "before s' d = before s d" "flags s' d = flags s d" "pcs s' d = pcs s d"
    using st False by (cases; auto simp: lock_steps)+
  have "was s' = was s \<or> inside s c"
    using st by cases (auto simp: lock_steps)
  then show ?thesis
  proof
    assume "was s' = was s"
    then show ?thesis using ok [of d] o by (simp add: flags_ok_def)
  next
    assume "inside s c"
    then have "\<not> pc_inside (pcs s d)" using ex [of d] False by (auto simp: inside_def)
    then show ?thesis using ok [of d] o pc_ok_was by (simp add: flags_ok_def)
  qed
qed

lemma safe_flags: "reach unlocked safe_step s \<Longrightarrow> flags_ok s c"
proof (induction arbitrary: c rule: reach.induct)
  case (1 s)
  then show ?case by (simp add: unlocked_def flags_ok_def)
next
  case (2 s d s')
  show ?case by (rule flags_ok_step [OF 2(2) 2(3)]) (rule safe.exclusive [OF 2(1)])
qed

section \<open>The claims\<close>

text \<open>
  C37. The interrupt-safe lock excludes, and interrupts are off on the core that holds it: in every
  interleaving of the accesses of any number of cores at most one core is inside, its EFLAGS.IF is clear (so that
  a handler on that core cannot try to take the lock again), and \<open>taken\<close> says whether a core is inside.
\<close>

theorem interrupt_safe_lock_excludes:
  assumes "reach unlocked safe_step s" "inside s c"
  shows "isDisabled (flags s c) \<and> (\<forall>d. inside s d \<longrightarrow> d = c) \<and> taken s"
proof -
  have "isDisabled (flags s c)"
    using safe_flags [OF assms(1), of c] assms(2) by (cases "pcs s c") (simp_all add: flags_ok_def inside_def)
  then show ?thesis using safe.exclusive [OF assms(1) _ assms(2)] safe.free_iff [OF assms(1)] assms(2) by blast
qed

definition all_out :: locks where
  "all_out = \<lparr>taken = False, was = False, flags = \<lambda>_. 0x200, pcs = \<lambda>_. Out, before = \<lambda>_. False\<rparr>"

definition locked0 :: locks where
  "locked0 = safe_set_was 0 False (safe_exchange 0 False (safe_disable 0 (call 0 all_out)))"

lemma reach_locked0: "reach unlocked safe_step locked0"
proof -
  note r = reach.intros(2) [where step = safe_step and c = 0]
  have "reach unlocked safe_step all_out" by (rule reach.intros(1)) (simp add: unlocked_def all_out_def)
  from r [OF this safe_step.intros(2)] have "reach unlocked safe_step (call 0 all_out)" by (simp add: all_out_def)
  from r [OF this safe_step.intros(3)] have "reach unlocked safe_step (safe_disable 0 (call 0 all_out))"
    by (simp add: lock_steps)
  from r [OF this safe_step.intros(4), of False]
  have "reach unlocked safe_step (safe_exchange 0 False (safe_disable 0 (call 0 all_out)))"
    by (simp add: lock_steps all_out_def disable_def isDisabled_def)
  from r [OF this safe_step.intros(5), of False] show ?thesis
    by (simp add: lock_steps all_out_def disable_def isDisabled_def locked0_def)
qed

theorem interrupt_safe_lock_excludes_witness: "isDisabled (flags locked0 0) \<and> taken locked0"
proof -
  have "inside locked0 0" by (simp add: locked0_def lock_steps)
  from interrupt_safe_lock_excludes [OF reach_locked0 this] show ?thesis by blast
qed

text \<open>
  Taking and releasing the interrupt-safe lock gives back the interrupt state: the last step of \<open>unlock\<close> leaves
  interrupts disabled if and only if they were disabled when the core called \<open>lock\<close>, although \<open>was\<close> is one
  variable of the lock that other cores write in between.
\<close>

theorem unlock_restores_interrupts:
  assumes "reach unlocked safe_step s" "pcs s c = Rest w"
  shows "isDisabled (flags (safe_restore c w s) c) = before s c"
  using safe_flags [OF assms(1), of c] assms(2) by (simp add: flags_ok_def lock_steps restored)

theorem unlock_restores_interrupts_witness:
  "isDisabled (flags (safe_restore 0 False (safe_release 0 False (safe_read_was 0 locked0))) 0) = False"
proof -
  note r = reach.intros(2) [where step = safe_step and c = 0]
  have "pcs locked0 0 = Held False" "was locked0 = False" by (simp_all add: locked0_def lock_steps)
  note l = this
  have "reach unlocked safe_step (safe_read_was 0 locked0)" by (rule r [OF reach_locked0 safe_step.intros(7)]) (rule l(1))
  then have "reach unlocked safe_step (safe_release 0 False (safe_read_was 0 locked0))"
    by (rule r [OF _ safe_step.intros(8)]) (simp add: safe_read_was_def goto_def l)
  from unlock_restores_interrupts [OF this, of 0 False] show ?thesis
    by (simp add: lock_steps locked0_def all_out_def isDisabled_def)
qed

text \<open>
  \<open>SpinLock\<close> and \<open>ISL\<close> exclude as well: at most one core is between the exchange of \<open>lock\<close> that
  succeeded and the store of \<open>unlock\<close>.
\<close>

theorem spin_locks_exclude:
  assumes "reach unlocked spin_step s \<or> reach unlocked isl_step s" "inside s c" "inside s d"
  shows "c = d"
  using assms(1) spin.exclusive [OF _ assms(2,3)] isl.exclusive [OF _ assms(2,3)] by blast

theorem spin_locks_exclude_witness: "inside (spin_lock 0 (call 0 all_out)) 0 \<and> (0 :: nat) = 0"
proof -
  note r = reach.intros(2) [where step = spin_step and c = 0]
  have "reach unlocked spin_step all_out" by (rule reach.intros(1)) (simp add: unlocked_def all_out_def)
  from r [OF this spin_step.intros(1)] have "reach unlocked spin_step (call 0 all_out)" by (simp add: all_out_def)
  from r [OF this spin_step.intros(2)] have a: "reach unlocked spin_step (spin_lock 0 (call 0 all_out))"
    by (simp add: lock_steps)
  have i: "inside (spin_lock 0 (call 0 all_out)) 0" by (simp add: lock_steps all_out_def)
  show ?thesis by (rule conjI [OF i spin_locks_exclude [OF disjI1 [OF a] i i]])
qed

end
