(* ===== verification/Shared.thy ===== *)
theory Shared
  imports Prelude
begin

text \<open>
  Reference-counted pointers: \<open>kernel/shared.h\<close>. Handles are the variables of type \<open>Shared<T>\<close>, numbered; one that
  is null or not constructed holds nothing. \<open>live\<close> is the set of objects that were created and not
  deleted. Touching the count of a deleted object is an error. What the destructor of an
  object does to the handles in it is a sequence of \<open>destroy\<close>s of its own.
\<close>

section \<open>Operations\<close>

type_synonym obj = nat
type_synonym handle = nat

record shared =
  ptr :: "handle \<Rightarrow> obj option"
  ref_count :: "obj \<Rightarrow> u32"
  live :: "obj set"

definition add_ref :: "obj \<Rightarrow> u32 \<Rightarrow> shared \<Rightarrow> (shared \<times> u32) res" where
  "add_ref a inc s =
     (if a \<in> live s then Inr (s\<lparr>ref_count := (ref_count s)(a := ref_count s a + inc)\<rparr>, ref_count s a + inc)
      else Inl (Panic ''use after free''))"

definition take_ref :: "obj option \<Rightarrow> shared \<Rightarrow> shared res" where
  "take_ref p s = (case p of None \<Rightarrow> Inr s | Some a \<Rightarrow> bindE (add_ref a 1 s) (\<lambda>(s, c). Inr s))"

definition reset :: "handle \<Rightarrow> shared \<Rightarrow> shared res" where
  "reset h s =
     (case ptr s h of
        None \<Rightarrow> Inr (s\<lparr>ptr := (ptr s)(h := None)\<rparr>)
      | Some a \<Rightarrow> bindE (add_ref a (- 1) s) (\<lambda>(s, c).
          let s = (if c = 0 then s\<lparr>live := live s - {a}\<rparr> else s) in
          Inr (s\<lparr>ptr := (ptr s)(h := None)\<rparr>)))"

definition from_ptr :: "handle \<Rightarrow> obj option \<Rightarrow> shared \<Rightarrow> shared res" where
  "from_ptr h it s = take_ref it (s\<lparr>ptr := (ptr s)(h := it)\<rparr>)"

definition default_handle :: "handle \<Rightarrow> shared \<Rightarrow> shared res" where
  "default_handle h s = Inr (s\<lparr>ptr := (ptr s)(h := None)\<rparr>)"

definition copy_of :: "handle \<Rightarrow> handle \<Rightarrow> shared \<Rightarrow> shared res" where
  "copy_of h rhs s = take_ref (ptr s rhs) (s\<lparr>ptr := (ptr s)(h := ptr s rhs)\<rparr>)"

definition move_of :: "handle \<Rightarrow> handle \<Rightarrow> shared \<Rightarrow> shared res" where
  "move_of h rhs s = Inr (s\<lparr>ptr := (ptr s)(h := ptr s rhs, rhs := None)\<rparr>)"

definition destroy :: "handle \<Rightarrow> shared \<Rightarrow> shared res" where
  "destroy h s = reset h s"

definition assign_ptr :: "handle \<Rightarrow> obj option \<Rightarrow> shared \<Rightarrow> shared res" where
  "assign_ptr h rhs s = bindE (reset h s) (\<lambda>s. take_ref rhs (s\<lparr>ptr := (ptr s)(h := rhs)\<rparr>))"

definition assign_copy :: "handle \<Rightarrow> handle \<Rightarrow> shared \<Rightarrow> shared res" where
  "assign_copy h rhs s =
     (if rhs = h then Inr s
      else bindE (reset h s) (\<lambda>s. take_ref (ptr s rhs) (s\<lparr>ptr := (ptr s)(h := ptr s rhs)\<rparr>)))"

definition assign_move :: "handle \<Rightarrow> handle \<Rightarrow> shared \<Rightarrow> shared res" where
  "assign_move h rhs s = bindE (reset h s) (\<lambda>s. Inr (s\<lparr>ptr := (ptr s)(h := ptr s rhs, rhs := None)\<rparr>))"

definition same :: "handle \<Rightarrow> handle \<Rightarrow> shared \<Rightarrow> bool" where
  "same h rhs s \<longleftrightarrow> ptr s h = ptr s rhs"

definition use_count :: "handle \<Rightarrow> shared \<Rightarrow> u32 option" where
  "use_count h s = map_option (ref_count s) (ptr s h)"

text \<open>\<open>new T\<close>, which sets the count of a \<open>Sharable\<close> to 0, then a handle for it.\<close>

definition new_obj :: "obj \<Rightarrow> shared \<Rightarrow> shared" where
  "new_obj a s = s\<lparr>ref_count := (ref_count s)(a := 0), live := insert a (live s)\<rparr>"

definition make :: "handle \<Rightarrow> obj \<Rightarrow> shared \<Rightarrow> shared res" where
  "make h a s = from_ptr h (Some a) (new_obj a s)"

section \<open>The invariant\<close>

definition holders :: "shared \<Rightarrow> obj \<Rightarrow> handle set" where
  "holders s a = {h. ptr s h = Some a}"

text \<open>\<open>N\<close> bounds the number of handles.\<close>

definition counts_ok :: "nat \<Rightarrow> shared \<Rightarrow> bool" where
  "counts_ok N s \<longleftrightarrow> (\<forall>h a. ptr s h = Some a \<longrightarrow> h < N \<and> a \<in> live s) \<and>
     (\<forall>a\<in>live s. holders s a \<noteq> {} \<and> unat (ref_count s a) = card (holders s a))"

lemma finite_holders: "counts_ok N s \<Longrightarrow> finite (holders s a)"
  by (rule finite_subset [of _ "{..<N}"]) (auto simp: counts_ok_def holders_def)

lemma card_holders: "counts_ok N s \<Longrightarrow> card (holders s a) \<le> N"
  using card_mono [of "{..<N}" "holders s a"] by (auto simp: counts_ok_def holders_def)

lemma holders_single: "holders s a = {h} \<Longrightarrow> ptr s h = Some a"
  unfolding holders_def by blast

text \<open>Dropping a handle, and filling an empty one.\<close>

lemma reset_ok:
  assumes ok: "counts_ok N s" and N: "N < 2 ^ 32"
  shows "\<exists>s'. reset h s = Inr s' \<and> counts_ok N s' \<and> ptr s' = (ptr s)(h := None) \<and>
    live s' = live s - {a. holders s a = {h}}"
proof (cases "ptr s h")
  case None
  have "holders s a \<noteq> {h}" for a using holders_single [of s a h] None by auto
  moreover have "s\<lparr>ptr := (ptr s)(h := None)\<rparr> = s" using None by (simp add: fun_upd_idem)
  ultimately show ?thesis using None ok by (auto simp: reset_def fun_upd_idem)
next
  case (Some a)
  have a: "a \<in> live s" and c: "unat (ref_count s a) = card (holders s a)" using ok Some by (auto simp: counts_ok_def)
  note fin = finite_holders [OF ok, of a]
  have h: "h \<in> holders s a" using Some by (simp add: holders_def)
  let ?c = "ref_count s a + - 1"
  have pos: "0 < card (holders s a)" using fin h by (auto simp: card_gt_0_iff)
  have d: "unat ?c = card (holders s a) - 1"
    using pos c unat_minus_one [of "ref_count s a"] by (cases "ref_count s a = 0") simp_all
  have z: "?c = 0 \<longleftrightarrow> holders s a = {h}"
  proof
    assume "?c = 0"
    then have "card (holders s a) = 1" using d pos by simp
    then show "holders s a = {h}" using h by (auto simp: card_1_singleton_iff)
  qed (use d in \<open>simp add: unat_eq_zero\<close>)
  let ?s = "s\<lparr>ref_count := (ref_count s)(a := ?c), ptr := (ptr s)(h := None)\<rparr>"
  let ?t = "?s\<lparr>live := live s - {b. holders s b = {h}}\<rparr>"
  have o: "holders s b \<noteq> {h}" if "b \<noteq> a" for b using holders_single [of s b h] that Some by auto
  have l: "{b. holders s b = {h}} = (if ?c = 0 then {a} else {})" 
  proof (cases "?c = 0")
    case True
    then have "holders s a = {h}" using z by blast
    then show ?thesis using True o by auto
  next
    case False
    then have "holders s b \<noteq> {h}" for b using o z by (cases "b = a") auto
    then show ?thesis using False by simp
  qed
  have r: "reset h s = Inr ?t"
    using Some a by (simp add: reset_def add_ref_def l)
  have hs: "holders ?t b = holders s b - {h}" for b by (auto simp: holders_def)
  have "counts_ok N ?t"
    unfolding counts_ok_def
  proof (intro conjI allI impI ballI)
    fix k b assume p: "ptr ?t k = Some b"
    then have kb: "k \<noteq> h" "ptr s k = Some b" by (auto split: if_splits)
    then have "holders s b \<noteq> {h}" by (auto simp: holders_def)
    then show "b \<in> live ?t" using kb ok by (auto simp: counts_ok_def)
    show "k < N" using kb ok by (auto simp: counts_ok_def)
  next
    fix b assume b: "b \<in> live ?t"
    then have bl: "b \<in> live s" "holders s b \<noteq> {h}" by simp_all
    then show "holders ?t b \<noteq> {}" using ok unfolding hs counts_ok_def by blast
    show "unat (ref_count ?t b) = card (holders ?t b)"
    proof (cases "b = a")
      case True
      then show ?thesis using d fin h unfolding hs by simp
    next
      case False
      then have "h \<notin> holders s b" using Some by (simp add: holders_def)
      then show ?thesis using False bl ok unfolding hs counts_ok_def by simp
    qed
  qed
  then show ?thesis using r by (intro exI [of _ ?t]) simp
qed

lemma fill_ok:
  assumes ok: "counts_ok N s" and N: "N < 2 ^ 32" and h: "ptr s h = None" "h < N"
    and a: "a \<in> live s"
  shows "\<exists>s'. take_ref (Some a) (s\<lparr>ptr := (ptr s)(h := Some a)\<rparr>) = Inr s' \<and> counts_ok N s' \<and>
    ptr s' = (ptr s)(h := Some a) \<and> live s' = live s"
proof -
  let ?s = "s\<lparr>ptr := (ptr s)(h := Some a), ref_count := (ref_count s)(a := ref_count s a + 1)\<rparr>"
  have hs: "holders ?s b = (if b = a then insert h (holders s a) else holders s b)" for b
    using h(1) by (auto simp: holders_def)
  have new: "h \<notin> holders s a" using h(1) by (simp add: holders_def)
  have "card (insert h (holders s a)) \<le> N"
    using card_mono [of "{..<N}" "insert h (holders s a)"] ok h(2) by (auto simp: counts_ok_def holders_def)
  then have lt: "card (holders s a) + 1 < 2 ^ 32" using finite_holders [OF ok, of a] new N by simp
  have "unat (ref_count s a) = card (holders s a)" using ok a by (simp add: counts_ok_def)
  then have c: "unat (ref_count s a + 1) = card (holders s a) + 1" using lt unat_plus_if' [of "ref_count s a" 1] by simp
  have "counts_ok N ?s"
    unfolding counts_ok_def
  proof (intro conjI allI impI ballI)
    fix k b assume "ptr ?s k = Some b"
    then show "k < N" "b \<in> live ?s" using ok h(2) a by (auto simp: counts_ok_def split: if_splits)
  next
    fix b assume b: "b \<in> live ?s"
    show "holders ?s b \<noteq> {}" using ok b by (auto simp: hs counts_ok_def)
    show "unat (ref_count ?s b) = card (holders ?s b)"
      using ok b c new finite_holders [OF ok, of a] by (auto simp: hs counts_ok_def)
  qed
  then show ?thesis using a by (intro exI [of _ ?s]) (simp add: take_ref_def add_ref_def)
qed

lemma fill_opt:
  assumes "counts_ok N s" "N < 2 ^ 32" "ptr s h = None" "h < N" "\<And>a. p = Some a \<Longrightarrow> a \<in> live s"
  shows "\<exists>s'. take_ref p (s\<lparr>ptr := (ptr s)(h := p)\<rparr>) = Inr s' \<and> counts_ok N s' \<and>
    ptr s' = (ptr s)(h := p) \<and> live s' = live s"
proof (cases p)
  case None
  have "s\<lparr>ptr := (ptr s)(h := None)\<rparr> = s" using assms(3) by (simp add: fun_upd_idem)
  then show ?thesis using None assms(1,3) by (simp add: take_ref_def fun_upd_idem)
next
  case (Some a)
  then show ?thesis using fill_ok [OF assms(1-4) assms(5)] by simp
qed

lemma move_ok:
  assumes ok: "counts_ok N s" and h: "ptr s h = None" "h < N"
  shows "counts_ok N (s\<lparr>ptr := (ptr s)(h := ptr s rhs, rhs := None)\<rparr>)"
proof (cases "ptr s rhs = None \<or> h = rhs")
  case True
  then have "(ptr s)(h := ptr s rhs, rhs := None) = ptr s" using h(1) by (auto simp: fun_eq_iff)
  then show ?thesis using ok by simp
next
  case False
  let ?s = "s\<lparr>ptr := (ptr s)(h := ptr s rhs, rhs := None)\<rparr>"
  obtain a where a: "ptr s rhs = Some a" using False by auto
  have hs: "holders ?s b = (if b = a then insert h (holders s a - {rhs}) else holders s b)" for b
    using a h(1) False by (auto simp: holders_def)
  have "rhs \<in> holders s a" "h \<notin> holders s a" using a h(1) by (simp_all add: holders_def)
  then have "card (insert h (holders s a - {rhs})) = card (holders s a)"
    using finite_holders [OF ok, of a] card_Suc_Diff1 [of "holders s a" rhs] by simp
  then have c: "card (holders ?s b) = card (holders s b)" for b by (simp only: hs split: if_split) simp
  have n: "holders ?s b \<noteq> {}" if "holders s b \<noteq> {}" for b using that by (simp only: hs split: if_split) simp
  show ?thesis
    unfolding counts_ok_def
  proof (intro conjI allI impI ballI)
    fix k b assume "ptr ?s k = Some b"
    then show "k < N" "b \<in> live ?s" using ok a h(2) by (auto simp: counts_ok_def split: if_splits)
  next
    fix b assume "b \<in> live ?s"
    then have b: "holders s b \<noteq> {}" "unat (ref_count s b) = card (holders s b)"
      using ok by (simp_all add: counts_ok_def)
    show "holders ?s b \<noteq> {}" by (rule n [OF b(1)])
    show "unat (ref_count ?s b) = card (holders ?s b)" unfolding c using b(2) by simp
  qed
qed

section \<open>Sequences of operations\<close>

text \<open>
  Constructors are run on handles that are not in use; \<open>make\<close> and \<open>d = new T\<close> take a fresh object (\<open>new\<close> runs before the
  assignment). A raw pointer that is passed to \<open>Shared(T*)\<close> (\<open>Adopt\<close>) or assigned (\<open>AssignPtr\<close>) is that of an object that is not deleted.
\<close>

datatype shop = Empty handle | Copy handle handle | Move handle handle | Adopt handle obj | Destroy handle | Clear handle
  | AssignPtr handle obj | AssignNew handle obj | AssignCopy handle handle | AssignMove handle handle | Make handle obj

fun shop_ok :: "nat \<Rightarrow> shared \<Rightarrow> shop \<Rightarrow> bool" where
  "shop_ok N s (Empty h) \<longleftrightarrow> h < N \<and> ptr s h = None"
| "shop_ok N s (Copy h r) \<longleftrightarrow> h < N \<and> ptr s h = None"
| "shop_ok N s (Move h r) \<longleftrightarrow> h < N \<and> ptr s h = None"
| "shop_ok N s (Adopt h a) \<longleftrightarrow> h < N \<and> ptr s h = None \<and> a \<in> live s"
| "shop_ok N s (Destroy h) \<longleftrightarrow> h < N"
| "shop_ok N s (Clear h) \<longleftrightarrow> h < N"
| "shop_ok N s (AssignPtr h a) \<longleftrightarrow> h < N \<and> a \<in> live s"
| "shop_ok N s (AssignNew h a) \<longleftrightarrow> h < N \<and> a \<notin> live s"
| "shop_ok N s (AssignCopy h r) \<longleftrightarrow> h < N"
| "shop_ok N s (AssignMove h r) \<longleftrightarrow> h < N"
| "shop_ok N s (Make h a) \<longleftrightarrow> h < N \<and> ptr s h = None \<and> a \<notin> live s"

fun shop_run :: "shop \<Rightarrow> shared \<Rightarrow> shared res" where
  "shop_run (Empty h) = default_handle h"
| "shop_run (Copy h r) = copy_of h r"
| "shop_run (Move h r) = move_of h r"
| "shop_run (Destroy h) = destroy h"
| "shop_run (Clear h) = assign_ptr h None"
| "shop_run (Adopt h a) = from_ptr h (Some a)"
| "shop_run (AssignPtr h a) = assign_ptr h (Some a)"
| "shop_run (AssignNew h a) = (\<lambda>s. assign_ptr h (Some a) (new_obj a s))"
| "shop_run (AssignCopy h r) = assign_copy h r"
| "shop_run (AssignMove h r) = assign_move h r"
| "shop_run (Make h a) = make h a"

fun shops :: "nat \<Rightarrow> shop list \<Rightarrow> shared \<Rightarrow> shared res option" where
  "shops N [] s = Some (Inr s)"
| "shops N (p # ps) s = (if shop_ok N s p then (case shop_run p s of Inl e \<Rightarrow> Some (Inl e) | Inr s \<Rightarrow> shops N ps s) else None)"

text \<open>
  The one use of the class that fails: \<open>h\<close> is the only handle of \<open>a\<close> and is assigned \<open>a\<close>'s raw pointer. \<open>reassigns\<close>: it
  happens somewhere in the sequence.
\<close>

definition sole :: "nat \<Rightarrow> shared \<Rightarrow> handle \<Rightarrow> obj \<Rightarrow> bool" where
  "sole N s h a \<longleftrightarrow> (\<forall>k \<in> set [0..<N]. ptr s k = Some a \<longleftrightarrow> k = h)"

fun shop_fails :: "nat \<Rightarrow> shared \<Rightarrow> shop \<Rightarrow> bool" where
  "shop_fails N s (AssignPtr h a) = sole N s h a"
| "shop_fails N s p = False"

fun reassigns :: "nat \<Rightarrow> shop list \<Rightarrow> shared \<Rightarrow> bool" where
  "reassigns N [] s = False"
| "reassigns N (p # ps) s = (shop_fails N s p \<or> (case shop_run p s of Inl e \<Rightarrow> False | Inr s \<Rightarrow> reassigns N ps s))"

lemma sole_holders: "counts_ok N s \<Longrightarrow> h < N \<Longrightarrow> sole N s h a \<longleftrightarrow> holders s a = {h}"
  unfolding sole_def counts_ok_def holders_def by auto

text \<open>Dropping a handle and creating an object commute.\<close>

lemma reset_new:
  assumes "reset h s = Inr u" "a \<notin> live s" "ptr s h \<noteq> Some a"
  shows "reset h (new_obj a s) = Inr (new_obj a u)"
proof (cases "ptr s h")
  case None
  then show ?thesis using assms(1) by (auto simp: reset_def new_obj_def)
next
  case (Some b)
  then have "b \<noteq> a" "b \<in> live s" using assms by (auto simp: reset_def add_ref_def split: if_splits)
  then show ?thesis using assms(1) Some
    by (auto simp: reset_def new_obj_def add_ref_def Let_def fun_upd_twist insert_Diff_if split: if_splits)
qed

lemma make_ok:
  assumes ok: "counts_ok N s" and N: "N < 2 ^ 32" and h: "h < N" "ptr s h = None" and a: "a \<notin> live s"
  shows "\<exists>s'. make h a s = Inr s' \<and> counts_ok N s'"
proof -
  let ?s = "s\<lparr>ref_count := (ref_count s)(a := 1), live := insert a (live s), ptr := (ptr s)(h := Some a)\<rparr>"
  have na: "ptr s k \<noteq> Some a" for k using ok a by (auto simp: counts_ok_def)
  have hs: "holders ?s b = (if b = a then {h} else holders s b)" for b
    using na h(2) by (auto simp: holders_def)
  have "counts_ok N ?s" using ok h(1) unfolding counts_ok_def by (auto simp: hs)
  then show ?thesis by (intro exI [of _ ?s]) (simp add: make_def from_ptr_def new_obj_def take_ref_def add_ref_def)
qed

lemma shop_run_ok:
  assumes ok: "counts_ok N s" and N: "N < 2 ^ 32" and p: "shop_ok N s p" and f: "\<not> shop_fails N s p"
  shows "\<exists>s'. shop_run p s = Inr s' \<and> counts_ok N s'"
proof (cases p)
  case (Empty h)
  then show ?thesis using p ok by (simp add: default_handle_def fun_upd_idem)
next
  case (Adopt h a)
  then show ?thesis using fill_opt [OF ok N, of h "Some a"] p by (auto simp: from_ptr_def)
next
  case (AssignPtr h a)
  obtain u where u: "reset h s = Inr u" "counts_ok N u" "ptr u = (ptr s)(h := None)" "live u = live s - {b. holders s b = {h}}"
    using reset_ok [OF ok N, of h] by blast
  have "holders s a \<noteq> {h}" using sole_holders [OF ok, of h a] AssignPtr p f by simp
  then have "a \<in> live u" using u(4) AssignPtr p by simp
  then show ?thesis using AssignPtr p u fill_opt [OF u(2) N, of h "Some a"] by (auto simp: assign_ptr_def)
next
  case (AssignNew h a)
  obtain u where u: "reset h s = Inr u" "counts_ok N u" "ptr u = (ptr s)(h := None)" "live u = live s - {b. holders s b = {h}}"
    using reset_ok [OF ok N, of h] by blast
  have a: "h < N" "a \<notin> live s" "a \<notin> live u" "ptr s h \<noteq> Some a" using AssignNew p u(4) ok by (auto simp: counts_ok_def)
  have "shop_run p s = make h a u"
    using AssignNew reset_new [OF u(1) a(2,4)] by (simp add: assign_ptr_def make_def from_ptr_def)
  then show ?thesis using make_ok [OF u(2) N a(1) _ a(3)] u(3) by simp
next
  case (Copy h r)
  then show ?thesis using fill_opt [OF ok N, of h "ptr s r"] ok p by (auto simp: copy_of_def counts_ok_def)
next
  case (Move h r)
  then show ?thesis using move_ok [OF ok] p by (auto simp: move_of_def)
next
  case (Destroy h)
  then show ?thesis using reset_ok [OF ok N, of h] by (auto simp: destroy_def)
next
  case (Clear h)
  obtain u where u: "reset h s = Inr u" "counts_ok N u" "ptr u = (ptr s)(h := None)"
    using reset_ok [OF ok N, of h] by blast
  then show ?thesis using Clear p fill_opt [OF u(2) N, of h None] by (auto simp: assign_ptr_def)
next
  case (AssignCopy h r)
  obtain u where u: "reset h s = Inr u" "counts_ok N u" "ptr u = (ptr s)(h := None)"
    using reset_ok [OF ok N, of h] by blast
  then show ?thesis using AssignCopy p ok fill_opt [OF u(2) N, of h "ptr u r"]
    by (auto simp: assign_copy_def counts_ok_def)
next
  case (AssignMove h r)
  obtain u where u: "reset h s = Inr u" "counts_ok N u" "ptr u = (ptr s)(h := None)"
    using reset_ok [OF ok N, of h] by blast
  then show ?thesis using AssignMove p move_ok [OF u(2), of h r] by (auto simp: assign_move_def)
next
  case (Make h a)
  then show ?thesis using make_ok [OF ok N] p by auto
qed

text \<open>
  Assigning a handle its own raw pointer (\<open>d = d.ptr\<close>) is a use after free when it is the last: \<open>operator=(T*)\<close>
  drops the old pointer before it counts the new one.
\<close>

theorem shared_self_assignment:
  assumes "counts_ok N s" "N < 2 ^ 32" "holders s a = {h}"
  shows "assign_ptr h (Some a) s = Inl (Panic ''use after free'')"
  using reset_ok [OF assms(1,2), of h] assms(3) by (auto simp: assign_ptr_def take_ref_def add_ref_def)

lemma shops_ok:
  "counts_ok N s \<Longrightarrow> N < 2 ^ 32 \<Longrightarrow> shops N ps s = Some r \<Longrightarrow>
    if reassigns N ps s then r = Inl (Panic ''use after free'') else \<exists>s'. r = Inr s' \<and> counts_ok N s'"
proof (induction ps arbitrary: s)
  case (Cons p ps)
  then have p: "shop_ok N s p" by (auto split: if_splits)
  show ?case
  proof (cases "shop_fails N s p")
    case True
    then obtain h a where "p = AssignPtr h a" "sole N s h a" by (cases p) auto
    then have "shop_run p s = Inl (Panic ''use after free'')"
      using sole_holders [OF Cons.prems(1), of h a] p shared_self_assignment [OF Cons.prems(1,2), of a h] by simp
    then show ?thesis using True p Cons.prems(3) by simp
  next
    case False
    from shop_run_ok [OF Cons.prems(1,2) p this] obtain u where "shop_run p s = Inr u" "counts_ok N u" by blast
    then show ?thesis using Cons.IH [of u] Cons.prems False p by simp
  qed
qed auto

section \<open>The claims\<close>

definition no_objects :: shared where
  "no_objects = \<lparr>ptr = \<lambda>_. None, ref_count = \<lambda>_. 0, live = {}\<rparr>"

lemma counts_ok_init: "counts_ok N no_objects"
  by (simp add: counts_ok_def no_objects_def)

text \<open>
  C38. Shared pointers never dangle and never leak. Take any sequence of operations of the class over fewer than $2^{32}$
  handles: constructions (from nothing, from a new object, from the raw pointer of a live object, by copy, by move), the assignments of
  null, of a new object, of the raw pointer of a live object, of another handle by copy or by move, and destructions. If a handle
  that is the only one of its object is never assigned that object's own raw pointer, then
  no count of a deleted object is touched, every handle points to a live object, and every live object has a handle and counts exactly its
  handles. A sequence in which such an assignment does happen uses the object after it was deleted.
\<close>

theorem shared_counts_exact:
  assumes "N < 2 ^ 32" "shops N ps no_objects = Some r"
  shows "if reassigns N ps no_objects then r = Inl (Panic ''use after free'')
    else \<exists>s. r = Inr s \<and> (\<forall>h a. ptr s h = Some a \<longrightarrow> a \<in> live s) \<and>
      (\<forall>a\<in>live s. (\<exists>h. ptr s h = Some a) \<and> unat (ref_count s a) = card {h. ptr s h = Some a})"
  using shops_ok [OF counts_ok_init assms] by (fastforce simp: counts_ok_def holders_def)

lemma shops_example: "shops 4 [Make 0 7, Copy 1 0, AssignMove 2 0, Adopt 3 7, AssignPtr 3 7, AssignNew 1 8] no_objects =
    Some (Inr \<lparr>ptr = (\<lambda>_. None)(1 := Some 8, 2 := Some 7, 3 := Some 7), ref_count = (\<lambda>_. 0)(7 := 2, 8 := 1), live = {7, 8}\<rparr>)"
  by (simp add: no_objects_def make_def from_ptr_def new_obj_def take_ref_def add_ref_def copy_of_def
    assign_move_def assign_ptr_def reset_def fun_eq_iff insert_commute)

lemma reassigns_example: "\<not> reassigns 4 [Make 0 7, Copy 1 0, AssignMove 2 0, Adopt 3 7, AssignPtr 3 7, AssignNew 1 8] no_objects"
  by (simp add: no_objects_def make_def from_ptr_def new_obj_def take_ref_def add_ref_def copy_of_def
    assign_move_def assign_ptr_def reset_def sole_def upt_rec)

lemma shops_failing: "shops 1 [Make 0 7, AssignPtr 0 7] no_objects = Some (Inl (Panic ''use after free''))"
  by (simp add: no_objects_def make_def from_ptr_def new_obj_def take_ref_def add_ref_def assign_ptr_def reset_def)

theorem shared_counts_exact_witness:
  "unat (2 :: u32) = card {h :: nat. ((\<lambda>_. None)(1 := Some 8, 2 := Some 7, 3 := Some (7 :: nat))) h = Some 7}"
  using shared_counts_exact [OF _ shops_example] reassigns_example by auto

text \<open>
  The last handle deletes: dropping a handle deletes its object if and only if no other handle
  points to it, and no other object.
\<close>

theorem shared_last_deletes:
  assumes "counts_ok N s" "N < 2 ^ 32" "ptr s h = Some a"
  shows "\<exists>s'. destroy h s = Inr s' \<and> live s' = (if \<exists>k. k \<noteq> h \<and> ptr s k = Some a then live s else live s - {a})"
proof -
  have h: "h \<in> holders s b \<longleftrightarrow> b = a" for b using assms(3) by (auto simp: holders_def)
  have "holders s a = {h} \<longleftrightarrow> \<not> (\<exists>k. k \<noteq> h \<and> ptr s k = Some a)"
    using assms(3) unfolding holders_def by blast
  moreover have "holders s b = {h} \<Longrightarrow> b = a" for b using h by (metis singletonI)
  ultimately have "{b. holders s b = {h}} = (if \<exists>k. k \<noteq> h \<and> ptr s k = Some a then {} else {a})" by auto
  then show ?thesis using reset_ok [OF assms(1,2), of h] by (auto simp: destroy_def)
qed

theorem shared_last_deletes_witness:
  "\<exists>s'. destroy 0 \<lparr>ptr = (\<lambda>_. None)(0 := Some 7), ref_count = (\<lambda>_. 1), live = {7}\<rparr> = Inr s' \<and> live s' = {}"
proof -
  have h: "{h. ((\<lambda>_. None)(0 := Some 7)) h = Some a} = (if a = 7 then {0 :: nat} else {})" for a :: nat by auto
  have "counts_ok 1 \<lparr>ptr = (\<lambda>_. None)(0 := Some 7), ref_count = (\<lambda>_. 1), live = {7}\<rparr>"
    unfolding counts_ok_def holders_def by (auto simp: h)
  from shared_last_deletes [OF this, of 0 7] show ?thesis by auto
qed

theorem shared_self_assignment_witness:
  "assign_ptr 0 (Some 7) \<lparr>ptr = (\<lambda>_. None)(0 := Some 7), ref_count = (\<lambda>_. 1), live = {7}\<rparr> = Inl (Panic ''use after free'')"
proof -
  have h: "{h. ((\<lambda>_. None)(0 := Some 7)) h = Some a} = (if a = 7 then {0 :: nat} else {})" for a :: nat by auto
  have "counts_ok 1 \<lparr>ptr = (\<lambda>_. None)(0 := Some 7), ref_count = (\<lambda>_. 1), live = {7}\<rparr>"
    unfolding counts_ok_def holders_def by (auto simp: h)
  from shared_self_assignment [OF this, of 7 0] show ?thesis by (auto simp: holders_def h)
qed

end
