(* ===== verification/BlockIO.thy ===== *)
theory BlockIO
  imports Prelude
begin

text \<open>
  Block devices: \<open>kernel/block_io.h\<close> and \<open>block_io.cc\<close>. A device is its block size, its size in bytes and its
  \<open>read_block\<close>, over a state of its own; a buffer is the list of bytes that are put into it.
\<close>

section \<open>Operations\<close>

record 'd device =
  block_size :: u32
  size_in_bytes :: u32
  read_block :: "u32 \<Rightarrow> 'd \<Rightarrow> (u8 list \<times> 'd) res"

definition size_in_blocks :: "'d device \<Rightarrow> u32" where
  "size_in_blocks D = ((size_in_bytes D + block_size D - 1) div block_size D) * block_size D"

text \<open>The number of bytes, or -1, with the bytes that were put into the buffer.\<close>

definition read :: "'d device \<Rightarrow> u32 \<Rightarrow> u32 \<Rightarrow> 'd \<Rightarrow> ((int \<times> u8 list) \<times> 'd) res" where
  "read D offset desired_n d =
     (let sz = size_in_bytes D in
      if sz < offset then Inr ((- 1, []), d)
      else if offset = sz then Inr ((0, []), d)
      else if block_size D = 0 then Inl (Panic ''divide error'')
      else
        (let n = min desired_n (sz - offset);
             block_number = offset div block_size D;
             offset_in_block = offset mod block_size D;
             actual_n = min (block_size D - offset_in_block) n
         in bindE (ASSERT (actual_n \<le> n) ''actual_n <= n'') (\<lambda>_.
            bindE (ASSERT (offset + actual_n \<le> sz) ''offset + actual_n <= sz'') (\<lambda>_.
            if actual_n = block_size D then
              bindE (ASSERT (offset_in_block = 0) ''offset_in_block == 0'') (\<lambda>_.
              bindE (read_block D block_number d) (\<lambda>(buffer, d).
              Inr ((uint actual_n, buffer), d)))
            else
              bindE (ASSERT (offset_in_block + actual_n \<le> block_size D) ''offset_in_block + actual_n <= block_size'') (\<lambda>_.
              bindE (read_block D block_number d) (\<lambda>(temp, d).
              Inr ((uint actual_n, take (unat actual_n) (drop (unat offset_in_block) temp)), d)))))))"

lemma read_count:
  assumes "read D offset n d = Inr ((cnt, bytes), d')"
  shows "cnt \<le> uint n \<and> - 1 \<le> cnt"
proof -
  let ?a = "min (block_size D - offset mod block_size D) (min n (size_in_bytes D - offset))"
  have "?a \<le> n" by (meson min.cobounded1 min.cobounded2 order.trans)
  then have "uint ?a \<le> uint n" by (simp only: word_le_def)
  moreover have "cnt = - 1 \<or> cnt = 0 \<or> cnt = uint ?a"
    using assms by (auto simp: read_def Let_def split: if_splits)
  moreover have "0 \<le> uint n" "0 \<le> uint ?a" by simp_all
  ultimately show ?thesis by linarith
qed

text \<open>The loop of \<open>read_all\<close>; it ends because a \<open>read\<close> that goes on has read something.\<close>

function read_all_loop :: "'d device \<Rightarrow> int \<Rightarrow> u32 \<Rightarrow> u32 \<Rightarrow> u8 list \<Rightarrow> 'd \<Rightarrow> ((int \<times> u8 list) \<times> 'd) res" where
  "read_all_loop D total_count offset n buffer d =
     (if n = 0 then Inr ((total_count, buffer), d)
      else case read D offset n d of
             Inl e \<Rightarrow> Inl e
           | Inr ((cnt, bytes), d') \<Rightarrow>
               if cnt < 0 then Inr ((cnt, buffer), d')
               else if cnt = 0 then Inr ((total_count, buffer), d')
               else read_all_loop D (total_count + cnt) (offset + word_of_int cnt) (n - word_of_int cnt) (buffer @ bytes) d')"
  by pat_completeness auto
termination
proof (relation "measure (\<lambda>(D, t, offset, n, b, d). unat n)", goal_cases)
  case (2 D t offset n b d x y d' cnt bytes)
  then have r: "read D offset n d = Inr ((cnt, bytes), d')" and c: "0 < cnt" by auto
  have le: "cnt \<le> uint n" using read_count [OF r] by simp
  have "cnt < 2 ^ 32" using le uint_lt2p [of n] by simp
  then have u: "uint (word_of_int cnt :: u32) = cnt"
    using c by (simp only: unsigned_of_int) (simp add: take_bit_int_eq_self_iff)
  then have w: "word_of_int cnt \<le> n" using le by (simp only: word_le_def)
  have "0 < unat (word_of_int cnt :: u32)" using u c by (metis of_nat_0_less_iff of_nat_unat)
  moreover have "unat (n - word_of_int cnt) = unat n - unat (word_of_int cnt :: u32)" by (rule unat_sub [OF w])
  moreover have "unat (word_of_int cnt :: u32) \<le> unat n" using w by (simp only: word_le_nat_alt)
  ultimately show ?case by simp
qed simp

declare read_all_loop.simps [simp del]

definition read_all :: "'d device \<Rightarrow> u32 \<Rightarrow> u32 \<Rightarrow> 'd \<Rightarrow> ((int \<times> u8 list) \<times> 'd) res" where
  "read_all D offset n d = read_all_loop D 0 offset n [] d"

text \<open>\<open>read (offset, thing)\<close>: \<open>n\<close> is the size of \<open>thing\<close>.\<close>

definition read_thing :: "'d device \<Rightarrow> u32 \<Rightarrow> u32 \<Rightarrow> 'd \<Rightarrow> (u8 list \<times> 'd) res" where
  "read_thing D offset n d =
     bindE (read_all D offset n d) (\<lambda>((cnt, bytes), d).
     bindE (ASSERT (cnt = uint n) ''cnt == sizeof(T)'') (\<lambda>_. Inr (bytes, d)))"

section \<open>What a device owes\<close>

text \<open>
  A device stands for the bytes \<open>content\<close>: in an acceptable state, the blocks that start below \<open>cap\<close> can be read, and hold them. A device may
  claim a size larger than \<open>cap\<close>, as the disk does. \<open>flaky_store\<close>: reading may also end with one of the errors \<open>errs\<close>; \<open>block_store\<close>: it does not;
  \<open>block_device\<close>: and everything below the size can be read.
\<close>

definition bytes :: "(nat \<Rightarrow> u8) \<Rightarrow> nat \<Rightarrow> nat \<Rightarrow> u8 list" where
  "bytes content from n = map content [from..<from + n]"

lemma length_bytes [simp]: "length (bytes c from n) = n"
  by (simp add: bytes_def)

lemma bytes_append: "bytes c from n @ bytes c (from + n) m = bytes c from (n + m)"
  by (simp add: bytes_def flip: map_append upt_add_eq_append add.assoc)

lemma bytes_slice: "b + a \<le> n \<Longrightarrow> take a (drop b (bytes c from n)) = bytes c (from + b) a"
  by (simp add: bytes_def take_map drop_map take_upt drop_upt)

lemma bytes_nth: "i < n \<Longrightarrow> bytes c from n ! i = c (from + i)"
  by (simp add: bytes_def)

lemma unat_u32: "unat (x :: u32) < 2 ^ 32"
  by (rule order.strict_trans2 [OF unsigned_less]) simp

locale flaky_store =
  fixes D :: "'d device" and ok :: "'d \<Rightarrow> bool" and content :: "nat \<Rightarrow> u8" and cap :: nat and errs :: "kerror set"
  assumes has_blocks: "block_size D \<noteq> 0" and capacity: "cap \<le> unat (size_in_bytes D)"
    and serves: "ok d \<Longrightarrow> unat k * unat (block_size D) < cap \<Longrightarrow> (\<exists>e\<in>errs. read_block D k d = Inl e) \<or>
      (\<exists>d'. read_block D k d = Inr (bytes content (unat k * unat (block_size D)) (unat (block_size D)), d') \<and> ok d')"
begin

lemma read_spec:
  fixes n :: u32
  assumes ok: "ok d" and inside: "unat offset < cap"
  defines "k \<equiv> min (unat (block_size D) - unat offset mod unat (block_size D)) (min (unat n) (unat (size_in_bytes D) - unat offset))"
  shows "(\<exists>e\<in>errs. read D offset n d = Inl e) \<or> (\<exists>d'. read D offset n d = Inr ((int k, bytes content (unat offset) k), d') \<and> ok d')"
proof -
  have off: "offset < size_in_bytes D" using inside capacity by (simp add: word_less_nat_alt)
  let ?bs = "unat (block_size D)" and ?o = "unat offset"
  define a where "a = min (block_size D - offset mod block_size D) (min n (size_in_bytes D - offset))"
  have bs: "0 < ?bs" using has_blocks by (simp add: unat_gt_0)
  have umin: "unat (min x y) = min (unat x) (unat y)" for x y :: u32
    by (simp add: min_def word_le_nat_alt)
  have m: "unat (offset mod block_size D) = ?o mod ?bs" "unat (offset div block_size D) = ?o div ?bs"
    by (simp_all add: unat_mod unat_div)
  have lt: "?o < unat (size_in_bytes D)" using off by (simp add: word_less_nat_alt)
  have le: "offset mod block_size D \<le> block_size D" using bs by (simp add: word_le_nat_alt m)
  have a: "unat a = k"
    unfolding a_def umin k_def using unat_sub [OF le] unat_sub [of offset "size_in_bytes D"] off m by simp
  have k1: "k \<le> unat (size_in_bytes D) - ?o" "k \<le> ?bs - ?o mod ?bs" unfolding k_def by simp_all
  have "?o + k < 2 ^ 32" using k1 lt unat_u32 [of "size_in_bytes D"] by simp
  then have s: "unat (offset + a) = ?o + k" using a by (simp add: unat_plus_if')
  have ms: "?o mod ?bs < ?bs" using bs by simp
  have "?o mod ?bs + k \<le> ?bs" using k1 ms by simp
  moreover have "?bs < 2 ^ 32" using unat_u32 [of "block_size D"] by simp
  ultimately have t: "unat (offset mod block_size D + a) = ?o mod ?bs + k" using a m by (simp add: unat_plus_if')
  have A1: "a \<le> min n (size_in_bytes D - offset)" unfolding a_def by (rule min.cobounded2)
  have A2: "offset + a \<le> size_in_bytes D" using s k1 lt by (simp add: word_le_nat_alt)
  have A3: "offset mod block_size D + a \<le> block_size D" using t k1 ms by (simp add: word_le_nat_alt)
  have A4: "offset mod block_size D = 0" if "a = block_size D"
  proof -
    have "k = ?bs" using a that by simp
    then have "?o mod ?bs = 0" using k1(2) bs ms by simp
    then show ?thesis using m(1) by (simp add: unat_eq_zero)
  qed
  have "?o div ?bs * ?bs \<le> ?o" by simp
  then have "?o div ?bs * ?bs < cap" using inside by (rule le_less_trans)
  from serves [OF ok, of "offset div block_size D", unfolded m, OF this]
  have R: "(\<exists>e\<in>errs. read_block D (offset div block_size D) d = Inl e) \<or>
      (\<exists>d'. read_block D (offset div block_size D) d = Inr (bytes content (?o div ?bs * ?bs) ?bs, d') \<and> ok d')" .
  have split: "?o div ?bs * ?bs + ?o mod ?bs = ?o" by simp
  have u: "uint a = int k" using a by (metis uint_nat)
  have c: "\<not> size_in_bytes D < offset" "offset \<noteq> size_in_bytes D" using off by auto
  have good: "read D offset n d = Inr ((int k, bytes content ?o k), d')"
    if r: "read_block D (offset div block_size D) d = Inr (bytes content (?o div ?bs * ?bs) ?bs, d')" for d'
  proof (cases "a = block_size D")
    case True
    then have "k = ?bs" "?o mod ?bs = 0" using a A4 m by auto
    then have "?o div ?bs * ?bs = ?o" using split by simp
    then show ?thesis
      unfolding read_def Let_def a_def [symmetric] using c has_blocks A1 [simplified True] A1 A2 A4 True r \<open>k = ?bs\<close> u by simp
  next
    case False
    have "take k (drop (?o mod ?bs) (bytes content (?o div ?bs * ?bs) ?bs)) = bytes content ?o k"
      using bytes_slice [of "?o mod ?bs" k ?bs content "?o div ?bs * ?bs"] k1(2) ms split by simp
    then show ?thesis
      unfolding read_def Let_def a_def [symmetric] using c has_blocks A1 A2 A3 False r u a m(1) by simp
  qed
  have bad: "read D offset n d = Inl e" if r: "read_block D (offset div block_size D) d = Inl e" for e
  proof (cases "a = block_size D")
    case True
    then show ?thesis unfolding read_def Let_def a_def [symmetric] using c has_blocks A1 [simplified True] A1 A2 A4 r by simp
  next
    case False
    then show ?thesis unfolding read_def Let_def a_def [symmetric] using c has_blocks A1 A2 A3 r by simp
  qed
  show ?thesis using R good bad by blast
qed

lemma read_end:
  "read D (size_in_bytes D) n d = Inr ((0, []), d)" "size_in_bytes D < offset \<Longrightarrow> read D offset n d = Inr ((- 1, []), d)"
  by (simp_all add: read_def)

lemma read_all_loop_spec:
  fixes n :: u32
  assumes "ok d" "offset \<le> size_in_bytes D" "unat offset + min (unat n) (unat (size_in_bytes D) - unat offset) \<le> cap"
  defines "kk \<equiv> min (unat n) (unat (size_in_bytes D) - unat offset)"
  shows "(\<exists>e\<in>errs. read_all_loop D t offset n buf d = Inl e) \<or>
    (\<exists>d'. read_all_loop D t offset n buf d = Inr ((t + int kk, buf @ bytes content (unat offset) kk), d') \<and> ok d')"
  using assms(1-3) unfolding kk_def
proof (induction "unat n" arbitrary: n t offset buf d rule: less_induct)
  case less
  show ?case
  proof (cases "n = 0 \<or> offset = size_in_bytes D")
    case True
    then have "min (unat n) (unat (size_in_bytes D) - unat offset) = 0" by auto
    then show ?thesis using True read_end(1) [of n d] less.prems
      by (subst read_all_loop.simps) (auto simp: bytes_def)
  next
    case False
    let ?sz = "unat (size_in_bytes D)" and ?o = "unat offset"
    obtain k where k: "k = min (unat (block_size D) - ?o mod unat (block_size D)) (min (unat n) (?sz - ?o))" by blast
    have off: "offset < size_in_bytes D" using False less.prems(2) by (simp add: order.strict_iff_order)
    have lt: "?o < ?sz" using off by (simp add: word_less_nat_alt)
    have np: "0 < unat n" using False by (simp add: unat_gt_0)
    have inside: "?o < cap" using less.prems(3) lt np by simp
    have R: "(\<exists>e\<in>errs. read D offset n d = Inl e) \<or> (\<exists>d'. read D offset n d = Inr ((int k, bytes content ?o k), d') \<and> ok d')"
      using read_spec [OF less.prems(1) inside, of n] unfolding k .
    have "0 < unat (block_size D) - ?o mod unat (block_size D)" using has_blocks by (simp add: unat_gt_0)
    then have kp: "0 < k" using np lt by (simp add: k)
    have kn: "k \<le> unat n" "k \<le> ?sz - ?o" by (simp_all add: k)
    have kw: "k < 2 ^ 32" using kn(1) unat_u32 [of n] by simp
    then have wk: "unat (word_of_int (int k) :: u32) = k" by (simp add: unat_of_nat)
    have n': "unat (n - word_of_int (int k)) = unat n - k" using kn(1) wk by (simp only: unat_sub word_le_nat_alt)
    have "?o + k < 2 ^ 32" using kn(2) lt unat_u32 [of "size_in_bytes D"] by simp
    then have o': "unat (offset + word_of_int (int k)) = ?o + k" using wk by (simp add: unat_plus_if')
    have dec: "unat (n - word_of_int (int k)) < unat n" using n' kp np by simp
    have le: "offset + word_of_int (int k) \<le> size_in_bytes D" using o' kn(2) lt by (simp add: word_le_nat_alt)
    have sum: "k + min (unat n - k) (?sz - (?o + k)) = min (unat n) (?sz - ?o)" using kn by linarith
    have cap: "?o + k + min (unat n - k) (?sz - (?o + k)) \<le> cap" using less.prems(3) sum by linarith
    show ?thesis
      using R
    proof (elim disjE bexE exE conjE)
      fix e assume "e \<in> errs" "read D offset n d = Inl e"
      then show ?thesis using False by (subst (1 2) read_all_loop.simps) auto
    next
      fix d' assume r: "read D offset n d = Inr ((int k, bytes content ?o k), d')" "ok d'"
      have step: "read_all_loop D t offset n buf d = read_all_loop D (t + int k) (offset + word_of_int (int k))
          (n - word_of_int (int k)) (buf @ bytes content ?o k) d'"
        using False r(1) kp by (subst read_all_loop.simps) simp
      have t: "t + int k + int (min (unat n - k) (?sz - (?o + k))) = t + int (min (unat n) (?sz - ?o))"
        using sum by (metis add.assoc of_nat_add)
      show ?thesis
        using less.hyps [OF dec r(2) le, of "t + int k" "buf @ bytes content ?o k"] cap
        unfolding step n' o' append_assoc bytes_append sum t by blast
    qed
  qed
qed

lemma read_all_flaky:
  assumes "ok d" "offset \<le> size_in_bytes D" "unat offset + min (unat n) (unat (size_in_bytes D) - unat offset) \<le> cap"
  shows "(\<exists>e\<in>errs. read_all D offset n d = Inl e) \<or>
    (\<exists>d'. read_all D offset n d = Inr ((int (min (unat n) (unat (size_in_bytes D) - unat offset)),
      bytes content (unat offset) (min (unat n) (unat (size_in_bytes D) - unat offset))), d') \<and> ok d')"
  using read_all_loop_spec [OF assms, of 0 "[]"] by (simp add: read_all_def)

end

section \<open>Without errors\<close>

locale block_store =
  fixes D :: "'d device" and ok :: "'d \<Rightarrow> bool" and content :: "nat \<Rightarrow> u8" and cap :: nat
  assumes has_blocks: "block_size D \<noteq> 0" and capacity: "cap \<le> unat (size_in_bytes D)"
    and serves: "ok d \<Longrightarrow> unat k * unat (block_size D) < cap \<Longrightarrow>
      \<exists>d'. read_block D k d = Inr (bytes content (unat k * unat (block_size D)) (unat (block_size D)), d') \<and> ok d'"

sublocale block_store \<subseteq> flaky: flaky_store D ok content cap "{}"
  by unfold_locales (use has_blocks capacity serves in auto)

context block_store
begin

lemma read_all_inside:
  assumes "ok d" "unat offset + unat n \<le> cap"
  shows "\<exists>d'. read_all D offset n d = Inr ((int (unat n), bytes content (unat offset) (unat n)), d') \<and> ok d'"
proof -
  have o: "offset \<le> size_in_bytes D" and m: "min (unat n) (unat (size_in_bytes D) - unat offset) = unat n"
    using assms(2) capacity by (auto simp: word_le_nat_alt)
  show ?thesis using flaky.read_all_flaky [OF assms(1) o, of n] assms(2) unfolding m by blast
qed

end

locale block_device =
  fixes D :: "'d device" and ok :: "'d \<Rightarrow> bool" and content :: "nat \<Rightarrow> u8"
  assumes has_blocks: "block_size D \<noteq> 0"
    and serves: "ok d \<Longrightarrow> unat k * unat (block_size D) < unat (size_in_bytes D) \<Longrightarrow>
      \<exists>d'. read_block D k d = Inr (bytes content (unat k * unat (block_size D)) (unat (block_size D)), d') \<and> ok d'"

sublocale block_device \<subseteq> store: block_store D ok content "unat (size_in_bytes D)"
  by unfold_locales (use has_blocks serves in auto)

context block_device
begin

lemma device_is_store: "block_store D ok content (unat (size_in_bytes D))"
  by (rule store.block_store_axioms)

lemma read_all_spec:
  assumes "ok d" "offset \<le> size_in_bytes D"
  shows "\<exists>d'. read_all D offset n d = Inr ((int (min (unat n) (unat (size_in_bytes D) - unat offset)),
    bytes content (unat offset) (min (unat n) (unat (size_in_bytes D) - unat offset))), d') \<and> ok d'"
proof -
  have "unat offset + min (unat n) (unat (size_in_bytes D) - unat offset) \<le> unat (size_in_bytes D)"
    using assms(2) by (simp add: word_le_nat_alt)
  then show ?thesis using store.flaky.read_all_flaky [OF assms, of n] by blast
qed

lemma read_all_beyond:
  assumes "size_in_bytes D < offset" "n \<noteq> 0"
  shows "read_all D offset n d = Inr ((- 1, []), d)"
  using assms store.flaky.read_end(2) by (simp add: read_all_def read_all_loop.simps)

lemma read_thing_spec:
  assumes "ok d" "unat offset + unat n \<le> unat (size_in_bytes D)"
  shows "\<exists>d'. read_thing D offset n d = Inr (bytes content (unat offset) (unat n), d') \<and> ok d'"
proof -
  have "offset \<le> size_in_bytes D" "min (unat n) (unat (size_in_bytes D) - unat offset) = unat n"
    using assms(2) by (auto simp: word_le_nat_alt)
  then show ?thesis using read_all_spec [OF assms(1), of offset n] by (auto simp: read_thing_def)
qed

end

end
