(* ===== verification/Ide.thy ===== *)
theory Ide
  imports BlockIO
begin

text \<open>
  The disk driver \<open>kernel/ide.cc\<close>, \<open>ide.h\<close>. The I/O ports are a parameter (\<open>bus\<close>). A polling
  loop has fuel; one that outlasts it is an error, as any operation that does not return. Between two polls
  the thread yields, which does not touch the drive.
\<close>

section \<open>Driver\<close>

record 'h bus =
  inb :: "u32 \<Rightarrow> 'h \<Rightarrow> u8 \<times> 'h"
  inl :: "u32 \<Rightarrow> 'h \<Rightarrow> u32 \<times> 'h"
  outb :: "u32 \<Rightarrow> u8 \<Rightarrow> 'h \<Rightarrow> 'h"

definition controller :: "u32 \<Rightarrow> u32" where
  "controller drive = drop_bit 1 drive AND 1"

definition channel :: "u32 \<Rightarrow> u32" where
  "channel drive = drive AND 1"

definition ports :: "u32 list" where
  "ports = [0x1f0, 0x170]"

definition port :: "u32 \<Rightarrow> u32" where
  "port drive = ports ! unat (controller drive)"

definition getStatus :: "'h bus \<Rightarrow> u32 \<Rightarrow> 'h \<Rightarrow> u8 \<times> 'h" where
  "getStatus B drive h = inb B (port drive + 7) h"

definition ERR :: u8 where "ERR = 0x01"
definition DRQ :: u8 where "DRQ = 0x08"
definition DF :: u8 where "DF = 0x20"
definition DRDY :: u8 where "DRDY = 0x40"
definition BSY :: u8 where "BSY = 0x80"

fun wait_not_busy :: "'h bus \<Rightarrow> u32 \<Rightarrow> nat \<Rightarrow> 'h \<Rightarrow> 'h res" where
  "wait_not_busy B drive 0 h = Inl (Panic ''drive stays busy'')"
| "wait_not_busy B drive (Suc n) h =
     (case getStatus B drive h of (status, h) \<Rightarrow> if status AND BSY \<noteq> 0 then wait_not_busy B drive n h else Inr h)"

fun wait_data :: "'h bus \<Rightarrow> u32 \<Rightarrow> nat \<Rightarrow> 'h \<Rightarrow> 'h res" where
  "wait_data B drive 0 h = Inl (Panic ''drive has no data'')"
| "wait_data B drive (Suc n) h =
     (case getStatus B drive h of (status, h) \<Rightarrow> if status AND DRQ = 0 then wait_data B drive n h else Inr h)"

definition waitForDrive :: "'h bus \<Rightarrow> u32 \<Rightarrow> nat \<Rightarrow> 'h \<Rightarrow> 'h res" where
  "waitForDrive B drive fuel h =
     (case getStatus B drive h of (status, h) \<Rightarrow>
        if status AND (ERR OR DF) \<noteq> 0 then Inl (Panic ''drive error'')
        else if status AND DRDY = 0 then Inl (Panic ''drive is not ready'')
        else wait_not_busy B drive fuel h)"

definition word_bytes :: "u32 \<Rightarrow> u8 list" where
  "word_bytes w = map (\<lambda>i. ucast (drop_bit (8 * i) w)) [0..<4]"

fun read_words :: "'h bus \<Rightarrow> u32 \<Rightarrow> nat \<Rightarrow> 'h \<Rightarrow> u8 list \<times> 'h" where
  "read_words B base 0 h = ([], h)"
| "read_words B base (Suc n) h =
     (case inl B base h of (w, h) \<Rightarrow> case read_words B base n h of (bs, h) \<Rightarrow> (word_bytes w @ bs, h))"

definition send_read :: "'h bus \<Rightarrow> u32 \<Rightarrow> u32 \<Rightarrow> u32 \<Rightarrow> 'h \<Rightarrow> 'h" where
  "send_read B base chan sector h =
     (let h = outb B (base + 2) 1 h;
          h = outb B (base + 3) (ucast sector) h;
          h = outb B (base + 4) (ucast (drop_bit 8 sector)) h;
          h = outb B (base + 5) (ucast (drop_bit 16 sector)) h;
          h = outb B (base + 6) (ucast (0xE0 OR push_bit 4 chan OR (drop_bit 24 sector AND 0xf))) h
      in outb B (base + 7) 0x20 h)"

definition sector_size :: u32 where
  "sector_size = 512"

record 'h ide =
  hw :: 'h
  nRead :: u32

definition ide_read_block :: "'h bus \<Rightarrow> u32 \<Rightarrow> nat \<Rightarrow> u32 \<Rightarrow> 'h ide \<Rightarrow> (u8 list \<times> 'h ide) res" where
  "ide_read_block B drive fuel sector s =
     (let s = s\<lparr>nRead := nRead s + 1\<rparr> in
      bindE (waitForDrive B drive fuel (hw s)) (\<lambda>h.
      bindE (waitForDrive B drive fuel (send_read B (port drive) (channel drive) sector h)) (\<lambda>h.
      bindE (wait_data B drive fuel h) (\<lambda>h.
      case read_words B (port drive) (unat (sector_size div 4)) h of (bs, h) \<Rightarrow> Inr (bs, s\<lparr>hw := h\<rparr>)))))"

text \<open>The device: its size is not that of the drive but the largest number.\<close>

definition ide_device :: "'h bus \<Rightarrow> u32 \<Rightarrow> nat \<Rightarrow> 'h ide device" where
  "ide_device B drive fuel =
     \<lparr>block_size = sector_size, size_in_bytes = NOT 0, read_block = ide_read_block B drive fuel\<rparr>"

section \<open>What the driver relies on\<close>

text \<open>
  The documented behaviour of a drive in LBA mode with the given number of sectors. It is idle, or busy with the read of a sector for some more
  polls, or has words of the sector to deliver. \<open>disk\<close> gives the words of the drive. While it is busy only BSY is valid in
  the status: the other bits may be anything, and \<open>waitForDrive\<close>, which looks at ERR, DF and DRDY before it waits for BSY, may stop with one
  of the two errors of \<open>drive_errors\<close>. What a drive does with the number of a sector that it does not have is left open.
\<close>

definition drive_errors :: "kerror set" where
  "drive_errors = {Panic ''drive error'', Panic ''drive is not ready''}"

locale ata =
  fixes B :: "'h bus" and drive :: u32 and disk :: "nat \<Rightarrow> u32" and sectors :: nat and delay :: nat
    and idle :: "'h \<Rightarrow> bool" and busy :: "nat \<Rightarrow> nat \<Rightarrow> 'h \<Rightarrow> bool" and ready :: "nat \<Rightarrow> nat \<Rightarrow> 'h \<Rightarrow> bool"
  assumes idle_status: "idle h \<Longrightarrow> \<exists>s h'. inb B (port drive + 7) h = (s, h') \<and> s AND (ERR OR DF) = 0 \<and>
      s AND DRDY \<noteq> 0 \<and> s AND BSY = 0 \<and> idle h'"
    and command: "idle h \<Longrightarrow> unat sector < sectors \<Longrightarrow> sector < 2 ^ 28 \<Longrightarrow>
      \<exists>k \<le> delay. busy (unat sector) k (send_read B (port drive) (channel drive) sector h)"
    and busy_status: "busy sec (Suc k) h \<Longrightarrow> \<exists>s h'. inb B (port drive + 7) h = (s, h') \<and> s AND BSY \<noteq> 0 \<and> busy sec k h'"
    and busy_done: "busy sec 0 h \<Longrightarrow> ready sec 0 h"
    and ready_status: "ready sec i h \<Longrightarrow> i < 128 \<Longrightarrow> \<exists>s h'. inb B (port drive + 7) h = (s, h') \<and> s AND (ERR OR DF) = 0 \<and>
      s AND DRDY \<noteq> 0 \<and> s AND BSY = 0 \<and> s AND DRQ \<noteq> 0 \<and> ready sec i h'"
    and data: "ready sec i h \<Longrightarrow> i < 128 \<Longrightarrow>
      \<exists>h'. inl B (port drive) h = (disk (128 * sec + i), h') \<and> ready sec (Suc i) h'"
    and finished: "ready sec 128 h \<Longrightarrow> idle h"
begin

lemma wait_idle: "idle h \<Longrightarrow> 0 < fuel \<Longrightarrow> \<exists>h'. waitForDrive B drive fuel h = Inr h' \<and> idle h'"
proof -
  assume i: "idle h" and f: "0 < fuel"
  obtain s h1 where 1: "inb B (port drive + 7) h = (s, h1)" "s AND (ERR OR DF) = 0" "s AND DRDY \<noteq> 0" "idle h1"
    using idle_status [OF i] by blast
  obtain t h2 where 2: "inb B (port drive + 7) h1 = (t, h2)" "t AND BSY = 0" "idle h2"
    using idle_status [OF 1(4)] by blast
  obtain n where "fuel = Suc n" using f by (cases fuel) auto
  then show ?thesis using 1 2 by (simp add: waitForDrive_def getStatus_def)
qed

lemma wait_busy: "busy sec k h \<Longrightarrow> k < fuel \<Longrightarrow> \<exists>h'. wait_not_busy B drive fuel h = Inr h' \<and> ready sec 0 h'"
proof (induction k arbitrary: h fuel)
  case 0
  obtain n where n: "fuel = Suc n" using 0 by (cases fuel) auto
  obtain s h' where "inb B (port drive + 7) h = (s, h')" "s AND BSY = 0" "ready sec 0 h'"
    using ready_status [OF busy_done [OF 0(1)]] by auto
  then show ?case using n by (simp add: getStatus_def)
next
  case (Suc k)
  obtain n where n: "fuel = Suc n" using Suc.prems(2) by (cases fuel) auto
  obtain s h' where s: "inb B (port drive + 7) h = (s, h')" "s AND BSY \<noteq> 0" "busy sec k h'"
    using busy_status [OF Suc.prems(1)] by blast
  then show ?case using Suc.IH [OF s(3), of n] Suc.prems(2) n by (simp add: getStatus_def)
qed

text \<open>After the command: the first status is looked at as a whole. If it is good the wait goes on to the end.\<close>

lemma wait_command:
  assumes b: "busy sec k h" and f: "k < fuel"
  shows "(\<exists>e\<in>drive_errors. waitForDrive B drive fuel h = Inl e \<and> (\<exists>j s h'. k = Suc j \<and> getStatus B drive h = (s, h') \<and>
      (s AND (ERR OR DF) \<noteq> 0 \<or> s AND DRDY = 0))) \<or>
    (\<exists>h'. waitForDrive B drive fuel h = Inr h' \<and> ready sec 0 h')"
proof (cases k)
  case 0
  obtain s h1 where 1: "inb B (port drive + 7) h = (s, h1)" "s AND (ERR OR DF) = 0" "s AND DRDY \<noteq> 0" "ready sec 0 h1"
    using ready_status [OF busy_done [of sec h]] b 0 by auto
  obtain t h2 where 2: "inb B (port drive + 7) h1 = (t, h2)" "t AND BSY = 0" "ready sec 0 h2"
    using ready_status [OF 1(4)] by auto
  obtain n where "fuel = Suc n" using f by (cases fuel) auto
  then show ?thesis using 1 2 by (simp add: waitForDrive_def getStatus_def)
next
  case (Suc j)
  obtain s h1 where 1: "inb B (port drive + 7) h = (s, h1)" "busy sec j h1"
    using busy_status [of sec j h] b Suc by auto
  obtain h2 where "wait_not_busy B drive fuel h1 = Inr h2" "ready sec 0 h2" using wait_busy [OF 1(2), of fuel] f Suc by auto
  then show ?thesis using 1 Suc by (auto simp: waitForDrive_def getStatus_def drive_errors_def)
qed

lemma wait_ready: "ready sec 0 h \<Longrightarrow> 0 < fuel \<Longrightarrow> \<exists>h'. wait_data B drive fuel h = Inr h' \<and> ready sec 0 h'"
proof -
  assume r: "ready sec 0 h" and f: "0 < fuel"
  obtain s h' where s: "inb B (port drive + 7) h = (s, h')" "s AND DRQ \<noteq> 0" "ready sec 0 h'"
    using ready_status [OF r] by auto
  obtain n where "fuel = Suc n" using f by (cases fuel) auto
  then show ?thesis using s by (simp add: getStatus_def)
qed

lemma words_read: "ready sec i h \<Longrightarrow> i + n \<le> 128 \<Longrightarrow>
    \<exists>h'. read_words B (port drive) n h = (concat (map (\<lambda>j. word_bytes (disk (128 * sec + j))) [i..<i + n]), h') \<and> ready sec (i + n) h'"
proof (induction n arbitrary: i h)
  case (Suc n)
  obtain h1 where 1: "inl B (port drive) h = (disk (128 * sec + i), h1)" "ready sec (Suc i) h1"
    using data [OF Suc.prems(1)] Suc.prems(2) by auto
  obtain h2 where 2: "read_words B (port drive) n h1 = (concat (map (\<lambda>j. word_bytes (disk (128 * sec + j))) [Suc i..<Suc i + n]), h2)"
    "ready sec (Suc i + n) h2"
    using Suc.IH [OF 1(2)] Suc.prems(2) by auto
  have "[i..<i + Suc n] = i # [Suc i..<Suc i + n]" by (simp add: upt_conv_Cons)
  then show ?case using 1 2 by simp
qed simp

definition sector_bytes :: "nat \<Rightarrow> u8 list" where
  "sector_bytes k = concat (map (\<lambda>j. word_bytes (disk (128 * k + j))) [0..<128])"

lemma sector_read:
  assumes "idle (hw s)" "unat sector < sectors" "sector < 2 ^ 28" "delay < fuel"
  shows "(\<exists>e\<in>drive_errors. ide_read_block B drive fuel sector s = Inl e \<and> (\<exists>sec j h st h'. busy sec (Suc j) h \<and>
      getStatus B drive h = (st, h') \<and> (st AND (ERR OR DF) \<noteq> 0 \<or> st AND DRDY = 0))) \<or>
    (\<exists>s'. ide_read_block B drive fuel sector s = Inr (sector_bytes (unat sector), s') \<and> idle (hw s') \<and> nRead s' = nRead s + 1)"
proof -
  have f: "0 < fuel" using assms(4) by simp
  obtain h1 where 1: "waitForDrive B drive fuel (hw s) = Inr h1" "idle h1" using wait_idle [OF assms(1), of fuel] f by blast
  let ?h = "send_read B (port drive) (channel drive) sector h1"
  obtain k where k: "k \<le> delay" "busy (unat sector) k ?h" using command [OF 1(2) assms(2,3)] by blast
  have "k < fuel" using k(1) assms(4) by simp
  from wait_command [OF k(2) this] consider (stops) e j st h' where "e \<in> drive_errors" "waitForDrive B drive fuel ?h = Inl e" "k = Suc j" "getStatus B drive ?h = (st, h')"
      "st AND (ERR OR DF) \<noteq> 0 \<or> st AND DRDY = 0"
    | (reads) h2 where "waitForDrive B drive fuel ?h = Inr h2" "ready (unat sector) 0 h2" by blast
  then show ?thesis
  proof cases
    case stops
    then have "ide_read_block B drive fuel sector s = Inl e" using 1(1) by (simp add: ide_read_block_def)
    then show ?thesis using stops k(2) by blast
  next
    case 2: reads
    obtain h3 where 3: "wait_data B drive fuel h2 = Inr h3" "ready (unat sector) 0 h3" using wait_ready [OF 2(2) f] by blast
    obtain h4 where 4: "read_words B (port drive) 128 h3 = (sector_bytes (unat sector), h4)" "ready (unat sector) (0 + 128) h4"
      using words_read [OF 3(2), of 128] by (auto simp: sector_bytes_def)
    have "unat (sector_size div 4) = 128" by (simp add: sector_size_def unat_div)
    then show ?thesis using 1 2 3 4 finished [of "unat sector" h4] by (simp add: ide_read_block_def)
  qed
qed

end

text \<open>The bytes of a drive.\<close>

definition disk_bytes :: "(nat \<Rightarrow> u32) \<Rightarrow> nat \<Rightarrow> u8" where
  "disk_bytes disk n = ucast (drop_bit (8 * (n mod 4)) (disk (n div 4)))"

lemma word_bytes_disk: "word_bytes (disk k) = bytes (disk_bytes disk) (4 * k) 4"
proof (rule nth_equalityI)
  show "length (word_bytes (disk k)) = length (bytes (disk_bytes disk) (4 * k) 4)" by (simp add: word_bytes_def)
  fix i assume "i < length (word_bytes (disk k))"
  then have "i < 4" by (simp add: word_bytes_def)
  then show "word_bytes (disk k) ! i = bytes (disk_bytes disk) (4 * k) 4 ! i"
    by (simp add: word_bytes_def bytes_nth disk_bytes_def)
qed

lemma concat_words: "concat (map (\<lambda>j. word_bytes (disk (m + j))) [0..<n]) = bytes (disk_bytes disk) (4 * m) (4 * n)"
proof (induction n)
  case (Suc n)
  have "4 * (m + n) = 4 * m + 4 * n" by simp
  then show ?case using Suc bytes_append [of "disk_bytes disk" "4 * m" "4 * n" 4]
    by (simp add: word_bytes_disk add.commute)
qed (simp add: bytes_def)

text \<open>The bytes that can be addressed: those of the drive's sectors below the size that the driver gives itself.\<close>

definition drive_bytes :: "nat \<Rightarrow> nat" where
  "drive_bytes sectors = min (512 * sectors) (2 ^ 32 - 1)"

lemma drive_block:
  assumes "unat k * 512 < drive_bytes sectors"
  shows "unat (k :: u32) < sectors" "k < 2 ^ 28"
  using assms by (simp_all add: drive_bytes_def word_less_nat_alt)

locale ata_polled = ata +
  fixes fuel :: nat
  assumes enough: "delay < fuel"

lemma ide_size: "unat (size_in_bytes (ide_device B drive fuel)) = 2 ^ 32 - 1"
  by (simp add: ide_device_def unsigned_minus_1_eq_mask mask_eq_exp_minus_1)

sublocale ata_polled \<subseteq> drive: flaky_store "ide_device B drive fuel" "\<lambda>s. idle (hw s)" "disk_bytes disk" "drive_bytes sectors" drive_errors
proof
  show "block_size (ide_device B drive fuel) \<noteq> 0" by (simp add: ide_device_def sector_size_def)
  show "drive_bytes sectors \<le> unat (size_in_bytes (ide_device B drive fuel))" by (simp add: ide_size drive_bytes_def)
next
  fix s :: "'a ide" and k :: u32
  assume i: "idle (hw s)" and "unat k * unat (block_size (ide_device B drive fuel)) < drive_bytes sectors"
  then have k: "unat k * 512 < drive_bytes sectors" by (simp add: ide_device_def sector_size_def)
  have "sector_bytes (unat k) = bytes (disk_bytes disk) (unat k * 512) 512"
    using concat_words [of disk "128 * unat k" 128] by (simp add: sector_bytes_def mult.commute)
  then show "(\<exists>e\<in>drive_errors. read_block (ide_device B drive fuel) k s = Inl e) \<or>
      (\<exists>s'. read_block (ide_device B drive fuel) k s =
        Inr (bytes (disk_bytes disk) (unat k * unat (block_size (ide_device B drive fuel))) (unat (block_size (ide_device B drive fuel))), s') \<and> idle (hw s'))"
    using sector_read [OF i drive_block [OF k] enough] by (auto simp: ide_device_def sector_size_def)
qed

context ata_polled
begin

lemma drive_is_flaky: "flaky_store (ide_device B drive fuel) (\<lambda>s. idle (hw s)) (disk_bytes disk) (drive_bytes sectors) drive_errors"
  by (rule drive.flaky_store_axioms)

end

text \<open>
  What the driver needs beyond the documentation: in the status of a busy drive, where only BSY is valid, DRDY is set and ERR and DF are not.
  The drives of QEMU, on which the Makefile runs the kernel, do that.
\<close>

definition ready_while_busy :: "'h bus \<Rightarrow> u32 \<Rightarrow> (nat \<Rightarrow> nat \<Rightarrow> 'h \<Rightarrow> bool) \<Rightarrow> bool" where
  "ready_while_busy B drive busy \<longleftrightarrow> (\<forall>sec k h. busy sec (Suc k) h \<longrightarrow>
     fst (getStatus B drive h) AND (ERR OR DF) = 0 \<and> fst (getStatus B drive h) AND DRDY \<noteq> 0)"

locale ata_steady = ata_polled +
  assumes steady: "ready_while_busy B drive busy"

sublocale ata_steady \<subseteq> steady: block_store "ide_device B drive fuel" "\<lambda>s. idle (hw s)" "disk_bytes disk" "drive_bytes sectors"
proof
  show "block_size (ide_device B drive fuel) \<noteq> 0" by (rule drive.has_blocks)
  show "drive_bytes sectors \<le> unat (size_in_bytes (ide_device B drive fuel))" by (rule drive.capacity)
next
  fix s :: "'a ide" and k :: u32
  assume i: "idle (hw s)" and "unat k * unat (block_size (ide_device B drive fuel)) < drive_bytes sectors"
  then have k: "unat k * 512 < drive_bytes sectors" by (simp add: ide_device_def sector_size_def)
  have "sector_bytes (unat k) = bytes (disk_bytes disk) (unat k * 512) 512"
    using concat_words [of disk "128 * unat k" 128] by (simp add: sector_bytes_def mult.commute)
  moreover have "st AND (ERR OR DF) = 0 \<and> st AND DRDY \<noteq> 0" if "busy sec (Suc j) h" "getStatus B drive h = (st, h')" for sec j h st h'
    using steady that unfolding ready_while_busy_def by (metis fst_conv)
  ultimately show "\<exists>s'. read_block (ide_device B drive fuel) k s =
        Inr (bytes (disk_bytes disk) (unat k * unat (block_size (ide_device B drive fuel))) (unat (block_size (ide_device B drive fuel))), s') \<and> idle (hw s')"
    using sector_read [OF i drive_block [OF k] enough] unfolding ide_device_def sector_size_def by simp metis
qed

context ata_steady
begin

lemma drive_is_store: "block_store (ide_device B drive fuel) (\<lambda>s. idle (hw s)) (disk_bytes disk) (drive_bytes sectors)"
  by (rule steady.block_store_axioms)

end

text \<open>A drive that shows nothing but BSY while it is busy is within the documentation and makes the driver panic.\<close>

lemma busy_without_ready: "getStatus B drive h = (BSY, h') \<Longrightarrow> waitForDrive B drive fuel h = Inl (Panic ''drive is not ready'')"
  by (simp add: waitForDrive_def BSY_def ERR_def DF_def DRDY_def)

end
