(* ===== verification/Ext2.thy ===== *)
theory Ext2
  imports Ide
begin

text \<open>
  The ext2 reader \<open>kernel/ext2.cc\<close>, \<open>ext2.h\<close>, over a block device \<open>D\<close>. \<open>fresh n\<close> is what \<open>new char[n]\<close> holds before
  it is written. Strings are lists of bytes before the NUL. A read outside of a buffer or a string is an
  error, and so is a loop over directory entries that makes no progress. A node is a value that its operations return
  updated: the only part of it that changes is its cache and the count of its entries.
\<close>

section \<open>Numbers in buffers\<close>

definition le16 :: "u8 list \<Rightarrow> u16" where
  "le16 bs = ucast (bs ! 0) OR push_bit 8 (ucast (bs ! 1))"

definition le32 :: "u8 list \<Rightarrow> u32" where
  "le32 bs = ucast (bs ! 0) OR push_bit 8 (ucast (bs ! 1)) OR push_bit 16 (ucast (bs ! 2)) OR push_bit 24 (ucast (bs ! 3))"

text \<open>What a buffer holds after bytes were written to its start.\<close>

definition fill :: "u8 list \<Rightarrow> u8 list \<Rightarrow> u8 list" where
  "fill old new = new @ drop (length new) old"

section \<open>Node\<close>

record node =
  mode :: u16
  link_count :: u16
  nsize :: u32
  data :: "u32 list"
  entries :: u32
  cache :: "u8 list option"
  cache_num :: u32
  number :: u32

definition new_node :: "u32 \<Rightarrow> node" where
  "new_node n = \<lparr>mode = 0, link_count = 0, nsize = 0, data = replicate 15 0, entries = 0, cache = None, cache_num = NOT 0, number = n\<rparr>"

definition load :: "'d device \<Rightarrow> u32 \<Rightarrow> u32 \<Rightarrow> u8 list \<Rightarrow> 'd \<Rightarrow> (u8 list \<times> 'd) res" where
  "load D offset n buffer d = bindE (read_all D offset n d) (\<lambda>((cnt, bs), d). Inr (fill buffer bs, d))"

text \<open>\<open>read_all (offset, 4, &offset)\<close>\<close>

definition follow :: "'d device \<Rightarrow> u32 \<Rightarrow> 'd \<Rightarrow> (u32 \<times> 'd) res" where
  "follow D offset d = bindE (load D offset 4 (word_bytes offset) d) (\<lambda>(bs, d). Inr (le32 bs, d))"

definition singly :: "u32 \<Rightarrow> 'd device \<Rightarrow> u32 list \<Rightarrow> u32 \<Rightarrow> 'd \<Rightarrow> (u32 \<times> 'd) res" where
  "singly bs D dat num d =
     bindE (follow D (dat ! 12 * bs + num * 4) d) (\<lambda>(offset, d). Inr (offset * bs, d))"

definition doubly :: "u32 \<Rightarrow> 'd device \<Rightarrow> u32 list \<Rightarrow> u32 \<Rightarrow> u32 \<Rightarrow> 'd \<Rightarrow> (u32 \<times> 'd) res" where
  "doubly bs D dat pc1 num d =
     bindE (follow D (dat ! 13 * bs + num div pc1 * 4) d) (\<lambda>(offset, d).
     bindE (follow D (offset * bs + num mod pc1) d) (\<lambda>(offset, d). Inr (offset * bs, d)))"

definition trebly :: "u32 \<Rightarrow> 'd device \<Rightarrow> u32 list \<Rightarrow> u32 \<Rightarrow> u32 \<Rightarrow> u32 \<Rightarrow> 'd \<Rightarrow> (u32 \<times> 'd) res" where
  "trebly bs D dat pc1 pc2 num d =
     bindE (follow D (dat ! 14 * bs + num div pc2 * 4) d) (\<lambda>(offset, d).
     bindE (follow D (offset * bs + (num mod pc2) div pc1) d) (\<lambda>(offset, d).
     bindE (follow D (offset * bs + num mod pc1) d) (\<lambda>(offset, d). Inr (offset * bs, d))))"

text \<open>The offset of block \<open>num\<close> on the device.\<close>

definition block_offset :: "u32 \<Rightarrow> 'd device \<Rightarrow> u32 list \<Rightarrow> u32 \<Rightarrow> 'd \<Rightarrow> (u32 \<times> 'd) res" where
  "block_offset bs D dat num d =
     (if num < 12 then Inr (dat ! unat num * bs, d)
      else
        (let num = num - 12; pc1 = bs div 4 in
         if num < pc1 then singly bs D dat num d
         else
           (let num = num - pc1; pc2 = pc1 * pc1 in
            if num < pc2 then doubly bs D dat pc1 num d
            else if pc1 = 0 \<or> pc2 = 0 then Inl (Panic ''divide error'')
            else trebly bs D dat pc1 pc2 (num - pc2) d)))"

definition node_read_block :: "u32 \<Rightarrow> 'd device \<Rightarrow> (nat \<Rightarrow> u8 list) \<Rightarrow> u32 \<Rightarrow> node \<times> 'd \<Rightarrow> (u8 list \<times> (node \<times> 'd)) res" where
  "node_read_block bs D fresh num = (\<lambda>(nd, d).
     if num = cache_num nd then
       (case cache nd of None \<Rightarrow> Inl (Panic ''null dereference'') | Some c \<Rightarrow> Inr (c, (nd, d)))
     else
       (let c = (case cache nd of None \<Rightarrow> fresh (unat bs) | Some c \<Rightarrow> c) in
        bindE (block_offset bs D (data nd) num d) (\<lambda>(offset, d).
        bindE (load D offset bs c d) (\<lambda>(c, d).
        Inr (c, (nd\<lparr>cache := Some c, cache_num := num\<rparr>, d))))))"

definition node_device :: "u32 \<Rightarrow> 'd device \<Rightarrow> (nat \<Rightarrow> u8 list) \<Rightarrow> node \<Rightarrow> (node \<times> 'd) device" where
  "node_device bs D fresh nd =
     \<lparr>block_size = bs, size_in_bytes = nsize nd, read_block = node_read_block bs D fresh\<rparr>"

definition get_type :: "node \<Rightarrow> u16" where
  "get_type nd = drop_bit 12 (mode nd)"

definition is_dir :: "node \<Rightarrow> bool" where
  "is_dir nd \<longleftrightarrow> get_type nd = 0x4"

definition is_file :: "node \<Rightarrow> bool" where
  "is_file nd \<longleftrightarrow> get_type nd = 0x8"

definition is_symlink :: "node \<Rightarrow> bool" where
  "is_symlink nd \<longleftrightarrow> get_type nd = 0xa"

definition get_symbol :: "u32 \<Rightarrow> 'd device \<Rightarrow> (nat \<Rightarrow> u8 list) \<Rightarrow> u8 list \<Rightarrow> node \<times> 'd \<Rightarrow> (u8 list \<times> (node \<times> 'd)) res" where
  "get_symbol bs D fresh buffer = (\<lambda>(nd, d).
     bindE (ASSERT (is_symlink nd) ''is_symlink()'') (\<lambda>_.
     if nsize nd < 60 then Inr (fill buffer (take (unat (nsize nd)) (concat (map word_bytes (data nd)))), (nd, d))
     else load (node_device bs D fresh nd) 0 (nsize nd) buffer (nd, d)))"

definition n_links :: "node \<Rightarrow> u32" where
  "n_links nd = ucast (link_count nd)"

section \<open>Directory entries\<close>

definition entry_inode :: "u8 list \<Rightarrow> nat \<Rightarrow> u32" where
  "entry_inode buffer pos = le32 (drop pos buffer)"

definition entry_rec_len :: "u8 list \<Rightarrow> nat \<Rightarrow> u16" where
  "entry_rec_len buffer pos = le16 (drop (pos + 4) buffer)"

definition entry_name_len :: "u8 list \<Rightarrow> nat \<Rightarrow> u16" where
  "entry_name_len buffer pos = le16 (drop (pos + 6) buffer)"

definition no_progress :: kerror where
  "no_progress = Panic ''loop without progress''"

definition beyond :: kerror where
  "beyond = Panic ''read beyond the block''"

text \<open>The entries of a block. Every round that goes on advances unless an entry has length 0.\<close>

fun count_block :: "nat \<Rightarrow> u8 list \<Rightarrow> nat \<Rightarrow> u32 \<Rightarrow> u32 \<Rightarrow> u32 res" where
  "count_block 0 buffer pos togo ents = Inl no_progress"
| "count_block (Suc fuel) buffer pos togo ents =
     (if togo = 0 then Inr ents
      else if length buffer < pos + 8 then Inl beyond
      else count_block fuel buffer (pos + unat (entry_rec_len buffer pos)) (togo - ucast (entry_rec_len buffer pos))
        (if entry_inode buffer pos \<noteq> 0 then ents + 1 else ents))"

fun count_blocks :: "nat \<Rightarrow> u32 \<Rightarrow> 'd device \<Rightarrow> (nat \<Rightarrow> u8 list) \<Rightarrow> u32 \<Rightarrow> u32 \<Rightarrow> u32 \<Rightarrow> node \<times> 'd \<Rightarrow> (u32 \<times> (node \<times> 'd)) res" where
  "count_blocks 0 bs D fresh i total_togo ents s = Inl no_progress"
| "count_blocks (Suc fuel) bs D fresh i total_togo ents s =
     (if total_togo = 0 then Inr (ents, s)
      else bindE (node_read_block bs D fresh i s) (\<lambda>(buffer, s).
           bindE (count_block (Suc (unat bs)) buffer 0 bs ents) (\<lambda>ents.
           count_blocks fuel bs D fresh (i + 1) (total_togo - bs) ents s)))"

definition entry_count :: "nat \<Rightarrow> u32 \<Rightarrow> 'd device \<Rightarrow> (nat \<Rightarrow> u8 list) \<Rightarrow> node \<times> 'd \<Rightarrow> (u32 \<times> (node \<times> 'd)) res" where
  "entry_count fuel bs D fresh = (\<lambda>(nd, d).
     if entries nd = 0 then
       bindE (count_blocks fuel bs D fresh 0 (nsize nd) 0 (nd, d)) (\<lambda>(ents, (nd, d)).
       Inr (ents, (nd\<lparr>entries := ents\<rparr>, d)))
     else Inr (entries nd, (nd, d)))"

section \<open>Ext2\<close>

record ext2 =
  inode_count :: u32
  block_count :: u32
  fs_block_size :: u32
  block_count_per_group :: u32
  inode_count_per_group :: u32
  block_group_count :: u32
  group_table :: "u32 list"

definition inode_size :: u32 where
  "inode_size = 128"

definition getInode :: "ext2 \<Rightarrow> 'd device \<Rightarrow> (nat \<Rightarrow> u8 list) \<Rightarrow> u32 \<Rightarrow> 'd \<Rightarrow> (node \<times> 'd) res" where
  "getInode fs D fresh inode d =
     (if inode_count_per_group fs = 0 then Inl (Panic ''divide error'')
      else
        (let block_group = (inode - 1) div inode_count_per_group fs in
         bindE (ASSERT (block_group < block_group_count fs) ''block_group < block_group_count'') (\<lambda>_.
         let table_offset = group_table fs ! unat block_group * fs_block_size fs;
             index = (inode - 1) mod inode_count_per_group fs;
             inode_offset = table_offset + index * inode_size
         in bindE (read_all D inode_offset inode_size d) (\<lambda>((cnt, bs), d).
            bindE (ASSERT (0 \<le> cnt) ''cnt >= 0'') (\<lambda>_.
            let buffer = fill (fresh (unat inode_size)) bs in
            Inr ((new_node inode)\<lparr>mode := le16 buffer, nsize := le32 (drop 4 buffer), link_count := le16 (drop 26 buffer),
              data := map (\<lambda>i. le32 (drop (40 + 4 * i) buffer)) [0..<15]\<rparr>, d))))))"

definition ext2_mount :: "'d device \<Rightarrow> (nat \<Rightarrow> u8 list) \<Rightarrow> 'd \<Rightarrow> ((ext2 \<times> node) \<times> 'd) res" where
  "ext2_mount D fresh d =
     bindE (read_block D 2 d) (\<lambda>(buffer, d).
     let icount = le32 buffer;
         bcount = le32 (drop 4 buffer);
         bs = push_bit (unat (le32 (drop 24 buffer))) 1024;
         bcpg = le32 (drop 32 buffer);
         icpg = le32 (drop 40 buffer)
     in if icpg = 0 \<or> bcpg = 0 then Inl (Panic ''divide error'')
        else
          (let groups = (icount - 1) div icpg + 1 in
           bindE (ASSERT (groups = (bcount - 1) div bcpg + 1) ''block_group_count'') (\<lambda>_.
           let bgdt_offset = bs * (if bs = 1024 then 2 else 1);
               bgdt_size = groups * 32
           in bindE (load D bgdt_offset bgdt_size (fresh (unat bgdt_size)) d) (\<lambda>(buffer, d).
              let fs = \<lparr>inode_count = icount, block_count = bcount, fs_block_size = bs, block_count_per_group = bcpg,
                    inode_count_per_group = icpg, block_group_count = groups,
                    group_table = map (\<lambda>i. le32 (drop (32 * i + 8) buffer)) [0..<unat groups]\<rparr>
              in bindE (getInode fs D fresh 2 d) (\<lambda>(root, d). Inr ((fs, root), d))))))"

section \<open>Names\<close>

text \<open>\<open>path[i]\<close>; a NUL in the name of an entry lets the comparison run past the NUL of the path.\<close>

definition path_at :: "u8 list \<Rightarrow> nat \<Rightarrow> u8 res" where
  "path_at path i =
     (if i < length path then Inr (path ! i) else if i = length path then Inr 0 else Inl (Panic ''read beyond the name''))"

fun name_matches :: "u8 list \<Rightarrow> nat \<Rightarrow> u8 list \<Rightarrow> nat \<Rightarrow> nat \<Rightarrow> bool res" where
  "name_matches buffer start path i 0 = Inr True"
| "name_matches buffer start path i (Suc n) =
     (if length buffer \<le> start + i then Inl beyond
      else bindE (path_at path i) (\<lambda>c.
        if buffer ! (start + i) \<noteq> c then Inr False else name_matches buffer start path (Suc i) n))"

definition slash :: u8 where
  "slash = 47"

section \<open>find\<close>

fun find_block :: "nat \<Rightarrow> ext2 \<Rightarrow> 'd device \<Rightarrow> (nat \<Rightarrow> u8 list) \<Rightarrow> u8 list \<Rightarrow> nat \<Rightarrow> u32 \<Rightarrow> u8 list \<Rightarrow> 'd \<Rightarrow>
    ((node \<times> nat \<times> u8) option \<times> 'd) res" where
  "find_block 0 fs D fresh buffer pos togo name d = Inl no_progress"
| "find_block (Suc fuel) fs D fresh buffer pos togo name d =
     (if togo = 0 then Inr (None, d)
      else if length buffer < pos + 8 then Inl beyond
      else
        (let i = unat (entry_name_len buffer pos);
             rl = entry_rec_len buffer pos
         in bindE (name_matches buffer (pos + 8) name 0 i) (\<lambda>same.
            if \<not> same then find_block fuel fs D fresh buffer (pos + unat rl) (togo - ucast rl) name d
            else bindE (getInode fs D fresh (entry_inode buffer pos) d) (\<lambda>(nd, d).
                 bindE (path_at name i) (\<lambda>c.
                 if c = 0 \<or> c = slash then Inr (Some (nd, i, c), d)
                 else find_block fuel fs D fresh buffer (pos + unat rl) (togo - ucast rl) name d)))))"

fun find_blocks :: "nat \<Rightarrow> ext2 \<Rightarrow> 'd device \<Rightarrow> (nat \<Rightarrow> u8 list) \<Rightarrow> u32 \<Rightarrow> u32 \<Rightarrow> u8 list \<Rightarrow> node \<times> 'd \<Rightarrow>
    ((node \<times> nat \<times> u8) option \<times> (node \<times> 'd)) res" where
  "find_blocks 0 fs D fresh i total_togo name s = Inl no_progress"
| "find_blocks (Suc fuel) fs D fresh i total_togo name s =
     (if total_togo = 0 then Inr (None, s)
      else bindE (node_read_block (fs_block_size fs) D fresh i s) (\<lambda>(buffer, (nd, d)).
           bindE (find_block (Suc (unat (fs_block_size fs))) fs D fresh buffer 0 (fs_block_size fs) name d) (\<lambda>(r, d).
           case r of None \<Rightarrow> find_blocks fuel fs D fresh (i + 1) (total_togo - fs_block_size fs) name (nd, d)
           | Some hit \<Rightarrow> Inr (Some hit, (nd, d)))))"

text \<open>Each level of the recursion consumes a part of the name.\<close>

fun find_from :: "nat \<Rightarrow> ext2 \<Rightarrow> 'd device \<Rightarrow> (nat \<Rightarrow> u8 list) \<Rightarrow> nat \<Rightarrow> node \<Rightarrow> u8 list \<Rightarrow> 'd \<Rightarrow> (node option \<times> 'd) res" where
  "find_from fuel fs D fresh 0 dir name d = Inl no_progress"
| "find_from fuel fs D fresh (Suc levels) dir name d =
     bindE (ASSERT (is_dir dir) ''dir->is_dir()'') (\<lambda>_.
     bindE (find_blocks fuel fs D fresh 0 (nsize dir) name (dir, d)) (\<lambda>(r, (_, d)).
     case r of
       None \<Rightarrow> Inr (None, d)
     | Some (nd, i, c) \<Rightarrow> if c = 0 then Inr (Some nd, d) else find_from fuel fs D fresh levels nd (drop (Suc i) name) d))"

definition ext2_find :: "nat \<Rightarrow> ext2 \<Rightarrow> 'd device \<Rightarrow> (nat \<Rightarrow> u8 list) \<Rightarrow> node \<Rightarrow> u8 list \<Rightarrow> 'd \<Rightarrow> (node option \<times> 'd) res" where
  "ext2_find fuel fs D fresh dir name d = find_from fuel fs D fresh (Suc (length name)) dir name d"

section \<open>open\<close>

definition MAX_DEPTH :: nat where
  "MAX_DEPTH = 10"

fun open_block :: "nat \<Rightarrow> u8 list \<Rightarrow> nat \<Rightarrow> u32 \<Rightarrow> u8 list \<Rightarrow> (u32 \<times> nat \<times> u8) option res" where
  "open_block 0 buffer pos togo path = Inl no_progress"
| "open_block (Suc fuel) buffer pos togo path =
     (if togo = 0 then Inr None
      else if length buffer < pos + 8 then Inl beyond
      else
        (let i = unat (entry_name_len buffer pos);
             rl = entry_rec_len buffer pos
         in bindE (name_matches buffer (pos + 8) path 0 i) (\<lambda>same.
            if \<not> same then open_block fuel buffer (pos + unat rl) (togo - ucast rl) path
            else bindE (path_at path i) (\<lambda>c.
                 if c = 0 \<or> c = slash then Inr (Some (entry_inode buffer pos, i, c))
                 else open_block fuel buffer (pos + unat rl) (togo - ucast rl) path))))"

fun open_blocks :: "u32 \<Rightarrow> 'd device \<Rightarrow> (nat \<Rightarrow> u8 list) \<Rightarrow> nat \<Rightarrow> nat \<Rightarrow> u8 list \<Rightarrow> node \<times> 'd \<Rightarrow>
    ((u32 \<times> nat \<times> u8) option \<times> (node \<times> 'd)) res" where
  "open_blocks bs D fresh b 0 path s = Inr (None, s)"
| "open_blocks bs D fresh b (Suc n) path s =
     bindE (node_read_block bs D fresh (of_nat b) s) (\<lambda>(buffer, s).
     bindE (open_block (Suc (unat bs)) buffer 0 bs path) (\<lambda>r.
     case r of None \<Rightarrow> open_blocks bs D fresh (Suc b) n path s | Some hit \<Rightarrow> Inr (Some hit, s)))"

text \<open>\<open>next_link\<close>: the directory that holds the last name of the path, and the node of that name.\<close>

fun open_links :: "ext2 \<Rightarrow> 'd device \<Rightarrow> (nat \<Rightarrow> u8 list) \<Rightarrow> nat \<Rightarrow> node \<Rightarrow> u8 list \<Rightarrow> 'd \<Rightarrow> ((node \<times> node) option \<times> 'd) res" where
  "open_links fs D fresh 0 cd path d = Inl no_progress"
| "open_links fs D fresh (Suc levels) cd path d =
     (if \<not> is_dir cd then Inr (None, d)
      else if fs_block_size fs = 0 then Inl (Panic ''divide error'')
      else
        bindE (open_blocks (fs_block_size fs) D fresh 0 (unat (nsize cd div fs_block_size fs)) path (cd, d)) (\<lambda>(r, (cd, d)).
        case r of
          None \<Rightarrow> Inr (None, d)
        | Some (inode, i, c) \<Rightarrow>
            bindE (getInode fs D fresh inode d) (\<lambda>(nd, d).
            if c = 0 then Inr (Some (cd, nd), d) else open_links fs D fresh levels nd (drop (Suc i) path) d)))"

text \<open>The target of a link, as a C string.\<close>

definition c_string :: "u8 list \<Rightarrow> u8 list" where
  "c_string bs = takeWhile (\<lambda>c. c \<noteq> 0) bs"

fun open_path :: "ext2 \<Rightarrow> node \<Rightarrow> 'd device \<Rightarrow> (nat \<Rightarrow> u8 list) \<Rightarrow> nat \<Rightarrow> node \<Rightarrow> u8 list \<Rightarrow> 'd \<Rightarrow> (node option \<times> 'd) res" where
  "open_path fs root D fresh 0 cd base d = Inr (None, d)"
| "open_path fs root D fresh (Suc depth) cd base d =
     (let (cd, path) = (case base of [] \<Rightarrow> (cd, []) | c # cs \<Rightarrow> if c = slash then (root, cs) else (cd, base)) in
      bindE (open_links fs D fresh (Suc (length path)) cd path d) (\<lambda>(r, d).
      case r of
        None \<Rightarrow> Inr (None, d)
      | Some (cd, file) \<Rightarrow>
          if is_symlink file then
            bindE (get_symbol (fs_block_size fs) D fresh (fresh (unat (nsize file))) (file, d)) (\<lambda>(target, (file, d)).
            open_path fs root D fresh depth cd (c_string target) d)
          else if is_dir file then Inr (None, d)
          else Inr (Some file, d)))"

definition open_file :: "ext2 \<Rightarrow> node \<Rightarrow> 'd device \<Rightarrow> (nat \<Rightarrow> u8 list) \<Rightarrow> node \<Rightarrow> u8 list \<Rightarrow> 'd \<Rightarrow> (node option \<times> 'd) res" where
  "open_file fs root D fresh dir name d =
     bindE (ASSERT (is_dir dir) ''dir->is_dir()'') (\<lambda>_. open_path fs root D fresh MAX_DEPTH dir name d)"

end
