(* ===== verification/Ext2_Thms.thy ===== *)
theory Ext2_Thms
  imports Ext2
begin

text \<open>
  Files over a device: with the pointers of a node inside the device, a node whose size needs no doubly indirect
  block is a block device itself, and its cache does not show.
\<close>

section \<open>Pointers\<close>

lemma fill_all: "length old = length new \<Longrightarrow> fill old new = new"
  by (simp add: fill_def)

lemma length_word_bytes [simp]: "length (word_bytes w) = 4"
  by (simp add: word_bytes_def)

definition le32_at :: "(nat \<Rightarrow> u8) \<Rightarrow> nat \<Rightarrow> u32" where
  "le32_at content n = le32 (bytes content n 4)"

context block_store
begin

lemma cap_u32: "cap < 2 ^ 32"
  using capacity unat_u32 [of "size_in_bytes D"] by simp

lemma load_full:
  assumes "ok d" "unat offset + unat n \<le> cap" "length buffer = unat n"
  shows "\<exists>d'. load D offset n buffer d = Inr (bytes content (unat offset) (unat n), d') \<and> ok d'"
  using read_all_inside [OF assms(1,2)] assms(3) by (auto simp: load_def fill_all)

lemma follow_pointer:
  assumes "ok d" "unat offset + 4 \<le> cap"
  shows "\<exists>d'. follow D offset d = Inr (le32_at content (unat offset), d') \<and> ok d'"
  using load_full [OF assms(1), of offset 4 "word_bytes offset"] assms(2) by (auto simp: follow_def le32_at_def)

end

section \<open>Files\<close>

text \<open>The device block that holds block \<open>k\<close> of a file.\<close>

definition file_ptr :: "(nat \<Rightarrow> u8) \<Rightarrow> nat \<Rightarrow> u32 list \<Rightarrow> nat \<Rightarrow> nat" where
  "file_ptr content bs dat k =
     (if k < 12 then unat (dat ! k) else unat (le32_at content (unat (dat ! 12) * bs + (k - 12) * 4)))"

definition file_content :: "(nat \<Rightarrow> u8) \<Rightarrow> nat \<Rightarrow> u32 list \<Rightarrow> nat \<Rightarrow> u8" where
  "file_content content bs dat n = content (file_ptr content bs dat (n div bs) * bs + n mod bs)"

text \<open>The blocks of the file, and the table of the indirect ones, lie in the first \<open>cap\<close> bytes of the device.\<close>

definition file_inside :: "nat \<Rightarrow> (nat \<Rightarrow> u8) \<Rightarrow> u32 \<Rightarrow> u32 list \<Rightarrow> u32 \<Rightarrow> bool" where
  "file_inside cap content bs dat sz \<longleftrightarrow> 4 \<le> bs \<and> unat sz \<le> (12 + unat (bs div 4)) * unat bs \<and>
     (12 * unat bs < unat sz \<longrightarrow> unat (dat ! 12) * unat bs + unat bs \<le> cap) \<and>
     (\<forall>k. k * unat bs < unat sz \<longrightarrow>
        file_ptr content (unat bs) dat k * unat bs + unat bs \<le> cap)"

text \<open>A node of the file, whose cache holds the block it says.\<close>

definition node_ok :: "('d \<Rightarrow> bool) \<Rightarrow> (nat \<Rightarrow> u8) \<Rightarrow> u32 \<Rightarrow> u32 list \<Rightarrow> u32 \<Rightarrow> node \<times> 'd \<Rightarrow> bool" where
  "node_ok ok content bs dat sz = (\<lambda>(nd, d). ok d \<and> data nd = dat \<and> nsize nd = sz \<and>
     (case cache nd of None \<Rightarrow> cache_num nd = NOT 0
      | Some c \<Rightarrow> unat (cache_num nd) * unat bs < unat sz \<and>
          c = bytes (file_content content (unat bs) dat) (unat (cache_num nd) * unat bs) (unat bs)))"

locale ext2_file = block_store +
  fixes bs :: u32 and dat :: "u32 list" and sz :: u32 and fresh :: "nat \<Rightarrow> u8 list"
  assumes inside: "file_inside cap content bs dat sz"
    and fresh_size: "length (fresh (unat bs)) = unat bs"
begin

abbreviation holds :: "node \<times> 'a \<Rightarrow> bool" where
  "holds \<equiv> node_ok ok content bs dat sz"

lemmas holds_def = node_ok_def

lemma block: "4 \<le> bs"
  and direct_single: "unat sz \<le> (12 + unat (bs div 4)) * unat bs"
  and table_inside: "12 * unat bs < unat sz \<Longrightarrow> unat (dat ! 12) * unat bs + unat bs \<le> cap"
  and blocks_inside: "k * unat bs < unat sz \<Longrightarrow>
      file_ptr content (unat bs) dat k * unat bs + unat bs \<le> cap"
  using inside by (simp_all add: file_inside_def)

lemma bs_pos: "4 \<le> unat bs" "0 < unat bs"
  using block by (simp_all add: word_le_nat_alt)

lemma file_bytes: "bytes (file_content content (unat bs) dat) (k * unat bs) (unat bs) =
    bytes content (file_ptr content (unat bs) dat k * unat bs) (unat bs)"
proof (rule nth_equalityI)
  fix i assume "i < length (bytes (file_content content (unat bs) dat) (k * unat bs) (unat bs))"
  then show "bytes (file_content content (unat bs) dat) (k * unat bs) (unat bs) ! i =
      bytes content (file_ptr content (unat bs) dat k * unat bs) (unat bs) ! i"
    by (simp add: bytes_nth file_content_def)
qed simp

lemma ptr_offset: "k * unat bs < unat sz \<Longrightarrow>
    unat (word_of_nat (file_ptr content (unat bs) dat k) * bs) = file_ptr content (unat bs) dat k * unat bs"
proof -
  assume k: "k * unat bs < unat sz"
  have "file_ptr content (unat bs) dat k * unat bs < 2 ^ 32"
    using blocks_inside [OF k] cap_u32 bs_pos by simp
  moreover have "file_ptr content (unat bs) dat k < 2 ^ 32" unfolding file_ptr_def using unat_u32 by simp
  ultimately show ?thesis by (simp add: unat_word_ariths unat_of_nat)
qed

lemma block_offset_spec:
  assumes ok: "ok d" and k: "unat num * unat bs < unat sz"
  shows "\<exists>d'. block_offset bs D dat num d = Inr (word_of_nat (file_ptr content (unat bs) dat (unat num)) * bs, d') \<and> ok d'"
proof (cases "num < 12")
  case True
  then have "unat num < 12" by (simp add: word_less_nat_alt)
  then show ?thesis using True ok by (simp add: block_offset_def file_ptr_def)
next
  case False
  have n: "12 \<le> unat num" using False by (simp add: word_less_nat_alt)
  have u: "unat (num - 12) = unat num - 12" using n by (simp add: unat_sub word_le_nat_alt)
  have "unat num * unat bs < (12 + unat (bs div 4)) * unat bs" using k direct_single by (rule less_le_trans)
  then have lt: "unat num < 12 + unat (bs div 4)" by simp
  then have s: "num - 12 < bs div 4" using u n by (simp add: word_less_nat_alt)
  have "12 * unat bs \<le> unat num * unat bs" using n by simp
  then have t: "unat (dat ! 12) * unat bs + unat bs \<le> cap" using table_inside k by linarith
  have q: "unat (bs div 4) * 4 \<le> unat bs" by (simp add: unat_div)
  then have a: "(unat num - 12) * 4 + 4 \<le> unat bs" using lt n by linarith
  note szw = cap_u32
  have m: "unat (dat ! 12 * bs) = unat (dat ! 12) * unat bs" using t szw bs_pos by (simp add: unat_word_ariths)
  have x4: "unat (x * 4) = unat x * 4" if "unat x * 4 + 4 \<le> unat bs" for x :: u32
    using that szw t by (simp add: unat_word_ariths)
  have m4: "unat ((num - 12) * 4) = (unat num - 12) * 4" using x4 [of "num - 12"] a unfolding u by simp
  have off: "unat (dat ! 12 * bs + (num - 12) * 4) = unat (dat ! 12) * unat bs + (unat num - 12) * 4"
    using m m4 a t szw by (simp add: unat_plus_if')
  then have "unat (dat ! 12 * bs + (num - 12) * 4) + 4 \<le> cap" using a t by linarith
  from follow_pointer [OF ok this] obtain d' where
    "follow D (dat ! 12 * bs + (num - 12) * 4) d = Inr (le32_at content (unat (dat ! 12) * unat bs + (unat num - 12) * 4), d')" "ok d'"
    unfolding off by blast
  then show ?thesis using False s n by (simp add: block_offset_def Let_def singly_def file_ptr_def)
qed

lemma node_block:
  assumes h: "holds s" and k: "unat num * unat bs < unat sz"
  shows "\<exists>s'. node_read_block bs D fresh num s =
    Inr (bytes (file_content content (unat bs) dat) (unat num * unat bs) (unat bs), s') \<and> holds s'"
proof -
  obtain nd d where s: "s = (nd, d)" by fastforce
  have nn: "num \<noteq> NOT 0"
  proof
    assume "num = NOT 0"
    then have "unat num = 2 ^ 32 - 1" by (simp add: unsigned_minus_1_eq_mask mask_eq_exp_minus_1)
    then have "(2 ^ 32 - 1) * 4 \<le> unat num * unat bs" using bs_pos(1) by (intro mult_le_mono) simp_all
    then show False using k unat_u32 [of sz] by simp
  qed
  show ?thesis
  proof (cases "num = cache_num nd")
    case True
    then obtain c where "cache nd = Some c" using h nn s by (cases "cache nd") (auto simp: holds_def)
    then show ?thesis using True h s by (auto simp: node_read_block_def holds_def)
  next
    case False
    define c where "c = (case cache nd of None \<Rightarrow> fresh (unat bs) | Some c \<Rightarrow> c)"
    have lc: "length c = unat bs" using h s fresh_size by (auto simp: c_def holds_def split: option.splits)
    obtain d1 where 1: "block_offset bs D dat num d = Inr (word_of_nat (file_ptr content (unat bs) dat (unat num)) * bs, d1)" "ok d1"
      using block_offset_spec [OF _ k, of d] h s by (auto simp: holds_def)
    note po = ptr_offset [OF k]
    obtain d2 where 2: "load D (word_of_nat (file_ptr content (unat bs) dat (unat num)) * bs) bs c d1 =
        Inr (bytes content (file_ptr content (unat bs) dat (unat num) * unat bs) (unat bs), d2)" "ok d2"
      using load_full [OF 1(2), of "word_of_nat (file_ptr content (unat bs) dat (unat num)) * bs" bs c] lc blocks_inside [OF k]
      unfolding po by blast
    have "data nd = dat" using h s by (simp add: holds_def)
    then show ?thesis
      using False 1 2 h k unfolding s file_bytes
      by (auto simp: node_read_block_def Let_def c_def [symmetric] holds_def file_bytes)
  qed
qed

end

definition file_device :: "u32 \<Rightarrow> 'd device \<Rightarrow> (nat \<Rightarrow> u8 list) \<Rightarrow> u32 \<Rightarrow> (node \<times> 'd) device" where
  "file_device bs D fresh sz = \<lparr>block_size = bs, size_in_bytes = sz, read_block = node_read_block bs D fresh\<rparr>"

lemma node_device_file: "node_device bs D fresh nd = file_device bs D fresh (nsize nd)"
  by (simp add: node_device_def file_device_def)

sublocale ext2_file \<subseteq> contents: block_device "file_device bs D fresh sz" holds "file_content content (unat bs) dat"
proof
  show "block_size (file_device bs D fresh sz) \<noteq> 0" using bs_pos(2) by (auto simp: file_device_def unat_eq_zero)
next
  fix s and k :: u32
  assume "holds s" "unat k * unat (block_size (file_device bs D fresh sz)) < unat (size_in_bytes (file_device bs D fresh sz))"
  then show "\<exists>s'. read_block (file_device bs D fresh sz) k s =
      Inr (bytes (file_content content (unat bs) dat) (unat k * unat (block_size (file_device bs D fresh sz)))
        (unat (block_size (file_device bs D fresh sz))), s') \<and> holds s'"
    using node_block [of s k] by (simp add: file_device_def)
qed

context ext2_file
begin

lemma contents_device: "block_device (file_device bs D fresh sz) holds (file_content content (unat bs) dat)"
  by (rule contents.block_device_axioms)

lemma contents_read:
  assumes "holds s" "offset \<le> sz"
  shows "\<exists>s'. read_all (file_device bs D fresh sz) offset n s = Inr ((int (min (unat n) (unat sz - unat offset)),
    bytes (file_content content (unat bs) dat) (unat offset) (min (unat n) (unat sz - unat offset))), s') \<and> holds s'"
  using contents.read_all_spec [OF assms(1), of offset n] assms(2) by (simp add: file_device_def)

end

end
