(* ===== verification/Memory.thy ===== *)
theory Memory
  imports Ext2_Thms
begin

text \<open>
  What the kernel sees of an address space: a function from addresses to bytes. Pages that were never written read as
  zero, and the demand paging of \<open>VMM\<close> never runs out of frames here. Addresses wrap around.
\<close>

section \<open>Access\<close>

type_synonym memory = "u32 \<Rightarrow> u8"

definition put_bytes :: "u32 \<Rightarrow> u8 list \<Rightarrow> memory \<Rightarrow> memory" where
  "put_bytes a bs m = (\<lambda>x. if unat (x - a) < length bs then bs ! unat (x - a) else m x)"

definition get_bytes :: "u32 \<Rightarrow> nat \<Rightarrow> memory \<Rightarrow> u8 list" where
  "get_bytes a n m = map (\<lambda>i. m (a + of_nat i)) [0..<n]"

definition get_word :: "u32 \<Rightarrow> memory \<Rightarrow> u32" where
  "get_word a m = le32 (get_bytes a 4 m)"

definition put_word :: "u32 \<Rightarrow> u32 \<Rightarrow> memory \<Rightarrow> memory" where
  "put_word a w = put_bytes a (word_bytes w)"

text \<open>\<open>K::strlen\<close> and the copy that follows it: a string that ends within \<open>fuel\<close> bytes.\<close>

fun get_string :: "nat \<Rightarrow> u32 \<Rightarrow> memory \<Rightarrow> u8 list res" where
  "get_string 0 a m = Inl (Panic ''string without end'')"
| "get_string (Suc fuel) a m =
     (if m a = 0 then Inr [] else bindE (get_string fuel (a + 1) m) (\<lambda>s. Inr (m a # s)))"

section \<open>Laws\<close>

named_theorems memory_simps \<open>reading what was written\<close>

lemma get_bytes_Suc: "get_bytes a (Suc n) m = m a # get_bytes (a + 1) n m"
  by (simp add: get_bytes_def upt_conv_Cons map_Suc_upt [symmetric] add.assoc del: upt_Suc)

lemma length_get_bytes [simp]: "length (get_bytes a n m) = n"
  by (simp add: get_bytes_def)

lemma put_bytes_at:
  assumes "n < length bs" "length bs \<le> 2 ^ 32"
  shows "put_bytes a bs m (a + of_nat n) = bs ! n"
proof -
  have "unat (of_nat n :: u32) = n" using assms by (simp add: unat_of_nat)
  then show ?thesis using assms(1) by (simp add: put_bytes_def)
qed

lemma put_bytes_other: "length bs \<le> unat (x - a) \<Longrightarrow> put_bytes a bs m x = m x"
  by (simp add: put_bytes_def)

lemma get_put_bytes [memory_simps]: "length bs \<le> 2 ^ 32 \<Longrightarrow> n = length bs \<Longrightarrow> get_bytes a n (put_bytes a bs m) = bs"
  by (rule nth_equalityI) (simp_all add: get_bytes_def put_bytes_at)

lemma get_bytes_cong: "(\<And>i. i < n \<Longrightarrow> m (a + of_nat i) = m' (a + of_nat i)) \<Longrightarrow> get_bytes a n m = get_bytes a n m'"
  by (simp add: get_bytes_def)

text \<open>Ranges that do not meet and do not wrap.\<close>

definition apart :: "u32 \<Rightarrow> nat \<Rightarrow> u32 \<Rightarrow> nat \<Rightarrow> bool" where
  "apart a n b k \<longleftrightarrow> unat a + n \<le> 2 ^ 32 \<and> unat b + k \<le> 2 ^ 32 \<and> (unat a + n \<le> unat b \<or> unat b + k \<le> unat a)"

lemma unat_minus: "unat (x - y :: u32) = (if unat y \<le> unat x then unat x - unat y else unat x + 2 ^ 32 - unat y)"
  by (simp add: unat_sub_if')

lemma outside:
  fixes x b :: u32
  assumes "unat b + k \<le> 2 ^ 32" "unat x < unat b \<or> unat b + k \<le> unat x"
  shows "k \<le> unat (x - b)"
  using assms unat_u32 [of x] by (auto simp: unat_minus)

lemma unat_offset: "unat a + i < 2 ^ 32 \<Longrightarrow> unat (a + of_nat i :: u32) = unat a + i"
  by (simp add: unat_plus_if' unat_of_nat)

lemma get_other_bytes [memory_simps]:
  assumes "apart a n b (length bs)"
  shows "get_bytes a n (put_bytes b bs m) = get_bytes a n m"
proof (rule get_bytes_cong)
  fix i assume i: "i < n"
  then have "unat (a + of_nat i) = unat a + i" using assms by (intro unat_offset) (simp add: apart_def)
  then have "length bs \<le> unat (a + of_nat i - b)" using assms i by (intro outside) (auto simp: apart_def)
  then show "put_bytes b bs m (a + of_nat i) = m (a + of_nat i)" by (rule put_bytes_other)
qed

lemma le32_bytes: "le32 (word_bytes w) = w"
proof (rule bit_word_eqI)
  fix n assume "n < LENGTH(32)"
  then have "n < 8 \<or> 8 \<le> n \<and> n < 16 \<or> 16 \<le> n \<and> n < 24 \<or> 24 \<le> n \<and> n < 32" by auto
  then show "bit (le32 (word_bytes w)) n = bit w n"
    by (elim disjE conjE) (auto simp: le32_def word_bytes_def bit_simps)
qed

lemma get_put_word [simp, memory_simps]: "get_word a (put_word a w m) = w"
  by (simp add: get_word_def put_word_def get_put_bytes le32_bytes)

lemma get_word_zero: "get_word a (\<lambda>_. 0) = 0"
  by (simp add: get_word_def get_bytes_def le32_def)

end
