(* ===== verification/Config.thy ===== *)
theory Config
  imports Memory
begin

text \<open>
  The configuration that the kernel finds in the tables of the firmware: \<open>kernel/config.cc\<close>, \<open>config.h\<close>. Paging is off,
  so that a null pointer is address 0 and can be read. The array \<open>apicInfo\<close> has \<open>MAX_PROCS\<close> entries; a write behind it is
  an error here.
\<close>

section \<open>State\<close>

record apic_info =
  processorId :: u8
  apicId :: u8
  apic_flags :: u32

definition MAX_PROCS :: u32 where "MAX_PROCS = 16"

record config =
  memSize :: u32
  nOtherProcs :: u32
  totalProcs :: u32
  localAPIC :: u32
  madtFlags :: u32
  ioAPIC :: u32
  apicInfo :: "apic_info list"
  oemid :: "u8 list"

text \<open>\<open>memInfo\<close>, which the boot sector leaves behind.\<close>

record mem_info =
  ax :: u16
  bx :: u16
  cx :: u16
  dx :: u16

section \<open>Tables\<close>

definition iseq :: "u32 \<Rightarrow> u8 list \<Rightarrow> memory \<Rightarrow> bool" where
  "iseq a b m \<longleftrightarrow> list_all (\<lambda>i. m (a + of_nat i) = b ! i) [0..<length b]"

text \<open>\<open>RSD PTR \<close> and \<open>APIC\<close>\<close>

definition RSD_PTR :: "u8 list" where
  "RSD_PTR = [0x52, 0x53, 0x44, 0x20, 0x50, 0x54, 0x52, 0x20]"

definition APIC :: "u8 list" where
  "APIC = [0x41, 0x50, 0x49, 0x43]"

text \<open>The ranges that are searched end in the first megabyte and a bit; the end of the address space is never reached.\<close>

function findRSDInRange :: "u32 \<Rightarrow> u32 \<Rightarrow> memory \<Rightarrow> u32" where
  "findRSDInRange i e m =
     (if e \<le> i \<or> 0xfffffff0 \<le> i then 0 else if iseq i RSD_PTR m then i else findRSDInRange (i + 16) e m)"
  by pat_completeness auto
termination
proof (relation "measure (\<lambda>(i, e, m). 2 ^ 32 - unat i)", goal_cases)
  case (2 i e m)
  then have "unat i < 0xfffffff0" by (auto simp: word_le_nat_alt not_le)
  then show ?case by (simp add: unat_plus_if')
qed simp

declare findRSDInRange.simps [simp del]

definition findRSD :: "memory \<Rightarrow> u32" where
  "findRSD m =
     (let it = findRSDInRange 0x000E0000 0x00100000 m in
      if it = 0 then
        (let base = push_bit 4 (ucast (le16 (get_bytes 0x40E 2 m))) in findRSDInRange base (base + 1024) m)
      else it)"

definition SDT_Length :: "u32 \<Rightarrow> memory \<Rightarrow> u32" where
  "SDT_Length a m = get_word (a + 4) m"

fun findSDT_from :: "u32 \<Rightarrow> nat \<Rightarrow> nat \<Rightarrow> u8 list \<Rightarrow> memory \<Rightarrow> u32" where
  "findSDT_from others i 0 name m = 0"
| "findSDT_from others i (Suc n) name m =
     (let h = get_word (others + of_nat (4 * i)) m in if iseq h name m then h else findSDT_from others (Suc i) n name m)"

definition findSDT :: "u32 \<Rightarrow> u8 list \<Rightarrow> memory \<Rightarrow> u32" where
  "findSDT rsdp name m =
     (let rsdt = get_word (rsdp + 16) m;
          entries = (SDT_Length rsdt m - 36) div 4
      in findSDT_from (rsdt + 36) 0 (unat entries) name m)"

definition memAbove1M :: "mem_info \<Rightarrow> u32 res" where
  "memAbove1M mi =
     bindE (ASSERT (cx mi = 15 * 1024 \<or> dx mi = 0) ''(memInfo.cx == 15 * 1024) || (memInfo.dx == 0)'') (\<lambda>_.
     Inr (push_bit 10 (ucast (ax mi OR cx mi)) + push_bit 16 (ucast (bx mi OR dx mi))))"

section \<open>The interrupt controllers\<close>

text \<open>What one round of the loop does with the entry at \<open>p\<close>.\<close>

definition madt_entry :: "u32 \<Rightarrow> memory \<Rightarrow> config \<Rightarrow> config res" where
  "madt_entry p m c =
     (if m p = 0 then
        if m (p + 2) = 0 then Inr c
        else if MAX_PROCS \<le> nOtherProcs c then Inl (Panic ''apicInfo overflow'')
        else Inr (c\<lparr>apicInfo := (apicInfo c)[unat (nOtherProcs c) :=
                     \<lparr>processorId = m (p + 2), apicId = m (p + 3), apic_flags = get_word (p + 4) m\<rparr>],
                   nOtherProcs := nOtherProcs c + 1\<rparr>)
      else if m p = 1 then Inr (c\<lparr>ioAPIC := get_word (p + 4) m\<rparr>)
      else Inr c)"

text \<open>The loop over the entries; an entry of length 0 makes it go on for ever.\<close>

fun madt_loop :: "nat \<Rightarrow> u32 \<Rightarrow> int \<Rightarrow> memory \<Rightarrow> config \<Rightarrow> config res" where
  "madt_loop 0 p togo m c = Inl (Panic ''loop without progress'')"
| "madt_loop (Suc fuel) p togo m c =
     (if togo \<le> 0 then Inr c
      else (let len = m (p + 1); p = p + ucast len in
        bindE (madt_entry p m c) (\<lambda>c. madt_loop fuel p (togo - uint len) m c)))"

definition configInit :: "nat \<Rightarrow> mem_info \<Rightarrow> memory \<Rightarrow> config \<Rightarrow> config res" where
  "configInit fuel mi m c =
     bindE (memAbove1M mi) (\<lambda>above.
     let rsdp = findRSD m;
         c = c\<lparr>memSize := above + 0x100000\<rparr>;
         c = (if rsdp \<noteq> 0 then c\<lparr>oemid := get_bytes (rsdp + 9) 6 m @ [0]\<rparr> else c);
         madt = findSDT rsdp APIC m;
         c = c\<lparr>localAPIC := get_word (madt + 36) m, madtFlags := get_word (madt + 40) m, nOtherProcs := 0\<rparr>
     in bindE (madt_loop fuel (madt + 44) (sint (SDT_Length madt m - 44)) m c) (\<lambda>c.
        Inr (c\<lparr>totalProcs := nOtherProcs c + 1\<rparr>)))"

section \<open>The entries\<close>

text \<open>The entries \<open>ps\<close> of a table of \<open>togo\<close> bytes at \<open>p\<close>.\<close>

fun madt_chain :: "memory \<Rightarrow> u32 \<Rightarrow> int \<Rightarrow> u32 list \<Rightarrow> bool" where
  "madt_chain m p togo [] \<longleftrightarrow> togo = 0"
| "madt_chain m p togo (q # ps) \<longleftrightarrow> q = p \<and> 0 < uint (m (p + 1)) \<and> uint (m (p + 1)) \<le> togo \<and>
     madt_chain m (p + ucast (m (p + 1))) (togo - uint (m (p + 1))) ps"

definition after_last :: "memory \<Rightarrow> u32 \<Rightarrow> u32 list \<Rightarrow> u32" where
  "after_last m p ps = (if ps = [] then p else last ps + ucast (m (last ps + 1)))"

lemma madt_loop_spec:
  "madt_chain m p togo ps \<Longrightarrow> length ps < fuel \<Longrightarrow>
   madt_loop fuel p togo m c = (if ps = [] then Inr c else forE (\<lambda>q. madt_entry q m) (tl ps @ [after_last m p ps]) c)"
proof (induction ps arbitrary: p togo fuel c)
  case Nil
  then show ?case by (cases fuel) simp_all
next
  case (Cons q ps)
  let ?p = "p + ucast (m (p + 1))"
  obtain f where f: "fuel = Suc f" "length ps < f" using Cons.prems(2) by (cases fuel) auto
  have q: "q = p" "0 < togo" "madt_chain m ?p (togo - uint (m (p + 1))) ps" using Cons.prems(1) by auto
  have step: "madt_loop fuel p togo m c = bindE (madt_entry ?p m c) (\<lambda>c. madt_loop f ?p (togo - uint (m (p + 1))) m c)"
    using f(1) q(2) by (simp add: Let_def)
  show ?case
  proof (cases ps)
    case Nil
    then have "madt_loop f ?p (togo - uint (m (p + 1))) m c' = Inr c'" for c' using Cons.IH [OF q(3) f(2)] by simp
    then show ?thesis using step Nil q(1) by (cases "madt_entry ?p m c") (simp_all add: after_last_def)
  next
    case (Cons r rs)
    then have "r = ?p" using q(3) by simp
    moreover have "madt_loop f ?p (togo - uint (m (p + 1))) m c' = forE (\<lambda>q. madt_entry q m) (tl ps @ [after_last m ?p ps]) c'" for c'
      using Cons.IH [OF q(3) f(2)] Cons by simp
    ultimately show ?thesis using step Cons by (simp add: after_last_def)
  qed
qed

section \<open>The claim\<close>

text \<open>Two entries of 8 and 12 bytes at \<open>100\<close>, for a local APIC and an I/O APIC; zeros behind them.\<close>

definition two_entries :: memory where
  "two_entries = put_bytes 100 [0, 8, 1, 5, 1, 0, 0, 0, 1, 12, 0, 0, 0, 0, 0xc0, 0xfe, 0, 0, 0, 0] (\<lambda>_. 0)"

definition no_config :: config where
  "no_config = \<lparr>memSize = 0, nOtherProcs = 0, totalProcs = 0, localAPIC = 0, madtFlags = 0, ioAPIC = 0,
     apicInfo = replicate 16 \<lparr>processorId = 0, apicId = 0, apic_flags = 0\<rparr>, oemid = replicate 7 0\<rparr>"

text \<open>
  \<open>configInit\<close> steps over an entry of the table of interrupt controllers before it looks at one: with fuel for every
  entry, what it finds is what all entries but the first say, and then what the bytes behind the table say.
\<close>

theorem madt_first_entry_skipped:
  assumes "madt_chain m p togo ps" "ps \<noteq> []" "length ps < fuel"
  shows "madt_loop fuel p togo m c = forE (\<lambda>q. madt_entry q m) (tl ps @ [last ps + ucast (m (last ps + 1))]) c"
  using madt_loop_spec [OF assms(1,3)] assms(2) by (simp add: after_last_def)

theorem madt_first_entry_skipped_witness:
  "madt_loop 5 100 20 two_entries no_config = Inr (no_config\<lparr>ioAPIC := 0xfec00000\<rparr>)"
proof -
  have chain: "madt_chain two_entries 100 20 [100, 108]" by (simp add: two_entries_def put_bytes_def)
  have entry: "madt_entry 108 two_entries no_config = Inr (no_config\<lparr>ioAPIC := 0xfec00000\<rparr>)"
    by (simp add: madt_entry_def two_entries_def put_bytes_def get_word_def get_bytes_def le32_def upt_rec)
  have behind: "madt_entry 120 two_entries c = Inr c" for c by (simp add: madt_entry_def two_entries_def put_bytes_def)
  have last: "108 + ucast (two_entries (108 + 1)) = (120 :: u32)" by (simp add: two_entries_def put_bytes_def)
  show ?thesis using madt_first_entry_skipped [OF chain, of 5 no_config] entry behind last by simp
qed

end
