(* ===== verification/Machine.thy ===== *)
theory Machine
  imports Ide Config
begin

text \<open>
  Interrupt gates, the local interrupt controller, the timers and the serial port: \<open>kernel/idt.cc\<close>, \<open>smp.cc\<close>, \<open>smp.h\<close>, \<open>pit.cc\<close>,
  \<open>pit.h\<close>, \<open>u8250.cc\<close>. The I/O ports are the \<open>bus\<close> of the disk driver, the registers of the interrupt controller and the
  model-specific registers a second parameter. A polling loop has fuel. What is printed on the way is left out.
\<close>

section \<open>idt.cc\<close>

text \<open>The table of gates is an array of words, two for a gate.\<close>

definition gate_interrupt :: "u32 \<Rightarrow> nat \<Rightarrow> u32 \<Rightarrow> u32 list \<Rightarrow> u32 list" where
  "gate_interrupt kernelCS index handler idt =
     (let i0 = 2 * index; i1 = i0 + 1 in
      idt[i0 := push_bit 16 kernelCS + (handler AND 0xffff), i1 := (handler AND 0xffff0000) OR 0x8e00])"

definition gate_trap :: "u32 \<Rightarrow> nat \<Rightarrow> u32 \<Rightarrow> u32 \<Rightarrow> u32 list \<Rightarrow> u32 list" where
  "gate_trap kernelCS index handler dpl idt =
     (let i0 = 2 * index; i1 = i0 + 1 in
      idt[i0 := push_bit 16 kernelCS + (handler AND 0xffff),
          i1 := (handler AND 0xffff0000) OR 0x8f00 OR push_bit 13 dpl])"

section \<open>smp.h and smp.cc\<close>

record 'h apic =
  reg_get :: "u32 \<Rightarrow> 'h \<Rightarrow> u32 \<times> 'h"
  reg_set :: "u32 \<Rightarrow> u32 \<Rightarrow> 'h \<Rightarrow> 'h"
  rdmsr :: "u32 \<Rightarrow> 'h \<Rightarrow> u64 \<times> 'h"
  wrmsr :: "u32 \<Rightarrow> u64 \<Rightarrow> 'h \<Rightarrow> 'h"

text \<open>The addresses that \<open>SMP::init\<close> gives to the registers.\<close>

record smp =
  id_reg :: u32
  eoi_reg :: u32
  spurious :: u32
  icr_low :: u32
  icr_high :: u32
  apit_lvt_timer :: u32
  apit_initial_count :: u32
  apit_current_count :: u32
  apit_divide :: u32

definition smp_registers :: "config \<Rightarrow> smp" where
  "smp_registers c = \<lparr>id_reg = localAPIC c + 0x20, eoi_reg = localAPIC c + 0xb0, spurious = localAPIC c + 0xf0,
     icr_low = localAPIC c + 0x300, icr_high = localAPIC c + 0x310, apit_lvt_timer = localAPIC c + 0x320,
     apit_initial_count = localAPIC c + 0x380, apit_current_count = localAPIC c + 0x390, apit_divide = localAPIC c + 0x3e0\<rparr>"

definition ENABLE :: u64 where "ENABLE = push_bit 11 1"
definition MSR :: u32 where "MSR = 0x1B"

definition smp_init :: "'h bus \<Rightarrow> 'h apic \<Rightarrow> config \<Rightarrow> u32 \<Rightarrow> u32 \<Rightarrow> bool \<Rightarrow> smp \<times> u32 list \<times> 'h \<Rightarrow> smp \<times> u32 list \<times> 'h" where
  "smp_init B A c kernelCS spuriousHandler isFirst = (\<lambda>(m, idt, h).
     let (m, idt) = (if isFirst then (smp_registers c, gate_interrupt kernelCS 0xff spuriousHandler idt) else (m, idt));
         h = outb B 0x21 0xff h;
         h = outb B 0xa1 0xff h;
         (msr, h) = rdmsr A MSR h;
         h = wrmsr A MSR (msr OR ENABLE) h;
         h = reg_set A (spurious m) 0x1ff h
     in (m, idt, h))"

definition me :: "'h apic \<Rightarrow> smp \<Rightarrow> 'h \<Rightarrow> u32 \<times> 'h" where
  "me A m h = (case reg_get A (id_reg m) h of (v, h) \<Rightarrow> (drop_bit 24 v, h))"

definition eoi :: "'h apic \<Rightarrow> smp \<Rightarrow> 'h \<Rightarrow> 'h" where
  "eoi A m h = reg_set A (eoi_reg m) 0 h"

fun ipi_wait :: "'h apic \<Rightarrow> smp \<Rightarrow> nat \<Rightarrow> 'h \<Rightarrow> 'h res" where
  "ipi_wait A m 0 h = Inl (Panic ''interrupt is not delivered'')"
| "ipi_wait A m (Suc n) h =
     (case reg_get A (icr_low m) h of (v, h) \<Rightarrow> if v AND push_bit 12 1 \<noteq> 0 then ipi_wait A m n h else Inr h)"

definition ipi :: "'h apic \<Rightarrow> smp \<Rightarrow> nat \<Rightarrow> u32 \<Rightarrow> u32 \<Rightarrow> 'h \<Rightarrow> 'h res" where
  "ipi A m fuel cpu num h = ipi_wait A m fuel (reg_set A (icr_low m) num (reg_set A (icr_high m) (push_bit 24 cpu) h))"

section \<open>u8250.cc\<close>

fun uart_put :: "'h bus \<Rightarrow> nat \<Rightarrow> u8 \<Rightarrow> 'h \<Rightarrow> 'h res" where
  "uart_put B 0 c h = Inl (Panic ''line stays busy'')"
| "uart_put B (Suc n) c h =
     (case inb B (0x3F8 + 5) h of (v, h) \<Rightarrow> if v AND 0x20 = 0 then uart_put B n c h else Inr (outb B 0x3F8 c h))"

fun uart_get :: "'h bus \<Rightarrow> nat \<Rightarrow> 'h \<Rightarrow> (u8 \<times> 'h) res" where
  "uart_get B 0 h = Inl (Panic ''no character'')"
| "uart_get B (Suc n) h =
     (case inb B (0x3F8 + 5) h of (v, h) \<Rightarrow> if v AND 0x01 = 0 then uart_get B n h else Inr (inb B 0x3F8 h))"

section \<open>pit.h and pit.cc\<close>

definition PIT_FREQ :: u32 where "PIT_FREQ = 1193182"
definition APIT_vector :: u32 where "APIT_vector = 40"

record pit =
  jiffiesPerSecond :: u32
  apitCounter :: u32
  jiffies :: u32

definition pit_zero :: pit where
  "pit_zero = \<lparr>jiffiesPerSecond = 0, apitCounter = 0, jiffies = 0\<rparr>"

definition secondsToJiffies :: "pit \<Rightarrow> u32 \<Rightarrow> u32" where
  "secondsToJiffies P secs = jiffiesPerSecond P * secs"

text \<open>A division by zero is an exception that the kernel does not handle.\<close>

definition divide_error :: kerror where
  "divide_error = Panic ''division by zero''"

definition seconds :: "pit \<Rightarrow> u32 res" where
  "seconds P = (if jiffiesPerSecond P = 0 then Inl divide_error else Inr (jiffies P div jiffiesPerSecond P))"

definition pit_divider :: u32 where
  "pit_divider = (let d = PIT_FREQ div 20 in if d AND 0xffff \<noteq> d then 0xffff else d)"

definition speaker :: "'h bus \<Rightarrow> 'h \<Rightarrow> bool \<times> 'h" where
  "speaker B h = (case inb B 0x61 h of (v, h) \<Rightarrow> (v AND 0x20 \<noteq> 0, h))"

text \<open>The loop that waits for 40 changes, one poll a round.\<close>

fun count_changes :: "'h bus \<Rightarrow> nat \<Rightarrow> nat \<Rightarrow> bool \<Rightarrow> 'h \<Rightarrow> 'h res" where
  "count_changes B fuel 0 prev h = Inr h"
| "count_changes B 0 (Suc n) prev h = Inl (Panic ''the timer does not tick'')"
| "count_changes B (Suc fuel) (Suc n) prev h =
     (case speaker B h of (t, h) \<Rightarrow> if t \<noteq> prev then count_changes B fuel n t h else count_changes B fuel (Suc n) prev h)"

definition pit_start :: "'h bus \<Rightarrow> 'h apic \<Rightarrow> smp \<Rightarrow> 'h \<Rightarrow> 'h" where
  "pit_start B A m h =
     (let h = reg_set A (apit_lvt_timer m) 0x00010000 h;
          h = reg_set A (apit_divide m) 0x0000000B h;
          d = pit_divider;
          h = reg_set A (apit_initial_count m) 0xffffffff h;
          h = outb B 0x61 1 h;
          h = outb B 0x43 0b10110110 h;
          h = outb B 0x42 (ucast d) h
      in outb B 0x42 (ucast (drop_bit 8 d)) h)"

definition calibrate :: "'h bus \<Rightarrow> 'h apic \<Rightarrow> smp \<Rightarrow> u32 \<Rightarrow> u32 \<Rightarrow> nat \<Rightarrow> u32 \<Rightarrow> pit \<times> u32 list \<times> 'h \<Rightarrow> (pit \<times> u32 list \<times> 'h) res" where
  "calibrate B A m kernelCS handler fuel hz = (\<lambda>(P, idt, h).
     case speaker B (pit_start B A m h) of (prev, h) \<Rightarrow>
     bindE (count_changes B fuel 40 prev h) (\<lambda>h.
     case reg_get A (apit_current_count m) h of (current, h) \<Rightarrow>
     let diff = 0xffffffff - current; h = outb B 0x61 0 h in
     if hz = 0 then Inl divide_error
     else Inr (P\<lparr>apitCounter := diff div hz, jiffiesPerSecond := hz\<rparr>, gate_interrupt kernelCS (unat APIT_vector) handler idt, h)))"

definition pit_init :: "'h apic \<Rightarrow> smp \<Rightarrow> pit \<Rightarrow> 'h \<Rightarrow> 'h res" where
  "pit_init A m P h =
     (if apitCounter P = 0 then Inl (Panic ''apiCounter == 0, did you call Pit::calibrate?'')
      else
        let h = reg_set A (apit_divide m) 0x0000000B h;
            h = reg_set A (apit_lvt_timer m) (push_bit 17 1 OR push_bit 16 0 OR APIT_vector) h
        in Inr (reg_set A (apit_initial_count m) (apitCounter P) h))"

text \<open>
  The handler of the timer; its result says whether the thread yields. A core without a thread is \<open>None\<close>, a thread
  is given by \<open>isIdle\<close> and \<open>no_preempt\<close>.
\<close>

definition apitHandler :: "'h apic \<Rightarrow> smp \<Rightarrow> (u32 \<Rightarrow> (bool \<times> bool) option) \<Rightarrow> pit \<times> 'h \<Rightarrow> bool \<times> pit \<times> 'h" where
  "apitHandler A m activeThreads = (\<lambda>(P, h).
     case me A m h of (core, h) \<Rightarrow>
     let P = (if core = 0 then P\<lparr>jiffies := jiffies P + 1\<rparr> else P);
         h = reg_set A (eoi_reg m) 0 h
     in (case activeThreads core of None \<Rightarrow> False | Some (isIdle, no_preempt) \<Rightarrow> \<not> (isIdle \<or> no_preempt), P, h))"

end
