(* ===== verification/Snprintf.thy ===== *)
theory Snprintf
  imports Prelude
begin

text \<open>
  Formatted output: \<open>kernel/snprintf.cc\<close> and the string functions of \<open>kernel/libk.cc\<close>.

  A format or argument string is the list of its characters before the NUL; reading the NUL gives
  \<open>CHR 0x00\<close> and reading beyond it is an error. An \<open>OutputStream\<close> is the list of the characters put
  into it. \<open>int\<close> and \<open>long\<close> counters are unbounded (their overflow is undefined in C), the numbers that are
  printed are 32-bit words. Floating-point arithmetic is a parameter.
\<close>

section \<open>libk.cc\<close>

definition nul :: char where
  "nul = CHR 0x00"

definition char_at :: "string \<Rightarrow> nat \<Rightarrow> char" where
  "char_at str i = (if i < length str then str ! i else nul)"

function strlen_from :: "string \<Rightarrow> nat \<Rightarrow> int \<Rightarrow> int" where
  "strlen_from str i n = (if char_at str i \<noteq> nul then strlen_from str (Suc i) (n + 1) else n)"
  by pat_completeness auto
termination by (relation "measure (\<lambda>(str, i, n). length str - i)") (auto simp: char_at_def split: if_splits)

definition strlen :: "string \<Rightarrow> int" where
  "strlen str = strlen_from str 0 0"

definition isdigit :: "char \<Rightarrow> bool" where
  "isdigit c \<longleftrightarrow> (48 :: nat) \<le> of_char c \<and> of_char c \<le> (57 :: nat)"

function streq_from :: "string \<Rightarrow> string \<Rightarrow> nat \<Rightarrow> bool" where
  "streq_from a b i =
     (if char_at a i \<noteq> char_at b i then False
      else if char_at a i = nul then True
      else streq_from a b (Suc i))"
  by pat_completeness auto
termination by (relation "measure (\<lambda>(a, b, i). length a - i)") (auto simp: char_at_def split: if_splits)

definition streq :: "string \<Rightarrow> string \<Rightarrow> bool" where
  "streq a b = streq_from a b 0"

section \<open>Output\<close>

record outs =
  out :: string
  currlen :: int

definition dopr_outch :: "char \<Rightarrow> outs \<Rightarrow> outs" where
  "dopr_outch c s = s\<lparr>currlen := currlen s + 1, out := out s @ [c]\<rparr>"

text \<open>\<open>while (n > 0) { dopr_outch (c); --n; }\<close>\<close>

function pad_loop :: "char \<Rightarrow> int \<Rightarrow> outs \<Rightarrow> outs" where
  "pad_loop c n s = (if n > 0 then pad_loop c (n - 1) (dopr_outch c s) else s)"
  by pat_completeness auto
termination by (relation "measure (\<lambda>(c, n, s). nat n)") auto

definition put_all :: "string \<Rightarrow> outs \<Rightarrow> outs" where
  "put_all cs s = fold dopr_outch cs s"

section \<open>Flags\<close>

definition DP_F_MINUS :: u32 where "DP_F_MINUS = push_bit 0 1"
definition DP_F_PLUS :: u32 where "DP_F_PLUS = push_bit 1 1"
definition DP_F_SPACE :: u32 where "DP_F_SPACE = push_bit 2 1"
definition DP_F_NUM :: u32 where "DP_F_NUM = push_bit 3 1"
definition DP_F_ZERO :: u32 where "DP_F_ZERO = push_bit 4 1"
definition DP_F_UP :: u32 where "DP_F_UP = push_bit 5 1"
definition DP_F_UNSIGNED :: u32 where "DP_F_UNSIGNED = push_bit 6 1"

definition has :: "u32 \<Rightarrow> u32 \<Rightarrow> bool" where
  "has flags f \<longleftrightarrow> flags AND f \<noteq> 0"

section \<open>fmtstr\<close>

function fmtstr_left :: "int \<Rightarrow> int \<Rightarrow> int \<Rightarrow> outs \<Rightarrow> int \<times> int \<times> outs" where
  "fmtstr_left padlen cnt mx s =
     (if padlen > 0 \<and> cnt < mx then fmtstr_left (padlen - 1) (cnt + 1) mx (dopr_outch CHR '' '' s)
      else (padlen, cnt, s))"
  by pat_completeness auto
termination by (relation "measure (\<lambda>(p, cnt, m, s). nat p)") auto

fun fmtstr_text :: "string \<Rightarrow> int \<Rightarrow> int \<Rightarrow> outs \<Rightarrow> int \<times> outs" where
  "fmtstr_text [] cnt mx s = (cnt, s)"
| "fmtstr_text (c # cs) cnt mx s = (if cnt < mx then fmtstr_text cs (cnt + 1) mx (dopr_outch c s) else (cnt, s))"

function fmtstr_right :: "int \<Rightarrow> int \<Rightarrow> int \<Rightarrow> outs \<Rightarrow> outs" where
  "fmtstr_right padlen cnt mx s =
     (if padlen < 0 \<and> cnt < mx then fmtstr_right (padlen + 1) (cnt + 1) mx (dopr_outch CHR '' '' s) else s)"
  by pat_completeness auto
termination by (relation "measure (\<lambda>(p, cnt, m, s). nat (- p))") auto

definition fmtstr :: "string option \<Rightarrow> u32 \<Rightarrow> int \<Rightarrow> int \<Rightarrow> outs \<Rightarrow> outs" where
  "fmtstr v flags mn mx s =
     (let str = (case v of None \<Rightarrow> ''<NULL>'' | Some str \<Rightarrow> str);
          padlen = mn - int (length str);
          padlen = (if padlen < 0 then 0 else padlen);
          padlen = (if has flags DP_F_MINUS then - padlen else padlen)
      in case fmtstr_left padlen 0 mx s of (padlen, cnt, s) \<Rightarrow>
         case fmtstr_text str cnt mx s of (cnt, s) \<Rightarrow> fmtstr_right padlen cnt mx s)"

section \<open>fmtint\<close>

definition digits :: "bool \<Rightarrow> string" where
  "digits caps = (if caps then ''0123456789ABCDEF'' else ''0123456789abcdef'')"

text \<open>The digits, least significant first; \<open>n\<close> is the room left in \<open>convert\<close>.\<close>

fun convert_loop :: "bool \<Rightarrow> u32 \<Rightarrow> nat \<Rightarrow> u32 \<Rightarrow> string" where
  "convert_loop caps base 0 uvalue = []"
| "convert_loop caps base (Suc n) uvalue =
     digits caps ! unat (uvalue mod base) #
     (if uvalue div base \<noteq> 0 then convert_loop caps base n (uvalue div base) else [])"

text \<open>The last character gives way to the NUL when all twenty are used.\<close>

definition converted :: "string \<Rightarrow> string" where
  "converted cs = (if length cs = 20 then butlast cs else cs)"

definition sign_of :: "bool \<Rightarrow> u32 \<Rightarrow> string" where
  "sign_of negative flags =
     (if negative then ''-'' else if has flags DP_F_PLUS then ''+'' else if has flags DP_F_SPACE then '' '' else [])"

definition fmtint :: "u32 \<Rightarrow> u32 \<Rightarrow> int \<Rightarrow> int \<Rightarrow> u32 \<Rightarrow> outs \<Rightarrow> outs" where
  "fmtint val base mn max_arg flags s =
     (let mx = (if max_arg < 0 then 0 else max_arg);
          negative = (\<not> has flags DP_F_UNSIGNED \<and> sint val < 0);
          uvalue = (if negative then - val else val);
          signvalue = (if has flags DP_F_UNSIGNED then [] else sign_of negative flags);
          caps = has flags DP_F_UP;
          convert = converted (convert_loop caps base 20 uvalue);
          place = int (length convert);
          zpadlen = mx - place;
          spadlen = mn - (if mx \<ge> place then mx else place) - (if signvalue \<noteq> [] then 1 else 0);
          zpadlen = (if zpadlen < 0 then 0 else zpadlen);
          spadlen = (if spadlen < 0 then 0 else spadlen);
          (zpadlen, spadlen) = (if has flags DP_F_ZERO then (if zpadlen \<ge> spadlen then zpadlen else spadlen, 0) else (zpadlen, spadlen));
          spadlen = (if has flags DP_F_MINUS then - spadlen else spadlen);
          s = pad_loop CHR '' '' spadlen s;
          s = put_all signvalue s;
          s = pad_loop CHR ''0'' zpadlen s;
          s = put_all (rev convert) s
      in pad_loop CHR '' '' (- spadlen) s)"

section \<open>fmtfp\<close>

text \<open>The operations of \<open>long double\<close>; \<open>f_trunc\<close> is the conversion to \<open>long\<close>.\<close>

record 'f fpu =
  f_of :: "int \<Rightarrow> 'f"
  f_neg :: "'f \<Rightarrow> 'f"
  f_sub :: "'f \<Rightarrow> 'f \<Rightarrow> 'f"
  f_mul :: "'f \<Rightarrow> 'f \<Rightarrow> 'f"
  f_less :: "'f \<Rightarrow> 'f \<Rightarrow> bool"
  f_half :: 'f
  f_trunc :: "'f \<Rightarrow> int"

definition abs_val :: "'f fpu \<Rightarrow> 'f \<Rightarrow> 'f" where
  "abs_val F v = (if f_less F v (f_of F 0) then f_neg F v else v)"

fun pow10 :: "'f fpu \<Rightarrow> nat \<Rightarrow> 'f \<Rightarrow> 'f" where
  "pow10 F 0 result = result"
| "pow10 F (Suc e) result = pow10 F e (f_mul F result (f_of F 10))"

definition xround :: "'f fpu \<Rightarrow> 'f \<Rightarrow> int" where
  "xround F v =
     (let intpart = f_trunc F v; v = f_sub F v (f_of F intpart)
      in if \<not> f_less F v (f_half F) then intpart + 1 else intpart)"

text \<open>The digits of a number that is not negative.\<close>

fun fconvert_loop :: "nat \<Rightarrow> int \<Rightarrow> string" where
  "fconvert_loop 0 v = []"
| "fconvert_loop (Suc n) v = digits False ! nat (v mod 10) # (if v div 10 \<noteq> 0 then fconvert_loop n (v div 10) else [])"

definition fmtfp_parts :: "'f fpu \<Rightarrow> 'f \<Rightarrow> int \<Rightarrow> int \<times> int" where
  "fmtfp_parts F ufvalue mx =
     (let p = pow10 F (nat mx) (f_of F 1);
          intpart = f_trunc F ufvalue;
          fracpart = xround F (f_mul F p (f_sub F ufvalue (f_of F intpart)))
      in if \<not> f_less F (f_of F fracpart) p then (intpart + 1, f_trunc F (f_sub F (f_of F fracpart) p))
         else (intpart, fracpart))"

text \<open>Padding on the left; the padding and the sign that are still to be printed are returned.\<close>

definition fmtfp_pad :: "u32 \<Rightarrow> int \<Rightarrow> string \<Rightarrow> outs \<Rightarrow> int \<times> string \<times> outs" where
  "fmtfp_pad flags padlen signvalue s =
     (if has flags DP_F_ZERO \<and> padlen > 0 then
        (let padlen = (if signvalue \<noteq> [] then padlen - 1 else padlen);
             s = put_all signvalue s
         in (0, [], pad_loop CHR ''0'' padlen s))
      else if padlen > 0 then (0, signvalue, pad_loop CHR '' '' padlen s)
      else (padlen, signvalue, s))"

definition fmtfp_put :: "int \<Rightarrow> string \<Rightarrow> string \<Rightarrow> string \<Rightarrow> int \<Rightarrow> int \<Rightarrow> outs \<Rightarrow> outs" where
  "fmtfp_put mx signvalue iconvert fconvert zpadlen padlen s =
     (let s = put_all signvalue s;
          s = put_all (rev iconvert) s;
          s = (if mx > 0 then put_all (rev fconvert) (dopr_outch CHR ''.'' s) else s);
          s = pad_loop CHR ''0'' zpadlen s
      in pad_loop CHR '' '' (- padlen) s)"

definition fmtfp :: "'f fpu \<Rightarrow> 'f \<Rightarrow> int \<Rightarrow> int \<Rightarrow> u32 \<Rightarrow> outs \<Rightarrow> outs" where
  "fmtfp F fvalue mn mx_arg flags s =
     (let mx = (if mx_arg < 0 then 6 else mx_arg);
          ufvalue = abs_val F fvalue;
          signvalue = sign_of (f_less F fvalue (f_of F 0)) flags;
          mx = (if mx > 9 then 9 else mx);
          (intpart, fracpart) = fmtfp_parts F ufvalue mx;
          iconvert = converted (fconvert_loop 20 intpart);
          fconvert = converted (fconvert_loop 20 fracpart);
          padlen = mn - int (length iconvert) - mx - 1 - (if signvalue \<noteq> [] then 1 else 0);
          zpadlen = mx - int (length fconvert);
          zpadlen = (if zpadlen < 0 then 0 else zpadlen);
          padlen = (if padlen < 0 then 0 else padlen);
          padlen = (if has flags DP_F_MINUS then - padlen else padlen)
      in case fmtfp_pad flags padlen signvalue s of
           (padlen, signvalue, s) \<Rightarrow> fmtfp_put mx signvalue iconvert fconvert zpadlen padlen s)"

section \<open>dopr\<close>

datatype dstate = DP_S_DEFAULT | DP_S_FLAGS | DP_S_MIN | DP_S_DOT | DP_S_MAX | DP_S_MOD | DP_S_CONV | DP_S_DONE

datatype cmod = DP_C_NONE | DP_C_SHORT | DP_C_LONG | DP_C_LDOUBLE

text \<open>
  What \<open>va_arg\<close> finds: an integer or pointer, a string (null or not), a floating-point number. An argument
  of another kind, or none, is an error.
\<close>

datatype 'f arg = AInt u32 | AStr "string option" | AFp 'f

text \<open>\<open>stores\<close> are the writes of \<open>%n\<close>: the pointer, the width and the value.\<close>

record 'f dopr = outs +
  pos :: nat
  ch :: char
  dstate :: dstate
  dflags :: u32
  cflags :: cmod
  dmin :: int
  dmax :: int
  args :: "'f arg list"
  stores :: "(u32 \<times> cmod \<times> int) list"

definition next_ch :: "string \<Rightarrow> 'f dopr \<Rightarrow> 'f dopr res" where
  "next_ch fmt s =
     (if pos s \<le> length fmt then Inr (s\<lparr>ch := char_at fmt (pos s), pos := pos s + 1\<rparr>)
      else Inl (Panic ''read past the end of the format''))"

definition bad_arg :: kerror where
  "bad_arg = Panic ''va_arg''"

definition arg_int :: "'f dopr \<Rightarrow> (u32 \<times> 'f dopr) res" where
  "arg_int s = (case args s of AInt v # as \<Rightarrow> Inr (v, s\<lparr>args := as\<rparr>) | _ \<Rightarrow> Inl bad_arg)"

definition arg_str :: "'f dopr \<Rightarrow> (string option \<times> 'f dopr) res" where
  "arg_str s = (case args s of AStr v # as \<Rightarrow> Inr (v, s\<lparr>args := as\<rparr>) | _ \<Rightarrow> Inl bad_arg)"

definition arg_fp :: "'f dopr \<Rightarrow> ('f \<times> 'f dopr) res" where
  "arg_fp s = (case args s of AFp v # as \<Rightarrow> Inr (v, s\<lparr>args := as\<rparr>) | _ \<Rightarrow> Inl bad_arg)"

definition lift_out :: "(outs \<Rightarrow> outs) \<Rightarrow> 'f dopr \<Rightarrow> 'f dopr" where
  "lift_out f s = (case f (outs.truncate s) of v \<Rightarrow> s\<lparr>out := out v, currlen := currlen v\<rparr>)"

definition step_default :: "string \<Rightarrow> 'f dopr \<Rightarrow> 'f dopr res" where
  "step_default fmt s =
     next_ch fmt (if ch s = CHR ''%'' then s\<lparr>dstate := DP_S_FLAGS\<rparr> else lift_out (dopr_outch (ch s)) s)"

definition add_flag :: "string \<Rightarrow> u32 \<Rightarrow> 'f dopr \<Rightarrow> 'f dopr res" where
  "add_flag fmt f s = next_ch fmt (s\<lparr>dflags := dflags s OR f\<rparr>)"

definition step_flags :: "string \<Rightarrow> 'f dopr \<Rightarrow> 'f dopr res" where
  "step_flags fmt s =
     (if ch s = CHR ''-'' then add_flag fmt DP_F_MINUS s
      else if ch s = CHR ''+'' then add_flag fmt DP_F_PLUS s
      else if ch s = CHR '' '' then add_flag fmt DP_F_SPACE s
      else if ch s = CHR ''#'' then add_flag fmt DP_F_NUM s
      else if ch s = CHR ''0'' then add_flag fmt DP_F_ZERO s
      else Inr (s\<lparr>dstate := DP_S_MIN\<rparr>))"

definition char_to_int :: "char \<Rightarrow> int" where
  "char_to_int p = of_char p - 48"

definition step_min :: "string \<Rightarrow> 'f dopr \<Rightarrow> 'f dopr res" where
  "step_min fmt s =
     (if isdigit (ch s) then next_ch fmt (s\<lparr>dmin := 10 * dmin s + char_to_int (ch s)\<rparr>)
      else if ch s = CHR ''*'' then
        bindE (arg_int s) (\<lambda>(v, s). next_ch fmt (s\<lparr>dmin := sint v, dstate := DP_S_DOT\<rparr>))
      else Inr (s\<lparr>dstate := DP_S_DOT\<rparr>))"

definition step_dot :: "string \<Rightarrow> 'f dopr \<Rightarrow> 'f dopr res" where
  "step_dot fmt s =
     (if ch s = CHR ''.'' then next_ch fmt (s\<lparr>dstate := DP_S_MAX\<rparr>) else Inr (s\<lparr>dstate := DP_S_MOD\<rparr>))"

definition step_max :: "string \<Rightarrow> 'f dopr \<Rightarrow> 'f dopr res" where
  "step_max fmt s =
     (if isdigit (ch s) then
        next_ch fmt (s\<lparr>dmax := 10 * (if dmax s < 0 then 0 else dmax s) + char_to_int (ch s)\<rparr>)
      else if ch s = CHR ''*'' then
        bindE (arg_int s) (\<lambda>(v, s). next_ch fmt (s\<lparr>dmax := sint v, dstate := DP_S_MOD\<rparr>))
      else Inr (s\<lparr>dstate := DP_S_MOD\<rparr>))"

definition step_mod :: "string \<Rightarrow> 'f dopr \<Rightarrow> 'f dopr res" where
  "step_mod fmt s =
     bindE (if ch s = CHR ''h'' then next_ch fmt (s\<lparr>cflags := DP_C_SHORT\<rparr>)
            else if ch s = CHR ''l'' then next_ch fmt (s\<lparr>cflags := DP_C_LONG\<rparr>)
            else if ch s = CHR ''L'' then next_ch fmt (s\<lparr>cflags := DP_C_LDOUBLE\<rparr>)
            else Inr s)
       (\<lambda>s. Inr (s\<lparr>dstate := DP_S_CONV\<rparr>))"

text \<open>The integer conversions: all of them read 32 bits whatever the modifier.\<close>

definition conv_int :: "u32 \<Rightarrow> u32 \<Rightarrow> 'f dopr \<Rightarrow> 'f dopr res" where
  "conv_int base f s =
     (let s = s\<lparr>dflags := dflags s OR f\<rparr>
      in bindE (arg_int s) (\<lambda>(v, s). Inr (lift_out (fmtint v base (dmin s) (dmax s) (dflags s)) s)))"

definition conv_str :: "int \<Rightarrow> 'f dopr \<Rightarrow> 'f dopr res" where
  "conv_str maxlen s =
     bindE (arg_str s) (\<lambda>(v, s).
     Inr (lift_out (fmtstr v (dflags s) (dmin s) (if dmax s < 0 then maxlen else dmax s)) s))"

definition conv :: "'f fpu \<Rightarrow> int \<Rightarrow> string \<Rightarrow> 'f dopr \<Rightarrow> 'f dopr res" where
  "conv F maxlen fmt s =
     (let c = ch s in
      if c = CHR ''d'' \<or> c = CHR ''i'' then conv_int 10 0 s
      else if c = CHR ''o'' then conv_int 8 DP_F_UNSIGNED s
      else if c = CHR ''u'' then conv_int 10 DP_F_UNSIGNED s
      else if c = CHR ''X'' then conv_int 16 (DP_F_UP OR DP_F_UNSIGNED) s
      else if c = CHR ''x'' then conv_int 16 DP_F_UNSIGNED s
      else if c = CHR ''f'' then
        bindE (arg_fp s) (\<lambda>(v, s). Inr (lift_out (fmtfp F v (dmin s) (dmax s) (dflags s)) s))
      else if c = CHR ''E'' \<or> c = CHR ''e'' \<or> c = CHR ''G'' \<or> c = CHR ''g'' then
        bindE (arg_fp s) (\<lambda>(v, s). Inr s)
      else if c = CHR ''c'' then bindE (arg_int s) (\<lambda>(v, s). Inr (lift_out (dopr_outch (char_of (unat v))) s))
      else if c = CHR ''s'' then conv_str maxlen s
      else if c = CHR ''p'' then conv_int 16 0 s
      else if c = CHR ''n'' then
        bindE (arg_int s) (\<lambda>(v, s). Inr (s\<lparr>stores := stores s @ [(v, cflags s, currlen s)]\<rparr>))
      else if c = CHR ''%'' then Inr (lift_out (dopr_outch (ch s)) s)
      else if c = CHR ''w'' then next_ch fmt s
      else Inr s)"

definition step_conv :: "'f fpu \<Rightarrow> int \<Rightarrow> string \<Rightarrow> 'f dopr \<Rightarrow> 'f dopr res" where
  "step_conv F maxlen fmt s =
     bindE (conv F maxlen fmt s) (\<lambda>s.
     bindE (next_ch fmt s) (\<lambda>s.
     Inr (s\<lparr>dstate := DP_S_DEFAULT, dflags := 0, cflags := DP_C_NONE, dmin := 0, dmax := - 1\<rparr>)))"

text \<open>One round of the loop.\<close>

definition dopr_step :: "'f fpu \<Rightarrow> int \<Rightarrow> string \<Rightarrow> 'f dopr \<Rightarrow> 'f dopr res" where
  "dopr_step F maxlen fmt s =
     (let s = (if ch s = nul \<or> currlen s \<ge> maxlen then s\<lparr>dstate := DP_S_DONE\<rparr> else s)
      in case dstate s of
           DP_S_DEFAULT \<Rightarrow> step_default fmt s
         | DP_S_FLAGS \<Rightarrow> step_flags fmt s
         | DP_S_MIN \<Rightarrow> step_min fmt s
         | DP_S_DOT \<Rightarrow> step_dot fmt s
         | DP_S_MAX \<Rightarrow> step_max fmt s
         | DP_S_MOD \<Rightarrow> step_mod fmt s
         | DP_S_CONV \<Rightarrow> step_conv F maxlen fmt s
         | DP_S_DONE \<Rightarrow> Inr s)"

text \<open>
  The loop ends: a round reads a character or goes on to a later state, and nothing is read beyond the NUL.
\<close>

fun rank :: "dstate \<Rightarrow> nat" where
  "rank DP_S_DEFAULT = 7"
| "rank DP_S_FLAGS = 6"
| "rank DP_S_MIN = 5"
| "rank DP_S_DOT = 4"
| "rank DP_S_MAX = 3"
| "rank DP_S_MOD = 2"
| "rank DP_S_CONV = 1"
| "rank DP_S_DONE = 0"

definition weight :: "string \<Rightarrow> 'f dopr \<Rightarrow> nat" where
  "weight fmt s = 8 * (Suc (length fmt) - pos s) + rank (dstate s)"

lemma next_ch_less:
  "next_ch fmt s = Inr s' \<Longrightarrow> pos s' = Suc (pos s) \<and> pos s \<le> length fmt \<and> dstate s' = dstate s"
  by (auto simp: next_ch_def split: if_splits)

lemma rank_less: "rank d < 8"
  by (cases d) simp_all

lemma weight_less:
  assumes "pos s < pos s'" "pos s \<le> length fmt"
  shows "weight fmt s' < weight fmt s"
proof -
  have "Suc (length fmt) - pos s' < Suc (length fmt) - pos s" using assms by simp
  then show ?thesis using rank_less [of "dstate s'"] unfolding weight_def by linarith
qed

lemma lift_out_same [simp]:
  "pos (lift_out f s) = pos s" "dstate (lift_out f s) = dstate s" "args (lift_out f s) = args s" "ch (lift_out f s) = ch s"
  by (simp_all add: lift_out_def Let_def)

lemma arg_int_same: "arg_int s = Inr (v, s') \<Longrightarrow> pos s' = pos s \<and> dstate s' = dstate s"
  by (auto simp: arg_int_def split: list.splits arg.splits)

lemma arg_str_same: "arg_str s = Inr (v, s') \<Longrightarrow> pos s' = pos s \<and> dstate s' = dstate s"
  by (auto simp: arg_str_def split: list.splits arg.splits)

lemma arg_fp_same: "arg_fp s = Inr (v, s') \<Longrightarrow> pos s' = pos s \<and> dstate s' = dstate s"
  by (auto simp: arg_fp_def split: list.splits arg.splits)

lemma conv_pos: "conv F maxlen fmt s = Inr s' \<Longrightarrow> pos s \<le> pos s'"
  by (auto simp: conv_def Let_def conv_int_def conv_str_def dest!: arg_int_same arg_str_same arg_fp_same next_ch_less
    split: if_splits)

lemma step_less:
  assumes s: "dopr_step F maxlen fmt s = Inr s'" and d: "dstate s \<noteq> DP_S_DONE"
  shows "weight fmt s' < weight fmt s"
proof (cases "ch s = nul \<or> currlen s \<ge> maxlen")
  case True
  then have "s' = s\<lparr>dstate := DP_S_DONE\<rparr>" using s by (simp add: dopr_step_def)
  then show ?thesis using d by (cases "dstate s") (simp_all add: weight_def)
next
  case False
  note st = s [unfolded dopr_step_def if_not_P [OF False] Let_def]
  have "pos s < pos s' \<and> pos s \<le> length fmt \<or> pos s' = pos s \<and> rank (dstate s') < rank (dstate s)"
  proof (cases "dstate s")
    case DP_S_DEFAULT
    then show ?thesis using st by (auto simp: step_default_def dest!: next_ch_less split: if_splits)
  next
    case DP_S_FLAGS
    then show ?thesis using st by (auto simp: step_flags_def add_flag_def dest!: next_ch_less split: if_splits)
  next
    case DP_S_MIN
    then show ?thesis using st by (auto simp: step_min_def dest!: next_ch_less arg_int_same split: if_splits)
  next
    case DP_S_DOT
    then show ?thesis using st by (auto simp: step_dot_def dest!: next_ch_less split: if_splits)
  next
    case DP_S_MAX
    then show ?thesis using st by (auto simp: step_max_def dest!: next_ch_less arg_int_same split: if_splits)
  next
    case DP_S_MOD
    then show ?thesis using st by (auto simp: step_mod_def dest!: next_ch_less split: if_splits)
  next
    case DP_S_CONV
    then show ?thesis using st by (auto simp: step_conv_def dest!: next_ch_less conv_pos)
  next
    case DP_S_DONE
    then show ?thesis using d by simp
  qed
  then show ?thesis
  proof
    assume "pos s < pos s' \<and> pos s \<le> length fmt"
    then show ?thesis using weight_less [of s s' fmt] by blast
  next
    assume "pos s' = pos s \<and> rank (dstate s') < rank (dstate s)"
    then show ?thesis by (simp add: weight_def)
  qed
qed

function dopr_loop :: "'f fpu \<Rightarrow> int \<Rightarrow> string \<Rightarrow> 'f dopr \<Rightarrow> 'f dopr res" where
  "dopr_loop F maxlen fmt s =
     (if dstate s = DP_S_DONE then Inr s
      else case dopr_step F maxlen fmt s of Inl e \<Rightarrow> Inl e | Inr s' \<Rightarrow> dopr_loop F maxlen fmt s')"
  by pat_completeness auto
termination by (relation "measure (\<lambda>(F, maxlen, fmt, s). weight fmt s)") (auto simp: step_less)

declare dopr_loop.simps [simp del] pad_loop.simps [simp del] fmtstr_left.simps [simp del] fmtstr_right.simps [simp del]
  strlen_from.simps [simp del] streq_from.simps [simp del]

definition dopr :: "'f fpu \<Rightarrow> outs \<Rightarrow> int \<Rightarrow> string \<Rightarrow> 'f arg list \<Rightarrow> 'f dopr res" where
  "dopr F buffer maxlen fmt as =
     bindE (next_ch fmt \<lparr>out = out buffer, currlen = 0, pos = 0, ch = nul, dstate = DP_S_DEFAULT, dflags = 0, cflags = DP_C_NONE,
       dmin = 0, dmax = - 1, args = as, stores = []\<rparr>) (dopr_loop F maxlen fmt)"

definition vsnprintf :: "'f fpu \<Rightarrow> outs \<Rightarrow> int \<Rightarrow> string \<Rightarrow> 'f arg list \<Rightarrow> 'f dopr res" where
  "vsnprintf F buffer maxlen fmt as = dopr F buffer maxlen fmt as"

definition snprintf :: "'f fpu \<Rightarrow> outs \<Rightarrow> int \<Rightarrow> string \<Rightarrow> 'f arg list \<Rightarrow> 'f dopr res" where
  "snprintf F buffer maxlen fmt as = vsnprintf F buffer maxlen fmt as"

end
