(* ===== verification/Snprintf_Thms.thy ===== *)
theory Snprintf_Thms
  imports Snprintf
begin

text \<open>
  What the routines of \<open>Snprintf\<close> put into the stream, as texts.
\<close>

section \<open>Texts\<close>

definition emits :: "string \<Rightarrow> outs \<Rightarrow> outs" where
  "emits txt s = s\<lparr>currlen := currlen s + int (length txt), out := out s @ txt\<rparr>"

lemma emits_nil [simp]: "emits [] s = s"
  by (simp add: emits_def)

lemma emits_emits [simp]: "emits b (emits a s) = emits (a @ b) s"
  by (simp add: emits_def)

lemma dopr_outch_emits: "dopr_outch c s = emits [c] s"
  by (simp add: dopr_outch_def emits_def)

lemma pad_loop_emits: "pad_loop c n s = emits (replicate (nat n) c) s"
proof (induction c n s rule: pad_loop.induct)
  case (1 c n s)
  show ?case
  proof (cases "n > 0")
    case True
    then have "nat n = Suc (nat (n - 1))" by simp
    then show ?thesis using 1 [OF True] True by (subst pad_loop.simps) (simp add: dopr_outch_emits)
  next
    case False
    then show ?thesis by (subst pad_loop.simps) simp
  qed
qed

lemma put_all_emits: "put_all cs s = emits cs s"
proof (induction cs arbitrary: s)
  case (Cons c cs)
  have "put_all (c # cs) s = put_all cs (dopr_outch c s)" by (simp add: put_all_def)
  then show ?case using Cons [of "dopr_outch c s"] by (simp add: dopr_outch_emits)
qed (simp add: put_all_def)

section \<open>fmtstr\<close>

lemma fmtstr_left_emits:
  "0 \<le> cnt \<Longrightarrow> fmtstr_left p cnt mx s =
    (let k = min (nat p) (nat (mx - cnt)) in (p - int k, cnt + int k, emits (replicate k CHR '' '') s))"
proof (induction p cnt mx s rule: fmtstr_left.induct)
  case (1 p cnt mx s)
  show ?case
  proof (cases "p > 0 \<and> cnt < mx")
    case True
    have "nat p = Suc (nat (p - 1))" "nat (mx - cnt) = Suc (nat (mx - (cnt + 1)))" using True by linarith+
    then have k: "min (nat p) (nat (mx - cnt)) = Suc (min (nat (p - 1)) (nat (mx - (cnt + 1))))" by simp
    show ?thesis
      using 1(1) [OF True] 1(2) True
      by (subst fmtstr_left.simps) (simp add: Let_def k dopr_outch_emits)
  next
    case False
    then have "min (nat p) (nat (mx - cnt)) = 0" by auto
    then show ?thesis using False by (subst fmtstr_left.simps) (simp only: if_False Let_def, simp)
  qed
qed

lemma fmtstr_text_emits:
  "fmtstr_text cs cnt mx s =
    (let k = min (length cs) (nat (mx - cnt)) in (cnt + int k, emits (take k cs) s))"
proof (induction cs arbitrary: cnt s)
  case (Cons c cs)
  show ?case
  proof (cases "cnt < mx")
    case True
    then have "nat (mx - cnt) = Suc (nat (mx - (cnt + 1)))" by simp
    then have k: "min (length (c # cs)) (nat (mx - cnt)) = Suc (min (length cs) (nat (mx - (cnt + 1))))" by simp
    show ?thesis using True Cons [of "cnt + 1" "dopr_outch c s"] k by (simp add: Let_def dopr_outch_emits)
  qed simp
qed simp

lemma fmtstr_right_emits:
  "fmtstr_right p cnt mx s = emits (replicate (min (nat (- p)) (nat (mx - cnt))) CHR '' '') s"
proof (induction p cnt mx s rule: fmtstr_right.induct)
  case (1 p cnt mx s)
  show ?case
  proof (cases "p < 0 \<and> cnt < mx")
    case True
    have "nat (- p) = Suc (nat (- (p + 1)))" "nat (mx - cnt) = Suc (nat (mx - (cnt + 1)))"
      using True by (simp_all add: nat_eq_iff)
    then have k: "min (nat (- p)) (nat (mx - cnt)) = Suc (min (nat (- (p + 1))) (nat (mx - (cnt + 1))))" by simp
    show ?thesis unfolding k
      using 1 [OF True] True by (subst fmtstr_right.simps) (simp add: dopr_outch_emits)
  next
    case False
    then have "min (nat (- p)) (nat (mx - cnt)) = 0" by auto
    then show ?thesis using False by (subst fmtstr_right.simps) (simp only: if_False, simp)
  qed
qed

definition str_text :: "string \<Rightarrow> bool \<Rightarrow> int \<Rightarrow> int \<Rightarrow> string" where
  "str_text str left mn mx =
     (let pad = replicate (nat (mn - int (length str))) CHR '' ''
      in take (nat mx) (if left then str @ pad else pad @ str))"

lemma fmtstr_emits:
  "fmtstr v flags mn mx s =
    emits (str_text (case v of None \<Rightarrow> ''<NULL>'' | Some str \<Rightarrow> str) (has flags DP_F_MINUS) mn mx) s"
proof -
  obtain str where str: "(case v of None \<Rightarrow> ''<NULL>'' | Some str \<Rightarrow> str) = str" by blast
  let ?p = "if mn - int (length str) < 0 then 0 else mn - int (length str)"
  have np: "nat ?p = nat (mn - int (length str))" by simp
  show ?thesis
  proof (cases "has flags DP_F_MINUS")
    case True
    have "fmtstr v flags mn mx s =
        emits (take (nat mx) str @ replicate (min (nat ?p) (nat (mx - int (min (length str) (nat mx))))) CHR '' '') s"
      using True unfolding fmtstr_def str Let_def
      by (simp add: fmtstr_left_emits fmtstr_text_emits fmtstr_right_emits Let_def min.commute [of "length str"] take_all_iff)
         (simp add: min_def take_all_iff)
    moreover have "take (nat mx) str @ replicate (min (nat ?p) (nat (mx - int (min (length str) (nat mx))))) CHR '' '' =
        str_text str True mn mx"
    proof -
      have "nat (mx - int (min (length str) (nat mx))) = nat mx - length str" by linarith
      then show ?thesis unfolding str_text_def np Let_def by (simp add: min.commute)
    qed
    ultimately show ?thesis using True by (simp add: str)
  next
    case False
    let ?k = "min (nat ?p) (nat mx)"
    have e: "nat (mx - int ?k) = nat mx - nat (mn - int (length str))" unfolding np by (cases "nat (mn - int (length str)) \<le> nat mx") auto
    have "fmtstr v flags mn mx s = emits (replicate ?k CHR '' '' @ take (nat (mx - int ?k)) str) s"
    proof -
      have "\<not> ?p - int ?k < 0" by (auto simp: min_def)
      then show ?thesis
        using False unfolding fmtstr_def str Let_def
        by (simp add: fmtstr_left_emits fmtstr_text_emits fmtstr_right_emits Let_def min_def take_all_iff)
    qed
    then show ?thesis using False unfolding e by (simp add: str str_text_def Let_def min.commute np)
  qed
qed

section \<open>fmtint\<close>

definition int_pads :: "u32 \<Rightarrow> int \<Rightarrow> int \<Rightarrow> int \<Rightarrow> int \<Rightarrow> int \<times> int" where
  "int_pads flags mn mx place sl =
     (let z = max 0 (mx - place); sp = max 0 (mn - max place mx - sl)
      in if has flags DP_F_ZERO then (max sp z, 0) else (z, sp))"

definition int_text :: "u32 \<Rightarrow> u32 \<Rightarrow> int \<Rightarrow> int \<Rightarrow> u32 \<Rightarrow> string" where
  "int_text val base mn mx flags =
     (let negative = (\<not> has flags DP_F_UNSIGNED \<and> sint val < 0);
          sign = (if has flags DP_F_UNSIGNED then [] else sign_of negative flags);
          ds = converted (convert_loop (has flags DP_F_UP) base 20 (if negative then - val else val));
          (z, sp) = int_pads flags mn (max 0 mx) (int (length ds)) (int (length sign))
      in replicate (if has flags DP_F_MINUS then 0 else nat sp) CHR '' '' @ sign @ replicate (nat z) CHR ''0'' @ rev ds @
         replicate (if has flags DP_F_MINUS then nat sp else 0) CHR '' '')"

lemma length_sign: "(if sign_of neg flags \<noteq> [] then 1 else 0) = int (length (sign_of neg flags))"
  by (simp add: sign_of_def)

lemma if_max: "(if x < 0 then 0 else x) = max 0 x" "(if b \<le> a then a else b) = max b a" for x :: int
  by (simp_all add: max_def)

lemma int_pads_pos: "int_pads flags mn mx place sl = (z, sp) \<Longrightarrow> 0 \<le> sp"
  by (auto simp: int_pads_def Let_def split: if_splits)

lemma fmtint_emits: "fmtint val base mn mx flags s = emits (int_text val base mn mx flags) s"
proof -
  define neg where "neg = (\<not> has flags DP_F_UNSIGNED \<and> sint val < 0)"
  define sign where "sign = (if has flags DP_F_UNSIGNED then [] else sign_of neg flags)"
  define ds where "ds = converted (convert_loop (has flags DP_F_UP) base 20 (if neg then - val else val))"
  obtain z sp where zs: "int_pads flags mn (max 0 mx) (int (length ds)) (int (length sign)) = (z, sp)" by fastforce
  have sp: "0 \<le> sp" by (rule int_pads_pos [OF zs])
  have sg: "(if sign \<noteq> [] then 1 else 0) = int (length sign)" by (simp add: sign_def sign_of_def)
  note zs' = zs [unfolded int_pads_def Let_def]
  have "fmtint val base mn mx flags s =
      (let spadlen = (if has flags DP_F_MINUS then - sp else sp)
       in pad_loop CHR '' '' (- spadlen) (put_all (rev ds) (pad_loop CHR ''0'' z (put_all sign (pad_loop CHR '' '' spadlen s)))))"
    unfolding fmtint_def Let_def if_max neg_def [symmetric] sign_def [symmetric] ds_def [symmetric] sg zs' prod.case ..
  then show ?thesis
    using sp unfolding int_text_def Let_def neg_def [symmetric] sign_def [symmetric] ds_def [symmetric] zs prod.case
    by (simp add: pad_loop_emits put_all_emits)
qed

section \<open>Reading numbers\<close>

definition digit_val :: "char \<Rightarrow> nat option" where
  "digit_val c =
     (let n = of_char c in
      if 48 \<le> n \<and> n \<le> 57 then Some (n - 48)
      else if 65 \<le> n \<and> n \<le> 70 then Some (n - 55)
      else if 97 \<le> n \<and> n \<le> 102 then Some (n - 87) else None)"

fun read_from :: "nat \<Rightarrow> nat \<Rightarrow> string \<Rightarrow> nat" where
  "read_from b v [] = v"
| "read_from b v (c # cs) = (case digit_val c of None \<Rightarrow> v | Some d \<Rightarrow> read_from b (v * b + d) cs)"

definition read_int :: "nat \<Rightarrow> string \<Rightarrow> int" where
  "read_int b cs =
     (case dropWhile (\<lambda>c. c = CHR '' '') cs of
        [] \<Rightarrow> 0
      | c # r \<Rightarrow> if c = CHR ''-'' then - int (read_from b 0 r)
                else if c = CHR ''+'' then int (read_from b 0 r)
                else int (read_from b 0 (c # r)))"

lemma digit_val_digits: "k < 16 \<Longrightarrow> digit_val (digits caps ! k) = Some k"
proof -
  have "\<forall>k\<in>set [0..<16]. digit_val (digits True ! k) = Some k \<and> digit_val (digits False ! k) = Some k" by code_simp
  moreover assume "k < 16"
  ultimately show ?thesis by (cases caps) auto
qed

lemma digit_not_special: "digit_val c = Some d \<Longrightarrow> c \<noteq> CHR '' '' \<and> c \<noteq> CHR ''-'' \<and> c \<noteq> CHR ''+''"
  by (auto simp: digit_val_def)

lemma digit_val_zero: "digit_val CHR ''0'' = Some 0"
  by (simp add: digit_val_def)

lemma digit_val_space: "digit_val CHR '' '' = None"
  by (simp add: digit_val_def)

lemma read_zeros: "read_from b 0 (replicate k CHR ''0'' @ cs) = read_from b 0 cs"
  by (induction k) (simp_all add: digit_val_zero)

lemma read_spaces: "read_from b v (replicate k CHR '' '') = v"
  by (cases k) (simp_all add: digit_val_space)

lemma unat_of_nat_base: "b \<le> 16 \<Longrightarrow> unat (of_nat b :: u32) = b"
  by (simp add: unsigned_of_nat take_bit_nat_eq_self_iff)

lemma read_convert:
  assumes "1 < b" "b \<le> 16"
  shows "unat u < b ^ n \<Longrightarrow>
    read_from b v (rev (convert_loop caps (of_nat b) n u) @ rest) =
    read_from b (v * b ^ length (convert_loop caps (of_nat b) n u) + unat u) rest"
proof (induction n arbitrary: u rest)
  case 0
  then show ?case by (simp add: unat_eq_zero)
next
  case (Suc n)
  note ub = unat_of_nat_base [OF assms(2)]
  have d: "unat (u div of_nat b) = unat u div b" and m: "unat (u mod of_nat b) = unat u mod b"
    by (simp_all add: unat_div unat_mod ub)
  have "unat u mod b < 16" using assms by (meson less_le_trans mod_less_divisor less_trans zero_less_one)
  then have dv: "digit_val (digits caps ! unat (u mod of_nat b)) = Some (unat u mod b)"
    unfolding m by (rule digit_val_digits)
  show ?case
  proof (cases "u div of_nat b = 0")
    case True
    then have "unat u div b = 0" using d by simp
    then have "unat u mod b = unat u" using assms by (simp add: div_eq_0_iff)
    then show ?thesis using True dv by simp
  next
    case False
    have "unat (u div of_nat b) < b ^ n" using Suc.prems assms unfolding d by (simp add: less_mult_imp_div_less mult.commute)
    then show ?thesis using False dv Suc.IH [of "u div of_nat b" "digits caps ! unat (u mod of_nat b) # rest"]
      by (simp add: d algebra_simps)
  qed
qed

lemma convert_length: "1 < b \<Longrightarrow> b \<le> 16 \<Longrightarrow> unat u < b ^ n \<Longrightarrow> 0 < n \<Longrightarrow>
    length (convert_loop caps (of_nat b) k u) \<le> n"
proof (induction k arbitrary: u n)
  case (Suc k)
  show ?case
  proof (cases "u div of_nat b = 0")
    case False
    have d: "unat (u div of_nat b) = unat u div b" by (simp add: unat_div unat_of_nat_base [OF Suc.prems(2)])
    obtain m where m: "n = Suc m" using Suc.prems(4) by (cases n) auto
    have "m \<noteq> 0"
    proof
      assume "m = 0"
      then have "unat u div b = 0" using Suc.prems(3) m by simp
      then show False using False d by (simp add: unat_eq_zero)
    qed
    moreover have "unat (u div of_nat b) < b ^ m" using Suc.prems(3) unfolding d m
      by (simp add: less_mult_imp_div_less mult.commute)
    ultimately show ?thesis using Suc.IH [of "u div of_nat b" m] Suc.prems(1,2) False m by simp
  qed (use Suc.prems(4) in simp)
qed simp

lemma u32_less_pow: "8 \<le> b \<Longrightarrow> unat (u :: u32) < b ^ 11"
proof -
  assume "8 \<le> b"
  then have "(8 :: nat) ^ 11 \<le> b ^ 11" by (rule power_mono) simp
  moreover have "unat u < 2 ^ 32" using unsigned_less [of u] by simp
  ultimately show ?thesis by simp
qed

lemma converted_convert:
  assumes "8 \<le> b" "b \<le> 16"
  shows "converted (convert_loop caps (of_nat b) 20 u) = convert_loop caps (of_nat b) 20 u"
  using convert_length [of b u 11 caps 20] u32_less_pow [OF assms(1), of u] assms by (simp add: converted_def)

lemma convert_not_nil: "convert_loop caps base 20 u \<noteq> []"
  by (simp add: numeral_eq_Suc)

lemma convert_hd: "\<exists>d ds k. rev (convert_loop caps (of_nat b) 20 u) = d # ds \<and> digit_val d = Some k" if "1 < b" "b \<le> 16"
proof -
  have "\<exists>k. digit_val c = Some k" if "c \<in> set (convert_loop caps (of_nat b) n u)" for c n u
    using that
  proof (induction n arbitrary: u)
    case (Suc n)
    have "unat (u mod of_nat b) < 16"
      using \<open>1 < b\<close> \<open>b \<le> 16\<close> unat_of_nat_base [of b] by (simp add: unat_mod less_le_trans [OF mod_less_divisor])
    from digit_val_digits [OF this, of caps] Suc show ?case by (auto split: if_splits)
  qed simp
  then show ?thesis using convert_not_nil [of caps "of_nat b" u]
    by (metis list.exhaust rev_is_Nil_conv list.set_intros(1) set_rev)
qed

lemma sint_pos_uint: "0 \<le> sint (v :: u32) \<Longrightarrow> uint v = sint v"
proof -
  assume a: "0 \<le> sint v"
  have "sint v < 2 ^ 31" using sint_less [of v] by simp
  then have "take_bit 32 (sint v) = sint v" using a by (simp add: take_bit_int_eq_self_iff)
  then show ?thesis using uint_sint [of v] by simp
qed

lemma sint_neg_uint: "sint (v :: u32) < 0 \<Longrightarrow> - uint (- v) = sint v"
proof -
  assume a: "sint v < 0"
  have g: "- (2 ^ 31) \<le> sint v" using sint_greater_eq [of v] by simp
  have "- v = word_of_int (- sint v)" by simp
  then have "uint (- v) = uint (word_of_int (- sint v) :: u32)" by (rule arg_cong)
  also have "\<dots> = take_bit 32 (- sint v)" by (simp only: unsigned_of_int) simp
  also have "\<dots> = - sint v" using a g by (simp add: take_bit_int_eq_self_iff)
  finally show ?thesis by simp
qed

text \<open>A text that \<open>fmtint\<close> prints reads as the number it was given.\<close>

lemma read_int_spaces: "read_int b (replicate k CHR '' '' @ cs) = read_int b cs"
  by (induction k) (simp_all add: read_int_def)

lemma read_int_text:
  assumes b: "8 \<le> b" "b \<le> 16"
  shows "read_int b (int_text val (of_nat b) mn mx flags) = (if has flags DP_F_UNSIGNED then uint val else sint val)"
proof -
  define neg where "neg \<longleftrightarrow> \<not> has flags DP_F_UNSIGNED \<and> sint val < 0"
  define u where "u = (if neg then - val else val)"
  define sign where "sign = (if has flags DP_F_UNSIGNED then [] else sign_of neg flags)"
  define ds where "ds = convert_loop (has flags DP_F_UP) (of_nat b) 20 u"
  obtain z sp where zs: "int_pads flags mn (max 0 mx) (int (length ds)) (int (length sign)) = (z, sp)" by fastforce
  define k c where "k = (if has flags DP_F_MINUS then 0 else nat sp)" and "c = (if has flags DP_F_MINUS then nat sp else 0)"
  have t: "int_text val (of_nat b) mn mx flags = replicate k CHR '' '' @ sign @ replicate (nat z) CHR ''0'' @ rev ds @ replicate c CHR '' ''"
    unfolding int_text_def Let_def neg_def [symmetric] u_def [symmetric] sign_def [symmetric] converted_convert [OF b] ds_def [symmetric]
      zs prod.case k_def c_def ..
  let ?r = "replicate (nat z) CHR ''0'' @ rev ds @ replicate c CHR '' ''"
  have lt: "unat u < b ^ 20"
  proof -
    have "b ^ 11 \<le> b ^ 20" by (rule power_increasing) (use b in simp_all)
    then show ?thesis using u32_less_pow [OF b(1), of u] by (rule less_le_trans [rotated])
  qed
  have val: "read_from b 0 ?r = unat u"
    using read_convert [OF _ b(2) lt, of 0 "has flags DP_F_UP" "replicate c CHR '' ''"] b
    unfolding ds_def by (simp add: read_zeros read_spaces)
  obtain d xs j where r: "?r = d # xs" "digit_val d = Some j"
  proof (cases "nat z")
    case 0
    then show ?thesis using convert_hd [of b "has flags DP_F_UP" u] b that unfolding ds_def by auto
  qed (auto simp: digit_val_zero intro: that)
  have plain: "read_int b ?r = int (unat u)"
    using val digit_not_special [OF r(2)] unfolding r(1) by (simp add: read_int_def)
  have "read_int b (sign @ ?r) = (if neg then - int (unat u) else int (unat u))"
    using plain val unfolding sign_def sign_of_def neg_def by (auto simp: read_int_def)
  moreover have "(if neg then - int (unat u) else int (unat u)) = (if has flags DP_F_UNSIGNED then uint val else sint val)"
    by (auto simp: u_def neg_def sint_neg_uint sint_pos_uint)
  ultimately show ?thesis unfolding t by (simp add: read_int_spaces)
qed

end
