(* ===== verification/Snprintf_Props.thy ===== *)
theory Snprintf_Props
  imports Snprintf_Thms Complex_Main
begin

text \<open>
  The state machine of \<open>dopr\<close> and the claims about formatted output.
\<close>

section \<open>The loop\<close>

lemma lift_out_emits: "lift_out (emits txt) s = s\<lparr>currlen := currlen s + int (length txt), out := out s @ txt\<rparr>"
  by (simp add: lift_out_def emits_def outs.truncate_def)

lemma dopr_outch_eq: "dopr_outch c = emits [c]"
  by (rule ext) (rule dopr_outch_emits)

lemma fmtint_eq: "fmtint v base mn mx flags = emits (int_text v base mn mx flags)"
  by (rule ext) (rule fmtint_emits)

lemma fmtstr_eq: "fmtstr v flags mn mx =
    emits (str_text (case v of None \<Rightarrow> ''<NULL>'' | Some str \<Rightarrow> str) (has flags DP_F_MINUS) mn mx)"
  by (rule ext) (rule fmtstr_emits)

lemma dopr_loop_step:
  "dstate s \<noteq> DP_S_DONE \<Longrightarrow> dopr_loop F maxlen fmt s = bindE (dopr_step F maxlen fmt s) (dopr_loop F maxlen fmt)"
  by (subst dopr_loop.simps) (simp add: bindE_def)

lemma dopr_loop_done: "dstate s = DP_S_DONE \<Longrightarrow> dopr_loop F maxlen fmt s = Inr s"
  by (subst dopr_loop.simps) simp

lemma dopr_loop_stop:
  assumes "ch s = nul \<or> currlen s \<ge> maxlen"
  shows "\<exists>d. dopr_loop F maxlen fmt s = Inr (s\<lparr>dstate := d\<rparr>)"
proof (cases "dstate s = DP_S_DONE")
  case True
  then show ?thesis by (intro exI [of _ "dstate s"]) (simp add: dopr_loop_done)
next
  case False
  then show ?thesis using assms
    by (intro exI [of _ DP_S_DONE]) (simp add: dopr_loop_step dopr_step_def dopr_loop_done)
qed

text \<open>Between two conversions, with the character number \<open>k\<close> read.\<close>

definition plain_at :: "string \<Rightarrow> nat \<Rightarrow> 'f dopr \<Rightarrow> bool" where
  "plain_at fmt k s \<longleftrightarrow> k \<le> length fmt \<and> pos s = Suc k \<and> ch s = char_at fmt k \<and> dstate s = DP_S_DEFAULT \<and>
     dflags s = 0 \<and> cflags s = DP_C_NONE \<and> dmin s = 0 \<and> dmax s = - 1"

lemma char_at_append: "char_at (p @ q) (length p + i) = char_at q i"
  by (simp add: char_at_def nth_append)

lemma char_at_Cons: "char_at (c # cs) 0 = c" "char_at (c # cs) (Suc i) = char_at cs i"
  by (simp_all add: char_at_def)

lemma char_at_Nil [simp]: "char_at [] i = nul"
  by (simp add: char_at_def)

definition plain_text :: "string \<Rightarrow> bool" where
  "plain_text p \<longleftrightarrow> CHR ''%'' \<notin> set p \<and> nul \<notin> set p"

lemma plain_copied:
  "plain_at (pre @ p @ rest) (length pre) s \<Longrightarrow> plain_text p \<Longrightarrow> currlen s + int (length p) \<le> maxlen \<Longrightarrow>
    \<exists>s'. dopr_loop F maxlen (pre @ p @ rest) s = dopr_loop F maxlen (pre @ p @ rest) s' \<and>
      plain_at (pre @ p @ rest) (length pre + length p) s' \<and> out s' = out s @ p \<and>
      currlen s' = currlen s + int (length p) \<and> args s' = args s \<and> stores s' = stores s"
proof (induction p arbitrary: pre s)
  case Nil
  then show ?case by (intro exI [of _ s]) simp
next
  case (Cons c p)
  let ?fmt = "pre @ (c # p) @ rest"
  have c: "ch s = c" "c \<noteq> CHR ''%''" "c \<noteq> nul" "pos s = Suc (length pre)" "dstate s = DP_S_DEFAULT"
    using Cons.prems(1,2) char_at_append [of pre "c # p @ rest" 0]
    by (auto simp: plain_at_def plain_text_def char_at_Cons)
  let ?s = "s\<lparr>currlen := currlen s + 1, out := out s @ [c], ch := char_at ?fmt (Suc (length pre)), pos := Suc (Suc (length pre))\<rparr>"
  have "dopr_step F maxlen ?fmt s = Inr ?s"
    using c Cons.prems(3)
    by (simp add: dopr_step_def step_default_def dopr_outch_eq lift_out_emits next_ch_def)
  then have e: "dopr_loop F maxlen ?fmt s = dopr_loop F maxlen ?fmt ?s" using c by (simp add: dopr_loop_step)
  have "plain_at ((pre @ [c]) @ p @ rest) (length (pre @ [c])) ?s"
    using Cons.prems(1) by (simp add: plain_at_def)
  from Cons.IH [OF this] Cons.prems(2,3) obtain s' where
    "dopr_loop F maxlen ?fmt ?s = dopr_loop F maxlen ?fmt s'" "plain_at ?fmt (length pre + length (c # p)) s'"
    "out s' = out s @ c # p" "currlen s' = currlen s + int (length (c # p))" "args s' = args s" "stores s' = stores s"
    by (auto simp: plain_text_def)
  then show ?case using e by (intro exI [of _ s']) simp
qed

text \<open>A conversion without flags, width or precision.\<close>

definition simple_conv :: "char \<Rightarrow> bool" where
  "simple_conv c \<longleftrightarrow> c \<in> set ''diouxXcspnfeEgGw%''"

lemma conv_reached:
  assumes at: "plain_at (pre @ CHR ''%'' # c # rest) (length pre) s" and c: "simple_conv c" and l: "currlen s < maxlen"
  shows "dopr_loop F maxlen (pre @ CHR ''%'' # c # rest) s =
    bindE (step_conv F maxlen (pre @ CHR ''%'' # c # rest) (s\<lparr>ch := c, pos := Suc (Suc (length pre)), dstate := DP_S_CONV\<rparr>))
      (dopr_loop F maxlen (pre @ CHR ''%'' # c # rest))"
proof -
  let ?fmt = "pre @ CHR ''%'' # c # rest"
  have c0: "ch s = CHR ''%''" using at char_at_append [of pre "CHR ''%'' # c # rest" 0] by (simp add: plain_at_def char_at_Cons)
  have c1: "char_at ?fmt (Suc (length pre)) = c" using char_at_append [of pre "CHR ''%'' # c # rest" 1] by (simp add: char_at_Cons)
  have cn: "c \<noteq> nul" "c \<notin> set ''-+ #0*.hlL''" "\<not> isdigit c"
    using c by (auto simp: simple_conv_def nul_def isdigit_def)
  let ?s = "\<lambda>d. s\<lparr>ch := c, pos := Suc (Suc (length pre)), dstate := d\<rparr>"
  note p = at [unfolded plain_at_def]
  have s1: "dopr_step F maxlen ?fmt s = Inr (?s DP_S_FLAGS)"
    using p c0 c1 l by (simp add: dopr_step_def step_default_def next_ch_def nul_def)
  have s2: "dopr_step F maxlen ?fmt (?s DP_S_FLAGS) = Inr (?s DP_S_MIN)"
    using cn l by (simp add: dopr_step_def step_flags_def)
  have s3: "dopr_step F maxlen ?fmt (?s DP_S_MIN) = Inr (?s DP_S_DOT)"
    using cn l by (simp add: dopr_step_def step_min_def)
  have s4: "dopr_step F maxlen ?fmt (?s DP_S_DOT) = Inr (?s DP_S_MOD)"
    using cn l by (simp add: dopr_step_def step_dot_def)
  have s5: "dopr_step F maxlen ?fmt (?s DP_S_MOD) = Inr (?s DP_S_CONV)"
    using cn l by (simp add: dopr_step_def step_mod_def)
  have s6: "dopr_step F maxlen ?fmt (?s DP_S_CONV) = step_conv F maxlen ?fmt (?s DP_S_CONV)"
    using cn l by (simp add: dopr_step_def)
  show ?thesis using p by (simp add: dopr_loop_step s1 s2 s3 s4 s5 s6)
qed

lemma dopr_start:
  "dopr F buffer maxlen fmt as = dopr_loop F maxlen fmt
    \<lparr>out = out buffer, currlen = 0, pos = 1, ch = char_at fmt 0, dstate = DP_S_DEFAULT, dflags = 0, cflags = DP_C_NONE,
       dmin = 0, dmax = - 1, args = as, stores = []\<rparr>"
  by (simp add: dopr_def next_ch_def)

text \<open>Text, then one conversion that appends \<open>txt\<close>, at the end of the format.\<close>

lemma text_conv:
  assumes p: "plain_text p" "int (length p) < maxlen" and c: "simple_conv c"
    and cv: "\<And>s. ch s = c \<Longrightarrow> args s = as \<Longrightarrow> dflags s = 0 \<Longrightarrow> dmin s = 0 \<Longrightarrow> dmax s = - 1 \<Longrightarrow> cflags s = DP_C_NONE \<Longrightarrow>
      conv F maxlen (p @ [CHR ''%'', c]) s = Inr (s\<lparr>currlen := currlen s + int (length txt), out := out s @ txt, args := [], dflags := f\<rparr>)"
  shows "\<exists>s. dopr F buffer maxlen (p @ [CHR ''%'', c]) as = Inr s \<and> out s = out buffer @ p @ txt \<and>
    currlen s = int (length p + length txt)"
proof -
  let ?fmt = "p @ [CHR ''%'', c]"
  let ?i = "\<lparr>out = out buffer, currlen = 0, pos = 1, ch = char_at ?fmt 0, dstate = DP_S_DEFAULT, dflags = 0,
    cflags = DP_C_NONE, dmin = 0, dmax = - 1, args = as, stores = []\<rparr>"
  have "plain_at ([] @ p @ [CHR ''%'', c]) (length ([] :: string)) ?i" by (simp add: plain_at_def)
  from plain_copied [OF this p(1), of maxlen F] p(2) obtain s where
    s: "dopr_loop F maxlen ?fmt ?i = dopr_loop F maxlen ?fmt s" "plain_at ?fmt (length p) s" "out s = out buffer @ p"
      "currlen s = int (length p)" "args s = as"
    by auto
  let ?c = "s\<lparr>ch := c, pos := Suc (Suc (length p)), dstate := DP_S_CONV\<rparr>"
  have d: "conv F maxlen ?fmt ?c = Inr (?c\<lparr>currlen := int (length p) + int (length txt), out := out s @ txt, args := [], dflags := f\<rparr>)"
    using cv [of ?c] s(2,4,5) by (simp add: plain_at_def)
  have e: "char_at ?fmt (Suc (Suc (length p))) = nul" by (simp add: char_at_def)
  have "dopr F buffer maxlen ?fmt as = bindE (step_conv F maxlen ?fmt ?c) (dopr_loop F maxlen ?fmt)"
    unfolding dopr_start s(1) using conv_reached [OF s(2) c] s(4) p(2) by simp
  also have "step_conv F maxlen ?fmt ?c = Inr (?c\<lparr>currlen := int (length p) + int (length txt), out := out s @ txt, args := [], dflags := 0,
      ch := nul, pos := Suc (Suc (Suc (length p))), dstate := DP_S_DEFAULT, cflags := DP_C_NONE, dmin := 0, dmax := - 1\<rparr>)" (is "_ = Inr ?r")
    using e by (simp add: step_conv_def d next_ch_def)
  finally have "dopr F buffer maxlen ?fmt as = dopr_loop F maxlen ?fmt ?r" by simp
  moreover have "ch ?r = nul \<or> currlen ?r \<ge> maxlen" by simp
  from dopr_loop_stop [OF this, of F ?fmt] obtain d where "dopr_loop F maxlen ?fmt ?r = Inr (?r\<lparr>dstate := d\<rparr>)" by blast
  ultimately show ?thesis using s(3) by simp
qed

section \<open>Counting and bounds\<close>

definition emitted :: "int \<Rightarrow> 'f dopr \<Rightarrow> bool" where
  "emitted n s \<longleftrightarrow> currlen s = int (length (out s)) - n"

lemma emitted_cong: "emitted n s \<Longrightarrow> out s' = out s \<Longrightarrow> currlen s' = currlen s \<Longrightarrow> emitted n s'"
  by (simp add: emitted_def)

lemma emitted_lift: "emitted n s \<Longrightarrow> emitted n (lift_out (emits t) s)"
  by (simp add: emitted_def lift_out_emits)

lemma next_ch_emitted: "next_ch fmt s = Inr s' \<Longrightarrow> emitted n s \<Longrightarrow> emitted n s'"
  by (auto simp: next_ch_def emitted_def split: if_splits)

lemma arg_emitted:
  "arg_int s = Inr (v, s') \<Longrightarrow> emitted n s \<Longrightarrow> emitted n s'"
  "arg_str s = Inr (w, s') \<Longrightarrow> emitted n s \<Longrightarrow> emitted n s'"
  "arg_fp s = Inr (x, s') \<Longrightarrow> emitted n s \<Longrightarrow> emitted n s'"
  by (auto simp: arg_int_def arg_str_def arg_fp_def emitted_def split: list.splits arg.splits)

lemma emitted_upd [simp]:
  "emitted n (s\<lparr>dstate := d\<rparr>) = emitted n s" "emitted n (s\<lparr>dflags := f\<rparr>) = emitted n s"
  "emitted n (s\<lparr>cflags := c\<rparr>) = emitted n s" "emitted n (s\<lparr>dmin := i\<rparr>) = emitted n s"
  "emitted n (s\<lparr>dmax := i\<rparr>) = emitted n s" "emitted n (s\<lparr>stores := l\<rparr>) = emitted n s"
  by (simp_all add: emitted_def)

text \<open>The text of \<open>fmtfp\<close> with its sign.\<close>

definition put_text :: "int \<Rightarrow> string \<Rightarrow> string \<Rightarrow> string \<Rightarrow> int \<Rightarrow> int \<Rightarrow> string" where
  "put_text mx sign ic fc z p = sign @ rev ic @ (if mx > 0 then CHR ''.'' # rev fc else []) @ replicate (nat z) CHR ''0'' @
     replicate (nat (- p)) CHR '' ''"

lemma fmtfp_put_emits: "fmtfp_put mx sign ic fc z p s = emits (put_text mx sign ic fc z p) s"
  by (simp add: fmtfp_put_def put_text_def Let_def pad_loop_emits put_all_emits dopr_outch_emits)

lemma fmtfp_pad_emits: "\<exists>p' sign' t. \<forall>s. fmtfp_pad flags p sign s = (p', sign', emits t s)"
proof (cases "has flags DP_F_ZERO \<and> p > 0")
  case True
  then show ?thesis
    by (intro exI [of _ 0] exI [of _ "[]"] exI [of _ "sign @ replicate (nat (if sign \<noteq> [] then p - 1 else p)) CHR ''0''"])
      (simp add: fmtfp_pad_def Let_def pad_loop_emits put_all_emits)
next
  case False
  show ?thesis
  proof (cases "p > 0")
    case True
    then show ?thesis using False
      by (intro exI [of _ 0] exI [of _ sign] exI [of _ "replicate (nat p) CHR '' ''"]) (simp add: fmtfp_pad_def pad_loop_emits)
  next
    case False
    then show ?thesis
      by (intro exI [of _ p] exI [of _ sign] exI [of _ "[]"]) (simp add: fmtfp_pad_def)
  qed
qed

lemma fmtfp_pad_put:
  "\<exists>t. \<forall>s. (case fmtfp_pad flags p sign s of (p, sg, s) \<Rightarrow> fmtfp_put mx sg ic fc z p s) = emits t s"
proof -
  obtain p' sign' t where "\<forall>s. fmtfp_pad flags p sign s = (p', sign', emits t s)" using fmtfp_pad_emits by blast
  then show ?thesis by (intro exI [of _ "t @ put_text mx sign' ic fc z p'"]) (simp add: fmtfp_put_emits)
qed

lemma fmtfp_emits: "\<exists>t. fmtfp F v mn mx flags = emits t"
proof -
  obtain i f where p: "fmtfp_parts F (abs_val F v) (if 9 < (if mx < 0 then 6 else mx) then 9 else if mx < 0 then 6 else mx) = (i, f)"
    by fastforce
  have "\<exists>t. \<forall>s. fmtfp F v mn mx flags s = emits t s"
    unfolding fmtfp_def Let_def p prod.case
    by (rule fmtfp_pad_put)
  then show ?thesis by (auto simp: fun_eq_iff)
qed

lemma conv_int_emitted: "conv_int b f s = Inr s' \<Longrightarrow> emitted n s \<Longrightarrow> emitted n s'"
  by (auto simp: conv_int_def Let_def fmtint_eq intro!: emitted_lift dest!: arg_emitted(1) [where n = n])

lemma conv_emitted:
  assumes "conv F maxlen fmt s = Inr s'" "emitted n s"
  shows "emitted n s'"
proof -
  have fp: "emitted n (lift_out (fmtfp F v mn mx f) t)" if "emitted n t" for v mn mx f t
    using fmtfp_emits [of F v mn mx f] emitted_lift [OF that] by auto
  note a = arg_emitted [OF _ assms(2)]
  have "conv_str maxlen s = Inr s' \<Longrightarrow> emitted n s'"
    by (auto simp: conv_str_def fmtstr_eq intro!: emitted_lift dest: a)
  moreover have "bindE (arg_fp s) (\<lambda>(v, s). Inr (lift_out (fmtfp F v (dmin s) (dmax s) (dflags s)) s)) = Inr s' \<Longrightarrow> emitted n s'"
    by (auto intro!: fp dest: a)
  moreover have "bindE (arg_fp s) (\<lambda>(v, s). Inr s) = Inr s' \<Longrightarrow> emitted n s'" by (auto dest: a)
  moreover have "bindE (arg_int s) (\<lambda>(v, s). Inr (lift_out (dopr_outch (char_of (unat v))) s)) = Inr s' \<Longrightarrow> emitted n s'"
    by (auto simp: dopr_outch_eq intro!: emitted_lift dest: a)
  moreover have "bindE (arg_int s) (\<lambda>(v, s). Inr (s\<lparr>stores := stores s @ [(v, cflags s, currlen s)]\<rparr>)) = Inr s' \<Longrightarrow> emitted n s'"
    by (auto dest: a)
  moreover have "Inr (lift_out (dopr_outch (ch s)) s) = (Inr s' :: _ res) \<Longrightarrow> emitted n s'"
    using assms(2) by (auto simp: dopr_outch_eq intro!: emitted_lift)
  ultimately show ?thesis
    using assms conv_int_emitted [of _ _ s s' n] next_ch_emitted [of fmt s s' n] unfolding conv_def Let_def
    by (simp split: if_splits)
qed

lemma step_emitted:
  assumes s: "dopr_step F maxlen fmt s = Inr s'" and e: "emitted n s"
  shows "emitted n s'"
proof (cases "ch s = nul \<or> currlen s \<ge> maxlen")
  case True
  then have "s' = s\<lparr>dstate := DP_S_DONE\<rparr>" using s by (simp add: dopr_step_def)
  then show ?thesis using e by simp
next
  case False
  note st = s [unfolded dopr_step_def if_not_P [OF False] Let_def]
  have nx: "next_ch fmt t = Inr s' \<Longrightarrow> emitted n t \<Longrightarrow> emitted n s'" for t by (rule next_ch_emitted)
  show ?thesis
  proof (cases "dstate s")
    case DP_S_DEFAULT
    have "emitted n (lift_out (dopr_outch (ch s)) s)" using e by (simp add: dopr_outch_eq emitted_lift)
    then show ?thesis using st DP_S_DEFAULT nx e by (auto simp: step_default_def split: if_splits)
  next
    case DP_S_FLAGS
    then show ?thesis using st nx e by (auto simp: step_flags_def add_flag_def split: if_splits)
  next
    case DP_S_MIN
    then show ?thesis using st e by (auto simp: step_min_def dest!: arg_emitted(1) [where n = n] next_ch_emitted [where n = n] split: if_splits)
  next
    case DP_S_DOT
    then show ?thesis using st nx e by (auto simp: step_dot_def split: if_splits)
  next
    case DP_S_MAX
    then show ?thesis using st e by (auto simp: step_max_def dest!: arg_emitted(1) [where n = n] next_ch_emitted [where n = n] split: if_splits)
  next
    case DP_S_MOD
    then show ?thesis using st e by (auto simp: step_mod_def dest!: next_ch_emitted [where n = n] split: if_splits)
  next
    case DP_S_CONV
    then show ?thesis using st e by (auto simp: step_conv_def dest!: conv_emitted [where n = n] next_ch_emitted [where n = n])
  next
    case DP_S_DONE
    then show ?thesis using st e by simp
  qed
qed

lemma loop_emitted: "dopr_loop F maxlen fmt s = Inr s' \<Longrightarrow> emitted n s \<Longrightarrow> emitted n s'"
proof (induction F maxlen fmt s rule: dopr_loop.induct)
  case (1 F maxlen fmt s)
  show ?case
  proof (cases "dstate s = DP_S_DONE")
    case True
    then show ?thesis using 1(2,3) dopr_loop_done by fastforce
  next
    case False
    then obtain t where t: "dopr_step F maxlen fmt s = Inr t" "dopr_loop F maxlen fmt t = Inr s'"
      using 1(2) by (auto simp: dopr_loop_step)
    then show ?thesis using 1(1) [OF False t(1)] step_emitted [OF t(1) 1(3)] by blast
  qed
qed

section \<open>Reading the format\<close>

definition readable :: "string \<Rightarrow> 'f dopr \<Rightarrow> bool" where
  "readable fmt s \<longleftrightarrow> ch s \<in> insert nul (set fmt) \<and> (ch s \<noteq> nul \<longrightarrow> pos s \<le> length fmt)"

lemma next_readable: "pos s \<le> length fmt \<Longrightarrow> outcome E (readable fmt) (next_ch fmt s)"
  by (auto simp: next_ch_def readable_def char_at_def)

lemma arg_outcome:
  "outcome {bad_arg} (\<lambda>(v, t). pos t = pos s \<and> ch t = ch s) (arg_int s)"
  "outcome {bad_arg} (\<lambda>(v, t). pos t = pos s \<and> ch t = ch s) (arg_str s)"
  "outcome {bad_arg} (\<lambda>(v, t). pos t = pos s \<and> ch t = ch s) (arg_fp s)"
  by (auto simp: arg_int_def arg_str_def arg_fp_def split: list.splits arg.splits)

lemma readable_upd [simp]:
  "readable fmt (s\<lparr>dstate := d\<rparr>) = readable fmt s" "readable fmt (s\<lparr>dflags := f\<rparr>) = readable fmt s"
  "readable fmt (s\<lparr>cflags := c\<rparr>) = readable fmt s" "readable fmt (s\<lparr>dmin := i\<rparr>) = readable fmt s"
  "readable fmt (s\<lparr>dmax := i\<rparr>) = readable fmt s"
  by (simp_all add: readable_def)

lemma conv_outcome:
  assumes "ch s \<noteq> CHR ''w''"
  shows "outcome {bad_arg} (\<lambda>t. pos t = pos s) (conv F maxlen fmt s)"
proof -
  have "outcome {bad_arg} (\<lambda>t. pos t = pos s) (conv_int b f s)" for b f
    unfolding conv_int_def Let_def by (rule outcome_bind [OF arg_outcome(1)]) auto
  moreover have "outcome {bad_arg} (\<lambda>t. pos t = pos s) (conv_str maxlen s)"
    unfolding conv_str_def by (rule outcome_bind [OF arg_outcome(2)]) auto
  moreover have "outcome {bad_arg} (\<lambda>t. pos t = pos s)
      (bindE (arg_fp s) (\<lambda>(v, s). Inr (lift_out (fmtfp F v (dmin s) (dmax s) (dflags s)) s)))"
    "outcome {bad_arg} (\<lambda>t. pos t = pos s) (bindE (arg_fp s) (\<lambda>(v, s). Inr s))"
    by (rule outcome_bind [OF arg_outcome(3)], auto)+
  moreover have "outcome {bad_arg} (\<lambda>t. pos t = pos s)
      (bindE (arg_int s) (\<lambda>(v, s). Inr (lift_out (dopr_outch (char_of (unat v))) s)))"
    "outcome {bad_arg} (\<lambda>t. pos t = pos s)
      (bindE (arg_int s) (\<lambda>(v, s). Inr (s\<lparr>stores := stores s @ [(v, cflags s, currlen s)]\<rparr>)))"
    by (rule outcome_bind [OF arg_outcome(1)], auto)+
  ultimately show ?thesis using assms unfolding conv_def Let_def by simp
qed

lemma mod_readable:
  assumes "pos t \<le> length fmt"
  shows "outcome {bad_arg} (readable fmt) (bindE (next_ch fmt t) (\<lambda>s. Inr (s\<lparr>dstate := DP_S_CONV\<rparr>)))"
  by (rule outcome_bind [OF next_readable [OF assms]]) simp

lemma step_readable:
  fixes F :: "'f fpu" and s :: "'f dopr"
  assumes r: "readable fmt s" and w: "CHR ''w'' \<notin> set fmt"
  shows "outcome {bad_arg} (readable fmt) (dopr_step F maxlen fmt s)"
proof (cases "ch s = nul \<or> currlen s \<ge> maxlen")
  case True
  then have "dopr_step F maxlen fmt s = Inr (s\<lparr>dstate := DP_S_DONE\<rparr>)" by (simp add: dopr_step_def)
  then show ?thesis using r by simp
next
  case False
  then have p: "pos s \<le> length fmt" and c: "ch s \<noteq> CHR ''w''" using r w by (auto simp: readable_def nul_def)
  note st = dopr_step_def [of F maxlen fmt s, unfolded if_not_P [OF False] Let_def]
  note nx = next_readable
  have ai: "outcome {bad_arg} (readable fmt) (bindE (arg_int s) (\<lambda>(v, s). next_ch fmt (f v s)))"
    if "\<And>v t. pos (f v t) = pos t" for f
    by (rule outcome_bind [OF arg_outcome(1)]) (auto simp: that p intro!: nx)
  show ?thesis
  proof (cases "dstate s")
    case DP_S_DEFAULT
    then show ?thesis using p by (simp add: st step_default_def nx)
  next
    case DP_S_FLAGS
    then show ?thesis using p r by (simp add: st step_flags_def add_flag_def nx)
  next
    case DP_S_MIN
    then show ?thesis using p r ai [of "\<lambda>v s. s\<lparr>dmin := sint v, dstate := DP_S_DOT\<rparr>"]
      by (simp add: st step_min_def nx)
  next
    case DP_S_DOT
    then show ?thesis using p r by (simp add: st step_dot_def nx)
  next
    case DP_S_MAX
    then show ?thesis using p r ai [of "\<lambda>v s. s\<lparr>dmax := sint v, dstate := DP_S_MOD\<rparr>"]
      by (simp add: st step_max_def nx)
  next
    case DP_S_MOD
    then show ?thesis using p r by (simp add: st step_mod_def mod_readable)
  next
    case DP_S_CONV
    have "outcome {bad_arg} (readable fmt) (step_conv F maxlen fmt s)"
      unfolding step_conv_def
    proof (rule outcome_bind [OF conv_outcome [OF c]])
      fix t :: "'f dopr" assume "pos t = pos s"
      then have "pos t \<le> length fmt" using p by simp
      then show "outcome {bad_arg} (readable fmt) (bindE (next_ch fmt t) (\<lambda>s. Inr (s\<lparr>dstate := DP_S_DEFAULT, dflags := 0,
          cflags := DP_C_NONE, dmin := 0, dmax := - 1\<rparr>)))"
        by (rule outcome_bind [OF nx]) simp
    qed
    then show ?thesis using DP_S_CONV by (simp add: st)
  next
    case DP_S_DONE
    then show ?thesis using r by (simp add: st)
  qed
qed

lemma loop_readable:
  "readable fmt s \<Longrightarrow> CHR ''w'' \<notin> set fmt \<Longrightarrow> outcome {bad_arg} (\<lambda>_. True) (dopr_loop F maxlen fmt s)"
proof (induction F maxlen fmt s rule: dopr_loop.induct)
  case (1 F maxlen fmt s)
  show ?case
  proof (cases "dstate s = DP_S_DONE")
    case True
    then show ?thesis by (simp add: dopr_loop_done)
  next
    case False
    show ?thesis unfolding dopr_loop_step [OF False]
      by (rule outcome_bind [OF step_readable [OF 1(2,3)]]) (rule 1(1) [OF False _ _ 1(3)])
  qed
qed

section \<open>The claims\<close>

text \<open>Exact arithmetic, as an instance of \<open>fpu\<close>.\<close>

definition exact_fpu :: "rat fpu" where
  "exact_fpu = \<lparr>f_of = of_int, f_neg = uminus, f_sub = (-), f_mul = (*), f_less = (<), f_half = 1 / 2,
     f_trunc = (\<lambda>v. if v < 0 then - floor (- v) else floor v)\<rparr>"

definition no_outs :: outs where
  "no_outs = \<lparr>out = [], currlen = 0\<rparr>"

definition base_of :: "char \<Rightarrow> nat" where
  "base_of c = (if c = CHR ''o'' then 8 else if c = CHR ''x'' \<or> c = CHR ''X'' then 16 else 10)"

definition number_of :: "char \<Rightarrow> u32 \<Rightarrow> int" where
  "number_of c v = (if c = CHR ''d'' \<or> c = CHR ''i'' then sint v else uint v)"

lemma conv_number:
  assumes c: "c \<in> set ''diouxX''" and s: "ch s = c" "args s = [AInt v]" "dflags s = 0" "dmin s = 0" "dmax s = - 1"
  shows "\<exists>f. conv F maxlen fmt s = Inr (s\<lparr>currlen := currlen s + int (length (int_text v (of_nat (base_of c)) 0 (- 1) f)),
      out := out s @ int_text v (of_nat (base_of c)) 0 (- 1) f, args := [], dflags := f\<rparr>) \<and>
    has f DP_F_UNSIGNED = (c \<noteq> CHR ''d'' \<and> c \<noteq> CHR ''i'')"
proof -
  have k: "\<exists>f. conv_int b g s = Inr (s\<lparr>currlen := currlen s + int (length (int_text v b 0 (- 1) f)),
      out := out s @ int_text v b 0 (- 1) f, args := [], dflags := f\<rparr>) \<and> f = g" for b g
    using s(2-5) by (intro exI [of _ g]) (simp add: conv_int_def arg_int_def fmtint_eq lift_out_emits)
  have h: "\<not> has 0 DP_F_UNSIGNED" "has DP_F_UNSIGNED DP_F_UNSIGNED" "has (DP_F_UP OR DP_F_UNSIGNED) DP_F_UNSIGNED"
    by (simp_all add: has_def DP_F_UNSIGNED_def DP_F_UP_def)
  from c consider "c = CHR ''d'' \<or> c = CHR ''i''" | "c = CHR ''o''" | "c = CHR ''u''" | "c = CHR ''x''" | "c = CHR ''X''" by auto
  then show ?thesis
  proof cases
    case 1
    then show ?thesis using k [of 10 0] h s(1) by (auto simp: conv_def base_of_def)
  next
    case 2
    then show ?thesis using k [of 8 DP_F_UNSIGNED] h s(1) by (auto simp: conv_def base_of_def)
  next
    case 3
    then show ?thesis using k [of 10 DP_F_UNSIGNED] h s(1) by (auto simp: conv_def base_of_def)
  next
    case 4
    then show ?thesis using k [of 16 DP_F_UNSIGNED] h s(1) by (auto simp: conv_def base_of_def)
  next
    case 5
    then show ?thesis using k [of 16 "DP_F_UP OR DP_F_UNSIGNED"] h s(1) by (auto simp: conv_def base_of_def)
  qed
qed

end
