(* ===== verification/Snprintf_Claims.thy ===== *)
theory Snprintf_Claims
  imports Snprintf_Props
begin

text \<open>The claims about formatted output and the string functions.\<close>

text \<open>
  C30. Numbers are printed so that they can be read: a text without conversions followed by \<open>%d\<close>, \<open>%i\<close>, \<open>%o\<close>, \<open>%u\<close>, \<open>%x\<close> or
  \<open>%X\<close> puts the text into the stream, then a numeral which read in the conversion's base is the argument, signed for
  \<open>%d\<close> and \<open>%i\<close> (the most negative number included) and unsigned for the others.
\<close>

theorem snprintf_number_reads_back:
  assumes "plain_text p" "int (length p) < maxlen" "c \<in> set ''diouxX''"
  shows "\<exists>s txt. snprintf F buffer maxlen (p @ [CHR ''%'', c]) [AInt v] = Inr s \<and> out s = out buffer @ p @ txt \<and>
    read_int (base_of c) txt = number_of c v"
proof -
  have sc: "simple_conv c" using assms(3) by (auto simp: simple_conv_def)
  have b: "8 \<le> base_of c" "base_of c \<le> 16" by (simp_all add: base_of_def)
  define un where "un \<longleftrightarrow> c \<noteq> CHR ''d'' \<and> c \<noteq> CHR ''i''"
  define f where "f = (if c = CHR ''d'' \<or> c = CHR ''i'' then 0 else if c = CHR ''X'' then DP_F_UP OR DP_F_UNSIGNED else DP_F_UNSIGNED)"
  have h: "\<not> has 0 DP_F_UNSIGNED" "has DP_F_UNSIGNED DP_F_UNSIGNED" "has (DP_F_UP OR DP_F_UNSIGNED) DP_F_UNSIGNED"
    by (simp_all add: has_def DP_F_UNSIGNED_def DP_F_UP_def)
  have cv: "conv F maxlen (p @ [CHR ''%'', c]) s = Inr (s\<lparr>currlen := currlen s + int (length (int_text v (of_nat (base_of c)) 0 (- 1) f)),
      out := out s @ int_text v (of_nat (base_of c)) 0 (- 1) f, args := [], dflags := f\<rparr>)"
    if "ch s = c" "args s = [AInt v]" "dflags s = 0" "dmin s = 0" "dmax s = - 1" "cflags s = DP_C_NONE" for s
    using that assms(3)
    by (auto simp: conv_def conv_int_def arg_int_def fmtint_eq lift_out_emits base_of_def f_def)
  obtain s where "dopr F buffer maxlen (p @ [CHR ''%'', c]) [AInt v] = Inr s"
    "out s = out buffer @ p @ int_text v (of_nat (base_of c)) 0 (- 1) f"
    using text_conv [OF assms(1,2) sc cv] by blast
  moreover have "read_int (base_of c) (int_text v (of_nat (base_of c)) 0 (- 1) f) = number_of c v"
    unfolding read_int_text [OF b] using h by (simp add: f_def number_of_def)
  ultimately show ?thesis by (auto simp: snprintf_def vsnprintf_def)
qed

theorem snprintf_number_reads_back_witness:
  "\<exists>s txt. snprintf exact_fpu no_outs 80 ''exit %d'' [AInt 0xFFFFFFFF] = Inr s \<and> out s = ''exit '' @ txt \<and> read_int 10 txt = - 1"
  using snprintf_number_reads_back [where p = "''exit ''" and maxlen = 80 and c = "CHR ''d''" and F = exact_fpu
    and buffer = no_outs and v = "0xFFFFFFFF"]
  by (simp add: plain_text_def nul_def base_of_def number_of_def no_outs_def)

lemma int_text_width:
  assumes n: "\<not> (has flags DP_F_ZERO \<and> 0 < mx)"
  shows "mn \<le> int (length (int_text v b mn mx flags))"
proof -
  define neg where "neg = (\<not> has flags DP_F_UNSIGNED \<and> sint v < 0)"
  define sign where "sign = (if has flags DP_F_UNSIGNED then [] else sign_of neg flags)"
  define ds where "ds = converted (convert_loop (has flags DP_F_UP) b 20 (if neg then - v else v))"
  obtain z sp where zs: "int_pads flags mn (max 0 mx) (int (length ds)) (int (length sign)) = (z, sp)" by fastforce
  have l: "length (int_text v b mn mx flags) = nat sp + length sign + nat z + length ds"
    unfolding int_text_def Let_def neg_def [symmetric] sign_def [symmetric] ds_def [symmetric] zs prod.case by simp
  have "mn \<le> sp + int (length sign) + z + int (length ds) \<and> 0 \<le> sp \<and> 0 \<le> z"
  proof (cases "has flags DP_F_ZERO")
    case True
    then have "max 0 mx = 0" using n by simp
    then show ?thesis using zs True unfolding int_pads_def Let_def by auto
  next
    case False
    then have "z = max 0 (max 0 mx - int (length ds))"
      "sp = max 0 (mn - max (int (length ds)) (max 0 mx) - int (length sign))"
      using zs unfolding int_pads_def Let_def by simp_all
    then show ?thesis by linarith
  qed
  then show ?thesis unfolding l by simp
qed

text \<open>
  Width, precision and flags do not change the number: whatever flags, minimum width and precision \<open>fmtint\<close> is given, the text
  it puts out reads as the argument, and it is at least as wide as asked unless both the zero flag
  and a precision are given.
\<close>

theorem fmtint_layout:
  assumes "b = 8 \<or> b = 10 \<or> b = 16"
  shows "\<exists>txt. fmtint v (of_nat b) mn mx flags s = s\<lparr>currlen := currlen s + int (length txt), out := out s @ txt\<rparr> \<and>
    read_int b txt = (if has flags DP_F_UNSIGNED then uint v else sint v) \<and>
    (has flags DP_F_ZERO \<and> 0 < mx \<or> mn \<le> int (length txt))"
proof -
  have b: "8 \<le> b" "b \<le> 16" using assms by auto
  let ?t = "int_text v (of_nat b) mn mx flags"
  have "mn \<le> int (length ?t)" if "\<not> (has flags DP_F_ZERO \<and> 0 < mx)" by (rule int_text_width [OF that])
  then show ?thesis using read_int_text [OF b, of v mn mx flags]
    by (intro exI [of _ ?t]) (auto simp: fmtint_emits emits_def)
qed

theorem fmtint_layout_witness: "\<exists>txt. fmtint 0x80000000 10 20 0 0 no_outs = no_outs\<lparr>currlen := int (length txt), out := txt\<rparr> \<and>
    read_int 10 txt = - 2147483648 \<and> 20 \<le> int (length txt)"
  using fmtint_layout [of 10 "0x80000000" 20 0 0 no_outs]
  by (auto simp: no_outs_def has_def)

text \<open>
  \<open>currlen\<close> counts what was put out: when \<open>snprintf\<close> returns, for any format and arguments, the stream has grown
  by exactly \<open>currlen\<close> characters.
\<close>

theorem snprintf_counts:
  assumes "snprintf F buffer maxlen fmt as = Inr s"
  shows "int (length (out s)) = int (length (out buffer)) + currlen s"
proof -
  let ?i = "\<lparr>out = out buffer, currlen = 0, pos = 1, ch = char_at fmt 0, dstate = DP_S_DEFAULT, dflags = 0,
    cflags = DP_C_NONE, dmin = 0, dmax = - 1, args = as, stores = []\<rparr>"
  have "dopr_loop F maxlen fmt ?i = Inr s" using assms by (simp add: snprintf_def vsnprintf_def dopr_start)
  moreover have "emitted (int (length (out buffer))) ?i" by (simp add: emitted_def)
  ultimately have "emitted (int (length (out buffer))) s" by (rule loop_emitted)
  then show ?thesis by (simp add: emitted_def)
qed

text \<open>
  Plain text is cut at \<open>maxlen\<close>: a format without conversions is copied up to \<open>maxlen\<close> characters, and nothing else.
\<close>

lemma dopr_plain:
  assumes "plain_text fmt" "0 \<le> maxlen"
  shows "\<exists>s. dopr F buffer maxlen fmt as = Inr s \<and> out s = out buffer @ take (nat maxlen) fmt"
proof -
  let ?k = "min (nat maxlen) (length fmt)"
  have sp: "fmt = take ?k fmt @ drop ?k fmt" by simp
  let ?i = "\<lparr>out = out buffer, currlen = 0, pos = 1, ch = char_at fmt 0, dstate = DP_S_DEFAULT, dflags = 0,
    cflags = DP_C_NONE, dmin = 0, dmax = - 1, args = as, stores = []\<rparr>"
  have p: "plain_at ([] @ take ?k fmt @ drop ?k fmt) (length ([] :: string)) ?i" by (simp add: plain_at_def)
  have pt: "plain_text (take ?k fmt)" using assms(1) in_set_takeD [of _ ?k fmt] by (auto simp: plain_text_def)
  have "currlen ?i + int (length (take ?k fmt)) \<le> maxlen" using assms(2) by simp
  from plain_copied [OF p pt this, of F] obtain s where
    s: "dopr_loop F maxlen fmt ?i = dopr_loop F maxlen fmt s" "plain_at fmt ?k s" "out s = out buffer @ take ?k fmt"
      "currlen s = int ?k"
    by (auto simp: min.commute min.left_commute)
  have "ch s = nul \<or> currlen s \<ge> maxlen"
  proof (cases "nat maxlen \<le> length fmt")
    case True
    then show ?thesis using s(4) assms(2) by simp
  next
    case False
    then show ?thesis using s(2) by (simp add: plain_at_def char_at_def)
  qed
  from dopr_loop_stop [OF this, of F fmt] s(1,3) show ?thesis
    by (auto simp: dopr_start min_def split: if_splits)
qed

theorem snprintf_plain:
  assumes "plain_text fmt" "0 \<le> maxlen"
  shows "\<exists>s. snprintf F buffer maxlen fmt as = Inr s \<and> out s = out buffer @ take (nat maxlen) fmt"
  using dopr_plain [OF assms] by (simp add: snprintf_def vsnprintf_def)

theorem snprintf_plain_witness: "\<exists>s. snprintf exact_fpu no_outs 4 ''panic'' [] = Inr s \<and> out s = ''pani''"
  using snprintf_plain [of "''panic''" 4 exact_fpu no_outs "[]"] by (simp add: plain_text_def nul_def no_outs_def numeral_eq_Suc)

theorem snprintf_counts_witness: "\<exists>s. snprintf exact_fpu no_outs 4 ''panic'' [] = Inr s \<and> int (length (out s)) = currlen s"
proof -
  obtain s where s: "snprintf exact_fpu no_outs 4 ''panic'' [] = Inr s"
    using dopr_plain [of "''panic''" 4 exact_fpu no_outs "[]"]
    by (auto simp: plain_text_def nul_def snprintf_def vsnprintf_def)
  from snprintf_counts [OF this] s show ?thesis by (simp add: no_outs_def)
qed

text \<open>
  The format is not read beyond its NUL: if it has no \<open>w\<close> the only error is an argument that is missing or of another kind.
\<close>

theorem snprintf_reads_inside:
  assumes "CHR ''w'' \<notin> set fmt"
  shows "snprintf F buffer maxlen fmt as = Inl e \<Longrightarrow> e = Panic ''va_arg''"
proof -
  let ?i = "\<lparr>out = out buffer, currlen = 0, pos = 1, ch = char_at fmt 0, dstate = DP_S_DEFAULT, dflags = 0,
    cflags = DP_C_NONE, dmin = 0, dmax = - 1, args = as, stores = []\<rparr>"
  have "readable fmt ?i" by (cases fmt) (auto simp: readable_def char_at_def)
  from loop_readable [OF this assms, of F maxlen]
  have "outcome {bad_arg} (\<lambda>_. True) (snprintf F buffer maxlen fmt as)" by (simp add: snprintf_def vsnprintf_def dopr_start)
  then show "snprintf F buffer maxlen fmt as = Inl e \<Longrightarrow> e = Panic ''va_arg''" by (simp add: bad_arg_def)
qed

lemma missing_argument: "dopr exact_fpu no_outs 80 ''%d'' [] = Inl (Panic ''va_arg'')"
proof -
  let ?i = "\<lparr>out = [], currlen = 0, pos = 1, ch = CHR ''%'', dstate = DP_S_DEFAULT, dflags = 0,
    cflags = DP_C_NONE, dmin = 0, dmax = - 1, args = [], stores = []\<rparr> :: rat dopr"
  have p: "plain_at ([] @ [CHR ''%'', CHR ''d'']) (length ([] :: string)) ?i" by (simp add: plain_at_def char_at_def)
  have "dopr_loop exact_fpu 80 ''%d'' ?i = Inl bad_arg"
    using conv_reached [OF p, of 80 exact_fpu]
    by (simp add: simple_conv_def step_conv_def conv_def conv_int_def arg_int_def)
  then show ?thesis by (simp add: dopr_start no_outs_def char_at_def bad_arg_def)
qed

theorem snprintf_reads_inside_witness: "snprintf exact_fpu no_outs 80 ''%d'' [] = Inl (Panic ''va_arg'') \<and> Panic ''va_arg'' = Panic ''va_arg''"
proof -
  have m: "snprintf exact_fpu no_outs 80 ''%d'' [] = Inl (Panic ''va_arg'')"
    using missing_argument by (simp add: snprintf_def vsnprintf_def)
  show ?thesis by (rule conjI [OF m snprintf_reads_inside [OF _ m]]) simp
qed

text \<open>
  A format that ends in \<open>%w\<close> is read beyond its NUL: the conversion skips a character without looking.
\<close>

theorem snprintf_w_overruns:
  assumes "plain_text p" "int (length p) < maxlen"
  shows "snprintf F buffer maxlen (p @ ''%w'') as = Inl (Panic ''read past the end of the format'')"
proof -
  let ?fmt = "p @ [CHR ''%'', CHR ''w'']"
  let ?i = "\<lparr>out = out buffer, currlen = 0, pos = 1, ch = char_at ?fmt 0, dstate = DP_S_DEFAULT, dflags = 0,
    cflags = DP_C_NONE, dmin = 0, dmax = - 1, args = as, stores = []\<rparr>"
  have "plain_at ([] @ p @ [CHR ''%'', CHR ''w'']) (length ([] :: string)) ?i" by (simp add: plain_at_def)
  from plain_copied [OF this assms(1), of maxlen F] assms(2) obtain s where
    s: "dopr_loop F maxlen ?fmt ?i = dopr_loop F maxlen ?fmt s" "plain_at ?fmt (length p) s" "currlen s = int (length p)"
    by auto
  let ?c = "s\<lparr>ch := CHR ''w'', pos := Suc (Suc (length p)), dstate := DP_S_CONV\<rparr>"
  have "step_conv F maxlen ?fmt ?c = Inl (Panic ''read past the end of the format'')"
    by (simp add: step_conv_def conv_def next_ch_def)
  moreover have "dopr_loop F maxlen ?fmt s = bindE (step_conv F maxlen ?fmt ?c) (dopr_loop F maxlen ?fmt)"
    using conv_reached [OF s(2)] s(3) assms(2) by (simp add: simple_conv_def)
  ultimately show ?thesis using s(1) by (simp add: snprintf_def vsnprintf_def dopr_start)
qed

theorem snprintf_w_overruns_witness:
  "snprintf exact_fpu no_outs 80 ''a%w'' [] = Inl (Panic ''read past the end of the format'')"
  using snprintf_w_overruns [of "''a''" 80 exact_fpu no_outs "[]"] by (simp add: plain_text_def nul_def)

text \<open>
  \<open>snprintf\<close> ends: \<open>8 (n + 2)\<close> rounds of the loop are enough for a format of \<open>n\<close> characters.
\<close>

fun dopr_rounds :: "'f fpu \<Rightarrow> int \<Rightarrow> string \<Rightarrow> nat \<Rightarrow> 'f dopr \<Rightarrow> 'f dopr res option" where
  "dopr_rounds F maxlen fmt 0 s = (if dstate s = DP_S_DONE then Some (Inr s) else None)"
| "dopr_rounds F maxlen fmt (Suc n) s =
     (if dstate s = DP_S_DONE then Some (Inr s)
      else case dopr_step F maxlen fmt s of Inl e \<Rightarrow> Some (Inl e) | Inr s' \<Rightarrow> dopr_rounds F maxlen fmt n s')"

lemma rank_zero: "rank d = 0 \<longleftrightarrow> d = DP_S_DONE"
  by (cases d) simp_all

lemma dopr_rounds_enough: "weight fmt s \<le> n \<Longrightarrow> dopr_rounds F maxlen fmt n s = Some (dopr_loop F maxlen fmt s)"
proof (induction n arbitrary: s)
  case 0
  then have "dstate s = DP_S_DONE" by (simp add: weight_def rank_zero)
  then show ?case by (simp add: dopr_loop_done)
next
  case (Suc n)
  show ?case
  proof (cases "dstate s = DP_S_DONE")
    case False
    show ?thesis
    proof (cases "dopr_step F maxlen fmt s")
      case (Inr t)
      then have "weight fmt t \<le> n" using step_less [OF Inr False] Suc.prems by simp
      then show ?thesis using Suc.IH [of t] False Inr by (simp add: dopr_loop_step)
    qed (use False in \<open>simp add: dopr_loop_step\<close>)
  qed (simp add: dopr_loop_done)
qed

theorem snprintf_terminates:
  "dopr_rounds F maxlen fmt (8 * (length fmt + 2)) \<lparr>out = out buffer, currlen = 0, pos = 1, ch = char_at fmt 0,
     dstate = DP_S_DEFAULT, dflags = 0, cflags = DP_C_NONE, dmin = 0, dmax = - 1, args = as, stores = []\<rparr> =
   Some (snprintf F buffer maxlen fmt as)"
  unfolding snprintf_def vsnprintf_def dopr_start by (rule dopr_rounds_enough) (simp add: weight_def)

text \<open>
  \<open>maxlen\<close> does not bound the output: it is looked at between conversions only, so a conversion that starts below it is
  printed in full.
\<close>

theorem snprintf_exceeds_maxlen: "\<exists>s. snprintf F no_outs 1 ''%d'' [AInt 42] = Inr s \<and> out s = ''42''"
proof -
  have e: "(20 :: nat) = Suc (Suc 18)" by simp
  have "convert_loop False 10 20 42 = ''24''" unfolding e convert_loop.simps by (simp add: digits_def)
  then have t: "int_text 42 10 0 (- 1) 0 = ''42''" by (simp add: int_text_def int_pads_def has_def sign_of_def converted_def)
  have cv: "conv F 1 ([] @ [CHR ''%'', CHR ''d'']) s = Inr (s\<lparr>currlen := currlen s + int (length ''42''),
      out := out s @ ''42'', args := [], dflags := 0\<rparr>)"
    if "ch s = CHR ''d''" "args s = [AInt 42]" "dflags s = 0" "dmin s = 0" "dmax s = - 1" "cflags s = DP_C_NONE" for s
    using that by (simp add: conv_def conv_int_def arg_int_def fmtint_eq lift_out_emits t)
  have "\<exists>s. dopr F no_outs 1 ([] @ [CHR ''%'', CHR ''d'']) [AInt 42] = Inr s \<and> out s = out no_outs @ [] @ ''42'' \<and>
      currlen s = int (length ([] :: string) + length ''42'')"
    by (rule text_conv) (simp_all add: plain_text_def simple_conv_def cv [simplified])
  then show ?thesis by (auto simp: snprintf_def vsnprintf_def no_outs_def)
qed

text \<open>
  A pointer above \<open>0x80000000\<close> is printed with a minus sign: \<open>%p\<close> does not set the unsigned flag, so the address
  that is read is not the one that was given.
\<close>

theorem fmtint_pointer_negative:
  assumes "0x80000000 \<le> v"
  shows "\<exists>txt. fmtint v 16 0 (- 1) 0 s = s\<lparr>currlen := currlen s + int (length txt), out := out s @ txt\<rparr> \<and> read_int 16 txt = uint v - 2 ^ 32"
proof -
  have "sint v = uint v - 2 ^ 32"
  proof -
    have m: "2147483648 \<le> uint v" using assms by (simp add: word_le_def)
    have "sint v = signed_take_bit 31 (uint v)" by (simp add: sint_uint)
    moreover have "uint v < 2 ^ 32" using uint_lt2p [of v] by simp
    moreover have "(uint v + 2147483648) mod 4294967296 = uint v - 2147483648" if "uint v < 4294967296"
      using m that mod_pos_pos_trivial [of "uint v - 2147483648" 4294967296] mod_add_self2 [of "uint v - 2147483648" 4294967296]
      by (simp add: add.commute)
    ultimately show ?thesis by (simp add: signed_take_bit_eq_take_bit_shift take_bit_eq_mod)
  qed
  then show ?thesis using read_int_text [of 16 v 0 "- 1" 0]
    by (intro exI [of _ "int_text v 16 0 (- 1) 0"]) (simp add: fmtint_emits emits_def has_def)
qed

theorem fmtint_pointer_negative_witness:
  "\<exists>txt. fmtint 0x80000000 16 0 (- 1) 0 no_outs = no_outs\<lparr>currlen := int (length txt), out := txt\<rparr> \<and> read_int 16 txt = - 2147483648"
  using fmtint_pointer_negative [of "0x80000000" no_outs] by (simp add: no_outs_def)

text \<open>
  \<open>%s\<close> puts out the string, padded to the width on the left, or on the right with the minus flag, and cut to the precision.
\<close>

theorem fmtstr_layout:
  "fmtstr (Some str) flags mn mx s =
    (let pad = replicate (nat (mn - int (length str))) CHR '' '';
         txt = take (nat mx) (if has flags DP_F_MINUS then str @ pad else pad @ str)
     in s\<lparr>currlen := currlen s + int (length txt), out := out s @ txt\<rparr>)"
  by (simp add: fmtstr_emits emits_def str_text_def Let_def)

text \<open>
  \<open>%f\<close> puts the zeros of a short fraction behind its digits: with exact arithmetic \<open>1.05\<close> with two places is
  printed as \<open>1.50\<close>.
\<close>

lemma exact_parts: "fmtfp_parts exact_fpu (21 / 20) 2 = (1, 5)"
proof -
  have f1: "\<lfloor>21 / 20 :: rat\<rfloor> = 1" "\<lfloor>5 :: rat\<rfloor> = 5" by (simp_all add: floor_eq_iff)
  have p: "pow10 exact_fpu (nat 2) (f_of exact_fpu 1) = 100" by (simp add: numeral_2_eq_2 exact_fpu_def)
  show ?thesis
    unfolding fmtfp_parts_def p Let_def by (simp add: exact_fpu_def xround_def f1 Let_def)
qed

theorem fmtfp_zeros_misplaced: "\<exists>n. fmtfp exact_fpu (21 / 20) 0 2 0 no_outs = \<lparr>out = ''1.50'', currlen = n\<rparr>"
proof -
  have a: "abs_val exact_fpu (21 / 20) = 21 / 20" by (simp add: abs_val_def exact_fpu_def)
  have l: "\<not> f_less exact_fpu (21 / 20) (f_of exact_fpu 0)" by (simp add: exact_fpu_def)
  have d: "converted (fconvert_loop 20 1) = ''1''" "converted (fconvert_loop 20 5) = ''5''" by code_simp+
  show ?thesis
    using l by (simp add: fmtfp_def Let_def a exact_parts d sign_of_def has_def fmtfp_pad_def fmtfp_put_emits put_text_def emits_def no_outs_def)
qed

text \<open>
  \<open>K::streq\<close> is equality and \<open>K::strlen\<close> the length of strings without NUL characters.
\<close>

lemma strlen_from_eq: "nul \<notin> set str \<Longrightarrow> i \<le> length str \<Longrightarrow> strlen_from str i n = n + int (length str - i)"
proof (induction str i n rule: strlen_from.induct)
  case (1 str i n)
  show ?case
  proof (cases "i < length str")
    case True
    then have "char_at str i \<noteq> nul" using 1(2) True nth_mem [OF True] unfolding char_at_def by metis
    then show ?thesis using 1 True by (subst strlen_from.simps) simp
  next
    case False
    then show ?thesis using 1(3) by (subst strlen_from.simps) (simp add: char_at_def)
  qed
qed

lemma streq_from_iff:
  "nul \<notin> set a \<Longrightarrow> nul \<notin> set b \<Longrightarrow> i \<le> length a \<Longrightarrow> i \<le> length b \<Longrightarrow> streq_from a b i \<longleftrightarrow> drop i a = drop i b"
proof (induction a b i rule: streq_from.induct)
  case (1 a b i)
  have na: "i < length a \<Longrightarrow> a ! i \<noteq> nul" "i < length b \<Longrightarrow> b ! i \<noteq> nul"
    using 1(2,3) nth_mem [of i a] nth_mem [of i b] by metis+
  consider "i < length a" "i < length b" | "i = length a" "i < length b" | "i < length a" "i = length b" | "i = length a" "i = length b"
    using 1(4,5) by linarith
  then show ?case
  proof cases
    case 1
    then show ?thesis using "1.IH" "1.prems" na
      by (subst streq_from.simps) (auto simp: char_at_def Cons_nth_drop_Suc [symmetric])
  next
    case 2
    then show ?thesis using na by (subst streq_from.simps) (auto simp: char_at_def)
  next
    case 3
    then show ?thesis using na by (subst streq_from.simps) (auto simp: char_at_def)
  next
    case 4
    then show ?thesis by (subst streq_from.simps) (simp add: char_at_def)
  qed
qed

theorem string_functions:
  assumes "nul \<notin> set a" "nul \<notin> set b"
  shows "(streq a b \<longleftrightarrow> a = b) \<and> strlen a = int (length a)"
  using streq_from_iff [OF assms, of 0] strlen_from_eq [OF assms(1), of 0 0] by (simp add: streq_def strlen_def)

theorem string_functions_witness: "(streq ''init'' ''init'' \<longleftrightarrow> True) \<and> strlen ''init'' = 4"
  using string_functions [of "''init''" "''init''"] by (simp add: nul_def)

end
