(* ===== verification/Snprintf_Format.thy ===== *)
theory Snprintf_Format
  imports Snprintf_Claims
begin

text \<open>
  A reference formatter, by recursion on the format, and the proof that the state machine of \<open>dopr\<close> agrees with it on formats of
  text and conversions without flags, as all messages of the kernel are.
\<close>

section \<open>The reference\<close>

text \<open>Numerals in base \<open>b\<close>.\<close>

function numeral_text :: "bool \<Rightarrow> nat \<Rightarrow> nat \<Rightarrow> string" where
  "numeral_text caps b n =
     (if n < b \<or> b < 2 then [digits caps ! n] else numeral_text caps b (n div b) @ [digits caps ! (n mod b)])"
  by pat_completeness auto
termination by (relation "measure (\<lambda>(caps, b, n). n)") auto

declare numeral_text.simps [simp del]

definition signed_text :: "nat \<Rightarrow> u32 \<Rightarrow> string" where
  "signed_text b v =
     (if sint v < 0 then CHR ''-'' # numeral_text False b (nat (- sint v)) else numeral_text False b (nat (sint v)))"

text \<open>What a conversion prints, and the arguments it leaves.\<close>

definition conversion :: "char \<Rightarrow> 'f arg list \<Rightarrow> (string \<times> 'f arg list) option" where
  "conversion c as =
     (if c = CHR ''%'' then Some (''%'', as)
      else case as of
        AInt v # as \<Rightarrow>
          if c = CHR ''d'' \<or> c = CHR ''i'' then Some (signed_text 10 v, as)
          else if c = CHR ''u'' then Some (numeral_text False 10 (unat v), as)
          else if c = CHR ''o'' then Some (numeral_text False 8 (unat v), as)
          else if c = CHR ''x'' then Some (numeral_text False 16 (unat v), as)
          else if c = CHR ''X'' then Some (numeral_text True 16 (unat v), as)
          else if c = CHR ''p'' then Some (signed_text 16 v, as)
          else if c = CHR ''c'' then Some ([char_of (unat v)], as)
          else None
      | AStr v # as \<Rightarrow> if c = CHR ''s'' then Some (case v of None \<Rightarrow> ''<NULL>'' | Some str \<Rightarrow> str, as) else None
      | _ \<Rightarrow> None)"

fun format_text :: "string \<Rightarrow> 'f arg list \<Rightarrow> string option" where
  "format_text [] as = Some []"
| "format_text [c] as = (if c = CHR ''%'' then None else Some [c])"
| "format_text (c # d # fmt) as =
     (if c = CHR ''%'' then (case conversion d as of None \<Rightarrow> None | Some (t, as') \<Rightarrow> map_option ((@) t) (format_text fmt as'))
      else map_option ((#) c) (format_text (d # fmt) as))"

section \<open>Numbers\<close>

lemma convert_numeral:
  assumes b: "1 < b" "b \<le> 16"
  shows "unat u < b ^ Suc n \<Longrightarrow> rev (convert_loop caps (of_nat b) (Suc n) u) = numeral_text caps b (unat u)"
proof (induction n arbitrary: u)
  case 0
  have "unat (u div of_nat b) = unat u div b" "unat (u mod of_nat b) = unat u mod b"
    by (simp_all add: unat_div unat_mod unat_of_nat_base [OF b(2)])
  then show ?case using 0 by (subst numeral_text.simps) simp
next
  case (Suc n)
  have d: "unat (u div of_nat b) = unat u div b" and m: "unat (u mod of_nat b) = unat u mod b"
    by (simp_all add: unat_div unat_mod unat_of_nat_base [OF b(2)])
  have z: "u div of_nat b = 0 \<longleftrightarrow> unat u < b"
    using d b by (metis div_eq_0_iff not_one_less_zero unat_eq_zero)
  have "unat u div b < b ^ Suc n" using Suc.prems b by (simp add: less_mult_imp_div_less mult.commute)
  then show ?case
    using Suc.IH [of "u div of_nat b"] z b unfolding convert_loop.simps(2) [of _ _ "Suc n"] numeral_text.simps [of caps b "unat u"]
    by (simp add: d m del: convert_loop.simps)
qed

lemma converted_numeral:
  assumes "8 \<le> b" "b \<le> 16"
  shows "rev (converted (convert_loop caps (of_nat b) 20 u)) = numeral_text caps b (unat u)"
proof -
  have "b ^ 11 \<le> b ^ 20" by (rule power_increasing) (use assms in auto)
  then have "unat u < b ^ Suc 19" using u32_less_pow [OF assms(1), of u] by simp
  then have "rev (convert_loop caps (of_nat b) (Suc 19) u) = numeral_text caps b (unat u)"
    by (rule convert_numeral [rotated 2]) (use assms in auto)
  moreover have "Suc 19 = (20 :: nat)" by simp
  ultimately show ?thesis by (simp only: converted_convert [OF assms])
qed

lemma unsigned_int_text:
  assumes "8 \<le> b" "b \<le> 16" "has f DP_F_UNSIGNED" "\<not> has f DP_F_ZERO"
  shows "int_text v (of_nat b) 0 (- 1) f = numeral_text (has f DP_F_UP) b (unat v)"
  using assms by (simp add: int_text_def int_pads_def converted_numeral Let_def del: convert_loop.simps)

lemma signed_int_text:
  assumes "8 \<le> b" "b \<le> 16"
  shows "int_text v (of_nat b) 0 (- 1) 0 = signed_text b v"
proof -
  have h: "has 0 f = False" for f by (simp add: has_def)
  have neg: "unat (- v) = nat (- sint v)" if "sint v < 0"
    using sint_neg_uint [OF that] unat_eq_nat_uint [of "- v"] by linarith
  have pos: "unat v = nat (sint v)" if "\<not> sint v < 0"
    using sint_pos_uint [of v] that unat_eq_nat_uint [of v] by linarith
  have c: "rev (converted (convert_loop False (of_nat b) 20 u)) = numeral_text False b (unat u)" for u
    by (rule converted_numeral [OF assms])
  show ?thesis
  proof (cases "sint v < 0")
    case True
    then show ?thesis
      by (simp add: int_text_def int_pads_def Let_def sign_of_def signed_text_def h c neg)
  next
    case False
    then show ?thesis
      by (simp add: int_text_def int_pads_def Let_def sign_of_def signed_text_def h c pos)
  qed
qed

section \<open>The state machine agrees\<close>

text \<open>A conversion appends \<open>t\<close> and takes its argument.\<close>

definition appends :: "string \<Rightarrow> 'f arg list \<Rightarrow> 'f dopr \<Rightarrow> 'f dopr \<Rightarrow> bool" where
  "appends t as s s' \<longleftrightarrow> out s' = out s @ t \<and> currlen s' = currlen s + int (length t) \<and> args s' = as \<and> pos s' = pos s"

lemma conv_int_appends:
  assumes "args s = AInt v # as" "dflags s = 0" "dmin s = 0" "dmax s = - 1"
  shows "\<exists>s'. conv_int b f s = Inr s' \<and> appends (int_text v b 0 (- 1) f) as s s'"
  using assms by (simp add: conv_int_def arg_int_def fmtint_eq lift_out_emits appends_def)

lemma conv_conversion:
  assumes c: "conversion c as = Some (t, as')" and s: "ch s = c" "args s = as" "dflags s = 0" "dmin s = 0" "dmax s = - 1"
    and l: "int (length t) \<le> maxlen"
  shows "\<exists>s'. conv F maxlen fmt s = Inr s' \<and> appends t as' s s'"
proof (cases "c = CHR ''%''")
  case True
  then show ?thesis using c s by (simp add: conversion_def conv_def dopr_outch_eq lift_out_emits appends_def)
next
  case False
  have h: "\<not> has DP_F_UNSIGNED DP_F_ZERO" "\<not> has (DP_F_UP OR DP_F_UNSIGNED) DP_F_ZERO" "has DP_F_UNSIGNED DP_F_UNSIGNED"
      "has (DP_F_UP OR DP_F_UNSIGNED) DP_F_UNSIGNED" "has (DP_F_UP OR DP_F_UNSIGNED) DP_F_UP = True" "has DP_F_UNSIGNED DP_F_UP = False"
    by (simp_all add: has_def DP_F_UNSIGNED_def DP_F_UP_def DP_F_ZERO_def)
  note u8 = unsigned_int_text [of 8, simplified] and u10 = unsigned_int_text [of 10, simplified]
    and u16 = unsigned_int_text [of 16, simplified] and s10 = signed_int_text [of 10, simplified] and s16 = signed_int_text [of 16, simplified]
  from c False obtain a rest where as: "as = a # rest" by (auto simp: conversion_def split: list.splits)
  show ?thesis
  proof (cases a)
    case (AInt v)
    note k = conv_int_appends [OF s(2) [unfolded as AInt] s(3-5)]
    have "c = CHR ''d'' \<or> c = CHR ''i'' \<or> c = CHR ''u'' \<or> c = CHR ''o'' \<or> c = CHR ''x'' \<or> c = CHR ''X'' \<or> c = CHR ''p'' \<or> c = CHR ''c''"
      and a': "as' = rest"
      using c False as AInt by (auto simp: conversion_def split: if_splits)
    then consider "c = CHR ''d'' \<or> c = CHR ''i''" | "c = CHR ''u''" | "c = CHR ''o''" | "c = CHR ''x''" | "c = CHR ''X''" | "c = CHR ''p''" | "c = CHR ''c''"
      by blast
    then show ?thesis
    proof cases
      case 1
      then show ?thesis using k [of 10 0] c s(1) by (auto simp: conversion_def as AInt conv_def s10)
    next
      case 2
      then show ?thesis using k [of 10 DP_F_UNSIGNED] c s(1) by (simp add: conversion_def as AInt conv_def u10 h)
    next
      case 3
      then show ?thesis using k [of 8 DP_F_UNSIGNED] c s(1) by (simp add: conversion_def as AInt conv_def u8 h)
    next
      case 4
      then show ?thesis using k [of 16 DP_F_UNSIGNED] c s(1) by (simp add: conversion_def as AInt conv_def u16 h)
    next
      case 5
      then show ?thesis using k [of 16 "DP_F_UP OR DP_F_UNSIGNED"] c s(1) by (simp add: conversion_def as AInt conv_def u16 h)
    next
      case 6
      then show ?thesis using k [of 16 0] c s(1) by (simp add: conversion_def as AInt conv_def s16)
    next
      case 7
      then show ?thesis using c s by (auto simp: conversion_def as AInt conv_def arg_int_def dopr_outch_eq lift_out_emits appends_def)
    qed
  next
    case (AStr v)
    then have "c = CHR ''s''" and t: "t = (case v of None \<Rightarrow> ''<NULL>'' | Some str \<Rightarrow> str)" "as' = rest"
      using c False as by (auto simp: conversion_def split: if_splits)
    moreover have "str_text t (has 0 DP_F_MINUS) 0 maxlen = t"
      using l by (simp add: str_text_def has_def)
    ultimately show ?thesis
      using s as AStr by (simp add: conv_def conv_str_def arg_str_def fmtstr_eq lift_out_emits appends_def)
  next
    case (AFp v)
    then show ?thesis using c False as by (simp add: conversion_def)
  qed
qed

lemma conversion_simple: "conversion c as = Some x \<Longrightarrow> simple_conv c"
  by (auto simp: conversion_def simple_conv_def split: list.splits arg.splits if_splits)

lemma format_followed:
  "format_text rest (args s) = Some t \<Longrightarrow> plain_at (pre @ rest) (length pre) s \<Longrightarrow> nul \<notin> set rest \<Longrightarrow>
    currlen s + int (length t) \<le> maxlen \<Longrightarrow> 0 \<le> currlen s \<Longrightarrow>
    \<exists>s'. dopr_loop F maxlen (pre @ rest) s = Inr s' \<and> out s' = out s @ t"
proof (induction rest "args s" arbitrary: pre s t rule: format_text.induct)
  case 1
  then have "ch s = nul" by (simp add: plain_at_def char_at_def)
  from dopr_loop_stop [OF disjI1 [OF this], of F maxlen] 1(1) show ?case by fastforce
next
  case (2 c)
  then have p: "plain_text [c]" and t: "t = [c]" by (auto simp: plain_text_def split: if_splits)
  have at: "plain_at (pre @ [c] @ []) (length pre) s" using 2(2) by simp
  have l: "currlen s + int (length [c]) \<le> maxlen" using 2(4) t by simp
  from plain_copied [OF at p l, of F] obtain s' where
    s': "dopr_loop F maxlen (pre @ [c]) s = dopr_loop F maxlen (pre @ [c]) s'" "plain_at (pre @ [c]) (length pre + 1) s'" "out s' = out s @ [c]"
    by auto
  have "ch s' = nul" using s'(2) by (simp add: plain_at_def char_at_def)
  from dopr_loop_stop [OF disjI1 [OF this], of F maxlen] s' t show ?case by fastforce
next
  case (3 c d fmt)
  show ?case
  proof (cases "c = CHR ''%''")
    case False
    then obtain t' where t': "format_text (d # fmt) (args s) = Some t'" "t = c # t'" using 3(3) by auto
    have p: "plain_text [c]" using False 3(5) by (simp add: plain_text_def)
    have at: "plain_at (pre @ [c] @ (d # fmt)) (length pre) s" using 3(4) by simp
    have l: "currlen s + int (length [c]) \<le> maxlen" using 3(6) t'(2) by simp
    from plain_copied [OF at p l, of F] obtain s' where
      s': "dopr_loop F maxlen (pre @ c # d # fmt) s = dopr_loop F maxlen (pre @ c # d # fmt) s'"
        "plain_at (pre @ c # d # fmt) (length pre + 1) s'" "out s' = out s @ [c]" "currlen s' = currlen s + 1" "args s' = args s"
      by auto
    have "\<exists>s''. dopr_loop F maxlen ((pre @ [c]) @ d # fmt) s' = Inr s'' \<and> out s'' = out s' @ t'"
      using 3(2) [OF False, of s' t' "pre @ [c]"] t' s' 3(5-7) by simp
    then show ?thesis using s' t'(2) by simp
  next
    case True
    obtain u as' t' where u: "conversion d (args s) = Some (u, as')" "format_text fmt as' = Some t'" "t = u @ t'"
      using 3(3) True by (auto split: option.splits)
    show ?thesis
    proof (cases "currlen s < maxlen")
      case False
      then have "length t = 0" using 3(6) by linarith
      then have "t = []" by simp
      then show ?thesis using False dopr_loop_stop [of s maxlen F "pre @ c # d # fmt"] by fastforce
    next
      case less: True
      let ?fmt = "pre @ CHR ''%'' # d # fmt"
      let ?c = "s\<lparr>ch := d, pos := Suc (Suc (length pre)), dstate := DP_S_CONV\<rparr>"
      have at: "plain_at ?fmt (length pre) s" using 3(4) True by simp
      have f: "dflags s = 0" "dmin s = 0" "dmax s = - 1" using at by (simp_all add: plain_at_def)
      have l: "int (length u) \<le> maxlen" using 3(6,7) u(3) by simp
      obtain s1 where s1: "conv F maxlen ?fmt ?c = Inr s1" "appends u as' ?c s1"
        using conv_conversion [OF u(1) _ _ _ _ _ l, of ?c F ?fmt] f by auto
      let ?r = "s1\<lparr>ch := char_at ?fmt (pos s1), pos := pos s1 + 1, dstate := DP_S_DEFAULT, dflags := 0, cflags := DP_C_NONE, dmin := 0, dmax := - 1\<rparr>"
      have ps: "pos s1 = length pre + 2" using s1(2) by (simp add: appends_def)
      have "step_conv F maxlen ?fmt ?c = Inr ?r" using ps by (simp add: step_conv_def s1(1) next_ch_def)
      then have e: "dopr_loop F maxlen ?fmt s = dopr_loop F maxlen ?fmt ?r"
        unfolding conv_reached [OF at conversion_simple [OF u(1)] less] by simp
      have "plain_at ((pre @ [CHR ''%'', d]) @ fmt) (length (pre @ [CHR ''%'', d])) ?r"
        using ps by (simp add: plain_at_def)
      then have "\<exists>s'. dopr_loop F maxlen ((pre @ [CHR ''%'', d]) @ fmt) ?r = Inr s' \<and> out s' = out ?r @ t'"
        using 3(1) [OF True u(1), of u ?r t' "pre @ [CHR ''%'', d]"] u s1(2) 3(5-7) by (simp add: appends_def)
      then show ?thesis using e u(3) s1(2) True by (simp add: appends_def)
    qed
  qed
qed

lemma dopr_format:
  assumes "format_text fmt as = Some t" "nul \<notin> set fmt" "int (length t) \<le> maxlen"
  shows "\<exists>s. dopr F buffer maxlen fmt as = Inr s \<and> out s = out buffer @ t"
proof -
  let ?i = "\<lparr>out = out buffer, currlen = 0, pos = 1, ch = char_at fmt 0, dstate = DP_S_DEFAULT, dflags = 0,
    cflags = DP_C_NONE, dmin = 0, dmax = - 1, args = as, stores = []\<rparr>"
  have "plain_at ([] @ fmt) (length ([] :: string)) ?i" by (simp add: plain_at_def)
  from format_followed [OF _ this assms(2), of t maxlen F] assms show ?thesis by (simp add: dopr_start)
qed

section \<open>Properties\<close>

text \<open>
  C28. The formatter agrees with the reference: on a format of text and conversions \<open>%d\<close>, \<open>%i\<close>, \<open>%u\<close>, \<open>%o\<close>, \<open>%x\<close>, \<open>%X\<close>, \<open>%p\<close>, \<open>%c\<close>, \<open>%s\<close> and \<open>%%\<close>
  without flags, with arguments of their kinds, \<open>snprintf\<close> puts out the text of the reference, if that has at most \<open>maxlen\<close> characters.
\<close>

theorem snprintf_agrees:
  assumes "format_text fmt as = Some t" "nul \<notin> set fmt" "int (length t) \<le> maxlen"
  shows "\<exists>s. snprintf F buffer maxlen fmt as = Inr s \<and> out s = out buffer @ t"
  using dopr_format [OF assms] by (simp add: snprintf_def vsnprintf_def)

theorem snprintf_agrees_witness:
  "\<exists>s. snprintf exact_fpu no_outs 80 ''%s at %x, %d%c'' [AStr (Some ''page''), AInt 0xf0, AInt (- 7), AInt 0x21] = Inr s \<and>
     out s = ''page at f0, -7!''"
proof -
  have n: "numeral_text False 16 0xf0 = ''f0''" "numeral_text False 10 7 = ''7''"
    by (simp_all add: numeral_text.simps digits_def)
  have c: "char_of (33 :: nat) = CHR ''!''" by code_simp
  have "format_text ''%s at %x, %d%c'' [AStr (Some ''page''), AInt 0xf0, AInt (- 7), AInt 0x21 :: rat arg] = Some ''page at f0, -7!''"
    by (simp add: conversion_def n signed_text_def c)
  from snprintf_agrees [OF this, of 80 exact_fpu no_outs] show ?thesis by (simp add: nul_def no_outs_def)
qed

end
