(* ===== verification/Debug.thy ===== *)
theory Debug
  imports Machine Snprintf_Format VMM Ext2 Locks
begin

text \<open>
  Messages, panics and checks: \<open>kernel/debug.cc\<close> and \<open>debug.h\<close>, with \<open>walk_pd\<close> of \<open>vmm.cc\<close>, \<open>printFile\<close> of \<open>kernel.cc\<close> and the messages of
  \<open>kernelInit\<close>. An output stream is what its \<open>put\<close> does to the machine; the formatter's text is put into it character by character. The
  state is that of one core that has the lock or can have it: a lock that somebody else keeps is an error,
  and \<open>Locks\<close> treats the waiting. What the formatter put out before it failed on an argument of the wrong kind is left out.
\<close>

section \<open>Streams\<close>

type_synonym 'h stream = "char \<Rightarrow> 'h \<Rightarrow> 'h res"

definition uart_stream :: "'h bus \<Rightarrow> nat \<Rightarrow> 'h stream" where
  "uart_stream B fuel = (\<lambda>c. uart_put B fuel (of_char c))"

section \<open>The lock\<close>

text \<open>\<open>eflags\<close> is the register of the core, the others are static.\<close>

record 'h debug_state =
  serial :: 'h
  sink :: "'h stream option"
  debugAll :: bool
  shutdown_called :: bool
  checks :: u32
  lk_taken :: bool
  lk_was :: bool
  eflags :: u32

definition debug_lock :: "'h debug_state \<Rightarrow> 'h debug_state res" where
  "debug_lock D =
     (case disable (eflags D) of (f, wasDisabled) \<Rightarrow>
      case atomic_exchange True (lk_taken D) of (t, old) \<Rightarrow>
        if \<not> old then Inr (D\<lparr>eflags := f, lk_taken := t, lk_was := wasDisabled\<rparr>)
        else Inl (Panic ''the lock is not released''))"

definition debug_unlock :: "'h debug_state \<Rightarrow> 'h debug_state" where
  "debug_unlock D =
     (let wasDisabled = lk_was D in D\<lparr>lk_taken := atomic_set False (lk_taken D), eflags := restore wasDisabled (eflags D)\<rparr>)"

section \<open>Printing\<close>

definition debug_init :: "'h stream option \<Rightarrow> 'h debug_state \<Rightarrow> 'h debug_state" where
  "debug_init s D = D\<lparr>sink := s\<rparr>"

definition debug_vprintf :: "'f fpu \<Rightarrow> string \<Rightarrow> 'f arg list \<Rightarrow> 'h debug_state \<Rightarrow> 'h debug_state res" where
  "debug_vprintf F fmt ap D =
     (case sink D of
        None \<Rightarrow> Inr D
      | Some put \<Rightarrow>
          bindE (debug_lock D) (\<lambda>D.
          bindE (vsnprintf F \<lparr>out = [], currlen = 0\<rparr> 1000 fmt ap) (\<lambda>s.
          bindE (forE put (out s) (serial D)) (\<lambda>h.
          Inr (debug_unlock (D\<lparr>serial := h\<rparr>))))))"

definition debug_printf :: "'f fpu \<Rightarrow> string \<Rightarrow> 'f arg list \<Rightarrow> 'h debug_state \<Rightarrow> 'h debug_state res" where
  "debug_printf F fmt ap D = debug_vprintf F fmt ap D"

abbreviation nl :: string where "nl \<equiv> [CHR 0x0A]"

section \<open>The end\<close>

text \<open>\<open>Stops D\<close>: the core is in the loop that writes to port 0xf4 for ever; one write is shown.\<close>

datatype 'h fate = Goes_on "'h debug_state" | Stops "'h debug_state"

definition halt_loop :: "'h bus \<Rightarrow> 'h debug_state \<Rightarrow> 'h fate" where
  "halt_loop B D = Stops (D\<lparr>shutdown_called := True, serial := outb B 0xf4 0x00 (serial D)\<rparr>)"

definition debug_me :: "'h apic \<Rightarrow> smp \<Rightarrow> 'h debug_state \<Rightarrow> u32 \<times> 'h debug_state" where
  "debug_me A M D = (case me A M (serial D) of (c, h) \<Rightarrow> (c, D\<lparr>serial := h\<rparr>))"

definition shutdown :: "'f fpu \<Rightarrow> 'h bus \<Rightarrow> 'h apic \<Rightarrow> smp \<Rightarrow> 'h debug_state \<Rightarrow> 'h fate res" where
  "shutdown F B A M D =
     bindE (if checks D > 0 then debug_printf F (''*** passed %d checkes'' @ nl) [AInt (checks D)] D else Inr D) (\<lambda>D.
     case debug_me A M D of (c, D) \<Rightarrow>
     bindE (debug_printf F (''core %d requested shutdown'' @ nl) [AInt c] D) (\<lambda>D. Inr (halt_loop B D)))"

definition vpanic :: "'f fpu \<Rightarrow> 'h bus \<Rightarrow> 'h apic \<Rightarrow> smp \<Rightarrow> string \<Rightarrow> 'f arg list \<Rightarrow> 'h debug_state \<Rightarrow> 'h fate res" where
  "vpanic F B A M fmt ap D =
     bindE (debug_vprintf F fmt ap (debug_unlock D)) (\<lambda>D.
     case debug_me A M D of (c, D) \<Rightarrow>
     bindE (debug_printf F (''| processor %d halting'' @ nl) [AInt c] D) (\<lambda>D. Inr (halt_loop B D)))"

definition panic :: "'f fpu \<Rightarrow> 'h bus \<Rightarrow> 'h apic \<Rightarrow> smp \<Rightarrow> string \<Rightarrow> 'f arg list \<Rightarrow> 'h debug_state \<Rightarrow> 'h fate res" where
  "panic F B A M fmt ap D = vpanic F B A M fmt ap D"

definition debug_missing :: "'f fpu \<Rightarrow> 'h bus \<Rightarrow> 'h apic \<Rightarrow> smp \<Rightarrow> string \<Rightarrow> u32 \<Rightarrow> 'h debug_state \<Rightarrow> 'h fate res" where
  "debug_missing F B A M filename linenr D = panic F B A M (''*** Missing code at %s:%d'' @ nl) [AStr (Some filename), AInt linenr] D"

definition debug_assert :: "'f fpu \<Rightarrow> 'h bus \<Rightarrow> 'h apic \<Rightarrow> smp \<Rightarrow> bool \<Rightarrow> string \<Rightarrow> string \<Rightarrow> u32 \<Rightarrow> 'h debug_state \<Rightarrow> 'h fate res" where
  "debug_assert F B A M invariant t filename linenr D =
     (if \<not> invariant then panic F B A M (''*** Assertion [%s] failed at %s:%d'' @ nl) [AStr (Some t), AStr (Some filename), AInt linenr] D
      else Inr (Goes_on D))"

definition debug_check :: "'f fpu \<Rightarrow> 'h bus \<Rightarrow> 'h apic \<Rightarrow> smp \<Rightarrow> bool \<Rightarrow> string \<Rightarrow> string \<Rightarrow> u32 \<Rightarrow> 'h debug_state \<Rightarrow> 'h fate res" where
  "debug_check F B A M invariant t filename linenr D =
     (let D = D\<lparr>checks := fst (atomic_fetch_add 1 (checks D))\<rparr> in
      if \<not> invariant then panic F B A M (''*** Check [%s] failed at %s:%d'' @ nl) [AStr (Some t), AStr (Some filename), AInt linenr] D
      else Inr (Goes_on D))"

definition PANIC :: "'f fpu \<Rightarrow> 'h bus \<Rightarrow> 'h apic \<Rightarrow> smp \<Rightarrow> string \<Rightarrow> u32 \<Rightarrow> string \<Rightarrow> 'h debug_state \<Rightarrow> 'h fate res" where
  "PANIC F B A M filename linenr msg D = panic F B A M ''panic at %s:%d [%s]'' [AStr (Some filename), AInt linenr, AStr (Some msg)] D"

section \<open>Sources of messages\<close>

record source =
  source_what :: string
  source_flag :: bool

definition new_source :: "string \<Rightarrow> source" where
  "new_source w = \<lparr>source_what = w, source_flag = False\<rparr>"

definition source_on :: "source \<Rightarrow> source" where "source_on src = src\<lparr>source_flag := True\<rparr>"
definition source_off :: "source \<Rightarrow> source" where "source_off src = src\<lparr>source_flag := False\<rparr>"

definition vdebug :: "'f fpu \<Rightarrow> source \<Rightarrow> string \<Rightarrow> 'f arg list \<Rightarrow> 'h debug_state \<Rightarrow> 'h debug_state res" where
  "vdebug F src fmt ap D =
     (if debugAll D \<or> source_flag src then
        bindE (debug_printf F ''[%s] '' [AStr (Some (source_what src))] D) (\<lambda>D.
        bindE (debug_vprintf F fmt ap D) (debug_printf F nl []))
      else Inr D)"

definition debug :: "'f fpu \<Rightarrow> source \<Rightarrow> string \<Rightarrow> 'f arg list \<Rightarrow> 'h debug_state \<Rightarrow> 'h debug_state res" where
  "debug F src fmt ap D = (if debugAll D \<or> source_flag src then vdebug F src fmt ap D else Inr D)"

section \<open>Messages of other files\<close>

text \<open>\<open>VMM::walk_pd\<close>: the private pages of a directory.\<close>

definition walk_pt :: "'f fpu \<Rightarrow> 'a pm_scheme \<Rightarrow> u32 \<Rightarrow> 'h debug_state \<Rightarrow> 'h debug_state res" where
  "walk_pt F m pt D =
     forE (\<lambda>pti D. let pte = mem m pt pti in
       if pte AND (fNG OR fP) = fNG OR fP then debug_printf F (''page at 0x%x'' @ nl) [AInt (pte AND fMASK)] D else Inr D)
       [0..<PAGES_PER_TABLE] D"

definition walk_pd :: "'f fpu \<Rightarrow> 'a pm_scheme \<Rightarrow> u32 \<Rightarrow> 'h debug_state \<Rightarrow> 'h debug_state res" where
  "walk_pd F m pd D =
     forE (\<lambda>pdi D. let pde = mem m pd pdi in
       if pde AND (fNG OR fP) = fNG OR fP then
         bindE (debug_printf F (''page table at 0x%x'' @ nl) [AInt (pde AND fMASK)] D) (walk_pt F m (pde AND fMASK))
       else Inr D)
       [0..<PAGES_PER_TABLE] D"

text \<open>\<open>printFile\<close>. A \<open>char\<close> is passed as a signed number.\<close>

definition char_arg :: "u8 \<Rightarrow> 'f arg" where
  "char_arg c = AInt (scast c)"

definition printFile :: "'f fpu \<Rightarrow> u32 \<Rightarrow> 'd device \<Rightarrow> (nat \<Rightarrow> u8 list) \<Rightarrow> 'h debug_state \<times> node option \<times> 'd \<Rightarrow> ('h debug_state \<times> node option \<times> 'd) res" where
  "printFile F bs Dev fresh = (\<lambda>(D, f, d).
     case f of
       None \<Rightarrow> bindE (debug_printf F (''file does not exist'' @ nl) [] D) (\<lambda>D. Inr (D, None, d))
     | Some nd \<Rightarrow>
         let N = node_device bs Dev fresh nd; n = size_in_bytes N in
         bindE (load N 0 n (fresh (unat n)) (nd, d)) (\<lambda>(buffer, (nd, d)).
         bindE (forE (\<lambda>i. debug_printf F ''%c'' [char_arg (buffer ! i)]) [0..<unat n] D) (\<lambda>D. Inr (D, Some nd, d))))"

text \<open>\<open>kernelInit\<close> tells what it runs on. \<open>cpuid\<close> gives the four registers.\<close>

record cpuid_out =
  out_a :: u32
  out_b :: u32
  out_c :: u32
  out_d :: u32

definition print_quad :: "'f fpu \<Rightarrow> u32 \<Rightarrow> 'h debug_state \<Rightarrow> 'h debug_state res" where
  "print_quad F q D =
     bindE (forE (\<lambda>i (q, D). bindE (debug_printf F ''%c'' [char_arg (ucast q)] D) (\<lambda>D. Inr (drop_bit 8 q, D))) [0..<4] (q, D))
       (\<lambda>(q, D). Inr D)"

definition print_if :: "'f fpu \<Rightarrow> bool \<Rightarrow> string \<Rightarrow> 'h debug_state \<Rightarrow> 'h debug_state res" where
  "print_if F b msg D = (if b then debug_printf F (msg @ nl) [] D else Inr D)"

definition identify :: "'f fpu \<Rightarrow> (u32 \<Rightarrow> cpuid_out) \<Rightarrow> 'h debug_state \<Rightarrow> ('h debug_state \<times> bool) res" where
  "identify F cpuid D =
     bindE (debug_printf F (''| Discovering my identity and features'' @ nl) [] D) (\<lambda>D.
     bindE (debug_printf F ''|     CPUID: '' [] D) (\<lambda>D.
     bindE (print_quad F (out_b (cpuid 0)) D) (\<lambda>D.
     bindE (print_quad F (out_d (cpuid 0)) D) (\<lambda>D.
     bindE (print_quad F (out_c (cpuid 0)) D) (\<lambda>D.
     bindE (debug_printf F nl [] D) (\<lambda>D.
     let c = out_c (cpuid 1) in
     bindE (print_if F (c AND 0x1 \<noteq> 0) ''|     has SSE3'' D) (\<lambda>D.
     bindE (print_if F (c AND 0x8 \<noteq> 0) ''|     has MONITOR/MWAIT'' D) (\<lambda>D.
     let onHypervisor = (c AND 0x80000000 \<noteq> 0) in
     bindE (print_if F True (if onHypervisor then ''|     running on hypervisor'' else ''|     running on physical hardware'') D) (\<lambda>D.
     Inr (D, onHypervisor))))))))))"

definition print_config :: "'f fpu \<Rightarrow> config \<Rightarrow> 'h debug_state \<Rightarrow> 'h debug_state res" where
  "print_config F c D =
     bindE (debug_printf F (''| totalProcs %d'' @ nl) [AInt (totalProcs c)] D) (\<lambda>D.
     bindE (debug_printf F (''| memSize 0x%x %dMB'' @ nl) [AInt (memSize c), AInt (memSize c div (1024 * 1024))] D) (\<lambda>D.
     bindE (debug_printf F (''| localAPIC %x'' @ nl) [AInt (localAPIC c)] D) (\<lambda>D.
     debug_printf F (''| ioAPIC %x'' @ nl) [AInt (ioAPIC c)] D)))"

text \<open>\<open>kernelInit\<close> up to \<open>configInit\<close>, with the serial port as the sink.\<close>

definition kernel_greeting :: "'f fpu \<Rightarrow> (u32 \<Rightarrow> cpuid_out) \<Rightarrow> 'h stream \<Rightarrow> 'h debug_state \<Rightarrow> ('h debug_state \<times> bool) res" where
  "kernel_greeting F cpuid uart D =
     (let D = (debug_init (Some uart) D)\<lparr>debugAll := False\<rparr> in
      bindE (debug_printf F (nl @ ''| What just happened? Why am I here?'' @ nl) [] D) (identify F cpuid))"

end
