(* ===== verification/Debug_Claims.thy ===== *)
theory Debug_Claims
  imports Debug
begin

text \<open>
  What is printed arrives: the locale \<open>output_stream\<close> says that a stream appends what is put into it, which holds of the serial port over
  a line that keeps to the protocol, and of the formatter's own stream.
\<close>

section \<open>Lengths\<close>

lemma numeral_length: "2 \<le> b \<Longrightarrow> n < b ^ Suc k \<Longrightarrow> length (numeral_text caps b n) \<le> Suc k"
proof (induction k arbitrary: n)
  case 0
  then show ?case by (subst numeral_text.simps) simp
next
  case (Suc k)
  have "n div b < b ^ Suc k" using Suc.prems by (simp add: less_mult_imp_div_less mult.commute)
  from Suc.IH [OF Suc.prems(1) this] show ?case by (subst numeral_text.simps) simp
qed

lemma signed_length: "length (signed_text 10 v) \<le> 12"
proof -
  have "- (2 ^ 31) \<le> sint v" "sint v < 2 ^ 31" using sint_greater_eq [of v] sint_less [of v] by simp_all
  then have "nat (- sint v) < 10 ^ Suc 10" "nat (sint v) < 10 ^ Suc 10" by simp_all
  then have "length (numeral_text False 10 (nat (- sint v))) \<le> 11" "length (numeral_text False 10 (nat (sint v))) \<le> 11"
    using numeral_length [of 10 _ 10] by simp_all
  then show ?thesis by (simp add: signed_text_def)
qed

lemma halting_text:
  "format_text (''| processor %d halting'' @ nl) [AInt c] = Some (''| processor '' @ signed_text 10 c @ '' halting'' @ nl)"
  by (simp add: conversion_def)

section \<open>Streams\<close>

locale output_stream =
  fixes put :: "'h stream" and ready :: "'h \<Rightarrow> bool" and sent :: "'h \<Rightarrow> string"
  assumes put_appends: "ready h \<Longrightarrow> \<exists>h'. put c h = Inr h' \<and> ready h' \<and> sent h' = sent h @ [c]"
begin

lemma text_sent: "ready h \<Longrightarrow> \<exists>h'. forE put cs h = Inr h' \<and> ready h' \<and> sent h' = sent h @ cs"
proof (induction cs arbitrary: h)
  case (Cons c cs)
  obtain h1 where 1: "put c h = Inr h1" "ready h1" "sent h1 = sent h @ [c]" using put_appends [OF Cons.prems] by blast
  then show ?case using Cons.IH [OF 1(2)] by simp
qed simp

text \<open>A message goes out as a whole, and the lock and the interrupts are as before.\<close>

lemma printf_sent:
  assumes "sink D = Some put" "\<not> lk_taken D" "ready (serial D)"
    and "format_text fmt ap = Some t" "nul \<notin> set fmt" "length t \<le> 1000"
  shows "\<exists>h'. debug_vprintf F fmt ap D = Inr (D\<lparr>serial := h', lk_taken := False, lk_was := isDisabled (eflags D)\<rparr>) \<and>
    ready h' \<and> sent h' = sent (serial D) @ t"
proof -
  let ?D = "D\<lparr>eflags := fst (disable (eflags D)), lk_taken := True, lk_was := isDisabled (eflags D)\<rparr>"
  obtain s where s: "dopr F \<lparr>out = [], currlen = 0\<rparr> 1000 fmt ap = Inr s" "out s = t"
    using dopr_format [OF assms(4,5), of 1000 F "\<lparr>out = [], currlen = 0\<rparr>"] assms(6) by auto
  obtain h' where h': "forE put t (serial D) = Inr h'" "ready h'" "sent h' = sent (serial D) @ t"
    using text_sent [OF assms(3)] by blast
  have "debug_lock D = Inr ?D"
    using assms(2) disable_was [of "eflags D"] by (cases "disable (eflags D)") (simp add: debug_lock_def atomic_exchange_def)
  then have "debug_vprintf F fmt ap D = Inr (debug_unlock (?D\<lparr>serial := h'\<rparr>))"
    using assms(1) s h' by (simp add: debug_vprintf_def vsnprintf_def)
  also have "debug_unlock (?D\<lparr>serial := h'\<rparr>) = D\<lparr>serial := h', lk_taken := False, lk_was := isDisabled (eflags D)\<rparr>"
    using restore_disable [of "eflags D"] by (simp add: debug_unlock_def atomic_set_def)
  finally show ?thesis using h' by blast
qed

text \<open>A panic is heard whoever has the lock, and it does not return.\<close>

lemma panic_sent:
  assumes s: "sink D = Some put" "ready (serial D)"
    and f: "format_text fmt ap = Some t" "nul \<notin> set fmt" "length t \<le> 1000"
    and me: "\<And>h. ready h \<Longrightarrow> fst (reg_get A (id_reg M) h) = v \<and> ready (snd (reg_get A (id_reg M) h)) \<and> sent (snd (reg_get A (id_reg M) h)) = sent h"
  shows "\<exists>D' h'. panic F B A M fmt ap D = Inr (Stops D') \<and> shutdown_called D' \<and> \<not> lk_taken D' \<and> serial D' = outb B 0xf4 0 h' \<and>
    sent h' = sent (serial D) @ t @ ''| processor '' @ signed_text 10 (drop_bit 24 v) @ '' halting'' @ nl \<and>
    eflags D' = restore (lk_was D) (eflags D)"
proof -
  let ?D = "debug_unlock D"
  have d: "sink ?D = Some put" "\<not> lk_taken ?D" "serial ?D = serial D" "eflags ?D = restore (lk_was D) (eflags D)"
    using s(1) by (simp_all add: debug_unlock_def atomic_set_def Let_def)
  let ?w = "isDisabled (eflags ?D)"
  obtain h1 where h1: "debug_vprintf F fmt ap ?D = Inr (?D\<lparr>serial := h1, lk_taken := False, lk_was := ?w\<rparr>)"
      "ready h1" "sent h1 = sent (serial D) @ t"
    using printf_sent [OF d(1,2) _ f, of F] s(2) d(3) by auto
  obtain h2 where v: "reg_get A (id_reg M) h1 = (v, h2)" using me [OF h1(2)] by (cases "reg_get A (id_reg M) h1") simp
  then have h2: "ready h2" "sent h2 = sent (serial D) @ t" using me [OF h1(2)] h1(3) by simp_all
  let ?E = "?D\<lparr>lk_taken := False, lk_was := ?w, serial := h2\<rparr>" and ?c = "drop_bit 24 v"
  let ?m = "''| processor '' @ signed_text 10 ?c @ '' halting'' @ nl"
  have e: "sink ?E = Some put" "\<not> lk_taken ?E" "ready (serial ?E)" using d h2 by simp_all
  have l: "length ?m \<le> 1000" using signed_length [of ?c] by simp
  have n: "nul \<notin> set (''| processor %d halting'' @ nl)" by (simp add: nul_def)
  obtain h3 where h3: "debug_vprintf F (''| processor %d halting'' @ nl) [AInt ?c] ?E = Inr (?E\<lparr>serial := h3, lk_taken := False, lk_was := ?w\<rparr>)"
      "sent h3 = sent h2 @ ?m"
    using printf_sent [OF e halting_text n l, of F] by auto
  have "panic F B A M fmt ap D = Inr (halt_loop B (?E\<lparr>serial := h3, lk_taken := False, lk_was := ?w\<rparr>))"
    using h1(1) v h3(1) by (simp add: panic_def vpanic_def debug_me_def me_def debug_printf_def)
  then show ?thesis
    using h2(2) h3(2) d(4) by (intro exI [of _ "?E\<lparr>serial := outb B 0xf4 0 h3, shutdown_called := True\<rparr>"] exI [of _ h3])
      (simp add: halt_loop_def)
qed

end

text \<open>The stream of the formatter is one.\<close>

interpretation buffer: output_stream "\<lambda>c s. Inr (dopr_outch c s)" "\<lambda>_. True" out
  by unfold_locales (simp add: dopr_outch_def)

section \<open>The serial port\<close>

text \<open>
  A line that keeps to the protocol: \<open>line k h\<close> says that the transmitter is busy for \<open>k\<close> more polls, \<open>sent\<close> is what went out. A byte written while it
  is free goes out, and makes it busy for at most \<open>delay\<close> polls.
\<close>

locale uart_line =
  fixes B :: "'h bus" and delay :: nat and line :: "nat \<Rightarrow> 'h \<Rightarrow> bool" and sent :: "'h \<Rightarrow> string"
  assumes busy: "line (Suc k) h \<Longrightarrow> \<exists>s h'. inb B (0x3F8 + 5) h = (s, h') \<and> s AND 0x20 = 0 \<and> line k h' \<and> sent h' = sent h"
    and clear: "line 0 h \<Longrightarrow> \<exists>s h'. inb B (0x3F8 + 5) h = (s, h') \<and> s AND 0x20 \<noteq> 0 \<and> line 0 h' \<and> sent h' = sent h"
    and transmit: "line 0 h \<Longrightarrow> \<exists>k \<le> delay. line k (outb B 0x3F8 (of_char c) h) \<and> sent (outb B 0x3F8 (of_char c) h) = sent h @ [c]"
begin

lemma uart_sends:
  "line k h \<Longrightarrow> k < fuel \<Longrightarrow> \<exists>k' h'. uart_put B fuel (of_char c) h = Inr h' \<and> k' \<le> delay \<and> line k' h' \<and> sent h' = sent h @ [c]"
proof (induction k arbitrary: h fuel)
  case 0
  obtain n where n: "fuel = Suc n" using 0(2) by (cases fuel) auto
  obtain s h1 where h1: "inb B (0x3F8 + 5) h = (s, h1)" "s AND 0x20 \<noteq> 0" "line 0 h1" "sent h1 = sent h" using clear [OF 0(1)] by blast
  have "uart_put B fuel (of_char c) h = Inr (outb B 0x3F8 (of_char c) h1)" using h1 n by simp
  then show ?case using transmit [OF h1(3), of c] h1(4) by auto
next
  case (Suc k)
  obtain n where n: "fuel = Suc n" using Suc.prems(2) by (cases fuel) auto
  obtain s h1 where h1: "inb B (0x3F8 + 5) h = (s, h1)" "s AND 0x20 = 0" "line k h1" "sent h1 = sent h" using busy [OF Suc.prems(1)] by blast
  have "uart_put B fuel (of_char c) h = uart_put B n (of_char c) h1" using h1 n by simp
  then show ?case using Suc.IH [OF h1(3), of n] Suc.prems(2) n h1(4) by auto
qed

end

locale uart_polled = uart_line +
  fixes fuel :: nat
  assumes enough: "delay < fuel"

sublocale uart_polled \<subseteq> port: output_stream "uart_stream B fuel" "\<lambda>h. \<exists>k \<le> delay. line k h" sent
proof
  fix h c
  assume "\<exists>k \<le> delay. line k h"
  then obtain k where "k < fuel" "line k h" using enough by (meson le_less_trans)
  from uart_sends [OF this(2,1), of c]
  show "\<exists>h'. uart_stream B fuel c h = Inr h' \<and> (\<exists>k \<le> delay. line k h') \<and> sent h' = sent h @ [c]"
    by (auto simp: uart_stream_def)
qed

context uart_polled
begin

lemma port_stream: "output_stream (uart_stream B fuel) (\<lambda>h. \<exists>k \<le> delay. line k h) sent"
  by unfold_locales

end

section \<open>A line to print on\<close>

text \<open>The transmitter takes two polls for a byte; the core's identifier is read from elsewhere.\<close>

record line =
  busy_for :: nat
  sent_text :: string
  exited :: bool

definition line_bus :: "line bus" where
  "line_bus = \<lparr>inb = (\<lambda>p h. if p = 0x3FD then (if busy_for h = 0 then 0x20 else 0, h\<lparr>busy_for := busy_for h - 1\<rparr>) else (0, h)),
     inl = (\<lambda>p h. (0, h)),
     outb = (\<lambda>p c h. if p = 0x3F8 then h\<lparr>busy_for := 2, sent_text := sent_text h @ [char_of (unat c)]\<rparr>
                     else if p = 0xf4 then h\<lparr>exited := True\<rparr> else h)\<rparr>"

lemma of_char_byte [simp]: "char_of (unat (of_char c :: u8)) = c"
proof -
  have "(of_char c :: u8) = of_nat (of_char c)" by (simp only: of_nat_of_char)
  then have "unat (of_char c :: u8) = of_char c" by (simp add: unsigned_of_nat take_bit_nat_eq_self_iff)
  then show ?thesis by simp
qed

interpretation sim_line: uart_polled line_bus 2 "\<lambda>k h. busy_for h = k" sent_text 3
  by unfold_locales (auto simp: line_bus_def)

definition line_apic :: "line apic" where
  "line_apic = \<lparr>reg_get = (\<lambda>r h. (0x03000000, h)), reg_set = (\<lambda>r v h. h), rdmsr = (\<lambda>r h. (0, h)), wrmsr = (\<lambda>r v h. h)\<rparr>"

definition line_debug :: "line debug_state" where
  "line_debug = \<lparr>serial = \<lparr>busy_for = 1, sent_text = [], exited = False\<rparr>, sink = Some (uart_stream line_bus 3), debugAll = False,
     shutdown_called = False, checks = 0, lk_taken = True, lk_was = False, eflags = 0\<rparr>"

section \<open>Properties\<close>

text \<open>
  C29. A panic is heard. On a serial port whose line keeps to the protocol, \<open>Debug::panic\<close> sends its message (of at most 1000
  characters, the most that \<open>vprintf\<close> puts out) and then the number of the core that panicked, the top byte \<open>drop_bit 24 v\<close> of the local APIC's
  identifier register if that register reads \<open>v\<close>, whoever has the lock, and does not return; on the way, it sets
  the interrupt flag as the last user of the lock had it.
\<close>

theorem panic_is_heard:
  assumes "uart_polled B delay line sent fuel"
    and "sink D = Some (uart_stream B fuel)" "k \<le> delay" "line k (serial D)"
    and "format_text fmt ap = Some t" "nul \<notin> set fmt" "length t \<le> 1000"
    and "\<And>k h. line k h \<Longrightarrow> fst (reg_get A (id_reg M) h) = v \<and> line k (snd (reg_get A (id_reg M) h)) \<and> sent (snd (reg_get A (id_reg M) h)) = sent h"
  shows "\<exists>D' h'. panic F B A M fmt ap D = Inr (Stops D') \<and> shutdown_called D' \<and> \<not> lk_taken D' \<and> serial D' = outb B 0xf4 0 h' \<and>
    sent h' = sent (serial D) @ t @ ''| processor '' @ signed_text 10 (drop_bit 24 v) @ '' halting'' @ nl \<and>
    eflags D' = restore (lk_was D) (eflags D)"
proof (rule output_stream.panic_sent [OF uart_polled.port_stream [OF assms(1)] assms(2) _ assms(5-7)])
  show "\<exists>k \<le> delay. line k (serial D)" using assms(3,4) by blast
qed (use assms(8) in blast)

theorem panic_is_heard_witness:
  "\<exists>D' h'. panic exact_fpu line_bus line_apic (smp_registers no_config) ''panic at %s:%d '' [AStr (Some ''heap.cc''), AInt 7] line_debug =
      Inr (Stops D') \<and> shutdown_called D' \<and> serial D' = outb line_bus 0xf4 0 h' \<and>
    sent_text h' = ''panic at heap.cc:7 | processor 3 halting'' @ nl \<and> \<not> isDisabled (eflags D')"
proof -
  have n: "signed_text 10 7 = ''7''" by (simp add: signed_text_def numeral_text.simps digits_def)
  have f: "format_text ''panic at %s:%d '' [AStr (Some ''heap.cc''), AInt 7 :: rat arg] = Some ''panic at heap.cc:7 ''"
    by (simp add: conversion_def n)
  have "drop_bit 24 (0x03000000 :: u32) = 3" by code_simp
  then have c: "signed_text 10 (drop_bit 24 (0x03000000 :: u32)) = ''3''" by (simp add: signed_text_def numeral_text.simps digits_def)
  have i: "\<not> isDisabled (restore False 0)" by (simp add: restore_def)
  have D: "sink line_debug = Some (uart_stream line_bus 3)" "busy_for (serial line_debug) = 1" "sent_text (serial line_debug) = []"
      "eflags line_debug = 0" "lk_was line_debug = False"
    by (simp_all add: line_debug_def)
  have n: "nul \<notin> set ''panic at %s:%d ''" "length ''panic at heap.cc:7 '' \<le> 1000" by (simp_all add: nul_def)
  have m: "busy_for h = k \<Longrightarrow> fst (reg_get line_apic (id_reg (smp_registers no_config)) h) = 0x03000000 \<and> busy_for (snd (reg_get line_apic (id_reg (smp_registers no_config)) h)) = k \<and>
      sent_text (snd (reg_get line_apic (id_reg (smp_registers no_config)) h)) = sent_text h" for h k
    by (simp add: line_apic_def)
  have "\<exists>D' h'. panic exact_fpu line_bus line_apic (smp_registers no_config) ''panic at %s:%d '' [AStr (Some ''heap.cc''), AInt 7] line_debug =
      Inr (Stops D') \<and> shutdown_called D' \<and> \<not> lk_taken D' \<and> serial D' = outb line_bus 0xf4 0 h' \<and>
    sent_text h' = sent_text (serial line_debug) @ ''panic at heap.cc:7 '' @ ''| processor '' @ signed_text 10 (drop_bit 24 0x03000000) @ '' halting'' @ nl \<and>
    eflags D' = restore (lk_was line_debug) (eflags line_debug)"
    by (rule panic_is_heard [OF sim_line.uart_polled_axioms D(1) _ D(2) f n]) (simp, rule m)
  then show ?thesis using i unfolding D(3-5) c by simp metis
qed

end
