(* ===== verification/Machine_Claims.thy ===== *)
theory Machine_Claims
  imports Machine
begin

text \<open>What the gates say to the processor, and how the timer finds its rate.\<close>

section \<open>Gates\<close>

text \<open>A gate as the processor reads it: offset, selector, type, privilege level and presence.\<close>

record gate =
  offset :: u32
  selector :: u32
  gate_type :: u32
  system :: bool
  dpl :: u32
  present :: bool

definition read_gate :: "nat \<Rightarrow> u32 list \<Rightarrow> gate" where
  "read_gate i idt = (let lo = idt ! (2 * i); hi = idt ! (2 * i + 1) in
     \<lparr>offset = (hi AND 0xffff0000) OR (lo AND 0xffff), selector = drop_bit 16 lo, gate_type = drop_bit 8 hi AND 0xf,
      system = \<not> bit hi 12, dpl = drop_bit 13 hi AND 3, present = bit hi 15\<rparr>)"

lemma mask16: "(0xffff :: u32) = mask 16" "(0xffff0000 :: u32) = push_bit 16 (mask 16)" "(0xf :: u32) = mask 4" "(3 :: u32) = mask 2"
  by (simp_all add: mask_eq_exp_minus_1)

lemma low_word: "push_bit 16 s + (h AND 0xffff) = push_bit 16 s OR (h AND 0xffff)" for s h :: u32
  by (rule disjunctive_add) (auto simp: mask16 bit_simps)

lemma kind_words: "(0x8e00 :: u32) = push_bit 15 1 OR push_bit 9 (mask 3)" "(0x8f00 :: u32) = push_bit 15 1 OR push_bit 8 (mask 4)"
  by (simp_all add: mask_eq_exp_minus_1)

lemma single_bits: "bit (32768 :: int) n \<longleftrightarrow> n = 15" "bit (4 :: int) n \<longleftrightarrow> n = 2"
proof -
  have "(32768 :: int) = push_bit 15 1" "(4 :: int) = push_bit 2 1" by simp_all
  then show "bit (32768 :: int) n \<longleftrightarrow> n = 15" "bit (4 :: int) n \<longleftrightarrow> n = 2"
    by (simp_all only: bit_push_bit_iff bit_1_iff) auto
qed

lemmas gate_bits = mask16 kind_words bit_simps single_bits

lemma level_bits: "bit d n \<Longrightarrow> n < 2" if "d < 4" for d :: u32
proof -
  have "unat d < 2 ^ 2" using that by (simp add: word_less_nat_alt)
  then have "take_bit 2 d = d" by (simp add: word_unat_eq_iff unsigned_take_bit_eq take_bit_nat_eq_self)
  then show "bit d n \<Longrightarrow> n < 2" by (metis bit_take_bit_iff)
qed

lemma interrupt_fields:
  fixes h s :: u32
  defines "lo \<equiv> push_bit 16 s + (h AND 0xffff)" and "hi \<equiv> (h AND 0xffff0000) OR 0x8e00"
  shows "(hi AND 0xffff0000) OR (lo AND 0xffff) = h" "drop_bit 16 lo = s AND 0xffff" "drop_bit 8 hi AND 0xf = 0xe"
    "\<not> bit hi 12" "drop_bit 13 hi AND 3 = 0" "bit hi 15"
proof -
  show "(hi AND 0xffff0000) OR (lo AND 0xffff) = h" unfolding lo_def hi_def low_word by (rule bit_eqI) (auto simp: gate_bits)
  show "drop_bit 16 lo = s AND 0xffff" unfolding lo_def low_word by (rule bit_eqI) (auto simp: gate_bits)
  have "(0xe :: u32) = mask 4 AND NOT 1" by (simp add: mask_eq_exp_minus_1)
  then show "drop_bit 8 hi AND 0xf = 0xe"
  proof (intro bit_eqI)
    fix n
    assume e: "(0xe :: u32) = mask 4 AND NOT 1"
    show "bit (drop_bit 8 hi AND 0xf) n = bit (0xe :: u32) n"
    proof (cases "n < 4")
      case True
      then have "n \<in> {0, 1, 2, 3}" by auto
      then show ?thesis unfolding hi_def e by (auto simp: gate_bits)
    next
      case False
      then show ?thesis unfolding hi_def e by (auto simp: gate_bits)
    qed
  qed
  show "\<not> bit hi 12" "bit hi 15" unfolding hi_def by (simp_all add: gate_bits)
  show "drop_bit 13 hi AND 3 = 0" unfolding hi_def by (rule bit_eqI) (auto simp: gate_bits)
qed

lemma trap_fields:
  fixes h s d :: u32
  assumes "d < 4"
  defines "lo \<equiv> push_bit 16 s + (h AND 0xffff)" and "hi \<equiv> (h AND 0xffff0000) OR 0x8f00 OR push_bit 13 d"
  shows "(hi AND 0xffff0000) OR (lo AND 0xffff) = h" "drop_bit 16 lo = s AND 0xffff" "drop_bit 8 hi AND 0xf = 0xf"
    "\<not> bit hi 12" "drop_bit 13 hi AND 3 = d" "bit hi 15"
proof -
  note l = level_bits [OF assms(1)]
  show "(hi AND 0xffff0000) OR (lo AND 0xffff) = h" unfolding lo_def hi_def low_word
    by (rule bit_eqI) (auto simp: gate_bits dest!: l)
  show "drop_bit 16 lo = s AND 0xffff" unfolding lo_def low_word by (rule bit_eqI) (auto simp: gate_bits)
  show "drop_bit 8 hi AND 0xf = 0xf" unfolding hi_def by (rule bit_eqI) (auto simp: gate_bits dest!: l)
  show "\<not> bit hi 12" "bit hi 15" unfolding hi_def by (auto simp: gate_bits dest!: l)
  show "drop_bit 13 hi AND 3 = d"
  proof (rule bit_eqI)
    fix n
    show "bit (drop_bit 13 hi AND 3) n = bit d n"
    proof (cases "n < 2")
      case True
      then have "n \<in> {0, 1}" by auto
      then show ?thesis unfolding hi_def by (auto simp: gate_bits)
    next
      case False
      then show ?thesis unfolding hi_def by (auto simp: gate_bits dest: l)
    qed
  qed
qed

lemma other_gate: "length idt = 512 \<Longrightarrow> j \<noteq> i \<Longrightarrow> read_gate j (idt[2 * i := lo, Suc (2 * i) := hi]) = read_gate j idt"
proof -
  assume "j \<noteq> i"
  then have "2 * j \<noteq> 2 * i" "2 * j \<noteq> Suc (2 * i)" "Suc (2 * j) \<noteq> 2 * i" "Suc (2 * j) \<noteq> Suc (2 * i)" by presburger+
  then show ?thesis by (simp add: read_gate_def)
qed

text \<open>
  C36. A gate says what was asked for: after \<open>interrupt\<close> or \<open>trap\<close> the processor reads from gate \<open>i\<close> of the table the address of the
  handler, the kernel's code segment, a gate that is present, of the kind that turns interrupts off or leaves them on, and the privilege
  level from which \<open>int\<close> may use it; no other gate has changed.
\<close>

theorem gates_read_back:
  assumes "length idt = 512" "i < 256" "d < 4"
  shows "read_gate i (gate_interrupt cs i h idt) =
      \<lparr>offset = h, selector = cs AND 0xffff, gate_type = 0xe, system = True, dpl = 0, present = True\<rparr> \<and>
    read_gate i (gate_trap cs i h d idt) =
      \<lparr>offset = h, selector = cs AND 0xffff, gate_type = 0xf, system = True, dpl = d, present = True\<rparr> \<and>
    (\<forall>j. j \<noteq> i \<longrightarrow> read_gate j (gate_interrupt cs i h idt) = read_gate j idt \<and>
      read_gate j (gate_trap cs i h d idt) = read_gate j idt)"
proof -
  have "2 * i < length idt" "Suc (2 * i) < length idt" "2 * i \<noteq> Suc (2 * i)" using assms by simp_all
  then have g: "read_gate i (idt[2 * i := lo, Suc (2 * i) := hi]) = \<lparr>offset = (hi AND 0xffff0000) OR (lo AND 0xffff),
      selector = drop_bit 16 lo, gate_type = drop_bit 8 hi AND 0xf, system = \<not> bit hi 12, dpl = drop_bit 13 hi AND 3,
      present = bit hi 15\<rparr>" for lo hi
    by (simp add: read_gate_def)
  have e: "gate_interrupt cs i h idt = idt[2 * i := push_bit 16 cs + (h AND 0xffff), Suc (2 * i) := (h AND 0xffff0000) OR 0x8e00]"
    "gate_trap cs i h d idt = idt[2 * i := push_bit 16 cs + (h AND 0xffff), Suc (2 * i) := (h AND 0xffff0000) OR 0x8f00 OR push_bit 13 d]"
    by (simp_all add: Let_def gate_interrupt_def gate_trap_def)
  show ?thesis unfolding e
    by (simp only: g interrupt_fields trap_fields [OF assms(3)] simp_thms) (simp add: other_gate [OF assms(1)])
qed

theorem gates_read_back_witness:
  "read_gate 48 (gate_trap 8 48 0x12345678 3 (replicate 512 0)) =
    \<lparr>offset = 0x12345678, selector = 8, gate_type = 0xf, system = True, dpl = 3, present = True\<rparr>"
  using gates_read_back [of "replicate 512 0" 48 3 8 "0x12345678"] by simp

section \<open>The rate of the timer\<close>

lemma pit_divider_value: "pit_divider = 59659"
proof -
  have "PIT_FREQ div 20 = 59659" by (simp add: PIT_FREQ_def)
  then show ?thesis by (simp add: pit_divider_def)
qed

text \<open>The number of changes of a wave from poll \<open>p\<close> on.\<close>

fun ticks :: "(nat \<Rightarrow> bool) \<Rightarrow> nat \<Rightarrow> nat \<Rightarrow> nat" where
  "ticks wave p 0 = 0"
| "ticks wave p (Suc n) = (if wave (Suc p) \<noteq> wave p then 1 else 0) + ticks wave (Suc p) n"

lemma count_changes_stops:
  assumes wave: "\<And>h. fst (speaker B h) = wave (polls h)" "\<And>h. polls (snd (speaker B h)) = Suc (polls h)"
  shows "polls h = Suc p \<Longrightarrow> k \<le> ticks wave p fuel \<Longrightarrow>
    \<exists>h' n. count_changes B fuel k (wave p) h = Inr h' \<and> polls h' = Suc p + n \<and> ticks wave p n = k \<and> (\<forall>j < n. ticks wave p j < k)"
proof (induction fuel arbitrary: p k h)
  case 0
  then show ?case by (intro exI [of _ h] exI [of _ 0]) simp
next
  case (Suc fuel)
  show ?case
  proof (cases k)
    case 0
    then show ?thesis using Suc.prems(1) by (intro exI [of _ h] exI [of _ 0]) simp
  next
    case (Suc i)
    obtain t g where s: "speaker B h = (t, g)" by fastforce
    then have t: "t = wave (Suc p)" "polls g = Suc (Suc p)" using wave [of h] Suc.prems(1) by simp_all
    define k' where "k' = (if wave (Suc p) \<noteq> wave p then i else k)"
    have k: "k = (if wave (Suc p) \<noteq> wave p then 1 else 0) + k'" using Suc by (simp add: k'_def)
    have "k' \<le> ticks wave (Suc p) fuel" using Suc.prems(2) k by simp
    from Suc.IH [OF t(2) this] obtain h' n where r: "count_changes B fuel k' (wave (Suc p)) g = Inr h'"
      "polls h' = Suc (Suc p) + n" "ticks wave (Suc p) n = k'" "\<forall>j < n. ticks wave (Suc p) j < k'" by blast
    have "count_changes B (Suc fuel) k (wave p) h = count_changes B fuel k' (wave (Suc p)) g"
      using Suc by (auto simp: s t k'_def)
    moreover have "ticks wave p j < k" if "j < Suc n" for j
      using that r(4) k Suc by (cases j) auto
    moreover have "ticks wave p (Suc n) = k" using r(3) k by simp
    ultimately show ?thesis using r(1,2) by (intro exI [of _ h'] exI [of _ "Suc n"]) simp
  qed
qed

text \<open>
  \<open>Pit::calibrate\<close> ends and finds the rate: if the output of the old timer, polled again and again, changes 40 times within \<open>fuel\<close> polls, the
  loop stops at the poll that shows the 40th change; if the other timer has counted \<open>elapsed\<close> ticks by then, it is set to
  the period that fits \<open>hz\<close> times into them, and not \<open>hz\<close> times when it were one tick longer; and its interrupt is handled by \<open>apitHandler\<close>.
\<close>

theorem calibrate_finds_rate:
  assumes "\<And>h. fst (speaker B h) = wave (polls h)" "\<And>h. polls (snd (speaker B h)) = Suc (polls h)"
    and "40 \<le> ticks wave (polls (pit_start B A m h)) fuel" "hz \<noteq> 0"
  defines "p \<equiv> polls (pit_start B A m h)"
  shows "\<exists>h1 n current h2. polls h1 = Suc p + n \<and> ticks wave p n = 40 \<and> (\<forall>j < n. ticks wave p j < 40) \<and>
    reg_get A (apit_current_count m) h1 = (current, h2) \<and>
    (let elapsed = 0xffffffff - current; period = elapsed div hz in
       calibrate B A m cs handler fuel hz (P, idt, h) =
         Inr (P\<lparr>apitCounter := period, jiffiesPerSecond := hz\<rparr>, gate_interrupt cs 40 handler idt, outb B 0x61 0 h2) \<and>
       unat period * unat hz \<le> unat elapsed \<and> unat elapsed < (unat period + 1) * unat hz)"
proof -
  obtain b g where s: "speaker B (pit_start B A m h) = (b, g)" by fastforce
  then have b: "b = wave p" "polls g = Suc p" using assms(1,2) [of "pit_start B A m h"] by (simp_all add: p_def)
  obtain h1 n where r: "count_changes B fuel 40 (wave p) g = Inr h1" "polls h1 = Suc p + n" "ticks wave p n = 40"
    "\<forall>j < n. ticks wave p j < 40"
    using count_changes_stops [OF assms(1,2) b(2), where k = 40 and fuel = fuel] assms(3) p_def by auto
  obtain current h2 where c: "reg_get A (apit_current_count m) h1 = (current, h2)" by fastforce
  define e where "e = 0xffffffff - current"
  have "0 < unat hz" using assms(4) by (simp add: unat_gt_0)
  then have "unat (e div hz) * unat hz \<le> unat e" "unat e < (unat (e div hz) + 1) * unat hz"
    using dividend_less_div_times [of "unat hz" "unat e"] by (simp_all add: unat_div add.commute)
  moreover have "calibrate B A m cs handler fuel hz (P, idt, h) =
      Inr (P\<lparr>apitCounter := e div hz, jiffiesPerSecond := hz\<rparr>, gate_interrupt cs 40 handler idt, outb B 0x61 0 h2)"
    using s r(1) c assms(4) by (simp add: calibrate_def b Let_def e_def APIT_vector_def)
  ultimately show ?thesis using r(2-4) c by (intro exI [of _ h1] exI [of _ n] exI [of _ current] exI [of _ h2]) (simp add: e_def Let_def)
qed

text \<open>A timer whose output changes at every poll; the other one has counted 4000000 down.\<close>

definition poll_bus :: "nat bus" where
  "poll_bus = \<lparr>inb = \<lambda>p h. (if p = 0x61 \<and> even h then 0x20 else 0, Suc h), inl = \<lambda>p h. (0, h), outb = \<lambda>p v h. h\<rparr>"

definition poll_apic :: "nat apic" where
  "poll_apic = \<lparr>reg_get = \<lambda>a h. (0xffffffff - 4000000, h), reg_set = \<lambda>a v h. h, rdmsr = \<lambda>a h. (0, h), wrmsr = \<lambda>a v h. h\<rparr>"

lemma ticks_even: "ticks even p n = n"
  by (induction n arbitrary: p) simp_all

theorem calibrate_finds_rate_witness:
  "\<exists>h'. calibrate poll_bus poll_apic (smp_registers no_config) 8 0x1000 50 1000 (pit_zero, [], 0) =
    Inr (\<lparr>jiffiesPerSecond = 1000, apitCounter = 4000, jiffies = 0\<rparr>, [], h')"
proof -
  have poll: "fst (speaker poll_bus h) = even h" "snd (speaker poll_bus h) = Suc h" for h
    by (simp_all add: speaker_def poll_bus_def)
  have many: "40 \<le> ticks even (pit_start poll_bus poll_apic (smp_registers no_config) 0) 50" by (simp add: ticks_even)
  have "gate_interrupt 8 40 0x1000 [] = []" by (simp add: gate_interrupt_def Let_def)
  moreover have "(0xffffffff - (0xffffffff - 4000000)) div 1000 = (4000 :: u32)" by simp
  ultimately show ?thesis
    using calibrate_finds_rate [of poll_bus even "\<lambda>h. h", OF poll many, where hz = 1000 and cs = 8 and handler = "0x1000" and P = pit_zero and idt = "[]"]
    by (auto simp: poll_apic_def pit_zero_def Let_def)
qed

end
