(* ===== verification/Startup.thy ===== *)
theory Startup
  imports Prelude
begin

text \<open>
  How the cores come up: \<open>kernelInit\<close> and \<open>pickKernelStack\<close> of \<open>kernel/init.cc\<close>. Core 0 boots, sets everything up and starts the others one
  after the other; each core sets itself up, and the last one to be ready starts \<open>kernelMain\<close>. A step is a part of \<open>kernelInit\<close>
  of one core between accesses to the variables that the cores share; the number of a core is the identifier of its interrupt controller.
\<close>

datatype ipc =
    Halted
  | OnTemp          \<comment> \<open>between the reset address and \<open>pickKernelStack\<close>, on \<open>tempStack\<close>\<close>
  | Entry            \<comment> \<open>at \<open>if (!smpInitDone)\<close>\<close>
  | GlobalInit       \<comment> \<open>up to \<open>smpInitDone = true\<close>\<close>
  | Calibrate       \<comment> \<open>up to \<open>running.fetch_add\<close>\<close>
  | Starting u32    \<comment> \<open>the loop that starts core \<open>id\<close>\<close>
  | Awaiting u32
  | Announce          \<comment> \<open>another core, at \<open>running.fetch_add\<close>\<close>
  | LocalInit
  | CoreInit
  | Ready
  | Ordered u32         \<comment> \<open>has \<open>myOrder\<close>\<close>
  | Stopped

record startup =
  ipcs :: "nat \<Rightarrow> ipc"
  smpInitDone :: bool
  running :: u32
  howManyAreHere :: u32
  kernel_stack :: "nat \<Rightarrow> nat option"
  mains :: nat   \<comment> \<open>how often \<open>kernelMain\<close> has been started\<close>

abbreviation igoto :: "nat \<Rightarrow> ipc \<Rightarrow> startup \<Rightarrow> startup" where
  "igoto c p s \<equiv> s\<lparr>ipcs := (ipcs s)(c := p)\<rparr>"

definition power_on :: startup where
  "power_on = \<lparr>ipcs = (\<lambda>c. if c = 0 then OnTemp else Halted), smpInitDone = False, running = 0, howManyAreHere = 0,
     kernel_stack = (\<lambda>_. None), mains = 0\<rparr>"

definition pickKernelStack :: "nat \<Rightarrow> startup \<Rightarrow> nat" where
  "pickKernelStack me s = (if smpInitDone s then me else 0)"

definition i_pick :: "nat \<Rightarrow> startup \<Rightarrow> startup" where
  "i_pick c s = igoto c Entry (s\<lparr>kernel_stack := (kernel_stack s)(c := Some (pickKernelStack c s))\<rparr>)"

definition i_entry :: "nat \<Rightarrow> startup \<Rightarrow> startup" where
  "i_entry c s = igoto c (if \<not> smpInitDone s then GlobalInit else Announce) s"

definition i_global :: "nat \<Rightarrow> startup \<Rightarrow> startup" where
  "i_global c s = igoto c Calibrate (s\<lparr>smpInitDone := True\<rparr>)"

definition i_calibrate :: "nat \<Rightarrow> startup \<Rightarrow> startup" where
  "i_calibrate c s = igoto c (Starting 1) (s\<lparr>running := running s + 1\<rparr>)"

text \<open>The two interrupts that reset the core and make it run from the reset address.\<close>

definition i_start :: "u32 \<Rightarrow> nat \<Rightarrow> u32 \<Rightarrow> startup \<Rightarrow> startup" where
  "i_start procs c k s =
     (if k < procs then igoto c (Awaiting k) (igoto (unat k) OnTemp s) else igoto c CoreInit s)"

definition i_announce :: "nat \<Rightarrow> startup \<Rightarrow> startup" where
  "i_announce c s = igoto c LocalInit (s\<lparr>running := running s + 1\<rparr>)"

definition i_arrive :: "nat \<Rightarrow> startup \<Rightarrow> startup" where
  "i_arrive c s = (let h = howManyAreHere s + 1 in igoto c (Ordered h) (s\<lparr>howManyAreHere := h\<rparr>))"

definition i_main :: "u32 \<Rightarrow> nat \<Rightarrow> u32 \<Rightarrow> startup \<Rightarrow> startup" where
  "i_main procs c myOrder s = igoto c Stopped (if myOrder = procs then s\<lparr>mains := mains s + 1\<rparr> else s)"

inductive istep :: "u32 \<Rightarrow> nat \<Rightarrow> startup \<Rightarrow> startup \<Rightarrow> bool" for procs c s where
  pick: "ipcs s c = OnTemp \<Longrightarrow> istep procs c s (i_pick c s)"
| entry: "ipcs s c = Entry \<Longrightarrow> istep procs c s (i_entry c s)"
| global: "ipcs s c = GlobalInit \<Longrightarrow> istep procs c s (i_global c s)"
| calibrate: "ipcs s c = Calibrate \<Longrightarrow> istep procs c s (i_calibrate c s)"
| start: "ipcs s c = Starting k \<Longrightarrow> istep procs c s (i_start procs c k s)"
| await: "ipcs s c = Awaiting k \<Longrightarrow> \<not> running s \<le> k \<Longrightarrow> istep procs c s (igoto c (Starting (k + 1)) s)"
| announce: "ipcs s c = Announce \<Longrightarrow> istep procs c s (i_announce c s)"
| local: "ipcs s c = LocalInit \<Longrightarrow> istep procs c s (igoto c CoreInit s)"
| core: "ipcs s c = CoreInit \<Longrightarrow> istep procs c s (igoto c Ready s)"
| arrive: "ipcs s c = Ready \<Longrightarrow> istep procs c s (i_arrive c s)"
| main: "ipcs s c = Ordered k \<Longrightarrow> istep procs c s (i_main procs c k s)"

inductive ireach :: "u32 \<Rightarrow> startup \<Rightarrow> bool" for procs where
  on: "ireach procs power_on"
| step: "ireach procs s \<Longrightarrow> istep procs c s s' \<Longrightarrow> ireach procs s'"

end
