(* ===== verification/Startup_Claims.thy ===== *)
theory Startup_Claims
  imports Startup
begin

text \<open>The cores come up one after the other, and \<open>kernelMain\<close> is started once, when all are ready.\<close>

section \<open>Where the cores are\<close>

fun late :: "ipc \<Rightarrow> bool" where
  "late LocalInit = True"
| "late CoreInit = True"
| "late Ready = True"
| "late (Ordered k) = True"
| "late Stopped = True"
| "late p = False"

fun early :: "ipc \<Rightarrow> bool" where
  "early OnTemp = True"
| "early Entry = True"
| "early Announce = True"
| "early p = False"

definition others :: "nat \<Rightarrow> nat \<Rightarrow> (nat \<Rightarrow> ipc) \<Rightarrow> bool" where
  "others up from f \<longleftrightarrow> (\<forall>c. 0 < c \<longrightarrow> c < up \<longrightarrow> late (f c)) \<and> (\<forall>c. from \<le> c \<longrightarrow> 0 < c \<longrightarrow> f c = Halted)"

fun first_ok :: "u32 \<Rightarrow> bool \<Rightarrow> u32 \<Rightarrow> (nat \<Rightarrow> ipc) \<Rightarrow> ipc \<Rightarrow> bool" where
  "first_ok procs d r f OnTemp = (\<not> d \<and> r = 0 \<and> others 0 0 f)"
| "first_ok procs d r f Entry = (\<not> d \<and> r = 0 \<and> others 0 0 f)"
| "first_ok procs d r f GlobalInit = (\<not> d \<and> r = 0 \<and> others 0 0 f)"
| "first_ok procs d r f Calibrate = (d \<and> r = 0 \<and> others 0 0 f)"
| "first_ok procs d r f (Starting k) = (d \<and> r = k \<and> 0 < k \<and> k \<le> procs \<and> others (unat k) (unat k) f)"
| "first_ok procs d r f (Awaiting k) = (d \<and> 0 < k \<and> k < procs \<and> others (unat k) (Suc (unat k)) f \<and>
     (r = k \<and> early (f (unat k)) \<or> r = k + 1 \<and> late (f (unat k))))"
| "first_ok procs d r f Halted = False"
| "first_ok procs d r f Announce = False"
| "first_ok procs d r f p = (d \<and> r = procs \<and> others (unat procs) (unat procs) f)"

definition boot_ok :: "u32 \<Rightarrow> startup \<Rightarrow> bool" where
  "boot_ok procs s \<longleftrightarrow> first_ok procs (smpInitDone s) (running s) (ipcs s) (ipcs s 0)"

lemma others_first: "others a b (f(0 := p)) = others a b f"
  by (auto simp: others_def)

lemma others_late: "others a b f \<Longrightarrow> c \<noteq> 0 \<Longrightarrow> late (f c) \<Longrightarrow> late p \<Longrightarrow> others a b (f(c := p))"
  by (auto simp: others_def)

lemma first_ok_0: "first_ok procs d r (f(0 := p)) q = first_ok procs d r f q"
  by (cases q) (auto simp: others_first unat_eq_0)

lemma others_kind: "others a a f \<Longrightarrow> c \<noteq> 0 \<Longrightarrow> f c = Halted \<or> late (f c)"
  by (cases "c < a") (auto simp: others_def)

lemma early_late: "early p \<Longrightarrow> \<not> late p" "early p \<Longrightarrow> p \<noteq> Halted"
  by (cases p; simp)+

lemma other_kind:
  assumes "first_ok procs d r f q" "c \<noteq> 0"
  shows "f c = Halted \<or> late (f c) \<or> early (f c) \<and> q = Awaiting r \<and> c = unat r \<and> d"
proof (cases q)
  case (Awaiting k)
  consider "c < unat k" | "c = unat k" | "Suc (unat k) \<le> c" by linarith
  then show ?thesis using assms Awaiting by cases (auto simp: others_def)
qed (use assms others_kind in auto)

lemma first_late:
  assumes "first_ok procs d r f q" "c \<noteq> 0" "late (f c)" "late p"
  shows "first_ok procs d r (f(c := p)) q"
  using assms early_late(1) [of "f c"] by (cases q) (auto simp: others_late)

lemma first_early:
  assumes "first_ok procs d r f q" "c \<noteq> 0" "early (f c)"
  shows "early p \<Longrightarrow> first_ok procs d r (f(c := p)) q" "late p \<Longrightarrow> first_ok procs d (r + 1) (f(c := p)) q"
proof -
  have q: "q = Awaiting r" "c = unat r" "d" using other_kind [OF assms(1,2)] assms(3) early_late [of "f c"] by auto
  have "others (unat r) (Suc (unat r)) (f(c := p))" using assms(1) q by (auto simp: others_def)
  moreover have "0 < r" "r < procs" using assms(1) q by simp_all
  ultimately show "early p \<Longrightarrow> first_ok procs d r (f(c := p)) q" "late p \<Longrightarrow> first_ok procs d (r + 1) (f(c := p)) q"
    using q by simp_all
qed

lemma first_kind: "first_ok procs d r f q \<Longrightarrow> q \<noteq> Halted \<and> q \<noteq> Announce"
  by (cases q) simp_all

lemma first_done: "late q \<Longrightarrow> late p \<Longrightarrow> first_ok procs d r f p = first_ok procs d r f q"
  by (cases q; cases p) simp_all

lemma boot_ok_step:
  assumes ok: "boot_ok procs s" and st: "istep procs c s s'" and some: "0 < procs"
  shows "boot_ok procs s'"
proof (cases "c = 0")
  case False
  have kind: "late (ipcs s c) \<or> early (ipcs s c) \<or> ipcs s c = Halted" and d: "early (ipcs s c) \<Longrightarrow> smpInitDone s"
    using other_kind [OF ok [unfolded boot_ok_def] False] early_late by auto
  note l = first_late [OF ok [unfolded boot_ok_def] False] and e = first_early [OF ok [unfolded boot_ok_def] False]
  from st show ?thesis
  proof cases
    case entry
    then show ?thesis using d e(1) False by (simp add: boot_ok_def i_entry_def)
  next
    case (arrive)
    then show ?thesis using l False by (simp add: boot_ok_def i_arrive_def Let_def)
  next
    case (main k)
    then show ?thesis using l False by (simp add: boot_ok_def i_main_def)
  qed (use kind l e False in \<open>simp_all add: boot_ok_def i_pick_def i_global_def i_calibrate_def i_start_def i_announce_def\<close>)
next
  case True
  note ok' = ok [unfolded boot_ok_def] and first_ok_0 [simp] and others_first [simp]
  from st show ?thesis
  proof cases
    case pick
    then show ?thesis using ok' True by (simp add: boot_ok_def i_pick_def)
  next
    case entry
    then show ?thesis using ok' True by (simp add: boot_ok_def i_entry_def)
  next
    case global
    then show ?thesis using ok' True by (simp add: boot_ok_def i_global_def)
  next
    case calibrate
    have "(1 :: u32) \<le> procs" using some by (simp add: word_le_nat_alt word_gt_0 unat_gt_0 Suc_le_eq)
    then show ?thesis using ok' True calibrate by (auto simp: boot_ok_def i_calibrate_def others_def)
  next
    case (start k)
    note k = ok' [unfolded start(2) [unfolded True], simplified]
    show ?thesis
    proof (cases "k < procs")
      case less: True
      have "unat k \<noteq> 0" using k by (simp add: word_gt_0 unat_eq_0)
      moreover have "others (unat k) (Suc (unat k)) ((ipcs s)(unat k := OnTemp))" using k by (auto simp: others_def)
      ultimately show ?thesis using k less start True by (simp add: boot_ok_def i_start_def)
    next
      case False
      then have "k = procs" using k by simp
      then show ?thesis using k start True by (simp add: boot_ok_def i_start_def)
    qed
  next
    case (await k)
    note k = ok' [unfolded await(2) [unfolded True], simplified]
    have r: "running s = k + 1" "late (ipcs s (unat k))" using k await by auto
    have "unat (k + 1) = unat k + 1" using k unsigned_less [of procs, where 'a = nat]
      by (simp add: unat_plus_if' word_less_nat_alt)
    moreover from this have "k + 1 \<le> procs" "0 < k + 1" using k by (simp_all add: word_less_nat_alt word_le_nat_alt)
    moreover have "others (Suc (unat k)) (Suc (unat k)) (ipcs s)" using k r(2) by (auto simp: others_def less_Suc_eq)
    ultimately show ?thesis using k r await True by (simp add: boot_ok_def)
  next
    case announce
    then show ?thesis using ok' True by simp
  next
    case local
    then show ?thesis using ok' True by (simp add: boot_ok_def)
  next
    case core
    then show ?thesis using ok' True by (simp add: boot_ok_def)
  next
    case arrive
    then show ?thesis using ok' True by (simp add: boot_ok_def i_arrive_def Let_def)
  next
    case (main k)
    then show ?thesis using ok' True by (simp add: boot_ok_def i_main_def)
  qed
qed

section \<open>Who is the last\<close>

fun here :: "ipc \<Rightarrow> bool" where
  "here (Ordered k) = True"
| "here Stopped = True"
| "here p = False"

definition count_ok :: "u32 \<Rightarrow> u32 \<Rightarrow> nat \<Rightarrow> (nat \<Rightarrow> ipc) \<Rightarrow> bool" where
  "count_ok procs h m f \<longleftrightarrow> finite {c. here (f c)} \<and> card {c. here (f c)} = unat h \<and> (\<forall>c k. f c = Ordered k \<longrightarrow> k \<le> h) \<and>
     (\<forall>c d k. f c = Ordered k \<longrightarrow> f d = Ordered k \<longrightarrow> c = d) \<and>
     m = (if h = procs \<and> (\<forall>c. f c \<noteq> Ordered procs) then 1 else 0)"

lemma below: "others a b f \<Longrightarrow> c \<noteq> 0 \<Longrightarrow> f c \<noteq> Halted \<Longrightarrow> c < b"
  by (rule ccontr) (simp add: others_def)

lemma late_bound:
  assumes "first_ok procs d r f q" "c \<noteq> 0" "late (f c)"
  shows "c < unat procs"
proof -
  have h: "f c \<noteq> Halted" using assms(3) by auto
  note b = below [where f = f and c = c, OF _ assms(2) h]
  show ?thesis
  proof (cases q)
    case (Starting k)
    then have "c < unat k" "k \<le> procs" using assms(1) b by auto
    then show ?thesis by (simp add: word_le_nat_alt)
  next
    case (Awaiting k)
    then have "c < Suc (unat k)" "k < procs" using assms(1) b by auto
    then show ?thesis by (simp add: word_less_nat_alt)
  qed (use assms(1) b in force)+
qed

lemma here_late: "here p \<Longrightarrow> late p"
  by (cases p) simp_all

lemma here_inside:
  assumes "boot_ok procs s" "0 < procs"
  shows "{c. here (ipcs s c)} \<subseteq> {..<unat procs}"
proof
  fix c
  assume "c \<in> {c. here (ipcs s c)}"
  then show "c \<in> {..<unat procs}"
    using late_bound [OF assms(1) [unfolded boot_ok_def], of c] here_late assms(2)
    by (cases "c = 0") (auto simp: word_gt_0 unat_gt_0)
qed

lemma count_same:
  assumes "count_ok procs h m f" "\<And>c. here (f' c) = here (f c)" "\<And>c k. f' c = Ordered k \<longleftrightarrow> f c = Ordered k"
  shows "count_ok procs h m f'"
  using assms by (simp add: count_ok_def)

lemma count_goto: "count_ok procs h m f \<Longrightarrow> \<not> here (f c) \<Longrightarrow> \<not> here p \<Longrightarrow> count_ok procs h m (f(c := p))"
  by (erule count_same) (auto split: if_splits)

lemma count_okD:
  assumes "count_ok procs h m f"
  shows "finite {c. here (f c)}" "card {c. here (f c)} = unat h" "f c = Ordered k \<Longrightarrow> k \<le> h"
    "f c = Ordered k \<Longrightarrow> f d = Ordered k \<Longrightarrow> c = d" "m = (if h = procs \<and> (\<forall>c. f c \<noteq> Ordered procs) then 1 else 0)"
  using assms by (simp_all add: count_ok_def)

lemma count_arrive:
  assumes ok: "count_ok procs h m f" and inside: "{c. here (f c)} \<subseteq> {..<unat procs}" and c: "\<not> here (f c)" "c < unat procs"
  shows "count_ok procs (h + 1) m (f(c := Ordered (h + 1)))"
proof -
  note d = count_okD [OF ok]
  have "insert c {c. here (f c)} \<subseteq> {..<unat procs}" using inside c(2) by simp
  then have "card (insert c {c. here (f c)}) \<le> unat procs" using card_mono [of "{..<unat procs}"] by simp
  then have less: "unat h < unat procs" using d(1,2) c(1) by simp
  then have h: "unat (h + 1) = unat h + 1" using unsigned_less [of procs, where 'a = nat] by (simp add: unat_plus_if')
  then have up: "k \<le> h + 1" "k \<noteq> h + 1" if "k \<le> h" for k using that by (auto simp: word_le_nat_alt)
  have fresh: "f e \<noteq> Ordered (h + 1)" for e using d(3) up(2) by blast
  have set: "{e. here ((f(c := Ordered (h + 1))) e)} = insert c {e. here (f e)}" by auto
  have "h \<noteq> procs" using less by auto
  then have m: "m = 0" using d(5) by simp
  show ?thesis unfolding count_ok_def
  proof (intro conjI allI impI)
    show "finite {e. here ((f(c := Ordered (h + 1))) e)}" "card {e. here ((f(c := Ordered (h + 1))) e)} = unat (h + 1)"
      unfolding set using d(1,2) c(1) h by simp_all
    show "k \<le> h + 1" if "(f(c := Ordered (h + 1))) e = Ordered k" for e k
      using that d(3) [of e k] up(1) by (cases "e = c") simp_all
    show "e = e'" if "(f(c := Ordered (h + 1))) e = Ordered k" "(f(c := Ordered (h + 1))) e' = Ordered k" for e e' k
      using that fresh d(4) [of e k e'] by (cases "e = c"; cases "e' = c") auto
    show "m = (if h + 1 = procs \<and> (\<forall>e. (f(c := Ordered (h + 1))) e \<noteq> Ordered procs) then 1 else 0)"
      using m by auto
  qed
qed

lemma count_main:
  assumes ok: "count_ok procs h m f" and le: "h \<le> procs" and c: "f c = Ordered k"
  shows "count_ok procs h (if k = procs then m + 1 else m) (f(c := Stopped))"
proof -
  note d = count_okD [OF ok]
  have set: "{e. here ((f(c := Stopped)) e)} = {e. here (f e)}" using c by auto
  show ?thesis unfolding count_ok_def
  proof (intro conjI allI impI)
    show "finite {e. here ((f(c := Stopped)) e)}" "card {e. here ((f(c := Stopped)) e)} = unat h"
      unfolding set using d(1,2) by simp_all
    show "j \<le> h" if "(f(c := Stopped)) e = Ordered j" for e j
      using that d(3) [of e j] by (cases "e = c") simp_all
    show "e = e'" if "(f(c := Stopped)) e = Ordered j" "(f(c := Stopped)) e' = Ordered j" for e e' j
      using that d(4) [of e j e'] by (cases "e = c"; cases "e' = c") auto
    show "(if k = procs then m + 1 else m) = (if h = procs \<and> (\<forall>e. (f(c := Stopped)) e \<noteq> Ordered procs) then 1 else 0)"
    proof (cases "k = procs")
      case True
      then have "h = procs" using d(3) [OF c] le by simp
      moreover have "f e \<noteq> Ordered procs" if "e \<noteq> c" for e using d(4) [of c procs e] c True that by auto
      moreover have "m = 0" using d(5) c True by auto
      ultimately show ?thesis using True by auto
    next
      case False
      then have "(f(c := Stopped)) e = Ordered procs \<longleftrightarrow> f e = Ordered procs" for e using c by (cases "e = c") auto
      then show ?thesis using d(5) False by simp
    qed
  qed
qed

section \<open>All of it\<close>

definition stacks_ok :: "startup \<Rightarrow> bool" where
  "stacks_ok s \<longleftrightarrow> (\<forall>c k. kernel_stack s c = Some k \<longrightarrow> k = c)"

definition startup_ok :: "u32 \<Rightarrow> startup \<Rightarrow> bool" where
  "startup_ok procs s \<longleftrightarrow> boot_ok procs s \<and> stacks_ok s \<and> count_ok procs (howManyAreHere s) (mains s) (ipcs s)"

lemma stacks_ok_step:
  assumes "boot_ok procs s" "stacks_ok s" "istep procs c s s'"
  shows "stacks_ok s'"
proof -
  have "pickKernelStack c s = c" if "ipcs s c = OnTemp"
    using other_kind [OF assms(1) [unfolded boot_ok_def], of c] assms(1) that
    by (cases "c = 0") (auto simp: boot_ok_def pickKernelStack_def)
  with assms(3,2) show ?thesis
    by cases (auto simp: stacks_ok_def i_pick_def i_entry_def i_global_def i_calibrate_def i_start_def i_announce_def i_arrive_def
        i_main_def Let_def split: if_splits)
qed

lemma here_le:
  assumes "boot_ok procs s" "0 < procs" "count_ok procs h m (ipcs s)"
  shows "h \<le> procs"
  using card_mono [OF _ here_inside [OF assms(1,2)]] count_okD(2) [OF assms(3)] by (simp add: word_le_nat_alt)

lemma running_inside:
  assumes "boot_ok procs s" "0 < procs" "late (ipcs s c)"
  shows "c < unat procs"
  using late_bound [OF assms(1) [unfolded boot_ok_def], of c] assms(2,3) by (cases "c = 0") (auto simp: word_gt_0 unat_gt_0)

lemma startup_ok_step:
  assumes ok: "startup_ok procs s" and st: "istep procs c s s'" and some: "0 < procs"
  shows "startup_ok procs s'"
proof -
  have b: "boot_ok procs s" and k: "stacks_ok s" and n: "count_ok procs (howManyAreHere s) (mains s) (ipcs s)"
    using ok by (simp_all add: startup_ok_def)
  note g = count_goto [OF n]
  have "count_ok procs (howManyAreHere s') (mains s') (ipcs s')"
    using st
  proof cases
    case (start i)
    have "\<not> here (ipcs s (unat i))" if "i < procs"
    proof -
      have "c = 0" using other_kind [OF b [unfolded boot_ok_def], of c] start by auto
      then have "0 < i" "others (unat i) (unat i) (ipcs s)" using b start by (simp_all add: boot_ok_def)
      then have "ipcs s (unat i) = Halted" by (simp add: others_def word_gt_0 unat_gt_0)
      then show ?thesis by simp
    qed
    then have "i < procs \<Longrightarrow> count_ok procs (howManyAreHere s) (mains s) ((ipcs s)(unat i := OnTemp, c := Awaiting i))"
      using start by (intro count_goto g) auto
    then show ?thesis using start g by (simp add: i_start_def)
  next
    case arrive
    have "c < unat procs" using running_inside [OF b some, of c] arrive by simp
    then show ?thesis using count_arrive [OF n here_inside [OF b some], of c] arrive by (simp add: i_arrive_def Let_def)
  next
    case (main i)
    then show ?thesis using count_main [OF n here_le [OF b some n], of c i] by (simp add: i_main_def split: if_splits)
  qed (use g in \<open>simp_all add: i_pick_def i_entry_def i_global_def i_calibrate_def i_announce_def\<close>)
  then show ?thesis using boot_ok_step [OF b st some] stacks_ok_step [OF b k st] by (simp add: startup_ok_def)
qed

lemma ireach_ok: "ireach procs s \<Longrightarrow> 0 < procs \<Longrightarrow> startup_ok procs s"
proof (induction rule: ireach.induct)
  case on
  then show ?case by (auto simp: startup_ok_def boot_ok_def stacks_ok_def count_ok_def power_on_def others_def)
next
  case (step s c s')
  then show ?case using startup_ok_step by blast
qed

text \<open>The steps that are still to be made.\<close>

fun rank :: "nat \<Rightarrow> ipc \<Rightarrow> nat" where
  "rank n Stopped = 0"
| "rank n (Ordered k) = 1"
| "rank n Ready = 2"
| "rank n CoreInit = 3"
| "rank n LocalInit = 4"
| "rank n Announce = 5"
| "rank n (Starting k) = 4 + 2 * (n - unat k)"
| "rank n (Awaiting k) = 3 + 2 * (n - unat k)"
| "rank n Calibrate = 5 + 2 * n"
| "rank n GlobalInit = 6 + 2 * n"
| "rank n Entry = 7 + 2 * n"
| "rank n OnTemp = 8 + 2 * n"
| "rank n Halted = 9 + 2 * n"

definition work :: "u32 \<Rightarrow> startup \<Rightarrow> nat" where
  "work procs s = (\<Sum>c < unat procs. rank (unat procs) (ipcs s c))"

lemma active_inside:
  assumes "boot_ok procs s" "0 < procs" "ipcs s c \<noteq> Halted"
  shows "c < unat procs"
proof (cases "c = 0")
  case True
  then show ?thesis using assms(2) by (simp add: word_gt_0 unat_gt_0)
next
  case False
  note k = other_kind [OF assms(1) [unfolded boot_ok_def] False]
  show ?thesis
  proof (cases "late (ipcs s c)")
    case True
    then show ?thesis using running_inside [OF assms(1,2)] by blast
  next
    case False
    then have "ipcs s 0 = Awaiting (running s)" "c = unat (running s)" using k assms(3) by auto
    moreover from this have "running s < procs" using assms(1) by (simp add: boot_ok_def)
    ultimately show ?thesis by (simp add: word_less_nat_alt)
  qed
qed

lemma rank_max: "rank n p \<le> 9 + 2 * n"
  by (cases p) simp_all

lemma work_less:
  assumes "c < unat procs" "rank (unat procs) (ipcs s' c) < rank (unat procs) (ipcs s c)"
    and "\<And>d. d \<noteq> c \<Longrightarrow> rank (unat procs) (ipcs s' d) \<le> rank (unat procs) (ipcs s d)"
  shows "work procs s' < work procs s"
  unfolding work_def
proof (rule sum_strict_mono_ex1)
  show "\<forall>d \<in> {..<unat procs}. rank (unat procs) (ipcs s' d) \<le> rank (unat procs) (ipcs s d)"
    using assms(2,3) by (metis less_imp_le)
qed (use assms(1,2) in auto)

lemma istep_work:
  assumes "boot_ok procs s" "0 < procs" "istep procs c s s'"
  shows "work procs s' < work procs s"
proof (rule work_less [of c])
  have "ipcs s c \<noteq> Halted" using assms(3) by cases auto
  then show "c < unat procs" by (rule active_inside [OF assms(1,2)])
  have zero: "c = 0" if "ipcs s c = Starting k \<or> ipcs s c = Awaiting k" for k
    using other_kind [OF assms(1) [unfolded boot_ok_def], of c] that by (cases "c = 0") auto
  show "rank (unat procs) (ipcs s' c) < rank (unat procs) (ipcs s c)"
    using assms(3)
  proof cases
    case (await k)
    then have "k < procs" using assms(1) zero [of k] by (simp add: boot_ok_def)
    then have "unat (k + 1) = unat k + 1" "unat k < unat procs" using unsigned_less [of procs, where 'a = nat]
      by (simp_all add: unat_plus_if' word_less_nat_alt)
    then show ?thesis using await by simp
  qed (simp_all add: i_pick_def i_entry_def i_global_def i_calibrate_def i_start_def i_announce_def i_arrive_def i_main_def Let_def)
  show "rank (unat procs) (ipcs s' d) \<le> rank (unat procs) (ipcs s d)" if "d \<noteq> c" for d
    using assms(3)
  proof cases
    case (start k)
    then have "k < procs \<Longrightarrow> ipcs s (unat k) = Halted" using assms(1) zero [of k]
      by (simp add: boot_ok_def others_def word_gt_0 unat_gt_0)
    then show ?thesis using start that by (simp add: i_start_def)
  qed (use that in \<open>simp_all add: i_pick_def i_entry_def i_global_def i_calibrate_def i_announce_def i_arrive_def i_main_def Let_def\<close>)
qed

text \<open>
  C19. \<open>kernelMain\<close> is started at most once, by the last of the \<open>procs\<close> cores to count itself, when every core has set itself up. On the way two cores
  never run on the temporary stack at the same time, and the kernel stacks that they pick differ.
\<close>

theorem kernelMain_once:
  assumes "ireach procs s" "0 < procs"
  shows "mains s \<le> 1 \<and> (mains s = 1 \<longrightarrow> (\<forall>c < unat procs. here (ipcs s c))) \<and>
    (\<forall>c d. ipcs s c = OnTemp \<longrightarrow> ipcs s d = OnTemp \<longrightarrow> c = d) \<and>
    (\<forall>c d k. kernel_stack s c = Some k \<longrightarrow> kernel_stack s d = Some k \<longrightarrow> c = d)"
proof -
  have b: "boot_ok procs s" and k: "stacks_ok s" and n: "count_ok procs (howManyAreHere s) (mains s) (ipcs s)"
    using ireach_ok [OF assms] by (simp_all add: startup_ok_def)
  note m = count_okD(5) [OF n]
  have "here (ipcs s c)" if "mains s = 1" "c < unat procs" for c
  proof -
    have "howManyAreHere s = procs"
    proof (rule ccontr)
      assume "howManyAreHere s \<noteq> procs"
      then have "mains s = 0" using m by (simp only: simp_thms if_False)
      then show False using that(1) by simp
    qed
    then have "card {c. here (ipcs s c)} = card {..<unat procs}" using count_okD(2) [OF n] by simp
    then have "{c. here (ipcs s c)} = {..<unat procs}" by (intro card_subset_eq here_inside [OF b assms(2)]) simp_all
    then show ?thesis using that(2) by blast
  qed
  moreover have "c = d" if c: "ipcs s c = OnTemp" "ipcs s d = OnTemp" for c d
  proof -
    have "e = 0 \<and> ipcs s 0 = OnTemp \<or> e = unat (running s) \<and> ipcs s 0 = Awaiting (running s)" if "ipcs s e = OnTemp" for e
      using other_kind [OF b [unfolded boot_ok_def], of e] that by (cases "e = 0") auto
    from this [OF c(1)] this [OF c(2)] show ?thesis by auto
  qed
  moreover have "c = d" if "kernel_stack s c = Some i" "kernel_stack s d = Some i" for c d i
  proof -
    have "i = c" "i = d" using k that unfolding stacks_ok_def by blast+
    then show ?thesis by simp
  qed
  moreover have "mains s \<le> 1" unfolding m by simp
  ultimately show ?thesis by blast
qed

text \<open>A machine with one core, to the end.\<close>

definition one_core_up :: startup where
  "one_core_up = i_main 1 0 1 (i_arrive 0 (igoto 0 Ready (i_start 1 0 1 (i_calibrate 0 (i_global 0 (i_entry 0 (i_pick 0 power_on)))))))"

lemmas start_steps = i_pick_def i_entry_def i_global_def i_calibrate_def i_start_def i_arrive_def i_main_def Let_def power_on_def

lemma reach_one_core: "ireach 1 one_core_up"
proof -
  note next_step = ireach.step [where c = 0]
  have "ireach 1 (i_pick 0 power_on)" by (rule next_step [OF ireach.on istep.pick]) (simp add: power_on_def)
  from next_step [OF this istep.entry] have "ireach 1 (i_entry 0 (i_pick 0 power_on))" by (simp add: i_pick_def)
  from next_step [OF this istep.global] have "ireach 1 (i_global 0 (i_entry 0 (i_pick 0 power_on)))"
    by (simp add: start_steps)
  from next_step [OF this istep.calibrate]
  have "ireach 1 (i_calibrate 0 (i_global 0 (i_entry 0 (i_pick 0 power_on))))" by (simp add: i_global_def)
  from next_step [OF this istep.start, of 1]
  have "ireach 1 (i_start 1 0 1 (i_calibrate 0 (i_global 0 (i_entry 0 (i_pick 0 power_on)))))" by (simp add: i_calibrate_def)
  from next_step [OF this istep.core]
  have "ireach 1 (igoto 0 Ready (i_start 1 0 1 (i_calibrate 0 (i_global 0 (i_entry 0 (i_pick 0 power_on))))))" by (simp add: i_start_def)
  from next_step [OF this istep.arrive]
  have "ireach 1 (i_arrive 0 (igoto 0 Ready (i_start 1 0 1 (i_calibrate 0 (i_global 0 (i_entry 0 (i_pick 0 power_on)))))))" by simp
  from next_step [OF this istep.main, of 1] show ?thesis unfolding one_core_up_def by (simp add: start_steps)
qed

theorem kernelMain_once_witness: "mains one_core_up = 1 \<and> here (ipcs one_core_up 0)"
proof -
  have "mains one_core_up = 1" by (simp add: one_core_up_def start_steps)
  then show ?thesis using kernelMain_once [OF reach_one_core] by simp
qed

text \<open>
  C20. The start comes to an end: every step leaves less to do, and when no core can make a step, all of them have stopped and \<open>kernelMain\<close> has been
  started. In particular no core waits for ever for the one that it has started.
\<close>

theorem startup_completes:
  assumes "ireach procs s" "0 < procs"
  shows "(\<forall>c s'. istep procs c s s' \<longrightarrow> work procs s' < work procs s) \<and>
    ((\<forall>c s'. \<not> istep procs c s s') \<longrightarrow> (\<forall>c < unat procs. ipcs s c = Stopped) \<and> mains s = 1)"
proof -
  have b: "boot_ok procs s" and n: "count_ok procs (howManyAreHere s) (mains s) (ipcs s)"
    using ireach_ok [OF assms] by (simp_all add: startup_ok_def)
  have "(\<forall>c < unat procs. ipcs s c = Stopped) \<and> mains s = 1" if stuck: "\<And>c s'. \<not> istep procs c s s'"
  proof -
    have kinds: "ipcs s c \<in> {Halted, Stopped} \<or> (\<exists>k. ipcs s c = Awaiting k \<and> running s \<le> k)" for c
      using stuck [of c] by (cases "ipcs s c") (auto intro: istep.intros)
    have zero: "ipcs s 0 = Stopped"
    proof (rule ccontr)
      assume "ipcs s 0 \<noteq> Stopped"
      then obtain k where k: "ipcs s 0 = Awaiting k" "running s \<le> k"
        using kinds [of 0] first_kind [OF b [unfolded boot_ok_def]] by auto
      then have "k < procs" "running s = k \<and> early (ipcs s (unat k)) \<or> running s = k + 1" using b by (auto simp: boot_ok_def)
      moreover from this have "unat (k + 1) = unat k + 1" using unsigned_less [of procs, where 'a = nat]
        by (simp add: unat_plus_if' word_less_nat_alt)
      ultimately have "early (ipcs s (unat k))" using k(2) by (auto simp: word_le_nat_alt)
      then show False using kinds [of "unat k"] by auto
    qed
    have all: "ipcs s c = Stopped" if "c < unat procs" for c
    proof (cases "c = 0")
      case False
      then have "late (ipcs s c)" using b zero that by (simp add: boot_ok_def others_def)
      then show ?thesis using kinds [of c] by auto
    qed (use zero in simp)
    then have "{c. here (ipcs s c)} = {..<unat procs}" using here_inside [OF b assms(2)] by fastforce
    then have "howManyAreHere s = procs" using count_okD(2) [OF n] by (simp add: word_unat_eq_iff)
    moreover have "ipcs s c \<noteq> Ordered procs" for c using kinds [of c] by auto
    ultimately show ?thesis using count_okD(5) [OF n] all by simp
  qed
  then show ?thesis using istep_work [OF b assms(2)] by blast
qed

theorem startup_completes_witness: "work 2 (i_pick 0 power_on) < work 2 power_on"
proof -
  have "istep 2 0 power_on (i_pick 0 power_on)" by (rule istep.pick) (simp add: power_on_def)
  then show ?thesis using startup_completes [OF ireach.on, of 2] by simp
qed

end
