(* ===== verification/Process.thy ===== *)
theory Process
  imports Memory
begin

text \<open>
  Processes and their descriptors: \<open>kernel/descriptor.h\<close>, \<open>descriptor.cc\<close>, \<open>process.h\<close>, \<open>process.cc\<close>, \<open>pcb.h\<close>
  and the descriptor classes of \<open>sys.cc\<close>. Descriptor objects are shared by processes after a fork, so a table holds
  references into a store; object 0 of each kind is the empty one. An address space is a function from addresses to
  bytes (\<open>VMM\<close> is about how it is built); its pages never run out here.
\<close>

section \<open>Descriptors\<close>

definition TYPE_MASK :: u32 where "TYPE_MASK = 0xf0000000"
definition NUM_MASK :: u32 where "NUM_MASK = 0x0fffffff"
definition TYPE_FD :: u32 where "TYPE_FD = 0x00000000"
definition TYPE_PD :: u32 where "TYPE_PD = 0x10000000"
definition TYPE_SD :: u32 where "TYPE_SD = 0x20000000"

definition FDT_SIZE :: u32 where "FDT_SIZE = 10"
definition PDT_SIZE :: u32 where "PDT_SIZE = 10"
definition SDT_SIZE :: u32 where "SDT_SIZE = 10"

type_synonym ref = nat

text \<open>\<open>get_##n1\<close> and \<open>set_##n1\<close> of the macro \<open>GEN\<close>; \<open>fun\<close> makes the new object.\<close>

definition get_desc :: "u32 \<Rightarrow> u32 \<Rightarrow> ref list \<Rightarrow> u32 \<Rightarrow> ref" where
  "get_desc ty n tbl des =
     (if des AND TYPE_MASK \<noteq> ty then 0
      else let index = des AND NUM_MASK in
        if n \<le> index then 0 else tbl ! unat index)"

fun set_desc_from :: "nat \<Rightarrow> nat \<Rightarrow> ref list \<Rightarrow> nat option" where
  "set_desc_from i 0 tbl = None"
| "set_desc_from i (Suc n) tbl = (if tbl ! i = 0 then Some i else set_desc_from (Suc i) n tbl)"

definition set_desc :: "u32 \<Rightarrow> u32 \<Rightarrow> ('s \<Rightarrow> (ref \<times> 's) res) \<Rightarrow> ref list \<Rightarrow> 's \<Rightarrow> ((int \<times> ref list) \<times> 's) res" where
  "set_desc ty n mk tbl s =
     (case set_desc_from 0 (unat n) tbl of
        None \<Rightarrow> Inr ((- 1, tbl), s)
      | Some i \<Rightarrow> bindE (mk s) (\<lambda>(r, s). Inr ((sint (of_nat i OR ty), tbl[i := r]), s)))"

definition close_desc :: "u32 \<Rightarrow> ref list \<Rightarrow> u32 \<Rightarrow> int \<times> ref list" where
  "close_desc n tbl index =
     (if n \<le> index \<or> tbl ! unat index = 0 then (- 1, tbl) else (0, tbl[unat index := 0]))"

section \<open>Objects\<close>

datatype fd = EmptyFD | StdIn | StdOut | StdErr | FileFD node u32

datatype pd = EmptyPD | ProcessPD nat    \<comment> \<open>the future of the exit status\<close>

datatype sd = EmptySD | SemaphoreSD u64

record process =
  exit_status :: nat
  cd :: node
  fdt :: "ref list"
  pdt :: "ref list"
  sdt :: "ref list"
  space :: "u32 \<Rightarrow> u8"

record 'd system =
  fds :: "fd list"
  pds :: "pd list"
  sds :: "sd list"
  futures :: "int option list"
  console :: "u8 list"
  ready :: "(process \<times> u32 \<times> u32) list"    \<comment> \<open>new threads, and where \<open>switchToUser\<close> takes them\<close>
  disk :: 'd

text \<open>A new object, and the reference to it.\<close>

definition new_fd :: "fd \<Rightarrow> 'd system \<Rightarrow> ref \<times> 'd system" where
  "new_fd x S = (length (fds S), S\<lparr>fds := fds S @ [x]\<rparr>)"

definition new_pd :: "pd \<Rightarrow> 'd system \<Rightarrow> ref \<times> 'd system" where
  "new_pd x S = (length (pds S), S\<lparr>pds := pds S @ [x]\<rparr>)"

definition new_sd :: "sd \<Rightarrow> 'd system \<Rightarrow> ref \<times> 'd system" where
  "new_sd x S = (length (sds S), S\<lparr>sds := sds S @ [x]\<rparr>)"

definition new_future :: "'d system \<Rightarrow> nat \<times> 'd system" where
  "new_future S = (length (futures S), S\<lparr>futures := futures S @ [None]\<rparr>)"

text \<open>\<open>Future::set\<close>; \<open>get\<close> waits until it is set.\<close>

definition set_future :: "nat \<Rightarrow> int \<Rightarrow> 'd system \<Rightarrow> 'd system" where
  "set_future f v S = S\<lparr>futures := (futures S)[f := Some v]\<rparr>"

definition empty_system :: "'d \<Rightarrow> 'd system" where
  "empty_system d = \<lparr>fds = [EmptyFD], pds = [EmptyPD], sds = [EmptySD], futures = [], console = [], ready = [], disk = d\<rparr>"

section \<open>Operations of descriptors\<close>

text \<open>An operation that waits for another process.\<close>

datatype 'a answer = Returns 'a | Blocks

definition std_write :: "u8 list \<Rightarrow> 'd system \<Rightarrow> int \<times> 'd system" where
  "std_write buffer S = (int (length buffer), fold (\<lambda>c S. S\<lparr>console := console S @ [c]\<rparr>) buffer S)"

definition fd_write :: "ref \<Rightarrow> u8 list \<Rightarrow> 'd system \<Rightarrow> int \<times> 'd system" where
  "fd_write r buffer S =
     (case fds S ! r of StdOut \<Rightarrow> std_write buffer S | StdErr \<Rightarrow> std_write buffer S | _ \<Rightarrow> (- 1, S))"

definition fd_len :: "ref \<Rightarrow> 'd system \<Rightarrow> int" where
  "fd_len r S = (case fds S ! r of FileFD nd offset \<Rightarrow> sint (nsize nd) | _ \<Rightarrow> - 1)"

text \<open>The bytes that go into the buffer are returned too.\<close>

definition fd_read :: "u32 \<Rightarrow> 'd device \<Rightarrow> (nat \<Rightarrow> u8 list) \<Rightarrow> ref \<Rightarrow> u32 \<Rightarrow> 'd system \<Rightarrow> ((int \<times> u8 list) \<times> 'd system) res" where
  "fd_read bs D fresh r n S =
     (case fds S ! r of
        FileFD nd offset \<Rightarrow>
          if nsize nd < offset then Inr ((- 1, []), S)
          else bindE (read_all (node_device bs D fresh nd) offset n (nd, disk S)) (\<lambda>((cnt, bytes), (nd, d)).
               Inr ((cnt, bytes), S\<lparr>disk := d, fds := (fds S)[r := FileFD nd (offset + word_of_int cnt)]\<rparr>))
      | _ \<Rightarrow> Inr ((- 1, []), S))"

definition fd_seek :: "ref \<Rightarrow> u32 \<Rightarrow> 'd system \<Rightarrow> int \<times> 'd system" where
  "fd_seek r offset S =
     (case fds S ! r of
        FileFD nd old \<Rightarrow> (sint offset, S\<lparr>fds := (fds S)[r := FileFD nd offset]\<rparr>)
      | _ \<Rightarrow> (- 1, S))"

text \<open>The status goes to \<open>*status\<close>.\<close>

definition pd_wait :: "ref \<Rightarrow> 'd system \<Rightarrow> int option answer" where
  "pd_wait r S =
     (case pds S ! r of
        EmptyPD \<Rightarrow> Returns None
      | ProcessPD f \<Rightarrow> (case futures S ! f of None \<Rightarrow> Blocks | Some v \<Rightarrow> Returns (Some v)))"

definition sd_up :: "ref \<Rightarrow> 'd system \<Rightarrow> int \<times> 'd system" where
  "sd_up r S =
     (case sds S ! r of
        EmptySD \<Rightarrow> (- 1, S)
      | SemaphoreSD n \<Rightarrow> (0, S\<lparr>sds := (sds S)[r := SemaphoreSD (n + 1)]\<rparr>))"

definition sd_down :: "ref \<Rightarrow> 'd system \<Rightarrow> (int \<times> 'd system) answer" where
  "sd_down r S =
     (case sds S ! r of
        EmptySD \<Rightarrow> Returns (- 1, S)
      | SemaphoreSD n \<Rightarrow> if 0 < n then Returns (0, S\<lparr>sds := (sds S)[r := SemaphoreSD (n - 1)]\<rparr>) else Blocks)"

section \<open>Process\<close>

definition empty_table :: "u32 \<Rightarrow> ref list" where
  "empty_table n = replicate (unat n) 0"

definition new_process :: "node \<Rightarrow> (u32 \<Rightarrow> u8) \<Rightarrow> 'd system \<Rightarrow> process \<times> 'd system" where
  "new_process root m S =
     (case new_future S of (f, S) \<Rightarrow>
      case new_fd StdIn S of (i, S) \<Rightarrow>
      case new_fd StdOut S of (out, S) \<Rightarrow>
      case new_fd StdErr S of (e, S) \<Rightarrow>
      (\<lparr>exit_status = f, cd = root, fdt = [i, out, e] @ drop 3 (empty_table FDT_SIZE), pdt = empty_table PDT_SIZE,
        sdt = empty_table SDT_SIZE, space = m\<rparr>, S))"

definition get_fd :: "process \<Rightarrow> u32 \<Rightarrow> ref" where
  "get_fd p = get_desc TYPE_FD FDT_SIZE (fdt p)"

definition get_pd :: "process \<Rightarrow> u32 \<Rightarrow> ref" where
  "get_pd p = get_desc TYPE_PD PDT_SIZE (pdt p)"

definition get_sd :: "process \<Rightarrow> u32 \<Rightarrow> ref" where
  "get_sd p = get_desc TYPE_SD SDT_SIZE (sdt p)"

definition set_fd :: "('d system \<Rightarrow> (ref \<times> 'd system) res) \<Rightarrow> process \<Rightarrow> 'd system \<Rightarrow> (int \<times> process \<times> 'd system) res" where
  "set_fd mk p S = bindE (set_desc TYPE_FD FDT_SIZE mk (fdt p) S) (\<lambda>((v, t), S). Inr (v, p\<lparr>fdt := t\<rparr>, S))"

definition set_pd :: "('d system \<Rightarrow> (ref \<times> 'd system) res) \<Rightarrow> process \<Rightarrow> 'd system \<Rightarrow> (int \<times> process \<times> 'd system) res" where
  "set_pd mk p S = bindE (set_desc TYPE_PD PDT_SIZE mk (pdt p) S) (\<lambda>((v, t), S). Inr (v, p\<lparr>pdt := t\<rparr>, S))"

definition set_sd :: "('d system \<Rightarrow> (ref \<times> 'd system) res) \<Rightarrow> process \<Rightarrow> 'd system \<Rightarrow> (int \<times> process \<times> 'd system) res" where
  "set_sd mk p S = bindE (set_desc TYPE_SD SDT_SIZE mk (sdt p) S) (\<lambda>((v, t), S). Inr (v, p\<lparr>sdt := t\<rparr>, S))"

definition proc_close :: "u32 \<Rightarrow> process \<Rightarrow> int \<times> process" where
  "proc_close des p =
     (let index = des AND NUM_MASK; ty = des AND TYPE_MASK in
      if ty = TYPE_FD then (case close_desc FDT_SIZE (fdt p) index of (v, t) \<Rightarrow> (v, p\<lparr>fdt := t\<rparr>))
      else if ty = TYPE_PD then (case close_desc PDT_SIZE (pdt p) index of (v, t) \<Rightarrow> (v, p\<lparr>pdt := t\<rparr>))
      else if ty = TYPE_SD then (case close_desc SDT_SIZE (sdt p) index of (v, t) \<Rightarrow> (v, p\<lparr>sdt := t\<rparr>))
      else (- 1, p))"

text \<open>\<open>Process::wait\<close>: the status is written wherever the pointer says.\<close>

definition proc_wait :: "u32 \<Rightarrow> u32 \<Rightarrow> process \<Rightarrow> 'd system \<Rightarrow> (int \<times> process) answer" where
  "proc_wait des status p S =
     (if des AND TYPE_MASK \<noteq> TYPE_PD then Returns (- 1, p)
      else let index = des AND NUM_MASK in
        if PDT_SIZE \<le> index then Returns (- 1, p)
        else (case pd_wait (pdt p ! unat index) S of
                Blocks \<Rightarrow> Blocks
              | Returns None \<Rightarrow> Returns (- 1, p)
              | Returns (Some v) \<Rightarrow>
                  Returns (0, p\<lparr>space := put_word status (word_of_int v) (space p), pdt := (pdt p)[unat index := 0]\<rparr>)))"

text \<open>\<open>Process::reset\<close>: the private pages go, which makes them read as zero; \<open>private\<close> is \<open>VMM\<close>'s notion of them.\<close>

definition proc_reset :: "(u32 \<Rightarrow> bool) \<Rightarrow> process \<Rightarrow> process" where
  "proc_reset private p = p\<lparr>space := (\<lambda>a. if private a then 0 else space p a), sdt := empty_table SDT_SIZE\<rparr>"

text \<open>\<open>Process::clone\<close>: the copy constructor, which shares files and semaphores but not children.\<close>

definition proc_clone :: "process \<Rightarrow> 'd system \<Rightarrow> process \<times> 'd system" where
  "proc_clone p S =
     (case new_future S of (f, S) \<Rightarrow>
      (\<lparr>exit_status = f, cd = cd p, fdt = fdt p, pdt = empty_table PDT_SIZE, sdt = sdt p, space = space p\<rparr>, S))"

end
