(* ===== verification/Elf.thy ===== *)
theory Elf
  imports Memory
begin

text \<open>
  Executables: \<open>kernel/elf.cc\<close> and \<open>elf.h\<close>, over any block device \<open>F\<close> that holds the file. The loader writes into
  the address space that is active.
\<close>

section \<open>Headers\<close>

definition MAGIC :: u32 where "MAGIC = 0x464c457f"
definition PT_LOAD :: u32 where "PT_LOAD = 1"

record elf_header =
  ident :: "u8 list"
  type :: u16
  machine :: u16
  entry :: u32
  phoff :: u32
  phentsize :: u16
  phentnum :: u16

definition header_of :: "u8 list \<Rightarrow> elf_header" where
  "header_of bs = \<lparr>ident = take 16 bs, type = le16 (drop 16 bs), machine = le16 (drop 18 bs), entry = le32 (drop 24 bs),
     phoff = le32 (drop 28 bs), phentsize = le16 (drop 42 bs), phentnum = le16 (drop 44 bs)\<rparr>"

record program_header =
  ptype :: u32
  offset :: u32
  vaddr :: u32
  filesize :: u32
  memsize :: u32

definition program_header_of :: "u8 list \<Rightarrow> program_header" where
  "program_header_of bs = \<lparr>ptype = le32 bs, offset = le32 (drop 4 bs), vaddr = le32 (drop 8 bs),
     filesize = le32 (drop 16 bs), memsize = le32 (drop 20 bs)\<rparr>"

section \<open>Operations\<close>

text \<open>The header, if the file is one that can be run.\<close>

definition read_header :: "'s device \<Rightarrow> 's \<Rightarrow> (elf_header option \<times> 's) res" where
  "read_header F s =
     (if size_in_bytes F < 52 then Inr (None, s)
      else bindE (read_thing F 0 52 s) (\<lambda>(bs, s).
        let eh = header_of bs in
        if le32 (ident eh) \<noteq> MAGIC then Inr (None, s)
        else if ident eh ! 4 \<noteq> 1 then Inr (None, s)
        else if ident eh ! 5 \<noteq> 1 then Inr (None, s)
        else if ident eh ! 7 \<noteq> 0 then Inr (None, s)
        else if type eh \<noteq> 2 then Inr (None, s)
        else if machine eh \<noteq> 3 then Inr (None, s)
        else if entry eh < 0x80000000 then Inr (None, s)
        else Inr (Some eh, s)))"

definition load_segment :: "'s device \<Rightarrow> program_header \<Rightarrow> memory \<times> 's \<Rightarrow> (memory \<times> 's) res" where
  "load_segment F ph = (\<lambda>(m, s).
     if ptype ph \<noteq> PT_LOAD then Inr (m, s)
     else bindE (read_all F (offset ph) (filesize ph) s) (\<lambda>((cnt, bs), s).
       Inr (put_bytes (vaddr ph + filesize ph) (replicate (unat (memsize ph - filesize ph)) 0) (put_bytes (vaddr ph) bs m), s)))"

definition header_offset :: "elf_header \<Rightarrow> nat \<Rightarrow> u32" where
  "header_offset eh i = phoff eh + of_nat i * ucast (phentsize eh)"

definition elf_load :: "'s device \<Rightarrow> elf_header \<Rightarrow> memory \<times> 's \<Rightarrow> (u32 \<times> memory \<times> 's) res" where
  "elf_load F eh ms =
     bindE (forE (\<lambda>i (m, s). bindE (read_thing F (header_offset eh i) 32 s) (\<lambda>(bs, s).
       load_segment F (program_header_of bs) (m, s))) [0..<unat (phentnum eh)] ms) (\<lambda>(m, s).
     Inr (entry eh, m, s))"

section \<open>The image of a file\<close>

text \<open>What a loaded file should look like, from its bytes alone.\<close>

definition nth_header :: "(nat \<Rightarrow> u8) \<Rightarrow> elf_header \<Rightarrow> nat \<Rightarrow> program_header" where
  "nth_header content eh i = program_header_of (bytes content (unat (header_offset eh i)) 32)"

definition segment_bytes :: "(nat \<Rightarrow> u8) \<Rightarrow> program_header \<Rightarrow> u8 list" where
  "segment_bytes content ph =
     bytes content (unat (offset ph)) (unat (filesize ph)) @ replicate (unat (memsize ph) - unat (filesize ph)) 0"

definition place :: "(nat \<Rightarrow> u8) \<Rightarrow> program_header \<Rightarrow> memory \<Rightarrow> memory" where
  "place content ph m = (if ptype ph = PT_LOAD then put_bytes (vaddr ph) (segment_bytes content ph) m else m)"

text \<open>A file of \<open>size\<close> bytes that keeps to the format.\<close>

definition segment_ok :: "u32 \<Rightarrow> program_header \<Rightarrow> bool" where
  "segment_ok sz ph \<longleftrightarrow> ptype ph = PT_LOAD \<longrightarrow>
     unat (offset ph) + unat (filesize ph) \<le> unat sz \<and> filesize ph \<le> memsize ph \<and> unat (vaddr ph) + unat (memsize ph) \<le> 2 ^ 32"

definition well_formed :: "(nat \<Rightarrow> u8) \<Rightarrow> u32 \<Rightarrow> elf_header \<Rightarrow> bool" where
  "well_formed content sz eh \<longleftrightarrow>
     (\<forall>i < unat (phentnum eh). unat (header_offset eh i) + 32 \<le> unat sz \<and> segment_ok sz (nth_header content eh i))"

lemma put_bytes_twice:
  assumes "unat a + length bs + length cs \<le> 2 ^ 32" "b = a + of_nat (length bs)"
  shows "put_bytes b cs (put_bytes a bs m) = put_bytes a (bs @ cs) m"
proof
  fix x
  have b: "unat b = (unat a + length bs) mod 2 ^ 32" using assms(2) by (simp add: unat_word_ariths unat_of_nat mod_simps)
  show "put_bytes b cs (put_bytes a bs m) x = put_bytes a (bs @ cs) m x"
  proof (cases "cs = []")
    case True
    then show ?thesis by (simp add: put_bytes_def)
  next
    case False
    then have "unat a + length bs < 2 ^ 32" using assms(1) by (cases cs) simp_all
    then have b: "unat b = unat a + length bs" using b by simp
    show ?thesis
      using assms(1) b unat_u32 [of x] unat_u32 [of a]
      by (cases "unat x < unat a"; cases "unat x < unat b") (auto simp: put_bytes_def unat_minus nth_append)
  qed
qed

text \<open>What \<open>read_header\<close> asks of a header.\<close>

definition header_valid :: "elf_header \<Rightarrow> bool" where
  "header_valid eh \<longleftrightarrow> le32 (ident eh) = MAGIC \<and> ident eh ! 4 = 1 \<and> ident eh ! 5 = 1 \<and> ident eh ! 7 = 0 \<and>
     type eh = 2 \<and> machine eh = 3 \<and> 0x80000000 \<le> entry eh"

context block_device
begin

lemma load_segment_spec:
  assumes "ok s" "segment_ok (size_in_bytes D) ph"
  shows "\<exists>s'. load_segment D ph (m, s) = Inr (place content ph m, s') \<and> ok s'"
proof (cases "ptype ph = PT_LOAD")
  case True
  have le: "unat (offset ph) + unat (filesize ph) \<le> unat (size_in_bytes D)" "filesize ph \<le> memsize ph"
    "unat (vaddr ph) + unat (memsize ph) \<le> 2 ^ 32"
    using assms(2) True by (simp_all add: segment_ok_def)
  have "offset ph \<le> size_in_bytes D" "min (unat (filesize ph)) (unat (size_in_bytes D) - unat (offset ph)) = unat (filesize ph)"
    using le(1) by (auto simp: word_le_nat_alt)
  then obtain s' where s: "read_all D (offset ph) (filesize ph) s =
      Inr ((int (unat (filesize ph)), bytes content (unat (offset ph)) (unat (filesize ph))), s')" "ok s'"
    using read_all_spec [OF assms(1), of "offset ph" "filesize ph"] by auto
  have d: "unat (memsize ph - filesize ph) = unat (memsize ph) - unat (filesize ph)" using le(2) by (rule unat_sub)
  have "put_bytes (vaddr ph + filesize ph) (replicate (unat (memsize ph - filesize ph)) 0)
      (put_bytes (vaddr ph) (bytes content (unat (offset ph)) (unat (filesize ph))) m) =
      put_bytes (vaddr ph) (segment_bytes content ph) m"
    unfolding segment_bytes_def d using le(2,3) by (intro put_bytes_twice) (auto simp: word_le_nat_alt)
  then show ?thesis using s True by (simp add: load_segment_def place_def)
qed (use assms(1) in \<open>simp add: load_segment_def place_def\<close>)

lemma elf_load_spec:
  assumes "ok s" "well_formed content (size_in_bytes D) eh"
  shows "\<exists>s'. elf_load D eh (m, s) =
    Inr (entry eh, fold (\<lambda>i. place content (nth_header content eh i)) [0..<unat (phentnum eh)] m, s') \<and> ok s'"
proof -
  let ?f = "\<lambda>i (m, s). bindE (read_thing D (header_offset eh i) 32 s) (\<lambda>(bs, s). load_segment D (program_header_of bs) (m, s))"
  let ?I = "\<lambda>pre (m', s'). m' = fold (\<lambda>i. place content (nth_header content eh i)) pre m \<and> ok s'"
  have "\<exists>t. forE ?f [0..<unat (phentnum eh)] (m, s) = Inr t \<and> ?I [0..<unat (phentnum eh)] t"
  proof (rule forE_total [where I = ?I])
    show "?I [] (m, s)" using assms(1) by simp
  next
    fix pre i post u
    assume split: "[0..<unat (phentnum eh)] = pre @ i # post" and I: "?I pre u"
    have "i \<in> set [0..<unat (phentnum eh)]" using split by simp
    then have i: "i < unat (phentnum eh)" by simp
    obtain m' s' where u: "u = (m', s')" "ok s'" using I by (cases u) auto
    obtain s1 where s1: "read_thing D (header_offset eh i) 32 s' = Inr (bytes content (unat (header_offset eh i)) 32, s1)" "ok s1"
      using read_thing_spec [OF u(2), of "header_offset eh i" 32] assms(2) i by (auto simp: well_formed_def)
    obtain s2 where "load_segment D (nth_header content eh i) (m', s1) = Inr (place content (nth_header content eh i) m', s2)" "ok s2"
      using load_segment_spec [OF s1(2)] assms(2) i by (fastforce simp: well_formed_def)
    then show "\<exists>v. ?f i u = Inr v \<and> ?I (pre @ [i]) v" using I u s1 by (simp add: nth_header_def)
  qed
  then show ?thesis by (auto simp: elf_load_def)
qed

lemma read_header_spec:
  assumes "ok s"
  shows "\<exists>s'. ok s' \<and> read_header D s =
    Inr (if 52 \<le> size_in_bytes D \<and> header_valid (header_of (bytes content 0 52)) then Some (header_of (bytes content 0 52)) else None, s')"
proof (cases "size_in_bytes D < 52")
  case True
  then show ?thesis using assms by (auto simp: read_header_def)
next
  case False
  then obtain s' where "read_thing D 0 52 s = Inr (bytes content 0 52, s')" "ok s'"
    using read_thing_spec [OF assms, of 0 52] by (auto simp: word_less_nat_alt)
  then show ?thesis using False by (auto simp: read_header_def header_valid_def Let_def not_less)
qed

lemma elf_load_short:
  assumes "ok s" "unat (header_offset eh 0) < unat (size_in_bytes D)" "unat (size_in_bytes D) < unat (header_offset eh 0) + 32"
    "0 < phentnum eh"
  shows "elf_load D eh (m, s) = Inl (Assertion ''cnt == sizeof(T)'')"
proof -
  have off: "header_offset eh 0 \<le> size_in_bytes D" using assms(2) by (simp add: word_le_nat_alt)
  obtain s' where s: "read_all D (header_offset eh 0) 32 s = Inr ((int (unat (size_in_bytes D) - unat (header_offset eh 0)),
      bytes content (unat (header_offset eh 0)) (unat (size_in_bytes D) - unat (header_offset eh 0))), s')"
    using read_all_spec [OF assms(1) off, of 32] assms(2,3) by auto
  have "int (unat (size_in_bytes D) - unat (header_offset eh 0)) \<noteq> 32" using assms(3) by linarith
  then have "read_thing D (header_offset eh 0) 32 s = Inl (Assertion ''cnt == sizeof(T)'')"
    using s by (simp add: read_thing_def ASSERT_def)
  moreover have "[0..<unat (phentnum eh)] = 0 # [1..<unat (phentnum eh)]"
    using assms(4) by (subst upt_conv_Cons) (simp_all add: unat_gt_0 word_gt_0)
  ultimately show ?thesis by (simp add: elf_load_def)
qed

end

section \<open>Segments that do not meet\<close>

definition clear_of :: "program_header \<Rightarrow> u32 \<Rightarrow> nat \<Rightarrow> bool" where
  "clear_of ph a n \<longleftrightarrow> ptype ph = PT_LOAD \<longrightarrow> apart a n (vaddr ph) (unat (memsize ph))"

lemma segment_length: "filesize ph \<le> memsize ph \<Longrightarrow> length (segment_bytes content ph) = unat (memsize ph)"
  by (simp add: segment_bytes_def word_le_nat_alt)

lemma place_clear:
  assumes "segment_ok sz ph" "clear_of ph a n"
  shows "get_bytes a n (place content ph m) = get_bytes a n m"
proof (cases "ptype ph = PT_LOAD")
  case True
  then have "length (segment_bytes content ph) = unat (memsize ph)" using assms(1) by (simp add: segment_ok_def segment_length)
  then show ?thesis using True assms(2) by (simp add: place_def clear_of_def get_other_bytes)
qed (simp add: place_def)

lemma fold_place_clear:
  assumes "\<And>i. i \<in> set is \<Longrightarrow> segment_ok sz (nth_header content eh i) \<and> clear_of (nth_header content eh i) a n"
  shows "get_bytes a n (fold (\<lambda>i. place content (nth_header content eh i)) is m) = get_bytes a n m"
  using assms
proof (induction "is" arbitrary: m)
  case (Cons j js)
  then have "segment_ok sz (nth_header content eh j)" "clear_of (nth_header content eh j) a n" by auto
  then have "get_bytes a n (place content (nth_header content eh j) m) = get_bytes a n m" by (rule place_clear)
  then show ?case using Cons by simp
qed simp

lemma place_loaded:
  assumes "segment_ok sz ph" "ptype ph = PT_LOAD"
  shows "get_bytes (vaddr ph) (unat (memsize ph)) (place content ph m) = segment_bytes content ph"
  using assms segment_length [of ph content] unat_u32 [of "memsize ph"]
  by (simp add: place_def segment_ok_def get_put_bytes)

lemma image_segment:
  assumes "well_formed content sz eh" "k < unat (phentnum eh)" "ptype (nth_header content eh k) = PT_LOAD"
    and "\<And>i. k < i \<Longrightarrow> i < unat (phentnum eh) \<Longrightarrow>
      clear_of (nth_header content eh i) (vaddr (nth_header content eh k)) (unat (memsize (nth_header content eh k)))"
  shows "get_bytes (vaddr (nth_header content eh k)) (unat (memsize (nth_header content eh k)))
    (fold (\<lambda>i. place content (nth_header content eh i)) [0..<unat (phentnum eh)] m) = segment_bytes content (nth_header content eh k)"
proof -
  have s: "[0..<unat (phentnum eh)] = [0..<k] @ k # [Suc k..<unat (phentnum eh)]"
    using assms(2) upt_add_eq_append [of 0 k "unat (phentnum eh) - k"] by (simp add: upt_conv_Cons)
  have wf: "segment_ok sz (nth_header content eh i)" if "i < unat (phentnum eh)" for i
    using assms(1) that by (simp add: well_formed_def)
  show ?thesis unfolding s fold_append fold.simps comp_apply
    by (subst fold_place_clear [where sz = sz]) (use assms wf in \<open>auto intro: place_loaded\<close>)
qed

context block_device
begin

lemma elf_image:
  assumes "ok s" "well_formed content (size_in_bytes D) eh"
  shows "\<exists>m' s'. elf_load D eh (m, s) = Inr (entry eh, m', s') \<and> ok s' \<and>
    (\<forall>k < unat (phentnum eh). ptype (nth_header content eh k) = PT_LOAD \<longrightarrow>
      (\<forall>i. k < i \<and> i < unat (phentnum eh) \<longrightarrow>
         clear_of (nth_header content eh i) (vaddr (nth_header content eh k)) (unat (memsize (nth_header content eh k)))) \<longrightarrow>
      get_bytes (vaddr (nth_header content eh k)) (unat (memsize (nth_header content eh k))) m' =
        segment_bytes content (nth_header content eh k)) \<and>
    (\<forall>a n. (\<forall>i < unat (phentnum eh). clear_of (nth_header content eh i) a n) \<longrightarrow> get_bytes a n m' = get_bytes a n m)"
proof -
  let ?m = "fold (\<lambda>i. place content (nth_header content eh i)) [0..<unat (phentnum eh)] m"
  obtain s' where "elf_load D eh (m, s) = Inr (entry eh, ?m, s')" "ok s'"
    using elf_load_spec [OF assms] by blast
  moreover have "get_bytes a n ?m = get_bytes a n m" if "\<forall>i < unat (phentnum eh). clear_of (nth_header content eh i) a n" for a n
    using assms(2) that by (intro fold_place_clear [where sz = "size_in_bytes D"]) (auto simp: well_formed_def)
  ultimately show ?thesis using image_segment [OF assms(2)] by blast
qed

end

end
