(* ===== verification/Sys.thy ===== *)
theory Sys
  imports Process Elf Config
begin

text \<open>
  System calls: \<open>kernel/sys.cc\<close>. A call maps the process and the rest of the system to a result. A call that switches
  to user mode, stops its thread, halts the machine or waits does not return. An access to an address that is not
  mapped, which ends the process in \<open>vmm_pageFault\<close>, does not occur here; new kernel buffers are never refused.
\<close>

section \<open>Environment\<close>

text \<open>
  What calls use and do not change: the configuration, the file system and its device, what new memory holds, and how many
  bytes a string and words a vector of arguments may have before the model gives up.
\<close>

record 'd env =
  conf :: config
  filesys :: ext2
  root_dir :: node
  dev :: "'d device"
  fresh_block :: "nat \<Rightarrow> u8 list"
  junk :: memory
  limit :: nat

text \<open>The frame of a system call: \<open>stack[0]\<close> and \<open>stack[3]\<close>.\<close>

record frame =
  pc :: u32
  esp :: u32

datatype 'd outcome =
    Return int process "'d system"
  | UserMode u32 u32 process "'d system"
  | Blocked
  | Stopped "'d system"
  | Halted

definition getarg :: "nat \<Rightarrow> frame \<Rightarrow> process \<Rightarrow> u32" where
  "getarg i fr p = get_word (esp fr + 4 + 4 * of_nat i) (space p)"

definition check_range :: "config \<Rightarrow> u32 \<Rightarrow> u32 \<Rightarrow> bool" where
  "check_range c start n =
     (let lower = start; upper = start + n in
      lower \<le> upper \<and> 0x80000000 \<le> lower \<and>
      (upper \<le> localAPIC c \<or> localAPIC c + 4096 \<le> lower) \<and>
      (upper \<le> ioAPIC c \<or> ioAPIC c + 4096 \<le> lower))"

text \<open>The addresses whose pages belong to the process.\<close>

definition user_address :: "config \<Rightarrow> u32 \<Rightarrow> bool" where
  "user_address c a \<longleftrightarrow> 0x80000000 \<le> a \<and> drop_bit 12 a \<noteq> drop_bit 12 (localAPIC c) \<and> drop_bit 12 a \<noteq> drop_bit 12 (ioAPIC c)"

section \<open>exec\<close>

definition user_stack :: "config \<Rightarrow> u32" where
  "user_stack c = (if localAPIC c < ioAPIC c then localAPIC c else ioAPIC c)"

text \<open>\<open>argc\<close> and the size of the strings.\<close>

fun count_args :: "nat \<Rightarrow> nat \<Rightarrow> u32 \<Rightarrow> memory \<Rightarrow> u32 \<Rightarrow> u32 \<Rightarrow> (u32 \<times> u32) res" where
  "count_args lim 0 argv m argc sz = Inl (Panic ''vector without end'')"
| "count_args lim (Suc fuel) argv m argc sz =
     (let str = get_word (argv + 4 * argc) m in
      if str \<noteq> 0 then
        bindE (get_string lim str m) (\<lambda>s. count_args lim fuel argv m (argc + 1) (sz + (of_nat (length s) + 1)))
      else Inr (argc, sz))"

text \<open>The loop that copies the strings; addresses are relative to the buffer.\<close>

definition copy_arg :: "nat \<Rightarrow> u32 \<Rightarrow> memory \<Rightarrow> nat \<Rightarrow> memory \<times> u32 \<Rightarrow> (memory \<times> u32) res" where
  "copy_arg lim argv m i = (\<lambda>(buffer, string).
     bindE (get_string lim (get_word (argv + 4 * of_nat i) m) m) (\<lambda>s.
     Inr (put_word (4 * of_nat i) string (put_bytes string (s @ [0]) buffer), string + (of_nat (length s) + 1))))"

definition arg_buffer :: "nat \<Rightarrow> memory \<Rightarrow> u32 \<Rightarrow> u32 \<Rightarrow> memory \<Rightarrow> memory res" where
  "arg_buffer lim new argc argv m =
     bindE (forE (copy_arg lim argv m) [0..<unat argc] (new, (argc + 1) * 4)) (\<lambda>(buffer, string).
     Inr (put_word (4 * argc) 0 buffer))"

text \<open>The stack of the new program: the buffer with its pointers moved, its address, and \<open>argc\<close>.\<close>

definition stack_top :: "u32 \<Rightarrow> u32 \<Rightarrow> u32" where
  "stack_top stack sz = ((stack - sz - 8) AND 0xfffffff0) + 8"

definition put_stack :: "u32 \<Rightarrow> u32 \<Rightarrow> u32 \<Rightarrow> memory \<Rightarrow> memory \<Rightarrow> memory" where
  "put_stack sp argc sz buffer m =
     put_word (sp - 4) sp (put_word (sp - 8) argc
       (fold (\<lambda>i m. put_word (sp + 4 * of_nat i) (get_word (sp + 4 * of_nat i) m + sp) m) [0..<unat argc]
         (put_bytes sp (get_bytes 0 (unat sz) buffer) m)))"

definition exec :: "'d env \<Rightarrow> node \<Rightarrow> u32 \<Rightarrow> u32 \<Rightarrow> u32 \<Rightarrow> process \<Rightarrow> 'd system \<Rightarrow> 'd outcome res" where
  "exec E file argc argv sz p S =
     (let F = node_device (fs_block_size (filesys E)) (dev E) (fresh_block E) file in
      bindE (read_header F (file, disk S)) (\<lambda>(eh, (file, d)).
      case eh of None \<Rightarrow> Inr (Return (- 1) p (S\<lparr>disk := d\<rparr>))
      | Some eh \<Rightarrow>
          let sz = sz + (argc + 1) * 4 in
          bindE (arg_buffer (limit E) (junk E) argc argv (space p)) (\<lambda>buffer.
          let p = proc_reset (user_address (conf E)) p in
          bindE (elf_load F eh (space p, (file, d))) (\<lambda>(ent, m, (file, d)).
          let sp = stack_top (user_stack (conf E)) sz in
          Inr (UserMode ent (sp - 8) (p\<lparr>space := put_stack sp argc sz buffer m\<rparr>) (S\<lparr>disk := d\<rparr>))))))"

definition sys_exec :: "'d env \<Rightarrow> node \<Rightarrow> u32 \<Rightarrow> process \<Rightarrow> 'd system \<Rightarrow> 'd outcome res" where
  "sys_exec E file argv p S =
     bindE (count_args (limit E) (limit E) argv (space p) 0 0) (\<lambda>(argc, sz). exec E file argc argv sz p S)"

section \<open>The calls\<close>

type_synonym 'd syscall = "'d env \<Rightarrow> frame \<Rightarrow> process \<Rightarrow> 'd system \<Rightarrow> 'd outcome res"

text \<open>\<open>SYS::exit(status)\<close>, which the kernel calls too.\<close>

definition exit_process :: "int \<Rightarrow> process \<Rightarrow> 'd system \<Rightarrow> 'd outcome" where
  "exit_process status p S = Stopped (set_future (exit_status p) status S)"

definition sys_exit :: "'d syscall" where
  "sys_exit E fr p S = Inr (exit_process (sint (getarg 0 fr p)) p S)"

definition sys_write :: "'d syscall" where
  "sys_write E fr p S =
     (if \<not> check_range (conf E) (getarg 1 fr p) (getarg 2 fr p) then Inr (Return (- 1) p S)
      else case fd_write (get_fd p (getarg 0 fr p)) (get_bytes (getarg 1 fr p) (unat (getarg 2 fr p)) (space p)) S of
             (v, S) \<Rightarrow> Inr (Return v p S))"

text \<open>The child starts at the return address of the parent, with its stack; \<open>eax\<close> is 0 there.\<close>

definition spawn :: "frame \<Rightarrow> process \<Rightarrow> 'd system \<Rightarrow> (ref \<times> 'd system) res" where
  "spawn fr p S =
     (case proc_clone p S of (child, S) \<Rightarrow>
      Inr (new_pd (ProcessPD (exit_status child)) (S\<lparr>ready := ready S @ [(child, pc fr, esp fr)]\<rparr>)))"

definition returned :: "(int \<times> process \<times> 'd system) res \<Rightarrow> 'd outcome res" where
  "returned r = bindE r (\<lambda>(v, p, S). Inr (Return v p S))"

definition sys_fork :: "'d syscall" where
  "sys_fork E fr p S = returned (set_pd (spawn fr p) p S)"

definition sys_sem :: "'d syscall" where
  "sys_sem E fr p S = returned (set_sd (\<lambda>S. Inr (new_sd (SemaphoreSD (ucast (getarg 0 fr p))) S)) p S)"

definition sys_up :: "'d syscall" where
  "sys_up E fr p S = (case sd_up (get_sd p (getarg 0 fr p)) S of (v, S) \<Rightarrow> Inr (Return v p S))"

definition sys_down :: "'d syscall" where
  "sys_down E fr p S =
     Inr (case sd_down (get_sd p (getarg 0 fr p)) S of Blocks \<Rightarrow> Blocked | Returns (v, S) \<Rightarrow> Return v p S)"

definition sys_close :: "'d syscall" where
  "sys_close E fr p S = (case proc_close (getarg 0 fr p) p of (v, p) \<Rightarrow> Inr (Return v p S))"

definition sys_shutdown :: "'d syscall" where
  "sys_shutdown E fr p S = Inr Halted"

definition sys_wait :: "'d syscall" where
  "sys_wait E fr p S =
     Inr (case proc_wait (getarg 0 fr p) (getarg 1 fr p) p S of Blocks \<Rightarrow> Blocked | Returns (v, p) \<Rightarrow> Return v p S)"

text \<open>\<open>fs->open(proc->cd, name)\<close>\<close>

definition open_name :: "'d env \<Rightarrow> u32 \<Rightarrow> process \<Rightarrow> 'd system \<Rightarrow> (node option \<times> 'd system) res" where
  "open_name E a p S =
     bindE (get_string (limit E) a (space p)) (\<lambda>name.
     bindE (open_file (filesys E) (root_dir E) (dev E) (fresh_block E) (cd p) name (disk S)) (\<lambda>(file, d).
     Inr (file, S\<lparr>disk := d\<rparr>)))"

definition sys_execl :: "'d syscall" where
  "sys_execl E fr p S =
     bindE (open_name E (getarg 0 fr p) p S) (\<lambda>(file, S).
     case file of None \<Rightarrow> Inr (Return (- 1) p S) | Some nd \<Rightarrow> sys_exec E nd (esp fr + 8) p S)"

definition sys_open :: "'d syscall" where
  "sys_open E fr p S =
     bindE (open_name E (getarg 0 fr p) p S) (\<lambda>(file, S).
     case file of None \<Rightarrow> Inr (Return (- 1) p S)
     | Some nd \<Rightarrow> returned (set_fd (\<lambda>S. Inr (new_fd (FileFD nd 0) S)) p S))"

definition sys_len :: "'d syscall" where
  "sys_len E fr p S = Inr (Return (fd_len (get_fd p (getarg 0 fr p)) S) p S)"

definition sys_read :: "'d syscall" where
  "sys_read E fr p S =
     (if \<not> check_range (conf E) (getarg 1 fr p) (getarg 2 fr p) then Inr (Return (- 1) p S)
      else bindE (fd_read (fs_block_size (filesys E)) (dev E) (fresh_block E) (get_fd p (getarg 0 fr p)) (getarg 2 fr p) S)
        (\<lambda>((v, bs), S). Inr (Return v (p\<lparr>space := put_bytes (getarg 1 fr p) bs (space p)\<rparr>) S)))"

definition sys_seek :: "'d syscall" where
  "sys_seek E fr p S = (case fd_seek (get_fd p (getarg 0 fr p)) (getarg 1 fr p) S of (v, S) \<Rightarrow> Inr (Return v p S))"

section \<open>The table\<close>

definition NUM_SYSCALLS :: u32 where "NUM_SYSCALLS = 14"

definition syscall_table :: "'d syscall list" where
  "syscall_table = [sys_exit, sys_write, sys_fork, sys_sem, sys_up, sys_down, sys_close, sys_shutdown, sys_wait,
     sys_execl, sys_open, sys_len, sys_read, sys_seek]"

definition sysHandler :: "u32 \<Rightarrow> 'd syscall" where
  "sysHandler num E fr p S =
     (if NUM_SYSCALLS \<le> num then Inr (Return (- 1) p S) else (syscall_table ! unat num) E fr p S)"

end
