(* ===== verification/Kernel.thy ===== *)
theory Kernel
  imports Sys
begin

text \<open>
  What the machine does once it is up: \<open>kernelMain\<close> of \<open>kernel/kernel.cc\<close>. It mounts the file system of drive 1, opens
  \<open>/sbin/init\<close>, makes a process and starts a thread for it, which calls \<open>SYS::exec\<close>. A configuration, the memory that a new process
  sees and the contents of fresh blocks are arguments.
\<close>

definition initName :: "u8 list" where
  "initName = map of_char ''/sbin/init''"

definition kernelMain ::
  "config \<Rightarrow> 'h bus \<Rightarrow> nat \<Rightarrow> (nat \<Rightarrow> u8 list) \<Rightarrow> memory \<Rightarrow> nat \<Rightarrow> memory \<Rightarrow> 'h \<Rightarrow>
    ('h ide env \<times> node option \<times> process \<times> 'h ide system) res" where
  "kernelMain c B fuel fresh new lim m h =
     (let D = ide_device B 1 fuel in
      bindE (ext2_mount D fresh \<lparr>hw = h, nRead = 0\<rparr>) (\<lambda>((fs, root), d).
      bindE (open_file fs root D fresh root initName d) (\<lambda>(init, d).
      case new_process root m (empty_system d) of (p, S) \<Rightarrow>
        Inr (\<lparr>conf = c, filesys = fs, root_dir = root, dev = D, fresh_block = fresh, junk = new, limit = lim\<rparr>, init, p, S))))"

text \<open>The thread: \<open>SYS::exec(init, "init", 0)\<close>, with its arguments on the stack from \<open>argv\<close>. There is no check that the file was found.\<close>

definition exec_init :: "'d env \<Rightarrow> node option \<Rightarrow> u32 \<Rightarrow> process \<Rightarrow> 'd system \<Rightarrow> 'd outcome res" where
  "exec_init E init argv p S =
     (case init of None \<Rightarrow> Inl (Panic ''null dereference'') | Some nd \<Rightarrow> sys_exec E nd argv p S)"

end
