(* ===== verification/Drive_Sim.thy ===== *)
theory Drive_Sim
  imports Ide
begin

text \<open>
  A drive that keeps the laws of \<open>ata\<close> and of \<open>ata_steady\<close>, with as many sectors as the disk of 10 megabytes that the Makefile makes: it latches
  the registers of a read command, is busy for three polls, with the status BSY and DRDY, and then delivers the words of the sector.
  It shows that the laws can hold.
\<close>

definition sim_sectors :: nat where
  "sim_sectors = 20480"

record sim =
  lba0 :: u8
  lba1 :: u8
  lba2 :: u8
  lba3 :: u8
  command_seen :: bool
  polls :: nat
  next_word :: nat

definition sim_sector :: "sim \<Rightarrow> nat" where
  "sim_sector h = unat (lba0 h) + 256 * unat (lba1 h) + 65536 * unat (lba2 h) + 16777216 * (unat (lba3 h) mod 16)"

definition sim_inb :: "u32 \<Rightarrow> sim \<Rightarrow> u8 \<times> sim" where
  "sim_inb p h =
     (if p \<noteq> 0x1f7 then (0, h)
      else if \<not> command_seen h then (0x40, h)
      else if 0 < polls h then (0xC0, h\<lparr>polls := polls h - 1\<rparr>)
      else (0x48, h))"

definition sim_outb :: "u32 \<Rightarrow> u8 \<Rightarrow> sim \<Rightarrow> sim" where
  "sim_outb p v h =
     (if p = 0x1f3 then h\<lparr>lba0 := v\<rparr>
      else if p = 0x1f4 then h\<lparr>lba1 := v\<rparr>
      else if p = 0x1f5 then h\<lparr>lba2 := v\<rparr>
      else if p = 0x1f6 then h\<lparr>lba3 := v\<rparr>
      else if p = 0x1f7 \<and> v = 0x20 then h\<lparr>command_seen := True, polls := 3, next_word := 0\<rparr>
      else h)"

definition sim_inl :: "(nat \<Rightarrow> u32) \<Rightarrow> u32 \<Rightarrow> sim \<Rightarrow> u32 \<times> sim" where
  "sim_inl disk p h =
     (disk (128 * sim_sector h + next_word h),
      h\<lparr>next_word := next_word h + 1, command_seen := (next_word h + 1 < 128)\<rparr>)"

definition sim_bus :: "(nat \<Rightarrow> u32) \<Rightarrow> sim bus" where
  "sim_bus disk = \<lparr>inb = sim_inb, inl = sim_inl disk, outb = sim_outb\<rparr>"

definition sim_idle :: "sim \<Rightarrow> bool" where
  "sim_idle h \<longleftrightarrow> \<not> command_seen h"

definition sim_busy :: "nat \<Rightarrow> nat \<Rightarrow> sim \<Rightarrow> bool" where
  "sim_busy sec k h \<longleftrightarrow> command_seen h \<and> polls h = k \<and> next_word h = 0 \<and> sim_sector h = sec"

definition sim_ready :: "nat \<Rightarrow> nat \<Rightarrow> sim \<Rightarrow> bool" where
  "sim_ready sec i h \<longleftrightarrow> polls h = 0 \<and> next_word h = i \<and> sim_sector h = sec \<and> (command_seen h \<longleftrightarrow> i < 128)"

definition sim_off :: sim where
  "sim_off = \<lparr>lba0 = 0, lba1 = 0, lba2 = 0, lba3 = 0, command_seen = False, polls = 0, next_word = 0\<rparr>"

lemma split_sector: "s < 2 ^ 28 \<Longrightarrow>
    s mod 256 + 256 * (s div 256 mod 256) + 65536 * (s div 65536 mod 256) + 16777216 * (s div 16777216 mod 16) = s" for s :: nat
proof -
  assume s: "s < 2 ^ 28"
  have 1: "s mod 65536 = 256 * (s div 256 mod 256) + s mod 256" using mod_mult2_eq [of s 256 256] by simp
  have 2: "s mod 16777216 = 65536 * (s div 65536 mod 256) + s mod 65536" using mod_mult2_eq [of s 65536 256] by simp
  have "s div 16777216 < 16" using s by (simp add: less_mult_imp_div_less)
  then have "s = 16777216 * (s div 16777216 mod 16) + s mod 16777216" by simp
  then show ?thesis using 1 2 by linarith
qed

lemma first_port: "drive = 0 \<or> drive = 1 \<Longrightarrow> port drive = 0x1f0"
  by (auto simp: port_def controller_def ports_def)

lemma high_nibble: "unat (ucast (0xE0 OR push_bit 4 c OR (drop_bit 24 s AND 0xf) :: u32) :: u8) mod 16 = unat (s :: u32) div 16777216 mod 16"
proof -
  have "take_bit 4 (0xE0 OR push_bit 4 c OR (drop_bit 24 s AND 0xf) :: u32) = take_bit 4 (drop_bit 24 s)"
  proof (rule bit_word_eqI)
    fix n assume "n < LENGTH(32)"
    have m: "(0xf :: u32) = mask 4" by (simp add: mask_eq_exp_minus_1)
    have "\<not> bit (0xE0 :: u32) n" if "n < 4"
    proof -
      have "n = 0 \<or> n = 1 \<or> n = 2 \<or> n = 3" using that by arith
      then show ?thesis by auto
    qed
    then show "bit (take_bit 4 (0xE0 OR push_bit 4 c OR (drop_bit 24 s AND 0xf) :: u32)) n = bit (take_bit 4 (drop_bit 24 s)) n"
      unfolding m by (auto simp: bit_simps)
  qed
  then have "unat (take_bit 4 (0xE0 OR push_bit 4 c OR (drop_bit 24 s AND 0xf) :: u32)) = unat (take_bit 4 (drop_bit 24 s))" by simp
  moreover have "unat (ucast x :: u8) mod 16 = unat (take_bit 4 x)" for x :: u32
    by (simp add: unsigned_ucast_eq unsigned_take_bit_eq take_bit_eq_mod mod_mod_cancel unat_mod)
  ultimately show ?thesis by (simp add: take_bit_eq_mod drop_bit_eq_div unat_mod unat_div)
qed

lemma sim_sector_sent:
  assumes "s < 2 ^ 28"
  shows "sim_sector (send_read (sim_bus disk) 0x1f0 c s h) = unat s"
proof -
  have "unat s < 2 ^ 28" using assms by (simp add: word_less_nat_alt)
  note e = split_sector [OF this]
  have b: "unat (ucast (drop_bit k s) :: u8) = unat s div 2 ^ k mod 256" for k
    by (simp add: unsigned_ucast_eq take_bit_eq_mod unat_drop_bit_eq flip: drop_bit_eq_div)
  show ?thesis
    using e b [of 8] b [of 16] b [of 0] high_nibble [of c s]
    by (simp add: sim_sector_def send_read_def sim_bus_def sim_outb_def Let_def)
qed

lemma sim_steady:
  assumes "drive = 0 \<or> drive = 1"
  shows "ata_steady (sim_bus disk) drive disk sim_sectors 3 sim_idle sim_busy sim_ready 4"
proof
  fix h assume "sim_idle h"
  then show "\<exists>s h'. inb (sim_bus disk) (port drive + 7) h = (s, h') \<and> s AND (ERR OR DF) = 0 \<and> s AND DRDY \<noteq> 0 \<and> s AND BSY = 0 \<and> sim_idle h'"
    by (simp add: sim_bus_def sim_inb_def first_port [OF assms] sim_idle_def ERR_def DF_def DRDY_def BSY_def)
next
  fix h and sector :: u32
  assume "sim_idle h" "unat sector < sim_sectors" "sector < 2 ^ 28"
  then show "\<exists>k\<le>3. sim_busy (unat sector) k (send_read (sim_bus disk) (port drive) (channel drive) sector h)"
    using sim_sector_sent [of sector disk "channel drive" h]
    by (intro exI [of _ 3]) (simp add: sim_busy_def first_port [OF assms] send_read_def sim_bus_def sim_outb_def Let_def)
next
  fix sec k h assume "sim_busy sec (Suc k) h"
  then show "\<exists>s h'. inb (sim_bus disk) (port drive + 7) h = (s, h') \<and> s AND BSY \<noteq> 0 \<and> sim_busy sec k h'"
    by (simp add: sim_bus_def sim_inb_def first_port [OF assms] sim_busy_def sim_sector_def BSY_def)
next
  fix sec h assume "sim_busy sec 0 h"
  then show "sim_ready sec 0 h" by (simp add: sim_busy_def sim_ready_def)
next
  fix sec i h assume "sim_ready sec i h" "i < 128"
  then show "\<exists>s h'. inb (sim_bus disk) (port drive + 7) h = (s, h') \<and> s AND (ERR OR DF) = 0 \<and> s AND DRDY \<noteq> 0 \<and> s AND BSY = 0 \<and>
      s AND DRQ \<noteq> 0 \<and> sim_ready sec i h'"
    by (simp add: sim_bus_def sim_inb_def first_port [OF assms] sim_ready_def ERR_def DF_def DRDY_def BSY_def DRQ_def)
next
  fix sec i h assume "sim_ready sec i h" "i < 128"
  then show "\<exists>h'. inl (sim_bus disk) (port drive) h = (disk (128 * sec + i), h') \<and> sim_ready sec (Suc i) h'"
    by (simp add: sim_bus_def sim_inl_def sim_ready_def sim_sector_def)
next
  fix sec h assume "sim_ready sec 128 h"
  then show "sim_idle h" by (simp add: sim_ready_def sim_idle_def)
next
  show "ready_while_busy (sim_bus disk) drive sim_busy"
    by (simp add: ready_while_busy_def getStatus_def sim_bus_def sim_inb_def first_port [OF assms] sim_busy_def ERR_def DF_def DRDY_def)
qed simp

text \<open>The two drives of the first controller.\<close>

interpretation sim: ata_steady "sim_bus disk" 0 disk sim_sectors 3 sim_idle sim_busy sim_ready 4
  by (rule sim_steady) simp

interpretation sim1: ata_steady "sim_bus disk" 1 disk sim_sectors 3 sim_idle sim_busy sim_ready 4
  by (rule sim_steady) simp

end
