(* ===== verification/Ext2_Props.thy ===== *)
theory Ext2_Props
  imports Ext2_Thms Drive_Sim
begin

text \<open>
  Directories, i-nodes and the claims about the disk, files and the file system.
\<close>

section \<open>Entries of a block\<close>

text \<open>The entries of the block at \<open>ps\<close> follow each other from \<open>pos\<close> and fill the rest of the block.\<close>

fun dir_chain :: "u8 list \<Rightarrow> nat \<Rightarrow> nat \<Rightarrow> nat list \<Rightarrow> bool" where
  "dir_chain buffer pos togo [] \<longleftrightarrow> togo = 0"
| "dir_chain buffer pos togo (p # ps) \<longleftrightarrow> p = pos \<and> pos + 8 + unat (entry_name_len buffer pos) \<le> length buffer \<and>
     0 < unat (entry_rec_len buffer pos) \<and> unat (entry_rec_len buffer pos) \<le> togo \<and>
     dir_chain buffer (pos + unat (entry_rec_len buffer pos)) (togo - unat (entry_rec_len buffer pos)) ps"

lemma dir_chain_length: "dir_chain buffer pos togo ps \<Longrightarrow> length ps \<le> togo"
proof (induction ps arbitrary: pos togo)
  case (Cons p ps)
  let ?r = "unat (entry_rec_len buffer pos)"
  have "length ps \<le> togo - ?r" using Cons.IH [of "pos + ?r" "togo - ?r"] Cons.prems by simp
  moreover have "0 < ?r" "?r \<le> togo" using Cons.prems by simp_all
  ultimately show ?case by simp
qed simp

lemma chain_step:
  fixes togo :: u32
  assumes "dir_chain buffer pos (unat togo) (p # ps)"
  shows "togo \<noteq> 0" "unat (togo - ucast (entry_rec_len buffer pos)) = unat togo - unat (entry_rec_len buffer pos)"
    "\<not> length buffer < pos + 8" "p = pos"
proof -
  have u: "unat (ucast (entry_rec_len buffer pos) :: u32) = unat (entry_rec_len buffer pos)"
    by (simp add: unsigned_ucast_eq take_bit_eq_mod order.strict_trans2 [OF unsigned_less])
  have le: "(ucast (entry_rec_len buffer pos) :: u32) \<le> togo" using assms u by (simp only: word_le_nat_alt dir_chain.simps)
  show "unat (togo - ucast (entry_rec_len buffer pos)) = unat togo - unat (entry_rec_len buffer pos)"
    unfolding unat_sub [OF le] u ..
  show "togo \<noteq> 0" "\<not> length buffer < pos + 8" "p = pos" using assms by auto
qed

lemma count_block_spec:
  "dir_chain buffer pos (unat togo) ps \<Longrightarrow> length ps < fuel \<Longrightarrow>
    count_block fuel buffer pos togo e = Inr (e + of_nat (length (filter (\<lambda>p. entry_inode buffer p \<noteq> 0) ps)))"
proof (induction ps arbitrary: pos togo fuel e)
  case Nil
  then obtain f where "fuel = Suc f" by (cases fuel) auto
  then show ?case using Nil.prems(1) by (simp add: unat_eq_zero)
next
  case (Cons p ps)
  obtain f where f: "fuel = Suc f" using Cons.prems(2) by (cases fuel) auto
  note c = chain_step [OF Cons.prems(1)]
  have "dir_chain buffer (pos + unat (entry_rec_len buffer pos)) (unat (togo - ucast (entry_rec_len buffer pos))) ps"
    using Cons.prems(1) unfolding c(2) by simp
  note ih = Cons.IH [OF this, of f]
  show ?case using c Cons.prems(2) f by (simp add: ih add.assoc)
qed

section \<open>Names\<close>

definition entry_name :: "u8 list \<Rightarrow> nat \<Rightarrow> u8 list" where
  "entry_name buffer p = take (unat (entry_name_len buffer p)) (drop (p + 8) buffer)"

lemma name_matches_spec:
  "start + i + n \<le> length buffer \<Longrightarrow> 0 \<notin> set (take n (drop (start + i) buffer)) \<Longrightarrow> i \<le> length path \<Longrightarrow>
    name_matches buffer start path i n = Inr (take n (drop (start + i) buffer) = take n (drop i path))"
proof (induction n arbitrary: i)
  case (Suc n)
  let ?b = "buffer ! (start + i)"
  have s: "take (Suc n) (drop (start + i) buffer) = ?b # take n (drop (start + Suc i) buffer)"
    using Suc.prems(1) by (simp add: Cons_nth_drop_Suc [symmetric])
  then have nz: "?b \<noteq> 0" "0 \<notin> set (take n (drop (start + Suc i) buffer))" using Suc.prems(2) by auto
  show ?case
  proof (cases "i < length path")
    case True
    then have "take (Suc n) (drop i path) = path ! i # take n (drop (Suc i) path)" by (simp add: Cons_nth_drop_Suc [symmetric])
    then show ?thesis using Suc.IH [of "Suc i"] Suc.prems(1) nz True unfolding s by (simp add: path_at_def)
  next
    case False
    then show ?thesis using Suc.prems(1,3) nz unfolding s by (simp add: path_at_def)
  qed
qed simp

definition component :: "u8 list \<Rightarrow> u8 list" where
  "component path = takeWhile (\<lambda>c. c \<noteq> slash) path"

lemma component_iff:
  assumes "slash \<notin> set name"
  shows "name = component path \<longleftrightarrow>
    name = take (length name) path \<and> (length name = length path \<or> length name < length path \<and> path ! length name = slash)"
proof
  assume n: "name = component path"
  have "length (component path) \<le> length path" unfolding component_def by (rule length_takeWhile_le)
  moreover have "path ! length (component path) = slash" if "length (component path) < length path"
    using nth_length_takeWhile [of "\<lambda>c. c \<noteq> slash" path] that unfolding component_def by simp
  moreover have "component path = take (length (component path)) path"
    unfolding component_def by (rule takeWhile_eq_take)
  ultimately show "name = take (length name) path \<and> (length name = length path \<or> length name < length path \<and> path ! length name = slash)"
    using n by (metis le_neq_implies_less)
next
  assume a: "name = take (length name) path \<and> (length name = length path \<or> length name < length path \<and> path ! length name = slash)"
  let ?rest = "drop (length name) path"
  have p: "path = name @ ?rest" using a append_take_drop_id [of "length name" path] by metis
  have "takeWhile (\<lambda>c. c \<noteq> slash) ?rest = []"
  proof (cases "length name < length path")
    case True
    then have "?rest = slash # drop (Suc (length name)) path" using a by (simp add: Cons_nth_drop_Suc [symmetric])
    then show ?thesis by simp
  next
    case False
    then show ?thesis by simp
  qed
  moreover have "takeWhile (\<lambda>c. c \<noteq> slash) (name @ ?rest) = name @ takeWhile (\<lambda>c. c \<noteq> slash) ?rest"
    by (rule takeWhile_append2) (use assms in auto)
  ultimately show "name = component path" unfolding component_def using p by simp
qed

text \<open>The names of directories have no NUL and no slash.\<close>

definition names_ok :: "u8 list \<Rightarrow> nat list \<Rightarrow> bool" where
  "names_ok buffer ps \<longleftrightarrow> (\<forall>p\<in>set ps. 0 \<notin> set (entry_name buffer p) \<and> slash \<notin> set (entry_name buffer p))"

definition hit_of :: "u8 list \<Rightarrow> u8 list \<Rightarrow> nat \<Rightarrow> u32 \<times> nat \<times> u8" where
  "hit_of buffer path p = (entry_inode buffer p, length (component path), if component path = path then 0 else slash)"

definition first_entry :: "u8 list \<Rightarrow> nat list \<Rightarrow> u8 list \<Rightarrow> (u32 \<times> nat \<times> u8) option" where
  "first_entry buffer ps path = map_option (hit_of buffer path) (find (\<lambda>p. entry_name buffer p = component path) ps)"

lemma open_block_spec:
  "dir_chain buffer pos (unat togo) ps \<Longrightarrow> names_ok buffer ps \<Longrightarrow> 0 \<notin> set path \<Longrightarrow> length ps < fuel \<Longrightarrow>
    open_block fuel buffer pos togo path = Inr (first_entry buffer ps path)"
proof (induction ps arbitrary: pos togo fuel)
  case Nil
  then obtain f where "fuel = Suc f" by (cases fuel) auto
  then show ?case using Nil.prems(1) by (simp add: unat_eq_zero first_entry_def)
next
  case (Cons p ps)
  obtain f where f: "fuel = Suc f" using Cons.prems(4) by (cases fuel) auto
  note c = chain_step [OF Cons.prems(1)]
  let ?n = "unat (entry_name_len buffer pos)" and ?name = "entry_name buffer pos"
  have ln: "length ?name = ?n" using Cons.prems(1) by (auto simp: entry_name_def)
  have nm: "0 \<notin> set ?name" "slash \<notin> set ?name" using Cons.prems(2) c(4) by (auto simp: names_ok_def)
  have m: "name_matches buffer (pos + 8) path 0 ?n = Inr (?name = take ?n path)"
    using name_matches_spec [of "pos + 8" 0 ?n buffer path] Cons.prems(1) nm(1) by (simp add: entry_name_def)
  have "dir_chain buffer (pos + unat (entry_rec_len buffer pos)) (unat (togo - ucast (entry_rec_len buffer pos))) ps"
    using Cons.prems(1) unfolding c(2) by simp
  note ih = Cons.IH [OF this, of f]
  have ih': "open_block f buffer (pos + unat (entry_rec_len buffer pos)) (togo - ucast (entry_rec_len buffer pos)) path =
      Inr (first_entry buffer ps path)"
    using ih Cons.prems(2-4) f by (simp add: names_ok_def)
  note ci = component_iff [OF nm(2), of path]
  show ?case
  proof (cases "?name = component path")
    case True
    then have t: "?name = take ?n path" "?n = length path \<or> ?n < length path \<and> path ! ?n = slash" using ci ln by auto
    then have "path_at path ?n = Inr (if component path = path then 0 else slash)"
    proof (cases "?n = length path")
      case True
      then have "component path = path" using t(1) \<open>?name = component path\<close> by simp
      then show ?thesis using True by (simp add: path_at_def)
    next
      case False
      then have "component path \<noteq> path" using ln \<open>?name = component path\<close> by auto
      then show ?thesis using t(2) False by (simp add: path_at_def)
    qed
    then show ?thesis using c f m t(1) True ln
      by (auto simp: Let_def first_entry_def hit_of_def slash_def)
  next
    case False
    show ?thesis
    proof (cases "?name = take ?n path")
      case True
      then have "?n \<le> length path" using ln by (metis length_take min.cobounded1)
      then have l: "?n < length path" "path ! ?n \<noteq> slash" using False True ci ln by auto
      then have "path ! ?n \<noteq> 0" using Cons.prems(3) by (metis nth_mem)
      then show ?thesis using c f m True l False ih' by (simp add: Let_def first_entry_def path_at_def)
    next
      case nomatch: False
      then show ?thesis using c f m False ih' by (simp add: Let_def first_entry_def)
    qed
  qed
qed

section \<open>Directories\<close>

text \<open>The block \<open>b\<close> of the directory, its entries, and the first of several blocks that has an answer.\<close>

definition dir_block :: "(nat \<Rightarrow> u8) \<Rightarrow> u32 \<Rightarrow> u32 list \<Rightarrow> nat \<Rightarrow> u8 list" where
  "dir_block content bs dat b = bytes (file_content content (unat bs) dat) (b * unat bs) (unat bs)"

definition directory :: "(nat \<Rightarrow> u8) \<Rightarrow> u32 \<Rightarrow> u32 list \<Rightarrow> nat \<Rightarrow> (nat \<Rightarrow> nat list) \<Rightarrow> bool" where
  "directory content bs dat n ents \<longleftrightarrow> (\<forall>b<n. dir_chain (dir_block content bs dat b) 0 (unat bs) (ents b) \<and>
     names_ok (dir_block content bs dat b) (ents b))"

fun first_of :: "(nat \<Rightarrow> 'x option) \<Rightarrow> nat \<Rightarrow> nat \<Rightarrow> 'x option" where
  "first_of f b 0 = None"
| "first_of f b (Suc n) = (case f b of None \<Rightarrow> first_of f (Suc b) n | Some x \<Rightarrow> Some x)"

definition live_entries :: "u8 list \<Rightarrow> nat list \<Rightarrow> nat" where
  "live_entries buffer ps = length (filter (\<lambda>p. entry_inode buffer p \<noteq> 0) ps)"

context ext2_file
begin

lemma dir_read:
  assumes "holds s" "(b + Suc n) * unat bs = unat sz"
  shows "\<exists>s'. node_read_block bs D fresh (of_nat b) s = Inr (dir_block content bs dat b, s') \<and> holds s'"
    "unat (of_nat b :: u32) = b"
proof -
  have b1: "b * unat bs < unat sz" using assms(2) bs_pos(2) by (simp add: algebra_simps)
  have "b * 1 \<le> b * unat bs" by (rule mult_le_mono2) (use bs_pos in simp)
  then have "b < 2 ^ 32" using b1 unat_u32 [of sz] by linarith
  then show u: "unat (of_nat b :: u32) = b" by (simp add: unat_of_nat)
  show "\<exists>s'. node_read_block bs D fresh (of_nat b) s = Inr (dir_block content bs dat b, s') \<and> holds s'"
    using node_block [OF assms(1), of "of_nat b"] b1 unfolding u dir_block_def by simp
qed

lemma open_blocks_spec:
  assumes path: "0 \<notin> set path" and dir: "directory content bs dat N ents" and sz: "N * unat bs = unat sz"
  shows "holds s \<Longrightarrow> b + n = N \<Longrightarrow> \<exists>s'. open_blocks bs D fresh b n path s =
    Inr (first_of (\<lambda>b. first_entry (dir_block content bs dat b) (ents b) path) b n, s') \<and> holds s'"
proof (induction n arbitrary: b s)
  case (Suc n)
  have e: "(b + Suc n) * unat bs = unat sz" using Suc.prems(2) sz by simp
  obtain s1 where 1: "node_read_block bs D fresh (of_nat b) s = Inr (dir_block content bs dat b, s1)" "holds s1"
    using dir_read(1) [OF Suc.prems(1) e] by blast
  have "b < N" using Suc.prems(2) by simp
  then have d: "dir_chain (dir_block content bs dat b) 0 (unat bs) (ents b)" "names_ok (dir_block content bs dat b) (ents b)"
    using dir by (simp_all add: directory_def)
  have "length (ents b) < Suc (unat bs)" using dir_chain_length [OF d(1)] by simp
  note ob = open_block_spec [OF d path this]
  show ?case
  proof (cases "first_entry (dir_block content bs dat b) (ents b) path")
    case None
    then show ?thesis using Suc.IH [OF 1(2), of "Suc b"] Suc.prems(2) 1(1) ob by simp
  next
    case (Some h)
    then show ?thesis using 1 ob by simp
  qed
qed auto

lemma count_blocks_spec:
  assumes dir: "directory content bs dat N ents" and sz: "N * unat bs = unat sz"
  shows "holds s \<Longrightarrow> b + n = N \<Longrightarrow> n < fuel \<Longrightarrow> unat togo = n * unat bs \<Longrightarrow>
    \<exists>s'. count_blocks fuel bs D fresh (of_nat b) togo e s =
      Inr (e + of_nat (\<Sum>k\<leftarrow>[b..<b + n]. live_entries (dir_block content bs dat k) (ents k)), s') \<and> holds s'"
proof (induction n arbitrary: b s togo e fuel)
  case 0
  then obtain f where "fuel = Suc f" by (cases fuel) auto
  then show ?case using 0 by (simp add: unat_eq_zero)
next
  case (Suc n)
  obtain f where f: "fuel = Suc f" using Suc.prems(3) by (cases fuel) auto
  have e: "(b + Suc n) * unat bs = unat sz" using Suc.prems(2) sz by simp
  obtain s1 where 1: "node_read_block bs D fresh (of_nat b) s = Inr (dir_block content bs dat b, s1)" "holds s1"
    using dir_read(1) [OF Suc.prems(1) e] by blast
  have "b < N" using Suc.prems(2) by simp
  then have d: "dir_chain (dir_block content bs dat b) 0 (unat bs) (ents b)" using dir by (simp add: directory_def)
  have "length (ents b) < Suc (unat bs)" using dir_chain_length [OF d] by simp
  note cb = count_block_spec [OF d this]
  have "bs \<le> togo" using Suc.prems(4) by (simp add: word_le_nat_alt)
  then have t: "unat (togo - bs) = n * unat bs" using Suc.prems(4) unat_sub by fastforce
  have nz: "togo \<noteq> 0" using Suc.prems(4) bs_pos by auto
  have nb: "(of_nat b :: u32) + 1 = of_nat (Suc b)" by simp
  let ?e = "e + of_nat (live_entries (dir_block content bs dat b) (ents b))"
  obtain s2 where 2: "count_blocks f bs D fresh (of_nat (Suc b)) (togo - bs) ?e s1 =
      Inr (?e + of_nat (\<Sum>k\<leftarrow>[Suc b..<Suc b + n]. live_entries (dir_block content bs dat k) (ents k)), s2)" "holds s2"
    using Suc.IH [OF 1(2), of "Suc b" f "togo - bs" ?e] Suc.prems(2,3) f t by auto
  have "count_blocks fuel bs D fresh (of_nat b) togo e s = count_blocks f bs D fresh (of_nat b + 1) (togo - bs) ?e s1"
    using 1(1) f nz cb [of e] by (simp add: live_entries_def [symmetric] del: count_block.simps)
  moreover have "[b..<b + Suc n] = b # [Suc b..<Suc b + n]" by (simp add: upt_conv_Cons)
  ultimately show ?case using 2 unfolding nb by (intro exI [of _ s2]) (simp add: add.assoc del: upt_Suc)
qed

end

end
