(* ===== verification/Ext2_Claims.thy ===== *)
theory Ext2_Claims
  imports Ext2_Props
begin

text \<open>The claims about the drive, files and directories, and a small file system that they apply to.\<close>

section \<open>An example\<close>

text \<open>Every block of the disk is a directory with one entry: \<open>a\<close>, i-node 11.\<close>

definition small_disk :: "nat \<Rightarrow> u32" where
  "small_disk k = (if k mod 256 = 0 then 11 else if k mod 256 = 1 then 0x00010400 else if k mod 256 = 2 then 0x61 else 0)"

definition small_device :: "sim ide device" where
  "small_device = ide_device (sim_bus small_disk) 0 4"

definition small_state :: "sim ide" where
  "small_state = \<lparr>hw = sim_off, nRead = 0\<rparr>"

definition small_data :: "u32 list" where
  "small_data = replicate 15 5"

definition small_node :: node where
  "small_node = (new_node 2)\<lparr>mode := 0x4000, nsize := 1024, data := small_data\<rparr>"

definition zeros :: "nat \<Rightarrow> u8 list" where
  "zeros n = replicate n 0"

lemma small_idle: "sim_idle (hw small_state)"
  by (simp add: small_state_def sim_off_def sim_idle_def)

lemma small_store: "block_store small_device (\<lambda>s. sim_idle (hw s)) (disk_bytes small_disk) (drive_bytes sim_sectors)"
  unfolding small_device_def by (rule sim.drive_is_store)

lemma sim_bytes: "drive_bytes sim_sectors = 10485760"
  by (simp add: drive_bytes_def sim_sectors_def)

lemma small_ptr: "k < 1 \<Longrightarrow> file_ptr c 1024 small_data k = 5"
  by (simp add: file_ptr_def small_data_def)

lemma small_inside: "file_inside (drive_bytes sim_sectors) (disk_bytes small_disk) 1024 small_data 1024"
  using small_ptr by (auto simp: file_inside_def sim_bytes unat_div)

interpretation small: ext2_file small_device "\<lambda>s. sim_idle (hw s)" "disk_bytes small_disk" "drive_bytes sim_sectors" 1024 small_data 1024 zeros
  using small_store small_inside by (simp add: ext2_file_def ext2_file_axioms_def zeros_def)

lemma small_node_ok: "node_ok (\<lambda>s. sim_idle (hw s)) (disk_bytes small_disk) 1024 small_data 1024 (small_node, small_state)"
  using small_idle by (simp add: node_ok_def small_node_def new_node_def)

lemma small_bytes: "n < 1024 \<Longrightarrow> file_content (disk_bytes small_disk) 1024 small_data n = disk_bytes small_disk n"
proof -
  assume n: "n < 1024"
  have "file_content (disk_bytes small_disk) 1024 small_data n = disk_bytes small_disk (5120 + n)"
    using n small_ptr [of 0] by (simp add: file_content_def)
  moreover have "(5120 + n) mod 4 = n mod 4" using mod_mult_self1 [of n 1280 4] by (simp add: add.commute)
  moreover have "(5120 + n) div 4 = 1280 + n div 4" using div_mult_self1 [of 4 n 1280] by (simp add: add.commute)
  moreover have "(1280 + n div 4) mod 256 = n div 4 mod 256"
    using mod_mult_self1 [of "n div 4" 5 256] by (simp add: add.commute)
  ultimately show ?thesis by (simp only: disk_bytes_def small_disk_def)
qed

lemma small_bytes_values: "disk_bytes small_disk 0 = 11" "disk_bytes small_disk (Suc 0) = 0" "disk_bytes small_disk 2 = 0"
  "disk_bytes small_disk 3 = 0" "disk_bytes small_disk 4 = 0" "disk_bytes small_disk 5 = 4" "disk_bytes small_disk 6 = 1"
  "disk_bytes small_disk 7 = 0" "disk_bytes small_disk 8 = 0x61"
  by (simp_all add: disk_bytes_def small_disk_def)

section \<open>The claims\<close>

text \<open>
  C26. The disk driver and the block layer read what is on the disk. On a drive that keeps to the ATA protocol (only BSY counts while it is
  busy; nothing is said of sectors it does not have) and is ready again within the fuel, \<open>read_all\<close> of any range within its sectors, whatever the
  alignment, ends; it returns its number and exactly the bytes of the drive there and leaves the drive idle, or stops with
  \<open>drive error\<close> or \<open>drive is not ready\<close>. Beyond the protocol, if the drive shows DRDY and neither ERR nor DF while it is busy, as
  the drives of QEMU do, then it always returns the bytes: \<open>waitForDrive\<close> looks at these bits before it waits for BSY.
\<close>

theorem drive_reads:
  assumes "ata_polled B drive disk sectors delay idle busy ready fuel" "idle (hw s)" "unat offset + unat n \<le> drive_bytes sectors"
  shows "(\<exists>s'. read_all (ide_device B drive fuel) offset n s =
      Inr ((int (unat n), bytes (disk_bytes disk) (unat offset) (unat n)), s') \<and> idle (hw s')) \<or>
    \<not> ready_while_busy B drive busy \<and> (\<exists>e\<in>drive_errors. read_all (ide_device B drive fuel) offset n s = Inl e)"
proof (cases "ready_while_busy B drive busy")
  case True
  then have "ata_steady B drive disk sectors delay idle busy ready fuel" using assms(1) by (simp add: ata_steady_def ata_steady_axioms_def)
  from block_store.read_all_inside [OF ata_steady.drive_is_store [OF this], of s offset n] show ?thesis using assms(2,3) by simp
next
  case False
  have z: "unat (size_in_bytes (ide_device B drive fuel)) = 2 ^ 32 - 1" by (rule ide_size)
  have "unat offset + unat n \<le> 2 ^ 32 - 1" using assms(3) by (simp add: drive_bytes_def)
  then have o: "offset \<le> size_in_bytes (ide_device B drive fuel)" and
    m: "min (unat n) (unat (size_in_bytes (ide_device B drive fuel)) - unat offset) = unat n"
    using z by (auto simp: word_le_nat_alt)
  show ?thesis
    using flaky_store.read_all_flaky [OF ata_polled.drive_is_flaky [OF assms(1)], of s offset n] assms(2,3) o False unfolding m by blast
qed

theorem drive_reads_witness: "\<exists>s'. read_all small_device 4 5 small_state = Inr ((5, [0, 4, 1, 0, 0x61]), s')"
proof -
  have "bytes (disk_bytes small_disk) 4 5 = [0, 4, 1, 0, 0x61]"
    by (simp add: bytes_def upt_conv_Cons small_bytes_values)
  then show ?thesis
    using drive_reads [OF sim.ata_polled_axioms small_idle, of 4 5 small_disk] sim.steady [of small_disk] by (auto simp: small_device_def sim_bytes)
qed

text \<open>
  C24. A file reads as its blocks in order: over any device, a node whose size needs no doubly indirect block, with its blocks in
  the first \<open>cap\<close> bytes of the device, those that can be read, returns from \<open>read_all\<close> the bytes that its direct pointers and its table of indirect pointers select,
  whether its cache is empty or holds a block from before.
\<close>

theorem file_reads:
  fixes n :: u32
  assumes "block_store D ok content cap" "file_inside cap content bs dat sz" "length (fresh (unat bs)) = unat bs"
    "node_ok ok content bs dat sz (nd, d)" "offset \<le> sz"
  defines "k \<equiv> min (unat n) (unat sz - unat offset)"
  shows "\<exists>s. read_all (node_device bs D fresh nd) offset n (nd, d) =
    Inr ((int k, map (\<lambda>i. content (file_ptr content (unat bs) dat (i div unat bs) * unat bs + i mod unat bs))
      [unat offset..<unat offset + k]), s) \<and> node_ok ok content bs dat sz s"
proof -
  have E: "ext2_file D ok content cap bs dat sz fresh"
    using assms(1-3) by (simp add: ext2_file_def ext2_file_axioms_def)
  have "nsize nd = sz" using assms(4) by (simp add: node_ok_def)
  then have dev: "node_device bs D fresh nd = file_device bs D fresh sz" by (simp add: node_device_file)
  show ?thesis
    using ext2_file.contents_read [OF E assms(4,5), where n = n] unfolding dev k_def
    by (simp add: bytes_def file_content_def [abs_def])
qed

theorem file_reads_witness: "\<exists>s. read_all (node_device 1024 small_device zeros small_node) 8 1 (small_node, small_state) = Inr ((1, [0x61]), s)"
  using file_reads [OF small_store small_inside _ small_node_ok, of zeros 8 1] small_ptr [of 0]
  by (auto simp: zeros_def disk_bytes_def small_disk_def)

text \<open>
  Looking up a name in a directory finds the first entry with that name: in a directory whose blocks are filled by
  their entries, the scan of \<open>open\<close> returns the i-node of the first entry whose name is the first component of the path, and
  nothing if there is none.
\<close>

theorem directory_lookup:
  assumes "block_store D ok content cap" "file_inside cap content bs dat sz" "length (fresh (unat bs)) = unat bs"
    "node_ok ok content bs dat sz s" "n * unat bs = unat sz" "directory content bs dat n ents" "0 \<notin> set path"
  shows "\<exists>s'. open_blocks bs D fresh 0 n path s =
    Inr (first_of (\<lambda>b. first_entry (dir_block content bs dat b) (ents b) path) 0 n, s')"
proof -
  have E: "ext2_file D ok content cap bs dat sz fresh"
    using assms(1-3) by (simp add: ext2_file_def ext2_file_axioms_def)
  show ?thesis using ext2_file.open_blocks_spec [OF E assms(7,6,5,4), of 0 n] by auto
qed

lemma small_block: "n < 1024 \<Longrightarrow> dir_block (disk_bytes small_disk) 1024 small_data 0 ! n = disk_bytes small_disk n"
  by (simp add: dir_block_def bytes_nth small_bytes)

lemma small_length: "length (dir_block (disk_bytes small_disk) 1024 small_data 0) = 1024"
  by (simp add: dir_block_def)

lemma small_entry:
  "entry_inode (dir_block (disk_bytes small_disk) 1024 small_data 0) 0 = 11"
  "entry_rec_len (dir_block (disk_bytes small_disk) 1024 small_data 0) 0 = 1024"
  "entry_name_len (dir_block (disk_bytes small_disk) 1024 small_data 0) 0 = 1"
  "entry_name (dir_block (disk_bytes small_disk) 1024 small_data 0) 0 = [0x61]"
proof -
  let ?b = "dir_block (disk_bytes small_disk) 1024 small_data 0"
  show "entry_inode ?b 0 = 11" "entry_rec_len ?b 0 = 1024" and n: "entry_name_len ?b 0 = 1"
    by (simp_all add: entry_inode_def entry_rec_len_def entry_name_len_def le32_def le16_def small_block small_length small_bytes_values)
  have "take 1 (drop 8 ?b) = [?b ! 8]" using small_length by (simp add: take_Suc hd_drop_conv_nth)
  then show "entry_name ?b 0 = [0x61]" using n by (simp add: entry_name_def small_block small_bytes_values)
qed

lemma small_directory: "directory (disk_bytes small_disk) 1024 small_data 1 (\<lambda>_. [0])"
  using small_entry small_length by (simp add: directory_def names_ok_def slash_def)

theorem directory_lookup_witness:
  "\<exists>s'. open_blocks 1024 small_device zeros 0 1 [0x61, slash, 0x62] (small_node, small_state) = Inr (Some (11, 1, slash), s')"
  using directory_lookup [OF small_store small_inside _ small_node_ok _ small_directory, of zeros "[0x61, slash, 0x62]"]
    small_entry
  by (auto simp: zeros_def slash_def first_entry_def hit_of_def component_def)

text \<open>
  \<open>entry_count\<close> counts the entries in use: for a directory whose size is a whole number of blocks it returns how many
  entries have an i-node, and remembers it.
\<close>

theorem entry_count_exact:
  assumes "block_store D ok content cap" "file_inside cap content bs dat sz" "length (fresh (unat bs)) = unat bs"
    "node_ok ok content bs dat sz (nd, d)" "n * unat bs = unat sz" "directory content bs dat n ents" "n < fuel" "entries nd = 0"
  shows "\<exists>nd' d'. entry_count fuel bs D fresh (nd, d) =
      Inr (of_nat (\<Sum>k\<leftarrow>[0..<n]. live_entries (dir_block content bs dat k) (ents k)), (nd', d')) \<and>
    entries nd' = of_nat (\<Sum>k\<leftarrow>[0..<n]. live_entries (dir_block content bs dat k) (ents k))"
proof -
  have E: "ext2_file D ok content cap bs dat sz fresh"
    using assms(1-3) by (simp add: ext2_file_def ext2_file_axioms_def)
  have "nsize nd = sz" using assms(4) by (simp add: node_ok_def)
  then obtain s' where "count_blocks fuel bs D fresh 0 (nsize nd) 0 (nd, d) =
      Inr (of_nat (\<Sum>k\<leftarrow>[0..<n]. live_entries (dir_block content bs dat k) (ents k)), s')"
    using ext2_file.count_blocks_spec [OF E assms(6,5,4), of 0 n fuel sz 0] assms(5,7) by auto
  then show ?thesis using assms(8) by (cases s') (auto simp: entry_count_def)
qed

theorem entry_count_exact_witness:
  "\<exists>nd' d'. entry_count 2 1024 small_device zeros (small_node, small_state) = Inr (1, (nd', d')) \<and> entries nd' = 1"
  using entry_count_exact [OF small_store small_inside _ small_node_ok _ small_directory, of zeros 2] small_entry
  by (simp add: zeros_def small_node_def new_node_def live_entries_def)

text \<open>
  A doubly indirect block is looked up in the wrong place: the second pointer of block number \<open>num\<close> is read at byte
  \<open>num mod pc1\<close> of its table instead of byte \<open>4 (num mod pc1)\<close>.
\<close>

theorem doubly_indirect_unscaled:
  assumes "block_store D ok content cap" "ok d"
    and "unat (dat ! 13 * bs + num div pc1 * 4) + 4 \<le> cap"
    and "unat (le32_at content (unat (dat ! 13 * bs + num div pc1 * 4)) * bs + num mod pc1) + 4 \<le> cap"
  shows "\<exists>d'. doubly bs D dat pc1 num d =
    Inr (le32_at content (unat (le32_at content (unat (dat ! 13 * bs + num div pc1 * 4)) * bs + num mod pc1)) * bs, d')"
proof -
  obtain d1 where 1: "follow D (dat ! 13 * bs + num div pc1 * 4) d =
      Inr (le32_at content (unat (dat ! 13 * bs + num div pc1 * 4)), d1)" "ok d1"
    using block_store.follow_pointer [OF assms(1-3)] by blast
  show ?thesis using block_store.follow_pointer [OF assms(1) 1(2) assms(4)] 1(1) by (auto simp: doubly_def)
qed

theorem doubly_indirect_unscaled_witness:
  "\<exists>d'. doubly 1024 small_device small_data 256 6 small_state = Inr (le32_at (disk_bytes small_disk) 11270 * 1024, d')"
proof -
  have "bytes (disk_bytes small_disk) 5120 4 = [11, 0, 0, 0]"
    by (simp add: bytes_def upt_conv_Cons disk_bytes_def small_disk_def)
  then have "le32_at (disk_bytes small_disk) 5120 = 11" by (simp add: le32_at_def le32_def)
  then show ?thesis
    using doubly_indirect_unscaled [OF small_store small_idle, of small_data 1024 6 256]
    by (simp add: small_data_def sim_bytes)
qed

text \<open>
  \<open>find\<close> panics on a deleted entry: an entry without i-node and name matches every path, so its i-node 0 is looked up, and the
  assertion on its block group fails.
\<close>

theorem find_panics_on_deleted:
  assumes "0 < unat togo" "pos + 8 \<le> length buffer" "entry_name_len buffer pos = 0" "entry_inode buffer pos = 0"
    "inode_count_per_group fs \<noteq> 0" "block_group_count fs \<le> (0 - 1) div inode_count_per_group fs"
  shows "find_block (Suc fuel) fs D fresh buffer pos togo name d = Inl (Assertion ''block_group < block_group_count'')"
proof -
  have "togo \<noteq> 0" using assms(1) by auto
  moreover have "\<not> (- 1) div inode_count_per_group fs < block_group_count fs" using assms(6) by (simp add: not_less)
  ultimately show ?thesis using assms(2-5) by (simp add: Let_def getInode_def ASSERT_def)
qed

theorem find_panics_on_deleted_witness:
  "find_block 1 \<lparr>inode_count = 16, block_count = 8, fs_block_size = 8, block_count_per_group = 8,
      inode_count_per_group = 16, block_group_count = 1, group_table = [3]\<rparr> small_device zeros [0, 0, 0, 0, 8, 0, 0, 0] 0 8 [0x61] small_state =
    Inl (Assertion ''block_group < block_group_count'')"
  using find_panics_on_deleted [of 8 0 "[0, 0, 0, 0, 8, 0, 0, 0]" "\<lparr>inode_count = 16, block_count = 8, fs_block_size = 8,
      block_count_per_group = 8, inode_count_per_group = 16, block_group_count = 1, group_table = [3]\<rparr>" 0]
  by (simp add: entry_name_len_def entry_inode_def le16_def le32_def word_le_nat_alt unat_div unsigned_minus_1_eq_mask mask_eq_exp_minus_1)

text \<open>What a device says about i-node \<open>ino\<close>: where it is, and what is in it.\<close>

definition inode_offset :: "ext2 \<Rightarrow> u32 \<Rightarrow> nat" where
  "inode_offset fs ino = unat (group_table fs ! ((unat ino - 1) div unat (inode_count_per_group fs))) * unat (fs_block_size fs) +
     (unat ino - 1) mod unat (inode_count_per_group fs) * 128"

definition inode_at :: "(nat \<Rightarrow> u8) \<Rightarrow> ext2 \<Rightarrow> u32 \<Rightarrow> node" where
  "inode_at content fs ino = (let off = inode_offset fs ino in
     (new_node ino)\<lparr>mode := le16 (bytes content off 2), link_count := le16 (bytes content (off + 26) 2), nsize := le32_at content (off + 4),
       data := map (\<lambda>i. le32_at content (off + 40 + 4 * i)) [0..<15]\<rparr>)"

definition inode_inside :: "nat \<Rightarrow> ext2 \<Rightarrow> u32 \<Rightarrow> bool" where
  "inode_inside cap fs ino \<longleftrightarrow> 0 < ino \<and> inode_count_per_group fs \<noteq> 0 \<and>
     (unat ino - 1) div unat (inode_count_per_group fs) < unat (block_group_count fs) \<and>
     inode_offset fs ino + 128 \<le> cap"

lemma le32_drop: "k + 4 \<le> n \<Longrightarrow> le32 (drop k (bytes content off n)) = le32_at content (off + k)"
  by (simp add: le32_at_def le32_def bytes_nth add.assoc)

lemma getInode_spec:
  assumes "block_store D ok content cap" "ok d" "length (fresh 128) = 128" "inode_inside cap fs ino"
  shows "\<exists>d'. getInode fs D fresh ino d = Inr (inode_at content fs ino, d') \<and> ok d'"
proof -
  let ?c = "inode_count_per_group fs" and ?g = "(unat ino - 1) div unat (inode_count_per_group fs)" and ?off = "inode_offset fs ino"
  let ?T = "group_table fs ! ?g * fs_block_size fs"
  note szw = block_store.cap_u32 [OF assms(1)]
  have ino: "0 < ino" "?c \<noteq> 0" "?g < unat (block_group_count fs)" "?off + 128 \<le> cap"
    using assms(4) by (simp_all add: inode_inside_def)
  have i1: "unat (ino - 1) = unat ino - 1" using ino(1) by (simp add: unat_minus_one word_gt_0)
  have ug: "unat ((ino - 1) div ?c) = ?g" "unat ((ino - 1) mod ?c) = (unat ino - 1) mod unat ?c"
    by (simp_all add: unat_div unat_mod i1)
  have t: "unat ?T = unat (group_table fs ! ?g) * unat (fs_block_size fs)"
    using ino(4) szw by (simp add: unat_word_ariths inode_offset_def)
  have m: "unat ((ino - 1) mod ?c * inode_size) = (unat ino - 1) mod unat ?c * 128"
    using ino(4) szw ug(2) by (simp add: unat_word_ariths inode_size_def inode_offset_def)
  have o: "unat (?T + (ino - 1) mod ?c * inode_size) = ?off"
    using t m ino(4) szw by (simp add: unat_plus_if' inode_offset_def)
  have gl: "(ino - 1) div ?c < block_group_count fs" using ug(1) ino(3) by (simp add: word_less_nat_alt)
  have iz: "unat inode_size = 128" by (simp add: inode_size_def)
  obtain d' where r: "read_all D (?T + (ino - 1) mod ?c * inode_size) inode_size d = Inr ((128, bytes content ?off 128), d')" "ok d'"
    using block_store.read_all_inside [OF assms(1,2), of "?T + (ino - 1) mod ?c * inode_size" inode_size] ino(4)
    unfolding o iz by auto
  have f: "fill (fresh 128) (bytes content ?off 128) = bytes content ?off 128" using assms(3) by (simp add: fill_all)
  have d4: "le32 (drop k (bytes content ?off 128)) = le32_at content (?off + k)" if "k + 4 \<le> 128" for k
    using le32_drop [OF that] .
  have d2: "le16 (drop k (bytes content ?off 128)) = le16 (bytes content (?off + k) 2)" if "k + 2 \<le> 128" for k
    using that by (simp add: le16_def bytes_nth add.assoc)
  have dd: "map (\<lambda>i. le32 (drop (40 + 4 * i) (bytes content ?off 128))) [0..<15] = map (\<lambda>i. le32_at content (?off + 40 + 4 * i)) [0..<15]"
    using d4 by (auto simp: add.assoc)
  have "getInode fs D fresh ino d = Inr ((new_node ino)\<lparr>mode := le16 (bytes content ?off 128), nsize := le32 (drop 4 (bytes content ?off 128)),
      link_count := le16 (drop 26 (bytes content ?off 128)), data := map (\<lambda>i. le32 (drop (40 + 4 * i) (bytes content ?off 128))) [0..<15]\<rparr>, d')"
    unfolding getInode_def Let_def ug(1) using ino(2) gl r f iz by simp
  then show ?thesis unfolding dd using d4 [of 4] d2 [of 0] d2 [of 26] r(2) by (simp add: new_node_def inode_at_def Let_def)
qed

text \<open>
  \<open>getInode\<close> reads the i-node where the layout of the file system puts it: at \<open>128 i\<close> in the i-node table of its group, its
  mode, size, links and pointers from bytes 0, 4, 26 and 40.
\<close>

theorem getInode_reads:
  assumes "block_store D ok content cap" "ok d" "length (fresh 128) = 128" "0 < ino" "inode_count_per_group fs \<noteq> 0"
    and g: "g = (unat ino - 1) div unat (inode_count_per_group fs)" "g < unat (block_group_count fs)"
    and off: "off = unat (group_table fs ! g) * unat (fs_block_size fs) +
        (unat ino - 1) mod unat (inode_count_per_group fs) * 128" "off + 128 \<le> cap"
  shows "\<exists>nd d'. getInode fs D fresh ino d = Inr (nd, d') \<and> number nd = ino \<and> cache nd = None \<and>
    mode nd = le16 (bytes content off 128) \<and> nsize nd = le32_at content (off + 4) \<and>
    data nd = map (\<lambda>i. le32_at content (off + 40 + 4 * i)) [0..<15]"
proof -
  have o: "inode_offset fs ino = off" using g off by (simp add: inode_offset_def)
  then have "inode_inside cap fs ino" using assms by (simp add: inode_inside_def)
  moreover have "le16 (bytes content off 2) = le16 (bytes content off 128)" by (simp add: le16_def bytes_nth)
  ultimately show ?thesis
    using getInode_spec [OF assms(1,2), of fresh fs ino, OF assms(3)] o by (fastforce simp: inode_at_def new_node_def Let_def)
qed

theorem getInode_reads_witness:
  "\<exists>nd d'. getInode \<lparr>inode_count = 16, block_count = 8, fs_block_size = 1024, block_count_per_group = 8,
      inode_count_per_group = 16, block_group_count = 1, group_table = [3]\<rparr> small_device zeros 1 small_state = Inr (nd, d') \<and> number nd = 1"
  using getInode_reads [OF small_store small_idle, of zeros 1 "\<lparr>inode_count = 16, block_count = 8, fs_block_size = 1024,
      block_count_per_group = 8, inode_count_per_group = 16, block_group_count = 1, group_table = [3]\<rparr>" 0 3072]
  by (auto simp: zeros_def sim_bytes)

end
