(* ===== verification/Ext2_Open.thy ===== *)
theory Ext2_Open
  imports Ext2_Claims
begin

text \<open>
  Mounting and opening: what a disk says about its file system and about a path, as rules over the bytes of the disk, and
  that \<open>Ext2\<close>'s constructor and \<open>open\<close> find it.
\<close>

section \<open>The superblock\<close>

text \<open>The file system that the disk describes, from its superblock and the table of its groups.\<close>

definition super_at :: "(nat \<Rightarrow> u8) \<Rightarrow> ext2" where
  "super_at content =
     (let bs = push_bit (unat (le32_at content 1048)) 1024;
          groups = (le32_at content 1024 - 1) div le32_at content 1064 + 1;
          table = unat (bs * (if bs = 1024 then 2 else 1))
      in \<lparr>inode_count = le32_at content 1024, block_count = le32_at content 1028, fs_block_size = bs,
          block_count_per_group = le32_at content 1056, inode_count_per_group = le32_at content 1064, block_group_count = groups,
          group_table = map (\<lambda>i. le32_at content (table + 32 * i + 8)) [0..<unat groups]\<rparr>)"

text \<open>It is consistent, and the superblock, the table of groups and the root are in the first \<open>cap\<close> bytes.\<close>

definition super_ok :: "nat \<Rightarrow> (nat \<Rightarrow> u8) \<Rightarrow> bool" where
  "super_ok cap content \<longleftrightarrow> 1536 \<le> cap \<and> (let fs = super_at content; bs = fs_block_size fs; table = bs * (if bs = 1024 then 2 else 1) in
     inode_count_per_group fs \<noteq> 0 \<and> block_count_per_group fs \<noteq> 0 \<and>
     block_group_count fs = (block_count fs - 1) div block_count_per_group fs + 1 \<and>
     unat table + unat (block_group_count fs) * 32 \<le> cap \<and> inode_inside cap fs 2)"

lemma group_entries: "map (\<lambda>i. le32 (drop (32 * i + 8) (bytes content t (g * 32)))) [0..<g] = map (\<lambda>i. le32_at content (t + 32 * i + 8)) [0..<g]"
proof (rule map_cong [OF refl])
  fix i assume "i \<in> set [0..<g]"
  then have "32 * i + 8 + 4 \<le> g * 32" by simp
  from le32_drop [OF this] show "le32 (drop (32 * i + 8) (bytes content t (g * 32))) = le32_at content (t + 32 * i + 8)"
    by (simp only: add.assoc)
qed

lemma mount_reads:
  assumes D: "block_store D ok content cap" "ok d" "block_size D = 512"
    and fresh: "\<And>n. length (fresh n) = n" and super: "super_ok cap content"
  shows "\<exists>d'. ext2_mount D fresh d = Inr ((super_at content, inode_at content (super_at content) 2), d') \<and> ok d'"
proof -
  let ?fs = "super_at content"
  let ?bs = "push_bit (unat (le32_at content 1048)) 1024 :: u32" and ?groups = "(le32_at content 1024 - 1) div le32_at content 1064 + 1"
  let ?table = "?bs * (if ?bs = 1024 then 2 else 1)"
  have fs: "fs_block_size ?fs = ?bs" "block_group_count ?fs = ?groups" "inode_count_per_group ?fs = le32_at content 1064"
    "block_count ?fs = le32_at content 1028" "block_count_per_group ?fs = le32_at content 1056"
    by (simp_all add: super_at_def Let_def)
  have ok: "le32_at content 1064 \<noteq> 0" "le32_at content 1056 \<noteq> 0"
    "?groups = (le32_at content 1028 - 1) div le32_at content 1056 + 1"
    "unat ?table + unat ?groups * 32 \<le> cap" "inode_inside cap ?fs 2"
    using super [unfolded super_ok_def Let_def fs] by blast+
  have c: "1536 \<le> cap" using super by (simp add: super_ok_def)
  obtain d1 where 1: "read_block D 2 d = Inr (bytes content 1024 512, d1)" "ok d1"
    using block_store.serves [OF D(1,2), of 2] D(3) c by auto
  have w: "le32 (bytes content 1024 512) = le32_at content 1024" "le32 (drop 4 (bytes content 1024 512)) = le32_at content 1028"
    "le32 (drop 24 (bytes content 1024 512)) = le32_at content 1048" "le32 (drop 32 (bytes content 1024 512)) = le32_at content 1056"
    "le32 (drop 40 (bytes content 1024 512)) = le32_at content 1064"
    using le32_drop [of 0 512 content 1024] le32_drop [of 4 512 content 1024] le32_drop [of 24 512 content 1024]
      le32_drop [of 32 512 content 1024] le32_drop [of 40 512 content 1024] by simp_all
  have t: "unat (?groups * 32) = unat ?groups * 32"
  proof -
    have x: "unat (g * 32) = unat g * 32" if "unat g * 32 < 2 ^ 32" for g :: u32 using that by (simp add: unat_word_ariths)
    have "unat ?groups * 32 < 2 ^ 32" using ok(4) block_store.cap_u32 [OF D(1)] by linarith
    then show ?thesis by (rule x)
  qed
  have "unat ?table + unat (?groups * 32) \<le> cap" using ok(4) unfolding t .
  then obtain d2 where 2: "load D ?table (?groups * 32) (fresh (unat (?groups * 32))) d1 =
      Inr (bytes content (unat ?table) (unat (?groups * 32)), d2)" "ok d2"
    using block_store.load_full [OF D(1) 1(2), of ?table "?groups * 32" "fresh (unat (?groups * 32))"] fresh by blast
  have "map (\<lambda>i. le32 (drop (32 * i + 8) (bytes content (unat ?table) (unat ?groups * 32)))) [0..<unat ?groups] =
      map (\<lambda>i. le32_at content (unat ?table + 32 * i + 8)) [0..<unat ?groups]" by (rule group_entries)
  then have 3: "\<lparr>inode_count = le32_at content 1024, block_count = le32_at content 1028, fs_block_size = ?bs,
      block_count_per_group = le32_at content 1056, inode_count_per_group = le32_at content 1064, block_group_count = ?groups,
      group_table = map (\<lambda>i. le32 (drop (32 * i + 8) (bytes content (unat ?table) (unat (?groups * 32))))) [0..<unat ?groups]\<rparr> = ?fs"
    unfolding t by (simp add: super_at_def Let_def)
  obtain d3 where 4: "getInode ?fs D fresh 2 d2 = Inr (inode_at content ?fs 2, d3)" "ok d3"
    using getInode_spec [OF D(1) 2(2), of fresh ?fs 2] fresh ok(5) by auto
  have "(le32_at content 1064 = 0 \<or> le32_at content 1056 = 0) = False" using ok(1,2) by simp
  then have "ext2_mount D fresh d = Inr ((?fs, inode_at content ?fs 2), d3)"
    unfolding ext2_mount_def 1(1) bindE_Inr Let_def w split_conv using ok(3) 2(1) 4(1) 3 by simp
  then show ?thesis using 4(2) by blast
qed

section \<open>Names\<close>

text \<open>The directory has the name; the first entry with it says which i-node.\<close>

definition inode_named :: "(nat \<Rightarrow> u8) \<Rightarrow> u32 \<Rightarrow> u32 list \<Rightarrow> (nat \<Rightarrow> nat list) \<Rightarrow> nat \<Rightarrow> u8 list \<Rightarrow> u32 option" where
  "inode_named content bs dat ents n name =
     first_of (\<lambda>b. map_option (entry_inode (dir_block content bs dat b)) (find (\<lambda>p. entry_name (dir_block content bs dat b) p = name) (ents b))) 0 n"

definition has_entry :: "nat \<Rightarrow> (nat \<Rightarrow> u8) \<Rightarrow> ext2 \<Rightarrow> node \<Rightarrow> u8 list \<Rightarrow> u32 \<Rightarrow> bool" where
  "has_entry cap content fs dir name ino \<longleftrightarrow> is_dir dir \<and> file_inside cap content (fs_block_size fs) (data dir) (nsize dir) \<and>
     slash \<notin> set name \<and> 0 \<notin> set name \<and> inode_inside cap fs ino \<and>
     (\<exists>n ents. n * unat (fs_block_size fs) = unat (nsize dir) \<and> directory content (fs_block_size fs) (data dir) n ents \<and>
        inode_named content (fs_block_size fs) (data dir) ents n name = Some ino)"

text \<open>From a directory along names to a node and the directory that holds it.\<close>

inductive leads :: "nat \<Rightarrow> (nat \<Rightarrow> u8) \<Rightarrow> ext2 \<Rightarrow> node \<Rightarrow> u8 list list \<Rightarrow> node \<Rightarrow> node \<Rightarrow> bool" for cap content fs where
  here: "has_entry cap content fs dir name ino \<Longrightarrow> leads cap content fs dir [name] dir (inode_at content fs ino)"
| down: "has_entry cap content fs dir name ino \<Longrightarrow> leads cap content fs (inode_at content fs ino) names dir' nd \<Longrightarrow>
    leads cap content fs dir (name # names) dir' nd"

fun path_of :: "u8 list list \<Rightarrow> u8 list" where
  "path_of [] = []"
| "path_of [name] = name"
| "path_of (name # names) = name @ slash # path_of names"

text \<open>Where a path starts, and where it leads through at most \<open>k\<close> ends of links, each seen from its own directory.\<close>

definition starts :: "node \<Rightarrow> node \<Rightarrow> u8 list \<Rightarrow> node \<times> u8 list" where
  "starts root dir path = (case path of [] \<Rightarrow> (dir, []) | c # cs \<Rightarrow> if c = slash then (root, cs) else (dir, path))"

definition link_target :: "(nat \<Rightarrow> u8) \<Rightarrow> u32 \<Rightarrow> node \<Rightarrow> u8 list" where
  "link_target content bs nd = c_string
     (if nsize nd < 60 then take (unat (nsize nd)) (concat (map word_bytes (data nd)))
      else bytes (file_content content (unat bs) (data nd)) 0 (unat (nsize nd)))"

inductive resolves :: "nat \<Rightarrow> (nat \<Rightarrow> u8) \<Rightarrow> ext2 \<Rightarrow> node \<Rightarrow> nat \<Rightarrow> node \<Rightarrow> u8 list \<Rightarrow> node \<Rightarrow> bool" for cap content fs root where
  plain: "starts root dir path = (from, path_of names) \<Longrightarrow> leads cap content fs from names dir' nd \<Longrightarrow> \<not> is_symlink nd \<Longrightarrow> \<not> is_dir nd \<Longrightarrow>
    resolves cap content fs root (Suc k) dir path nd"
| link: "starts root dir path = (from, path_of names) \<Longrightarrow> leads cap content fs from names dir' l \<Longrightarrow> is_symlink l \<Longrightarrow>
    nsize l < 60 \<or> file_inside cap content (fs_block_size fs) (data l) (nsize l) \<Longrightarrow>
    resolves cap content fs root k dir' (link_target content (fs_block_size fs) l) nd \<Longrightarrow>
    resolves cap content fs root (Suc k) dir path nd"

lemma path_of_Cons: "names \<noteq> [] \<Longrightarrow> path_of (name # names) = name @ slash # path_of names"
  by (cases names) simp_all

lemma component_path:
  assumes "slash \<notin> set name"
  shows "component name = name" "component (name @ slash # rest) = name"
proof -
  show "component name = name" unfolding component_def by (rule takeWhile_eq_all_conv [THEN iffD2]) (use assms in auto)
  have "takeWhile (\<lambda>c. c \<noteq> slash) (name @ slash # rest) = name @ takeWhile (\<lambda>c. c \<noteq> slash) (slash # rest)"
    by (rule takeWhile_append2) (use assms in auto)
  then show "component (name @ slash # rest) = name" by (simp add: component_def)
qed

lemma leads_names: "leads cap content fs dir names dir' nd \<Longrightarrow>
    names \<noteq> [] \<and> 0 \<notin> set (path_of names) \<and> length names \<le> Suc (length (path_of names)) \<and> (\<exists>ino. nd = inode_at content fs ino)"
proof (induction rule: leads.induct)
  case (down dir name ino names dir' nd)
  then show ?case by (auto simp: path_of_Cons has_entry_def slash_def)
qed (auto simp: has_entry_def)

text \<open>The first entry of a directory, as the scan returns it.\<close>

lemma first_of_map: "first_of (\<lambda>b. map_option g (f b)) i n = map_option g (first_of f i n)"
  by (induction n arbitrary: i) (auto split: option.splits)

lemma first_entry_named:
  "first_of (\<lambda>b. first_entry (dir_block content bs dat b) (ents b) path) 0 n =
    map_option (\<lambda>ino. (ino, length (component path), if component path = path then 0 else slash))
      (inode_named content bs dat ents n (component path))"
  unfolding inode_named_def first_of_map [symmetric] first_entry_def option.map_comp
  by (simp add: hit_of_def [abs_def] comp_def)

section \<open>open\<close>

text \<open>The node that an operation holds stands for a node of the disk, whatever is in its cache.\<close>

definition stands :: "('d \<Rightarrow> bool) \<Rightarrow> (nat \<Rightarrow> u8) \<Rightarrow> u32 \<Rightarrow> node \<Rightarrow> node \<times> 'd \<Rightarrow> bool" where
  "stands ok content bs nd = (\<lambda>(cd, d). node_ok ok content bs (data nd) (nsize nd) (cd, d) \<and> mode cd = mode nd)"

lemma stands_inode: "ok d \<Longrightarrow> stands ok content bs (inode_at content fs ino) (inode_at content fs ino, d)"
  by (simp add: stands_def node_ok_def inode_at_def new_node_def Let_def)

lemma stands_device: "stands ok content bs nd (cd, d) \<Longrightarrow> ok d' \<Longrightarrow> stands ok content bs nd (cd, d')"
  by (simp add: stands_def node_ok_def)

lemma stands_ok: "stands ok content bs nd (cd, d) \<Longrightarrow> ok d"
  by (simp add: stands_def node_ok_def)

lemma read_block_mode: "node_read_block bs D fresh k (nd, d) = Inr (c, (nd', d')) \<Longrightarrow> mode nd' = mode nd"
  by (auto simp: node_read_block_def Let_def split: if_splits option.splits)

lemma open_blocks_mode: "open_blocks bs D fresh b n path (nd, d) = Inr (r, (nd', d')) \<Longrightarrow> mode nd' = mode nd"
proof (induction n arbitrary: b nd d)
  case (Suc n)
  then obtain c nd1 d1 h where 1: "node_read_block bs D fresh (of_nat b) (nd, d) = Inr (c, (nd1, d1))"
    "open_block (Suc (unat bs)) c 0 bs path = Inr h"
    "(case h of None \<Rightarrow> open_blocks bs D fresh (Suc b) n path (nd1, d1) | Some hit \<Rightarrow> Inr (Some hit, (nd1, d1))) = Inr (r, (nd', d'))"
    by (auto elim!: bindE_InrE)
  then show ?case using Suc.IH [of "Suc b" nd1 d1] read_block_mode [OF 1(1)] by (auto split: option.splits)
qed simp

locale ext2_disk = block_store +
  fixes fs :: ext2 and fresh :: "nat \<Rightarrow> u8 list"
  assumes fresh_size: "length (fresh n) = n"
begin

abbreviation here :: "node \<Rightarrow> node \<times> 'a \<Rightarrow> bool" where
  "here \<equiv> stands ok content (fs_block_size fs)"

lemma lookup:
  assumes e: "has_entry cap content fs dir (component path) ino" and path: "0 \<notin> set path" and s: "here dir (cd, d)"
  shows "\<exists>cd' d'. open_blocks (fs_block_size fs) D fresh 0 (unat (nsize cd div fs_block_size fs)) path (cd, d) =
    Inr (Some (ino, length (component path), if component path = path then 0 else slash), (cd', d')) \<and> here dir (cd', d')"
proof -
  let ?bs = "fs_block_size fs"
  obtain n ents where f: "file_inside cap content ?bs (data dir) (nsize dir)" and n: "n * unat ?bs = unat (nsize dir)"
    and dir: "directory content ?bs (data dir) n ents" and ino: "inode_named content ?bs (data dir) ents n (component path) = Some ino"
    using e by (auto simp: has_entry_def)
  have E: "ext2_file D ok content cap ?bs (data dir) (nsize dir) fresh"
    using f fresh_size block_store_axioms by (simp add: ext2_file_def ext2_file_axioms_def)
  have ok: "node_ok ok content ?bs (data dir) (nsize dir) (cd, d)" and sz: "nsize cd = nsize dir" and m: "mode cd = mode dir"
    using s by (simp_all add: stands_def node_ok_def)
  have "unat (nsize cd div ?bs) = n" unfolding sz unat_div n [symmetric] using ext2_file.bs_pos(2) [OF E] by simp
  then obtain s' where 1: "open_blocks ?bs D fresh 0 (unat (nsize cd div ?bs)) path (cd, d) =
      Inr (first_of (\<lambda>b. first_entry (dir_block content ?bs (data dir) b) (ents b) path) 0 n, s')"
    "node_ok ok content ?bs (data dir) (nsize dir) s'"
    using ext2_file.open_blocks_spec [OF E path dir n ok, of 0 n] by auto
  obtain cd' d' where s': "s' = (cd', d')" by fastforce
  have "mode cd' = mode dir" using open_blocks_mode [OF 1(1) [unfolded s']] m by simp
  then show ?thesis using 1 s' ino by (simp add: first_entry_named stands_def)
qed

lemma open_links_spec:
  "leads cap content fs dir names dir' nd \<Longrightarrow> 0 \<notin> set (path_of names) \<Longrightarrow> here dir (cd, d) \<Longrightarrow> length names \<le> levels \<Longrightarrow>
    \<exists>cd' d'. open_links fs D fresh levels cd (path_of names) d = Inr (Some (cd', nd), d') \<and> here dir' (cd', d')"
proof (induction arbitrary: cd d levels rule: leads.induct)
  case (here dir name ino)
  obtain l where l: "levels = Suc l" using here.prems(3) by (cases levels) auto
  have name: "slash \<notin> set name" "is_dir dir" "inode_inside cap fs ino" "fs_block_size fs \<noteq> 0"
    using here.hyps by (auto simp: has_entry_def file_inside_def)
  have "has_entry cap content fs dir (component name) ino" using here.hyps component_path(1) [OF name(1)] by simp
  from lookup [OF this _ here.prems(2)] here.prems(1) component_path(1) [OF name(1)]
  obtain cd1 d1 where 1: "open_blocks (fs_block_size fs) D fresh 0 (unat (nsize cd div fs_block_size fs)) name (cd, d) =
      Inr (Some (ino, length name, 0), (cd1, d1))" "here dir (cd1, d1)" by auto
  obtain d2 where 2: "getInode fs D fresh ino d1 = Inr (inode_at content fs ino, d2)" "ok d2"
    using getInode_spec [OF block_store_axioms stands_ok [OF 1(2)], of fresh fs ino] fresh_size name(3) by blast
  have "is_dir cd" using here.prems(2) name(2) by (simp add: stands_def is_dir_def get_type_def)
  then show ?case using l 1(1) 2(1) name(4) stands_device [OF 1(2) 2(2)] by simp
next
  case (down dir name ino names dir' nd)
  obtain l where l: "levels = Suc l" "length names \<le> l" using down.prems(3) by (cases levels) auto
  have ne: "names \<noteq> []" using leads_names [OF down.hyps(2)] by blast
  let ?path = "name @ slash # path_of names"
  have name: "slash \<notin> set name" "is_dir dir" "inode_inside cap fs ino" "fs_block_size fs \<noteq> 0"
    using down.hyps by (auto simp: has_entry_def file_inside_def)
  note c = component_path(2) [OF name(1), of "path_of names"]
  have "has_entry cap content fs dir (component ?path) ino" using down.hyps c by simp
  from lookup [OF this _ down.prems(2)] down.prems(1) c
  obtain cd1 d1 where 1: "open_blocks (fs_block_size fs) D fresh 0 (unat (nsize cd div fs_block_size fs)) ?path (cd, d) =
      Inr (Some (ino, length name, slash), (cd1, d1))" "here dir (cd1, d1)" by (auto simp: path_of_Cons [OF ne])
  obtain d2 where 2: "getInode fs D fresh ino d1 = Inr (inode_at content fs ino, d2)" "ok d2"
    using getInode_spec [OF block_store_axioms stands_ok [OF 1(2)], of fresh fs ino] fresh_size name(3) by blast
  have "0 \<notin> set (path_of names)" using down.prems(1) by (simp add: path_of_Cons [OF ne])
  from down.IH [OF this stands_inode [where ok = ok, OF 2(2)] l(2)]
  obtain cd' d' where 3: "open_links fs D fresh l (inode_at content fs ino) (path_of names) d2 = Inr (Some (cd', nd), d')" "here dir' (cd', d')"
    by blast
  have "is_dir cd" using down.prems(2) name(2) by (simp add: stands_def is_dir_def get_type_def)
  then show ?case using l 1(1) 2(1) name(4) 3 by (simp add: path_of_Cons [OF ne] slash_def)
qed

lemma get_symbol_spec:
  assumes l: "l = inode_at content fs ino" "is_symlink l" and d: "ok d"
    and inside: "nsize l < 60 \<or> file_inside cap content (fs_block_size fs) (data l) (nsize l)"
  shows "\<exists>target l' d'. get_symbol (fs_block_size fs) D fresh (fresh (unat (nsize l))) (l, d) = Inr (target, (l', d')) \<and>
    c_string target = link_target content (fs_block_size fs) l \<and> ok d'"
proof (cases "nsize l < 60")
  case True
  have "length (concat (map word_bytes (data l))) = 60" unfolding l(1) by (simp add: inode_at_def Let_def upt_conv_Cons)
  moreover have "unat (nsize l) < 60" using True by (simp add: word_less_nat_alt)
  ultimately have "length (take (unat (nsize l)) (concat (map word_bytes (data l)))) = unat (nsize l)" by simp
  then show ?thesis using True l(2) d fresh_size by (simp add: get_symbol_def link_target_def fill_all)
next
  case False
  let ?bs = "fs_block_size fs"
  have f: "file_inside cap content ?bs (data l) (nsize l)" using inside False by blast
  have E: "ext2_file D ok content cap ?bs (data l) (nsize l) fresh"
    using f fresh_size block_store_axioms by (simp add: ext2_file_def ext2_file_axioms_def)
  have h: "node_ok ok content ?bs (data l) (nsize l) (l, d)"
    using stands_inode [of ok d content ?bs fs ino] d by (simp add: stands_def l(1))
  have "\<exists>s'. load (node_device ?bs D fresh l) 0 (nsize l) (fresh (unat (nsize l))) (l, d) =
      Inr (bytes (file_content content (unat ?bs) (data l)) 0 (unat (nsize l)), s') \<and> node_ok ok content ?bs (data l) (nsize l) s'"
    using ext2_file.contents_read [OF E h, of 0 "nsize l"] by (auto simp: node_device_file load_def fill_all fresh_size)
  then obtain l' d' where "load (node_device ?bs D fresh l) 0 (nsize l) (fresh (unat (nsize l))) (l, d) =
      Inr (bytes (file_content content (unat ?bs) (data l)) 0 (unat (nsize l)), (l', d'))" "ok d'"
    by (auto simp: node_ok_def)
  then show ?thesis using False l(2) by (simp add: get_symbol_def link_target_def)
qed

lemma open_path_spec:
  assumes root: "root = inode_at content fs r"
  shows "resolves cap content fs root k dir path nd \<Longrightarrow> here dir (cd, d) \<Longrightarrow>
    \<exists>d'. open_path fs root D fresh k cd path d = Inr (Some nd, d') \<and> ok d'"
proof (induction arbitrary: cd d rule: resolves.induct)
  case (plain dir path st names dir' nd k)
  note n = leads_names [OF plain.hyps(2)]
  obtain cd1 where s: "starts root cd path = (cd1, path_of names)" "here st (cd1, d)"
    using plain.hyps(1) plain.prems stands_inode [where ok = ok, OF stands_ok [OF plain.prems], of content "fs_block_size fs" fs r]
    by (auto simp: starts_def root split: list.splits if_splits)
  obtain cd2 d2 where 1: "open_links fs D fresh (Suc (length (path_of names))) cd1 (path_of names) d = Inr (Some (cd2, nd), d2)"
      "here dir' (cd2, d2)"
    using open_links_spec [OF plain.hyps(2) _ s(2), of "Suc (length (path_of names))"] n by blast
  show ?case using s(1) 1 plain.hyps(3,4) stands_ok [OF 1(2)] by (simp add: starts_def [symmetric])
next
  case (link dir path st names dir' l k nd)
  note n = leads_names [OF link.hyps(2)]
  obtain ino where l: "l = inode_at content fs ino" using n by blast
  obtain cd1 where s: "starts root cd path = (cd1, path_of names)" "here st (cd1, d)"
    using link.hyps(1) link.prems stands_inode [where ok = ok, OF stands_ok [OF link.prems], of content "fs_block_size fs" fs r]
    by (auto simp: starts_def root split: list.splits if_splits)
  obtain cd2 d2 where 1: "open_links fs D fresh (Suc (length (path_of names))) cd1 (path_of names) d = Inr (Some (cd2, l), d2)"
      "here dir' (cd2, d2)"
    using open_links_spec [OF link.hyps(2) _ s(2), of "Suc (length (path_of names))"] n by blast
  obtain target l' d3 where 2: "get_symbol (fs_block_size fs) D fresh (fresh (unat (nsize l))) (l, d2) = Inr (target, (l', d3))"
      "c_string target = link_target content (fs_block_size fs) l" "ok d3"
    using get_symbol_spec [OF l link.hyps(3) stands_ok [OF 1(2)] link.hyps(4)] by blast
  from link.IH [OF stands_device [OF 1(2) 2(3)]] obtain d4 where
    "open_path fs root D fresh k cd2 (link_target content (fs_block_size fs) l) d3 = Inr (Some nd, d4)" "ok d4" by blast
  then show ?case using s(1) 1(1) 2(1,2) link.hyps(3) by (simp add: starts_def [symmetric])
qed

end

text \<open>
  C25. \<open>open\<close> follows a path as the disk describes it: from the root if the path begins with a slash, else from the directory that
  is given; through the first entry with each name; and through up to nine symbolic links, each from the directory it
  is in. It returns the i-node of the file at the end.
\<close>

theorem open_resolves:
  assumes "block_store D ok content cap" "\<And>n. length (fresh n) = n" "root = inode_at content fs r"
    and "resolves cap content fs root MAX_DEPTH dir path nd" "is_dir dir" "stands ok content (fs_block_size fs) dir (cd, d)"
  shows "\<exists>d'. open_file fs root D fresh cd path d = Inr (Some nd, d') \<and> ok d'"
proof -
  have E: "ext2_disk D ok content cap fresh" using assms(1,2) by (simp add: ext2_disk_def ext2_disk_axioms_def)
  have "is_dir cd" using assms(5,6) by (simp add: stands_def is_dir_def get_type_def)
  then show ?thesis using ext2_disk.open_path_spec [OF E assms(3,4,6)] by (simp add: open_file_def)
qed

end
