(* ===== verification/Process_Thms.thy ===== *)
theory Process_Thms
  imports Process
begin

text \<open>
  Descriptor tables. \<open>descriptor_table\<close> is the contract of a table; the three kinds of tables of a process meet it.
\<close>

section \<open>The contract\<close>

locale descriptor_table =
  fixes wf :: "'t \<Rightarrow> bool" and get :: "'t \<Rightarrow> u32 \<Rightarrow> ref" and put :: "'t \<Rightarrow> ref \<Rightarrow> (int \<times> 't) option"
    and clear :: "'t \<Rightarrow> u32 \<Rightarrow> 't"
  assumes put_wf: "wf t \<Longrightarrow> put t r = Some (v, t') \<Longrightarrow> wf t'"
    and put_get: "wf t \<Longrightarrow> put t r = Some (v, t') \<Longrightarrow> get t' e = (if e = word_of_int v then r else get t e)"
    and put_empty: "wf t \<Longrightarrow> put t r = Some (v, t') \<Longrightarrow> get t (word_of_int v) = 0"
    and put_full: "wf t \<Longrightarrow> put t r = None \<Longrightarrow> get t e = 0 \<Longrightarrow> clear t e = t"
    and clear_wf: "wf t \<Longrightarrow> wf (clear t d)"
    and clear_get: "wf t \<Longrightarrow> get (clear t d) e = (if e = d then 0 else get t e)"
    and put_again: "wf t \<Longrightarrow> get t d \<noteq> 0 \<Longrightarrow> put (clear t d) r \<noteq> None"
begin

text \<open>A new descriptor differs from every live one, and can be given back.\<close>

lemma new_descriptor: "wf t \<Longrightarrow> put t r = Some (v, t') \<Longrightarrow> get t e \<noteq> 0 \<Longrightarrow> e \<noteq> word_of_int v \<and> get t' e = get t e"
  using put_get put_empty by auto

lemma put_clear: "wf t \<Longrightarrow> put t r = Some (v, t') \<Longrightarrow> get (clear t' (word_of_int v)) e = get t e"
  using put_get put_empty clear_get put_wf by metis

lemma clear_twice: "wf t \<Longrightarrow> get (clear (clear t d) d) e = get (clear t d) e"
  by (simp add: clear_get clear_wf)

end

section \<open>Tables of references\<close>

lemma set_desc_from_None: "set_desc_from i n tbl = None \<longleftrightarrow> (\<forall>j. i \<le> j \<and> j < i + n \<longrightarrow> tbl ! j \<noteq> 0)"
proof (induction n arbitrary: i)
  case (Suc n)
  have "i \<le> j \<and> j < i + Suc n \<longleftrightarrow> j = i \<or> Suc i \<le> j \<and> j < Suc i + n" for j by auto
  then show ?case using Suc.IH by auto
qed simp

lemma set_desc_from_Some: "set_desc_from i n tbl = Some j \<Longrightarrow> i \<le> j \<and> j < i + n \<and> tbl ! j = 0"
  by (induction n arbitrary: i) (fastforce split: if_splits)+

text \<open>A new reference, and \<open>close\<close>, as functions of the table.\<close>

definition put_ref :: "u32 \<Rightarrow> u32 \<Rightarrow> ref list \<Rightarrow> ref \<Rightarrow> (int \<times> ref list) option" where
  "put_ref ty n tbl r =
     (case set_desc_from 0 (unat n) tbl of None \<Rightarrow> None | Some i \<Rightarrow> Some (sint (of_nat i OR ty), tbl[i := r]))"

definition clear_ref :: "u32 \<Rightarrow> u32 \<Rightarrow> ref list \<Rightarrow> u32 \<Rightarrow> ref list" where
  "clear_ref ty n tbl d = (if d AND TYPE_MASK = ty then snd (close_desc n tbl (d AND NUM_MASK)) else tbl)"

text \<open>A kind of descriptors: its type and the size of its tables.\<close>

locale descriptor_kind =
  fixes ty :: u32 and n :: u32
  assumes type_only: "ty AND NUM_MASK = 0" and size_small: "unat n \<le> 2 ^ 28"
begin

lemma masks: "TYPE_MASK = NOT NUM_MASK"
  by (simp add: TYPE_MASK_def NUM_MASK_def)

lemma ty_type: "ty AND TYPE_MASK = ty"
proof -
  have "ty = (ty AND NUM_MASK) OR (ty AND NOT NUM_MASK)" by (rule bit_word_eqI) (auto simp: bit_simps)
  then show ?thesis using type_only by (simp add: masks)
qed

lemma descriptor_parts:
  assumes "i < unat n"
  shows "(of_nat i OR ty) AND TYPE_MASK = ty" "(of_nat i OR ty) AND NUM_MASK = of_nat i" "unat (of_nat i :: u32) = i"
proof -
  have i: "i < 2 ^ 28" using assms size_small by simp
  then show u: "unat (of_nat i :: u32) = i" by (simp add: unat_of_nat)
  have "NUM_MASK = mask 28" by (simp add: NUM_MASK_def mask_eq_exp_minus_1)
  moreover have "of_nat i AND mask 28 = (of_nat i :: u32)"
    using i u by (simp add: word_unat_eq_iff unsigned_take_bit_eq take_bit_nat_eq_self flip: take_bit_eq_mask)
  ultimately have a: "of_nat i AND NUM_MASK = (of_nat i :: u32)" by simp
  then have b: "of_nat i AND TYPE_MASK = (0 :: u32)" unfolding masks
    by (metis and.assoc bit.conj_cancel_right bit.conj_zero_right)
  show "(of_nat i OR ty) AND TYPE_MASK = ty" using b ty_type by (simp add: bit.conj_disj_distrib2)
  show "(of_nat i OR ty) AND NUM_MASK = of_nat i" using a type_only by (simp add: bit.conj_disj_distrib2)
qed

lemma descriptor_eq: "e = of_nat i OR ty \<longleftrightarrow> e AND TYPE_MASK = ty \<and> e AND NUM_MASK = of_nat i" if "i < unat n"
proof
  assume "e AND TYPE_MASK = ty \<and> e AND NUM_MASK = of_nat i"
  moreover have "e = (e AND NUM_MASK) OR (e AND NOT NUM_MASK)" by (rule bit_word_eqI) (auto simp: bit_simps)
  ultimately show "e = of_nat i OR ty" by (metis masks)
qed (use descriptor_parts that in auto)

lemma get_desc_update:
  assumes "length tbl = unat n" "i < unat n"
  shows "get_desc ty n (tbl[i := r]) e = (if e = of_nat i OR ty then r else get_desc ty n tbl e)"
proof -
  have "e AND NUM_MASK = of_nat i \<longleftrightarrow> unat (e AND NUM_MASK) = i"
    using descriptor_parts(3) [OF assms(2)] by (metis word_unat_eq_iff)
  then show ?thesis using assms descriptor_eq [OF assms(2), of e]
    by (auto simp: get_desc_def Let_def nth_list_update word_le_nat_alt)
qed

end

sublocale descriptor_kind \<subseteq> table: descriptor_table "\<lambda>tbl. length tbl = unat n" "get_desc ty n" "put_ref ty n" "clear_ref ty n"
proof (unfold_locales, goal_cases)
  case (2 t r v t' e)
  then obtain i where i: "set_desc_from 0 (unat n) t = Some i" "v = sint (of_nat i OR ty)" "t' = t[i := r]"
    by (auto simp: put_ref_def split: option.splits)
  then show ?case using set_desc_from_Some [OF i(1)] get_desc_update [OF 2(1)] by simp
next
  case (3 t r v t')
  then obtain i where i: "set_desc_from 0 (unat n) t = Some i" "v = sint (of_nat i OR ty)"
    by (auto simp: put_ref_def split: option.splits)
  then show ?case using set_desc_from_Some [OF i(1)] descriptor_parts [of i] by (simp add: get_desc_def Let_def)
next
  case (4 t r e)
  then show ?case by (auto simp: clear_ref_def close_desc_def get_desc_def Let_def word_le_nat_alt)
next
  case (6 t d e)
  have d: "d = of_nat (unat (d AND NUM_MASK)) OR ty" if "d AND TYPE_MASK = ty" "\<not> n \<le> d AND NUM_MASK"
    using descriptor_eq [of "unat (d AND NUM_MASK)" d] that by (simp add: word_le_nat_alt)
  show ?case
  proof (cases "d AND TYPE_MASK = ty \<and> \<not> n \<le> d AND NUM_MASK")
    case True
    then show ?thesis using get_desc_update [OF 6, of "unat (d AND NUM_MASK)" 0 e] d True
      by (auto simp: clear_ref_def close_desc_def word_le_nat_alt get_desc_def Let_def)
  next
    case False
    then show ?thesis by (auto simp: clear_ref_def close_desc_def get_desc_def Let_def)
  qed
next
  case (7 t d r)
  then have "d AND TYPE_MASK = ty" "unat (d AND NUM_MASK) < unat n" "t ! unat (d AND NUM_MASK) \<noteq> 0"
    by (auto simp: get_desc_def Let_def word_le_nat_alt split: if_splits)
  then have c: "clear_ref ty n t d = t[unat (d AND NUM_MASK) := 0]" by (simp add: clear_ref_def close_desc_def word_le_nat_alt)
  then have "set_desc_from 0 (unat n) (clear_ref ty n t d) \<noteq> None"
    using \<open>unat (d AND NUM_MASK) < unat n\<close> 7(1) unfolding set_desc_from_None by auto
  then show ?case by (auto simp: put_ref_def split: option.splits)
qed (auto simp: put_ref_def clear_ref_def close_desc_def split: option.splits)

context descriptor_kind
begin

lemma is_table: "descriptor_table (\<lambda>tbl. length tbl = unat n) (get_desc ty n) (put_ref ty n) (clear_ref ty n)"
  by (rule table.descriptor_table_axioms)

end

interpretation fd: descriptor_kind TYPE_FD FDT_SIZE
  by unfold_locales (simp_all add: TYPE_FD_def FDT_SIZE_def)

interpretation pd: descriptor_kind TYPE_PD PDT_SIZE
  by unfold_locales (simp_all add: TYPE_PD_def PDT_SIZE_def NUM_MASK_def)

interpretation sd: descriptor_kind TYPE_SD SDT_SIZE
  by unfold_locales (simp_all add: TYPE_SD_def SDT_SIZE_def NUM_MASK_def)

end
