(* ===== verification/Sys_Thms.thy ===== *)
theory Sys_Thms
  imports Sys Process_Thms
begin

text \<open>
  The state that system calls keep well formed: the tables of a process have their sizes and refer to objects that exist,
  object 0 is the empty one of its kind, and every exit status belongs to a future.
\<close>

section \<open>Well-formed states\<close>

definition proc_ok :: "process \<Rightarrow> 'd system \<Rightarrow> bool" where
  "proc_ok p S \<longleftrightarrow>
     length (fdt p) = unat FDT_SIZE \<and> length (pdt p) = unat PDT_SIZE \<and> length (sdt p) = unat SDT_SIZE \<and>
     (\<forall>r \<in> set (fdt p). r < length (fds S)) \<and> (\<forall>r \<in> set (pdt p). r < length (pds S)) \<and>
     (\<forall>r \<in> set (sdt p). r < length (sds S)) \<and> exit_status p < length (futures S)"

fun future_ok :: "nat \<Rightarrow> pd \<Rightarrow> bool" where
  "future_ok n EmptyPD = True"
| "future_ok n (ProcessPD f) = (f < n)"

lemma future_ok_mono: "future_ok n x \<Longrightarrow> n \<le> k \<Longrightarrow> future_ok k x"
  by (cases x) simp_all

definition store_ok :: "'d system \<Rightarrow> bool" where
  "store_ok S \<longleftrightarrow>
     fds S \<noteq> [] \<and> fds S ! 0 = EmptyFD \<and> pds S \<noteq> [] \<and> pds S ! 0 = EmptyPD \<and> sds S \<noteq> [] \<and> sds S ! 0 = EmptySD \<and>
     (\<forall>x \<in> set (pds S). future_ok (length (futures S)) x) \<and>
     (\<forall>t \<in> set (ready S). proc_ok (fst t) S)"

definition system_ok :: "process \<Rightarrow> 'd system \<Rightarrow> bool" where
  "system_ok p S \<longleftrightarrow> proc_ok p S \<and> store_ok S"

text \<open>Objects are never taken away, and new threads only join.\<close>

definition grows :: "'d system \<Rightarrow> 'd system \<Rightarrow> bool" where
  "grows S S' \<longleftrightarrow> length (fds S) \<le> length (fds S') \<and> length (pds S) \<le> length (pds S') \<and> length (sds S) \<le> length (sds S') \<and>
     length (futures S) \<le> length (futures S')"

lemma grows_refl [simp]: "grows S S"
  by (simp add: grows_def)

lemma grows_trans: "grows S T \<Longrightarrow> grows T U \<Longrightarrow> grows S U"
  by (simp add: grows_def)

lemma proc_ok_grows: "proc_ok p S \<Longrightarrow> grows S S' \<Longrightarrow> proc_ok p S'"
  unfolding proc_ok_def grows_def by (meson order.strict_trans2)

lemma proc_ok_space [simp]: "proc_ok (p\<lparr>space := m\<rparr>) S \<longleftrightarrow> proc_ok p S"
  by (simp add: proc_ok_def)

definition outcome_ok :: "'d system \<Rightarrow> 'd outcome res \<Rightarrow> bool" where
  "outcome_ok S r \<longleftrightarrow>
     (case r of
        Inr (Return v p' S') \<Rightarrow> system_ok p' S' \<and> grows S S'
      | Inr (UserMode a b p' S') \<Rightarrow> system_ok p' S' \<and> grows S S'
      | Inr (Stopped S') \<Rightarrow> store_ok S' \<and> grows S S'
      | _ \<Rightarrow> True)"

lemma outcome_ok_simps [simp]:
  "outcome_ok S (Inl e)" "outcome_ok S (Inr Blocked)" "outcome_ok S (Inr Halted)"
  "outcome_ok S (Inr (Return v p' S')) \<longleftrightarrow> system_ok p' S' \<and> grows S S'"
  "outcome_ok S (Inr (UserMode a b p' S')) \<longleftrightarrow> system_ok p' S' \<and> grows S S'"
  "outcome_ok S (Inr (Stopped S')) \<longleftrightarrow> store_ok S' \<and> grows S S'"
  by (simp_all add: outcome_ok_def)

section \<open>Updates\<close>

lemma store_ok_disk [simp]: "store_ok (S\<lparr>disk := d\<rparr>) \<longleftrightarrow> store_ok S" "proc_ok p (S\<lparr>disk := d\<rparr>) \<longleftrightarrow> proc_ok p S"
  "grows S (S'\<lparr>disk := d\<rparr>) \<longleftrightarrow> grows S S'"
  by (simp_all add: store_ok_def proc_ok_def grows_def)

lemma system_ok_disk [simp]: "system_ok p (S\<lparr>disk := d\<rparr>) \<longleftrightarrow> system_ok p S"
  by (simp add: system_ok_def)

lemma system_ok_space [simp]: "system_ok (p\<lparr>space := m\<rparr>) S \<longleftrightarrow> system_ok p S"
  by (simp add: system_ok_def)

lemma store_ok_same:
  assumes "store_ok S" "pds S' = pds S" "length (futures S') = length (futures S)" "ready S' = ready S"
    and "length (fds S') = length (fds S)" "length (sds S') = length (sds S)" "fds S' ! 0 = EmptyFD" "sds S' ! 0 = EmptySD"
  shows "store_ok S' \<and> grows S S'"
proof -
  have g: "grows S S'" using assms by (simp add: grows_def)
  have "fds S' \<noteq> []" "sds S' \<noteq> []" using assms by (auto simp: store_ok_def)
  moreover have "\<forall>t \<in> set (ready S'). proc_ok (fst t) S'"
    using assms(1,4) proc_ok_grows [OF _ g] by (auto simp: store_ok_def)
  moreover have "\<forall>x \<in> set (pds S'). future_ok (length (futures S')) x"
    using assms(1,2,3) by (simp add: store_ok_def)
  ultimately show ?thesis using assms g unfolding store_ok_def by simp
qed

lemma system_ok_same:
  assumes "system_ok p S" "pds S' = pds S" "length (futures S') = length (futures S)" "ready S' = ready S"
    and "length (fds S') = length (fds S)" "length (sds S') = length (sds S)" "fds S' ! 0 = EmptyFD" "sds S' ! 0 = EmptySD"
  shows "system_ok p S' \<and> grows S S'"
  using store_ok_same [of S S'] proc_ok_grows assms by (auto simp: system_ok_def)

lemma std_write_same: "fold (\<lambda>c S. S\<lparr>console := console S @ [c]\<rparr>) bs S = S\<lparr>console := console S @ bs\<rparr>"
  by (induction bs arbitrary: S) simp_all

lemma fd_write_ok: "system_ok p S \<Longrightarrow> fd_write r bs S = (v, S') \<Longrightarrow> system_ok p S' \<and> grows S S'"
  by (rule system_ok_same)
    (auto simp: fd_write_def std_write_def std_write_same system_ok_def store_ok_def split: fd.splits)

lemma fd_read_ok:
  assumes "system_ok p S" "fd_read bs D fr r n S = Inr ((v, b), S')"
  shows "system_ok p S' \<and> grows S S'"
proof (rule system_ok_same [OF assms(1)])
  have e: "fds S ! 0 = EmptyFD" using assms(1) by (simp add: system_ok_def store_ok_def)
  show "fds S' ! 0 = EmptyFD" using assms(2) e
    by (cases "r = 0") (auto simp: fd_read_def split: fd.splits if_splits)
  show "sds S' ! 0 = EmptySD" using assms by (auto simp: fd_read_def system_ok_def store_ok_def split: fd.splits if_splits)
qed (use assms(2) in \<open>auto simp: fd_read_def split: fd.splits if_splits\<close>)

lemma fd_seek_ok:
  assumes "system_ok p S" "fd_seek r off S = (v, S')"
  shows "system_ok p S' \<and> grows S S'"
proof (rule system_ok_same [OF assms(1)])
  have e: "fds S ! 0 = EmptyFD" using assms(1) by (simp add: system_ok_def store_ok_def)
  show "fds S' ! 0 = EmptyFD" using assms(2) e by (cases "r = 0") (auto simp: fd_seek_def split: fd.splits)
  show "sds S' ! 0 = EmptySD" using assms by (auto simp: fd_seek_def system_ok_def store_ok_def split: fd.splits)
qed (use assms(2) in \<open>auto simp: fd_seek_def split: fd.splits\<close>)

lemma sd_up_ok:
  assumes "system_ok p S" "sd_up r S = (v, S')"
  shows "system_ok p S' \<and> grows S S'"
proof (rule system_ok_same [OF assms(1)])
  have e: "sds S ! 0 = EmptySD" using assms(1) by (simp add: system_ok_def store_ok_def)
  show "sds S' ! 0 = EmptySD" using assms(2) e by (cases "r = 0") (auto simp: sd_up_def split: sd.splits)
  show "fds S' ! 0 = EmptyFD" using assms by (auto simp: sd_up_def system_ok_def store_ok_def split: sd.splits)
qed (use assms(2) in \<open>auto simp: sd_up_def split: sd.splits\<close>)

lemma sd_down_ok:
  assumes "system_ok p S" "sd_down r S = Returns (v, S')"
  shows "system_ok p S' \<and> grows S S'"
proof (rule system_ok_same [OF assms(1)])
  have e: "sds S ! 0 = EmptySD" using assms(1) by (simp add: system_ok_def store_ok_def)
  show "sds S' ! 0 = EmptySD" using assms(2) e by (cases "r = 0") (auto simp: sd_down_def split: sd.splits if_splits)
  show "fds S' ! 0 = EmptyFD" using assms by (auto simp: sd_down_def system_ok_def store_ok_def split: sd.splits if_splits)
qed (use assms(2) in \<open>auto simp: sd_down_def split: sd.splits if_splits\<close>)

section \<open>Tables\<close>

lemma set_desc_cases:
  assumes "set_desc ty n mk tbl S = Inr ((v, tbl'), S')"
  obtains "v = - 1" "tbl' = tbl" "S' = S"
  | i r where "mk S = Inr (r, S')" "tbl' = tbl[i := r]" "i < unat n" "tbl ! i = 0" "v = sint (of_nat i OR ty)"
  using assms set_desc_from_Some [of 0 "unat n" tbl] by (auto simp: set_desc_def split: option.splits)

lemma set_update: "(\<forall>x \<in> set xs. P x) \<Longrightarrow> P y \<Longrightarrow> \<forall>x \<in> set (xs[i := y]). P x"
  using set_update_subset_insert by fast

lemma proc_close_ok:
  assumes "system_ok p S" "proc_close des p = (v, p')"
  shows "system_ok p' S"
proof -
  have e: "0 < length (fds S)" "0 < length (pds S)" "0 < length (sds S)"
    using assms(1) by (auto simp: system_ok_def store_ok_def)
  have r: "(\<forall>r \<in> set (fdt p). r < length (fds S))" "(\<forall>r \<in> set (pdt p). r < length (pds S))" "(\<forall>r \<in> set (sdt p). r < length (sds S))"
    using assms(1) by (auto simp: system_ok_def proc_ok_def)
  show ?thesis
    using assms set_update [OF r(1) e(1)] set_update [OF r(2) e(2)] set_update [OF r(3) e(3)]
    by (auto simp: proc_close_def Let_def close_desc_def system_ok_def proc_ok_def split: if_splits)
qed

lemma proc_wait_ok:
  assumes "system_ok p S" "proc_wait des st p S = Returns (v, p')"
  shows "system_ok p' S"
proof -
  have e: "0 < length (pds S)" and r: "\<forall>r \<in> set (pdt p). r < length (pds S)"
    using assms(1) by (auto simp: system_ok_def store_ok_def proc_ok_def)
  show ?thesis using assms set_update [OF r e]
    by (auto simp: proc_wait_def Let_def system_ok_def proc_ok_def split: if_splits answer.splits option.splits)
qed

lemma proc_reset_ok: "system_ok p S \<Longrightarrow> system_ok (proc_reset f p) S"
  by (auto simp: system_ok_def proc_ok_def proc_reset_def empty_table_def store_ok_def)

lemma set_fd_ok:
  assumes "system_ok p S" "set_fd (\<lambda>S. Inr (new_fd x S)) p S = Inr (v, p', S')"
  shows "system_ok p' S' \<and> grows S S'"
proof -
  obtain t where d: "set_desc TYPE_FD FDT_SIZE (\<lambda>S. Inr (new_fd x S)) (fdt p) S = Inr ((v, t), S')" "p' = p\<lparr>fdt := t\<rparr>"
    using assms(2) by (auto simp: set_fd_def)
  from d(1) show ?thesis
  proof (cases rule: set_desc_cases)
    case 1
    then show ?thesis using assms(1) d(2) by simp
  next
    case (2 i r)
    then have S': "r = length (fds S)" "S' = S\<lparr>fds := fds S @ [x]\<rparr>" by (simp_all add: new_fd_def)
    have g: "grows S S'" unfolding S' by (simp add: grows_def)
    have "store_ok S'"
      using assms(1) proc_ok_grows [OF _ g] unfolding S' by (auto simp: system_ok_def store_ok_def nth_append)
    moreover have "\<forall>r \<in> set t. r < length (fds S')"
      unfolding 2(2) by (rule set_update) (use assms(1) S' in \<open>auto simp: system_ok_def proc_ok_def less_SucI\<close>)
    ultimately show ?thesis using assms(1) d(2) 2(2) S' g by (auto simp: system_ok_def proc_ok_def)
  qed
qed

lemma set_sd_ok:
  assumes "system_ok p S" "set_sd (\<lambda>S. Inr (new_sd x S)) p S = Inr (v, p', S')"
  shows "system_ok p' S' \<and> grows S S'"
proof -
  obtain t where d: "set_desc TYPE_SD SDT_SIZE (\<lambda>S. Inr (new_sd x S)) (sdt p) S = Inr ((v, t), S')" "p' = p\<lparr>sdt := t\<rparr>"
    using assms(2) by (auto simp: set_sd_def)
  from d(1) show ?thesis
  proof (cases rule: set_desc_cases)
    case 1
    then show ?thesis using assms(1) d(2) by simp
  next
    case (2 i r)
    then have S': "r = length (sds S)" "S' = S\<lparr>sds := sds S @ [x]\<rparr>" by (simp_all add: new_sd_def)
    have g: "grows S S'" unfolding S' by (simp add: grows_def)
    have "store_ok S'"
      using assms(1) proc_ok_grows [OF _ g] unfolding S' by (auto simp: system_ok_def store_ok_def nth_append)
    moreover have "\<forall>r \<in> set t. r < length (sds S')"
      unfolding 2(2) by (rule set_update) (use assms(1) S' in \<open>auto simp: system_ok_def proc_ok_def less_SucI\<close>)
    ultimately show ?thesis using assms(1) d(2) 2(2) S' g by (auto simp: system_ok_def proc_ok_def)
  qed
qed

text \<open>What \<open>fork\<close> makes.\<close>

definition child_of :: "process \<Rightarrow> 'd system \<Rightarrow> process" where
  "child_of p S = p\<lparr>exit_status := length (futures S), pdt := empty_table PDT_SIZE\<rparr>"

lemma spawn_eq:
  "spawn fr p S = Inr (length (pds S), S\<lparr>futures := futures S @ [None], ready := ready S @ [(child_of p S, pc fr, esp fr)],
     pds := pds S @ [ProcessPD (length (futures S))]\<rparr>)"
  by (simp add: spawn_def proc_clone_def new_future_def new_pd_def child_of_def)

lemma set_pd_ok:
  assumes "system_ok p S" "set_pd (spawn fr p) p S = Inr (v, p', S')"
  shows "system_ok p' S' \<and> grows S S'"
proof -
  obtain t where d: "set_desc TYPE_PD PDT_SIZE (spawn fr p) (pdt p) S = Inr ((v, t), S')" "p' = p\<lparr>pdt := t\<rparr>"
    using assms(2) by (auto simp: set_pd_def)
  from d(1) show ?thesis
  proof (cases rule: set_desc_cases)
    case 1
    then show ?thesis using assms(1) d(2) by simp
  next
    case (2 i r)
    then have r: "r = length (pds S)" and S': "S' = S\<lparr>futures := futures S @ [None],
        ready := ready S @ [(child_of p S, pc fr, esp fr)], pds := pds S @ [ProcessPD (length (futures S))]\<rparr>"
      by (simp_all add: spawn_eq)
    have g: "grows S S'" unfolding S' by (simp add: grows_def)
    have st: "store_ok S" "proc_ok p S" using assms(1) by (simp_all add: system_ok_def)
    have child: "proc_ok (child_of p S) S'"
      using proc_ok_grows [OF st(2) g] st(1) unfolding S' by (auto simp: proc_ok_def child_of_def empty_table_def)
    have "\<forall>x \<in> set (pds S'). future_ok (length (futures S')) x"
      using st(1) unfolding S' by (auto simp: store_ok_def intro: future_ok_mono)
    moreover have "\<forall>t \<in> set (ready S'). proc_ok (fst t) S'"
      using st(1) proc_ok_grows [OF _ g] child S' by (auto simp: store_ok_def)
    ultimately have "store_ok S'" using st(1) unfolding S' by (auto simp: store_ok_def nth_append)
    moreover have "\<forall>r \<in> set t. r < length (pds S')"
      unfolding 2(2) by (rule set_update) (use assms(1) S' r in \<open>auto simp: system_ok_def proc_ok_def less_SucI\<close>)
    ultimately show ?thesis using proc_ok_grows [OF st(2) g] d(2) 2(2) g by (auto simp: system_ok_def proc_ok_def)
  qed
qed

lemmas operations_ok = fd_write_ok fd_read_ok fd_seek_ok sd_up_ok sd_down_ok proc_close_ok proc_wait_ok set_fd_ok set_sd_ok set_pd_ok

end
