(* ===== verification/Sys_Exec.thy ===== *)
theory Sys_Exec
  imports Sys
begin

text \<open>
  The way of the arguments of \<open>exec\<close>: from the vector of the old program through the buffer of the kernel to the stack of
  the new one.
\<close>

section \<open>Words and strings in memory\<close>

lemma get_word_other [memory_simps]:
  "apart a 4 b 4 \<Longrightarrow> get_word a (put_word b w m) = get_word a m"
  "apart a 4 b (length bs) \<Longrightarrow> get_word a (put_bytes b bs m) = get_word a m"
  by (simp_all add: get_word_def put_word_def get_other_bytes)

lemma get_bytes_other_word [memory_simps]: "apart a n b 4 \<Longrightarrow> get_bytes a n (put_word b w m) = get_bytes a n m"
  by (simp add: put_word_def get_other_bytes)

lemma unat_of_nat_u32: "n < 2 ^ 32 \<Longrightarrow> unat (of_nat n :: u32) = n"
  by (simp add: unat_of_nat)

lemma apart_nat:
  assumes "a < 2 ^ 32" "b < 2 ^ 32" "a + n \<le> 2 ^ 32" "b + k \<le> 2 ^ 32" "a + n \<le> b \<or> b + k \<le> a"
  shows "apart (of_nat a) n (of_nat b) k"
  unfolding apart_def unat_of_nat_u32 [OF assms(1)] unat_of_nat_u32 [OF assms(2)] using assms by simp

definition string_at :: "memory \<Rightarrow> u32 \<Rightarrow> u8 list \<Rightarrow> bool" where
  "string_at m a s \<longleftrightarrow> 0 \<notin> set s \<and> get_bytes a (length s + 1) m = s @ [0]"

lemma get_string_at: "string_at m a s \<Longrightarrow> length s < lim \<Longrightarrow> get_string lim a m = Inr s"
proof (induction s arbitrary: a lim)
  case Nil
  then show ?case by (cases lim) (simp_all add: string_at_def get_bytes_Suc)
next
  case (Cons c s)
  then obtain l where l: "lim = Suc l" "length s < l" by (cases lim) auto
  have "m a = c" "c \<noteq> 0" "string_at m (a + 1) s"
    using Cons.prems(1) by (simp_all add: string_at_def get_bytes_Suc)
  then show ?case using l Cons.IH [of "a + 1" l] by simp
qed

section \<open>Vectors of arguments\<close>

definition vector_at :: "memory \<Rightarrow> u32 \<Rightarrow> u8 list list \<Rightarrow> bool" where
  "vector_at m argv strs \<longleftrightarrow>
     (\<forall>i < length strs. get_word (argv + 4 * of_nat i) m \<noteq> 0 \<and> string_at m (get_word (argv + 4 * of_nat i) m) (strs ! i)) \<and>
     get_word (argv + 4 * of_nat (length strs)) m = 0"

definition strings_size :: "u8 list list \<Rightarrow> nat" where
  "strings_size strs = (\<Sum>s\<leftarrow>strs. length s + 1)"

lemma strings_size_simps [simp]:
  "strings_size [] = 0" "strings_size (s # strs) = length s + 1 + strings_size strs"
  "strings_size (xs @ ys) = strings_size xs + strings_size ys"
  by (simp_all add: strings_size_def)

text \<open>Strings that the limit of the model allows.\<close>

definition within :: "nat \<Rightarrow> u8 list list \<Rightarrow> bool" where
  "within lim strs \<longleftrightarrow> length strs < lim \<and> (\<forall>s \<in> set strs. length s < lim)"

lemma count_args_from:
  assumes "vector_at m argv strs" "within lim strs"
  shows "k \<le> length strs \<Longrightarrow> length strs - k < fuel \<Longrightarrow>
    count_args lim fuel argv m (of_nat k) sz = Inr (of_nat (length strs), sz + of_nat (strings_size (drop k strs)))"
proof (induction fuel arbitrary: k sz)
  case (Suc fuel)
  show ?case
  proof (cases "k = length strs")
    case True
    then show ?thesis using assms(1) by (simp add: vector_at_def)
  next
    case False
    then have k: "k < length strs" using Suc.prems by simp
    then have s: "get_word (argv + 4 * of_nat k) m \<noteq> 0" "get_string lim (get_word (argv + 4 * of_nat k) m) m = Inr (strs ! k)"
      using assms by (auto simp: vector_at_def within_def intro!: get_string_at)
    have "count_args lim fuel argv m (of_nat (Suc k)) (sz + (of_nat (length (strs ! k)) + 1)) =
        Inr (of_nat (length strs), sz + (of_nat (length (strs ! k)) + 1) + of_nat (strings_size (drop (Suc k) strs)))"
      using Suc.IH [of "Suc k"] k Suc.prems by simp
    moreover have "drop k strs = strs ! k # drop (Suc k) strs" using k by (simp add: Cons_nth_drop_Suc)
    ultimately show ?thesis using s by (simp add: Let_def add_ac)
  qed
qed simp

section \<open>The buffer\<close>

definition string_offset :: "u8 list list \<Rightarrow> nat \<Rightarrow> nat" where
  "string_offset strs k = 4 * (length strs + 1) + strings_size (take k strs)"

text \<open>The first \<open>k\<close> strings are in place.\<close>

definition packed :: "u8 list list \<Rightarrow> nat \<Rightarrow> memory \<Rightarrow> bool" where
  "packed strs k buf \<longleftrightarrow> (\<forall>i < k. get_word (of_nat (4 * i)) buf = of_nat (string_offset strs i) \<and>
     get_bytes (of_nat (string_offset strs i)) (length (strs ! i) + 1) buf = strs ! i @ [0])"

definition args_size :: "u8 list list \<Rightarrow> nat" where
  "args_size strs = 4 * (length strs + 1) + strings_size strs"

lemma string_offset_Suc: "k < length strs \<Longrightarrow> string_offset strs (Suc k) = string_offset strs k + (length (strs ! k) + 1)"
  by (simp add: string_offset_def take_Suc_conv_app_nth)

lemma string_offset_mono: "i \<le> k \<Longrightarrow> string_offset strs i \<le> string_offset strs k"
proof -
  assume "i \<le> k"
  then obtain d where "k = i + d" by (auto simp: le_iff_add)
  then show ?thesis by (simp add: string_offset_def take_add)
qed

lemma string_offset_le: "string_offset strs k \<le> args_size strs"
  using string_offset_mono [of k "max k (length strs)" strs] by (simp add: string_offset_def args_size_def)

lemma string_inside:
  assumes "i < length strs"
  shows "string_offset strs i + (length (strs ! i) + 1) \<le> args_size strs" "4 * (length strs + 1) \<le> string_offset strs i"
proof -
  show "string_offset strs i + (length (strs ! i) + 1) \<le> args_size strs"
    using string_offset_le [of strs "Suc i"] string_offset_Suc [OF assms] by simp
qed (simp add: string_offset_def)

lemma string_before: "i < k \<Longrightarrow> k \<le> length strs \<Longrightarrow> string_offset strs i + (length (strs ! i) + 1) \<le> string_offset strs k"
  using string_offset_mono [of "Suc i" k strs] string_offset_Suc [of i strs] by simp

lemma packed_step:
  assumes "packed strs k buf" "k < length strs" "args_size strs < 2 ^ 32"
  shows "packed strs (Suc k) (put_word (of_nat (4 * k)) (of_nat (string_offset strs k))
    (put_bytes (of_nat (string_offset strs k)) (strs ! k @ [0]) buf))"
    (is "packed _ _ (put_word ?a ?w (put_bytes ?w ?bs buf))")
proof -
  note inside = string_inside [OF assms(2)]
  have K: "length ?bs = length (strs ! k) + 1" by simp
  have heads: "apart (of_nat (4 * i)) 4 ?a 4" "apart (of_nat (4 * i)) 4 ?w (length ?bs)" if "i < k" for i
    using that inside assms(2,3) by - (rule apart_nat; simp)+
  have strings: "apart (of_nat (string_offset strs i)) (length (strs ! i) + 1) ?a 4" if "i \<le> k" for i
    using that string_inside [of i strs] assms(2,3) by - (rule apart_nat; simp)+
  have others: "apart (of_nat (string_offset strs i)) (length (strs ! i) + 1) ?w (length ?bs)" if "i < k" for i
    using that string_inside [of i strs] inside string_before [OF that] assms(2,3) by - (rule apart_nat; simp)+
  show ?thesis unfolding packed_def
  proof (intro allI impI)
    fix i assume "i < Suc k"
    then consider "i = k" | "i < k" by linarith
    then show "get_word (of_nat (4 * i)) (put_word ?a ?w (put_bytes ?w ?bs buf)) = of_nat (string_offset strs i) \<and>
      get_bytes (of_nat (string_offset strs i)) (length (strs ! i) + 1) (put_word ?a ?w (put_bytes ?w ?bs buf)) = strs ! i @ [0]"
    proof cases
      case 1
      have "length ?bs \<le> 2 ^ 32" using inside assms(3) by simp
      then show ?thesis using 1 strings [of k] K by (simp add: get_bytes_other_word get_put_bytes)
    next
      case 2
      have "get_word (of_nat (4 * i)) buf = of_nat (string_offset strs i)"
        "get_bytes (of_nat (string_offset strs i)) (length (strs ! i) + 1) buf = strs ! i @ [0]"
        using assms(1) 2 by (auto simp: packed_def)
      then show ?thesis using heads [OF 2] strings [of i] others [OF 2] 2
        by (simp add: get_word_other get_bytes_other_word get_other_bytes del: of_nat_mult of_nat_add)
    qed
  qed
qed

lemma arg_buffer_spec:
  assumes v: "vector_at m argv strs" "within lim strs" and T: "args_size strs < 2 ^ 32"
  shows "\<exists>buf. arg_buffer lim new (of_nat (length strs)) argv m = Inr buf \<and> packed strs (length strs) buf \<and>
    get_word (of_nat (4 * length strs)) buf = 0"
proof -
  let ?n = "length strs"
  have n: "?n < 2 ^ 32" "4 * (?n + 1) \<le> args_size strs" using T by (simp_all add: args_size_def)
  let ?I = "\<lambda>pre (buf, string). packed strs (length pre) buf \<and> string = (of_nat (string_offset strs (length pre)) :: u32)"
  have "\<exists>t. forE (copy_arg lim argv m) [0..<?n] (new, (of_nat ?n + 1) * 4) = Inr t \<and> ?I [0..<?n] t"
  proof (rule forE_total [where I = ?I])
    show "?I [] (new, (of_nat ?n + 1) * 4)" by (simp add: packed_def string_offset_def algebra_simps)
  next
    fix pre i post u
    assume split: "[0..<?n] = pre @ i # post" and I: "?I pre u"
    have len: "length [0..<?n] = length pre + length (i # post)" using split by (metis length_append)
    have nth: "[0..<?n] ! length pre = i" using split by (metis nth_append_length)
    have "length pre < ?n" using len by (simp only: length_upt length_Cons)
    then have i: "i = length pre" "i < ?n" using nth by simp_all
    obtain buf where u: "u = (buf, of_nat (string_offset strs i))" "packed strs i buf" using I i by (cases u) auto
    have "get_string lim (get_word (argv + 4 * of_nat i) m) m = Inr (strs ! i)"
      using v i(2) by (auto simp: vector_at_def within_def intro!: get_string_at)
    moreover have "of_nat (string_offset strs i) + (of_nat (length (strs ! i)) + 1) = (of_nat (string_offset strs (Suc i)) :: u32)"
      using string_offset_Suc [OF i(2)] by simp
    ultimately show "\<exists>v. copy_arg lim argv m i u = Inr v \<and> ?I (pre @ [i]) v"
      using packed_step [OF u(2) i(2) T] u(1) i(1) by (simp add: copy_arg_def)
  qed
  then obtain buf string where loop: "forE (copy_arg lim argv m) [0..<?n] (new, (of_nat ?n + 1) * 4) = Inr (buf, string)"
    "packed strs ?n buf" by auto
  have un: "unat (of_nat ?n :: u32) = ?n" using n(1) by (rule unat_of_nat_u32)
  have "apart (of_nat (4 * i)) 4 (of_nat (4 * ?n)) 4"
    "apart (of_nat (string_offset strs i)) (length (strs ! i) + 1) (of_nat (4 * ?n)) 4" if "i < ?n" for i
    using that string_inside [OF that] n(2) T by - (rule apart_nat; simp)+
  then have "packed strs ?n (put_word (of_nat (4 * ?n)) 0 buf)"
    using loop(2) by (simp add: packed_def get_word_other get_bytes_other_word del: of_nat_mult of_nat_add)
  then show ?thesis using loop(1) by (simp add: arg_buffer_def un)
qed

section \<open>The stack\<close>

lemma unat_align: "unat (x AND 0xfffffff0 :: u32) = unat x div 16 * 16"
proof -
  have "x AND 0xfffffff0 = push_bit 4 (drop_bit 4 x)"
  proof (rule bit_word_eqI)
    fix n assume n: "n < LENGTH(32)"
    have "(0xfffffff0 :: u32) = NOT (mask 4)" by (simp add: mask_eq_exp_minus_1)
    then have b: "bit (0xfffffff0 :: u32) n \<longleftrightarrow> \<not> n < 4" using n by (metis bit_mask_iff bit_not_iff possible_bit_word)
    then show "bit (x AND 0xfffffff0) n = bit (push_bit 4 (drop_bit 4 x)) n" using n by (auto simp: bit_simps not_less)
  qed
  moreover have "unat x div 16 * 16 < 2 ^ 32" using unat_u32 [of x] by linarith
  ultimately show ?thesis by (simp add: push_bit_eq_mult drop_bit_eq_div unat_word_ariths unat_div)
qed

lemma stack_top_spec:
  assumes "sz + 8 \<le> unat stack"
  shows "\<exists>k. unat (stack_top stack (of_nat sz)) = 16 * k + 8 \<and> 16 * k + 8 + sz \<le> unat stack"
proof -
  have sz: "unat (of_nat sz :: u32) = sz" using assms unat_u32 [of stack] by (intro unat_of_nat_u32) simp
  have a: "unat (stack - of_nat sz - 8) = unat stack - sz - 8" using assms sz by (simp add: unat_minus)
  let ?k = "(unat stack - sz - 8) div 16"
  have le: "16 * ?k \<le> unat stack - sz - 8" by simp
  have "unat (stack_top stack (of_nat sz)) = 16 * ?k + 8"
    using le assms unat_u32 [of stack] by (simp add: stack_top_def unat_plus_if' unat_align a mult.commute)
  then show ?thesis using le assms by (intro exI [of _ ?k]) simp
qed

lemma get_shifted:
  assumes "a + n \<le> sz" "sz \<le> 2 ^ 32"
  shows "get_bytes (b + of_nat a) n (put_bytes b (get_bytes 0 sz buf) m) = get_bytes (of_nat a) n buf"
proof (rule nth_equalityI)
  fix i assume "i < length (get_bytes (b + of_nat a) n (put_bytes b (get_bytes 0 sz buf) m))"
  then have i: "i < n" by simp
  have "put_bytes b (get_bytes 0 sz buf) m (b + of_nat (a + i)) = get_bytes 0 sz buf ! (a + i)"
    using i assms by (intro put_bytes_at) simp_all
  then show "get_bytes (b + of_nat a) n (put_bytes b (get_bytes 0 sz buf) m) ! i = get_bytes (of_nat a) n buf ! i"
    using i assms by (simp add: get_bytes_def add.assoc)
qed simp

lemma apart_shifted:
  assumes "unat b + T \<le> 2 ^ 32" "a + n \<le> T" "c + k \<le> T" "a < T" "c < T" "a + n \<le> c \<or> c + k \<le> a"
  shows "apart (b + of_nat a) n (b + of_nat c) k"
proof -
  have "unat (b + of_nat a) = unat b + a" "unat (b + of_nat c) = unat b + c"
    using assms by (auto intro!: unat_offset)
  then show ?thesis using assms by (auto simp: apart_def)
qed

text \<open>After \<open>k\<close> rounds of the loop that moves the pointers.\<close>

definition moved :: "u8 list list \<Rightarrow> u32 \<Rightarrow> nat \<Rightarrow> memory \<Rightarrow> bool" where
  "moved strs sp k m \<longleftrightarrow>
     (\<forall>i < length strs. get_word (sp + of_nat (4 * i)) m = of_nat (string_offset strs i) + (if i < k then sp else 0) \<and>
       get_bytes (sp + of_nat (string_offset strs i)) (length (strs ! i) + 1) m = strs ! i @ [0]) \<and>
     get_word (sp + of_nat (4 * length strs)) m = 0"

lemma moved_step:
  assumes "moved strs sp k m" "k < length strs" "unat sp + args_size strs \<le> 2 ^ 32"
  shows "moved strs sp (Suc k) (put_word (sp + of_nat (4 * k)) (get_word (sp + of_nat (4 * k)) m + sp) m)"
proof -
  have n: "4 * (length strs + 1) \<le> args_size strs" by (simp add: args_size_def)
  have heads: "apart (sp + of_nat (4 * i)) 4 (sp + of_nat (4 * k)) 4" if "i \<le> length strs" "i \<noteq> k" for i
    using that n assms(2) by (intro apart_shifted [OF assms(3)]) auto
  have strings: "apart (sp + of_nat (string_offset strs i)) (length (strs ! i) + 1) (sp + of_nat (4 * k)) 4" if "i < length strs" for i
    using string_inside [OF that] n assms(2) by (intro apart_shifted [OF assms(3)]) auto
  have "get_word (sp + of_nat (4 * i)) (put_word (sp + of_nat (4 * k)) w m) =
      (if i = k then w else get_word (sp + of_nat (4 * i)) m)" if "i \<le> length strs" for i w
    using heads [OF that] get_word_other(1) by auto
  then show ?thesis
    using assms(1,2) strings unfolding moved_def by (auto simp: get_bytes_other_word simp del: of_nat_mult)
qed

lemma put_stack_spec:
  fixes m :: memory
  assumes buf: "packed strs (length strs) buf" "get_word (of_nat (4 * length strs)) buf = 0"
    and strs: "\<forall>s \<in> set strs. 0 \<notin> set s"
    and sp: "8 \<le> unat sp" "unat sp + args_size strs < 2 ^ 32"
  defines "m' \<equiv> put_stack sp (of_nat (length strs)) (of_nat (args_size strs)) buf m"
  shows "vector_at m' sp strs" "get_word (sp - 8) m' = of_nat (length strs)" "get_word (sp - 4) m' = sp"
    "apart a n (sp - 8) (args_size strs + 8) \<Longrightarrow> get_bytes a n m' = get_bytes a n m"
proof -
  let ?n = "length strs" and ?T = "args_size strs"
  have n: "4 * (?n + 1) \<le> ?T" by (simp add: args_size_def)
  have un: "unat (of_nat ?n :: u32) = ?n" "unat (of_nat ?T :: u32) = ?T" using n sp(2) by (auto intro!: unat_of_nat_u32)
  let ?m0 = "put_bytes sp (get_bytes 0 ?T buf) m"
  let ?step = "\<lambda>i m. put_word (sp + 4 * of_nat i) (get_word (sp + 4 * of_nat i) m + sp) m"
  have shift: "get_bytes (sp + of_nat a) l ?m0 = get_bytes (of_nat a) l buf" if "a + l \<le> ?T" for a l
    using that sp(2) by (intro get_shifted) simp_all
  have "moved strs sp 0 ?m0"
    using buf n string_inside shift unfolding moved_def packed_def get_word_def by (auto simp del: of_nat_mult of_nat_add)
  then have moved: "moved strs sp ?n (fold ?step [0..<?n] ?m0)"
    using moved_step [of strs sp] sp(2) by (intro fold_upt [where I = "moved strs sp"]) simp_all
  let ?m1 = "fold ?step [0..<?n] ?m0"
  have m': "m' = put_word (sp - 4) sp (put_word (sp - 8) (of_nat ?n) ?m1)" by (simp add: m'_def put_stack_def un)
  have us: "unat (sp - 4) = unat sp - 4" "unat (sp - 8) = unat sp - 8" using sp(1) by (simp_all add: unat_minus)
  have below: "apart (sp + of_nat a) l (sp - 4) 4" "apart (sp + of_nat a) l (sp - 8) 4" if "a + l \<le> ?T" for a l
    using that sp us unat_offset [of sp a] by (auto simp: apart_def)
  have words: "get_word (sp + of_nat a) m' = get_word (sp + of_nat a) ?m1" if "a + 4 \<le> ?T" for a
    unfolding m' using below [OF that] by (simp add: get_word_other)
  have strings: "get_bytes (sp + of_nat a) l m' = get_bytes (sp + of_nat a) l ?m1" if "a + l \<le> ?T" for a l
    unfolding m' using below [OF that] by (simp add: get_bytes_other_word)
  have ptr: "get_word (sp + 4 * of_nat i) m' = sp + of_nat (string_offset strs i)" if "i < ?n" for i
    using words [of "4 * i"] moved that n by (simp add: moved_def add.commute)
  have nz: "sp + of_nat (string_offset strs i) \<noteq> (0 :: u32)" if "i < ?n" for i
  proof -
    have "unat (sp + of_nat (string_offset strs i) :: u32) = unat sp + string_offset strs i"
      using string_inside(1) [OF that] sp(2) by (intro unat_offset) simp
    then show ?thesis using sp(1) by (metis add_is_0 not_numeral_le_zero unsigned_0)
  qed
  have str: "string_at m' (sp + of_nat (string_offset strs i)) (strs ! i)" if "i < ?n" for i
    using strings [OF string_inside(1) [OF that]] moved that strs unfolding moved_def string_at_def by simp
  have "get_word (sp + 4 * of_nat ?n) m' = 0" using words [of "4 * ?n"] moved n by (simp add: moved_def)
  then show "vector_at m' sp strs" using ptr nz str by (simp add: vector_at_def)
  have "apart (sp - 8) 4 (sp - 4) 4" using sp us by (simp add: apart_def)
  then show "get_word (sp - 8) m' = of_nat ?n" "get_word (sp - 4) m' = sp" unfolding m' by (simp_all add: get_word_other)
  assume out: "apart a n (sp - 8) (?T + 8)"
  have "apart a n (sp + 4 * of_nat i) 4" if "i < ?n" for i
    using out that us unat_offset [of sp "4 * i"] sp n by (auto simp: apart_def)
  then have "get_bytes a n ?m1 = get_bytes a n ?m0"
    by (intro fold_upt [where I = "\<lambda>_ x. get_bytes a n x = get_bytes a n ?m0"]) (auto simp: get_bytes_other_word)
  moreover have "apart a n sp ?T" "apart a n (sp - 8) 4" "apart a n (sp - 4) 4" using out us sp by (auto simp: apart_def)
  ultimately show "get_bytes a n m' = get_bytes a n m"
    unfolding m' by (simp add: get_bytes_other_word get_other_bytes)
qed

text \<open>\<open>exec\<close> as a whole: the arguments arrive, and the image is left alone.\<close>

lemma sys_exec_arguments:
  fixes strs :: "u8 list list" and p :: process and S :: "'d system" and E :: "'d env"
  assumes vec: "vector_at (space p) argv strs" "within (limit E) strs"
    and head: "read_header (node_device (fs_block_size (filesys E)) (dev E) (fresh_block E) nd) (nd, disk S) = Inr (Some eh, (nd1, d1))"
    and body: "elf_load (node_device (fs_block_size (filesys E)) (dev E) (fresh_block E) nd) eh
      (space (proc_reset (user_address (conf E)) p), (nd1, d1)) = Inr (ent, m, (nd2, d2))"
    and fits: "args_size strs + 8 \<le> unat (user_stack (conf E))"
  shows "\<exists>sp p'. sys_exec E nd argv p S = Inr (UserMode ent sp p' (S\<lparr>disk := d2\<rparr>)) \<and> unat sp mod 16 = 0 \<and>
    get_word sp (space p') = of_nat (length strs) \<and> get_word (sp + 4) (space p') = sp + 8 \<and>
    vector_at (space p') (sp + 8) strs \<and> unat sp + 8 + args_size strs \<le> unat (user_stack (conf E)) \<and>
    (\<forall>a n. apart a n sp (args_size strs + 8) \<longrightarrow> get_bytes a n (space p') = get_bytes a n m) \<and>
    fdt p' = fdt p \<and> pdt p' = pdt p \<and> sdt p' = replicate 10 0"
proof -
  let ?T = "args_size strs"
  have T: "?T < 2 ^ 32" using fits unat_u32 [of "user_stack (conf E)"] by simp
  have count: "count_args (limit E) (limit E) argv (space p) 0 0 = Inr (of_nat (length strs), of_nat (strings_size strs))"
    using count_args_from [OF vec, of 0 "limit E" 0] vec(2) by (simp add: within_def)
  have size: "of_nat (strings_size strs) + (of_nat (length strs) * 4 + 4) = (of_nat ?T :: u32)"
    by (simp add: args_size_def algebra_simps)
  obtain buf where buf: "arg_buffer (limit E) (junk E) (of_nat (length strs)) argv (space p) = Inr buf"
    "packed strs (length strs) buf" "get_word (of_nat (4 * length strs)) buf = 0"
    using arg_buffer_spec [OF vec T] by blast
  obtain k where k: "unat (stack_top (user_stack (conf E)) (of_nat ?T)) = 16 * k + 8" "16 * k + 8 + ?T \<le> unat (user_stack (conf E))"
    using stack_top_spec [OF fits] by blast
  define sp where "sp = stack_top (user_stack (conf E)) (of_nat ?T)"
  define m' where "m' = put_stack sp (of_nat (length strs)) (of_nat ?T) buf m"
  define p' where "p' = (proc_reset (user_address (conf E)) p)\<lparr>space := m'\<rparr>"
  have nul: "\<forall>s \<in> set strs. 0 \<notin> set s" using vec(1) by (auto simp: vector_at_def string_at_def in_set_conv_nth)
  have sp: "8 \<le> unat sp" "unat sp + ?T < 2 ^ 32" using k unat_u32 [of "user_stack (conf E)"] by (simp_all add: sp_def)
  note stack = put_stack_spec [OF buf(2,3) nul sp, where m = m, folded m'_def]
  have "exec E nd (of_nat (length strs)) argv (of_nat (strings_size strs)) p S = Inr (UserMode ent (sp - 8) p' (S\<lparr>disk := d2\<rparr>))"
    using head body buf(1) by (simp add: exec_def Let_def size sp_def m'_def p'_def)
  then have "sys_exec E nd argv p S = Inr (UserMode ent (sp - 8) p' (S\<lparr>disk := d2\<rparr>))" by (simp add: sys_exec_def count)
  moreover have "unat (sp - 8) = 16 * k" using k(1) by (simp add: sp_def [symmetric] unat_minus)
  moreover have "sp - 8 + 4 = sp - 4" "sp - 8 + 8 = sp" by simp_all
  moreover have "space p' = m'" "fdt p' = fdt p" "pdt p' = pdt p" "sdt p' = replicate 10 0"
    by (simp_all add: p'_def proc_reset_def empty_table_def SDT_SIZE_def)
  ultimately show ?thesis using stack k(2) by (intro exI [of _ "sp - 8"] exI [of _ p']) auto
qed

end
