(* ===== verification/Elf_Claims.thy ===== *)
theory Elf_Claims
  imports Elf
begin

text \<open>The claims about executables, and a file in memory that they apply to.\<close>

section \<open>A file in memory\<close>

definition ram_device :: "(nat \<Rightarrow> u8) \<Rightarrow> u32 \<Rightarrow> unit device" where
  "ram_device content sz = \<lparr>block_size = 512, size_in_bytes = sz, read_block = (\<lambda>k d. Inr (bytes content (unat k * 512) 512, d))\<rparr>"

interpretation ram: block_device "ram_device content sz" "\<lambda>_. True" content
  by unfold_locales (auto simp: ram_device_def)

text \<open>A file of 94 bytes: an ELF header, one segment header and ten bytes that go to the entry point.\<close>

definition tiny_bytes :: "u8 list" where
  "tiny_bytes =
    [0x7f, 0x45, 0x4c, 0x46, 1, 1, 1, 0, 0, 0, 0, 0, 0, 0, 0, 0,
     2, 0, 3, 0, 1, 0, 0, 0, 0, 0, 0, 0x80, 52, 0, 0, 0, 0, 0, 0, 0, 0, 0, 0, 0,
     52, 0, 32, 0, 1, 0, 0, 0, 0, 0, 0, 0,
     1, 0, 0, 0, 84, 0, 0, 0, 0, 0, 0, 0x80, 0, 0, 0, 0, 10, 0, 0, 0, 12, 0, 0, 0, 0, 0, 0, 0, 0, 0, 0, 0,
     1, 2, 3, 4, 5, 6, 7, 8, 9, 10]"

definition tiny_content :: "nat \<Rightarrow> u8" where
  "tiny_content n = (if n < 94 then tiny_bytes ! n else 0)"

definition tiny_device :: "unit device" where
  "tiny_device = ram_device tiny_content 94"

definition tiny_header :: elf_header where
  "tiny_header = \<lparr>ident = [0x7f, 0x45, 0x4c, 0x46, 1, 1, 1, 0, 0, 0, 0, 0, 0, 0, 0, 0], type = 2, machine = 3,
     entry = 0x80000000, phoff = 52, phentsize = 32, phentnum = 1\<rparr>"

definition tiny_segment :: program_header where
  "tiny_segment = \<lparr>ptype = 1, offset = 84, vaddr = 0x80000000, filesize = 10, memsize = 12\<rparr>"

lemma tiny_block_device: "block_device tiny_device (\<lambda>_. True) tiny_content"
  unfolding tiny_device_def by (rule ram.block_device_axioms)

lemma tiny_bytes_at: "from + n \<le> 94 \<Longrightarrow> bytes tiny_content from n = take n (drop from tiny_bytes)"
  by (rule nth_equalityI) (simp_all add: bytes_nth tiny_content_def tiny_bytes_def)

lemma tiny_header_of: "header_of (bytes tiny_content 0 52) = tiny_header"
  by (simp add: tiny_bytes_at tiny_bytes_def header_of_def tiny_header_def le16_def le32_def)

lemma tiny_segment_of: "nth_header tiny_content tiny_header 0 = tiny_segment"
proof -
  have "unat (header_offset tiny_header 0) = 52" by (simp add: header_offset_def tiny_header_def)
  then show ?thesis
    by (simp add: nth_header_def tiny_bytes_at tiny_bytes_def program_header_of_def tiny_segment_def le32_def)
qed

lemma tiny_segment_bytes: "segment_bytes tiny_content tiny_segment = [1, 2, 3, 4, 5, 6, 7, 8, 9, 10, 0, 0]"
proof -
  have "replicate 2 (0 :: u8) = [0, 0]" by (simp add: numeral_2_eq_2)
  then show ?thesis by (simp add: segment_bytes_def tiny_segment_def tiny_bytes_at tiny_bytes_def)
qed

lemma tiny_well_formed: "well_formed tiny_content (size_in_bytes tiny_device) tiny_header"
proof -
  have "phentnum tiny_header = 1" "unat (header_offset tiny_header 0) + 32 \<le> unat (size_in_bytes tiny_device)"
    "segment_ok (size_in_bytes tiny_device) tiny_segment"
    by (simp_all add: tiny_header_def header_offset_def tiny_device_def ram_device_def segment_ok_def tiny_segment_def)
  then show ?thesis using tiny_segment_of by (simp add: well_formed_def)
qed

section \<open>The claims\<close>

text \<open>
  \<open>read_header\<close> accepts a file exactly if it has room for a header with the right magic number, class, byte order, ABI,
  type and machine, whose entry point is in the user part of the address space; then it returns the header that the
  file begins with. It never panics.
\<close>

theorem elf_header_checked:
  assumes "block_device F ok content" "ok s"
  defines "eh \<equiv> header_of (bytes content 0 52)"
  shows "\<exists>s'. ok s' \<and> read_header F s =
    Inr (if 52 \<le> size_in_bytes F \<and> le32 (ident eh) = MAGIC \<and> ident eh ! 4 = 1 \<and> ident eh ! 5 = 1 \<and> ident eh ! 7 = 0 \<and>
            type eh = 2 \<and> machine eh = 3 \<and> 0x80000000 \<le> entry eh
         then Some eh else None, s')"
  using block_device.read_header_spec [OF assms(1,2)] unfolding header_valid_def eh_def .

theorem elf_header_checked_witness: "\<exists>s'. read_header tiny_device () = Inr (Some tiny_header, s')"
proof -
  have "52 \<le> size_in_bytes tiny_device \<and> le32 (ident tiny_header) = MAGIC \<and> ident tiny_header ! 4 = 1 \<and>
    ident tiny_header ! 5 = 1 \<and> ident tiny_header ! 7 = 0 \<and> type tiny_header = 2 \<and> machine tiny_header = 3 \<and>
    0x80000000 \<le> entry tiny_header"
    by (simp add: tiny_header_def tiny_device_def ram_device_def MAGIC_def le32_def)
  then show ?thesis using elf_header_checked [OF tiny_block_device, of "()"] tiny_header_of by simp
qed

text \<open>
  C27. Loading a well-formed file gives the image that the file describes: every loadable segment that no later one overlaps
  holds the bytes of the file at its virtual address, followed by zeros up to its size in memory; bytes that no segment
  covers are not touched; and the entry point is that of the header. The virtual addresses are not looked at.
\<close>

theorem elf_loads_image:
  assumes "block_device F ok content" "ok s" "well_formed content (size_in_bytes F) eh"
  shows "\<exists>m' s'. elf_load F eh (m, s) = Inr (entry eh, m', s') \<and> ok s' \<and>
    (\<forall>k < unat (phentnum eh). ptype (nth_header content eh k) = PT_LOAD \<longrightarrow>
      (\<forall>i. k < i \<and> i < unat (phentnum eh) \<longrightarrow>
         clear_of (nth_header content eh i) (vaddr (nth_header content eh k)) (unat (memsize (nth_header content eh k)))) \<longrightarrow>
      get_bytes (vaddr (nth_header content eh k)) (unat (memsize (nth_header content eh k))) m' =
        segment_bytes content (nth_header content eh k)) \<and>
    (\<forall>a n. (\<forall>i < unat (phentnum eh). clear_of (nth_header content eh i) a n) \<longrightarrow> get_bytes a n m' = get_bytes a n m)"
  using block_device.elf_image [OF assms] .

theorem elf_loads_image_witness:
  "\<exists>m' s'. elf_load tiny_device tiny_header (\<lambda>_. 0xff, ()) = Inr (0x80000000, m', s') \<and>
    get_bytes 0x80000000 12 m' = [1, 2, 3, 4, 5, 6, 7, 8, 9, 10, 0, 0] \<and> get_bytes 0x8000000c 1 m' = [0xff]"
proof -
  note loads = elf_loads_image [OF tiny_block_device TrueI tiny_well_formed, where s = "()" and m = "\<lambda>_. 0xff"]
  then obtain m' s' where m: "elf_load tiny_device tiny_header (\<lambda>_. 0xff, ()) = Inr (entry tiny_header, m', s')" by blast
  have one: "unat (phentnum tiny_header) = 1" "entry tiny_header = 0x80000000" by (simp_all add: tiny_header_def)
  have seg: "ptype tiny_segment = PT_LOAD" "vaddr tiny_segment = 0x80000000" "unat (memsize tiny_segment) = 12"
    "clear_of tiny_segment 0x8000000c 1"
    by (simp_all add: tiny_segment_def PT_LOAD_def clear_of_def apart_def)
  have "get_bytes 0x80000000 12 m' = [1, 2, 3, 4, 5, 6, 7, 8, 9, 10, 0, 0]"
    using loads m one seg tiny_segment_of tiny_segment_bytes by auto
  moreover have "get_bytes 0x8000000c 1 m' = get_bytes 0x8000000c 1 (\<lambda>_. 0xff)"
    using loads m one seg tiny_segment_of by auto
  ultimately show ?thesis using m one by (auto simp: get_bytes_def)
qed

text \<open>
  A file that ends inside its first segment header stops the kernel: \<open>read_header\<close> does not look at the
  segment headers, and the assertion in the typed \<open>read\<close> fails.
\<close>

theorem elf_short_panics:
  assumes "block_device F ok content" "ok s" "0 < phentnum eh"
    "unat (header_offset eh 0) < unat (size_in_bytes F)" "unat (size_in_bytes F) < unat (header_offset eh 0) + 32"
  shows "elf_load F eh (m, s) = Inl (Assertion ''cnt == sizeof(T)'')"
  using block_device.elf_load_short [OF assms(1,2,4,5,3)] .

theorem elf_short_panics_witness:
  "elf_load tiny_device (tiny_header\<lparr>phoff := 70\<rparr>) (\<lambda>_. 0, ()) = Inl (Assertion ''cnt == sizeof(T)'')"
proof -
  have "0 < phentnum (tiny_header\<lparr>phoff := 70\<rparr>)" "unat (header_offset (tiny_header\<lparr>phoff := 70\<rparr>) 0) < unat (size_in_bytes tiny_device)"
    "unat (size_in_bytes tiny_device) < unat (header_offset (tiny_header\<lparr>phoff := 70\<rparr>) 0) + 32"
    by (simp_all add: tiny_header_def header_offset_def tiny_device_def ram_device_def)
  then show ?thesis by (intro elf_short_panics [OF tiny_block_device]) simp_all
qed

end
