(* ===== verification/Sys_Example.thy ===== *)
theory Sys_Example
  imports Sys_Thms Sys_Exec Elf_Claims Ext2_Claims
begin

text \<open>A small system that the claims about system calls apply to: a disk with one executable, and a process.\<close>

definition boot_content :: "nat \<Rightarrow> u8" where
  "boot_content n = (if 5120 \<le> n then tiny_content (n - 5120) else 0)"

definition boot_device :: "unit device" where
  "boot_device = ram_device boot_content 0x8000"

definition boot_file :: node where
  "boot_file = (new_node 3)\<lparr>mode := 0x8000, nsize := 94, data := small_data\<rparr>"

definition boot_conf :: config where
  "boot_conf = no_config\<lparr>localAPIC := 0xfee00000, ioAPIC := 0xfec00000\<rparr>"

definition boot_env :: "unit env" where
  "boot_env = \<lparr>conf = boot_conf,
     filesys = \<lparr>inode_count = 8, block_count = 32, fs_block_size = 1024, block_count_per_group = 32, inode_count_per_group = 8,
       block_group_count = 1, group_table = [3]\<rparr>,
     root_dir = new_node 2, dev = boot_device, fresh_block = zeros, junk = (\<lambda>_. 0), limit = 8\<rparr>"

text \<open>The vector of one argument, \<open>hi\<close>; the arguments of a \<open>read\<close> and of a \<open>wait\<close>.\<close>

definition boot_mem :: memory where
  "boot_mem =
     put_word 0x80001000 0x80002000 (put_bytes 0x80002000 [0x68, 0x69, 0]
       (put_word 0x80003004 3 (put_word 0x80003008 0x80004000 (put_word 0x8000300c 4
         (put_word 0x80005004 TYPE_PD (put_word 0x80005008 0x80006000 (\<lambda>_. 0)))))))"

definition read_frame :: frame where
  "read_frame = \<lparr>pc = 0x80000010, esp = 0x80003000\<rparr>"

definition wait_frame :: frame where
  "wait_frame = \<lparr>pc = 0x80000010, esp = 0x80005000\<rparr>"

definition boot_proc :: process where
  "boot_proc = \<lparr>exit_status = 0, cd = new_node 2, fdt = [1, 2, 3, 4, 0, 0, 0, 0, 0, 0], pdt = replicate 10 0,
     sdt = replicate 10 0, space = boot_mem\<rparr>"

definition boot_sys :: "unit system" where
  "boot_sys = \<lparr>fds = [EmptyFD, StdIn, StdOut, StdErr, FileFD boot_file 84], pds = [EmptyPD], sds = [EmptySD],
     futures = [None], console = [], ready = [], disk = ()\<rparr>"

lemma boot_ok: "system_ok boot_proc boot_sys"
  by (simp add: system_ok_def proc_ok_def store_ok_def boot_proc_def boot_sys_def FDT_SIZE_def PDT_SIZE_def SDT_SIZE_def)

section \<open>The file\<close>

lemma boot_inside: "file_inside (unat (size_in_bytes boot_device)) boot_content 1024 small_data 94"
proof -
  have "file_ptr boot_content 1024 small_data k = 5" if "512 * k < 47" for k using that small_ptr [of k] by (cases k) simp_all
  then show ?thesis by (auto simp: file_inside_def boot_device_def ram_device_def unat_div)
qed

interpretation boot: ext2_file boot_device "\<lambda>_. True" boot_content "unat (size_in_bytes boot_device)" 1024 small_data 94 zeros
  unfolding boot_device_def
  using ram.device_is_store boot_inside [unfolded boot_device_def]
  by (simp add: ext2_file_def ext2_file_axioms_def zeros_def)

lemma boot_node_device: "node_device 1024 boot_device zeros boot_file = file_device 1024 boot_device zeros 94"
  by (simp add: node_device_file boot_file_def)

lemma boot_node_ok: "node_ok (\<lambda>_. True) boot_content 1024 small_data 94 (boot_file, ())"
  by (simp add: node_ok_def boot_file_def new_node_def)

lemma boot_bytes: "from + n \<le> 94 \<Longrightarrow> bytes (file_content boot_content 1024 small_data) from n = bytes tiny_content from n"
  by (rule nth_equalityI) (simp_all add: bytes_nth file_content_def small_ptr boot_content_def)

lemma boot_header: "nth_header (file_content boot_content 1024 small_data) tiny_header 0 = tiny_segment"
proof -
  have "unat (header_offset tiny_header 0) = 52" by (simp add: header_offset_def tiny_header_def)
  then show ?thesis using tiny_segment_of boot_bytes [of 52 32] by (simp add: nth_header_def)
qed

end
