(* ===== verification/Sys_Claims.thy ===== *)
theory Sys_Claims
  imports Sys_Example
begin

text \<open>The claims about processes and system calls.\<close>

section \<open>Lemmas\<close>

lemma unat_page: "drop_bit 12 a = drop_bit 12 b \<Longrightarrow> unat b mod 4096 = 0 \<Longrightarrow> unat b \<le> unat a \<and> unat a < unat b + 4096"
  for a b :: u32
proof -
  assume "drop_bit 12 a = drop_bit 12 b" and b: "unat b mod 4096 = 0"
  then have "unat (a div 4096) = unat (b div 4096)" by (simp add: drop_bit_eq_div)
  then have "unat a div 4096 = unat b div 4096" by (simp add: unat_div)
  then show ?thesis using b mult_div_mod_eq [of 4096 "unat a"] mult_div_mod_eq [of 4096 "unat b"] mod_less_divisor [of 4096 "unat a"]
    by linarith
qed

lemma outcome_ok_returned:
  assumes "\<And>v p' S'. r = Inr (v, p', S') \<Longrightarrow> system_ok p' S' \<and> grows S S'"
  shows "outcome_ok S (returned r)"
  using assms by (cases r) (auto simp: returned_def)

lemma exec_ok:
  assumes "system_ok p S"
  shows "outcome_ok S (exec E nd argc argv sz p S)"
proof -
  have "proc_ok (proc_reset f p) S" for f using proc_reset_ok [OF assms] by (simp add: system_ok_def)
  then show ?thesis using assms
    by (auto simp: exec_def Let_def outcome_ok_def bindE_def system_ok_def split: sum.splits option.splits)
qed

lemma sys_exec_ok: "system_ok p S \<Longrightarrow> outcome_ok S (sys_exec E nd argv p S)"
  using exec_ok by (cases "count_args (limit E) (limit E) argv (space p) 0 0") (auto simp: sys_exec_def)

lemma open_name_ok: "system_ok p S \<Longrightarrow> open_name E a p S = Inr (f, S') \<Longrightarrow> system_ok p S' \<and> (\<forall>T. grows S' T \<longrightarrow> grows S T) \<and> grows S S'"
  by (auto simp: open_name_def grows_def)

lemma outcome_ok_after: "outcome_ok S' r \<Longrightarrow> (\<And>T. grows S' T \<Longrightarrow> grows S T) \<Longrightarrow> outcome_ok S r"
  by (auto simp: outcome_ok_def split: sum.splits outcome.splits)

lemma sys_execl_ok: "system_ok p S \<Longrightarrow> outcome_ok S (sys_execl E fr p S)"
proof (cases "open_name E (getarg 0 fr p) p S")
  case (Inr r)
  assume ok: "system_ok p S"
  obtain f S' where r: "r = (f, S')" by (cases r)
  note o = open_name_ok [OF ok Inr [unfolded r]]
  show ?thesis
    using o outcome_ok_after [OF sys_exec_ok [of p S']] by (auto simp: sys_execl_def Inr r split: option.split)
qed (simp add: sys_execl_def)

lemma sys_open_ok: "system_ok p S \<Longrightarrow> outcome_ok S (sys_open E fr p S)"
proof (cases "open_name E (getarg 0 fr p) p S")
  case (Inr r)
  assume ok: "system_ok p S"
  obtain f S' where r: "r = (f, S')" by (cases r)
  note o = open_name_ok [OF ok Inr [unfolded r]]
  have "outcome_ok S' (returned (set_fd (\<lambda>S. Inr (new_fd (FileFD nd 0) S)) p S'))" for nd
    by (rule outcome_ok_returned) (rule set_fd_ok [OF conjunct1 [OF o]])
  then have "outcome_ok S (returned (set_fd (\<lambda>S. Inr (new_fd (FileFD nd 0) S)) p S'))" for nd
    by (rule outcome_ok_after) (use o in blast)
  then show ?thesis using o by (auto simp: sys_open_def Inr r split: option.split)
qed (simp add: sys_open_def)

lemma sys_exit_ok: "system_ok p S \<Longrightarrow> outcome_ok S (sys_exit E fr p S)"
  using store_ok_same [of S "set_future (exit_status p) (sint (getarg 0 fr p)) S"]
  by (auto simp: sys_exit_def exit_process_def set_future_def system_ok_def store_ok_def)

lemma sys_read_ok: "system_ok p S \<Longrightarrow> outcome_ok S (sys_read E fr p S)"
proof (cases "fd_read (fs_block_size (filesys E)) (dev E) (fresh_block E) (get_fd p (getarg 0 fr p)) (getarg 2 fr p) S")
  case (Inr r)
  assume ok: "system_ok p S"
  obtain v b S' where r: "r = ((v, b), S')" by (metis surj_pair)
  show ?thesis using ok fd_read_ok [OF ok Inr [unfolded r]] by (simp add: sys_read_def Inr r)
qed (simp add: sys_read_def)

lemma simple_calls_ok:
  assumes "system_ok p S"
  shows "outcome_ok S (sys_write E fr p S)" "outcome_ok S (sys_up E fr p S)" "outcome_ok S (sys_down E fr p S)"
    "outcome_ok S (sys_close E fr p S)" "outcome_ok S (sys_shutdown E fr p S)" "outcome_ok S (sys_wait E fr p S)"
    "outcome_ok S (sys_len E fr p S)" "outcome_ok S (sys_seek E fr p S)" "outcome_ok S (sys_sem E fr p S)"
    "outcome_ok S (sys_fork E fr p S)"
  using assms operations_ok [OF assms]
  by (auto simp: sys_write_def sys_up_def sys_down_def sys_close_def sys_shutdown_def sys_wait_def sys_len_def sys_seek_def
      sys_sem_def sys_fork_def split: prod.split answer.split intro!: outcome_ok_returned)

section \<open>The claims\<close>

text \<open>
  C23. Every system call keeps the state well formed: the tables of the calling process and of the threads that wait to start keep their
  sizes and refer to objects that exist, object 0 of each kind stays the empty one, and every process descriptor and every process has
  the future of an exit status. No object that exists is taken away. This holds for every number, the undefined ones too.
\<close>

theorem sysHandler_well_formed:
  assumes "system_ok p S"
  shows "outcome_ok S (sysHandler num E fr p S)"
proof (cases "NUM_SYSCALLS \<le> num")
  case False
  then have "unat num < 14" by (simp add: NUM_SYSCALLS_def word_le_nat_alt)
  then have "unat num = 0 \<or> unat num = 1 \<or> unat num = 2 \<or> unat num = 3 \<or> unat num = 4 \<or> unat num = 5 \<or> unat num = 6 \<or>
    unat num = 7 \<or> unat num = 8 \<or> unat num = 9 \<or> unat num = 10 \<or> unat num = 11 \<or> unat num = 12 \<or> unat num = 13"
    by presburger
  moreover have "sysHandler num E fr p S = (syscall_table ! unat num) E fr p S" using False by (simp add: sysHandler_def)
  ultimately show ?thesis
    using simple_calls_ok [OF assms] sys_exit_ok [OF assms] sys_execl_ok [OF assms] sys_open_ok [OF assms] sys_read_ok [OF assms]
    by (auto simp: syscall_table_def)
qed (use assms in \<open>simp add: sysHandler_def\<close>)

theorem sysHandler_well_formed_witness: "outcome_ok boot_sys (sysHandler 12 boot_env read_frame boot_proc boot_sys)"
  by (rule sysHandler_well_formed) (rule boot_ok)

text \<open>
  C39. \<open>check_range\<close> accepts exactly the ranges that begin in the user half, end below the last byte of the address space and
  meet neither page of the interrupt controllers; then every byte of the range is the process's own, and its length as an
  \<open>int\<close> is not negative.
\<close>

theorem check_range_exact:
  assumes "unat (localAPIC c) mod 4096 = 0" "unat (localAPIC c) + 4096 < 2 ^ 32"
    and "unat (ioAPIC c) mod 4096 = 0" "unat (ioAPIC c) + 4096 < 2 ^ 32"
  shows "(check_range c start n \<longleftrightarrow>
      2 ^ 31 \<le> unat start \<and> unat start + unat n < 2 ^ 32 \<and>
      (unat start + unat n \<le> unat (localAPIC c) \<or> unat (localAPIC c) + 4096 \<le> unat start) \<and>
      (unat start + unat n \<le> unat (ioAPIC c) \<or> unat (ioAPIC c) + 4096 \<le> unat start)) \<and>
    (check_range c start n \<longrightarrow> (\<forall>i < unat n. user_address c (start + of_nat i)) \<and> sint n = int (unat n))"
proof -
  have l: "unat (localAPIC c + 4096) = unat (localAPIC c) + 4096" "unat (ioAPIC c + 4096) = unat (ioAPIC c) + 4096"
    using assms by (simp_all add: unat_plus_if')
  have s: "start \<le> start + n \<longleftrightarrow> unat start + unat n < 2 ^ 32"
    using unat_u32 [of start] unat_u32 [of n] by (auto simp: word_le_nat_alt unat_plus_if')
  have eq: "check_range c start n \<longleftrightarrow>
      2 ^ 31 \<le> unat start \<and> unat start + unat n < 2 ^ 32 \<and>
      (unat start + unat n \<le> unat (localAPIC c) \<or> unat (localAPIC c) + 4096 \<le> unat start) \<and>
      (unat start + unat n \<le> unat (ioAPIC c) \<or> unat (ioAPIC c) + 4096 \<le> unat start)"
  proof (cases "unat start + unat n < 2 ^ 32")
    case True
    then have "unat (start + n) = unat start + unat n" by (simp add: unat_plus_if')
    then show ?thesis using True s l by (simp add: check_range_def Let_def word_le_nat_alt)
  next
    case False
    then show ?thesis using s by (simp add: check_range_def Let_def)
  qed
  have own: "user_address c (start + of_nat i)" if "check_range c start n" "i < unat n" for i
  proof -
    have u: "unat (start + of_nat i) = unat start + i" using that eq by (intro unat_offset) simp
    then have "drop_bit 12 (start + of_nat i) \<noteq> drop_bit 12 (localAPIC c)" "drop_bit 12 (start + of_nat i) \<noteq> drop_bit 12 (ioAPIC c)"
      using unat_page [of "start + of_nat i" "localAPIC c"] unat_page [of "start + of_nat i" "ioAPIC c"] assms that eq by auto
    then show ?thesis using u that eq by (simp add: user_address_def word_le_nat_alt)
  qed
  have "sint n = int (unat n)" if "check_range c start n"
  proof -
    have "unat n < 2 ^ 31" using that eq by simp
    then have u: "uint n < 2 ^ 31" unfolding uint_nat by (metis of_nat_less_iff of_nat_numeral of_nat_power)
    have "- (2 ^ 31) \<le> uint n" by (rule order.trans [of _ 0]) simp_all
    then have "sint n = uint n" using u by (simp add: sint_uint signed_take_bit_int_eq_self_iff)
    then show ?thesis unfolding uint_nat .
  qed
  then show ?thesis using eq own by blast
qed

theorem check_range_exact_witness:
  "check_range boot_conf 0x80001000 4096 \<and> \<not> check_range boot_conf 0xfebff000 4097 \<and> user_address boot_conf 0x80001fff"
proof -
  have c: "unat (localAPIC boot_conf) = 0xfee00000" "unat (ioAPIC boot_conf) = 0xfec00000" by (simp_all add: boot_conf_def)
  note range = check_range_exact [of boot_conf, unfolded c, simplified]
  have "check_range boot_conf 0x80001000 4096" using range [of "0x80001000" 4096] by simp
  moreover have "\<not> check_range boot_conf 0xfebff000 4097" using range [of "0xfebff000" 4097] by simp
  moreover have "user_address boot_conf (0x80001000 + of_nat 4095)"
    using range [of "0x80001000" 4096] by (simp del: of_nat_numeral)
  ultimately show ?thesis by simp
qed

text \<open>
  The descriptor tables of the three kinds: as long as a table has a free place, a new object gets the descriptor of an empty one,
  which then refers to it and is not negative, and no other descriptor changes; when the table is full, -1 is returned, nothing changes,
  and no object is made.
\<close>

theorem descriptors_are_separate:
  assumes "(ty, n) \<in> {(TYPE_FD, FDT_SIZE), (TYPE_PD, PDT_SIZE), (TYPE_SD, SDT_SIZE)}" "length tbl = unat n"
  shows "set_desc ty n (\<lambda>S. Inr (r, f S)) tbl S =
    (case put_ref ty n tbl r of
       None \<Rightarrow> Inr ((- 1, tbl), S)
     | Some (v, tbl') \<Rightarrow> Inr ((v, tbl'), f S)) \<and>
    (\<forall>v tbl'. put_ref ty n tbl r = Some (v, tbl') \<longrightarrow> 0 \<le> v \<and> get_desc ty n tbl (word_of_int v) = 0 \<and>
       (\<forall>e. get_desc ty n tbl' e = (if e = word_of_int v then r else get_desc ty n tbl e))) \<and>
    (put_ref ty n tbl r = None \<longleftrightarrow> (\<forall>i < unat n. tbl ! i \<noteq> 0))"
proof -
  have kind: "descriptor_kind ty n"
    using assms(1) fd.descriptor_kind_axioms pd.descriptor_kind_axioms sd.descriptor_kind_axioms by auto
  then have "descriptor_table (\<lambda>tbl. length tbl = unat n) (get_desc ty n) (put_ref ty n) (clear_ref ty n)"
    by (rule descriptor_kind.is_table)
  note table = descriptor_table.put_get [OF this assms(2)] descriptor_table.put_empty [OF this assms(2)]
  have pos: "0 \<le> v" if put: "put_ref ty n tbl r = Some (v, tbl')" for v tbl'
  proof -
    obtain i where i: "set_desc_from 0 (unat n) tbl = Some i" "v = sint (of_nat i OR ty)"
      using put by (auto simp: put_ref_def split: option.splits)
    have "(of_nat i OR ty) AND TYPE_MASK = ty"
      using set_desc_from_Some [OF i(1)] by (intro descriptor_kind.descriptor_parts [OF kind]) simp
    moreover have "\<not> bit ty 31" using assms(1) by (auto simp: TYPE_FD_def TYPE_PD_def TYPE_SD_def bit_numeral_rec)
    moreover have "bit TYPE_MASK 31" by (simp add: TYPE_MASK_def bit_numeral_rec)
    ultimately have "\<not> bit (of_nat i OR ty) 31" by (metis bit_and_iff)
    then show ?thesis by (simp add: i(2) sint_uint signed_take_bit_nonnegative_iff bit_uint_iff)
  qed
  have full: "put_ref ty n tbl r = None \<longleftrightarrow> (\<forall>i < unat n. tbl ! i \<noteq> 0)"
    using set_desc_from_None [of 0 "unat n" tbl] by (auto simp: put_ref_def split: option.splits)
  have "set_desc ty n (\<lambda>S. Inr (r, f S)) tbl S =
    (case put_ref ty n tbl r of None \<Rightarrow> Inr ((- 1, tbl), S) | Some (v, tbl') \<Rightarrow> Inr ((v, tbl'), f S))"
    by (simp add: set_desc_def put_ref_def split: option.splits)
  then show ?thesis using full pos table by blast
qed

theorem descriptors_are_separate_witness:
  "get_desc TYPE_PD PDT_SIZE [7, 0, 0, 0, 0, 0, 0, 0, 0, 0] (word_of_int 0x10000001) = 0 \<and> get_desc TYPE_PD PDT_SIZE [7, 9, 0, 0, 0, 0, 0, 0, 0, 0] 0x10000000 = 7"
proof -
  have "length [7, 0, 0, 0, 0, 0, 0, 0, 0, 0 :: ref] = unat PDT_SIZE" by (simp add: PDT_SIZE_def)
  moreover have "put_ref TYPE_PD PDT_SIZE [7, 0, 0, 0, 0, 0, 0, 0, 0, 0] 9 = Some (0x10000001, [7, 9, 0, 0, 0, 0, 0, 0, 0, 0])"
  proof -
    have ten: "(10 :: nat) = Suc (Suc 8)" by simp
    have "set_desc_from 0 10 [7, 0, 0, 0, 0, 0, 0, 0, 0, 0] = Some 1"
      unfolding ten set_desc_from.simps by simp
    then show ?thesis by (simp add: put_ref_def PDT_SIZE_def TYPE_PD_def)
  qed
  ultimately show ?thesis
    using descriptors_are_separate [of TYPE_PD PDT_SIZE "[7, 0, 0, 0, 0, 0, 0, 0, 0, 0]" 9 id]
    by (simp add: get_desc_def TYPE_PD_def PDT_SIZE_def TYPE_MASK_def NUM_MASK_def)
qed

text \<open>
  C22. \<open>fork\<close>, \<open>exit\<close> and \<open>wait\<close>: with a free place in its table, a process that forks gets a descriptor, and there is one new thread,
  whose process has the same memory, files, semaphores and directory, and no children; it starts where the parent does. \<open>wait\<close> on the
  descriptor blocks until the child has called \<open>exit\<close>; then it returns 0, the word it is pointed to, wherever that is, holds the argument of
  \<open>exit\<close>, and the descriptor is free again.
\<close>

theorem fork_exit_wait:
  assumes "system_ok p S" "0 \<in> set (pdt p)"
  shows "\<exists>v p' S' child.
    sys_fork E fr p S = Inr (Return v p' S') \<and> get_pd p (word_of_int v) = 0 \<and>
    ready S' = ready S @ [(child, pc fr, esp fr)] \<and> space child = space p \<and> fdt child = fdt p \<and> sdt child = sdt p \<and>
    cd child = cd p \<and> pdt child = replicate 10 0 \<and>
    (\<forall>fr2 fr3. getarg 0 fr3 p' = word_of_int v \<longrightarrow>
       sys_wait E fr3 p' S' = Inr Blocked \<and>
       (\<exists>S2 p2. sys_exit E fr2 child S' = Inr (Stopped S2) \<and> sys_wait E fr3 p' S2 = Inr (Return 0 p2 S2) \<and>
          get_word (getarg 1 fr3 p') (space p2) = getarg 0 fr2 child \<and> get_pd p2 (word_of_int v) = 0))"
proof -
  have len: "length (pdt p) = unat PDT_SIZE" using assms(1) by (simp add: system_ok_def proc_ok_def)
  have "set_desc_from 0 (unat PDT_SIZE) (pdt p) \<noteq> None"
    using assms(2) len unfolding set_desc_from_None by (auto simp: in_set_conv_nth)
  then obtain i where i: "set_desc_from 0 (unat PDT_SIZE) (pdt p) = Some i" by blast
  then have i': "i < unat PDT_SIZE" "pdt p ! i = 0" using set_desc_from_Some [OF i] by simp_all
  define v where "v = sint (of_nat i OR TYPE_PD)"
  define p' where "p' = p\<lparr>pdt := (pdt p)[i := length (pds S)]\<rparr>"
  define S' where "S' = S\<lparr>futures := futures S @ [None], ready := ready S @ [(child_of p S, pc fr, esp fr)],
     pds := pds S @ [ProcessPD (length (futures S))]\<rparr>"
  define S2 where "S2 st = set_future (length (futures S)) st S'" for st
  have fork: "sys_fork E fr p S = Inr (Return v p' S')"
    by (simp add: sys_fork_def returned_def set_pd_def set_desc_def i spawn_eq v_def p'_def S'_def)
  note parts = pd.descriptor_parts [OF i'(1)]
  have w: "word_of_int v = of_nat i OR TYPE_PD" by (simp add: v_def)
  have small: "\<not> PDT_SIZE \<le> of_nat i" using i'(1) parts(3) by (simp add: word_le_nat_alt)
  have entry: "pdt p' ! i = length (pds S)" using i'(1) len by (simp add: p'_def)
  have obj: "pds S' ! length (pds S) = ProcessPD (length (futures S))" "pds (S2 st) = pds S'" for st
    by (simp_all add: S'_def S2_def set_future_def)
  have val: "futures S' ! length (futures S) = None" "futures (S2 st) ! length (futures S) = Some st" for st
    by (simp_all add: S'_def S2_def set_future_def)
  have blocked: "sys_wait E fr3 p' S' = Inr Blocked" if "getarg 0 fr3 p' = word_of_int v" for fr3
    using that parts small entry obj val by (simp add: sys_wait_def proc_wait_def Let_def w pd_wait_def)
  have exits: "sys_exit E fr2 (child_of p S) S' = Inr (Stopped (S2 (sint (getarg 0 fr2 (child_of p S)))))" for fr2
    by (simp add: sys_exit_def exit_process_def S2_def child_of_def)
  define p2 where "p2 a st = p'\<lparr>space := put_word a (word_of_int st) (space p'), pdt := (pdt p')[i := 0]\<rparr>" for a st
  have reaped: "sys_wait E fr3 p' (S2 st) = Inr (Return 0 (p2 (getarg 1 fr3 p') st) (S2 st))"
    if "getarg 0 fr3 p' = word_of_int v" for fr3 st
    using that parts small entry obj val by (simp add: sys_wait_def proc_wait_def Let_def w pd_wait_def p2_def)
  have free: "get_pd (p2 a st) (word_of_int v) = 0" "get_pd p (word_of_int v) = 0" for a st
    using parts small i' len by (simp_all add: get_pd_def get_desc_def Let_def w p2_def p'_def)
  have word: "get_word a (space (p2 a (sint x))) = x" for a x by (simp add: p2_def)
  have "ready S' = ready S @ [(child_of p S, pc fr, esp fr)]" by (simp add: S'_def)
  moreover have "space (child_of p S) = space p" "fdt (child_of p S) = fdt p" "sdt (child_of p S) = sdt p"
    "cd (child_of p S) = cd p" "pdt (child_of p S) = replicate 10 0"
    by (simp_all add: child_of_def empty_table_def PDT_SIZE_def)
  ultimately show ?thesis using fork free blocked exits reaped word by blast
qed

theorem fork_exit_wait_witness:
  "\<exists>v p' S' child. sys_fork boot_env read_frame boot_proc boot_sys = Inr (Return v p' S') \<and>
    ready S' = [(child, 0x80000010, 0x80003000)] \<and> space child = boot_mem"
proof -
  have "0 \<in> set (pdt boot_proc)" by (simp add: boot_proc_def)
  from fork_exit_wait [OF boot_ok this, of boot_env read_frame] show ?thesis
    by (auto simp: boot_sys_def boot_proc_def read_frame_def)
qed

text \<open>
  \<open>read\<close> on a file descriptor whose position is within the file: if the buffer is in order, the call returns the number of bytes that are
  left, at most as many as asked for; the buffer then holds these bytes of the file, nothing else in memory changes, and the position
  moves on by that number, so that the next call continues there.
\<close>

theorem read_continues:
  assumes "block_device (node_device (fs_block_size (filesys E)) (dev E) (fresh_block E) nd) ok content" "ok (nd, disk S)"
    and "fds S ! get_fd p (getarg 0 fr p) = FileFD nd off" "off \<le> nsize nd"
    and "check_range (conf E) (getarg 1 fr p) (getarg 2 fr p)"
  defines "k \<equiv> min (unat (getarg 2 fr p)) (unat (nsize nd) - unat off)"
  shows "\<exists>nd' d'. sys_read E fr p S =
    Inr (Return (int k) (p\<lparr>space := put_bytes (getarg 1 fr p) (bytes content (unat off) k) (space p)\<rparr>)
      (S\<lparr>disk := d', fds := (fds S)[get_fd p (getarg 0 fr p) := FileFD nd' (off + of_nat k)]\<rparr>)) \<and> ok (nd', d')"
proof -
  have sz: "size_in_bytes (node_device (fs_block_size (filesys E)) (dev E) (fresh_block E) nd) = nsize nd" by (simp add: node_device_def)
  obtain s' where r: "read_all (node_device (fs_block_size (filesys E)) (dev E) (fresh_block E) nd) off (getarg 2 fr p) (nd, disk S) =
      Inr ((int k, bytes content (unat off) k), s')" "ok s'"
    using block_device.read_all_spec [OF assms(1,2), of off "getarg 2 fr p"] assms(4) unfolding sz k_def by blast
  obtain nd' d' where s: "s' = (nd', d')" by (cases s')
  have "\<not> nsize nd < off" using assms(4) by simp
  then show ?thesis using r s assms(3,5) by (auto simp: sys_read_def fd_read_def)
qed

lemma boot_args: "getarg 0 read_frame boot_proc = 3" "getarg 1 read_frame boot_proc = 0x80004000" "getarg 2 read_frame boot_proc = 4"
  by (simp_all add: getarg_def read_frame_def boot_proc_def boot_mem_def get_word_other apart_def)

theorem read_continues_witness:
  "\<exists>p' S'. sys_read boot_env read_frame boot_proc boot_sys = Inr (Return 4 p' S') \<and>
    get_bytes 0x80004000 4 (space p') = [1, 2, 3, 4] \<and> (\<exists>nd'. fds S' ! 4 = FileFD nd' 88)"
proof -
  have dev: "block_device (node_device (fs_block_size (filesys boot_env)) (dev boot_env) (fresh_block boot_env) boot_file)
    (node_ok (\<lambda>_. True) boot_content 1024 small_data 94) (file_content boot_content 1024 small_data)"
    using boot.contents.block_device_axioms by (simp add: boot_env_def boot_node_device)
  have fd: "get_fd boot_proc (getarg 0 read_frame boot_proc) = 4"
    unfolding boot_args by (simp add: get_fd_def get_desc_def boot_proc_def TYPE_MASK_def TYPE_FD_def NUM_MASK_def FDT_SIZE_def)
  have range: "check_range (conf boot_env) (getarg 1 read_frame boot_proc) (getarg 2 read_frame boot_proc)"
    unfolding boot_args by (simp add: check_range_def boot_env_def boot_conf_def)
  have bytes: "bytes (file_content boot_content 1024 small_data) 84 4 = [1, 2, 3, 4]"
    using boot_bytes [of 84 4] tiny_bytes_at [of 84 4] by (simp add: tiny_bytes_def)
  have obj: "fds boot_sys ! get_fd boot_proc (getarg 0 read_frame boot_proc) = FileFD boot_file 84" "nsize boot_file = 94"
    "disk boot_sys = ()"
    by (simp_all add: fd boot_sys_def boot_file_def)
  have le: "84 \<le> nsize boot_file" by (simp add: boot_file_def)
  have ok: "node_ok (\<lambda>_. True) boot_content 1024 small_data 94 (boot_file, disk boot_sys)"
    using boot_node_ok by (simp add: obj(3))
  obtain nd' d' where r: "sys_read boot_env read_frame boot_proc boot_sys =
      Inr (Return 4 (boot_proc\<lparr>space := put_bytes 0x80004000 [1, 2, 3, 4] (space boot_proc)\<rparr>)
        (boot_sys\<lparr>disk := d', fds := (fds boot_sys)[4 := FileFD nd' 88]\<rparr>))"
    using read_continues [OF dev ok obj(1) le range] unfolding boot_args by (auto simp: fd [unfolded boot_args] obj(2) bytes)
  have "length (fds boot_sys) = 5" by (simp add: boot_sys_def)
  then show ?thesis using r by (simp add: get_put_bytes)
qed

text \<open>
  C21. \<open>exec\<close> passes its arguments on: if the vector of the caller holds the strings \<open>strs\<close>, the executable can be loaded and the arguments fit
  below \<open>user_stack\<close>, the new program starts at the entry point with a stack pointer that is a multiple of 16, on which there are
  the number of arguments and the address of a vector that holds the same strings; the arguments lie below \<open>user_stack\<close>, and the rest of the
  image that was loaded is left alone. The private memory of the old program is gone before, and with it the strings the caller had.
\<close>

theorem exec_passes_arguments:
  fixes strs :: "u8 list list" and p :: process and S :: "'d system" and E :: "'d env"
  assumes vec: "vector_at (space p) argv strs" "within (limit E) strs"
    and head: "read_header (node_device (fs_block_size (filesys E)) (dev E) (fresh_block E) nd) (nd, disk S) = Inr (Some eh, (nd1, d1))"
    and body: "elf_load (node_device (fs_block_size (filesys E)) (dev E) (fresh_block E) nd) eh
      (space (proc_reset (user_address (conf E)) p), (nd1, d1)) = Inr (ent, m, (nd2, d2))"
    and fits: "args_size strs + 8 \<le> unat (user_stack (conf E))"
  shows "\<exists>sp p'. sys_exec E nd argv p S = Inr (UserMode ent sp p' (S\<lparr>disk := d2\<rparr>)) \<and> unat sp mod 16 = 0 \<and>
    get_word sp (space p') = of_nat (length strs) \<and> get_word (sp + 4) (space p') = sp + 8 \<and>
    vector_at (space p') (sp + 8) strs \<and> unat sp + 8 + args_size strs \<le> unat (user_stack (conf E)) \<and>
    (\<forall>a n. apart a n sp (args_size strs + 8) \<longrightarrow> get_bytes a n (space p') = get_bytes a n m) \<and>
    fdt p' = fdt p \<and> pdt p' = pdt p \<and> sdt p' = replicate 10 0"
  using sys_exec_arguments [OF assms] .

theorem exec_passes_arguments_witness:
  "\<exists>sp p' S'. sys_exec boot_env boot_file 0x80001000 boot_proc boot_sys = Inr (UserMode 0x80000000 sp p' S') \<and>
    get_word sp (space p') = 1 \<and> vector_at (space p') (sp + 8) [[0x68, 0x69]]"
proof -
  let ?F = "node_device (fs_block_size (filesys boot_env)) (dev boot_env) (fresh_block boot_env) boot_file"
  let ?c = "file_content boot_content 1024 small_data"
  have dev: "block_device ?F (node_ok (\<lambda>_. True) boot_content 1024 small_data 94) ?c"
    using boot.contents.block_device_axioms by (simp add: boot_env_def boot_node_device)
  have size: "size_in_bytes ?F = 94" by (simp add: node_device_def boot_file_def)
  have ok: "node_ok (\<lambda>_. True) boot_content 1024 small_data 94 (boot_file, disk boot_sys)"
    using boot_node_ok by (simp add: boot_sys_def)
  have header: "header_of (bytes ?c 0 52) = tiny_header" using boot_bytes [of 0 52] tiny_header_of by simp
  have valid: "header_valid tiny_header" by (simp add: header_valid_def tiny_header_def MAGIC_def le32_def)
  obtain nd1 d1 where head: "read_header ?F (boot_file, disk boot_sys) = Inr (Some tiny_header, (nd1, d1))"
      "node_ok (\<lambda>_. True) boot_content 1024 small_data 94 (nd1, d1)"
    using block_device.read_header_spec [OF dev ok] header valid size by auto
  have wf: "well_formed ?c (size_in_bytes ?F) tiny_header"
  proof -
    have one: "unat (phentnum tiny_header) = 1" "size_in_bytes tiny_device = 94"
      by (simp_all add: tiny_header_def tiny_device_def ram_device_def)
    show ?thesis using tiny_well_formed unfolding well_formed_def size one by (simp add: boot_header tiny_segment_of)
  qed
  obtain m nd2 d2 where body: "elf_load ?F tiny_header (space (proc_reset (user_address (conf boot_env)) boot_proc), (nd1, d1)) =
      Inr (0x80000000, m, (nd2, d2))"
    using block_device.elf_load_spec [OF dev head(2) wf] by (fastforce simp: tiny_header_def)
  have vec: "vector_at (space boot_proc) 0x80001000 [[0x68, 0x69]]"
    by (simp add: vector_at_def string_at_def get_word_zero boot_proc_def boot_mem_def get_word_other get_bytes_other_word get_put_bytes apart_def)
  have "within (limit boot_env) [[0x68, 0x69]]" "args_size [[0x68, 0x69]] + 8 \<le> unat (user_stack (conf boot_env))"
    by (simp_all add: within_def boot_env_def args_size_def user_stack_def boot_conf_def)
  from exec_passes_arguments [OF vec this(1) head(1) body this(2)] show ?thesis by auto
qed

end
