(* ===== verification/Kernel_Claims.thy ===== *)
theory Kernel_Claims
  imports Kernel Ext2_Open Sys_Claims
begin

text \<open>From the disk to user mode: the drive, the file system, the executable and the arguments of the first program together.\<close>

section \<open>The parts\<close>

lemma resolves_inode: "resolves cap content fs root k dir path nd \<Longrightarrow> \<exists>ino. nd = inode_at content fs ino"
  by (induction rule: resolves.induct) (auto dest: leads_names)

text \<open>A disk from which the kernel can start: \<open>nd\<close> is the file \<open>/sbin/init\<close>, \<open>eh\<close> its header.\<close>

definition bootable :: "nat \<Rightarrow> (nat \<Rightarrow> u8) \<Rightarrow> node \<Rightarrow> elf_header \<Rightarrow> bool" where
  "bootable cap content nd eh \<longleftrightarrow> super_ok cap content \<and>
     (let fs = super_at content; bs = fs_block_size fs; root = inode_at content fs 2; img = file_content content (unat bs) (data nd) in
      is_dir root \<and> resolves cap content fs root MAX_DEPTH root initName nd \<and> file_inside cap content bs (data nd) (nsize nd) \<and>
      52 \<le> nsize nd \<and> eh = header_of (bytes img 0 52) \<and> header_valid eh \<and> well_formed img (nsize nd) eh)"

definition image_of :: "(nat \<Rightarrow> u8) \<Rightarrow> node \<Rightarrow> nat \<Rightarrow> u8" where
  "image_of content nd = file_content content (unat (fs_block_size (super_at content))) (data nd)"

text \<open>A program in memory: the loadable segments of the file that no later one overlaps and that stay away from the stack.\<close>

definition program_in :: "(nat \<Rightarrow> u8) \<Rightarrow> elf_header \<Rightarrow> u32 \<Rightarrow> nat \<Rightarrow> memory \<Rightarrow> bool" where
  "program_in img eh sp n m \<longleftrightarrow> (\<forall>k < unat (phentnum eh). let ph = nth_header img eh k in
     ptype ph = PT_LOAD \<longrightarrow> (\<forall>i. k < i \<and> i < unat (phentnum eh) \<longrightarrow> clear_of (nth_header img eh i) (vaddr ph) (unat (memsize ph))) \<longrightarrow>
     apart (vaddr ph) (unat (memsize ph)) sp n \<longrightarrow> get_bytes (vaddr ph) (unat (memsize ph)) m = segment_bytes img ph)"

lemma kernelMain_opens:
  assumes D: "block_store (ide_device B 1 fuel) (\<lambda>s. ok (hw s)) content cap" "ok h" and fresh: "\<And>n. length (fresh n) = n"
    and boot: "bootable cap content nd eh"
  shows "\<exists>E p S. kernelMain c B fuel fresh new lim m h = Inr (E, Some nd, p, S) \<and> conf E = c \<and> filesys E = super_at content \<and>
    dev E = ide_device B 1 fuel \<and> fresh_block E = fresh \<and> limit E = lim \<and> space p = m \<and> ok (hw (disk S)) \<and>
    map ((!) (fds S)) (take 3 (fdt p)) = [StdIn, StdOut, StdErr] \<and> cd p = inode_at content (super_at content) 2"
proof -
  let ?D = "ide_device B 1 fuel" and ?fs = "super_at content" and ?d = "\<lparr>hw = h, nRead = 0\<rparr>"
  let ?root = "inode_at content ?fs 2"
  have b: "super_ok cap content" "is_dir ?root" "resolves cap content ?fs ?root MAX_DEPTH ?root initName nd"
    using boot by (simp_all add: bootable_def Let_def)
  have size: "block_size ?D = 512" by (simp add: ide_device_def sector_size_def)
  have E: "ext2_disk ?D (\<lambda>s. ok (hw s)) content cap fresh" using D(1) fresh by (simp add: ext2_disk_def ext2_disk_axioms_def)
  obtain d1 where 1: "ext2_mount ?D fresh ?d = Inr ((?fs, ?root), d1)" "ok (hw d1)"
    using mount_reads [OF D(1) _ size fresh b(1), of ?d] D(2) by auto
  have "stands (\<lambda>s. ok (hw s)) content (fs_block_size ?fs) ?root (?root, d1)" by (rule stands_inode [where ok = "\<lambda>s. ok (hw s)", OF 1(2)])
  from ext2_disk.open_path_spec [OF E refl b(3) this] obtain d2 where
    2: "open_file ?fs ?root ?D fresh ?root initName d1 = Inr (Some nd, d2)" "ok (hw d2)"
    using b(2) by (auto simp: open_file_def)
  show ?thesis
    using 1(1) 2 by (simp add: kernelMain_def Let_def new_process_def new_future_def new_fd_def empty_system_def empty_table_def
      FDT_SIZE_def eval_nat_numeral)
qed

text \<open>\<open>exec\<close> of a file whose contents are those of the disk.\<close>

lemma exec_file:
  assumes D: "block_store (dev E) ok content cap" "ok (disk S)" and fresh: "\<And>n. length (fresh_block E n) = n"
    and nd: "nd = inode_at content (filesys E) ino" "file_inside cap content (fs_block_size (filesys E)) (data nd) (nsize nd)"
    and img: "img = file_content content (unat (fs_block_size (filesys E))) (data nd)"
    and eh: "52 \<le> nsize nd" "eh = header_of (bytes img 0 52)" "header_valid eh" "well_formed img (nsize nd) eh"
    and vec: "vector_at (space p) argv strs" "within (limit E) strs"
    and fits: "args_size strs + 8 \<le> unat (user_stack (conf E))"
  shows "\<exists>sp p' d. sys_exec E nd argv p S = Inr (UserMode (entry eh) sp p' (S\<lparr>disk := d\<rparr>)) \<and> unat sp mod 16 = 0 \<and>
    get_word sp (space p') = of_nat (length strs) \<and> get_word (sp + 4) (space p') = sp + 8 \<and> vector_at (space p') (sp + 8) strs \<and>
    program_in img eh sp (args_size strs + 8) (space p') \<and> fdt p' = fdt p"
proof -
  let ?bs = "fs_block_size (filesys E)"
  let ?F = "node_device ?bs (dev E) (fresh_block E) nd" and ?ok = "node_ok ok content ?bs (data nd) (nsize nd)"
  have F: "block_device ?F ?ok img"
    unfolding node_device_file img using ext2_file.contents_device [of "dev E" ok content cap ?bs "data nd" "nsize nd" "fresh_block E"]
      D(1) nd(2) fresh by (simp add: ext2_file_def ext2_file_axioms_def)
  have s: "?ok (nd, disk S)" using stands_inode [of ok "disk S" content ?bs "filesys E" ino] D(2) by (simp add: stands_def nd(1))
  have z: "size_in_bytes ?F = nsize nd" by (simp add: node_device_def)
  obtain nd1 d1 where head: "read_header ?F (nd, disk S) = Inr (Some eh, (nd1, d1))" "?ok (nd1, d1)"
    using block_device.read_header_spec [OF F s] eh(1-3) z by auto
  obtain m nd2 d2 where body: "elf_load ?F eh (space (proc_reset (user_address (conf E)) p), (nd1, d1)) = Inr (entry eh, m, (nd2, d2))"
      "\<forall>k < unat (phentnum eh). ptype (nth_header img eh k) = PT_LOAD \<longrightarrow>
        (\<forall>i. k < i \<and> i < unat (phentnum eh) \<longrightarrow>
           clear_of (nth_header img eh i) (vaddr (nth_header img eh k)) (unat (memsize (nth_header img eh k)))) \<longrightarrow>
        get_bytes (vaddr (nth_header img eh k)) (unat (memsize (nth_header img eh k))) m = segment_bytes img (nth_header img eh k)"
    using block_device.elf_image [OF F head(2), of eh "space (proc_reset (user_address (conf E)) p)"] eh(4) unfolding z by fastforce
  obtain sp p' where ex: "sys_exec E nd argv p S = Inr (UserMode (entry eh) sp p' (S\<lparr>disk := d2\<rparr>))" "unat sp mod 16 = 0"
    "get_word sp (space p') = of_nat (length strs)" "get_word (sp + 4) (space p') = sp + 8" "vector_at (space p') (sp + 8) strs"
    "\<forall>a n. apart a n sp (args_size strs + 8) \<longrightarrow> get_bytes a n (space p') = get_bytes a n m" "fdt p' = fdt p"
    using sys_exec_arguments [OF vec head(1) body(1) fits] by (elim exE conjE) (rule that)
  have "program_in img eh sp (args_size strs + 8) (space p')"
    unfolding program_in_def Let_def using body(2) ex(6) by simp
  then show ?thesis using ex by (intro exI [of _ sp] exI [of _ p'] exI [of _ d2]) simp
qed

lemma bootable_file:
  assumes "bootable cap content nd eh"
  obtains ino where "nd = inode_at content (super_at content) ino"
    "file_inside cap content (fs_block_size (super_at content)) (data nd) (nsize nd)" "52 \<le> nsize nd"
    "eh = header_of (bytes (image_of content nd) 0 52)" "header_valid eh" "well_formed (image_of content nd) (nsize nd) eh"
proof -
  note b = assms [unfolded bootable_def Let_def, folded image_of_def]
  obtain ino where "nd = inode_at content (super_at content) ino" using resolves_inode b by blast
  then show ?thesis using that b by blast
qed

section \<open>The claim\<close>

text \<open>
  C5. The kernel starts its first program from the disk. Let drive 1 keep the ATA protocol, be ready again within the fuel and, beyond the
  protocol, show DRDY and neither ERR nor DF while it is busy, as QEMU's drives do (\<open>ata_steady\<close>: the driver looks at these bits before it
  waits for BSY); and let its sectors hold a file system with an executable \<open>/sbin/init\<close>, found through the root directory and any
  symbolic links. Then \<open>kernelMain\<close> mounts the file system, opens the file and makes a process with standard input, output and
  errors; its thread, with \<open>"init"\<close> on the kernel stack, enters user
  mode at the entry point of the executable, with a stack pointer that is a multiple of 16, argument count 1 and the argument
  \<open>init\<close>; the segments of the file are in memory.
\<close>

theorem kernelMain_starts_init:
  assumes "ata_steady B 1 words sectors delay idle busy avail fuel" "idle h" "\<And>n. length (fresh n) = n"
    and "bootable (drive_bytes sectors) (disk_bytes words) nd eh"
    and "vector_at m argv [map of_char ''init'']" "4 < lim" "21 \<le> unat (user_stack c)"
  shows "\<exists>E p S sp p' S'. kernelMain c B fuel fresh new lim m h = Inr (E, Some nd, p, S) \<and>
    map ((!) (fds S)) (take 3 (fdt p)) = [StdIn, StdOut, StdErr] \<and>
    exec_init E (Some nd) argv p S = Inr (UserMode (entry eh) sp p' S') \<and> fdt p' = fdt p \<and> fds S' = fds S \<and> unat sp mod 16 = 0 \<and>
    get_word sp (space p') = 1 \<and> get_word (sp + 4) (space p') = sp + 8 \<and> vector_at (space p') (sp + 8) [map of_char ''init''] \<and>
    program_in (image_of (disk_bytes words) nd) eh sp 21 (space p')"
proof -
  let ?D = "ide_device B 1 fuel" and ?ok = "\<lambda>s. idle (hw s)" and ?c = "disk_bytes words" and ?init = "map of_char ''init'' :: u8 list"
  let ?cap = "drive_bytes sectors"
  have D: "block_store ?D ?ok ?c ?cap" by (rule ata_steady.drive_is_store [OF assms(1)])
  obtain E p S where k: "kernelMain c B fuel fresh new lim m h = Inr (E, Some nd, p, S)" "conf E = c" "filesys E = super_at ?c" "dev E = ?D"
    "fresh_block E = fresh" "limit E = lim" "space p = m" "idle (hw (disk S))" "map ((!) (fds S)) (take 3 (fdt p)) = [StdIn, StdOut, StdErr]"
    using kernelMain_opens [OF D assms(2-4), of c new lim m] by (elim exE conjE) (rule that)
  obtain ino where f: "nd = inode_at ?c (super_at ?c) ino" "file_inside ?cap ?c (fs_block_size (super_at ?c)) (data nd) (nsize nd)"
    "52 \<le> nsize nd" "eh = header_of (bytes (image_of ?c nd) 0 52)" "header_valid eh" "well_formed (image_of ?c nd) (nsize nd) eh"
    by (rule bootable_file [OF assms(4)])
  have args: "args_size [?init] = 13" "within (limit E) [?init]" using assms(6) k(6) by (simp_all add: args_size_def strings_size_def within_def)
  have "\<exists>sp p' d. sys_exec E nd argv p S = Inr (UserMode (entry eh) sp p' (S\<lparr>disk := d\<rparr>)) \<and> unat sp mod 16 = 0 \<and>
    get_word sp (space p') = of_nat (length [?init]) \<and> get_word (sp + 4) (space p') = sp + 8 \<and> vector_at (space p') (sp + 8) [?init] \<and>
    program_in (image_of ?c nd) eh sp (args_size [?init] + 8) (space p') \<and> fdt p' = fdt p"
  proof (rule exec_file [where ok = ?ok and content = ?c and cap = ?cap and ino = ino])
    show "block_store (dev E) ?ok ?c ?cap" unfolding k(4) by (rule D)
    show "length (fresh_block E n) = n" for n unfolding k(5) by (rule assms(3))
    show "nd = inode_at ?c (filesys E) ino" unfolding k(3) by (rule f(1))
    show "file_inside ?cap ?c (fs_block_size (filesys E)) (data nd) (nsize nd)" unfolding k(3) by (rule f(2))
    show "image_of ?c nd = file_content ?c (unat (fs_block_size (filesys E))) (data nd)" unfolding k(3) by (rule image_of_def)
    show "vector_at (space p) argv [?init]" unfolding k(7) by (rule assms(5))
    show "args_size [?init] + 8 \<le> unat (user_stack (conf E))" unfolding k(2) args(1) using assms(7) by simp
  qed (fact k(8) f(3) f(4) f(5) f(6) args(2))+
  moreover have l: "of_nat (length [?init]) = (1 :: u32)" "args_size [?init] + 8 = 21" using args(1) by simp_all
  ultimately obtain sp p' d where ex: "sys_exec E nd argv p S = Inr (UserMode (entry eh) sp p' (S\<lparr>disk := d\<rparr>))" "unat sp mod 16 = 0"
    "get_word sp (space p') = 1" "get_word (sp + 4) (space p') = sp + 8" "vector_at (space p') (sp + 8) [?init]"
    "program_in (image_of ?c nd) eh sp 21 (space p')" "fdt p' = fdt p"
    unfolding l by (elim exE conjE) (rule that)
  have "exec_init E (Some nd) argv p S = Inr (UserMode (entry eh) sp p' (S\<lparr>disk := d\<rparr>))" using ex(1) by (simp add: exec_init_def)
  then show ?thesis
    using k(1,9) ex(2-7) by (intro exI [of _ E] exI [of _ p] exI [of _ S] exI [of _ sp] exI [of _ p'] exI [of _ "S\<lparr>disk := d\<rparr>"]) simp
qed

section \<open>A disk\<close>

text \<open>A file system with the directory \<open>/sbin\<close> and in it \<open>init\<close>, an executable of 94 bytes; every byte that is not listed is 0.\<close>

fun patched :: "(nat \<times> u8 list) list \<Rightarrow> nat \<Rightarrow> u8" where
  "patched [] n = 0"
| "patched ((a, bs) # ps) n = (if a \<le> n \<and> n < a + length bs then bs ! (n - a) else patched ps n)"

definition start_disk :: "nat \<Rightarrow> u8" where
  "start_disk = patched
    [(1024, [16, 0, 0, 0, 32]), (1056, [32]), (1064, [16]), (2056, [3]),
     (3200, [0, 0x40, 0, 0, 0, 4]), (3240, [5]), (3328, [0, 0x40, 0, 0, 0, 4]), (3368, [6]), (3456, [0, 0x80, 0, 0, 94]), (3496, [7]),
     (5120, [3, 0, 0, 0, 0, 4, 4, 0] @ map of_char ''sbin''), (6144, [4, 0, 0, 0, 0, 4, 4, 0] @ map of_char ''init''), (7168, tiny_bytes)]"

definition start_words :: "nat \<Rightarrow> u32" where
  "start_words k = le32 (bytes start_disk (4 * k) 4)"

lemma word_bytes_le32: "length bs = 4 \<Longrightarrow> word_bytes (le32 bs) = bs"
proof -
  assume "length bs = 4"
  then obtain a b c d where bs: "bs = [a, b, c, d]" by (auto simp: eval_nat_numeral length_Suc_conv)
  have "ucast (drop_bit 0 (le32 bs)) = a" "ucast (drop_bit 8 (le32 bs)) = b" "ucast (drop_bit 16 (le32 bs)) = c" "ucast (drop_bit 24 (le32 bs)) = d"
    unfolding bs le32_def nth_Cons_0 nth_Cons_Suc nth_Cons_numeral
    by (rule bit_word_eqI, auto simp: bit_simps dest: bit_imp_le_length)+
  then show ?thesis by (simp add: word_bytes_def bs upt_conv_Cons)
qed

lemma start_words_bytes: "disk_bytes start_words = start_disk"
proof
  fix n
  have "bytes (disk_bytes start_words) (4 * (n div 4)) 4 = bytes start_disk (4 * (n div 4)) 4"
    unfolding word_bytes_disk [symmetric] start_words_def by (simp add: word_bytes_le32)
  then have "bytes (disk_bytes start_words) (4 * (n div 4)) 4 ! (n mod 4) = bytes start_disk (4 * (n div 4)) 4 ! (n mod 4)" by simp
  then show "disk_bytes start_words n = start_disk n" by (simp add: bytes_nth)
qed

definition start_fs :: ext2 where
  "start_fs = \<lparr>inode_count = 16, block_count = 32, fs_block_size = 1024, block_count_per_group = 32, inode_count_per_group = 16,
     block_group_count = 1, group_table = [3]\<rparr>"

definition start_data :: "u32 \<Rightarrow> u32 list" where
  "start_data blk = [blk, 0, 0, 0, 0, 0, 0, 0, 0, 0, 0, 0, 0, 0, 0]"

definition start_inode :: "u32 \<Rightarrow> u16 \<Rightarrow> u32 \<Rightarrow> u32 \<Rightarrow> node" where
  "start_inode ino md sz blk = (new_node ino)\<lparr>mode := md, link_count := 0, nsize := sz, data := start_data blk\<rparr>"

lemmas patches = start_disk_def patched.simps le32_at_def bytes_def upt_conv_Cons le32_def le16_def

lemma start_super: "super_at start_disk = start_fs"
  by (simp add: super_at_def start_fs_def patches)

lemma start_inodes: "inode_at start_disk start_fs 2 = start_inode 2 0x4000 1024 5"
  "inode_at start_disk start_fs 3 = start_inode 3 0x4000 1024 6"
  "inode_at start_disk start_fs 4 = start_inode 4 0x8000 94 7"
  by (simp_all add: inode_at_def inode_offset_def start_fs_def start_inode_def start_data_def patches)

text \<open>Its two directories have a block each, with one entry that fills it.\<close>

lemma start_fields: "data (start_inode ino md sz blk) = start_data blk" "nsize (start_inode ino md sz blk) = sz" "mode (start_inode ino md sz blk) = md"
  by (simp_all add: start_inode_def)

lemma start_ptr: "k < 1 \<Longrightarrow> file_ptr start_disk 1024 (start_data blk) k = unat blk"
  by (simp add: file_ptr_def start_data_def)

lemma start_content: "n < 1024 \<Longrightarrow> file_content start_disk 1024 (start_data blk) n = start_disk (unat blk * 1024 + n)"
  by (simp add: file_content_def start_ptr)

lemma start_block:
  "length (dir_block start_disk 1024 (start_data blk) 0) = 1024"
  "n < 1024 \<Longrightarrow> dir_block start_disk 1024 (start_data blk) 0 ! n = start_disk (unat blk * 1024 + n)"
  by (simp_all add: dir_block_def bytes_nth start_content)

lemma start_inside: "sz \<le> 1024 \<Longrightarrow> blk < 64 \<Longrightarrow> file_inside (drive_bytes sim_sectors) start_disk 1024 (start_data blk) sz"
proof -
  assume a: "sz \<le> 1024" "blk < 64"
  have u: "unat sz \<le> 1024" "unat blk < 64" using a by (simp_all add: word_le_nat_alt word_less_nat_alt)
  have "file_ptr start_disk 1024 (start_data blk) k * 1024 + 1024 \<le> 65536" if "k * 1024 < unat sz" for k
  proof -
    have "k < 1" using that u(1) by simp
    then show ?thesis using u(2) by (simp add: start_ptr)
  qed
  then show ?thesis using u(1) by (fastforce simp: file_inside_def unat_div sim_bytes)
qed

lemma take_four: "n + 4 \<le> length xs \<Longrightarrow> take 4 (drop n xs) = [xs ! n, xs ! (n + 1), xs ! (n + 2), xs ! (n + 3)]"
  by (rule nth_equalityI) (auto simp: less_Suc_eq eval_nat_numeral)

lemma start_values:
  "start_disk 5120 = 3" "start_disk 5121 = 0" "start_disk 5122 = 0" "start_disk 5123 = 0" "start_disk 5124 = 0" "start_disk 5125 = 4"
  "start_disk 5126 = 4" "start_disk 5127 = 0" "start_disk 5128 = 115" "start_disk 5129 = 98" "start_disk 5130 = 105" "start_disk 5131 = 110"
  "start_disk 6144 = 4" "start_disk 6145 = 0" "start_disk 6146 = 0" "start_disk 6147 = 0" "start_disk 6148 = 0" "start_disk 6149 = 4"
  "start_disk 6150 = 4" "start_disk 6151 = 0" "start_disk 6152 = 105" "start_disk 6153 = 110" "start_disk 6154 = 105" "start_disk 6155 = 116"
  by (simp_all add: start_disk_def)

lemma start_entry:
  "entry_rec_len (dir_block start_disk 1024 (start_data 5) 0) 0 = 1024" "entry_name_len (dir_block start_disk 1024 (start_data 5) 0) 0 = 4"
  "entry_inode (dir_block start_disk 1024 (start_data 5) 0) 0 = 3" "entry_name (dir_block start_disk 1024 (start_data 5) 0) 0 = map of_char ''sbin''"
  "entry_rec_len (dir_block start_disk 1024 (start_data 6) 0) 0 = 1024" "entry_name_len (dir_block start_disk 1024 (start_data 6) 0) 0 = 4"
  "entry_inode (dir_block start_disk 1024 (start_data 6) 0) 0 = 4" "entry_name (dir_block start_disk 1024 (start_data 6) 0) 0 = map of_char ''init''"
  by (simp_all add: entry_rec_len_def entry_name_len_def entry_inode_def entry_name_def le16_def le32_def start_block take_four start_values)

lemma start_directory: "blk = 5 \<or> blk = 6 \<Longrightarrow> directory start_disk 1024 (start_data blk) 1 (\<lambda>_. [0])"
  using start_entry start_block(1) by (auto simp: directory_def names_ok_def slash_def)

lemma start_has_entry:
  "has_entry (drive_bytes sim_sectors) start_disk start_fs (start_inode 2 0x4000 1024 5) (map of_char ''sbin'') 3"
  "has_entry (drive_bytes sim_sectors) start_disk start_fs (start_inode 3 0x4000 1024 6) (map of_char ''init'') 4"
proof -
  have ino: "inode_inside (drive_bytes sim_sectors) start_fs i" if "i = 3 \<or> i = 4" for i
    using that by (auto simp: inode_inside_def inode_offset_def start_fs_def sim_bytes)
  have one: "inode_named start_disk 1024 (start_data 5) (\<lambda>_. [0]) 1 (map of_char ''sbin'') = Some 3"
    "inode_named start_disk 1024 (start_data 6) (\<lambda>_. [0]) 1 (map of_char ''init'') = Some 4"
    by (simp_all add: inode_named_def start_entry)
  have fs: "fs_block_size start_fs = 1024" by (simp add: start_fs_def)
  have dir: "is_dir (start_inode i 0x4000 sz blk)" for i sz blk by (simp add: is_dir_def get_type_def start_fields)
  show "has_entry (drive_bytes sim_sectors) start_disk start_fs (start_inode 2 0x4000 1024 5) (map of_char ''sbin'') 3"
    unfolding has_entry_def start_fields fs
    using ino [of 3] one(1) dir start_inside [of 1024 5] start_directory [of 5]
    by (intro conjI exI [of _ 1] exI [of _ "\<lambda>_. [0]"]) (simp_all add: slash_def)
  show "has_entry (drive_bytes sim_sectors) start_disk start_fs (start_inode 3 0x4000 1024 6) (map of_char ''init'') 4"
    unfolding has_entry_def start_fields fs
    using ino [of 4] one(2) dir start_inside [of 1024 6] start_directory [of 6]
    by (intro conjI exI [of _ 1] exI [of _ "\<lambda>_. [0]"]) (simp_all add: slash_def)
qed

lemma start_resolves:
  "resolves (drive_bytes sim_sectors) start_disk start_fs (start_inode 2 0x4000 1024 5) MAX_DEPTH (start_inode 2 0x4000 1024 5) initName
     (start_inode 4 0x8000 94 7)"
proof -
  note l = leads.here [OF start_has_entry(2), unfolded start_inodes]
  note l = leads.down [OF start_has_entry(1), unfolded start_inodes, OF l]
  have "starts (start_inode 2 0x4000 1024 5) (start_inode 2 0x4000 1024 5) initName =
      (start_inode 2 0x4000 1024 5, path_of [map of_char ''sbin'', map of_char ''init''])"
    by (simp add: starts_def initName_def slash_def)
  from resolves.plain [OF this l, of 9] show ?thesis
    by (simp add: is_symlink_def is_dir_def get_type_def start_fields MAX_DEPTH_def)
qed

lemma tiny_length: "length tiny_bytes = 94"
  by (simp add: tiny_bytes_def)

lemma start_bootable: "bootable (drive_bytes sim_sectors) start_disk (start_inode 4 0x8000 94 7) tiny_header"
proof -
  let ?D = "drive_bytes sim_sectors" and ?img = "file_content start_disk 1024 (start_data 7)"
  note size = sim_bytes
  have super: "super_ok ?D start_disk"
    using size by (simp add: super_ok_def start_super start_fs_def inode_inside_def inode_offset_def)
  have root: "is_dir (start_inode 2 0x4000 1024 5)" by (simp add: is_dir_def get_type_def start_fields)
  have img: "bytes ?img off n = bytes tiny_content off n" if "off + n \<le> 94" for off n
  proof (rule nth_equalityI)
    fix i assume "i < length (bytes ?img off n)"
    then have i: "off + i < 94" using that by simp
    then have "start_disk (7168 + (off + i)) = tiny_content (off + i)"
      by (simp add: start_disk_def tiny_content_def tiny_length)
    then show "bytes ?img off n ! i = bytes tiny_content off n ! i"
      using i that \<open>i < length (bytes ?img off n)\<close> start_content [of "off + i" 7] by (simp add: bytes_nth)
  qed simp
  have head: "tiny_header = header_of (bytes ?img 0 52)" using img [of 0 52] tiny_header_of by simp
  have valid: "header_valid tiny_header" by (simp add: header_valid_def tiny_header_def MAGIC_def le32_def)
  have off: "unat (header_offset tiny_header 0) = 52" by (simp add: header_offset_def tiny_header_def)
  have seg: "nth_header ?img tiny_header 0 = tiny_segment"
    using tiny_segment_of img [of 52 32] off by (simp add: nth_header_def)
  have "unat (phentnum tiny_header) = 1" "size_in_bytes tiny_device = 94"
    by (simp_all add: tiny_header_def tiny_device_def ram_device_def)
  then have "well_formed ?img 94 tiny_header" using tiny_well_formed seg unfolding well_formed_def by (simp add: tiny_segment_of)
  moreover have "file_inside ?D start_disk 1024 (start_data 7) 94" by (rule start_inside) simp_all
  ultimately show ?thesis
    using super root start_resolves head valid unfolding bootable_def start_super Let_def
    by (simp add: start_inodes start_fields) (simp add: start_fs_def)
qed

interpretation start: ext2_disk "ide_device (sim_bus start_words) 1 4" "\<lambda>s. sim_idle (hw s)" start_disk "drive_bytes sim_sectors" start_fs zeros
  using sim1.drive_is_store [of start_words] by (simp add: start_words_bytes ext2_disk_def ext2_disk_axioms_def zeros_def)

theorem open_resolves_witness:
  "\<exists>d'. open_file start_fs (start_inode 2 0x4000 1024 5) (ide_device (sim_bus start_words) 1 4) zeros (start_inode 2 0x4000 1024 5) initName small_state =
    Inr (Some (start_inode 4 0x8000 94 7), d')"
proof -
  have "is_dir (start_inode 2 0x4000 1024 5)" by (simp add: is_dir_def get_type_def start_fields)
  moreover have "stands (\<lambda>s. sim_idle (hw s)) start_disk (fs_block_size start_fs) (start_inode 2 0x4000 1024 5) (start_inode 2 0x4000 1024 5, small_state)"
    unfolding start_inodes(1) [symmetric] by (rule stands_inode) (rule small_idle)
  ultimately show ?thesis
    using open_resolves [OF start.block_store_axioms start.fresh_size start_inodes(1) [symmetric] start_resolves] by blast
qed

theorem kernelMain_starts_init_witness:
  "\<exists>E p S sp p' S'. kernelMain boot_conf (sim_bus start_words) 4 zeros (\<lambda>_. 0) 8
      (put_word 0x200000 0x300000 (put_bytes 0x300000 (map of_char ''init'' @ [0]) (\<lambda>_. 0))) sim_off = Inr (E, Some (start_inode 4 0x8000 94 7), p, S) \<and>
    exec_init E (Some (start_inode 4 0x8000 94 7)) 0x200000 p S = Inr (UserMode 0x80000000 sp p' S') \<and>
    get_word sp (space p') = 1 \<and> vector_at (space p') (sp + 8) [map of_char ''init'']"
proof -
  let ?m = "put_word 0x200000 0x300000 (put_bytes 0x300000 (map of_char ''init'' @ [0]) (\<lambda>_. 0))"
  have vec: "vector_at ?m 0x200000 [map of_char ''init'']"
    by (simp add: vector_at_def string_at_def get_word_zero get_word_other get_bytes_other_word get_put_bytes apart_def)
  have "sim_idle sim_off" by (simp add: sim_off_def sim_idle_def)
  from kernelMain_starts_init [OF sim1.ata_steady_axioms this, where fresh = zeros and words = start_words and c = boot_conf
      and m = ?m and argv = "0x200000" and lim = 8 and nd = "start_inode 4 0x8000 94 7" and eh = tiny_header and new = "\<lambda>_. 0"]
  show ?thesis
    using vec start_bootable unfolding start_words_bytes
    by (fastforce simp: zeros_def tiny_header_def user_stack_def boot_conf_def)
qed

end
