(* ===== verification/User_Heap.thy ===== *)
theory User_Heap
  imports Heap_Thms
begin

text \<open>
  The heap of user programs, \<open>t0.dir/sbin/heap.c\<close> (\<open>etan.dir/sbin/heap.c\<close> is the same file): the blocks of the kernel
  heap in a static array, a first-fit search, no lock, and no panics: what the kernel heap treats as an error is passed
  over. \<open>array\<close>, \<open>hlen\<close> (\<open>heap_len\<close>) and \<open>avail\<close> are the fields of \<open>kheap\<close>, whose \<open>base\<close> is the address of the array.
\<close>

section \<open>Blocks\<close>

definition INTS :: int where
  "INTS = 0x100000"

definition user_sanity :: "kheap \<Rightarrow> int \<Rightarrow> int" where
  "user_sanity h i =
     (if i = 0 then 0
      else if i < 0 \<or> hlen h \<le> i then i
      else let footer = footerFromHeader h i in
        if footer < 0 \<or> hlen h \<le> footer then i
        else if array h i \<noteq> array h footer then i
        else i)"

definition user_left :: "kheap \<Rightarrow> int \<Rightarrow> int" where
  "user_left h i = user_sanity h (headerFromFooter h (i - 1))"

definition user_right :: "kheap \<Rightarrow> int \<Rightarrow> int" where
  "user_right h i = user_sanity h (i + size_at h i)"

definition next1 :: "kheap \<Rightarrow> int \<Rightarrow> int" where
  "next1 h i = user_sanity h (array h (i + 1))"

definition prev1 :: "kheap \<Rightarrow> int \<Rightarrow> int" where
  "prev1 h i = user_sanity h (array h (i + 2))"

definition user_remove :: "kheap \<Rightarrow> int \<Rightarrow> kheap" where
  "user_remove h i =
     (let prevIndex = prev1 h i;
          nextIndex = next1 h i;
          h = (if prevIndex = 0 then h\<lparr>avail := nextIndex\<rparr> else setNext h prevIndex nextIndex)
      in if nextIndex \<noteq> 0 then setPrev h nextIndex prevIndex else h)"

definition heap_init :: "kheap \<Rightarrow> kheap" where
  "heap_init h = makeTaken (makeAvail (makeTaken h 0 2) 2 (hlen h - 4)) (hlen h - 2) 2"

section \<open>malloc, free and realloc\<close>

text \<open>The loop of \<open>malloc\<close>. On a list with a cycle it may not end, which is \<open>None\<close>.\<close>

partial_function (option) first_fit :: "kheap \<Rightarrow> int \<Rightarrow> int \<Rightarrow> (kheap \<times> u32) option" where
  "first_fit h ints p =
     (if p = 0 then Some (h, 0)
      else let sz = size_at h p in
        if ints \<le> sz then
          (let h = user_remove h p;
               extra = sz - ints;
               h = (if 4 \<le> extra then makeAvail (makeTaken h p ints) (p + ints) extra else makeTaken h p sz)
           in Some (h, addr_of h (p + 1)))
        else first_fit h ints (next1 h p))"

definition user_malloc :: "kheap \<Rightarrow> u32 \<Rightarrow> (kheap \<times> u32) option" where
  "user_malloc h bytes =
     (if bytes = 0 then Some (h, addr_of h 0) else first_fit h (ints_for bytes) (avail h))"

text \<open>The difference of two \<open>long\<close>s, divided towards 0.\<close>

definition user_index :: "kheap \<Rightarrow> u32 \<Rightarrow> int" where
  "user_index h p = (let d = sint (p - base h) in (if d < 0 then - (- d div 4) else d div 4) - 1)"

definition user_free :: "kheap \<Rightarrow> u32 \<Rightarrow> kheap" where
  "user_free h p =
     (if p = 0 then h
      else if p = addr_of h 0 then h
      else let idx = user_index h p in
        if \<not> isTaken h idx then h
        else
          let sz = size_at h idx;
              leftIndex = user_left h idx;
              rightIndex = user_right h idx;
              (h, idx, sz) = (if isAvail h leftIndex
                then (user_remove h leftIndex, leftIndex, sz + size_at (user_remove h leftIndex) leftIndex)
                else (h, idx, sz));
              (h, sz) = (if isAvail h rightIndex
                then (user_remove h rightIndex, sz + size_at (user_remove h rightIndex) rightIndex)
                else (h, sz))
          in makeAvail h idx sz)"

text \<open>\<open>memcpy\<close> of \<open>m\<close> bytes between words of the array; of the last word only the low bytes are copied.\<close>

definition merge_low :: "nat \<Rightarrow> int \<Rightarrow> int \<Rightarrow> int" where
  "merge_low r old new = sint ((word_of_int old AND NOT (mask (8 * r))) OR (word_of_int new AND mask (8 * r)) :: u32)"

definition copy_bytes :: "kheap \<Rightarrow> int \<Rightarrow> int \<Rightarrow> nat \<Rightarrow> kheap" where
  "copy_bytes h d s m =
     (let h = fold (\<lambda>k h. set_at h (d + int k) (array h (s + int k))) [0..<m div 4] h;
          w = int (m div 4)
      in if m mod 4 = 0 then h else set_at h (d + w) (merge_low (m mod 4) (array h (d + w)) (array h (s + w))))"

definition user_realloc :: "kheap \<Rightarrow> u32 \<Rightarrow> u32 \<Rightarrow> (kheap \<times> u32) option" where
  "user_realloc h p newSize =
     (if p = 0 then user_malloc h newSize
      else if newSize = 0 then Some (user_free h p, 0)
      else let idx = user_index h p in
        if \<not> isTaken h idx then Some (h, 0)
        else let sz = size_at h idx * 4 in
          case user_malloc h newSize of
            None \<Rightarrow> None
          | Some (h, newPtr) \<Rightarrow>
              let h = (if newPtr \<noteq> 0
                       then (let m = (if sz < uint newSize then nat sz else unat newSize)
                             in copy_bytes h (user_index h newPtr + 1) (idx + 1) m)
                       else h)
              in Some (user_free h p, newPtr))"

section \<open>The same blocks as in the kernel\<close>

lemma user_sanity_id [simp]: "user_sanity h i = i"
  by (simp add: user_sanity_def Let_def)

lemma user_remove_unlinked: "user_remove h i = unlinked h i"
  using remove_blk_unlinked [of h i]
  by (simp add: user_remove_def remove_blk_def prev_blk_def next_blk_def sanity_def safe_def prev1_def next1_def Let_def split: if_splits)

lemma user_free_kernel:
  assumes "isTaken h (user_index h p)" "user_index h p = index_of h p"
  shows "free h p = Inr (user_free h p)"
  using assms
  by (simp add: free_def user_free_def Let_def left_blk_def right_blk_def sanity_def safe_def user_left_def user_right_def
      remove_blk_unlinked user_remove_unlinked split: prod.splits)

lemma base_makeTaken: "base (makeTaken h i n) = base h"
  by (simp add: makeTaken_def set_at_def Let_def)

text \<open>The head of the list that fits.\<close>

lemma first_fit_eq:
  assumes "cseg (array h) pr p us pr' 0" "\<forall>x \<in> set us. 0 < array h x \<and> x \<noteq> 0"
  shows "first_fit h ints p =
    (case filter (\<lambda>x. ints \<le> array h x) us of [] \<Rightarrow> Some (h, 0)
     | x # _ \<Rightarrow> Some (carved h x (array h x) ints, addr_of h (x + 1)))"
  using assms
proof (induction us arbitrary: pr p)
  case Nil
  then show ?case by (simp add: first_fit.simps)
next
  case (Cons x us)
  then have p: "p = x" "x \<noteq> 0" "size_at h x = array h x" and c: "cseg (array h) x (next1 h x) us pr' 0"
    by (auto simp: size_at_def abs_int_def next1_def)
  show ?case
  proof (cases "ints \<le> array h x")
    case True
    then show ?thesis using p
      by (subst first_fit.simps)
        (simp add: Let_def user_remove_unlinked carved_def addr_of_def makeAvail_eq base_makeTaken)
  next
    case False
    then show ?thesis using p Cons.IH [OF c] Cons.prems(2) by (subst first_fit.simps) (simp add: Let_def)
  qed
qed

lemma user_malloc_cases:
  assumes wf: "heap_wf h bs fl" and b: "bytes \<noteq> 0"
  obtains (full) "user_malloc h bytes = Some (h, 0)" "\<forall>x\<in>set fl. array h x < ints_for bytes"
  | (found) xs mx ys where "user_malloc h bytes = Some (carved h (span xs) mx (ints_for bytes), payload h (span xs))"
      "bs = xs @ (mx, False) # ys" "4 \<le> ints_for bytes" "ints_for bytes \<le> mx"
      "\<exists>us vs. fl = us @ span xs # vs \<and> (\<forall>x \<in> set us. array h x < ints_for bytes)"
proof -
  let ?n = "ints_for bytes"
  obtain pr' where c: "cseg (array h) 0 (avail h) fl pr' 0" using wf by (auto simp: heap_wf_def holed_def chain_def)
  have vals: "\<forall>x \<in> set fl. 0 < array h x \<and> x \<noteq> 0" using heap_wf_free_block [OF wf] by fastforce
  note search = first_fit_eq [OF c vals, of ?n]
  show thesis
  proof (cases "filter (\<lambda>x. ?n \<le> array h x) fl")
    case Nil
    then have "\<forall>x\<in>set fl. array h x < ?n" by (auto simp: filter_empty_conv)
    moreover have "user_malloc h bytes = Some (h, 0)" using b search Nil by (simp add: user_malloc_def)
    ultimately show thesis by (intro full)
  next
    case (Cons x rest)
    then obtain us vs where split: "fl = us @ x # vs" "\<forall>u \<in> set us. \<not> ?n \<le> array h u" "?n \<le> array h x"
      by (auto simp: filter_eq_Cons_iff)
    then obtain s where s: "(x, s, False) \<in> set (blocks 0 bs)" using heap_wf_free_block(1) [OF wf, of x] by auto
    then have v: "array h x = s" using heap_wf_free_block(2) [OF wf s] by simp
    obtain xs ys where bs: "bs = xs @ (s, False) # ys" "x = span xs" using in_blocks_split [OF s] by auto
    have "user_malloc h bytes = Some (carved h x s ?n, payload h x)"
      using b search Cons v by (simp add: user_malloc_def payload_def)
    moreover have "\<exists>us vs. fl = us @ span xs # vs \<and> (\<forall>x \<in> set us. array h x < ?n)"
      using split bs(2) by (intro exI [of _ us] exI [of _ vs]) auto
    ultimately show thesis using found [of xs s ys] bs v split(3) ints_for_bounds(1) by simp
  qed
qed

lemma payload_difference: "payload h i - base h = word_of_int (4 * (i + 1))"
  by (simp add: payload_def addr_of_def)

lemma user_index_payload:
  assumes "0 \<le> i" "4 * (i + 1) < 2 ^ 31"
  shows "user_index h (payload h i) = i"
proof -
  have "sint (payload h i - base h) = 4 * (i + 1)"
    unfolding payload_difference using assms by (intro sint_small) simp_all
  then show ?thesis using assms(1) by (simp add: user_index_def)
qed

text \<open>The array lies in one half of the address space, which a million words do.\<close>

definition uwf :: "kheap \<Rightarrow> bool" where
  "uwf h \<longleftrightarrow> hwf h \<and> 4 * hlen h < 2 ^ 31"

lemma live_index:
  assumes "uwf h" "(i, s) \<in> live h"
  shows "0 \<le> i" "4 \<le> s" "i + s \<le> hlen h" "user_index h (payload h i) = i" "index_of h (payload h i) = i"
    "isTaken h i" "size_at h i = s"
proof -
  obtain bs fl where wf: "heap_wf h bs fl" using assms(1) by (auto simp: uwf_def hwf_def)
  have b: "(i, s, True) \<in> set (blocks 0 bs)" and s: "4 \<le> s" using assms(2) by (auto simp: live_wf [OF wf])
  have bounds: "0 \<le> i" "i + s \<le> hlen h" "array h i = - s"
    using blocks_bounds [OF heap_wf_tiled [OF wf] b] wf by (auto simp: heap_wf_def)
  then show "0 \<le> i" "4 \<le> s" "i + s \<le> hlen h" using s by simp_all
  have small: "4 * (i + 1) < 2 ^ 31" using bounds s assms(1) by (simp add: uwf_def)
  then show "user_index h (payload h i) = i" using bounds by (intro user_index_payload)
  show "index_of h (payload h i) = i" using small bounds unfolding payload_def by (intro index_of_addr) simp_all
  show "isTaken h i" "size_at h i = s" using bounds s by (simp_all add: isTaken_def size_at_def abs_int_def)
qed

lemma hlen_live_free:
  assumes "uwf h" "(i, s) \<in> live h"
  shows "free h (payload h i) = Inr (user_free h (payload h i))"
  using live_index [OF assms] by (intro user_free_kernel) simp_all

lemma hlen_simps [simp]:
  "hlen (makeTaken h i n) = hlen h" "hlen (makeAvail h i n) = hlen h" "hlen (set_at h k v) = hlen h"
  "hlen (carved h it mx n) = hlen h"
  by (simp_all add: makeTaken_def makeAvail_def set_at_def setNext_def setPrev_def carved_def Let_def)

lemma hlen_user_free [simp]: "hlen (user_free h p) = hlen h"
  by (simp add: user_free_def Let_def user_remove_unlinked split: prod.split)

definition user_alloc :: "kheap \<Rightarrow> u32 \<Rightarrow> (kheap \<times> u32) res option" where
  "user_alloc h n = map_option Inr (user_malloc h n)"

definition user_release :: "kheap \<Rightarrow> u32 \<Rightarrow> kheap res" where
  "user_release h p = Inr (user_free h p)"

text \<open>A block that is found holds the bytes that were asked for.\<close>

lemma user_malloc_returns:
  assumes "uwf h" "n \<noteq> 0"
  shows "\<exists>h' p. user_malloc h n = Some (h', p) \<and> uwf h' \<and>
      (p = 0 \<and> h' = h \<or> (\<exists>i s. p = payload h i \<and> payload h' i = p \<and> ints_for n \<le> s \<and> (i, s) \<notin> live h \<and> live h' = insert (i, s) (live h))) \<and>
      (\<forall>b\<in>live h. same_block array h h' b)"
proof -
  obtain bs fl where wf: "heap_wf h bs fl" using assms(1) by (auto simp: uwf_def hwf_def)
  from wf assms(2) show ?thesis
  proof (cases rule: user_malloc_cases)
    case full
    then show ?thesis using assms(1) by (auto simp: same_block_def)
  next
    case (found xs mx ys)
    note m = malloc_found [OF wf found(2-4)]
    have "base (carved h (span xs) mx (ints_for n)) = base h"
      using carved_wf(3) [OF wf found(2-4)] .
    then have "payload (carved h (span xs) mx (ints_for n)) (span xs) = payload h (span xs)" by (simp add: payload_def addr_of_def)
    moreover have "uwf (carved h (span xs) mx (ints_for n))" using m(1) assms(1) by (simp add: uwf_def)
    ultimately show ?thesis using m(2-5) found(1) by blast
  qed
qed

lemma user_free_live:
  assumes "uwf h" "(i, s) \<in> live h"
  shows "uwf (user_free h (payload h i)) \<and> live (user_free h (payload h i)) = live h - {(i, s)} \<and>
    (\<forall>b\<in>live (user_free h (payload h i)). same_block array h (user_free h (payload h i)) b)"
proof -
  obtain bs fl where wf: "heap_wf h bs fl" using assms(1) by (auto simp: uwf_def hwf_def)
  from free_live [OF wf assms(2)] hlen_live_free [OF assms] assms(1) show ?thesis by (auto simp: uwf_def)
qed

lemma poke_uwf:
  assumes "uwf h" "(i, s) \<in> live h" "i < k" "k < i + s - 1"
  shows "uwf (set_at h k v) \<and> live (set_at h k v) = live h \<and> array (set_at h k v) = (array h)(k := v)"
  using kh.poke_inside [OF _ assms(2-4), of v] assms(1) by (simp add: uwf_def)

interpretation uh: allocator uwf live array payload set_at user_alloc user_release
proof unfold_locales
  show "uwf h \<Longrightarrow> (i, s) \<in> live h \<Longrightarrow> (j, t) \<in> live h \<Longrightarrow> i \<noteq> j \<Longrightarrow> i + s \<le> j \<or> j + t \<le> i" for h i s j t
    by (intro live_disjoint) (simp_all add: uwf_def)
next
  fix h and n :: u32 assume "uwf h" "n \<noteq> 0"
  from user_malloc_returns [OF this] show "\<exists>h' p. user_alloc h n = Some (Inr (h', p)) \<and> uwf h' \<and>
      (p = 0 \<and> h' = h \<or> (\<exists>i s. p = payload h i \<and> (i, s) \<notin> live h \<and> live h' = insert (i, s) (live h))) \<and>
      (\<forall>b\<in>live h. same_block array h h' b)"
    by (auto simp: user_alloc_def)
next
  show "\<exists>h'. user_release h (payload h i) = Inr h' \<and> uwf h' \<and> live h' = live h - {(i, s)} \<and>
    (\<forall>b\<in>live h'. same_block array h h' b)" if "uwf h" "(i, s) \<in> live h" for h i s
    using user_free_live [OF that] by (simp add: user_release_def)
qed (rule poke_uwf)

section \<open>Copies\<close>

lemma copy_words:
  assumes "uwf h" "(j, t) \<in> live h" "j < d" "d + int n < j + t" and apart: "\<And>k. k < n \<Longrightarrow> s + int k < d \<or> d + int n \<le> s + int k"
  defines "h' \<equiv> fold (\<lambda>k h. set_at h (d + int k) (array h (s + int k))) [0..<n] h"
  shows "uwf h' \<and> live h' = live h \<and> base h' = base h \<and>
    array h' = (\<lambda>x. if d \<le> x \<and> x < d + int n then array h (s + (x - d)) else array h x)"
  unfolding h'_def using assms(4) apart
proof (induction n)
  case 0
  then show ?case using assms(1) by auto
next
  case (Suc n)
  let ?g = "fold (\<lambda>k h. set_at h (d + int k) (array h (s + int k))) [0..<n] h"
  have ih: "uwf ?g" "live ?g = live h" "base ?g = base h"
    "array ?g = (\<lambda>x. if d \<le> x \<and> x < d + int n then array h (s + (x - d)) else array h x)"
    using Suc.IH Suc.prems by (force+)
  have src: "array ?g (s + int n) = array h (s + int n)" using Suc.prems(2) [of n] unfolding ih(4) by auto
  have "uwf (set_at ?g (d + int n) (array ?g (s + int n))) \<and> live (set_at ?g (d + int n) (array ?g (s + int n))) = live ?g \<and>
      array (set_at ?g (d + int n) (array ?g (s + int n))) = (array ?g)(d + int n := array ?g (s + int n))"
    using assms(2,3) Suc.prems(1) ih(2) by (intro poke_uwf [OF ih(1), of j t]) simp_all
  moreover have "base (set_at ?g (d + int n) (array ?g (s + int n))) = base ?g" by (simp add: set_at_def)
  moreover have "(array ?g)(d + int n := array ?g (s + int n)) =
      (\<lambda>x. if d \<le> x \<and> x < d + int (Suc n) then array h (s + (x - d)) else array h x)"
    unfolding src unfolding ih(4) by (rule ext) auto
  ultimately show ?case using ih by simp
qed

text \<open>The whole words of a copy arrive; only words of the copy change.\<close>

lemma copy_bytes_spec:
  assumes "uwf h" "(j, t) \<in> live h" "j < d" "4 * (d + 1 - j) + int m \<le> 4 * t"
    and apart: "\<And>k. 4 * k < m \<Longrightarrow> s + int k < d \<or> j + t \<le> s + int k"
  shows "uwf (copy_bytes h d s m) \<and> live (copy_bytes h d s m) = live h \<and> base (copy_bytes h d s m) = base h \<and>
    (\<forall>k. 4 * (k + 1) \<le> m \<longrightarrow> array (copy_bytes h d s m) (d + int k) = array h (s + int k)) \<and>
    (\<forall>x. x < d \<or> j + t - 1 \<le> x \<longrightarrow> array (copy_bytes h d s m) x = array h x)"
proof -
  let ?n = "m div 4" and ?h = "fold (\<lambda>k h. set_at h (d + int k) (array h (s + int k))) [0..<m div 4] h"
  have n: "4 * ?n \<le> m" "m < 4 * ?n + 4" by simp_all
  have end_n: "d + int ?n < j + t" using assms(4) n(1) by simp
  have ap: "s + int k < d \<or> d + int ?n \<le> s + int k" if "k < ?n" for k
    using apart [of k] that n end_n by force
  note w = copy_words [OF assms(1-3) end_n ap]
  have w': "uwf ?h" "live ?h = live h" "base ?h = base h"
    "array ?h = (\<lambda>x. if d \<le> x \<and> x < d + int ?n then array h (s + (x - d)) else array h x)"
    using w by simp_all
  show ?thesis
  proof (cases "m mod 4 = 0")
    case True
    then show ?thesis
      using w' end_n n by (auto simp: copy_bytes_def Let_def)
  next
    case False
    then have "4 * ?n + 1 \<le> m" by presburger
    then have "d + int ?n < j + t - 1" using assms(4) by simp
    then have p: "uwf (set_at ?h (d + int ?n) v) \<and> live (set_at ?h (d + int ?n) v) = live ?h \<and>
        array (set_at ?h (d + int ?n) v) = (array ?h)(d + int ?n := v)" for v
      using assms(2,3) w'(2) by (intro poke_uwf [OF w'(1), of j t]) simp_all
    have "base (set_at ?h (d + int ?n) v) = base ?h" for v by (simp add: set_at_def)
    then show ?thesis
      using p w' n False \<open>d + int ?n < j + t - 1\<close> by (auto simp: copy_bytes_def Let_def)
  qed
qed

lemma payload_nonzero:
  assumes "uwf h" "(i, s) \<in> live h"
  shows "payload h i \<noteq> 0"
proof -
  obtain bs fl where wf: "heap_wf h bs fl" using assms(1) by (auto simp: uwf_def hwf_def)
  then have "uint (addr_of h (i + 1)) = uint (base h) + 4 * (i + 1)"
    using live_index [OF assms] by (intro addr_of_distinct [of h "hlen h"]) (auto simp: heap_wf_def)
  moreover have "0 < uint (base h) + 4 * (i + 1)"
    using live_index(1) [OF assms] uint_ge_0 [of "base h"] by (intro add_nonneg_pos) simp_all
  ultimately have "0 < uint (payload h i)" unfolding payload_def by (simp only:)
  then show ?thesis by auto
qed

lemma user_alloc_live:
  assumes "uwf h" "n \<noteq> 0" "user_malloc h n = Some (h', p)" "p \<noteq> 0"
  obtains i s where "p = payload h' i" "ints_for n \<le> s" "(i, s) \<notin> live h" "live h' = insert (i, s) (live h)" "uwf h'"
    "\<forall>b\<in>live h. same_block array h h' b" "base h' = base h"
proof -
  obtain bs fl where wf: "heap_wf h bs fl" using assms(1) by (auto simp: uwf_def hwf_def)
  have "base h' = base h"
    using wf assms(2)
  proof (cases rule: user_malloc_cases)
    case (found xs mx ys)
    then show ?thesis using carved_wf(3) [OF wf found(2-4)] assms(3) by simp
  qed (use assms in auto)
  then show thesis using user_malloc_returns [OF assms(1,2)] assms(3,4) that by force
qed

lemma user_malloc_zero:
  assumes "uwf h" "n \<noteq> 0" "user_malloc h n = Some (h', 0)"
  shows "h' = h"
proof (rule ccontr)
  assume "h' \<noteq> h"
  then obtain i s where "uwf h'" "payload h' i = 0" "live h' = insert (i, s) (live h)"
    using user_malloc_returns [OF assms(1,2)] assms(3) by auto
  then show False using payload_nonzero [of h' i s] by simp
qed

end
