(* ===== verification/User_Claims.thy ===== *)
theory User_Claims
  imports User_Heap Heap_Props
begin

text \<open>The claims about the heap of user programs.\<close>

section \<open>An example\<close>

text \<open>The heap of a program whose array is at 0x80010000.\<close>

definition user_boot :: kheap where
  "user_boot = heap_init \<lparr>array = (\<lambda>_. 0), base = 0x80010000, hlen = INTS, avail = 0\<rparr>"

lemma user_boot_init: "user_boot = init_blocks \<lparr>array = (\<lambda>_. 0), base = 0, hlen = 0, avail = 0\<rparr> 0x80010000 0x400000"
  by (simp add: user_boot_def heap_init_def init_blocks_def INTS_def)

lemma user_boot_wf: "heap_wf user_boot [(2, True), (1048572, False), (2, True)] [2]"
  using init_blocks_wf [of "\<lparr>array = (\<lambda>_. 0), base = 0, hlen = 0, avail = 0\<rparr>" "0x400000" "0x80010000"]
  by (simp add: user_boot_init)

lemma user_boot_uwf: "uwf user_boot"
  using user_boot_wf by (auto simp: uwf_def hwf_def user_boot_def heap_init_def INTS_def)

text \<open>100 bytes are found.\<close>

lemma user_boot_alloc:
  obtains h where "user_malloc user_boot 100 = Some (h, payload h 2)" "uwf h" "(2, 27) \<in> live h"
proof -
  have n: "ints_for 100 = 27" by (simp add: ints_for_def Let_def)
  have v: "array user_boot 2 = 1048572" using heap_wf_free_block(2) [OF user_boot_wf, of 2 1048572] by simp
  have "(100 :: u32) \<noteq> 0" by simp
  from user_boot_wf this show thesis
  proof (cases rule: user_malloc_cases)
    case full
    then show thesis using v n by simp
  next
    case (found xs mx ys)
    then have x: "xs = [(2, True)]" "mx = 1048572" by (auto simp: Cons_eq_append_conv)
    note m = malloc_found [OF user_boot_wf found(2-4)]
    let ?h = "carved user_boot (span xs) mx (ints_for 100)"
    have "payload ?h 2 = payload user_boot 2"
      using carved_wf(3) [OF user_boot_wf found(2-4)] by (simp add: payload_def addr_of_def)
    moreover have "uwf ?h" using m(1) user_boot_uwf by (simp add: uwf_def)
    ultimately show thesis using that [of ?h] found(1) m(3) x n by simp
  qed
qed

section \<open>The claims\<close>

text \<open>
  The heap of user programs keeps the contract of the kernel heap: from a well-formed heap, any sequence of allocations, of releases of blocks
  in use and of writes inside blocks in use runs to its end, every search ends, the heap is well-formed afterwards, and a block that
  the sequence neither releases nor writes is still in use with the same contents.
\<close>

theorem user_heap_safe:
  assumes "heap_run user_alloc user_release payload live set_at h ops r" and "uwf h"
  shows "\<exists>h'. r = Some h' \<and> uwf h' \<and>
    (\<forall>i s. (i, s) \<in> live h \<longrightarrow> (\<forall>op\<in>set ops. spares i op) \<longrightarrow> (i, s) \<in> live h' \<and> same_block array h h' (i, s))"
  using assms by (rule uh.run_safe)

theorem user_heap_safe_witness:
  "\<exists>r h'. heap_run user_alloc user_release payload live set_at user_boot [Alloc 100, Release 2] r \<and> r = Some h' \<and> uwf h'"
proof -
  obtain h where h: "user_malloc user_boot 100 = Some (h, payload h 2)" "uwf h" "(2, 27) \<in> live h"
    by (rule user_boot_alloc)
  have "heap_step user_alloc user_release payload live set_at user_boot (Alloc 100) (Some h)"
    by (rule heap_step.alloc_ok) (use h(1) in \<open>auto simp: user_alloc_def\<close>)
  moreover have "heap_step user_alloc user_release payload live set_at h (Release 2) (Some (user_free h (payload h 2)))"
    by (rule heap_step.release_ok) (use h(3) in \<open>auto simp: user_release_def\<close>)
  ultimately have "heap_run user_alloc user_release payload live set_at user_boot [Alloc 100, Release 2] (Some (user_free h (payload h 2)))"
    by (blast intro: heap_run.intros)
  from this user_heap_safe [OF this user_boot_uwf] show ?thesis by blast
qed

lemma live_unique: "uwf h \<Longrightarrow> (i, s) \<in> live h \<Longrightarrow> (i, t) \<in> live h \<Longrightarrow> s = t"
  using live_index(7) [of h i s] live_index(7) [of h i t] by simp

text \<open>
  \<open>realloc\<close> of a block in use to a positive size returns and keeps the heap well-formed. If there is room, the block in use is replaced by
  a new one that is large enough and begins with the words of the old one, as far as both reach. If there is none, the result is 0 and
  the old block is gone all the same. No other block is touched in either case.
\<close>

theorem user_realloc_contract:
  assumes "uwf h" "(i, s) \<in> live h" "n \<noteq> 0" "uint n \<le> 2 ^ 32 - 4"
  shows "\<exists>h' q. user_realloc h (payload h i) n = Some (h', q) \<and> uwf h' \<and>
    (q = 0 \<and> live h' = live h - {(i, s)} \<or>
     (\<exists>j t. q = payload h j \<and> (j, t) \<notin> live h \<and> live h' = insert (j, t) (live h - {(i, s)}) \<and> uint n \<le> 4 * (t - 2) \<and>
        (\<forall>k. 4 * (int k + 1) \<le> uint n \<and> int k < s - 2 \<longrightarrow> array h' (j + 1 + int k) = array h (i + 1 + int k)))) \<and>
    (\<forall>b \<in> live h - {(i, s)}. same_block array h h' b)"
proof -
  note old = live_index [OF assms(1,2)]
  have p0: "payload h i \<noteq> 0" by (rule payload_nonzero [OF assms(1,2)])
  obtain h1 p where m: "user_malloc h n = Some (h1, p)" "uwf h1"
    using user_malloc_returns [OF assms(1,3)] by blast
  show ?thesis
  proof (cases "p = 0")
    case True
    then have "h1 = h" using user_malloc_zero [OF assms(1,3)] m(1) by simp
    then have "user_realloc h (payload h i) n = Some (user_free h (payload h i), 0)"
      using True m p0 old assms(3) by (simp add: user_realloc_def Let_def)
    then show ?thesis using user_free_live [OF assms(1,2)] by (auto simp: same_block_def)
  next
    case False
    obtain j t where jt: "p = payload h1 j" "ints_for n \<le> t" "(j, t) \<notin> live h" "live h1 = insert (j, t) (live h)"
      and same: "\<forall>b\<in>live h. same_block array h h1 b" and base: "base h1 = base h"
      by (rule user_alloc_live [OF assms(1,3) m(1) False])
    have here: "(j, t) \<in> live h1" "(i, s) \<in> live h1" using jt(4) assms(2) by auto
    note new = live_index [OF m(2) here(1)]
    have ne: "i \<noteq> j" using live_unique [OF m(2) here(2), of t] here(1) jt(3) assms(2) by auto
    have dis: "i + s \<le> j \<or> j + t \<le> i" using uh.disjoint [OF m(2) here(2,1) ne] .
    define c where "c = (if s * 4 < uint n then nat (s * 4) else unat n)"
    have c_int: "int c = (if s * 4 < uint n then s * 4 else uint n)" using old(2) by (simp add: c_def)
    have c: "int c \<le> uint n" "int c \<le> 4 * s" using old(2) by (auto simp: c_def)
    have room: "uint n \<le> 4 * (t - 2)" using ints_for_bounds(2) [OF assms(4)] jt(2) by simp
    have fits: "4 * (j + 1 + 1 - j) + int c \<le> 4 * t" using room c(1) by simp
    have ap: "i + 1 + int k < j + 1 \<or> j + t \<le> i + 1 + int k" if "4 * k < c" for k
      using that c(2) dis by linarith
    define h2 where "h2 = copy_bytes h1 (j + 1) (i + 1) c"
    have copied: "uwf h2" "live h2 = live h1" "base h2 = base h1"
      "\<And>k. 4 * (k + 1) \<le> c \<Longrightarrow> array h2 (j + 1 + int k) = array h1 (i + 1 + int k)"
      "\<And>x. x < j + 1 \<or> j + t - 1 \<le> x \<Longrightarrow> array h2 x = array h1 x"
      using copy_bytes_spec [OF m(2) here(1) _ fits ap] unfolding h2_def [symmetric] by auto
    have pay: "payload h2 x = payload h x" for x using base copied(3) by (simp add: payload_def addr_of_def)
    define h' where "h' = user_free h2 (payload h2 i)"
    have freed: "uwf h'" "live h' = live h2 - {(i, s)}" "\<And>b. b \<in> live h' \<Longrightarrow> same_block array h2 h' b"
      using user_free_live [OF copied(1), of i s] here(2) copied(2) by (auto simp: h'_def)
    have r: "user_realloc h (payload h i) n = Some (h', p)"
      using m(1) p0 old assms(3) False new(4) jt(1)
      by (simp add: user_realloc_def Let_def h'_def pay) (simp add: h2_def c_def)
    have live': "live h' = insert (j, t) (live h - {(i, s)})" using freed(2) copied(2) jt(4) ne by auto
    have other: "same_block array h h' b" if b: "b \<in> live h - {(i, s)}" for b
    proof -
      obtain k l where kl: "b = (k, l)" by (cases b)
      then have kl1: "(k, l) \<in> live h" "(k, l) \<in> live h1" using b jt(4) by simp_all
      have "k \<noteq> j"
      proof
        assume "k = j"
        then have "l = t" using live_unique [OF m(2)] kl1(2) here(1) by blast
        then show False using kl1(1) jt(3) \<open>k = j\<close> by simp
      qed
      then have "k + l \<le> j \<or> j + t \<le> k" using uh.disjoint [OF m(2) kl1(2) here(1)] by blast
      then have "same_block array h1 h2 b" using copied(5) kl by (auto simp: same_block_def)
      moreover have "same_block array h h1 b" "same_block array h2 h' b" using same freed(3) live' b by auto
      ultimately show ?thesis using uh.same_block_trans by blast
    qed
    have words: "array h' (j + 1 + int k) = array h (i + 1 + int k)" if k: "4 * (int k + 1) \<le> uint n" "int k < s - 2" for k
    proof -
      have "int (4 * (k + 1)) \<le> int c" using k unfolding c_int by simp
      then have "4 * (k + 1) \<le> c" by (simp only: of_nat_le_iff)
      then have "array h2 (j + 1 + int k) = array h1 (i + 1 + int k)" by (rule copied(4))
      moreover have "array h' (j + 1 + int k) = array h2 (j + 1 + int k)"
        using freed(3) [of "(j, t)"] live' k room by (simp add: same_block_def)
      moreover have "array h1 (i + 1 + int k) = array h (i + 1 + int k)"
        using same assms(2) k by (auto simp: same_block_def)
      ultimately show ?thesis by simp
    qed
    have "p = payload h j" using jt(1) base by (simp add: payload_def addr_of_def)
    then show ?thesis using r freed(1) live' room words other jt(3) by blast
  qed
qed

theorem user_realloc_contract_witness:
  "\<exists>h h' q. user_malloc user_boot 100 = Some (h, payload h 2) \<and> user_realloc h (payload h 2) 200 = Some (h', q) \<and> uwf h' \<and> (2, 27) \<notin> live h'"
proof -
  obtain h where h: "user_malloc user_boot 100 = Some (h, payload h 2)" "uwf h" "(2, 27) \<in> live h"
    by (rule user_boot_alloc)
  have "(200 :: u32) \<noteq> 0" "uint (200 :: u32) \<le> 2 ^ 32 - 4" by simp_all
  from user_realloc_contract [OF h(2,3) this] obtain h' q where r: "user_realloc h (payload h 2) 200 = Some (h', q)" "uwf h'"
    "live h' = live h - {(2, 27)} \<or> (\<exists>j t. (j, t) \<notin> live h \<and> live h' = insert (j, t) (live h - {(2, 27)}))"
    by blast
  from r(3) h(3) have "(2, 27) \<notin> live h'" by auto
  then show ?thesis using h(1) r by blast
qed

end
