(* ===== verification/Libc.thy ===== *)
theory Libc
  imports Sys Snprintf
begin

text \<open>
  The library of user programs: \<open>t0.dir/sbin/libc.c\<close> (\<open>etan.dir/sbin/libc.c\<close> differs in messages and has \<open>atoi\<close>), the stubs of
  \<open>sys.S\<close> and the end of \<open>printf.c\<close>, whose formatter is the text of \<open>kernel/snprintf.cc\<close>. A function runs in a process and calls the
  kernel; \<open>sp\<close> is the stack pointer at its calls, and its local variables have addresses of their own.
\<close>

section \<open>Calls\<close>

record user =
  sp :: u32       \<comment> \<open>the stack pointer in a stub: the return address, then the arguments\<close>
  local_t :: u32  \<comment> \<open>\<open>t\<close> of \<open>putchar\<close>\<close>
  local_buf :: u32   \<comment> \<open>\<open>buf\<close> of \<open>cp\<close>\<close>

type_synonym 'd world = "process \<times> 'd system"

fun put_args :: "u32 \<Rightarrow> u32 list \<Rightarrow> memory \<Rightarrow> memory" where
  "put_args a [] m = m"
| "put_args a (x # xs) m = put_args (a + 4) xs (put_word a x m)"

text \<open>A stub: arguments are on the stack, the number of the call in a register. A call that does not return ends the function.\<close>

definition no_return :: kerror where
  "no_return = Panic ''the call does not return''"

definition user_call :: "'d env \<Rightarrow> user \<Rightarrow> u32 \<Rightarrow> u32 list \<Rightarrow> 'd world \<Rightarrow> (int \<times> 'd world) res" where
  "user_call E U num as = (\<lambda>(p, S).
     bindE (sysHandler num E \<lparr>pc = 0, esp = sp U\<rparr> (p\<lparr>space := put_args (sp U + 4) as (space p)\<rparr>) S) (\<lambda>r.
     case r of Return v p S \<Rightarrow> Inr (v, (p, S)) | _ \<Rightarrow> Inl no_return))"

definition user_write :: "'d env \<Rightarrow> user \<Rightarrow> u32 \<Rightarrow> u32 \<Rightarrow> u32 \<Rightarrow> 'd world \<Rightarrow> (int \<times> 'd world) res" where
  "user_write E U fd buf n = user_call E U 1 [fd, buf, n]"

definition user_read :: "'d env \<Rightarrow> user \<Rightarrow> u32 \<Rightarrow> u32 \<Rightarrow> u32 \<Rightarrow> 'd world \<Rightarrow> (int \<times> 'd world) res" where
  "user_read E U fd buf n = user_call E U 12 [fd, buf, n]"

section \<open>libc.c\<close>

definition putchar :: "'d env \<Rightarrow> user \<Rightarrow> u8 \<Rightarrow> 'd world \<Rightarrow> (int \<times> 'd world) res" where
  "putchar E U c = (\<lambda>(p, S). user_write E U 1 (local_t U) 1 (p\<lparr>space := put_bytes (local_t U) [c] (space p)\<rparr>, S))"

text \<open>\<open>puts\<close> of a string in memory.\<close>

fun puts_loop :: "nat \<Rightarrow> 'd env \<Rightarrow> user \<Rightarrow> u32 \<Rightarrow> int \<Rightarrow> 'd world \<Rightarrow> (int \<times> 'd world) res" where
  "puts_loop 0 E U a count w = Inl (Panic ''string without end'')"
| "puts_loop (Suc fuel) E U a count w =
     (let c = space (fst w) a in
      if c = 0 then bindE (putchar E U 10 w) (\<lambda>(_, w). Inr (count + 1, w))
      else bindE (putchar E U c w) (\<lambda>(n, w).
           if n < 0 then Inr (n, w) else puts_loop fuel E U (a + 1) (count + 1) w))"

definition puts :: "'d env \<Rightarrow> user \<Rightarrow> u32 \<Rightarrow> 'd world \<Rightarrow> (int \<times> 'd world) res" where
  "puts E U a w = puts_loop (limit E) E U a 0 w"

text \<open>The loops of \<open>cp\<close>; \<open>complain\<close> is the \<open>printf\<close> of an error message.\<close>

fun cp_write :: "nat \<Rightarrow> 'd env \<Rightarrow> user \<Rightarrow> ('d world \<Rightarrow> 'd world res) \<Rightarrow> u32 \<Rightarrow> u32 \<Rightarrow> int \<Rightarrow> 'd world \<Rightarrow> 'd world res" where
  "cp_write 0 E U complain to ptr n w = Inl no_progress"
| "cp_write (Suc fuel) E U complain to ptr n w =
     (if 0 < n then
        bindE (user_write E U to ptr (word_of_int n) w) (\<lambda>(m, w).
        if m < 0 then complain w else cp_write fuel E U complain to (ptr + word_of_int m) (n - m) w)
      else Inr w)"

fun cp_loop :: "nat \<Rightarrow> 'd env \<Rightarrow> user \<Rightarrow> ('d world \<Rightarrow> 'd world res) \<Rightarrow> ('d world \<Rightarrow> 'd world res) \<Rightarrow> u32 \<Rightarrow> u32 \<Rightarrow>
    'd world \<Rightarrow> 'd world res" where
  "cp_loop 0 E U no_read no_write from to w = Inl no_progress"
| "cp_loop (Suc fuel) E U no_read no_write from to w =
     bindE (user_read E U from (local_buf U) 100 w) (\<lambda>(n, w).
     if n = 0 then Inr w
     else if n < 0 then no_read w
     else bindE (cp_write 101 E U no_write to (local_buf U) n w) (\<lambda>w. cp_loop fuel E U no_read no_write from to w))"

text \<open>\<open>atoi\<close> of \<open>etan.dir/sbin/libc.c\<close>, on the characters before the NUL; a \<open>char\<close> is signed, an \<open>int\<close> is kept at its width.\<close>

fun atoi_loop :: "u8 list \<Rightarrow> u32 \<Rightarrow> u32" where
  "atoi_loop [] val = val"
| "atoi_loop (c # cs) val = (let digit = scast c - 48 in atoi_loop cs (val * 10 + digit))"

definition atoi :: "u8 list \<Rightarrow> u32" where
  "atoi str = (let neg = (str \<noteq> [] \<and> hd str = 45); val = atoi_loop (if neg then tl str else str) 0
     in val * (if neg then - 1 else 1))"

section \<open>printf.c\<close>

fun put_chars :: "'d env \<Rightarrow> user \<Rightarrow> string \<Rightarrow> 'd world \<Rightarrow> 'd world res" where
  "put_chars E U [] w = Inr w"
| "put_chars E U (c # cs) w = bindE (putchar E U (of_char c) w) (\<lambda>(_, w). put_chars E U cs w)"

text \<open>The writes of \<open>%n\<close>.\<close>

fun put_stores :: "(u32 \<times> cmod \<times> int) list \<Rightarrow> memory \<Rightarrow> memory" where
  "put_stores [] m = m"
| "put_stores ((a, c, v) # ss) m =
     put_stores ss (if c = DP_C_SHORT then put_bytes a [word_of_int v, word_of_int (v div 256)] m else put_word a (word_of_int v) m)"

text \<open>
  The characters go out one by one while the formatter runs, which does not depend on them; the writes of \<open>%n\<close> come after them here, which
  makes no difference as long as they stay away from the local variable and the arguments of the stubs.
\<close>

definition user_vprintf :: "'f fpu \<Rightarrow> 'd env \<Rightarrow> user \<Rightarrow> u32 \<Rightarrow> string \<Rightarrow> 'f arg list \<Rightarrow> 'd world \<Rightarrow> (int \<times> 'd world) res" where
  "user_vprintf F E U printf_sem fmt as w =
     bindE (user_call E U 5 [printf_sem] w) (\<lambda>(_, w).
     bindE (dopr F \<lparr>out = [], currlen = 0\<rparr> 1000 fmt as) (\<lambda>d.
     bindE (put_chars E U (out d) w) (\<lambda>(p, S).
     bindE (user_call E U 4 [printf_sem] (p\<lparr>space := put_stores (stores d) (space p)\<rparr>, S)) (\<lambda>(_, w). Inr (1, w)))))"

definition user_printf :: "'f fpu \<Rightarrow> 'd env \<Rightarrow> user \<Rightarrow> u32 \<Rightarrow> string \<Rightarrow> 'f arg list \<Rightarrow> 'd world \<Rightarrow> (int \<times> 'd world) res" where
  "user_printf F E U printf_sem fmt as w = user_vprintf F E U printf_sem fmt as w"

definition printf_init :: "'d env \<Rightarrow> user \<Rightarrow> 'd world \<Rightarrow> (int \<times> 'd world) res" where
  "printf_init E U = user_call E U 3 [1]"

text \<open>\<open>cp\<close>, with the messages of \<open>t0.dir\<close>; \<open>source\<close> is what \<open>__FILE__\<close> stands for.\<close>

definition newline :: char where
  "newline = char_of (10 :: nat)"

definition complain_about :: "'f fpu \<Rightarrow> 'd env \<Rightarrow> user \<Rightarrow> u32 \<Rightarrow> string \<Rightarrow> string \<Rightarrow> u32 \<Rightarrow> u32 \<Rightarrow> 'd world \<Rightarrow> 'd world res" where
  "complain_about F E U printf_sem source what line fd w =
     bindE (user_printf F E U printf_sem (''*** %s:%d '' @ what @ '' error, fd = %d'' @ [newline]) [AStr (Some source), AInt line, AInt fd] w)
       (\<lambda>(_, w). Inr w)"

definition cp :: "'f fpu \<Rightarrow> nat \<Rightarrow> 'd env \<Rightarrow> user \<Rightarrow> u32 \<Rightarrow> string \<Rightarrow> u32 \<Rightarrow> u32 \<Rightarrow> 'd world \<Rightarrow> 'd world res" where
  "cp F fuel E U printf_sem source from to =
     cp_loop fuel E U (complain_about F E U printf_sem source ''read'' 27 from)
       (complain_about F E U printf_sem source ''write'' 34 to) from to"

end
