(* ===== verification/Libc_Claims.thy ===== *)
theory Libc_Claims
  imports Libc Sys_Example Snprintf_Claims
begin

text \<open>\<open>cp\<close> over the kernel: a file of the disk, through \<open>read\<close> and \<open>write\<close>, to the console.\<close>

section \<open>Arguments of calls\<close>

lemma getarg_call:
  assumes "unat (sp U) + 16 \<le> 2 ^ 32"
  shows "getarg 0 \<lparr>pc = 0, esp = sp U\<rparr> (p\<lparr>space := put_args (sp U + 4) [x, y, z] m\<rparr>) = x"
    "getarg (Suc 0) \<lparr>pc = 0, esp = sp U\<rparr> (p\<lparr>space := put_args (sp U + 4) [x, y, z] m\<rparr>) = y"
    "getarg 2 \<lparr>pc = 0, esp = sp U\<rparr> (p\<lparr>space := put_args (sp U + 4) [x, y, z] m\<rparr>) = z"
proof -
  have u: "unat (sp U + 4) = unat (sp U) + 4" "unat (sp U + 8) = unat (sp U) + 8" "unat (sp U + 12) = unat (sp U) + 12"
    using assms unat_offset [of "sp U" 4] unat_offset [of "sp U" 8] unat_offset [of "sp U" 12] by simp_all
  have e: "sp U + 4 + 4 = sp U + 8" "sp U + 8 + 4 = sp U + 12" "sp U + 4 + 4 * 2 = sp U + 12" "12 + sp U = sp U + 12" "8 + sp U = sp U + 8" by simp_all
  have "apart (sp U + 4) 4 (sp U + 8) 4" "apart (sp U + 4) 4 (sp U + 12) 4" "apart (sp U + 8) 4 (sp U + 12) 4"
    using u assms by (simp_all add: apart_def)
  then show "getarg 0 \<lparr>pc = 0, esp = sp U\<rparr> (p\<lparr>space := put_args (sp U + 4) [x, y, z] m\<rparr>) = x"
    "getarg (Suc 0) \<lparr>pc = 0, esp = sp U\<rparr> (p\<lparr>space := put_args (sp U + 4) [x, y, z] m\<rparr>) = y"
    "getarg 2 \<lparr>pc = 0, esp = sp U\<rparr> (p\<lparr>space := put_args (sp U + 4) [x, y, z] m\<rparr>) = z"
    unfolding getarg_def by (simp_all add: e get_word_other)
qed

lemma buffer_kept:
  assumes "apart a n (sp U) 16"
  shows "get_bytes a n (put_args (sp U + 4) [x, y, z] m) = get_bytes a n m"
proof -
  have s: "unat (sp U) + 16 \<le> 2 ^ 32" using assms by (simp add: apart_def)
  have u: "unat (sp U + 4) = unat (sp U) + 4" "unat (sp U + 8) = unat (sp U) + 8" "unat (sp U + 12) = unat (sp U) + 12"
    using s unat_offset [of "sp U" 4] unat_offset [of "sp U" 8] unat_offset [of "sp U" 12] by simp_all
  have e: "sp U + 4 + 4 = sp U + 8" "sp U + 8 + 4 = sp U + 12" by simp_all
  have "apart a n (sp U + 4) 4" "apart a n (sp U + 8) 4" "apart a n (sp U + 12) 4"
    using assms u by (auto simp: apart_def)
  then show ?thesis by (simp add: e get_bytes_other_word)
qed

section \<open>The two calls\<close>

lemma get_fd_space [simp]: "get_fd (p\<lparr>space := m\<rparr>) = get_fd p"
  by (simp add: get_fd_def)

lemma in_table: "\<not> (14 :: u32) \<le> 1" "\<not> (14 :: u32) \<le> 12"
  by (simp_all add: word_le_nat_alt)

lemma write_console:
  assumes "unat (sp U) + 16 \<le> 2 ^ 32" "check_range (conf E) a n" "fds S ! get_fd p fd \<in> {StdOut, StdErr}"
  shows "\<exists>m. user_write E U fd a n (p, S) = Inr (int (unat n), (p\<lparr>space := put_args (sp U + 4) [fd, a, n] (space p)\<rparr>,
    S\<lparr>console := console S @ get_bytes a (unat n) (put_args (sp U + 4) [fd, a, n] (space p))\<rparr>))"
  using assms(2,3)
  by (auto simp: user_write_def user_call_def sysHandler_def NUM_SYSCALLS_def syscall_table_def sys_write_def
      getarg_call [OF assms(1)] fd_write_def std_write_def std_write_same in_table simp del: put_args.simps)

lemma read_file:
  assumes sp: "unat (sp U) + 16 \<le> 2 ^ 32" and range: "check_range (conf E) a n"
    and dev: "block_device (node_device (fs_block_size (filesys E)) (dev E) (fresh_block E) nd) ok content" "ok (nd, disk S)"
    and fd: "fds S ! get_fd p fd = FileFD nd off" "off \<le> nsize nd"
  defines "k \<equiv> min (unat n) (unat (nsize nd) - unat off)"
  shows "\<exists>nd' d'. user_read E U fd a n (p, S) =
    Inr (int k, (p\<lparr>space := put_bytes a (bytes content (unat off) k) (put_args (sp U + 4) [fd, a, n] (space p))\<rparr>,
      S\<lparr>disk := d', fds := (fds S)[get_fd p fd := FileFD nd' (off + of_nat k)]\<rparr>)) \<and> ok (nd', d')"
proof -
  have sz: "size_in_bytes (node_device (fs_block_size (filesys E)) (dev E) (fresh_block E) nd) = nsize nd" by (simp add: node_device_def)
  obtain s' where r: "read_all (node_device (fs_block_size (filesys E)) (dev E) (fresh_block E) nd) off n (nd, disk S) =
      Inr ((int k, bytes content (unat off) k), s')" "ok s'"
    using block_device.read_all_spec [OF dev, of off n] fd(2) unfolding sz k_def by blast
  obtain nd' d' where s: "s' = (nd', d')" by (cases s')
  have "\<not> nsize nd < off" using fd(2) by simp
  then show ?thesis using r s range fd(1)
    by (auto simp: user_read_def user_call_def sysHandler_def NUM_SYSCALLS_def syscall_table_def sys_read_def fd_read_def
        getarg_call [OF sp] in_table simp del: put_args.simps)
qed

section \<open>The loop\<close>

lemma cp_write_once:
  assumes "user_write E U to ptr (word_of_int (int k)) w = Inr (int k, w')" "0 < k"
  shows "cp_write (Suc (Suc fuel)) E U complain to ptr (int k) w = Inr w'"
  using assms by simp

lemma cp_loop_step:
  assumes "cp_write 101 E U nw to (local_buf U) k w1 = Inr w2" "user_read E U from (local_buf U) 100 w = Inr (k, w1)" "k \<noteq> 0" "\<not> k < 0"
  shows "cp_loop (Suc fuel) E U nr nw from to w = cp_loop fuel E U nr nw from to w2"
  using assms by simp

lemma cp_loop_copies:
  assumes sp: "apart (local_buf U) 100 (sp U) 16" and range: "\<And>n. n \<le> 100 \<Longrightarrow> check_range (conf E) (local_buf U) n"
    and dev: "\<And>nd. nsize nd = sz \<Longrightarrow> block_device (node_device (fs_block_size (filesys E)) (dev E) (fresh_block E) nd) ok content"
    and sized: "\<And>s. ok s \<Longrightarrow> nsize (fst s) = sz"
  shows "ok (nd, disk S) \<Longrightarrow> fds S ! get_fd p from = FileFD nd off \<Longrightarrow> get_fd p from < length (fds S) \<Longrightarrow>
    fds S ! get_fd p to \<in> {StdOut, StdErr} \<Longrightarrow> off \<le> sz \<Longrightarrow> unat sz - unat off < fuel \<Longrightarrow>
    \<exists>p' S' nd'. cp_loop fuel E U nr nw from to (p, S) = Inr (p', S') \<and>
      console S' = console S @ bytes content (unat off) (unat sz - unat off) \<and> fdt p' = fdt p \<and>
      fds S' = (fds S)[get_fd p from := FileFD nd' sz] \<and> ok (nd', disk S')"
proof (induction fuel arbitrary: nd S p off)
  case 0
  then show ?case by simp
next
  case (Suc fuel)
  have sp16: "unat (sp U) + 16 \<le> 2 ^ 32" using sp by (simp add: apart_def)
  have nd: "nsize nd = sz" using sized [OF Suc.prems(1)] by simp
  let ?k = "min 100 (unat sz - unat off)"
  have r100: "check_range (conf E) (local_buf U) 100" using range by simp
  obtain nd1 d1 where rd: "user_read E U from (local_buf U) 100 (p, S) =
      Inr (int ?k, (p\<lparr>space := put_bytes (local_buf U) (bytes content (unat off) ?k) (put_args (sp U + 4) [from, local_buf U, 100] (space p))\<rparr>,
        S\<lparr>disk := d1, fds := (fds S)[get_fd p from := FileFD nd1 (off + of_nat ?k)]\<rparr>))" "ok (nd1, d1)"
    using read_file [OF sp16 r100 dev [OF nd] Suc.prems(1,2)] Suc.prems(5) unfolding nd by auto
  define p1 where "p1 = p\<lparr>space := put_bytes (local_buf U) (bytes content (unat off) ?k) (put_args (sp U + 4) [from, local_buf U, 100] (space p))\<rparr>"
  define S1 where "S1 = S\<lparr>disk := d1, fds := (fds S)[get_fd p from := FileFD nd1 (off + of_nat ?k)]\<rparr>"
  have fd1: "get_fd p1 = get_fd p" by (simp add: p1_def)
  have offk: "unat (off + of_nat ?k) = unat off + ?k"
    using Suc.prems(5) unat_u32 [of sz] by (intro unat_offset) (simp add: word_le_nat_alt)
  show ?case
  proof (cases "?k = 0")
    case True
    then have "off = sz" using Suc.prems(5) by (simp add: word_le_nat_alt word_unat_eq_iff)
    then have "cp_loop (Suc fuel) E U nr nw from to (p, S) = Inr (p1, S1)" "fds S1 = (fds S)[get_fd p from := FileFD nd1 sz]"
      using rd(1) True by (simp_all add: p1_def S1_def)
    then show ?thesis using True rd(2) by (auto simp: p1_def S1_def bytes_def)
  next
    case False
    define n :: u32 where "n = of_nat ?k"
    have n: "unat n = ?k" "n \<le> 100" by (simp_all add: n_def unat_of_nat word_le_nat_alt)
    have to: "fds S1 ! get_fd p1 to \<in> {StdOut, StdErr}"
      using Suc.prems(2,4) by (cases "get_fd p from = get_fd p to") (auto simp: S1_def fd1)
    have kept: "get_bytes (local_buf U) ?k (put_args (sp U + 4) [to, local_buf U, n] (space p1)) = bytes content (unat off) ?k"
    proof -
      have "apart (local_buf U) ?k (sp U) 16" using sp by (auto simp: apart_def)
      then show ?thesis by (simp add: buffer_kept p1_def get_put_bytes del: put_args.simps)
    qed
    define p2 where "p2 = p1\<lparr>space := put_args (sp U + 4) [to, local_buf U, n] (space p1)\<rparr>"
    define S2 where "S2 = S1\<lparr>console := console S1 @ bytes content (unat off) ?k\<rparr>"
    have wr: "user_write E U to (local_buf U) n (p1, S1) = Inr (int ?k, (p2, S2))"
      using write_console [OF sp16 range [OF n(2)] to] unfolding n(1) kept by (simp add: p2_def S2_def)
    have hundred: "(101 :: nat) = Suc (Suc 99)" by simp
    have "cp_write 101 E U nw to (local_buf U) (int ?k) (p1, S1) = Inr (p2, S2)"
      unfolding hundred by (rule cp_write_once) (use wr False in \<open>simp_all add: n_def [symmetric] del: of_nat_min\<close>)
    moreover have "user_read E U from (local_buf U) 100 (p, S) = Inr (int ?k, (p1, S1))" using rd(1) unfolding p1_def S1_def .
    moreover have "int ?k \<noteq> 0" "\<not> int ?k < 0" using False by simp_all
    ultimately have step: "cp_loop (Suc fuel) E U nr nw from to (p, S) = cp_loop fuel E U nr nw from to (p2, S2)"
      by (rule cp_loop_step)
    have fd2: "get_fd p2 = get_fd p" "fdt p2 = fdt p" by (simp_all add: p2_def fd1) (simp add: p1_def)
    have S2: "fds S2 = (fds S)[get_fd p from := FileFD nd1 (off + of_nat ?k)]" "disk S2 = d1"
      "console S2 = console S @ bytes content (unat off) ?k"
      by (simp_all add: S2_def S1_def)
    have "\<exists>p' S' nd'. cp_loop fuel E U nr nw from to (p2, S2) = Inr (p', S') \<and>
      console S' = console S2 @ bytes content (unat (off + of_nat ?k)) (unat sz - unat (off + of_nat ?k)) \<and> fdt p' = fdt p2 \<and>
      fds S' = (fds S2)[get_fd p2 from := FileFD nd' sz] \<and> ok (nd', disk S')"
    proof (rule Suc.IH)
      show "ok (nd1, disk S2)" using rd(2) S2 by simp
      show "fds S2 ! get_fd p2 from = FileFD nd1 (off + of_nat ?k)" "get_fd p2 from < length (fds S2)"
        using Suc.prems(3) by (simp_all add: S2 fd2)
      show "fds S2 ! get_fd p2 to \<in> {StdOut, StdErr}" using to by (simp add: S2_def fd2 fd1)
      show "off + of_nat ?k \<le> sz" using offk Suc.prems(5) by (simp add: word_le_nat_alt)
      show "unat sz - unat (off + of_nat ?k) < fuel" using offk Suc.prems(6) False by simp
    qed
    moreover have "bytes content (unat off) ?k @ bytes content (unat off + ?k) (unat sz - (unat off + ?k)) =
        bytes content (unat off) (unat sz - unat off)"
    proof -
      have "?k + (unat sz - (unat off + ?k)) = unat sz - unat off" by simp
      then show ?thesis by (simp only: bytes_append)
    qed
    ultimately show ?thesis unfolding step by (auto simp: S2 fd2 offk)
  qed
qed

section \<open>cp\<close>

lemma check_range_mono:
  assumes "check_range c a m" "n \<le> m"
  shows "check_range c a n"
proof -
  have le: "a \<le> a + m" using assms(1) by (simp add: check_range_def Let_def)
  then have "a \<le> a + n" "a + n \<le> a + m"
    using assms(2) unat_u32 [of a] unat_u32 [of m] by (auto simp: word_le_nat_alt unat_plus_if' split: if_splits)
  then show ?thesis using assms(1) by (auto simp: check_range_def Let_def)
qed

text \<open>
  C40. \<open>cp\<close> from an open file to the console, over the kernel's \<open>read\<close> and \<open>write\<close>: it ends, the console has got exactly the bytes of the
  file from the position of the descriptor on, in their order, with no message of an error, and the descriptor stands at the end of the
  file; the table of descriptors is as before. The buffer must be 100 bytes that the kernel accepts, apart from the stack of the stubs.
\<close>

theorem cp_copies:
  assumes "apart (local_buf U) 100 (sp U) 16" "check_range (conf E) (local_buf U) 100"
    and "\<And>nd. nsize nd = sz \<Longrightarrow> block_device (node_device (fs_block_size (filesys E)) (dev E) (fresh_block E) nd) ok content"
    and "\<And>s. ok s \<Longrightarrow> nsize (fst s) = sz"
    and "ok (nd, disk S)" "fds S ! get_fd p from = FileFD nd off" "get_fd p from < length (fds S)"
    and "fds S ! get_fd p to \<in> {StdOut, StdErr}" "off \<le> sz" "unat sz - unat off < fuel"
  shows "\<exists>p' S' nd'. cp F fuel E U printf_sem source from to (p, S) = Inr (p', S') \<and>
    console S' = console S @ bytes content (unat off) (unat sz - unat off) \<and> fdt p' = fdt p \<and>
    fds S' = (fds S)[get_fd p from := FileFD nd' sz] \<and> ok (nd', disk S')"
  unfolding cp_def by (rule cp_loop_copies [OF assms(1) check_range_mono [OF assms(2)] assms(3,4) assms(5-10)])

definition boot_user :: user where
  "boot_user = \<lparr>sp = 0x80007000, local_t = 0x80008000, local_buf = 0x80008010\<rparr>"

theorem cp_copies_witness:
  "\<forall>F :: unit fpu. \<exists>p' S' nd'. cp F 100 boot_env boot_user 0 ''libc.c'' 3 1 (boot_proc, boot_sys) = Inr (p', S') \<and>
    console S' = [1, 2, 3, 4, 5, 6, 7, 8, 9, 10] \<and> fds S' ! 4 = FileFD nd' 94"
proof
  fix F :: "unit fpu"
  let ?ok = "node_ok (\<lambda>_. True) boot_content 1024 small_data 94" and ?content = "file_content boot_content 1024 small_data"
  have same: "node_device 1024 boot_device zeros nd = file_device 1024 boot_device zeros 94" if "nsize nd = 94" for nd
    using that by (simp add: node_device_file)
  have dev: "block_device (node_device (fs_block_size (filesys boot_env)) (dev boot_env) (fresh_block boot_env) nd) ?ok ?content"
    if "nsize nd = 94" for nd
    using boot.contents.block_device_axioms same [OF that] by (simp add: boot_env_def)
  have size: "nsize (fst s) = 94" if "?ok s" for s using that by (cases s) (simp add: node_ok_def)
  have fd: "get_fd boot_proc 3 = 4" "get_fd boot_proc 1 = 2"
    by (simp_all add: get_fd_def get_desc_def boot_proc_def TYPE_MASK_def TYPE_FD_def NUM_MASK_def FDT_SIZE_def word_le_nat_alt)
  have range: "check_range (conf boot_env) (local_buf boot_user) 100"
    by (simp add: check_range_def boot_env_def boot_conf_def boot_user_def)
  have apart: "apart (local_buf boot_user) 100 (sp boot_user) 16" by (simp add: apart_def boot_user_def)
  have ok: "?ok (boot_file, disk boot_sys)" using boot_node_ok by (simp add: boot_sys_def)
  have obj: "fds boot_sys ! get_fd boot_proc 3 = FileFD boot_file 84" "get_fd boot_proc 3 < length (fds boot_sys)"
    "fds boot_sys ! get_fd boot_proc 1 \<in> {StdOut, StdErr}" "console boot_sys = []" "length (fds boot_sys) = 5"
    by (simp_all add: fd boot_sys_def)
  have bytes: "bytes ?content 84 10 = [1, 2, 3, 4, 5, 6, 7, 8, 9, 10]"
    using boot_bytes [of 84 10] tiny_bytes_at [of 84 10] by (simp add: tiny_bytes_def)
  have le: "(84 :: u32) \<le> 94" "unat (94 :: u32) - unat (84 :: u32) < 100" by (simp_all add: word_le_nat_alt)
  from cp_copies [OF apart range dev size ok obj(1,2,3) le, where F = F and printf_sem = 0 and source = "''libc.c''"]
  show "\<exists>p' S' nd'. cp F 100 boot_env boot_user 0 ''libc.c'' 3 1 (boot_proc, boot_sys) = Inr (p', S') \<and>
    console S' = [1, 2, 3, 4, 5, 6, 7, 8, 9, 10] \<and> fds S' ! 4 = FileFD nd' 94"
    by (auto simp: obj fd bytes)
qed

section \<open>printf\<close>

lemma getarg_call1:
  "getarg 0 \<lparr>pc = 0, esp = sp U\<rparr> (p\<lparr>space := put_args (sp U + 4) [x] m\<rparr>) = x"
  unfolding getarg_def by simp

lemma get_sd_space [simp]: "get_sd (p\<lparr>space := m\<rparr>) = get_sd p"
  by (simp add: get_sd_def)

lemma in_table_sem: "\<not> (14 :: u32) \<le> 4" "\<not> (14 :: u32) \<le> 5"
  by (simp_all add: word_le_nat_alt)

lemma down_call:
  assumes "sds S ! get_sd p k = SemaphoreSD n" "0 < n"
  shows "user_call E U 5 [k] (p, S) = Inr (0, (p\<lparr>space := put_args (sp U + 4) [k] (space p)\<rparr>,
    S\<lparr>sds := (sds S)[get_sd p k := SemaphoreSD (n - 1)]\<rparr>))"
  using assms by (simp add: user_call_def sysHandler_def NUM_SYSCALLS_def syscall_table_def sys_down_def getarg_call1 sd_down_def
      in_table_sem del: put_args.simps)

lemma up_call:
  assumes "sds S ! get_sd p k = SemaphoreSD n"
  shows "user_call E U 4 [k] (p, S) = Inr (0, (p\<lparr>space := put_args (sp U + 4) [k] (space p)\<rparr>,
    S\<lparr>sds := (sds S)[get_sd p k := SemaphoreSD (n + 1)]\<rparr>))"
  using assms by (simp add: user_call_def sysHandler_def NUM_SYSCALLS_def syscall_table_def sys_up_def getarg_call1 sd_up_def
      in_table_sem del: put_args.simps)

lemma putchar_prints:
  assumes "apart (local_t U) 1 (sp U) 16" "check_range (conf E) (local_t U) 1" "fds S ! get_fd p 1 \<in> {StdOut, StdErr}"
  shows "\<exists>m. putchar E U c (p, S) = Inr (1, (p\<lparr>space := m\<rparr>, S\<lparr>console := console S @ [c]\<rparr>))"
proof -
  have s: "unat (sp U) + 16 \<le> 2 ^ 32" using assms(1) by (simp add: apart_def)
  let ?p = "p\<lparr>space := put_bytes (local_t U) [c] (space p)\<rparr>"
  have "fds S ! get_fd ?p 1 \<in> {StdOut, StdErr}" using assms(3) by simp
  moreover have "get_bytes (local_t U) (Suc 0) (put_args (sp U + 4) xs (put_bytes (local_t U) [c] (space p))) = [c]"
    if "xs = [x, y, z]" for xs x y z
    using buffer_kept [OF assms(1)] get_put_bytes [of "[c]" 1 "local_t U" "space p"] unfolding that by (simp del: put_args.simps)
  ultimately show ?thesis using write_console [OF s assms(2), where p = ?p and S = S and fd = 1]
    by (auto simp: putchar_def simp del: put_args.simps)
qed

lemma put_chars_prints:
  assumes "apart (local_t U) 1 (sp U) 16" "check_range (conf E) (local_t U) 1"
  shows "fds S ! get_fd p 1 \<in> {StdOut, StdErr} \<Longrightarrow>
    \<exists>m. put_chars E U cs (p, S) = Inr (p\<lparr>space := m\<rparr>, S\<lparr>console := console S @ map of_char cs\<rparr>)"
proof (induction cs arbitrary: p S)
  case Nil
  then show ?case by (intro exI [of _ "space p"]) simp
next
  case (Cons c cs)
  obtain m where m: "putchar E U (of_char c) (p, S) = Inr (1, (p\<lparr>space := m\<rparr>, S\<lparr>console := console S @ [of_char c]\<rparr>))"
    using putchar_prints [OF assms Cons.prems] by blast
  have "fds (S\<lparr>console := console S @ [of_char c]\<rparr>) ! get_fd (p\<lparr>space := m\<rparr>) 1 \<in> {StdOut, StdErr}" using Cons.prems by simp
  from Cons.IH [OF this] show ?case by (auto simp: m)
qed

text \<open>
  \<open>printf\<close> of the user library prints what the formatter puts out, byte by byte through the kernel's \<open>write\<close>, and nothing else changes: the semaphore
  that keeps printing threads apart is taken and given back, the process has changed in its memory only.
\<close>

theorem printf_prints:
  assumes "apart (local_t U) 1 (sp U) 16" "check_range (conf E) (local_t U) 1" "fds S ! get_fd p 1 \<in> {StdOut, StdErr}"
    and "get_sd p k < length (sds S)" "sds S ! get_sd p k = SemaphoreSD n" "0 < n"
    and "dopr F \<lparr>out = [], currlen = 0\<rparr> 1000 fmt as = Inr d"
  shows "\<exists>m. user_printf F E U k fmt as (p, S) = Inr (1, (p\<lparr>space := m\<rparr>, S\<lparr>console := console S @ map of_char (out d)\<rparr>))"
proof -
  define p1 where "p1 = p\<lparr>space := put_args (sp U + 4) [k] (space p)\<rparr>"
  define S1 where "S1 = S\<lparr>sds := (sds S)[get_sd p k := SemaphoreSD (n - 1)]\<rparr>"
  have down: "user_call E U 5 [k] (p, S) = Inr (0, (p1, S1))" unfolding p1_def S1_def by (rule down_call [OF assms(5,6)])
  have "fds S1 ! get_fd p1 1 \<in> {StdOut, StdErr}" using assms(3) by (simp add: p1_def S1_def)
  then obtain m where put: "put_chars E U (out d) (p1, S1) =
      Inr (p1\<lparr>space := m\<rparr>, S1\<lparr>console := console S1 @ map of_char (out d)\<rparr>)"
    using put_chars_prints [OF assms(1,2)] by blast
  have "sds (S1\<lparr>console := console S1 @ map of_char (out d)\<rparr>) ! get_sd (p1\<lparr>space := put_stores (stores d) m\<rparr>) k = SemaphoreSD (n - 1)"
    using assms(4) by (simp add: p1_def S1_def)
  note up = up_call [OF this, where E = E and U = U]
  have same: "S1\<lparr>console := c, sds := (sds S)[get_sd p k := SemaphoreSD n]\<rparr> = S\<lparr>console := c\<rparr>" for c
    using assms(5) list_update_id [of "sds S" "get_sd p k"] by (simp add: S1_def)
  show ?thesis unfolding user_printf_def user_vprintf_def down
    using put up assms(7) same by (auto simp: p1_def S1_def simp del: put_args.simps)
qed

definition printf_proc :: process where
  "printf_proc = boot_proc\<lparr>sdt := [1, 0, 0, 0, 0, 0, 0, 0, 0, 0]\<rparr>"

definition printf_sys :: "unit system" where
  "printf_sys = boot_sys\<lparr>sds := [EmptySD, SemaphoreSD 1]\<rparr>"

theorem printf_prints_witness:
  "\<forall>F :: unit fpu. \<exists>m. user_printf F boot_env boot_user 0x20000000 ''hi'' [] (printf_proc, printf_sys) =
    Inr (1, (printf_proc\<lparr>space := m\<rparr>, printf_sys\<lparr>console := [0x68, 0x69]\<rparr>))"
proof
  fix F :: "unit fpu"
  obtain d where d: "dopr F \<lparr>out = [], currlen = 0\<rparr> 1000 ''hi'' [] = Inr d" "out d = ''hi''"
    using dopr_plain [of "''hi''" 1000 F "\<lparr>out = [], currlen = 0\<rparr>" "[]"] by (auto simp: plain_text_def nul_def)
  have fd: "get_fd printf_proc 1 = 2" "get_sd printf_proc 0x20000000 = 1"
    by (simp_all add: get_fd_def get_sd_def get_desc_def printf_proc_def boot_proc_def TYPE_MASK_def TYPE_FD_def TYPE_SD_def NUM_MASK_def
        FDT_SIZE_def SDT_SIZE_def word_le_nat_alt)
  have sys: "fds printf_sys ! get_fd printf_proc 1 \<in> {StdOut, StdErr}" "get_sd printf_proc 0x20000000 < length (sds printf_sys)"
    "sds printf_sys ! get_sd printf_proc 0x20000000 = SemaphoreSD 1" "console printf_sys = []"
    by (simp_all add: fd printf_sys_def boot_sys_def)
  have "apart (local_t boot_user) 1 (sp boot_user) 16" by (simp add: apart_def boot_user_def)
  moreover have "check_range (conf boot_env) (local_t boot_user) 1"
    by (simp add: check_range_def boot_env_def boot_conf_def boot_user_def)
  moreover have "(0 :: u64) < 1" by simp
  ultimately show "\<exists>m. user_printf F boot_env boot_user 0x20000000 ''hi'' [] (printf_proc, printf_sys) =
      Inr (1, (printf_proc\<lparr>space := m\<rparr>, printf_sys\<lparr>console := [0x68, 0x69]\<rparr>))"
    using printf_prints [OF _ _ sys(1,2,3) _ d(1), where E = boot_env and U = boot_user] by (simp add: d(2) sys(4))
qed

end
