(* ===== verification/Spec2Isabelle.thy ===== *)
theory Spec2Isabelle
  imports Heap_Props PhysMem_Props VMM_Boot Threads_Props Switch_Claims Barrier_Claims Locks Shared Debug_Claims Config
    Machine_Claims Startup_Claims Kernel_Claims User_Claims Libc_Claims
begin

text \<open>
  \<^bold>\<open>A multi-core x86 kernel with processes\<close>

  The repository is a small kernel (\<open>src/kernel\<close>) and user programs (\<open>src/t0.dir\<close>, \<open>src/etan.dir\<close>). Every core runs
  threads; a thread belongs to a process, which has an address space with copy-on-write pages, files, children and
  semaphores, and asks for them through fourteen system calls. Programs are ELF files on an ext2 disk.

  \<^bold>\<open>Parts and theories\<close>

  \<^item> \<open>Prelude\<close>: machine integers, the result type \<open>'a res\<close> of operations that may panic (\<open>Debug::panic\<close>, \<open>ASSERT\<close>) or stop the
    thread, bounded loops (\<open>forE\<close>) with their invariant rules, and \<open>outcome\<close>.
  \<^item> \<open>Heap\<close> (\<open>heap.cc\<close>): the array of words with its tiling and its linked list; \<open>Heap_Inv\<close> has the invariant (tiling, list and links
    agree), \<open>Allocator\<close> the contract of a heap as a locale, \<open>Heap_Thms\<close> its interpretation on \<open>malloc\<close> and \<open>free\<close>, \<open>Heap_Props\<close> the
    claims.
  \<^item> \<open>PhysMem\<close> (\<open>physmem.cc\<close>, \<open>physmem.h\<close>): frames, the free list inside them and the 16-bit reference counts; \<open>PhysMem_Inv\<close>,
    \<open>Frames\<close> (the contract as a locale, with runs in which no frame gets more than \<open>b\<close> references), \<open>PhysMem_Thms\<close> (its interpretation),
    \<open>PhysMem_Props\<close>.
  \<^item> \<open>VMM\<close> (\<open>vmm.cc\<close>): page tables in frames. \<open>VMM_Inv\<close> counts the references that tables own, \<open>VMM_Copy\<close> and \<open>VMM_Fork\<close> follow the
    copies, \<open>VMM_Props\<close> and \<open>VMM_Protect\<close> have the claims on whole address spaces. \<open>VMM_Space\<close> has the invariant of one space (\<open>space\<close>: its
    tables are its own or read-only, and the reference counts are those of its entries and of the others), \<open>VMM_Fault\<close> and \<open>VMM_Pages\<close> follow
    \<open>get_table\<close>, \<open>map\<close> and \<open>map_copy\<close> and with them the page fault, \<open>VMM_Claims\<close> shows that stores and loads of the user, with the faults they
    raise, are those of a private memory, \<open>VMM_Clone\<close> that \<open>Process::clone\<close> makes two such spaces of one, \<open>VMM_Clear\<close> that
    \<open>clear_pd\<close> empties one. \<open>VMM_Boot\<close> follows \<open>global_init\<close>, which maps memory to itself, and the copy of the kernel's directory that a new
    process starts from.
  \<^item> \<open>Queue\<close> (\<open>queue.h\<close>): the intrusive queue, as a refinement of lists (locale \<open>fifo\<close>).
  \<^item> \<open>Threads\<close> (\<open>threads.h\<close>, \<open>threads.cc\<close>, \<open>semaphore.h\<close>, \<open>condition.h\<close>, \<open>blocking_lock.h\<close>): a step relation over any number of cores,
    on which any thread, idle or not, may call any operation; assertions are evaluated where the code has them, and whether interrupts are disabled is part of
    the state. \<open>Threads_Inv\<close> says where each thread is, \<open>Threads_Thms\<close> and \<open>Threads_Steps\<close> that every step keeps it and which assertions
    can fail, \<open>Threads_Idle\<close> that an idle thread in \<open>stop\<close> has interrupts enabled and returns to its core, \<open>Threads_Props\<close> what follows for
    runs. \<open>Switch\<close> (\<open>threads.h\<close>, \<open>pcb.h\<close>, \<open>process.h\<close>) adds processes: the directory and the stack for traps that a switch sets, and the
    end of a process with its thread; \<open>Switch_Claims\<close> has the invariant, over the one of \<open>Threads_Inv\<close>.
  \<^item> \<open>Barrier\<close> (\<open>barrier.h\<close>): the two barriers as interleaved steps over semaphores, locks and conditions, as their claims describe them;
    \<open>Barrier_Claims\<close> has the invariants of rounds and of waiting threads.
  \<^item> \<open>Locks\<close> (\<open>atomic.h\<close>): interrupt flags and spin locks as interleaved steps; the locale \<open>test_and_set\<close> has one proof of exclusion for the
    three locks.
  \<^item> \<open>Shared\<close> (\<open>shared.h\<close>): reference-counted pointers; the count is the number of handles.
  \<^item> \<open>Snprintf\<close> (\<open>snprintf.cc\<close>, \<open>libk.cc\<close>): the formatter as a state machine on characters; \<open>Snprintf_Thms\<close> says what each routine prints,
    \<open>Snprintf_Props\<close> treats the machine, \<open>Snprintf_Claims\<close> has the claims, \<open>Snprintf_Format\<close> a
    reference formatter that parses first, which the machine agrees with.
  \<^item> \<open>Debug\<close> (\<open>debug.cc\<close>, \<open>debug.h\<close>, \<open>walk_pd\<close>, \<open>printFile\<close>, the messages of \<open>kernelInit\<close>): messages and panics over any output stream;
    \<open>Debug_Claims\<close> states the stream as a locale and interprets it on the serial port.
  \<^item> \<open>BlockIO\<close> (\<open>block_io.h\<close>, \<open>block_io.cc\<close>), \<open>Ide\<close> (\<open>ide.cc\<close>, \<open>ide.h\<close>), \<open>Ext2\<close> (\<open>ext2.cc\<close>, \<open>ext2.h\<close>): the locale \<open>flaky_store\<close> says that a
    device serves its content up to a capacity or stops with one of given errors, \<open>block_store\<close> that there are no errors, \<open>block_device\<close> that there is no
    bound either. The locale \<open>ata\<close> is a drive of a given number of sectors that keeps to the protocol; of its status only BSY counts while BSY is set.
    The driver over it is a \<open>flaky_store\<close>, because \<open>waitForDrive\<close> looks at the other bits first, and a \<open>block_store\<close> if the drive is ready and
    without error also while it is busy (\<open>ata_steady\<close>, as the drives of QEMU are). The simulated drive of
    \<open>Drive_Sim\<close>, of 20480 sectors, is an instance. A file is a \<open>block_device\<close> over a device (sublocale of \<open>ext2_file\<close>), so that reading is proved once for both.
    \<open>Ext2_Props\<close> treats directories, \<open>Ext2_Claims\<close> has the claims. \<open>Ext2_Open\<close> says by rules where the bytes of a disk lead a
    path, through directories and links, and that mounting and \<open>open\<close> find it.
  \<^item> \<open>Memory\<close>, \<open>Process\<close> (\<open>process.h\<close>, \<open>process.cc\<close>, \<open>descriptor.h\<close>, \<open>descriptor.cc\<close>, \<open>future.h\<close>), \<open>Elf\<close> (\<open>elf.cc\<close>, \<open>elf.h\<close>), \<open>Sys\<close> (\<open>sys.cc\<close>):
    address spaces as the kernel reads and writes them, tables of descriptors (locale \<open>descriptor_table\<close>, for files, children and
    semaphores in \<open>Process_Thms\<close>), the loader, and the system calls. \<open>Elf_Claims\<close>, \<open>Sys_Thms\<close>, \<open>Sys_Exec\<close> and \<open>Sys_Claims\<close> have their
    properties, \<open>Sys_Example\<close> a small system for the instances.
  \<^item> \<open>Config\<close> (\<open>config.cc\<close>, \<open>config.h\<close>): what the kernel reads from the tables of the firmware.
  \<^item> \<open>Machine\<close> (\<open>idt.cc\<close>, \<open>smp.cc\<close>, \<open>smp.h\<close>, \<open>pit.cc\<close>, \<open>pit.h\<close>, \<open>u8250.cc\<close>): gates, the local interrupt controller, timers and the serial port over
    ports and registers that are parameters. \<open>Machine_Claims\<close> reads gates as the processor does and follows the calibration.
  \<^item> \<open>Startup\<close> (\<open>init.cc\<close>): how the cores start one another and \<open>kernelMain\<close>, as a step relation; \<open>Startup_Claims\<close> has its invariant and a measure
    of the work that is left.
  \<^item> \<open>Kernel\<close> (\<open>kernel.cc\<close>): \<open>kernelMain\<close> and the thread of the first program; \<open>Kernel_Claims\<close> puts the drive, the file system, the
    loader and \<open>exec\<close> together, and has a disk from which the kernel starts.
  \<^item> \<open>User_Heap\<close> (\<open>t0.dir/sbin/heap.c\<close>, the same as \<open>etan.dir/sbin/heap.c\<close>): the first-fit heap of user programs, on the blocks of the
    kernel heap; \<open>User_Claims\<close> interprets \<open>allocator\<close> on it and treats \<open>realloc\<close>.
  \<^item> \<open>Libc\<close> (\<open>libc.c\<close>, the end of \<open>printf.c\<close>, \<open>sys.S\<close>): the user library, every call of which goes through the system calls of \<open>Sys\<close>;
    \<open>Libc_Claims\<close> follows \<open>cp\<close> from the disk to the console, and \<open>printf\<close>.

  \<^bold>\<open>How they meet\<close>

  The claims on address spaces rest on those on frames through the interpretation \<open>pm\<close> of \<open>frame_store\<close>; the claims on files rest on those on
  devices through \<open>block_store\<close> and \<open>block_device\<close>; \<open>read\<close> and \<open>exec\<close> take any file that is a \<open>block_device\<close>, and \<open>Sys_Example\<close> runs both on an ext2 file on a
  device; \<open>kernelMain_starts_init\<close> goes all the way from the registers of a drive to the first instruction of \<open>/sbin/init\<close>. In \<open>Sys\<close>, memory is a function that never runs out; \<open>VMM\<close> is where it is made of frames, and the claims of \<open>VMM_Claims\<close> and \<open>VMM_Clone\<close> are
  why a function is enough: what a process sees of its pages changes by its own stores only. They ask that no frame has so many references
  that a count of 16 bits may overflow (\<open>few_refs\<close>; the bound \<open>b\<close> in \<open>frames_run_safe\<close>), and leave open that frames run out, which panics (\<open>oom\<close>).

  \<^bold>\<open>Bounds and fuel\<close>

  Loops that the code bounds are recursion on numbers or measures. \<open>None\<close> is a search of the heap that does not end (a cyclic list), which
  the invariant excludes. Fuel occurs for polling the drive (the locale asks for more than the delay of the drive), for the loops over
  directory entries and over the table of interrupt controllers (an entry of length 0 makes no progress; fuel for every
  byte or entry is enough), and for strings and vectors in user memory (\<open>limit\<close>, more than the length of the longest). What is read
  of a drive lies within its capacity (\<open>cap\<close>, the bytes of its sectors). The
  claims that need it state the bound. The formatter ends within \<open>8 (n + 2)\<close> rounds on a format of \<open>n\<close> characters.

  \<^bold>\<open>What is not modelled, and why\<close>

  The boot sector, the switch of stacks and modes and the entries of handlers (\<open>mbr.S\<close>, \<open>machine.S\<close>, \<open>context.S\<close>) are assembly, of which only
  the effect on threads, interrupt flags, directories and stack pointers is modelled; \<open>crti.cc\<close> and \<open>crtn.cc\<close> call constructors. Of \<open>kernelInit\<close>, the set-up of
  a single part is one step in \<open>Startup\<close> and an operation of that part. Preemption by the timer is a \<open>yield\<close> of the step relation in
  \<open>Threads\<close>. That the boot code on the idle threads does not have to wait and enables interrupts before \<open>stop\<close> is a hypothesis there (\<open>idle_code\<close>). The main programs of users are tests. A system call is one step, so that races between calls of processes that share a
  descriptor do not show. Page faults do not interrupt a step of \<open>Sys\<close>, where no access hits an unmapped page; what they do is in the
  \<open>VMM\<close> theories. Destructors that \<open>Shared\<close> runs are steps of their own. The directory of a new process in \<open>Switch\<close> is any that no living
  process has, which \<open>VMM_Boot\<close> and \<open>VMM_Clone\<close> provide.
\<close>

end
